(* ===== verification/Prelude.thy ===== *)
theory Prelude imports Main "HOL-Library.Word" "HOL-Library.Monad_Syntax"
begin

text \<open>
  Shared vocabulary of the development.

  \<^item> The machine types of \<open>common_lib/type.h\<close>: data bytes, registers and checksums are
    fixed-width words; sizes, indices and addresses are natural numbers with the 32-bit
    wrap-around of the Cortex-M3 written out by \<open>u32_add\<close>, \<open>u32_sub\<close> and \<open>u32_mul\<close>.
  \<^item> Memory accesses: a buffer is a list, and \<open>rd\<close>/\<open>wr\<close> answer \<open>None\<close> for an access outside
    it.  Throughout the development \<open>None\<close> at the level of a C function's result means that the C
    code left its arrays (or dereferenced a null pointer); error codes that the code itself returns
    are ordinary values.
  \<^item> The collections \<open>mem_simps\<close> (buffer access) and \<open>u32_simps\<close> (wrap-free arithmetic) that the
    component theories rewrite with.
\<close>

unbundle bit_operations_syntax

named_theorems mem_simps "facts about reads and writes of C arrays"
named_theorems u32_simps "wrap-free instances of 32-bit arithmetic"

type_synonym u8 = "8 word"
type_synonym u16 = "16 word"
type_synonym u32 = "32 word"
type_synonym u64 = "64 word"

subsection \<open>32-bit sizes and indices\<close>

abbreviation U32_RANGE :: nat where
  "U32_RANGE \<equiv> 4294967296"

definition u32_add :: "nat \<Rightarrow> nat \<Rightarrow> nat" where
  "u32_add a b = (a + b) mod U32_RANGE"

definition u32_sub :: "nat \<Rightarrow> nat \<Rightarrow> nat" where
  "u32_sub a b = (a + (U32_RANGE - b mod U32_RANGE)) mod U32_RANGE"

definition u32_mul :: "nat \<Rightarrow> nat \<Rightarrow> nat" where
  "u32_mul a b = (a * b) mod U32_RANGE"

lemma u32_add_exact [u32_simps]: "a + b < U32_RANGE \<Longrightarrow> u32_add a b = a + b"
  by (simp add: u32_add_def)

lemma u32_sub_exact [u32_simps]: "b \<le> a \<Longrightarrow> a < U32_RANGE \<Longrightarrow> u32_sub a b = a - b"
proof -
  assume "b \<le> a" "a < U32_RANGE"
  then have "a + (U32_RANGE - b mod U32_RANGE) = U32_RANGE + (a - b)" by simp
  then show ?thesis using \<open>a < U32_RANGE\<close> by (simp add: u32_sub_def)
qed

lemma u32_sub_borrow: "a < b \<Longrightarrow> b < U32_RANGE \<Longrightarrow> u32_sub a b = U32_RANGE + a - b"
  by (simp add: u32_sub_def)

lemma u32_mul_exact [u32_simps]: "a * b < U32_RANGE \<Longrightarrow> u32_mul a b = a * b"
  by (simp add: u32_mul_def)

lemma u32_add_less: "u32_add a b < U32_RANGE"
  by (simp add: u32_add_def)

lemma u32_sub_less: "u32_sub a b < U32_RANGE"
  by (simp add: u32_sub_def)

subsection \<open>Array accesses\<close>

definition rd :: "'a list \<Rightarrow> nat \<Rightarrow> 'a option" where
  "rd xs i = (if i < length xs then Some (xs ! i) else None)"

definition wr :: "'a list \<Rightarrow> nat \<Rightarrow> 'a \<Rightarrow> 'a list option" where
  "wr xs i x = (if i < length xs then Some (xs[i := x]) else None)"

lemma rd_in [mem_simps]: "i < length xs \<Longrightarrow> rd xs i = Some (xs ! i)"
  by (simp add: rd_def)

lemma rd_out [mem_simps]: "length xs \<le> i \<Longrightarrow> rd xs i = None"
  by (simp add: rd_def)

lemma wr_in [mem_simps]: "i < length xs \<Longrightarrow> wr xs i x = Some (xs[i := x])"
  by (simp add: wr_def)

lemma wr_out [mem_simps]: "length xs \<le> i \<Longrightarrow> wr xs i x = None"
  by (simp add: wr_def)

lemma rd_eq_Some_iff: "rd xs i = Some x \<longleftrightarrow> i < length xs \<and> xs ! i = x"
  by (auto simp: rd_def)

lemma rd_eq_None_iff: "rd xs i = None \<longleftrightarrow> length xs \<le> i"
  by (auto simp: rd_def)

lemma wr_eq_Some_iff: "wr xs i x = Some ys \<longleftrightarrow> i < length xs \<and> ys = xs[i := x]"
  by (auto simp: wr_def)

lemma rd_take: "i < n \<Longrightarrow> rd (take n xs) i = rd xs i"
  by (simp add: rd_def)

text \<open>A block copy \<open>memcpy(dst + d, src + s, n)\<close> between distinct arrays.\<close>

definition memcpy :: "'a list \<Rightarrow> nat \<Rightarrow> 'a list \<Rightarrow> nat \<Rightarrow> nat \<Rightarrow> 'a list option" where
  "memcpy dst d src s n =
     (if d + n \<le> length dst \<and> s + n \<le> length src
      then Some (take d dst @ take n (drop s src) @ drop (d + n) dst) else None)"

lemma memcpy_in [mem_simps]:
  "d + n \<le> length dst \<Longrightarrow> s + n \<le> length src \<Longrightarrow>
     memcpy dst d src s n = Some (take d dst @ take n (drop s src) @ drop (d + n) dst)"
  by (simp add: memcpy_def)

subsection \<open>Words read as numbers\<close>

lemma unat_u8_less: "unat (x :: u8) < 256"
  using unsigned_less [of x] by simp

lemma unat_u16_less: "unat (x :: u16) < 65536"
  using unsigned_less [of x] by simp

lemma unat_u32_less: "unat (x :: u32) < U32_RANGE"
  using unsigned_less [of x] by simp

lemma unat_u8_le: "unat (x :: u8) \<le> 255"
  using unat_u8_less [of x] by linarith

subsection \<open>The last bytes of a stream\<close>

definition keep_last :: "nat \<Rightarrow> 'a list \<Rightarrow> 'a list" where
  "keep_last n xs = drop (length xs - n) xs"

lemma keep_last_short [simp]: "length xs \<le> n \<Longrightarrow> keep_last n xs = xs"
  by (simp add: keep_last_def)

lemma length_keep_last [simp]: "length (keep_last n xs) = min n (length xs)"
  by (simp add: keep_last_def)

lemma keep_last_append_keep_last [simp]:
  "keep_last n (keep_last n xs @ ys) = keep_last n (xs @ ys)"
proof (cases "length xs \<le> n")
  case False
  then have "length (keep_last n xs @ ys) - n = length ys" by simp
  moreover have "length (xs @ ys) - n = (length xs - n) + length ys" using False by simp
  ultimately show ?thesis
    using False by (simp add: keep_last_def drop_drop add.commute)
qed simp

subsection \<open>Shifts, casts and bytes of words\<close>

named_theorems unat_bits "shifts and casts of words, read as numbers"
named_theorems bitwise "one bit of a word expression"

declare bit_or_iff [bitwise] bit_and_iff [bitwise] bit_xor_iff [bitwise] bit_not_iff [bitwise]
  bit_push_bit_iff [bitwise] bit_drop_bit_eq [bitwise] comp_apply [bitwise]

lemma unat_push_bit [unat_bits]: "unat (push_bit k (x::'a::len word)) = (unat x * 2^k) mod 2^LENGTH('a)"
  unfolding unsigned_push_bit_eq by (simp add: take_bit_eq_mod push_bit_eq_mult)
lemma unat_drop_bit [unat_bits]: "unat (drop_bit k (x::'a::len word)) = unat x div 2^k"
  unfolding unsigned_drop_bit_eq 
  using unsigned_less[of x] by (simp add: drop_bit_eq_div take_bit_nat_eq_self)
lemma unat_ucast [unat_bits]: "unat (ucast (x::'a::len word) :: 'b::len word) = unat x mod 2^LENGTH('b)"
  by (simp add: unsigned_ucast_eq take_bit_eq_mod)
text \<open>A word is the sum of its bytes, shifted to their places.\<close>

lemma byte_step: "take_bit 8 (drop_bit k w) + push_bit 8 (drop_bit (8 + k) w) = drop_bit k (w::'a::len word)"
proof -
  have "drop_bit (8 + k) w = drop_bit 8 (drop_bit k w)" by simp
  then show ?thesis using bits_ident [of 8 "drop_bit k w"] by (simp only: add.commute)
qed

lemma ucast_ucast_u8: 
  "ucast (ucast (w::u16) :: u8) = take_bit 8 w" "ucast (ucast (w32::u32) :: u8) = take_bit 8 w32" "ucast (ucast (w64::u64) :: u8) = take_bit 8 w64"
  by (rule bit_word_eqI; auto simp: bit_simps)+

lemma top_byte: "take_bit 8 (drop_bit 8 (w::u16)) = drop_bit 8 w" "take_bit 8 (drop_bit 24 (w32::u32)) = drop_bit 24 w32" "take_bit 8 (drop_bit 56 (w64::u64)) = drop_bit 56 w64"
  by (rule bit_word_eqI; auto simp: bit_simps dest: bit_imp_le_length)+

lemma push_bit_chain:
  "push_bit 16 x = push_bit 8 (push_bit 8 (x::'a::len word))"
  "push_bit 24 x = push_bit 8 (push_bit 8 (push_bit 8 x))"
  "push_bit 32 x = push_bit 8 (push_bit 8 (push_bit 8 (push_bit 8 x)))"
  "push_bit 40 x = push_bit 8 (push_bit 8 (push_bit 8 (push_bit 8 (push_bit 8 x))))"
  "push_bit 48 x = push_bit 8 (push_bit 8 (push_bit 8 (push_bit 8 (push_bit 8 (push_bit 8 x)))))"
  "push_bit 56 x = push_bit 8 (push_bit 8 (push_bit 8 (push_bit 8 (push_bit 8 (push_bit 8 (push_bit 8 x))))))"
  by (simp_all only: push_bit_push_bit) simp_all

lemma word_of_bytes2: "take_bit 8 w + push_bit 8 (take_bit 8 (drop_bit 8 w)) = (w::u16)"
  using byte_step [of 0 w] by (simp add: top_byte)

lemma word_of_bytes4: "take_bit 8 w + push_bit 8 (take_bit 8 (drop_bit 8 w)) + push_bit 16 (take_bit 8 (drop_bit 16 w)) + push_bit 24 (take_bit 8 (drop_bit 24 w)) = (w::u32)"
  using byte_step[of 0 w] byte_step[of 8 w] byte_step[of 16 w]
  by (simp add: top_byte push_bit_chain push_bit_add[symmetric] add.assoc del: push_bit_push_bit)
lemma word_of_bytes8: "take_bit 8 w + push_bit 8 (take_bit 8 (drop_bit 8 w)) + push_bit 16 (take_bit 8 (drop_bit 16 w)) + push_bit 24 (take_bit 8 (drop_bit 24 w))
  + push_bit 32 (take_bit 8 (drop_bit 32 w))+ push_bit 40 (take_bit 8 (drop_bit 40 w))+ push_bit 48 (take_bit 8 (drop_bit 48 w))+ push_bit 56 (take_bit 8 (drop_bit 56 w)) = (w::u64)"
  using byte_step[of 0 w] byte_step[of 8 w] byte_step[of 16 w] byte_step[of 24 w] byte_step[of 32 w] byte_step[of 40 w] byte_step[of 48 w]
  by (simp add: top_byte push_bit_chain push_bit_add[symmetric] add.assoc del: push_bit_push_bit)

subsection \<open>Case analysis on bit positions\<close>

lemma eight_cases:
  "n < 8 \<Longrightarrow> n = (7::nat) \<or> n = 0 \<or> n = 6 \<or> n = 1 \<or> n = 5 \<or> n = 2 \<or> n = 4 \<or> n = 3"
  by arith

lemma sixteen_cases:
  "n < 16 \<Longrightarrow> n < 8 \<or> n = (15::nat) \<or> n = 8 \<or> n = 14 \<or> n = 9 \<or> n = 13 \<or> n = 10 \<or> n = 12 \<or> n = 11"
  by arith

lemma thirtytwo_cases:
  "n < 32 \<Longrightarrow> n < 16 \<or> n = 16 \<or> n = 17 \<or> n = 18 \<or> n = 19 \<or> n = 20 \<or> n = 21 \<or> n = 22 \<or> n = 23 \<or>
     n = 24 \<or> n = 25 \<or> n = 26 \<or> n = 27 \<or> n = 28 \<or> n = 29 \<or> n = 30 \<or> n = (31::nat)"
  by arith

end
