(* ===== verification/RingBuf.thy ===== *)
theory RingBuf imports Prelude
begin

text \<open>
  The byte ring buffer of \<open>common_lib/usdl_buf.c\<close> and \<open>usdl_buf.h\<close>, which carries every received
  CAN and UART byte to the protocol analysers.  One slot stays free, so a buffer of size \<open>n\<close> holds
  \<open>n - 1\<close> bytes; a byte added to a full buffer drops the oldest one.

  \<open>rb_list\<close> is the abstraction to the queue of stored bytes, \<open>rb_inv\<close> the invariant.  The locale
  \<open>byte_fifo\<close> states the contract of the single-byte operations; the bulk operations are proved
  against that contract once.
\<close>

record RingBufType =
  Head :: nat
  Tail :: nat
  RxBuf :: "u8 list option"
  RxBufSize :: nat

text \<open>\<open>rt_malloc\<close> is the environment's: its answer (a block, or none) is an argument.\<close>

definition RxBufInit :: "nat \<Rightarrow> u8 list option \<Rightarrow> RingBufType" where
  "RxBufInit sz blk = \<lparr> Head = 0, Tail = 0, RxBuf = blk, RxBufSize = sz \<rparr>"

definition AddByteToBuf :: "RingBufType \<Rightarrow> u8 \<Rightarrow> RingBufType option" where
  "AddByteToBuf b x =
     do { arr \<leftarrow> RxBuf b;
          arr' \<leftarrow> wr arr (Tail b) x;
          (if RxBufSize b = 0 then None
           else let t = u32_add (Tail b) 1 mod RxBufSize b;
                    b' = b\<lparr>RxBuf := Some arr', Tail := t\<rparr>
                in if t = Head b
                   then Some (b'\<lparr>Head := u32_add (Head b) 1 mod RxBufSize b\<rparr>)
                   else Some b') }"

text \<open>The loop of \<open>AddDataToBuf\<close>: \<open>n\<close> calls of the single-byte operation on \<open>data[i..]\<close>.\<close>

fun add_bytes :: "('q \<Rightarrow> u8 \<Rightarrow> 'q option) \<Rightarrow> 'q \<Rightarrow> u8 list \<Rightarrow> nat \<Rightarrow> nat \<Rightarrow> 'q option" where
  "add_bytes put b data i 0 = Some b"
| "add_bytes put b data i (Suc n) =
     do { x \<leftarrow> rd data i;
          b' \<leftarrow> put b x;
          add_bytes put b' data (Suc i) n }"

definition AddDataToBuf :: "RingBufType \<Rightarrow> u8 list \<Rightarrow> nat \<Rightarrow> RingBufType option" where
  "AddDataToBuf b data len = add_bytes AddByteToBuf b data 0 len"

definition GetLenFromBuf :: "RingBufType \<Rightarrow> nat" where
  "GetLenFromBuf b = u32_sub (u32_add (RxBufSize b) (Tail b)) (Head b) mod RxBufSize b"

text \<open>The inner option is the function's boolean answer together with the byte it stores.\<close>

definition GetByteFromBuf :: "RingBufType \<Rightarrow> (u8 option \<times> RingBufType) option" where
  "GetByteFromBuf b =
     (if Head b = Tail b then Some (None, b)
      else do { arr \<leftarrow> RxBuf b;
                x \<leftarrow> rd arr (Head b);
                Some (Some x, b\<lparr>Head := u32_add (Head b) 1 mod RxBufSize b\<rparr>) })"

definition DelDataFromBuf :: "RingBufType \<Rightarrow> nat \<Rightarrow> nat \<times> RingBufType" where
  "DelDataFromBuf b len =
     (let n = min len (GetLenFromBuf b)
      in (n, b\<lparr>Head := u32_add (Head b) n mod RxBufSize b\<rparr>))"

text \<open>
  The loop of \<open>ReadDataFromBuf\<close>: \<open>n\<close> calls of the single-byte operation, which stores to
  \<open>dst[i..]\<close> when it finds a byte.
\<close>

fun get_bytes ::
    "('q \<Rightarrow> (u8 option \<times> 'q) option) \<Rightarrow> 'q \<Rightarrow> u8 list \<Rightarrow> nat \<Rightarrow> nat \<Rightarrow> (u8 list \<times> 'q) option" where
  "get_bytes get b dst i 0 = Some (dst, b)"
| "get_bytes get b dst i (Suc n) =
     do { (r, b') \<leftarrow> get b;
          dst' \<leftarrow> (case r of None \<Rightarrow> Some dst | Some x \<Rightarrow> wr dst i x);
          get_bytes get b' dst' (Suc i) n }"

definition ReadDataFromBuf ::
    "RingBufType \<Rightarrow> u8 list \<Rightarrow> nat \<Rightarrow> bool \<Rightarrow> (nat \<times> u8 list \<times> RingBufType) option" where
  "ReadDataFromBuf b dst len clear =
     (let n = min len (GetLenFromBuf b)
      in do { (dst', b') \<leftarrow> get_bytes GetByteFromBuf b dst 0 n;
              Some (n, dst', if clear then b' else b'\<lparr>Head := Head b\<rparr>) })"

definition ClearDateFromBuf :: "RingBufType \<Rightarrow> RingBufType" where
  "ClearDateFromBuf b = b\<lparr>Tail := Head b\<rparr>"

subsection \<open>Invariant and abstraction\<close>

definition rb_inv :: "RingBufType \<Rightarrow> bool" where
  "rb_inv b \<longleftrightarrow> 0 < RxBufSize b \<and> RxBufSize b \<le> 2147483648 \<and>
     Head b < RxBufSize b \<and> Tail b < RxBufSize b \<and>
     (\<exists>arr. RxBuf b = Some arr \<and> length arr = RxBufSize b)"

definition rb_len :: "RingBufType \<Rightarrow> nat" where
  "rb_len b = (RxBufSize b + Tail b - Head b) mod RxBufSize b"

definition rb_list :: "RingBufType \<Rightarrow> u8 list" where
  "rb_list b = map (\<lambda>i. the (RxBuf b) ! ((Head b + i) mod RxBufSize b)) [0..<rb_len b]"

lemma rb_invE:
  assumes "rb_inv b"
  obtains arr where "RxBuf b = Some arr" "length arr = RxBufSize b" "0 < RxBufSize b"
    "RxBufSize b \<le> 2147483648" "Head b < RxBufSize b" "Tail b < RxBufSize b"
  using assms by (auto simp: rb_inv_def)

lemma length_rb_list [simp]: "length (rb_list b) = rb_len b"
  by (simp add: rb_list_def)

lemma rb_list_nth:
  "i < rb_len b \<Longrightarrow> rb_list b ! i = the (RxBuf b) ! ((Head b + i) mod RxBufSize b)"
  by (simp add: rb_list_def)

lemma rb_len_less: "rb_inv b \<Longrightarrow> rb_len b < RxBufSize b"
  by (simp add: rb_inv_def rb_len_def)

lemma mod_once: "n \<le> k \<Longrightarrow> k < 2 * n \<Longrightarrow> k mod n = k - (n::nat)"
  by (simp add: le_mod_geq)

lemma rb_len_cases:
  assumes "rb_inv b"
  shows "rb_len b = (if Head b \<le> Tail b then Tail b - Head b
                     else RxBufSize b + Tail b - Head b)"
  using assms by (auto elim!: rb_invE simp: rb_len_def mod_once)

lemma GetLenFromBuf_eq:
  assumes "rb_inv b"
  shows "GetLenFromBuf b = rb_len b"
proof -
  from assms obtain arr where b: "0 < RxBufSize b" "RxBufSize b \<le> 2147483648"
    "Head b < RxBufSize b" "Tail b < RxBufSize b" by (auto elim: rb_invE)
  then have "u32_add (RxBufSize b) (Tail b) = RxBufSize b + Tail b"
    by (simp add: u32_simps)
  moreover have "u32_sub (RxBufSize b + Tail b) (Head b) = RxBufSize b + Tail b - Head b"
    using b by (simp add: u32_simps)
  ultimately show ?thesis by (simp add: GetLenFromBuf_def rb_len_def)
qed

subsection \<open>Where the next byte goes\<close>

text \<open>Walking \<open>i < size\<close> slots from the head meets the tail exactly after \<open>rb_len\<close> slots.\<close>

lemma slot_eq_tail_iff:
  assumes "rb_inv b" "i < RxBufSize b"
  shows "(Head b + i) mod RxBufSize b = Tail b \<longleftrightarrow> i = rb_len b"
proof -
  from assms(1) have b: "0 < RxBufSize b" "Head b < RxBufSize b" "Tail b < RxBufSize b"
    by (auto elim: rb_invE)
  show ?thesis
  proof (cases "Head b + i < RxBufSize b")
    case True
    then show ?thesis using b assms by (auto simp: rb_len_cases)
  next
    case False
    then have "(Head b + i) mod RxBufSize b = Head b + i - RxBufSize b"
      using b assms(2) by (simp add: mod_once)
    then show ?thesis using b assms False by (auto simp: rb_len_cases)
  qed
qed

lemma head_plus_len_is_tail: "rb_inv b \<Longrightarrow> (Head b + rb_len b) mod RxBufSize b = Tail b"
  using slot_eq_tail_iff rb_len_less by blast

lemma suc_mod_cases:
  "(i::nat) < n \<Longrightarrow> Suc i mod n = (if Suc i = n then 0 else Suc i)"
  by (simp add: mod_Suc)

lemma u32_succ_mod:
  "i < n \<Longrightarrow> n \<le> 2147483648 \<Longrightarrow> u32_add i 1 mod n = Suc i mod n"
  by (simp add: u32_simps)

lemma rb_full_iff:
  assumes "rb_inv b"
  shows "Suc (Tail b) mod RxBufSize b = Head b \<longleftrightarrow> rb_len b = RxBufSize b - 1"
  using assms by (auto elim!: rb_invE simp: rb_len_cases suc_mod_cases split: if_splits)

lemma AddByteToBuf_shape:
  assumes "rb_inv b" "RxBuf b = Some arr"
  shows "AddByteToBuf b x =
    (let t = Suc (Tail b) mod RxBufSize b in
     Some (b\<lparr>RxBuf := Some (arr[Tail b := x]), Tail := t,
             Head := if t = Head b then Suc (Head b) mod RxBufSize b else Head b\<rparr>))"
proof -
  from assms have b: "length arr = RxBufSize b" "0 < RxBufSize b"
    "RxBufSize b \<le> 2147483648" "Head b < RxBufSize b" "Tail b < RxBufSize b"
    by (auto elim: rb_invE)
  then show ?thesis
    using assms(2) u32_succ_mod [of "Tail b" "RxBufSize b"] u32_succ_mod [of "Head b" "RxBufSize b"]
    by (simp add: AddByteToBuf_def mem_simps Let_def)
qed

lemma AddByteToBuf_rb_list:
  assumes inv: "rb_inv b" and add: "AddByteToBuf b x = Some b'"
  shows "rb_list b' = keep_last (RxBufSize b - 1) (rb_list b @ [x])"
proof -
  let ?n = "RxBufSize b"
  obtain arr where arr: "RxBuf b = Some arr" "length arr = ?n" and b: "0 < ?n"
    "Head b < ?n" "Tail b < ?n" using inv by (auto elim: rb_invE)
  let ?t = "Suc (Tail b) mod ?n"
  have len: "rb_len b < ?n" using inv by (rule rb_len_less)
  have old: "arr[Tail b := x] ! ((Head b + i) mod ?n) = rb_list b ! i" if "i < rb_len b" for i
  proof -
    have "(Head b + i) mod ?n \<noteq> Tail b" using slot_eq_tail_iff [OF inv, of i] that len by simp
    then show ?thesis using that arr by (simp add: rb_list_nth)
  qed
  have new: "arr[Tail b := x] ! ((Head b + rb_len b) mod ?n) = x"
    using head_plus_len_is_tail [OF inv] arr b by simp
  have all: "arr[Tail b := x] ! ((Head b + i) mod ?n) = (rb_list b @ [x]) ! i"
    if "i < Suc (rb_len b)" for i
    using that old new by (cases "i = rb_len b") (auto simp: nth_append)
  show ?thesis
  proof (cases "?t = Head b")
    case False
    then have b': "b' = b\<lparr>RxBuf := Some (arr[Tail b := x]), Tail := ?t\<rparr>"
      using add AddByteToBuf_shape [OF inv arr(1), of x] by (simp add: Let_def)
    have "rb_inv b'" using inv arr b b' by (auto simp: rb_inv_def)
    then have "rb_len b' = Suc (rb_len b)"
      using False inv b b' by (auto simp: rb_len_cases suc_mod_cases split: if_splits)
    moreover have "rb_len b \<noteq> ?n - 1" using False rb_full_iff [OF inv] by simp
    ultimately show ?thesis
      using all b' len by (intro nth_equalityI) (auto simp: rb_list_nth)
  next
    case True
    then have b': "b' = b\<lparr>RxBuf := Some (arr[Tail b := x]), Tail := ?t, Head := Suc (Head b) mod ?n\<rparr>"
      using add AddByteToBuf_shape [OF inv arr(1), of x] by (simp add: Let_def)
    have full: "rb_len b = ?n - 1" using True rb_full_iff [OF inv] by simp
    have len': "rb_len b' = rb_len b"
      using True full b b' by (auto simp: rb_len_def suc_mod_cases mod_once)
    have slot: "(Suc (Head b) mod ?n + i) mod ?n = (Head b + Suc i) mod ?n" for i
      by (simp add: mod_simps)
    have drop1: "keep_last (?n - 1) (rb_list b @ [x]) = drop 1 (rb_list b @ [x])"
      using full b by (simp add: keep_last_def)
    have elem: "rb_list b' ! i = (rb_list b @ [x]) ! Suc i" if "i < ?n - 1" for i
    proof -
      have "rb_list b' ! i = arr[Tail b := x] ! ((Head b + Suc i) mod ?n)"
        using that len' full b' by (simp add: rb_list_nth slot [symmetric] del: add_Suc_right)
      also have "\<dots> = (rb_list b @ [x]) ! Suc i"
        using that full by (intro all) simp
      finally show ?thesis .
    qed
    show ?thesis
      unfolding drop1 using elem len' full b
      by (intro nth_equalityI) (auto simp: nth_append)
  qed
qed

lemma AddByteToBuf_inv:
  assumes "rb_inv b"
  shows "\<exists>b'. AddByteToBuf b x = Some b' \<and> rb_inv b' \<and> RxBufSize b' = RxBufSize b"
proof -
  obtain arr where "RxBuf b = Some arr" using assms by (auto elim: rb_invE)
  then show ?thesis
    using assms AddByteToBuf_shape [OF assms, of arr x]
    by (auto simp: rb_inv_def Let_def)
qed

lemma GetByteFromBuf_rb_list:
  assumes inv: "rb_inv b" and cont: "rb_list b = x # xs"
  shows "\<exists>b'. GetByteFromBuf b = Some (Some x, b') \<and> rb_inv b' \<and> RxBufSize b' = RxBufSize b
              \<and> rb_list b' = xs \<and> b'\<lparr>Head := Head b\<rparr> = b"
proof -
  let ?n = "RxBufSize b"
  obtain arr where arr: "RxBuf b = Some arr" "length arr = ?n" and b: "0 < ?n"
    "?n \<le> 2147483648" "Head b < ?n" "Tail b < ?n" using inv by (auto elim: rb_invE)
  have pos: "rb_len b = Suc (length xs)"
    using arg_cong [OF cont, of length] by simp
  then have ne: "Head b \<noteq> Tail b" using inv by (auto simp: rb_len_cases)
  have x: "arr ! Head b = x"
    using rb_list_nth [of 0 b] pos arr b cont by simp
  let ?b' = "b\<lparr>Head := Suc (Head b) mod ?n\<rparr>"
  have get: "GetByteFromBuf b = Some (Some x, ?b')"
    using ne arr b x u32_succ_mod [of "Head b" ?n] by (simp add: GetByteFromBuf_def mem_simps)
  have inv': "rb_inv ?b'" using inv arr b by (simp add: rb_inv_def)
  have len': "rb_len ?b' = length xs"
    using pos inv inv' b by (auto simp: rb_len_cases suc_mod_cases split: if_splits)
  have slot: "(Suc (Head b) mod ?n + i) mod ?n = (Head b + Suc i) mod ?n" for i
    by (simp add: mod_simps)
  have elem: "rb_list ?b' ! i = xs ! i" if "i < length xs" for i
  proof -
    have "rb_list ?b' ! i = rb_list b ! Suc i"
      using that len' pos by (simp add: rb_list_nth slot del: add_Suc_right)
    then show ?thesis by (simp add: cont)
  qed
  have "rb_list ?b' = xs" using len' elem by (intro nth_equalityI) auto
  then show ?thesis using get inv' by auto
qed

subsection \<open>The contract of a byte queue\<close>

locale byte_fifo =
  fixes ok :: "'q \<Rightarrow> bool"
    and cap :: "'q \<Rightarrow> nat"
    and cont :: "'q \<Rightarrow> u8 list"
    and put :: "'q \<Rightarrow> u8 \<Rightarrow> 'q option"
    and get :: "'q \<Rightarrow> (u8 option \<times> 'q) option"
  assumes put_law: "ok q \<Longrightarrow> \<exists>q'. put q x = Some q' \<and> ok q' \<and> cap q' = cap q \<and>
                      cont q' = keep_last (cap q) (cont q @ [x])"
    and get_law: "ok q \<Longrightarrow> cont q = x # xs \<Longrightarrow>
                    \<exists>q'. get q = Some (Some x, q') \<and> ok q' \<and> cap q' = cap q \<and> cont q' = xs"
    and cap_law: "ok q \<Longrightarrow> length (cont q) \<le> cap q"
begin

lemma add_bytes_law:
  assumes "ok q" "i + n \<le> length data"
  shows "\<exists>q'. add_bytes put q data i n = Some q' \<and> ok q' \<and> cap q' = cap q \<and>
              cont q' = keep_last (cap q) (cont q @ take n (drop i data))"
  using assms
proof (induction n arbitrary: q i)
  case 0
  then show ?case using cap_law by simp
next
  case (Suc n)
  obtain q1 where q1: "put q (data ! i) = Some q1" "ok q1" "cap q1 = cap q"
    "cont q1 = keep_last (cap q) (cont q @ [data ! i])"
    using put_law [OF Suc.prems(1)] by blast
  obtain q2 where q2: "add_bytes put q1 data (Suc i) n = Some q2" "ok q2" "cap q2 = cap q1"
    "cont q2 = keep_last (cap q1) (cont q1 @ take n (drop (Suc i) data))"
    using Suc.IH [OF q1(2), of "Suc i"] Suc.prems(2) by auto
  have "take (Suc n) (drop i data) = data ! i # take n (drop (Suc i) data)"
    using Suc.prems(2) by (simp add: Cons_nth_drop_Suc [symmetric])
  then show ?case
    using q1 q2 Suc.prems(2) by (auto simp: mem_simps)
qed

lemma get_bytes_law:
  assumes "ok q" "n \<le> length (cont q)" "i + n \<le> length dst"
  shows "\<exists>q'. get_bytes get q dst i n =
                Some (take i dst @ take n (cont q) @ drop (i + n) dst, q') \<and>
              ok q' \<and> cap q' = cap q \<and> cont q' = drop n (cont q)"
  using assms
proof (induction n arbitrary: q i dst)
  case 0
  then show ?case by simp
next
  case (Suc n)
  obtain x xs where c: "cont q = x # xs" using Suc.prems(2) by (cases "cont q") auto
  obtain q1 where q1: "get q = Some (Some x, q1)" "ok q1" "cap q1 = cap q" "cont q1 = xs"
    using get_law [OF Suc.prems(1) c] by blast
  obtain q2 where q2: "get_bytes get q1 (dst[i := x]) (Suc i) n =
      Some (take (Suc i) (dst[i := x]) @ take n xs @ drop (Suc i + n) (dst[i := x]), q2)"
    "ok q2" "cap q2 = cap q1" "cont q2 = drop n xs"
    using Suc.IH [OF q1(2), of "Suc i" "dst[i := x]"] Suc.prems c q1(4) by auto
  have "take (Suc i) (dst[i := x]) = take i dst @ [x]"
    using Suc.prems(3) by (simp add: take_Suc_conv_app_nth)
  then show ?case
    using q1 q2 c Suc.prems(3) by (auto simp: mem_simps)
qed

end

text \<open>The ring buffer is such a queue, of one byte less than its size.\<close>

interpretation ring: byte_fifo rb_inv "\<lambda>b. RxBufSize b - 1" rb_list AddByteToBuf GetByteFromBuf
proof
  fix q :: RingBufType and x
  assume "rb_inv q"
  then show "\<exists>q'. AddByteToBuf q x = Some q' \<and> rb_inv q' \<and> RxBufSize q' - 1 = RxBufSize q - 1 \<and>
                 rb_list q' = keep_last (RxBufSize q - 1) (rb_list q @ [x])"
    using AddByteToBuf_inv AddByteToBuf_rb_list by metis
next
  fix q :: RingBufType and x xs
  assume "rb_inv q" "rb_list q = x # xs"
  then show "\<exists>q'. GetByteFromBuf q = Some (Some x, q') \<and> rb_inv q' \<and>
               RxBufSize q' - 1 = RxBufSize q - 1 \<and> rb_list q' = xs"
    using GetByteFromBuf_rb_list by metis
next
  fix q :: RingBufType
  assume "rb_inv q"
  then show "length (rb_list q) \<le> RxBufSize q - 1"
    using rb_len_less [of q] by simp
qed

subsection \<open>The bulk operations\<close>

lemma GetByteFromBuf_frame:
  "GetByteFromBuf b = Some (r, b') \<Longrightarrow> b'\<lparr>Head := h\<rparr> = b\<lparr>Head := h\<rparr>"
  by (auto simp: GetByteFromBuf_def split: if_splits Option.bind_splits)

lemma get_bytes_frame:
  "get_bytes GetByteFromBuf b dst i n = Some (dst', b') \<Longrightarrow> b'\<lparr>Head := h\<rparr> = b\<lparr>Head := h\<rparr>"
proof (induction n arbitrary: b dst i)
  case (Suc n)
  from Suc.prems obtain r b1 dst1 where g: "GetByteFromBuf b = Some (r, b1)"
    and rest: "get_bytes GetByteFromBuf b1 dst1 (Suc i) n = Some (dst', b')"
    by (auto split: Option.bind_splits prod.splits)
  from Suc.IH [OF rest] GetByteFromBuf_frame [OF g] show ?case by simp
qed simp

lemma AddDataToBuf_rb_list:
  "rb_inv b \<Longrightarrow> n \<le> length data \<Longrightarrow>
   \<exists>b'. AddDataToBuf b data n = Some b' \<and> rb_inv b' \<and> RxBufSize b' = RxBufSize b \<and>
        rb_list b' = keep_last (RxBufSize b - 1) (rb_list b @ take n data)"
proof -
  assume b: "rb_inv b" and n: "n \<le> length data"
  obtain b' where b': "add_bytes AddByteToBuf b data 0 n = Some b'" "rb_inv b'"
    "RxBufSize b' - 1 = RxBufSize b - 1"
    "rb_list b' = keep_last (RxBufSize b - 1) (rb_list b @ take n data)"
    using ring.add_bytes_law [OF b, of 0 n data] n by auto
  have "0 < RxBufSize b" "0 < RxBufSize b'" using b b'(2) by (auto simp: rb_inv_def)
  then have "RxBufSize b' = RxBufSize b" using b'(3) by linarith
  then show ?thesis using b' by (auto simp: AddDataToBuf_def)
qed

lemma ReadDataFromBuf_rb_list:
  assumes b: "rb_inv b" and n: "n = min len (length (rb_list b))" and dst: "n \<le> length dst"
  shows "\<exists>b'. ReadDataFromBuf b dst len clear = Some (n, take n (rb_list b) @ drop n dst, b') \<and>
           rb_inv b' \<and> rb_list b' = (if clear then drop n (rb_list b) else rb_list b) \<and>
           (\<not> clear \<longrightarrow> b' = b)"
proof -
  obtain q where q: "get_bytes GetByteFromBuf b dst 0 n = Some (take n (rb_list b) @ drop n dst, q)"
    "rb_inv q" "rb_list q = drop n (rb_list b)"
    using ring.get_bytes_law [OF b, of n 0 dst] n dst by auto
  have "q\<lparr>Head := Head b\<rparr> = b" using get_bytes_frame [OF q(1), of "Head b"] by simp
  then show ?thesis
    using q b n by (auto simp: ReadDataFromBuf_def GetLenFromBuf_eq Let_def)
qed

lemma DelDataFromBuf_rb_list:
  assumes b: "rb_inv b"
  shows "fst (DelDataFromBuf b len) = min len (length (rb_list b)) \<and>
         rb_inv (snd (DelDataFromBuf b len)) \<and>
         rb_list (snd (DelDataFromBuf b len)) = drop len (rb_list b)"
proof -
  define n where "n = min len (rb_len b)"
  let ?b' = "b\<lparr>Head := (Head b + n) mod RxBufSize b\<rparr>"
  have s: "0 < RxBufSize b" "RxBufSize b \<le> 2147483648" "Head b < RxBufSize b"
    "Tail b < RxBufSize b" "n < RxBufSize b" "n \<le> rb_len b"
    using b rb_len_less [OF b] by (auto simp: rb_inv_def n_def)
  then have del: "DelDataFromBuf b len = (n, ?b')"
    by (simp add: DelDataFromBuf_def GetLenFromBuf_eq [OF b] n_def Let_def u32_add_exact)
  have inv': "rb_inv ?b'" using b s by (auto simp: rb_inv_def)
  have h: "(Head b + n) mod RxBufSize b =
      (if Head b + n < RxBufSize b then Head b + n else Head b + n - RxBufSize b)"
    using s by (simp add: mod_once)
  have len': "rb_len ?b' = rb_len b - n"
    using s h rb_len_cases [OF b] rb_len_cases [OF inv'] by (auto split: if_splits)
  have elem: "rb_list ?b' ! i = rb_list b ! (n + i)" if "i < rb_len b - n" for i
    using that len' by (simp add: rb_list_nth mod_simps add.assoc)
  have "rb_list ?b' = drop n (rb_list b)"
    using len' elem by (intro nth_equalityI) auto
  moreover have "drop n (rb_list b) = drop len (rb_list b)"
    by (cases "len \<le> rb_len b") (auto simp: n_def)
  ultimately show ?thesis using del inv' by (simp add: n_def)
qed

lemma ClearDateFromBuf_rb_list:
  "rb_inv b \<Longrightarrow> rb_inv (ClearDateFromBuf b) \<and> rb_list (ClearDateFromBuf b) = []"
  by (auto simp: ClearDateFromBuf_def rb_inv_def rb_list_def rb_len_def)

lemma RxBufInit_rb_list:
  "0 < sz \<Longrightarrow> sz \<le> 2147483648 \<Longrightarrow> length blk = sz \<Longrightarrow>
   rb_inv (RxBufInit sz (Some blk)) \<and> rb_list (RxBufInit sz (Some blk)) = []"
  by (simp add: RxBufInit_def rb_inv_def rb_list_def rb_len_def)

subsection \<open>Properties\<close>

text \<open>
  Property C14.  Adding data to a well-formed buffer never leaves the array; afterwards the buffer
  holds the newest \<open>size - 1\<close> bytes of the old content followed by the new data, and
  \<open>GetLenFromBuf\<close> reports how many that are.
\<close>

theorem ring_add_keeps_newest:
  assumes "rb_inv b" and "n \<le> length data"
  shows "\<exists>b'. AddDataToBuf b data n = Some b' \<and> rb_inv b' \<and>
           rb_list b' = keep_last (RxBufSize b - 1) (rb_list b @ take n data) \<and>
           GetLenFromBuf b' = min (RxBufSize b - 1) (GetLenFromBuf b + n)"
proof -
  obtain b' where b': "AddDataToBuf b data n = Some b'" "rb_inv b'"
    "rb_list b' = keep_last (RxBufSize b - 1) (rb_list b @ take n data)"
    using AddDataToBuf_rb_list [OF assms] by blast
  have "GetLenFromBuf b' = length (rb_list b')" using b'(2) by (simp add: GetLenFromBuf_eq)
  also have "\<dots> = min (RxBufSize b - 1) (GetLenFromBuf b + n)"
    using b'(3) assms by (simp add: GetLenFromBuf_eq)
  finally show ?thesis using b' by blast
qed

theorem ring_add_keeps_newest_witness:
  "\<exists>b'. AddDataToBuf (RxBufInit 4 (Some [0, 0, 0, 0])) [1, 2, 3, 4, 5] 5 = Some b' \<and> rb_inv b' \<and>
        rb_list b' = [3, 4, 5] \<and> GetLenFromBuf b' = 3"
  using ring_add_keeps_newest [of "RxBufInit 4 (Some [0, 0, 0, 0])" 5 "[1, 2, 3, 4, 5]"]
  by (simp add: RxBufInit_def rb_inv_def rb_list_def rb_len_def keep_last_def
      GetLenFromBuf_def u32_add_def u32_sub_def)

text \<open>
  Fact.  Reading without clearing copies the oldest bytes out and leaves the buffer as it
  was; reading with clearing copies the same bytes and removes them, exactly as
  \<open>DelDataFromBuf\<close> of the number read does.
\<close>

theorem ring_peek_then_delete_is_read:
  assumes "rb_inv b" and "min len (length (rb_list b)) \<le> length dst"
  shows "\<exists>dst' b'. ReadDataFromBuf b dst len False = Some (min len (length (rb_list b)), dst', b) \<and>
           take (min len (length (rb_list b))) dst' = take len (rb_list b) \<and>
           ReadDataFromBuf b dst len True = Some (min len (length (rb_list b)), dst', b') \<and>
           rb_list b' = drop len (rb_list b) \<and>
           rb_list (snd (DelDataFromBuf b len)) = rb_list b' \<and>
           fst (DelDataFromBuf b len) = min len (length (rb_list b))"
proof -
  let ?n = "min len (length (rb_list b))"
  let ?dst = "take ?n (rb_list b) @ drop ?n dst"
  obtain b1 where b1: "ReadDataFromBuf b dst len True = Some (?n, ?dst, b1)"
    "rb_list b1 = drop ?n (rb_list b)"
    using ReadDataFromBuf_rb_list [OF assms(1) refl assms(2), of True] by auto
  have "ReadDataFromBuf b dst len False = Some (?n, ?dst, b)"
    using ReadDataFromBuf_rb_list [OF assms(1) refl assms(2), of False] by auto
  moreover have "drop ?n (rb_list b) = drop len (rb_list b)" by (simp add: min_def)
  moreover have "take ?n ?dst = take len (rb_list b)" by (simp add: min_def)
  ultimately show ?thesis
    using b1 DelDataFromBuf_rb_list [OF assms(1), of len] by auto
qed

theorem ring_peek_then_delete_is_read_witness:
  "let b = \<lparr>Head = 3, Tail = 1, RxBuf = Some [20, 0, 0, 10], RxBufSize = 4\<rparr> in
   \<exists>dst' b'. ReadDataFromBuf b [9, 9, 9] 5 True = Some (2, dst', b') \<and> take 2 dst' = [10, 20] \<and>
             rb_list b' = []"
proof -
  let ?b = "\<lparr>Head = 3, Tail = 1, RxBuf = Some [20, 0, 0, 10], RxBufSize = 4\<rparr> :: RingBufType"
  have l: "rb_list ?b = [10, 20]" by code_simp
  have "rb_inv ?b" by (simp add: rb_inv_def)
  from ring_peek_then_delete_is_read [OF this, of 5 "[9, 9, 9]", unfolded l]
  show ?thesis by (auto simp: Let_def numeral_2_eq_2)
qed


text \<open>Any use of the buffer: a sequence of calls, of which reading stores into an array of the length asked for.\<close>

datatype ring_call = CallAdd "u8 list" | CallRead "u8 list" bool | CallDel nat | CallGetByte | CallClear

fun ring_step :: "ring_call \<Rightarrow> RingBufType \<Rightarrow> RingBufType option" where
  "ring_step (CallAdd data) b = AddDataToBuf b data (length data)"
| "ring_step (CallRead dst clear) b = map_option (snd \<circ> snd) (ReadDataFromBuf b dst (length dst) clear)"
| "ring_step (CallDel len) b = Some (snd (DelDataFromBuf b len))"
| "ring_step CallGetByte b = map_option snd (GetByteFromBuf b)"
| "ring_step CallClear b = Some (ClearDateFromBuf b)"

fun ring_run :: "ring_call list \<Rightarrow> RingBufType \<Rightarrow> RingBufType option" where
  "ring_run [] b = Some b"
| "ring_run (c # cs) b = do { b \<leftarrow> ring_step c b; ring_run cs b }"

lemma ring_call_typed: "rb_inv b \<Longrightarrow> \<exists>b'. ring_step c b = Some b' \<and> rb_inv b' \<and> RxBufSize b' = RxBufSize b"
proof (cases c)
  case (CallAdd data)
  then show "rb_inv b \<Longrightarrow> ?thesis" using AddDataToBuf_rb_list [of b "length data" data] by auto
next
  case (CallRead dst clear)
  assume b: "rb_inv b"
  obtain dst' b' where r: "ReadDataFromBuf b dst (length dst) clear = Some (min (length dst) (length (rb_list b)), dst', b')" "rb_inv b'"
    using ReadDataFromBuf_rb_list [OF b refl, of "length dst" dst clear] by auto
  have "b'\<lparr>Head := 0\<rparr> = b\<lparr>Head := 0\<rparr>"
    using r(1) get_bytes_frame [of b dst 0 _ dst' _ 0] by (auto simp: ReadDataFromBuf_def Let_def split: Option.bind_splits if_splits)
  then have "RxBufSize b' = RxBufSize b" by (metis RingBufType.select_convs(4) RingBufType.surjective RingBufType.update_convs(1))
  then show ?thesis using CallRead r by simp
next
  case (CallDel len)
  moreover have "RxBufSize (snd (DelDataFromBuf b len)) = RxBufSize b" by (simp add: DelDataFromBuf_def Let_def)
  ultimately show "rb_inv b \<Longrightarrow> ?thesis" using DelDataFromBuf_rb_list [of b len] by simp
next
  case CallGetByte
  assume b: "rb_inv b"
  show ?thesis
  proof (cases "rb_list b")
    case Nil
    then have "rb_len b = 0" by (metis length_rb_list list.size(3))
    then have "Head b = Tail b" using head_plus_len_is_tail [OF b] b by (simp add: rb_inv_def)
    then show ?thesis using CallGetByte b by (simp add: GetByteFromBuf_def)
  next
    case (Cons x xs)
    then show ?thesis using GetByteFromBuf_rb_list [OF b] CallGetByte by auto
  qed
next
  case CallClear
  then show "rb_inv b \<Longrightarrow> ?thesis" using ClearDateFromBuf_rb_list [of b] by (simp add: ClearDateFromBuf_def)
qed

text \<open>
  Property C15. No sequence of calls on an initialised buffer leaves its array: every call returns, and the buffer stays well-formed,
  with both indices inside the array of the size it was given.
\<close>

theorem ring_calls_stay_inside:
  assumes "0 < sz" "sz \<le> 2147483648" "length blk = sz"
  shows "\<exists>b. ring_run calls (RxBufInit sz (Some blk)) = Some b \<and> rb_inv b \<and> RxBufSize b = sz"
proof -
  have "rb_inv b \<Longrightarrow> \<exists>b'. ring_run calls b = Some b' \<and> rb_inv b' \<and> RxBufSize b' = RxBufSize b" for b
  proof (induction calls arbitrary: b)
    case (Cons c cs)
    obtain b1 where b1: "ring_step c b = Some b1" "rb_inv b1" "RxBufSize b1 = RxBufSize b" using ring_call_typed [OF Cons.prems] by blast
    then show ?case using Cons.IH [OF b1(2)] by simp
  qed simp
  then show ?thesis using RxBufInit_rb_list [OF assms] by (fastforce simp: RxBufInit_def)
qed

theorem ring_calls_stay_inside_witness:
  "\<exists>b. ring_run [CallAdd [1, 2, 3, 4], CallGetByte, CallDel 9, CallAdd [5], CallClear] (RxBufInit 3 (Some [0, 0, 0])) = Some b \<and> rb_inv b"
  using ring_calls_stay_inside [of 3 "[0, 0, 0]" "[CallAdd [1, 2, 3, 4], CallGetByte, CallDel 9, CallAdd [5], CallClear]"] by auto

end
