(* ===== verification/DataLib.thy ===== *)
theory DataLib imports Prelude
begin

text \<open>
  \<open>common_lib/usdl_data.c\<close>: half-byte access, little-endian loads and stores of multi-byte values
  in byte arrays, and the split of an address range into an unaligned head, aligned blocks and a
  tail.  A pointer is an array with an offset; the functions that return the advanced pointer return
  the new offset.
\<close>

named_theorems data_defs "the loads and stores of usdl_data.c"

subsection \<open>Half bytes\<close>

definition GetU8LowU4 :: "u8 \<Rightarrow> u8" where
  "GetU8LowU4 value = value AND 0x0F"

definition GetU8HighU4 :: "u8 \<Rightarrow> u8" where
  "GetU8HighU4 value = drop_bit 4 value AND 0x0F"

definition SetU8LowU4 :: "u8 \<Rightarrow> u8 \<Rightarrow> u8" where
  "SetU8LowU4 value half_word = (value AND 0xF0) OR (half_word AND 0x0F)"

definition SetU8HighU4 :: "u8 \<Rightarrow> u8 \<Rightarrow> u8" where
  "SetU8HighU4 value half_word = (value AND 0x0F) OR (push_bit 4 half_word AND 0xF0)"

subsection \<open>Loads and stores\<close>

definition ArrayU8ToU16 :: "u8 list \<Rightarrow> nat \<Rightarrow> u16 option" where
  [data_defs]: "ArrayU8ToU16 src p =
     do { b0 \<leftarrow> rd src p; b1 \<leftarrow> rd src (p + 1);
          Some (ucast b0 + push_bit 8 (ucast b1)) }"

definition ArrayU8ToU32 :: "u8 list \<Rightarrow> nat \<Rightarrow> u32 option" where
  [data_defs]: "ArrayU8ToU32 src p =
     do { b0 \<leftarrow> rd src p; b1 \<leftarrow> rd src (p + 1); b2 \<leftarrow> rd src (p + 2); b3 \<leftarrow> rd src (p + 3);
          Some (ucast b0 + push_bit 8 (ucast b1) + push_bit 16 (ucast b2) + push_bit 24 (ucast b3)) }"

definition ArrayU16ToU32 :: "u16 list \<Rightarrow> nat \<Rightarrow> u32 option" where
  [data_defs]: "ArrayU16ToU32 src p =
     do { h0 \<leftarrow> rd src p; h1 \<leftarrow> rd src (p + 1); Some (ucast h0 + push_bit 16 (ucast h1)) }"

definition ArrayU8ToU64 :: "u8 list \<Rightarrow> nat \<Rightarrow> u64 option" where
  [data_defs]: "ArrayU8ToU64 src p =
     do { b0 \<leftarrow> rd src p; b1 \<leftarrow> rd src (p + 1); b2 \<leftarrow> rd src (p + 2); b3 \<leftarrow> rd src (p + 3);
          b4 \<leftarrow> rd src (p + 4); b5 \<leftarrow> rd src (p + 5); b6 \<leftarrow> rd src (p + 6); b7 \<leftarrow> rd src (p + 7);
          Some (ucast b0 + push_bit 8 (ucast b1) + push_bit 16 (ucast b2) + push_bit 24 (ucast b3) +
                push_bit 32 (ucast b4) + push_bit 40 (ucast b5) + push_bit 48 (ucast b6) +
                push_bit 56 (ucast b7)) }"

definition DataU16ToArrayU8 :: "u8 list \<Rightarrow> nat \<Rightarrow> u16 \<Rightarrow> (nat \<times> u8 list) option" where
  [data_defs]: "DataU16ToArrayU8 dst p value =
     do { d \<leftarrow> wr dst p (ucast value);
          d \<leftarrow> wr d (p + 1) (ucast (drop_bit 8 value));
          Some (p + 2, d) }"

definition DataU32ToArrayU8 :: "u8 list \<Rightarrow> nat \<Rightarrow> u32 \<Rightarrow> (nat \<times> u8 list) option" where
  [data_defs]: "DataU32ToArrayU8 dst p value =
     do { d \<leftarrow> wr dst p (ucast value);
          d \<leftarrow> wr d (p + 1) (ucast (drop_bit 8 value));
          d \<leftarrow> wr d (p + 2) (ucast (drop_bit 16 value));
          d \<leftarrow> wr d (p + 3) (ucast (drop_bit 24 value));
          Some (p + 4, d) }"

definition DataU64ToArrayU8 :: "u8 list \<Rightarrow> nat \<Rightarrow> u64 \<Rightarrow> (nat \<times> u8 list) option" where
  [data_defs]: "DataU64ToArrayU8 dst p value =
     do { d \<leftarrow> wr dst p (ucast value);
          d \<leftarrow> wr d (p + 1) (ucast (drop_bit 8 value));
          d \<leftarrow> wr d (p + 2) (ucast (drop_bit 16 value));
          d \<leftarrow> wr d (p + 3) (ucast (drop_bit 24 value));
          d \<leftarrow> wr d (p + 4) (ucast (drop_bit 32 value));
          d \<leftarrow> wr d (p + 5) (ucast (drop_bit 40 value));
          d \<leftarrow> wr d (p + 6) (ucast (drop_bit 48 value));
          d \<leftarrow> wr d (p + 7) (ucast (drop_bit 56 value));
          Some (p + 8, d) }"

text \<open>The width-directed variants: any width but 1, 2 and 4 is treated as one byte.\<close>

definition GetVoidVar :: "u8 list \<Rightarrow> nat \<Rightarrow> nat \<Rightarrow> u32 option" where
  "GetVoidVar src p width =
     (if width = 1 then map_option ucast (rd src p)
      else if width = 2 then map_option ucast (ArrayU8ToU16 src p)
      else if width = 4 then ArrayU8ToU32 src p
      else map_option ucast (rd src p))"

definition SetVoidVar :: "u8 list \<Rightarrow> nat \<Rightarrow> nat \<Rightarrow> u32 \<Rightarrow> u8 list option" where
  "SetVoidVar dst p width value =
     (if width = 1 then wr dst p (ucast value)
      else if width = 2 then map_option snd (DataU16ToArrayU8 dst p (ucast value))
      else if width = 4 then map_option snd (DataU32ToArrayU8 dst p value)
      else wr dst p (ucast value))"

subsection \<open>Blocks\<close>

record BlockType =
  HeadAddress :: nat
  TailAddress :: nat
  BodyAddress :: nat
  HeadLength :: nat
  TailLength :: nat
  BodyLength :: nat
  BodyBlockCount :: nat

definition InitBlock :: BlockType where
  "InitBlock = \<lparr>HeadAddress = 0, TailAddress = 0, BodyAddress = 0, HeadLength = 0, TailLength = 0,
                BodyLength = 0, BodyBlockCount = 0\<rparr>"

text \<open>\<open>None\<close>: the remainder by a zero \<open>interval\<close>.\<close>

definition BlockCalculate :: "nat \<Rightarrow> nat \<Rightarrow> nat \<Rightarrow> nat \<Rightarrow> BlockType option" where
  "BlockCalculate addr len interval base_addr =
     (if base_addr > addr then Some InitBlock
      else if interval = 0 then None
      else
        let ha = addr;
            hl0 = u32_sub interval (u32_sub ha base_addr mod interval) mod interval;
            hl = min hl0 len;
            ba = u32_add ha hl;
            bc = u32_sub len hl div interval;
            bl = u32_mul interval bc;
            ta = u32_add ba bl;
            tl = u32_sub (u32_sub len hl) bl
        in Some \<lparr>HeadAddress = ha, TailAddress = ta, BodyAddress = ba, HeadLength = hl,
                 TailLength = tl, BodyLength = bl, BodyBlockCount = bc\<rparr>)"

subsection \<open>Facts about half bytes\<close>

lemma ArrayU8ToU16_value:
  "p + 1 < length src \<Longrightarrow> \<exists>x. ArrayU8ToU16 src p = Some x \<and>
     unat x = unat (src ! p) + 256 * unat (src ! (p + 1))"
  using unat_u8_le [of "src ! p"] unat_u8_le [of "src ! (p + 1)"]
  by (auto simp: data_defs mem_simps unat_word_ariths unat_bits)

lemma ArrayU8ToU32_value:
  "p + 3 < length src \<Longrightarrow> \<exists>x. ArrayU8ToU32 src p = Some x \<and>
     unat x = unat (src ! p) + 256 * unat (src ! (p + 1)) +
              65536 * unat (src ! (p + 2)) + 16777216 * unat (src ! (p + 3))"
  using unat_u8_le [of "src ! p"] unat_u8_le [of "src ! (p + 1)"]
    unat_u8_le [of "src ! (p + 2)"] unat_u8_le [of "src ! (p + 3)"]
  by (auto simp: data_defs mem_simps unat_word_ariths unat_bits)

text \<open>The stores and loads with their window checks discharged.\<close>

lemma DataU16ToArrayU8_in:
  "p + 1 < length a \<Longrightarrow> DataU16ToArrayU8 a p v =
     Some (p + 2, a[p := ucast v, p + 1 := ucast (drop_bit 8 v)])"
  by (simp add: DataU16ToArrayU8_def wr_def)

lemma ArrayU8ToU16_in:
  "p + 1 < length a \<Longrightarrow> ArrayU8ToU16 a p = Some (ucast (a ! p) + push_bit 8 (ucast (a ! (p + 1))))"
  by (simp add: ArrayU8ToU16_def rd_def)

lemma DataU32ToArrayU8_in:
  "p + 3 < length a \<Longrightarrow> DataU32ToArrayU8 a p v =
     Some (p + 4, a[p := ucast v, p + 1 := ucast (drop_bit 8 v), p + 2 := ucast (drop_bit 16 v),
       p + 3 := ucast (drop_bit 24 v)])"
  by (simp add: DataU32ToArrayU8_def wr_def)

lemma ArrayU8ToU32_in:
  "p + 3 < length a \<Longrightarrow> ArrayU8ToU32 a p =
     Some (ucast (a ! p) + push_bit 8 (ucast (a ! (p + 1))) + push_bit 16 (ucast (a ! (p + 2))) +
           push_bit 24 (ucast (a ! (p + 3))))"
  by (simp add: ArrayU8ToU32_def rd_def)

lemma DataU64ToArrayU8_in:
  "p + 7 < length a \<Longrightarrow> DataU64ToArrayU8 a p v =
     Some (p + 8, a[p := ucast v, p + 1 := ucast (drop_bit 8 v), p + 2 := ucast (drop_bit 16 v),
       p + 3 := ucast (drop_bit 24 v), p + 4 := ucast (drop_bit 32 v), p + 5 := ucast (drop_bit 40 v),
       p + 6 := ucast (drop_bit 48 v), p + 7 := ucast (drop_bit 56 v)])"
  by (simp add: DataU64ToArrayU8_def wr_def)

lemma ArrayU8ToU64_in:
  "p + 7 < length a \<Longrightarrow> ArrayU8ToU64 a p =
     Some (ucast (a ! p) + push_bit 8 (ucast (a ! (p + 1))) + push_bit 16 (ucast (a ! (p + 2))) +
           push_bit 24 (ucast (a ! (p + 3))) + push_bit 32 (ucast (a ! (p + 4))) +
           push_bit 40 (ucast (a ! (p + 5))) + push_bit 48 (ucast (a ! (p + 6))) +
           push_bit 56 (ucast (a ! (p + 7))))"
  by (simp add: ArrayU8ToU64_def rd_def)

subsection \<open>Properties\<close>

text \<open>
  Fact.  The little-endian stores and loads of 16, 32 and 64 bits are inverse to each other
  in any array that has room, at any offset, and a store changes no byte outside its window.
\<close>

theorem store_load_roundtrip:
  assumes "p + 8 \<le> length a"
  shows "(\<exists>a2. DataU16ToArrayU8 a p v2 = Some (p + 2, a2) \<and> ArrayU8ToU16 a2 p = Some v2 \<and>
               take p a2 = take p a \<and> drop (p + 2) a2 = drop (p + 2) a) \<and>
         (\<exists>a4. DataU32ToArrayU8 a p v4 = Some (p + 4, a4) \<and> ArrayU8ToU32 a4 p = Some v4 \<and>
               take p a4 = take p a \<and> drop (p + 4) a4 = drop (p + 4) a) \<and>
         (\<exists>a8. DataU64ToArrayU8 a p v8 = Some (p + 8, a8) \<and> ArrayU8ToU64 a8 p = Some v8 \<and>
               take p a8 = take p a \<and> drop (p + 8) a8 = drop (p + 8) a)"
  (is "?R2 \<and> ?R4 \<and> ?R8")
proof (intro conjI)
  have in1: "p + 1 < length a" and in3: "p + 3 < length a" and in7: "p + 7 < length a"
    using assms by linarith+
  show ?R2 using in1 by (simp add: DataU16ToArrayU8_in ArrayU8ToU16_in ucast_ucast_u8 word_of_bytes2)
  show ?R4 using in3 by (simp add: DataU32ToArrayU8_in ArrayU8ToU32_in ucast_ucast_u8 word_of_bytes4)
  show ?R8 using in7 by (simp add: DataU64ToArrayU8_in ArrayU8ToU64_in ucast_ucast_u8 word_of_bytes8)
qed

theorem store_load_roundtrip_witness:
  "\<exists>a. DataU32ToArrayU8 [0, 0, 0, 0, 0, 0, 0, 0] 0 0x12345678 = Some (4, a) \<and>
       ArrayU8ToU32 a 0 = Some 0x12345678"
  using store_load_roundtrip [of 0 "[0, 0, 0, 0, 0, 0, 0, 0]" 0 "0x12345678" 0] by auto

text \<open>
  Fact.  \<open>BlockCalculate\<close> partitions a range \<open>[addr, addr + len)\<close> that does not wrap: head,
  body and tail follow each other and add up to \<open>len\<close>, head and tail are shorter than a block, the
  body is a whole number of blocks, and a non-empty body starts at a multiple of the interval from
  the base address.
\<close>

theorem BlockCalculate_partition:
  assumes "base_addr \<le> addr" "0 < interval" "interval < U32_RANGE" "addr + len < U32_RANGE"
  shows "\<exists>r. BlockCalculate addr len interval base_addr = Some r \<and>
     HeadAddress r = addr \<and>
     BodyAddress r = addr + HeadLength r \<and>
     TailAddress r = BodyAddress r + BodyLength r \<and>
     HeadLength r + BodyLength r + TailLength r = len \<and>
     HeadLength r < interval \<and> TailLength r < interval \<and>
     BodyLength r = interval * BodyBlockCount r \<and>
     (0 < BodyBlockCount r \<longrightarrow> interval dvd BodyAddress r - base_addr)"
proof -
  let ?m = "(addr - base_addr) mod interval"
  define h0 where "h0 = (interval - ?m) mod interval"
  define hl where "hl = min h0 len"
  define bc where "bc = (len - hl) div interval"
  have m: "?m < interval" using assms by simp
  have h0: "h0 < interval" "hl \<le> len" "hl \<le> h0" using assms by (auto simp: h0_def hl_def)
  have bl: "interval * bc \<le> len - hl" unfolding bc_def by simp
  have s1: "u32_sub addr base_addr = addr - base_addr"
    "u32_sub interval ?m = interval - ?m"
    using assms m by (auto simp: u32_simps)
  have s2: "u32_add addr hl = addr + hl" "u32_sub len hl = len - hl"
    using assms h0 by (auto simp: u32_simps)
  have s3: "u32_mul interval bc = interval * bc"
    "u32_add (addr + hl) (interval * bc) = addr + hl + interval * bc"
    "u32_sub (len - hl) (interval * bc) = len - hl - interval * bc"
    using assms bl h0 by (auto simp: u32_simps)
  have calc: "BlockCalculate addr len interval base_addr =
    Some \<lparr>HeadAddress = addr, TailAddress = addr + hl + interval * bc, BodyAddress = addr + hl,
          HeadLength = hl, TailLength = len - hl - interval * bc, BodyLength = interval * bc,
          BodyBlockCount = bc\<rparr>"
    unfolding BlockCalculate_def Let_def s1 h0_def [symmetric] hl_def [symmetric] s2
      bc_def [symmetric] s3
    using assms(1,2) by (simp only: linorder_not_less [symmetric] neq0_conv [symmetric] if_False)
  have tl: "len - hl - interval * bc = (len - hl) mod interval"
    unfolding bc_def by (rule minus_mult_div_eq_mod)
  have al: "interval dvd addr + hl - base_addr" if "0 < bc"
  proof -
    have "hl = h0" using that by (auto simp: bc_def hl_def min_def split: if_splits)
    moreover have "(addr - base_addr + h0) mod interval = 0"
    proof (cases "?m = 0")
      case False
      then have "interval - ?m < interval" using assms(2) by simp
      then have "h0 = interval - ?m" by (simp add: h0_def)
      then have "(?m + h0) mod interval = 0" using m by simp
      then show ?thesis by (simp add: mod_simps)
    qed (simp add: h0_def)
    ultimately show ?thesis using assms(1) by (simp add: mod_eq_0_iff_dvd)
  qed
  have "hl + interval * bc + (len - hl - interval * bc) = len" using bl h0 by linarith
  moreover have "len - hl - interval * bc < interval" using tl assms by simp
  moreover have "hl < interval" using h0 by linarith
  ultimately show ?thesis
    unfolding calc using al by simp
qed

theorem BlockCalculate_partition_witness:
  "\<exists>r. BlockCalculate 1003 5000 1024 0 = Some r \<and> HeadLength r = 21 \<and> BodyBlockCount r = 4 \<and>
       HeadLength r + BodyLength r + TailLength r = 5000"
proof -
  have calc: "BlockCalculate 1003 5000 1024 0 = Some \<lparr>HeadAddress = 1003, TailAddress = 5120,
      BodyAddress = 1024, HeadLength = 21, TailLength = 883, BodyLength = 4096, BodyBlockCount = 4\<rparr>"
    by (simp add: BlockCalculate_def) (simp add: u32_add_def u32_sub_def u32_mul_def)
  show ?thesis
    using BlockCalculate_partition [of 0 1003 1024 5000] unfolding calc by simp
qed

end
