(* ===== verification/CalcLib.thy ===== *)
theory CalcLib imports Prelude "HOL-Library.Multiset"
begin

text \<open>
  \<open>common_lib/usdl_calc.c\<close>: the three table-driven CRCs, the byte and half-word sums and the
  exclusive-or used as checksums by the serial protocols, and the bubble sort of the sensor code.

  The reference definitions \<open>crc32_bit\<close>, \<open>crc16_bit\<close> and \<open>crc8_bit\<close> shift one bit at a time
  through the generator polynomial; the tables are proved to hold eight such shifts, so the table
  algorithms compute the bitwise CRCs.
\<close>

named_theorems calc_defs "the byte loops of usdl_calc.c"

subsection \<open>CRC-32\<close>

definition CRC32_Table :: "u32 list" where
  "CRC32_Table =
    [0x00000000, 0x77073096, 0xEE0E612C, 0x990951BA, 0x076DC419, 0x706AF48F, 0xE963A535,
     0x9E6495A3, 0x0EDB8832, 0x79DCB8A4, 0xE0D5E91E, 0x97D2D988, 0x09B64C2B, 0x7EB17CBD,
     0xE7B82D07, 0x90BF1D91, 0x1DB71064, 0x6AB020F2, 0xF3B97148, 0x84BE41DE, 0x1ADAD47D,
     0x6DDDE4EB, 0xF4D4B551, 0x83D385C7, 0x136C9856, 0x646BA8C0, 0xFD62F97A, 0x8A65C9EC,
     0x14015C4F, 0x63066CD9, 0xFA0F3D63, 0x8D080DF5, 0x3B6E20C8, 0x4C69105E, 0xD56041E4,
     0xA2677172, 0x3C03E4D1, 0x4B04D447, 0xD20D85FD, 0xA50AB56B, 0x35B5A8FA, 0x42B2986C,
     0xDBBBC9D6, 0xACBCF940, 0x32D86CE3, 0x45DF5C75, 0xDCD60DCF, 0xABD13D59, 0x26D930AC,
     0x51DE003A, 0xC8D75180, 0xBFD06116, 0x21B4F4B5, 0x56B3C423, 0xCFBA9599, 0xB8BDA50F,
     0x2802B89E, 0x5F058808, 0xC60CD9B2, 0xB10BE924, 0x2F6F7C87, 0x58684C11, 0xC1611DAB,
     0xB6662D3D, 0x76DC4190, 0x01DB7106, 0x98D220BC, 0xEFD5102A, 0x71B18589, 0x06B6B51F,
     0x9FBFE4A5, 0xE8B8D433, 0x7807C9A2, 0x0F00F934, 0x9609A88E, 0xE10E9818, 0x7F6A0DBB,
     0x086D3D2D, 0x91646C97, 0xE6635C01, 0x6B6B51F4, 0x1C6C6162, 0x856530D8, 0xF262004E,
     0x6C0695ED, 0x1B01A57B, 0x8208F4C1, 0xF50FC457, 0x65B0D9C6, 0x12B7E950, 0x8BBEB8EA,
     0xFCB9887C, 0x62DD1DDF, 0x15DA2D49, 0x8CD37CF3, 0xFBD44C65, 0x4DB26158, 0x3AB551CE,
     0xA3BC0074, 0xD4BB30E2, 0x4ADFA541, 0x3DD895D7, 0xA4D1C46D, 0xD3D6F4FB, 0x4369E96A,
     0x346ED9FC, 0xAD678846, 0xDA60B8D0, 0x44042D73, 0x33031DE5, 0xAA0A4C5F, 0xDD0D7CC9,
     0x5005713C, 0x270241AA, 0xBE0B1010, 0xC90C2086, 0x5768B525, 0x206F85B3, 0xB966D409,
     0xCE61E49F, 0x5EDEF90E, 0x29D9C998, 0xB0D09822, 0xC7D7A8B4, 0x59B33D17, 0x2EB40D81,
     0xB7BD5C3B, 0xC0BA6CAD, 0xEDB88320, 0x9ABFB3B6, 0x03B6E20C, 0x74B1D29A, 0xEAD54739,
     0x9DD277AF, 0x04DB2615, 0x73DC1683, 0xE3630B12, 0x94643B84, 0x0D6D6A3E, 0x7A6A5AA8,
     0xE40ECF0B, 0x9309FF9D, 0x0A00AE27, 0x7D079EB1, 0xF00F9344, 0x8708A3D2, 0x1E01F268,
     0x6906C2FE, 0xF762575D, 0x806567CB, 0x196C3671, 0x6E6B06E7, 0xFED41B76, 0x89D32BE0,
     0x10DA7A5A, 0x67DD4ACC, 0xF9B9DF6F, 0x8EBEEFF9, 0x17B7BE43, 0x60B08ED5, 0xD6D6A3E8,
     0xA1D1937E, 0x38D8C2C4, 0x4FDFF252, 0xD1BB67F1, 0xA6BC5767, 0x3FB506DD, 0x48B2364B,
     0xD80D2BDA, 0xAF0A1B4C, 0x36034AF6, 0x41047A60, 0xDF60EFC3, 0xA867DF55, 0x316E8EEF,
     0x4669BE79, 0xCB61B38C, 0xBC66831A, 0x256FD2A0, 0x5268E236, 0xCC0C7795, 0xBB0B4703,
     0x220216B9, 0x5505262F, 0xC5BA3BBE, 0xB2BD0B28, 0x2BB45A92, 0x5CB36A04, 0xC2D7FFA7,
     0xB5D0CF31, 0x2CD99E8B, 0x5BDEAE1D, 0x9B64C2B0, 0xEC63F226, 0x756AA39C, 0x026D930A,
     0x9C0906A9, 0xEB0E363F, 0x72076785, 0x05005713, 0x95BF4A82, 0xE2B87A14, 0x7BB12BAE,
     0x0CB61B38, 0x92D28E9B, 0xE5D5BE0D, 0x7CDCEFB7, 0x0BDBDF21, 0x86D3D2D4, 0xF1D4E242,
     0x68DDB3F8, 0x1FDA836E, 0x81BE16CD, 0xF6B9265B, 0x6FB077E1, 0x18B74777, 0x88085AE6,
     0xFF0F6A70, 0x66063BCA, 0x11010B5C, 0x8F659EFF, 0xF862AE69, 0x616BFFD3, 0x166CCF45,
     0xA00AE278, 0xD70DD2EE, 0x4E048354, 0x3903B3C2, 0xA7672661, 0xD06016F7, 0x4969474D,
     0x3E6E77DB, 0xAED16A4A, 0xD9D65ADC, 0x40DF0B66, 0x37D83BF0, 0xA9BCAE53, 0xDEBB9EC5,
     0x47B2CF7F, 0x30B5FFE9, 0xBDBDF21C, 0xCABAC28A, 0x53B39330, 0x24B4A3A6, 0xBAD03605,
     0xCDD70693, 0x54DE5729, 0x23D967BF, 0xB3667A2E, 0xC4614AB8, 0x5D681B02, 0x2A6F2B94,
     0xB40BBE37, 0xC30C8EA1, 0x5A05DF1B, 0x2D02EF8D]"

type_synonym CRC32_CTX = u32

definition CRC32_Init :: "CRC32_CTX \<Rightarrow> CRC32_CTX" where
  "CRC32_Init ctx = 0xFFFFFFFF"

text \<open>The loop over \<open>len\<close> bytes at \<open>data\<close>, from index \<open>i\<close> on.\<close>

fun CRC32_Update_loop :: "CRC32_CTX \<Rightarrow> u8 list \<Rightarrow> nat \<Rightarrow> nat \<Rightarrow> CRC32_CTX option" where
  "CRC32_Update_loop crc data i 0 = Some crc"
| "CRC32_Update_loop crc data i (Suc n) =
     do { b \<leftarrow> rd data i;
          t \<leftarrow> rd CRC32_Table (unat ((crc AND 0xFF) XOR ucast b));
          CRC32_Update_loop (drop_bit 8 crc XOR t) data (Suc i) n }"

definition CRC32_Update :: "CRC32_CTX \<Rightarrow> u8 list \<Rightarrow> nat \<Rightarrow> CRC32_CTX option" where
  "CRC32_Update ctx data len = CRC32_Update_loop ctx data 0 len"

definition CRC32_Final :: "CRC32_CTX \<Rightarrow> u32 \<times> CRC32_CTX" where
  "CRC32_Final ctx = (let c = ctx XOR 0xFFFFFFFF in (c, c))"

subsection \<open>CRC-16\<close>

definition auchCRCHi :: "u8 list" where
  "auchCRCHi =
    [0x00, 0xC1, 0x81, 0x40, 0x01, 0xC0, 0x80, 0x41, 0x01, 0xC0, 0x80, 0x41, 0x00, 0xC1,
     0x81, 0x40, 0x01, 0xC0, 0x80, 0x41, 0x00, 0xC1, 0x81, 0x40, 0x00, 0xC1, 0x81, 0x40,
     0x01, 0xC0, 0x80, 0x41, 0x01, 0xC0, 0x80, 0x41, 0x00, 0xC1, 0x81, 0x40, 0x00, 0xC1,
     0x81, 0x40, 0x01, 0xC0, 0x80, 0x41, 0x00, 0xC1, 0x81, 0x40, 0x01, 0xC0, 0x80, 0x41,
     0x01, 0xC0, 0x80, 0x41, 0x00, 0xC1, 0x81, 0x40, 0x01, 0xC0, 0x80, 0x41, 0x00, 0xC1,
     0x81, 0x40, 0x00, 0xC1, 0x81, 0x40, 0x01, 0xC0, 0x80, 0x41, 0x00, 0xC1, 0x81, 0x40,
     0x01, 0xC0, 0x80, 0x41, 0x01, 0xC0, 0x80, 0x41, 0x00, 0xC1, 0x81, 0x40, 0x00, 0xC1,
     0x81, 0x40, 0x01, 0xC0, 0x80, 0x41, 0x01, 0xC0, 0x80, 0x41, 0x00, 0xC1, 0x81, 0x40,
     0x01, 0xC0, 0x80, 0x41, 0x00, 0xC1, 0x81, 0x40, 0x00, 0xC1, 0x81, 0x40, 0x01, 0xC0,
     0x80, 0x41, 0x01, 0xC0, 0x80, 0x41, 0x00, 0xC1, 0x81, 0x40, 0x00, 0xC1, 0x81, 0x40,
     0x01, 0xC0, 0x80, 0x41, 0x00, 0xC1, 0x81, 0x40, 0x01, 0xC0, 0x80, 0x41, 0x01, 0xC0,
     0x80, 0x41, 0x00, 0xC1, 0x81, 0x40, 0x00, 0xC1, 0x81, 0x40, 0x01, 0xC0, 0x80, 0x41,
     0x01, 0xC0, 0x80, 0x41, 0x00, 0xC1, 0x81, 0x40, 0x01, 0xC0, 0x80, 0x41, 0x00, 0xC1,
     0x81, 0x40, 0x00, 0xC1, 0x81, 0x40, 0x01, 0xC0, 0x80, 0x41, 0x00, 0xC1, 0x81, 0x40,
     0x01, 0xC0, 0x80, 0x41, 0x01, 0xC0, 0x80, 0x41, 0x00, 0xC1, 0x81, 0x40, 0x01, 0xC0,
     0x80, 0x41, 0x00, 0xC1, 0x81, 0x40, 0x00, 0xC1, 0x81, 0x40, 0x01, 0xC0, 0x80, 0x41,
     0x01, 0xC0, 0x80, 0x41, 0x00, 0xC1, 0x81, 0x40, 0x00, 0xC1, 0x81, 0x40, 0x01, 0xC0,
     0x80, 0x41, 0x00, 0xC1, 0x81, 0x40, 0x01, 0xC0, 0x80, 0x41, 0x01, 0xC0, 0x80, 0x41,
     0x00, 0xC1, 0x81, 0x40]"

definition auchCRCLo :: "u8 list" where
  "auchCRCLo =
    [0x00, 0xC0, 0xC1, 0x01, 0xC3, 0x03, 0x02, 0xC2, 0xC6, 0x06, 0x07, 0xC7, 0x05, 0xC5,
     0xC4, 0x04, 0xCC, 0x0C, 0x0D, 0xCD, 0x0F, 0xCF, 0xCE, 0x0E, 0x0A, 0xCA, 0xCB, 0x0B,
     0xC9, 0x09, 0x08, 0xC8, 0xD8, 0x18, 0x19, 0xD9, 0x1B, 0xDB, 0xDA, 0x1A, 0x1E, 0xDE,
     0xDF, 0x1F, 0xDD, 0x1D, 0x1C, 0xDC, 0x14, 0xD4, 0xD5, 0x15, 0xD7, 0x17, 0x16, 0xD6,
     0xD2, 0x12, 0x13, 0xD3, 0x11, 0xD1, 0xD0, 0x10, 0xF0, 0x30, 0x31, 0xF1, 0x33, 0xF3,
     0xF2, 0x32, 0x36, 0xF6, 0xF7, 0x37, 0xF5, 0x35, 0x34, 0xF4, 0x3C, 0xFC, 0xFD, 0x3D,
     0xFF, 0x3F, 0x3E, 0xFE, 0xFA, 0x3A, 0x3B, 0xFB, 0x39, 0xF9, 0xF8, 0x38, 0x28, 0xE8,
     0xE9, 0x29, 0xEB, 0x2B, 0x2A, 0xEA, 0xEE, 0x2E, 0x2F, 0xEF, 0x2D, 0xED, 0xEC, 0x2C,
     0xE4, 0x24, 0x25, 0xE5, 0x27, 0xE7, 0xE6, 0x26, 0x22, 0xE2, 0xE3, 0x23, 0xE1, 0x21,
     0x20, 0xE0, 0xA0, 0x60, 0x61, 0xA1, 0x63, 0xA3, 0xA2, 0x62, 0x66, 0xA6, 0xA7, 0x67,
     0xA5, 0x65, 0x64, 0xA4, 0x6C, 0xAC, 0xAD, 0x6D, 0xAF, 0x6F, 0x6E, 0xAE, 0xAA, 0x6A,
     0x6B, 0xAB, 0x69, 0xA9, 0xA8, 0x68, 0x78, 0xB8, 0xB9, 0x79, 0xBB, 0x7B, 0x7A, 0xBA,
     0xBE, 0x7E, 0x7F, 0xBF, 0x7D, 0xBD, 0xBC, 0x7C, 0xB4, 0x74, 0x75, 0xB5, 0x77, 0xB7,
     0xB6, 0x76, 0x72, 0xB2, 0xB3, 0x73, 0xB1, 0x71, 0x70, 0xB0, 0x50, 0x90, 0x91, 0x51,
     0x93, 0x53, 0x52, 0x92, 0x96, 0x56, 0x57, 0x97, 0x55, 0x95, 0x94, 0x54, 0x9C, 0x5C,
     0x5D, 0x9D, 0x5F, 0x9F, 0x9E, 0x5E, 0x5A, 0x9A, 0x9B, 0x5B, 0x99, 0x59, 0x58, 0x98,
     0x88, 0x48, 0x49, 0x89, 0x4B, 0x8B, 0x8A, 0x4A, 0x4E, 0x8E, 0x8F, 0x4F, 0x8D, 0x4D,
     0x4C, 0x8C, 0x44, 0x84, 0x85, 0x45, 0x87, 0x47, 0x46, 0x86, 0x82, 0x42, 0x43, 0x83,
     0x41, 0x81, 0x80, 0x40]"

fun Get_CRC16_loop :: "u8 \<Rightarrow> u8 \<Rightarrow> u8 list \<Rightarrow> nat \<Rightarrow> nat \<Rightarrow> (u8 \<times> u8) option" where
  "Get_CRC16_loop hi lo data i 0 = Some (hi, lo)"
| "Get_CRC16_loop hi lo data i (Suc n) =
     do { b \<leftarrow> rd data i;
          let uIndex = unat (hi XOR b) in
          do { th \<leftarrow> rd auchCRCHi uIndex;
               tl \<leftarrow> rd auchCRCLo uIndex;
               Get_CRC16_loop (lo XOR th) tl data (Suc i) n } }"

definition Get_CRC16 :: "u8 list \<Rightarrow> nat \<Rightarrow> u16 option" where
  "Get_CRC16 data len =
     do { (hi, lo) \<leftarrow> Get_CRC16_loop 0xFF 0xFF data 0 len;
          Some (push_bit 8 (ucast hi) OR ucast lo) }"

subsection \<open>CRC-8\<close>

definition CRC8Table :: "u8 list" where
  "CRC8Table =
    [0x00, 0x1C, 0x38, 0x24, 0x70, 0x6C, 0x48, 0x54, 0xE0, 0xFC, 0xD8, 0xC4, 0x90, 0x8C,
     0xA8, 0xB4, 0xDC, 0xC0, 0xE4, 0xF8, 0xAC, 0xB0, 0x94, 0x88, 0x3C, 0x20, 0x04, 0x18,
     0x4C, 0x50, 0x74, 0x68, 0xA4, 0xB8, 0x9C, 0x80, 0xD4, 0xC8, 0xEC, 0xF0, 0x44, 0x58,
     0x7C, 0x60, 0x34, 0x28, 0x0C, 0x10, 0x78, 0x64, 0x40, 0x5C, 0x08, 0x14, 0x30, 0x2C,
     0x98, 0x84, 0xA0, 0xBC, 0xE8, 0xF4, 0xD0, 0xCC, 0x54, 0x48, 0x6C, 0x70, 0x24, 0x38,
     0x1C, 0x00, 0xB4, 0xA8, 0x8C, 0x90, 0xC4, 0xD8, 0xFC, 0xE0, 0x88, 0x94, 0xB0, 0xAC,
     0xF8, 0xE4, 0xC0, 0xDC, 0x68, 0x74, 0x50, 0x4C, 0x18, 0x04, 0x20, 0x3C, 0xF0, 0xEC,
     0xC8, 0xD4, 0x80, 0x9C, 0xB8, 0xA4, 0x10, 0x0C, 0x28, 0x34, 0x60, 0x7C, 0x58, 0x44,
     0x2C, 0x30, 0x14, 0x08, 0x5C, 0x40, 0x64, 0x78, 0xCC, 0xD0, 0xF4, 0xE8, 0xBC, 0xA0,
     0x84, 0x98, 0xA8, 0xB4, 0x90, 0x8C, 0xD8, 0xC4, 0xE0, 0xFC, 0x48, 0x54, 0x70, 0x6C,
     0x38, 0x24, 0x00, 0x1C, 0x74, 0x68, 0x4C, 0x50, 0x04, 0x18, 0x3C, 0x20, 0x94, 0x88,
     0xAC, 0xB0, 0xE4, 0xF8, 0xDC, 0xC0, 0x0C, 0x10, 0x34, 0x28, 0x7C, 0x60, 0x44, 0x58,
     0xEC, 0xF0, 0xD4, 0xC8, 0x9C, 0x80, 0xA4, 0xB8, 0xD0, 0xCC, 0xE8, 0xF4, 0xA0, 0xBC,
     0x98, 0x84, 0x30, 0x2C, 0x08, 0x14, 0x40, 0x5C, 0x78, 0x64, 0xFC, 0xE0, 0xC4, 0xD8,
     0x8C, 0x90, 0xB4, 0xA8, 0x1C, 0x00, 0x24, 0x38, 0x6C, 0x70, 0x54, 0x48, 0x20, 0x3C,
     0x18, 0x04, 0x50, 0x4C, 0x68, 0x74, 0xC0, 0xDC, 0xF8, 0xE4, 0xB0, 0xAC, 0x88, 0x94,
     0x58, 0x44, 0x60, 0x7C, 0x28, 0x34, 0x10, 0x0C, 0xB8, 0xA4, 0x80, 0x9C, 0xC8, 0xD4,
     0xF0, 0xEC, 0x84, 0x98, 0xBC, 0xA0, 0xF4, 0xE8, 0xCC, 0xD0, 0x64, 0x78, 0x5C, 0x40,
     0x14, 0x08, 0x2C, 0x30]"

fun Get_CRC8_loop :: "u8 \<Rightarrow> u8 list \<Rightarrow> nat \<Rightarrow> nat \<Rightarrow> u8 option" where
  "Get_CRC8_loop crc data i 0 = Some crc"
| "Get_CRC8_loop crc data i (Suc n) =
     do { b \<leftarrow> rd data i;
          crc' \<leftarrow> rd CRC8Table (unat (crc XOR (b AND 0xFF)));
          Get_CRC8_loop crc' data (Suc i) n }"

definition Get_CRC8 :: "u8 list \<Rightarrow> nat \<Rightarrow> u8 option" where
  "Get_CRC8 data len = Get_CRC8_loop 0 data 0 len"

subsection \<open>Sums and exclusive or\<close>

text \<open>One loop shape: fold \<open>f\<close> over \<open>n\<close> bytes from index \<open>i\<close> on.\<close>

fun byte_loop :: "('a \<Rightarrow> u8 \<Rightarrow> 'a) \<Rightarrow> 'a \<Rightarrow> u8 list \<Rightarrow> nat \<Rightarrow> nat \<Rightarrow> 'a option" where
  "byte_loop f acc buf i 0 = Some acc"
| "byte_loop f acc buf i (Suc n) = do { b \<leftarrow> rd buf i; byte_loop f (f acc b) buf (Suc i) n }"

definition Get_Sum8 :: "u8 list \<Rightarrow> nat \<Rightarrow> u8 option" where
  "Get_Sum8 buf len = byte_loop (+) 0 buf 0 len"

definition Get_Sum16 :: "u8 list \<Rightarrow> nat \<Rightarrow> u16 option" where
  "Get_Sum16 buf len = byte_loop (\<lambda>sum b. sum + ucast b) 0 buf 0 len"

definition Get_ExclusiveOR :: "u8 list \<Rightarrow> nat \<Rightarrow> u8 option" where
  "Get_ExclusiveOR buf len = byte_loop (XOR) 0 buf 0 len"

subsection \<open>Bubble sort\<close>

text \<open>\<open>Swap(a[j], a[j + 1])\<close>, the exclusive-or exchange of the macro in \<open>usdl_tools.h\<close>.\<close>

definition Swap :: "'a::len word list \<Rightarrow> nat \<Rightarrow> nat \<Rightarrow> 'a word list option" where
  "Swap xs p q =
     do { a \<leftarrow> rd xs p; b \<leftarrow> rd xs q; xs \<leftarrow> wr xs p (a XOR b);
          a \<leftarrow> rd xs p; b \<leftarrow> rd xs q; xs \<leftarrow> wr xs q (b XOR a);
          a \<leftarrow> rd xs p; b \<leftarrow> rd xs q; wr xs p (a XOR b) }"

text \<open>
  The inner loop runs \<open>j\<close> from \<open>len - 2\<close> down to \<open>i\<close>; \<open>k\<close> counts the iterations left, so
  \<open>j = i + k - 1\<close>.  (Both indices are signed in the source: for \<open>len \<le> 1\<close> the loop is empty.)
\<close>

fun BubbleSort_inner :: "u16 list \<Rightarrow> nat \<Rightarrow> nat \<Rightarrow> bool \<Rightarrow> (u16 list \<times> bool) option" where
  "BubbleSort_inner a i 0 flag = Some (a, flag)"
| "BubbleSort_inner a i (Suc k) flag =
     do { x \<leftarrow> rd a (i + k); y \<leftarrow> rd a (i + k + 1);
          if y < x then do { a' \<leftarrow> Swap a (i + k) (i + k + 1); BubbleSort_inner a' i k True }
          else BubbleSort_inner a i k flag }"

function BubbleSort_outer :: "u16 list \<Rightarrow> nat \<Rightarrow> nat \<Rightarrow> bool \<Rightarrow> u16 list option" where
  "BubbleSort_outer a len i flag =
     (if i < len \<and> flag
      then do { (a', flag') \<leftarrow> BubbleSort_inner a i (len - 1 - i) False;
                BubbleSort_outer a' len (Suc i) flag' }
      else Some a)"
  by pat_completeness auto
termination
  by (relation "measure (\<lambda>(a, len, i, flag). len - i)") auto

declare BubbleSort_outer.simps [simp del]

definition BubbleSort :: "u16 list \<Rightarrow> nat \<Rightarrow> u16 list option" where
  "BubbleSort a len = BubbleSort_outer a len 0 True"

subsection \<open>One bit at a time\<close>

definition crc32_bit :: "u32 \<Rightarrow> u32" where
  "crc32_bit c = (if bit c 0 then drop_bit 1 c XOR 0xEDB88320 else drop_bit 1 c)"

definition crc16_bit :: "u16 \<Rightarrow> u16" where
  "crc16_bit c = (if bit c 0 then drop_bit 1 c XOR 0xA001 else drop_bit 1 c)"

definition crc8_bit :: "u8 \<Rightarrow> u8" where
  "crc8_bit c = (if bit c 7 then push_bit 1 c XOR 0x1C else push_bit 1 c)"

text \<open>The bitwise reference: every byte is added into the register, then eight bits shift out.\<close>

definition crc32_ref :: "u32 \<Rightarrow> u8 list \<Rightarrow> u32" where
  "crc32_ref c bs = foldl (\<lambda>c b. (crc32_bit ^^ 8) (c XOR ucast b)) c bs"

definition crc16_ref :: "u16 \<Rightarrow> u8 list \<Rightarrow> u16" where
  "crc16_ref c bs = foldl (\<lambda>c b. (crc16_bit ^^ 8) (c XOR ucast b)) c bs"

definition crc8_ref :: "u8 \<Rightarrow> u8 list \<Rightarrow> u8" where
  "crc8_ref c bs = foldl (\<lambda>c b. (crc8_bit ^^ 8) (c XOR b)) c bs"

subsection \<open>Tables of a linear shift step\<close>

text \<open>
  A table that is built by doubling holds the eight-fold step of every index, because the step is
  linear for exclusive or.
\<close>

definition double_table :: "'a::len word list \<Rightarrow> 'a word \<Rightarrow> 'a word list" where
  "double_table t b = t @ map (\<lambda>x. x XOR b) t"

lemma of_nat_add_exp_xor:
  "i < 2 ^ n \<Longrightarrow> (of_nat (2 ^ n + i) :: 'a::len word) = of_nat i XOR of_nat (2 ^ n)"
proof -
  assume a: "i < 2 ^ n"
  have z: "of_nat i AND (2 ^ n :: 'a word) = 0"
  proof (rule bit_word_eqI)
    fix m
    have "take_bit n i = i" using a by (simp add: take_bit_nat_eq_self)
    then show "bit (of_nat i AND (2 ^ n :: 'a word)) m = bit (0 :: 'a word) m"
      by (auto simp: bit_simps bit_exp_iff) (metis bit_take_bit_iff less_irrefl)
  qed
  then show ?thesis using disjunctive_add_eq_or [OF z] disjunctive_xor_eq_or [OF z]
    by (simp add: add.commute)
qed

locale linear_step =
  fixes f :: "'a::len word \<Rightarrow> 'a word"
  assumes linear: "f (x XOR y) = f x XOR f y"
begin

lemma power_linear: "(f ^^ k) (x XOR y) = (f ^^ k) x XOR (f ^^ k) y"
  by (induction k) (simp_all add: linear)

lemma power_zero: "(f ^^ k) 0 = 0"
  using power_linear [of k 0 0] by simp

lemma double_table_nth:
  assumes "length t = 2 ^ n" "\<forall>i<2 ^ n. t ! i = (f ^^ k) (of_nat i)" "b = (f ^^ k) (of_nat (2 ^ n))"
  shows "length (double_table t b) = 2 ^ Suc n \<and>
         (\<forall>i<2 ^ Suc n. double_table t b ! i = (f ^^ k) (of_nat i))"
proof (intro conjI allI impI)
  fix i :: nat assume i: "i < 2 ^ Suc n"
  show "double_table t b ! i = (f ^^ k) (of_nat i)"
  proof (cases "i < 2 ^ n")
    case True
    then show ?thesis using assms by (simp add: double_table_def nth_append)
  next
    case False
    then obtain j where j: "i = 2 ^ n + j" "j < 2 ^ n"
      using i by (metis add_diff_inverse_nat mult_2 nat_add_left_cancel_less power_Suc)
    have "double_table t b ! i = (f ^^ k) (of_nat j) XOR b"
      using j assms by (simp add: double_table_def nth_append)
    also have "\<dots> = (f ^^ k) (of_nat j XOR of_nat (2 ^ n))"
      using assms(3) by (simp only: power_linear)
    also have "\<dots> = (f ^^ k) (of_nat i)"
      using of_nat_add_exp_xor [OF j(2)] j(1) by (metis (no_types))
    finally show ?thesis .
  qed
qed (simp add: assms double_table_def)

lemma doubled_table:
  assumes "length bs = n" "\<forall>j<n. bs ! j = (f ^^ k) (of_nat (2 ^ j))"
  shows "length (foldl double_table [0] bs) = 2 ^ n \<and>
         (\<forall>i<2 ^ n. foldl double_table [0] bs ! i = (f ^^ k) (of_nat i))"
  using assms
proof (induction bs arbitrary: n rule: rev_induct)
  case Nil
  then show ?case by (simp add: power_zero)
next
  case (snoc b bs)
  then have n: "n = Suc (length bs)" by simp
  have nth: "(bs @ [b]) ! j = (f ^^ k) (of_nat (2 ^ j))" if "j < Suc (length bs)" for j
    using snoc.prems(2) n that by blast
  have "\<forall>j<length bs. bs ! j = (f ^^ k) (of_nat (2 ^ j))"
  proof (intro allI impI)
    fix j assume "j < length bs"
    then show "bs ! j = (f ^^ k) (of_nat (2 ^ j))" using nth [of j] by (simp add: nth_append)
  qed
  from snoc.IH [OF refl this] show ?case
    using double_table_nth [of "foldl double_table [0] bs" "length bs" k b] nth [of "length bs"] n
    by auto
qed

end

lemma word_xor_diff: "bit (x XOR y) n \<longleftrightarrow> bit x n \<noteq> bit (y :: 'a::len word) n"
  by (simp add: bit_xor_iff)

interpretation crc32: linear_step crc32_bit
  by unfold_locales (auto simp: crc32_bit_def bit_xor_iff ac_simps)

interpretation crc16: linear_step crc16_bit
  by unfold_locales (auto simp: crc16_bit_def bit_xor_iff ac_simps)

interpretation crc8: linear_step crc8_bit
  by unfold_locales (auto simp: crc8_bit_def bit_xor_iff ac_simps)

subsection \<open>The three tables hold eight shifts\<close>

text \<open>
  The table entry of \<open>2 ^ k\<close> is the generator after \<open>7 - k\<close> (reflected) or \<open>k\<close> (CRC-8) further
  shifts: the low bits of the index fall off first.
\<close>

lemma crc32_shift: "\<not> bit c 0 \<Longrightarrow> crc32_bit c = drop_bit 1 c"
  by (simp add: crc32_bit_def)

lemma crc16_shift: "\<not> bit c 0 \<Longrightarrow> crc16_bit c = drop_bit 1 c"
  by (simp add: crc16_bit_def)

lemma shifts_out:
  fixes f :: "'a::len word \<Rightarrow> 'a word"
  assumes "\<And>c. \<not> bit c 0 \<Longrightarrow> f c = drop_bit 1 c" "take_bit n c = 0"
  shows "(f ^^ n) c = drop_bit n c"
  using assms(2)
proof (induction n)
  case (Suc n)
  have z: "\<not> bit c j" if "j < Suc n" for j
    using Suc.prems that by (metis bit_0_eq bit_take_bit_iff bot_apply bot_bool_def)
  have "take_bit n c = 0"
    by (rule bit_word_eqI) (auto simp: bit_take_bit_iff z)
  then have "(f ^^ Suc n) c = f (drop_bit n c)" using Suc.IH by simp
  also have "\<dots> = drop_bit 1 (drop_bit n c)"
    using assms(1) [of "drop_bit n c"] z [of n] by (simp add: bit_drop_bit_eq)
  finally show ?case by simp
qed simp

lemma shift_table_entry:
  fixes f :: "'a::len word \<Rightarrow> 'a word"
  assumes "\<And>c. \<not> bit c 0 \<Longrightarrow> f c = drop_bit 1 c" "k < 8" "8 \<le> LENGTH('a)"
  shows "(f ^^ 8) (of_nat (2 ^ k)) = (f ^^ (8 - k)) 1"
proof -
  have t: "take_bit k (2 ^ k :: 'a word) = 0"
    by (rule bit_word_eqI) (auto simp: bit_simps bit_exp_iff)
  have "(f ^^ 8) (2 ^ k) = (f ^^ (8 - k)) ((f ^^ k) (2 ^ k))"
    using assms(2) by (metis add.commute comp_apply funpow_add le_add_diff_inverse less_imp_le_nat)
  also have "(f ^^ k) (2 ^ k) = drop_bit k (2 ^ k)"
    by (rule shifts_out [OF assms(1) t])
  also have "drop_bit k (2 ^ k :: 'a word) = 1"
    by (rule bit_word_eqI) (use assms in \<open>auto simp: bit_simps bit_exp_iff bit_1_iff\<close>)
  finally show ?thesis by simp
qed

definition crc32_basis :: "u32 list" where
  "crc32_basis = [0x77073096, 0xEE0E612C, 0x076DC419, 0x0EDB8832,
                  0x1DB71064, 0x3B6E20C8, 0x76DC4190, 0xEDB88320]"

lemma crc32_chain:
  "crc32_bit 1 = 0xEDB88320" "crc32_bit 0xEDB88320 = 0x76DC4190"
  "crc32_bit 0x76DC4190 = 0x3B6E20C8" "crc32_bit 0x3B6E20C8 = 0x1DB71064"
  "crc32_bit 0x1DB71064 = 0x0EDB8832" "crc32_bit 0x0EDB8832 = 0x076DC419"
  "crc32_bit 0x076DC419 = 0xEE0E612C" "crc32_bit 0xEE0E612C = 0x77073096"
  by (simp_all add: crc32_bit_def)

lemma crc32_basis_nth: "j < 8 \<Longrightarrow> crc32_basis ! j = (crc32_bit ^^ 8) (of_nat (2 ^ j))"
proof -
  assume j: "j < 8"
  then have "(crc32_bit ^^ 8) (of_nat (2 ^ j)) = (crc32_bit ^^ (8 - j)) 1"
    by (intro shift_table_entry) (simp_all add: crc32_shift)
  then show ?thesis
    using eight_cases [OF j]
    by (elim disjE) (simp_all add: crc32_basis_def eval_nat_numeral crc32_chain [simplified])
qed

lemma CRC32_Table_doubled: "CRC32_Table = foldl double_table [0] crc32_basis"
  by (simp add: double_table_def CRC32_Table_def crc32_basis_def)

lemma CRC32_Table_entries:
  "length CRC32_Table = 256" "i < 256 \<Longrightarrow> CRC32_Table ! i = (crc32_bit ^^ 8) (of_nat i)"
  using crc32.doubled_table [of crc32_basis 8 8] crc32_basis_nth
  by (simp_all add: CRC32_Table_doubled crc32_basis_def)

definition crc16_basis :: "u16 list" where
  "crc16_basis = [0xC0C1, 0xC181, 0xC301, 0xC601, 0xCC01, 0xD801, 0xF001, 0xA001]"

definition crc16_table :: "u16 list" where
  "crc16_table = map2 (\<lambda>lo hi. push_bit 8 (ucast lo) OR ucast hi) auchCRCLo auchCRCHi"

lemma crc16_chain:
  "crc16_bit 1 = 0xA001" "crc16_bit 0xA001 = 0xF001" "crc16_bit 0xF001 = 0xD801"
  "crc16_bit 0xD801 = 0xCC01" "crc16_bit 0xCC01 = 0xC601" "crc16_bit 0xC601 = 0xC301"
  "crc16_bit 0xC301 = 0xC181" "crc16_bit 0xC181 = 0xC0C1"
  by (simp_all add: crc16_bit_def)

lemma crc16_basis_nth: "j < 8 \<Longrightarrow> crc16_basis ! j = (crc16_bit ^^ 8) (of_nat (2 ^ j))"
proof -
  assume j: "j < 8"
  then have "(crc16_bit ^^ 8) (of_nat (2 ^ j)) = (crc16_bit ^^ (8 - j)) 1"
    by (intro shift_table_entry) (simp_all add: crc16_shift)
  then show ?thesis
    using eight_cases [OF j]
    by (elim disjE) (simp_all add: crc16_basis_def eval_nat_numeral crc16_chain [simplified])
qed

lemma crc16_table_doubled: "crc16_table = foldl double_table [0] crc16_basis"
  by (simp add: double_table_def crc16_table_def auchCRCLo_def auchCRCHi_def crc16_basis_def)

lemma length_auchCRC [simp]: "length auchCRCHi = 256" "length auchCRCLo = 256"
  by (simp_all add: auchCRCHi_def auchCRCLo_def)

lemma auchCRC_entries:
  "i < 256 \<Longrightarrow> push_bit 8 (ucast (auchCRCLo ! i)) OR ucast (auchCRCHi ! i) = (crc16_bit ^^ 8) (of_nat i)"
proof -
  assume i: "i < 256"
  then have "crc16_table ! i = (crc16_bit ^^ 8) (of_nat i)"
    using crc16.doubled_table [of crc16_basis 8 8] crc16_basis_nth
    by (simp add: crc16_table_doubled crc16_basis_def)
  then show ?thesis using i by (simp add: crc16_table_def)
qed

definition crc8_basis :: "u8 list" where
  "crc8_basis = [0x1C, 0x38, 0x70, 0xE0, 0xDC, 0xA4, 0x54, 0xA8]"

lemma crc8_chain:
  "crc8_bit 1 = 2" "crc8_bit 2 = 4" "crc8_bit 4 = 8" "crc8_bit 8 = 16" "crc8_bit 16 = 32"
  "crc8_bit 32 = 64" "crc8_bit 64 = 128" "crc8_bit 128 = 0x1C" "crc8_bit 0x1C = 0x38"
  "crc8_bit 0x38 = 0x70" "crc8_bit 0x70 = 0xE0" "crc8_bit 0xE0 = 0xDC" "crc8_bit 0xDC = 0xA4"
  "crc8_bit 0xA4 = 0x54" "crc8_bit 0x54 = 0xA8"
  by (simp_all add: crc8_bit_def)

lemma crc8_basis_nth: "j < 8 \<Longrightarrow> crc8_basis ! j = (crc8_bit ^^ 8) (of_nat (2 ^ j))"
  by (drule eight_cases, elim disjE)
     (simp_all add: crc8_basis_def eval_nat_numeral crc8_chain [simplified])

lemma CRC8Table_doubled: "CRC8Table = foldl double_table [0] crc8_basis"
  by (simp add: double_table_def CRC8Table_def crc8_basis_def)

lemma CRC8Table_entries:
  "length CRC8Table = 256" "i < 256 \<Longrightarrow> CRC8Table ! i = (crc8_bit ^^ 8) (of_nat i)"
  using crc8.doubled_table [of crc8_basis 8 8] crc8_basis_nth
  by (simp_all add: CRC8Table_doubled crc8_basis_def)

subsection \<open>One byte through the table is eight bits through the register\<close>

lemma word_FF: "(0xFF :: 'a::len word) = mask 8"
  by (simp add: mask_eq_exp_minus_1)

lemma split_low_byte:
  fixes c :: "'a::len word"
  assumes "8 \<le> LENGTH('a)"
  shows "c XOR ucast (b :: u8) = (c AND NOT 0xFF) XOR ((c AND 0xFF) XOR ucast b)"
proof -
  have "c = (c AND NOT 0xFF) XOR (c AND 0xFF)"
    unfolding word_FF by (rule bit_word_eqI) (auto simp: bitwise)
  then show ?thesis by (metis xor.assoc)
qed

lemma reflected_byte_step:
  fixes f :: "'a::len word \<Rightarrow> 'a word"
  assumes lin: "linear_step f" and shift: "\<And>c. \<not> bit c 0 \<Longrightarrow> f c = drop_bit 1 c" and "8 \<le> LENGTH('a)"
  shows "drop_bit 8 c XOR (f ^^ 8) ((c AND 0xFF) XOR ucast (b :: u8)) = (f ^^ 8) (c XOR ucast b)"
proof -
  have "take_bit 8 (c AND NOT 0xFF) = 0"
    unfolding word_FF by (rule bit_word_eqI) (auto simp: bit_simps)
  then have "(f ^^ 8) (c AND NOT 0xFF) = drop_bit 8 (c AND NOT 0xFF)"
    using shifts_out [of f] shift by blast
  also have "\<dots> = drop_bit 8 c"
    unfolding word_FF by (rule bit_word_eqI) (auto simp: bit_simps dest: bit_imp_le_length)
  finally show ?thesis
    using linear_step.power_linear [OF lin] split_low_byte [OF assms(3), of c b]
    by metis
qed

lemma xor_low_byte_less:
  "unat ((c AND 0xFF) XOR ucast (b :: u8) :: u32) < 256"
proof -
  have "(c AND 0xFF) XOR ucast b = take_bit 8 ((c AND 0xFF) XOR ucast b :: u32)"
    unfolding word_FF by (rule bit_word_eqI) (auto simp: bit_simps bitwise dest: bit_imp_le_length)
  then have "unat ((c AND 0xFF) XOR ucast b :: u32) = take_bit 8 (unat ((c AND 0xFF) XOR ucast b :: u32))"
    by (metis unsigned_take_bit_eq)
  then show ?thesis
    using take_bit_nat_less_exp [of 8 "unat ((c AND 0xFF) XOR ucast b :: u32)"] by simp
qed

subsection \<open>The loops\<close>

lemma take_Suc_drop: "i < length xs \<Longrightarrow> take (Suc n) (drop i xs) = xs ! i # take n (drop (Suc i) xs)"
  by (simp add: Cons_nth_drop_Suc [symmetric])

lemma CRC32_Update_loop_ref:
  "i + n \<le> length data \<Longrightarrow>
     CRC32_Update_loop c data i n = Some (crc32_ref c (take n (drop i data)))"
proof (induction n arbitrary: c i)
  case 0
  then show ?case by (simp add: crc32_ref_def)
next
  case (Suc n)
  let ?b = "data ! i"
  have "rd CRC32_Table (unat ((c AND 0xFF) XOR ucast ?b)) =
        Some ((crc32_bit ^^ 8) ((c AND 0xFF) XOR ucast ?b))"
    using xor_low_byte_less [of c ?b] by (simp add: rd_def CRC32_Table_entries)
  moreover have "drop_bit 8 c XOR (crc32_bit ^^ 8) ((c AND 0xFF) XOR ucast ?b) =
                 (crc32_bit ^^ 8) (c XOR ucast ?b)"
    by (rule reflected_byte_step [OF crc32.linear_step_axioms crc32_shift]) simp_all
  ultimately show ?case
    using Suc.IH [of "Suc i"] Suc.prems
    by (simp add: mem_simps take_Suc_drop crc32_ref_def)
qed

lemma Get_CRC16_step:
  fixes hi lo b :: u8
  defines "c \<equiv> push_bit 8 (ucast lo) OR ucast hi :: u16"
  shows "push_bit 8 (ucast (auchCRCLo ! unat (hi XOR b))) OR
         ucast (lo XOR auchCRCHi ! unat (hi XOR b)) = (crc16_bit ^^ 8) (c XOR ucast b)"
proof -
  let ?i = "unat (hi XOR b)"
  have low: "(c AND 0xFF) XOR ucast b = (of_nat ?i :: u16)"
    unfolding word_FF by (rule bit_word_eqI) (auto simp: c_def bit_simps bitwise dest: bit_imp_le_length)
  have "drop_bit 8 c = ucast lo"
    by (rule bit_word_eqI) (auto simp: c_def bit_simps bitwise dest: bit_imp_le_length)
  then have "(crc16_bit ^^ 8) (c XOR ucast b) = ucast lo XOR (crc16_bit ^^ 8) (of_nat ?i)"
    using reflected_byte_step [OF crc16.linear_step_axioms crc16_shift, of c b] low by simp
  also have "(crc16_bit ^^ 8) (of_nat ?i) =
      push_bit 8 (ucast (auchCRCLo ! ?i)) OR ucast (auchCRCHi ! ?i)"
    using auchCRC_entries [of ?i] unat_u8_less [of "hi XOR b"] by simp
  also have "ucast lo XOR (push_bit 8 (ucast (auchCRCLo ! ?i)) OR ucast (auchCRCHi ! ?i)) =
      (push_bit 8 (ucast (auchCRCLo ! ?i)) OR ucast (lo XOR auchCRCHi ! ?i) :: u16)"
    by (rule bit_word_eqI) (auto simp: bit_simps bitwise dest: bit_imp_le_length)
  finally show ?thesis by simp
qed

lemma Get_CRC16_loop_ref:
  "i + n \<le> length data \<Longrightarrow>
     \<exists>hi' lo'. Get_CRC16_loop hi lo data i n = Some (hi', lo') \<and>
       push_bit 8 (ucast lo') OR ucast hi' =
         crc16_ref (push_bit 8 (ucast lo) OR ucast hi) (take n (drop i data))"
proof (induction n arbitrary: hi lo i)
  case 0
  then show ?case by (simp add: crc16_ref_def)
next
  case (Suc n)
  let ?i = "unat (hi XOR data ! i)"
  have "?i < 256" by (rule unat_u8_less)
  then show ?case
    using Suc.IH [of "Suc i" "lo XOR auchCRCHi ! ?i" "auchCRCLo ! ?i"] Suc.prems
      Get_CRC16_step [of hi "data ! i" lo]
    by (simp add: Let_def mem_simps take_Suc_drop crc16_ref_def)
qed

lemma Get_CRC8_loop_ref:
  "i + n \<le> length data \<Longrightarrow> Get_CRC8_loop c data i n = Some (crc8_ref c (take n (drop i data)))"
proof (induction n arbitrary: c i)
  case 0
  then show ?case by (simp add: crc8_ref_def)
next
  case (Suc n)
  have FF: "b AND 0xFF = (b :: u8)" for b
    unfolding word_FF by (rule bit_word_eqI) (auto simp: bit_simps)
  have "rd CRC8Table (unat (c XOR data ! i)) = Some ((crc8_bit ^^ 8) (c XOR data ! i))"
    using unat_u8_less [of "c XOR data ! i"] by (simp add: rd_def CRC8Table_entries)
  then show ?case
    using Suc.IH [of "Suc i"] Suc.prems by (simp add: mem_simps take_Suc_drop crc8_ref_def FF)
qed

lemma byte_loop_foldl:
  "i + n \<le> length buf \<Longrightarrow> byte_loop f acc buf i n = Some (foldl f acc (take n (drop i buf)))"
  by (induction n arbitrary: acc i) (simp_all add: mem_simps take_Suc_drop)

lemma Get_Sum8_eq: "n \<le> length buf \<Longrightarrow> Get_Sum8 buf n = Some (sum_list (take n buf))"
proof -
  have "foldl (+) s bs = s + sum_list bs" for s :: u8 and bs
    by (induction bs arbitrary: s) (simp_all add: add.assoc)
  then show "n \<le> length buf \<Longrightarrow> ?thesis"
    by (simp add: Get_Sum8_def byte_loop_foldl)
qed

subsection \<open>Error detection of the CRC-32 register\<close>

lemma crc32_bit_zero_iff: "crc32_bit x = 0 \<longleftrightarrow> x = 0"
proof
  assume z: "crc32_bit x = 0"
  show "x = 0"
  proof (cases "bit x 0")
    case True
    then have "bit (crc32_bit x) 31"
      by (auto simp: crc32_bit_def bitwise dest: bit_imp_le_length)
    then show ?thesis by (simp add: z)
  next
    case False
    then have d: "drop_bit 1 x = 0" using z by (simp add: crc32_bit_def)
    show ?thesis
    proof (rule bit_word_eqI)
      fix n assume "n < LENGTH(32)"
      have "bit (drop_bit 1 x) (n - 1) \<longleftrightarrow> bit x n" if "0 < n"
        using that by (simp add: bit_drop_bit_eq)
      then show "bit x n \<longleftrightarrow> bit (0 :: u32) n"
        using False d by (cases n) auto
    qed
  qed
qed (simp add: crc32_bit_def)

lemma xor_eq_0_iff: "x XOR y = 0 \<longleftrightarrow> x = (y :: 'a::len word)"
  by (auto simp: bit_eq_iff bit_xor_iff)

lemma crc32_bit_power_inject: "(crc32_bit ^^ k) x = (crc32_bit ^^ k) y \<longleftrightarrow> x = y"
proof -
  have inj: "crc32_bit x = crc32_bit y \<longleftrightarrow> x = y" for x y
    using crc32_bit_zero_iff [of "x XOR y"] by (simp add: crc32.linear xor_eq_0_iff)
  show ?thesis by (induction k) (simp_all add: inj)
qed

lemma xor_cancel: "x XOR y = x XOR z \<longleftrightarrow> y = (z :: 'a::len word)"
  "y XOR x = z XOR x \<longleftrightarrow> y = (z :: 'a::len word)"
  by (auto simp: bit_eq_iff bit_xor_iff)

lemma ucast_u8_inject: "(ucast (x :: u8) :: u32) = ucast y \<longleftrightarrow> x = y"
  by (auto simp: word_unat_eq_iff unat_bits dest: arg_cong)
     (use unat_u8_less [of x] unat_u8_less [of y] in simp)

lemma crc32_ref_state_inject: "crc32_ref c bs = crc32_ref d bs \<longleftrightarrow> c = d"
  by (induction bs arbitrary: c d)
     (simp_all add: crc32_ref_def crc32_bit_power_inject xor_cancel)

subsection \<open>Bubble sort\<close>

lemma Swap_exchanges:
  fixes xs :: "'a::len word list"
  assumes "p < length xs" "q < length xs" "p \<noteq> q"
  shows "Swap xs p q = Some (xs[p := xs ! q, q := xs ! p])"
proof -
  have x: "(a XOR b) XOR (b XOR (a XOR b)) = b" "b XOR (a XOR b) = (a :: 'a word)" for a b
    by (auto simp: bit_eq_iff bit_xor_iff)
  show ?thesis
    using assms x by (simp add: Swap_def mem_simps list_update_swap)
qed

lemma nth_swap:
  "p < length xs \<Longrightarrow> q < length xs \<Longrightarrow> p \<noteq> q \<Longrightarrow>
   xs[p := xs ! q, q := xs ! p] ! j = (if j = q then xs ! p else if j = p then xs ! q else xs ! j)"
  by (auto simp: nth_list_update)

text \<open>One pass brings the least element of its window to the front and only permutes the window.\<close>

definition pass_ok :: "u16 list \<Rightarrow> nat \<Rightarrow> nat \<Rightarrow> bool \<Rightarrow> u16 list \<Rightarrow> bool \<Rightarrow> bool" where
  "pass_ok a i k flag a' flag' \<longleftrightarrow>
     length a' = length a \<and> mset a' = mset a \<and>
     (\<forall>j. j < i \<or> i + k < j \<longrightarrow> a' ! j = a ! j) \<and>
     (\<forall>j. i \<le> j \<and> j \<le> i + k \<longrightarrow> a' ! i \<le> a ! j) \<and>
     (\<forall>j. i \<le> j \<and> j \<le> i + k \<longrightarrow> (\<exists>r. i \<le> r \<and> r \<le> i + k \<and> a' ! j = a ! r)) \<and>
     (\<not> flag' \<longrightarrow> \<not> flag \<and> a' = a \<and> (\<forall>j. i \<le> j \<and> j < i + k \<longrightarrow> a ! j \<le> a ! Suc j))"

lemma pass_ok_source:
  "pass_ok a i k flag a' flag' \<Longrightarrow> i \<le> j \<Longrightarrow> j \<le> i + k \<Longrightarrow>
     \<exists>r. i \<le> r \<and> r \<le> i + k \<and> a' ! j = a ! r"
  unfolding pass_ok_def by blast

lemma BubbleSort_inner_pass:
  "i + k < length a \<Longrightarrow> \<exists>a' flag'. BubbleSort_inner a i k flag = Some (a', flag') \<and> pass_ok a i k flag a' flag'"
proof (induction k arbitrary: a flag)
  case 0
  then show ?case by (auto simp: pass_ok_def)
next
  case (Suc k)
  let ?p = "i + k" and ?q = "i + k + 1"
  have in_range: "?p < length a" "?q < length a" "?p \<noteq> ?q" using Suc.prems by auto
  show ?case
  proof (cases "a ! ?q < a ! ?p")
    case True
    define a1 where "a1 = a[?p := a ! ?q, ?q := a ! ?p]"
    have a1: "a1 ! j = (if j = ?q then a ! ?p else if j = ?p then a ! ?q else a ! j)" for j
      unfolding a1_def using in_range by (rule nth_swap)
    have len1: "length a1 = length a" by (simp add: a1_def)
    have m1: "mset a1 = mset a" unfolding a1_def using in_range by (simp add: mset_swap)
    obtain a' flag' where r: "BubbleSort_inner a1 i k True = Some (a', flag')"
      and ok: "pass_ok a1 i k True a' flag'"
      using Suc.IH [of a1 True] Suc.prems len1 by auto
    have step: "BubbleSort_inner a i (Suc k) flag = Some (a', flag')"
      using True in_range r Swap_exchanges [OF in_range] by (simp add: mem_simps a1_def)
    have "a' ! i \<le> a ! j" if "i \<le> j" "j \<le> i + Suc k" for j
    proof -
      have least: "a' ! i \<le> a1 ! j'" if "i \<le> j'" "j' \<le> i + k" for j'
        using ok that by (auto simp: pass_ok_def)
      show ?thesis
      proof (cases "j < ?p")
        case True
        then show ?thesis using least [of j] that a1 [of j] by simp
      next
        case False
        then have "j = ?p \<or> j = ?q" using that by auto
        moreover have "a' ! i \<le> a ! ?q" using least [of ?p] a1 [of ?p] by simp
        moreover have "a' ! i \<le> a ! ?p" using \<open>a' ! i \<le> a ! ?q\<close> True by order
        ultimately show ?thesis by auto
      qed
    qed
    moreover have "\<exists>r. i \<le> r \<and> r \<le> i + Suc k \<and> a' ! j = a ! r" if "i \<le> j" "j \<le> i + Suc k" for j
    proof -
      have "\<exists>r. i \<le> r \<and> r \<le> i + Suc k \<and> a' ! j = a1 ! r"
      proof (cases "j = ?q")
        case True
        then show ?thesis using ok by (auto simp: pass_ok_def intro!: exI [of _ ?q])
      next
        case False
        then have "j \<le> i + k" using that by simp
        then obtain r where "i \<le> r" "r \<le> i + k" "a' ! j = a1 ! r"
          using pass_ok_source [OF ok \<open>i \<le> j\<close> \<open>j \<le> i + k\<close>] by blast
        moreover from this have "r \<le> i + Suc k" by simp
        ultimately show ?thesis by blast
      qed
      then obtain r where r: "i \<le> r" "r \<le> i + Suc k" "a' ! j = a1 ! r" by blast
      consider "r = ?q" | "r = ?p" | "r \<noteq> ?q" "r \<noteq> ?p" by blast
      then show ?thesis
      proof cases
        case 1
        then have "a' ! j = a ! ?p" using r(3) a1 [of r] by simp
        then show ?thesis by (intro exI [of _ ?p]) simp
      next
        case 2
        then have "a' ! j = a ! ?q" using r(3) a1 [of r] by simp
        then show ?thesis by (intro exI [of _ ?q]) simp
      next
        case 3
        then have "a' ! j = a ! r" using r(3) a1 [of r] by simp
        then show ?thesis using r by blast
      qed
    qed
    moreover have "a' ! j = a ! j" if "j < i \<or> i + Suc k < j" for j
      using ok that a1 [of j] by (auto simp: pass_ok_def)
    moreover have "length a' = length a" "mset a' = mset a" "flag'"
      using ok len1 m1 by (auto simp: pass_ok_def)
    ultimately have "pass_ok a i (Suc k) flag a' flag'" unfolding pass_ok_def by blast
    then show ?thesis using step by blast
  next
    case False
    obtain a' flag' where r: "BubbleSort_inner a i k flag = Some (a', flag')"
      and ok: "pass_ok a i k flag a' flag'"
      using Suc.IH [of a flag] Suc.prems by auto
    have step: "BubbleSort_inner a i (Suc k) flag = Some (a', flag')"
      using False in_range r by (simp add: mem_simps)
    have le: "a ! ?p \<le> a ! ?q" using False by simp
    have least: "a' ! i \<le> a ! j" if "i \<le> j" "j \<le> i + Suc k" for j
    proof (cases "j = ?q")
      case True
      have "a' ! i \<le> a ! ?p" using ok by (auto simp: pass_ok_def)
      then show ?thesis unfolding True using le by (rule order_trans)
    qed (use ok that in \<open>auto simp: pass_ok_def\<close>)
    have "\<exists>r. i \<le> r \<and> r \<le> i + Suc k \<and> a' ! j = a ! r" if "i \<le> j" "j \<le> i + Suc k" for j
    proof (cases "j = ?q")
      case True
      then show ?thesis using ok by (auto simp: pass_ok_def intro!: exI [of _ ?q])
    next
      case False
      then have "j \<le> i + k" using that by simp
      then obtain r where "i \<le> r" "r \<le> i + k" "a' ! j = a ! r"
        using pass_ok_source [OF ok \<open>i \<le> j\<close> \<open>j \<le> i + k\<close>] by blast
      moreover from this have "r \<le> i + Suc k" by simp
      ultimately show ?thesis by blast
    qed
    moreover have "\<not> flag' \<longrightarrow> \<not> flag \<and> a' = a \<and> (\<forall>j. i \<le> j \<and> j < i + Suc k \<longrightarrow> a ! j \<le> a ! Suc j)"
      using ok le by (auto simp: pass_ok_def less_Suc_eq)
    moreover have "a' ! j = a ! j" if "j < i \<or> i + Suc k < j" for j
      using ok that by (auto simp: pass_ok_def)
    moreover have "length a' = length a" "mset a' = mset a"
      using ok by (auto simp: pass_ok_def)
    ultimately have "pass_ok a i (Suc k) flag a' flag'" using least unfolding pass_ok_def by blast
    then show ?thesis using step by blast
  qed
qed

definition front_sorted :: "u16 list \<Rightarrow> nat \<Rightarrow> nat \<Rightarrow> bool" where
  "front_sorted a i len \<longleftrightarrow> (\<forall>p q. p < i \<and> p < q \<and> q < len \<longrightarrow> a ! p \<le> a ! q)"

lemma front_sorted_pass:
  assumes "front_sorted a i len" "pass_ok a i (len - 1 - i) False a' flag'" "i < len"
  shows "front_sorted a' (Suc i) len"
  unfolding front_sorted_def
proof (intro allI impI)
  fix p q assume pq: "p < Suc i \<and> p < q \<and> q < len"
  have win: "i + (len - 1 - i) = len - 1" using assms(3) by simp
  have q: "\<exists>r. i \<le> r \<and> r \<le> len - 1 \<and> a' ! q' = a ! r" if "i \<le> q'" "q' \<le> len - 1" for q'
    using assms(2) that unfolding pass_ok_def win by blast
  have qle: "q \<le> len - 1" using pq by linarith
  show "a' ! p \<le> a' ! q"
  proof (cases "p = i")
    case True
    then obtain r where r: "i \<le> r" "r \<le> len - 1" "a' ! q = a ! r" using q [of q] qle pq by auto
    then have "a' ! i \<le> a ! r" using assms(2) unfolding pass_ok_def win by blast
    then show ?thesis using r True by simp
  next
    case False
    then have p: "p < i" using pq by simp
    then have ap: "a' ! p = a ! p" using assms(2) by (simp add: pass_ok_def)
    show ?thesis
    proof (cases "q < i")
      case True
      then show ?thesis using ap pq p assms(1,2) by (simp add: pass_ok_def front_sorted_def)
    next
      case False
      then obtain r where r: "i \<le> r" "r \<le> len - 1" "a' ! q = a ! r" using q [of q] qle by auto
      have "p < r" "r < len" using r p assms(3) by linarith+
      then show ?thesis using ap p r(3) assms(1) unfolding front_sorted_def by simp
    qed
  qed
qed

lemma BubbleSort_outer_sorts:
  "len \<le> length a \<Longrightarrow> i \<le> len \<Longrightarrow> front_sorted a i len \<Longrightarrow>
   (\<not> flag \<longrightarrow> sorted (take len a)) \<Longrightarrow>
   \<exists>a'. BubbleSort_outer a len i flag = Some a' \<and> length a' = length a \<and> mset a' = mset a \<and>
        drop len a' = drop len a \<and> sorted (take len a')"
proof (induction a len i flag rule: BubbleSort_outer.induct)
  case (1 a len i flag)
  show ?case
  proof (cases "i < len \<and> flag")
    case False
    have "sorted (take len a)"
    proof (cases flag)
      case True
      then have "i = len" using False "1.prems" by simp
      then show ?thesis
        using "1.prems" by (auto simp: sorted_iff_nth_mono_less front_sorted_def)
    qed (use "1.prems" in simp)
    moreover have "BubbleSort_outer a len i flag = Some a"
      by (subst BubbleSort_outer.simps) (rule if_not_P [OF False])
    ultimately show ?thesis by simp
  next
    case True
    have win: "i + (len - 1 - i) = len - 1" using True by simp
    have "i + (len - 1 - i) < length a" using True "1.prems"(1) by linarith
    then obtain a1 f1 where r: "BubbleSort_inner a i (len - 1 - i) False = Some (a1, f1)"
      and ok: "pass_ok a i (len - 1 - i) False a1 f1"
      using BubbleSort_inner_pass by blast
    have front: "front_sorted a1 (Suc i) len"
      using front_sorted_pass [OF _ ok] "1.prems" True by blast
    have srt: "sorted (take len a1)" if "\<not> f1"
    proof -
      have a1: "a1 = a" and adj: "\<forall>j. i \<le> j \<and> j < len - 1 \<longrightarrow> a ! j \<le> a ! Suc j"
        using ok that unfolding pass_ok_def win by auto
      have "take len a ! j \<le> take len a ! Suc j" if "Suc j < len" for j
        using adj front a1 that by (cases "j < Suc i") (auto simp: front_sorted_def)
      then show ?thesis using a1 "1.prems" by (simp add: sorted_iff_nth_Suc)
    qed
    have dr: "drop len a1 = drop len a"
      using ok True win unfolding pass_ok_def by (intro nth_equalityI) auto
    have len1: "length a1 = length a" "mset a1 = mset a" using ok by (auto simp: pass_ok_def)
    have "\<exists>a'. BubbleSort_outer a1 len (Suc i) f1 = Some a' \<and> length a' = length a1 \<and> mset a' = mset a1 \<and>
               drop len a' = drop len a1 \<and> sorted (take len a')"
      using "1.IH" [OF True r [symmetric, THEN sym] refl] front srt len1 "1.prems" True by auto
    moreover have "BubbleSort_outer a len i flag = BubbleSort_outer a1 len (Suc i) f1"
      by (subst BubbleSort_outer.simps) (simp only: True r if_True simp_thms bind.bind_lunit prod.case)
    ultimately show ?thesis by (simp only: dr len1)
  qed
qed

subsection \<open>Properties\<close>

lemma CRC32_Update_ref: "len \<le> length data \<Longrightarrow> CRC32_Update c data len = Some (crc32_ref c (take len data))"
  by (simp only: CRC32_Update_def CRC32_Update_loop_ref add_0 drop_0)

lemma CRC32_Update_all: "CRC32_Update c xs (length xs) = Some (crc32_ref c xs)"
  by (simp only: CRC32_Update_ref order_refl take_all)

lemma CRC32_Final_inject:
  "map_option (fst \<circ> CRC32_Final) (Some c) = map_option (fst \<circ> CRC32_Final) (Some d) \<longleftrightarrow> c = d"
  by (simp add: CRC32_Final_def Let_def xor_cancel)

text \<open>
  Property C18.  The table-driven CRC-32 loop computes the bitwise reflected CRC with generator
  \<open>0xEDB88320\<close> from any register state, for every message, without leaving the message or the table.
\<close>

theorem crc32_table_is_bitwise:
  assumes "len \<le> length data"
  shows "CRC32_Update c data len = Some (crc32_ref c (take len data))"
  using assms by (rule CRC32_Update_ref)

theorem crc32_table_is_bitwise_witness:
  "CRC32_Update 0xFFFFFFFF [0x31, 0x32] 1 = Some (crc32_ref 0xFFFFFFFF [0x31])"
  using crc32_table_is_bitwise [of 1 "[0x31, 0x32]" "0xFFFFFFFF"] by simp

text \<open>
  Fact.  A firmware image received in packets is checked packet by packet: updating the
  register with two consecutive pieces is the same as updating it with the whole.
\<close>

theorem crc32_incremental:
  "Option.bind (CRC32_Update c xs (length xs)) (\<lambda>c'. CRC32_Update c' ys (length ys)) =
   CRC32_Update c (xs @ ys) (length (xs @ ys))"
  unfolding CRC32_Update_all by (simp add: CRC32_Update_all) (simp add: crc32_ref_def)

text \<open>
  Fact.  Corrupting one byte of a message always changes the final CRC-32.
\<close>

theorem crc32_detects_byte_error:
  assumes "x \<noteq> y"
  shows "map_option (fst \<circ> CRC32_Final) (CRC32_Update c (pre @ x # post) (length (pre @ x # post))) \<noteq>
         map_option (fst \<circ> CRC32_Final) (CRC32_Update c (pre @ y # post) (length (pre @ y # post)))"
proof
  assume "map_option (fst \<circ> CRC32_Final) (CRC32_Update c (pre @ x # post) (length (pre @ x # post))) =
          map_option (fst \<circ> CRC32_Final) (CRC32_Update c (pre @ y # post) (length (pre @ y # post)))"
  then have "crc32_ref c (pre @ x # post) = crc32_ref c (pre @ y # post)"
    unfolding CRC32_Update_all CRC32_Final_inject .
  then have "crc32_ref ((crc32_bit ^^ 8) (crc32_ref c pre XOR ucast x)) post =
             crc32_ref ((crc32_bit ^^ 8) (crc32_ref c pre XOR ucast y)) post"
    by (simp add: crc32_ref_def)
  then have "x = y"
    by (simp add: crc32_ref_state_inject crc32_bit_power_inject xor_cancel ucast_u8_inject)
  with assms show False by contradiction
qed

theorem crc32_detects_byte_error_witness:
  "map_option (fst \<circ> CRC32_Final) (CRC32_Update 0xFFFFFFFF [1, 2, 3] 3) \<noteq>
   map_option (fst \<circ> CRC32_Final) (CRC32_Update 0xFFFFFFFF [1, 6, 3] 3)"
  using crc32_detects_byte_error [of 2 6 "0xFFFFFFFF" "[1]" "[3]"]
  by (simp add: numeral_3_eq_3)

text \<open>
  Property C20.  The two-table CRC-16 is the bitwise reflected CRC with generator \<open>0xA001\<close>, its
  answer holding the register's bytes exchanged, and a frame that carries the two answer bytes
  behind its data leaves the register zero.
\<close>

theorem crc16_tables_are_bitwise:
  "\<exists>hi lo. Get_CRC16 data (length data) = Some (push_bit 8 (ucast hi) OR ucast lo) \<and>
     push_bit 8 (ucast lo) OR ucast hi = crc16_ref 0xFFFF data \<and>
     Get_CRC16 (data @ [hi, lo]) (length data + 2) = Some 0"
proof -
  have FF: "push_bit 8 (ucast (0xFF :: u8)) OR ucast (0xFF :: u8) = (0xFFFF :: u16)" by simp
  obtain hi lo where r: "Get_CRC16_loop 0xFF 0xFF data 0 (length data) = Some (hi, lo)"
    and c: "push_bit 8 (ucast lo) OR ucast hi = crc16_ref 0xFFFF data"
    using Get_CRC16_loop_ref [of 0 "length data" data "0xFF" "0xFF"] unfolding FF by auto
  obtain hi2 lo2 where r2: "Get_CRC16_loop 0xFF 0xFF (data @ [hi, lo]) 0 (length data + 2) = Some (hi2, lo2)"
    and c2: "push_bit 8 (ucast lo2) OR ucast hi2 = crc16_ref 0xFFFF (data @ [hi, lo])"
    using Get_CRC16_loop_ref [of 0 "length data + 2" "data @ [hi, lo]" "0xFF" "0xFF"]
    unfolding FF by auto
  let ?f = "crc16_bit ^^ 8"
  have drops: "?f x = drop_bit 8 x" if "take_bit 8 x = 0" for x
    using shifts_out [of crc16_bit] crc16_shift that by blast
  have z: "(push_bit 8 (ucast lo) OR ucast hi) XOR ucast hi = (push_bit 8 (ucast lo) :: u16)"
    by (rule bit_word_eqI) (auto simp: bit_simps bitwise dest: bit_imp_le_length)
  have "?f (push_bit 8 (ucast lo)) = drop_bit 8 (push_bit 8 (ucast lo))"
    by (rule drops) (rule bit_word_eqI, auto simp: bit_simps)
  also have "\<dots> = ucast lo"
    by (rule bit_word_eqI) (auto simp: bit_simps dest: bit_imp_le_length)
  finally have "crc16_ref 0xFFFF (data @ [hi, lo]) = 0"
    using c z crc16.power_zero [of 8] by (simp add: crc16_ref_def)
  then have "push_bit 8 (ucast lo2) OR ucast hi2 = (0 :: u16)" using c2 by simp
  moreover have "hi2 = 0 \<and> lo2 = 0" if "push_bit 8 (ucast lo2) OR ucast hi2 = (0 :: u16)"
  proof -
    have b: "\<not> bit (push_bit 8 (ucast lo2) OR ucast hi2 :: u16) n" for n using that by simp
    have "\<not> bit hi2 n" for n using b [of n] by (auto simp: bitwise bit_simps dest: bit_imp_le_length)
    moreover have "\<not> bit lo2 n" for n
      using b [of "n + 8"] by (auto simp: bitwise bit_simps dest: bit_imp_le_length)
    ultimately show ?thesis by (simp add: bit_eq_iff)
  qed
  ultimately have z2: "hi2 = 0" "lo2 = 0" by blast+
  have "Get_CRC16 data (length data) = Some (push_bit 8 (ucast hi) OR ucast lo)"
    unfolding Get_CRC16_def r by simp
  moreover have "Get_CRC16 (data @ [hi, lo]) (length data + 2) = Some 0"
    unfolding Get_CRC16_def r2 z2 by simp
  ultimately show ?thesis using c by blast
qed

text \<open>
  Fact.  The CRC-8 table implements the generator \<open>0x1C\<close>, most significant bit first, and
  appending the CRC to its message gives CRC zero.
\<close>

theorem crc8_table_is_bitwise:
  "\<exists>c. Get_CRC8 data (length data) = Some c \<and> c = crc8_ref 0 data \<and>
       Get_CRC8 (data @ [c]) (length data + 1) = Some 0"
proof -
  have all: "Get_CRC8 xs (length xs) = Some (crc8_ref 0 xs)" for xs
    by (simp only: Get_CRC8_def Get_CRC8_loop_ref add_0 drop_0 order_refl take_all)
  have "crc8_ref 0 (data @ [crc8_ref 0 data]) = 0"
    using crc8.power_zero [of 8] by (simp add: crc8_ref_def)
  then show ?thesis
    using all [of data] all [of "data @ [crc8_ref 0 data]"] by simp
qed

text \<open>
  Fact.  \<open>BubbleSort\<close> returns for every array and every length within it: the first
  \<open>len\<close> elements end up in ascending order, are a permutation of the old ones, and nothing behind
  them changes.
\<close>

theorem BubbleSort_sorts:
  assumes "len \<le> length a"
  shows "\<exists>a'. BubbleSort a len = Some a' \<and> sorted (take len a') \<and>
              mset (take len a') = mset (take len a) \<and> drop len a' = drop len a"
proof -
  obtain a' where a': "BubbleSort_outer a len 0 True = Some a'" "mset a' = mset a"
    "drop len a' = drop len a" "sorted (take len a')"
    using BubbleSort_outer_sorts [of len a 0 True] assms by (auto simp: front_sorted_def)
  have "mset (take len a') + mset (drop len a') = mset (take len a) + mset (drop len a)"
    using a'(2) by (metis append_take_drop_id mset_append)
  then show ?thesis using a' by (auto simp: BubbleSort_def)
qed

theorem BubbleSort_sorts_witness:
  "\<exists>a'. BubbleSort [5, 1, 4, 9] 3 = Some a' \<and> sorted (take 3 a') \<and> drop 3 a' = [9]"
  using BubbleSort_sorts [of 3 "[5, 1, 4, 9]"] by auto

end
