(* ===== verification/Frame.thy ===== *)
theory Frame imports Prelude CalcLib
begin

text \<open>
  The frame format shared by the CAN and UART protocols of \<open>general_app/\<close>:

    \<open>FE | length (2, low byte first) | command | ... | sum of the bytes between | BE\<close>

  \<open>frame_scan\<close> is the resynchronising loop that both \<open>can500_protocol_anylise\<close>
  (\<open>can_ota_protocol.c\<close>) and \<open>UART_OTA_Protocol_Anylise\<close> (\<open>uart_ota_protocol.c\<close>) start with; they
  differ in the largest length only.  The buffer is the \<open>buf_len\<close> bytes that
  \<open>comm_dev_create\<close> allocates, of which the first \<open>len\<close> hold the received bytes; a read behind the
  allocation is \<open>None\<close>.  \<open>emit\<close> is the constructors' \<open>buf[i++] = ...\<close>.
\<close>

abbreviation (input) FRAME_HEAD :: u8 where "FRAME_HEAD \<equiv> 0xFE"
abbreviation (input) FRAME_TAIL :: u8 where "FRAME_TAIL \<equiv> 0xBE"
abbreviation (input) FRAME_MIN_LEN :: nat where "FRAME_MIN_LEN \<equiv> 8"

abbreviation (input) CAN_COMM_PROTOCOL_MAX_LEN :: nat where "CAN_COMM_PROTOCOL_MAX_LEN \<equiv> 1460"
abbreviation (input) COMM_PROTOCOL_MAX_LEN :: nat where "COMM_PROTOCOL_MAX_LEN \<equiv> 1280"

subsection \<open>The scanning loop\<close>

datatype scan =
    Scan_waiting
  | Scan_reject nat
  | Scan_accept nat nat

function next_head :: "u8 list \<Rightarrow> nat \<Rightarrow> nat \<Rightarrow> nat option" where
  "next_head buf i len =
     (if i < len then do { b \<leftarrow> rd buf i; if b = FRAME_HEAD then Some i else next_head buf (Suc i) len }
      else Some i)"
  by pat_completeness auto
termination by (relation "measure (\<lambda>(buf, i, len). len - i)") auto

declare next_head.simps [simp del]

lemma next_head_ge: "next_head buf i len = Some j \<Longrightarrow> i \<le> j"
  by (induction buf i len rule: next_head.induct)
    (subst (asm) (2) next_head.simps, fastforce split: if_splits bind_splits)

function frame_scan :: "nat \<Rightarrow> u8 list \<Rightarrow> nat \<Rightarrow> nat \<Rightarrow> scan option" where
  "frame_scan mx buf len i = do {
     b \<leftarrow> rd buf i;
     if b \<noteq> FRAME_HEAD then do {
       j \<leftarrow> next_head buf (i + 1) len;
       if FRAME_MIN_LEN \<le> u32_sub len j then frame_scan mx buf len j else Some (Scan_reject j) }
     else do {
       hi \<leftarrow> rd buf (i + 2);
       lo \<leftarrow> rd buf (i + 1);
       let data_len = unat hi * 256 + unat lo in
       if mx < data_len \<or> data_len < FRAME_MIN_LEN then frame_scan mx buf len (i + 1)
       else if u32_sub len i < data_len then Some (if i = 0 then Scan_waiting else Scan_reject i)
       else do {
         t \<leftarrow> rd buf (i + data_len - 1);
         if t \<noteq> FRAME_TAIL then frame_scan mx buf len (i + 1)
         else do {
           cs \<leftarrow> rd buf (i + data_len - 2);
           s \<leftarrow> Get_Sum8 (drop (i + 1) buf) (data_len - 3);
           if cs = s then Some (Scan_accept i data_len) else frame_scan mx buf len (i + 1) } } } }"
  by pat_completeness auto
termination
  by (relation "measure (\<lambda>(mx, buf, len, i). length buf - i)")
    (auto simp: rd_eq_Some_iff dest!: next_head_ge)

declare frame_scan.simps [simp del]

subsection \<open>Well-formed frames\<close>

definition valid_frame :: "nat \<Rightarrow> u8 list \<Rightarrow> bool" where
  "valid_frame mx f \<longleftrightarrow>
     FRAME_MIN_LEN \<le> length f \<and> length f \<le> mx \<and> f ! 0 = FRAME_HEAD \<and>
     unat (f ! 2) * 256 + unat (f ! 1) = length f \<and>
     f ! (length f - 2) = sum_list (take (length f - 3) (drop 1 f)) \<and>
     f ! (length f - 1) = FRAME_TAIL"

subsection \<open>Constructing a frame\<close>

fun emit :: "u8 list \<times> nat \<Rightarrow> u8 list \<Rightarrow> (u8 list \<times> nat) option" where
  "emit (buf, i) [] = Some (buf, i)"
| "emit (buf, i) (x # xs) = do { buf' \<leftarrow> wr buf i x; emit (buf', i + 1) xs }"

lemma emit_in: "i + length xs \<le> length buf \<Longrightarrow>
    emit (buf, i) xs = Some (take i buf @ xs @ drop (i + length xs) buf, i + length xs)"
proof (induction xs arbitrary: buf i)
  case (Cons x xs)
  have "emit (buf[i := x], i + 1) xs =
      Some (take (i + 1) (buf[i := x]) @ xs @ drop (i + 1 + length xs) (buf[i := x]), i + 1 + length xs)"
    using Cons by (intro Cons.IH) simp
  moreover have "take (i + 1) (buf[i := x]) = take i buf @ [x]"
    using Cons.prems by (simp add: take_Suc_conv_app_nth)
  ultimately show ?case using Cons.prems by (simp add: mem_simps)
qed simp

text \<open>The frame a constructor leaves: its header and payload, closed by the sum and the tail.\<close>

definition sealed :: "u8 list \<Rightarrow> u8 list" where
  "sealed hdr = hdr @ [sum_list (drop 1 hdr), FRAME_TAIL]"

definition seal :: "u8 list \<Rightarrow> nat \<Rightarrow> u8 list \<Rightarrow> (u8 list \<times> nat) option" where
  "seal buf data_len hdr = do {
     (buf, i) \<leftarrow> emit (buf, 0) hdr;
     s \<leftarrow> Get_Sum8 (drop 1 buf) (data_len - 3);
     emit (buf, i) [s, FRAME_TAIL] }"

lemma seal_in:
  assumes "length hdr = data_len - 2" "3 \<le> data_len" "data_len \<le> length buf"
  shows "seal buf data_len hdr = Some (sealed hdr @ drop data_len buf, data_len)"
proof -
  have e: "emit (buf, 0) hdr = Some (hdr @ drop (length hdr) buf, length hdr)"
    using emit_in [of 0 hdr buf] assms by simp
  have hdr: "1 \<le> length hdr" using assms by linarith
  have "take (data_len - 3) (drop 1 (hdr @ drop (length hdr) buf)) = drop 1 hdr"
    using assms hdr by simp
  moreover have "data_len - 3 \<le> length (drop 1 (hdr @ drop (length hdr) buf))" using assms by simp
  ultimately have s: "Get_Sum8 (drop 1 (hdr @ drop (length hdr) buf)) (data_len - 3) = Some (sum_list (drop 1 hdr))"
    by (simp only: Get_Sum8_eq)
  have n: "length hdr + 2 = data_len" using assms by linarith
  have "seal buf data_len hdr = emit (hdr @ drop (length hdr) buf, length hdr) [sum_list (drop 1 hdr), FRAME_TAIL]"
    by (simp only: seal_def e bind.bind_lunit prod.case s)
  also have "\<dots> = Some (sealed hdr @ drop data_len buf, data_len)"
    using emit_in [of "length hdr" "[sum_list (drop 1 hdr), FRAME_TAIL]" "hdr @ drop (length hdr) buf"] assms(3) n
    by (simp add: sealed_def del: emit.simps)
  finally show ?thesis .
qed

lemma length_sealed [simp]: "length (sealed hdr) = length hdr + 2"
  by (simp add: sealed_def)

lemma valid_sealed:
  assumes "hdr = FRAME_HEAD # lo # hi # rest" "unat hi * 256 + unat lo = length hdr + 2"
    "6 \<le> length hdr" "length hdr + 2 \<le> mx"
  shows "valid_frame mx (sealed hdr)"
proof -
  have n: "length (sealed hdr) = length hdr + 2" by simp
  have "sealed hdr ! 0 = FRAME_HEAD" "sealed hdr ! 1 = lo" "sealed hdr ! 2 = hi"
    using assms(1) by (simp_all add: sealed_def)
  moreover have "sealed hdr ! length hdr = sum_list (drop 1 hdr)" "sealed hdr ! (length hdr + 1) = FRAME_TAIL"
    by (simp_all add: sealed_def nth_append)
  moreover have "take (length hdr - 1) (drop 1 (sealed hdr)) = drop 1 hdr"
    using assms(1) by (simp add: sealed_def)
  ultimately show ?thesis using assms unfolding valid_frame_def n by simp
qed

text \<open>A message body (command and what follows it) put into a frame.\<close>

definition framed :: "u8 list \<Rightarrow> u8 list" where
  "framed body = (let n = length body + 5 in sealed ([FRAME_HEAD, of_nat n, of_nat (n div 256)] @ body))"

lemma length_framed [simp]: "length (framed body) = length body + 5"
  by (simp add: framed_def Let_def)

lemma framed_layout:
  "framed body = [FRAME_HEAD, of_nat (length body + 5), of_nat ((length body + 5) div 256)] @ body @
     drop (length body + 3) (framed body)"
proof -
  have tail: "sealed hdr = hdr @ drop n (sealed hdr)" if "n = length hdr" for n hdr
    using that by (simp add: sealed_def)
  show ?thesis unfolding framed_def Let_def by (subst tail [of "length body + 3"]) simp_all
qed

lemma framed_nth: "k < length body \<Longrightarrow> framed body ! (3 + k) = body ! k"
  by (subst framed_layout) (simp add: nth_append)

lemma framed_drop: "take (length body) (drop 3 (framed body @ rest)) = body"
  by (subst framed_layout) simp

lemma valid_framed:
  assumes "3 \<le> length body" "length body + 5 \<le> mx" "mx < 65536"
  shows "valid_frame mx (framed body)"
  unfolding framed_def Let_def
proof (rule valid_sealed)
  let ?n = "length body + 5"
  show "[FRAME_HEAD, of_nat ?n, of_nat (?n div 256)] @ body = FRAME_HEAD # of_nat ?n # of_nat (?n div 256) # body" by simp
  have "unat (of_nat ?n :: u8) = ?n mod 256" by (rule unat_of_nat [where 'a = 8, simplified])
  moreover have "?n div 256 < 256" using assms(2,3) by (intro less_mult_imp_div_less) simp
  then have "unat (of_nat (?n div 256) :: u8) = ?n div 256" by (simp add: unat_of_nat)
  ultimately show "unat (of_nat (?n div 256) :: u8) * 256 + unat (of_nat ?n :: u8) =
      length ([FRAME_HEAD, of_nat ?n, of_nat (?n div 256)] @ body) + 2"
    by simp
qed (use assms in auto)

lemma take_drop_inside:
  "take n (drop p xs) = ys \<Longrightarrow> k + m \<le> n \<Longrightarrow> take m (drop (p + k) xs) = take m (drop k ys)"
  by (auto simp: drop_take take_take min_def add.commute)

subsection \<open>One round of the scanning loop\<close>

definition frame_len :: "u8 list \<Rightarrow> nat \<Rightarrow> nat" where
  "frame_len buf i = unat (buf ! (i + 2)) * 256 + unat (buf ! (i + 1))"

lemma frame_scan_skip:
  "i < length buf \<Longrightarrow> buf ! i \<noteq> FRAME_HEAD \<Longrightarrow>
   frame_scan mx buf len i = do {
     j \<leftarrow> next_head buf (i + 1) len;
     if FRAME_MIN_LEN \<le> u32_sub len j then frame_scan mx buf len j else Some (Scan_reject j) }"
  by (subst frame_scan.simps) (simp add: mem_simps)

lemma frame_scan_head:
  assumes "i + 2 < length buf" "buf ! i = FRAME_HEAD"
  shows "frame_scan mx buf len i =
    (let n = frame_len buf i in
     if mx < n \<or> n < FRAME_MIN_LEN then frame_scan mx buf len (i + 1)
     else if u32_sub len i < n then Some (if i = 0 then Scan_waiting else Scan_reject i)
     else do {
       t \<leftarrow> rd buf (i + n - 1);
       if t \<noteq> FRAME_TAIL then frame_scan mx buf len (i + 1)
       else do {
         cs \<leftarrow> rd buf (i + n - 2);
         s \<leftarrow> Get_Sum8 (drop (i + 1) buf) (n - 3);
         if cs = s then Some (Scan_accept i n) else frame_scan mx buf len (i + 1) } })"
proof -
  have reads: "rd buf i = Some FRAME_HEAD" "rd buf (i + 2) = Some (buf ! (i + 2))"
    "rd buf (i + 1) = Some (buf ! (i + 1))" using assms by (simp_all add: mem_simps)
  show ?thesis
    by (subst frame_scan.simps)
      (simp only: reads bind.bind_lunit Let_def not_True_eq_False simp_thms if_False frame_len_def)
qed

lemma frame_scan_bad:
  "i + 2 < length buf \<Longrightarrow> buf ! i = FRAME_HEAD \<Longrightarrow>
   mx < frame_len buf i \<or> frame_len buf i < FRAME_MIN_LEN \<Longrightarrow>
   frame_scan mx buf len i = frame_scan mx buf len (i + 1)"
  by (simp only: frame_scan_head Let_def if_True)

lemma frame_scan_short:
  "i + 2 < length buf \<Longrightarrow> buf ! i = FRAME_HEAD \<Longrightarrow> FRAME_MIN_LEN \<le> frame_len buf i \<Longrightarrow>
   frame_len buf i \<le> mx \<Longrightarrow> u32_sub len i < frame_len buf i \<Longrightarrow>
   frame_scan mx buf len i = Some (if i = 0 then Scan_waiting else Scan_reject i)"
  by (simp only: frame_scan_head Let_def not_less [symmetric] simp_thms if_True if_False)

lemma frame_scan_fits:
  assumes "i + n \<le> length buf" "buf ! i = FRAME_HEAD" "n = frame_len buf i"
    "FRAME_MIN_LEN \<le> n" "n \<le> mx" "n \<le> u32_sub len i"
  shows "frame_scan mx buf len i =
    (if valid_frame mx (take n (drop i buf)) then Some (Scan_accept i n) else frame_scan mx buf len (i + 1))"
proof -
  define f where "f = take n (drop i buf)"
  have f: "length f = n" "\<And>k. k < n \<Longrightarrow> f ! k = buf ! (i + k)" using assms by (auto simp: f_def)
  have sum: "Get_Sum8 (drop (i + 1) buf) (n - 3) = Some (sum_list (take (n - 3) (drop 1 f)))"
  proof -
    have "take (n - 3) (drop 1 f) = take (n - 3) (drop (i + 1) buf)"
      using assms by (simp add: f_def drop_take min_def)
    moreover have "n - 3 \<le> length (drop (i + 1) buf)" using assms by simp
    ultimately show ?thesis by (simp only: Get_Sum8_eq)
  qed
  have at: "rd buf (i + n - 1) = Some (f ! (n - 1))" "rd buf (i + n - 2) = Some (f ! (n - 2))"
    using assms(1,4) by (auto simp: f mem_simps)
  have "f ! 0 = buf ! i" "f ! 1 = buf ! (i + 1)" "f ! 2 = buf ! (i + 2)"
    using f(2) [of 0] f(2) [of 1] f(2) [of 2] assms(4) by simp_all
  then have "unat (f ! 2) * 256 + unat (f ! 1) = n" "f ! 0 = FRAME_HEAD"
    using assms(2,3) by (simp_all add: frame_len_def)
  then have valid: "valid_frame mx f \<longleftrightarrow>
      f ! (n - 1) = FRAME_TAIL \<and> f ! (n - 2) = sum_list (take (n - 3) (drop 1 f))"
    using assms(4,5) f by (auto simp: valid_frame_def)
  have guards: "\<not> (mx < n \<or> n < FRAME_MIN_LEN)" "\<not> u32_sub len i < n" "i + 2 < length buf"
    using assms by linarith+
  have "frame_scan mx buf len i =
     (if f ! (n - 1) = FRAME_TAIL then
        (if f ! (n - 2) = sum_list (take (n - 3) (drop 1 f)) then Some (Scan_accept i n)
         else frame_scan mx buf len (i + 1))
      else frame_scan mx buf len (i + 1))"
    unfolding frame_scan_head [OF guards(3) assms(2)] Let_def assms(3) [symmetric] if_not_P [OF guards(1)]
      if_not_P [OF guards(2)] at sum bind.bind_lunit by simp
  then show ?thesis using valid unfolding f_def by presburger
qed

subsection \<open>Executions of the scanning loop\<close>

lemma frame_scan_step:
  assumes "frame_scan mx buf len i = Some r"
  shows "i < length buf \<and>
    (buf ! i \<noteq> FRAME_HEAD \<and> (\<exists>j. next_head buf (i + 1) len = Some j \<and>
        (FRAME_MIN_LEN \<le> u32_sub len j \<and> frame_scan mx buf len j = Some r \<or>
         u32_sub len j < FRAME_MIN_LEN \<and> r = Scan_reject j)) \<or>
     buf ! i = FRAME_HEAD \<and>
       (frame_scan mx buf len (i + 1) = Some r \<or> r = Scan_waiting \<or> r = Scan_reject i \<and> 0 < i \<or>
        (\<exists>n. n \<le> u32_sub len i \<and> i + n \<le> length buf \<and> valid_frame mx (take n (drop i buf)) \<and> r = Scan_accept i n)))"
proof -
  have i: "i < length buf" using assms by (subst (asm) frame_scan.simps) (auto simp: rd_def split: if_splits)
  show ?thesis
  proof (cases "buf ! i = FRAME_HEAD")
    case False
    then show ?thesis using assms i frame_scan_skip [OF i False] by (auto split: if_splits bind_splits)
  next
    case True
    then have i2: "i + 2 < length buf"
      using assms i by (subst (asm) frame_scan.simps) (auto simp: rd_def split: if_splits bind_splits)
    define n where "n = frame_len buf i"
    consider (bad) "mx < n \<or> n < FRAME_MIN_LEN" | (short) "FRAME_MIN_LEN \<le> n" "n \<le> mx" "u32_sub len i < n"
      | (full) "FRAME_MIN_LEN \<le> n" "n \<le> mx" "n \<le> u32_sub len i" by linarith
    then show ?thesis
    proof cases
      case bad
      then show ?thesis using assms i True frame_scan_bad [OF i2 True] n_def by auto
    next
      case short
      then have "frame_scan mx buf len i = Some (if i = 0 then Scan_waiting else Scan_reject i)"
        using frame_scan_short [OF i2 True] n_def by blast
      then show ?thesis using assms i True by (auto split: if_splits)
    next
      case full
      have guards: "\<not> (mx < n \<or> n < FRAME_MIN_LEN)" "\<not> u32_sub len i < n" using full by linarith+
      have "rd buf (i + n - 1) \<noteq> None"
        using assms unfolding frame_scan_head [OF i2 True] Let_def n_def [symmetric]
          if_not_P [OF guards(1)] if_not_P [OF guards(2)] by (auto split: bind_splits)
      then have fits: "i + n \<le> length buf" by (auto simp: rd_def split: if_splits)
      show ?thesis
        using frame_scan_fits [OF fits True n_def full] assms i True fits full
        by (auto split: if_splits)
    qed
  qed
qed

text \<open>The window in which the scan must meet a byte other than the head to stay inside the
  received bytes, and the first-byte facts used by every protocol.\<close>

lemma next_head_in:
  "i \<le> len \<Longrightarrow> len \<le> length buf \<Longrightarrow>
    \<exists>j. next_head buf i len = Some j \<and> i \<le> j \<and> j \<le> len \<and> (j < len \<longrightarrow> buf ! j = FRAME_HEAD)"
proof (induction "len - i" arbitrary: i)
  case 0
  then show ?case by (subst next_head.simps) simp
next
  case (Suc k)
  have "\<exists>j. next_head buf (Suc i) len = Some j \<and> Suc i \<le> j \<and> j \<le> len \<and> (j < len \<longrightarrow> buf ! j = FRAME_HEAD)"
    using Suc by (intro Suc.hyps(1)) auto
  then show ?case using Suc.hyps(2) Suc.prems
    by (subst next_head.simps) (auto simp: mem_simps)
qed

lemma frame_scan_accept:
  "frame_scan mx buf len i = Some (Scan_accept k n) \<Longrightarrow>
     i \<le> k \<and> k + n \<le> length buf \<and> n \<le> u32_sub len k \<and> valid_frame mx (take n (drop k buf))"
proof (induction "length buf - i" arbitrary: i rule: less_induct)
  case less
  from frame_scan_step [OF less.prems] show ?case
  proof (elim conjE disjE exE)
    fix j assume "i < length buf" "next_head buf (i + 1) len = Some j"
      "frame_scan mx buf len j = Some (Scan_accept k n)"
    moreover from this have "length buf - j < length buf - i" "i \<le> j"
      using next_head_ge [of buf "i + 1" len j] by auto
    ultimately show ?thesis using less.hyps [of j] order_trans by blast
  next
    assume "i < length buf" "frame_scan mx buf len (i + 1) = Some (Scan_accept k n)"
    moreover from this have "length buf - (i + 1) < length buf - i" "i \<le> i + 1" by auto
    ultimately show ?thesis using less.hyps [of "i + 1"] order_trans by blast
  qed (auto split: if_splits)
qed

lemma frame_scan_reject:
  "frame_scan mx buf len i = Some (Scan_reject k) \<Longrightarrow> i \<le> k \<and> 0 < k"
proof (induction "length buf - i" arbitrary: i rule: less_induct)
  case less
  from frame_scan_step [OF less.prems] show ?case
  proof (elim conjE disjE exE)
    fix j assume "i < length buf" "next_head buf (i + 1) len = Some j"
      "frame_scan mx buf len j = Some (Scan_reject k)"
    moreover from this have "length buf - j < length buf - i" "i \<le> j"
      using next_head_ge [of buf "i + 1" len j] by auto
    ultimately show ?thesis using less.hyps [of j] order_trans by blast
  next
    fix j assume "next_head buf (i + 1) len = Some j" "Scan_reject k = Scan_reject j"
    then show ?thesis using next_head_ge [of buf "i + 1" len j] by auto
  next
    assume "i < length buf" "frame_scan mx buf len (i + 1) = Some (Scan_reject k)"
    moreover from this have "length buf - (i + 1) < length buf - i" "i \<le> i + 1" by auto
    ultimately show ?thesis using less.hyps [of "i + 1"] order_trans by blast
  qed (auto split: if_splits)
qed

lemma frame_scan_bounded:
  assumes "len \<le> length buf" "len < U32_RANGE" "p + 3 \<le> len" "len \<le> p + 7" "buf ! p \<noteq> FRAME_HEAD"
  shows "i \<le> p \<Longrightarrow> \<exists>r. frame_scan mx buf len i = Some r \<and>
     (case r of Scan_waiting \<Rightarrow> True | Scan_reject k \<Rightarrow> k \<le> len | Scan_accept k n \<Rightarrow> k + n \<le> len)"
proof (induction "p - i" arbitrary: i rule: less_induct)
  case less
  have i: "i + 2 < len" "i + 2 < length buf" using assms less.prems by linarith+
  have left: "u32_sub len k = len - k" if "k \<le> len" for k using that assms(2) by (rule u32_sub_exact)
  show ?case
  proof (cases "buf ! i = FRAME_HEAD")
    case False
    obtain j where j: "next_head buf (i + 1) len = Some j" "i + 1 \<le> j" "j \<le> len"
      using next_head_in [of "i + 1" len buf] i assms by auto
    show ?thesis
    proof (cases "FRAME_MIN_LEN \<le> u32_sub len j")
      case True
      then have "j \<le> p" using assms j left by simp
      moreover have "p - j < p - i" using calculation j by linarith
      ultimately show ?thesis
        using less.hyps [of j] False j True i by (simp add: frame_scan_skip)
    next
      case bad: False
      then show ?thesis using False j i by (simp add: frame_scan_skip)
    qed
  next
    case True
    then have "i < p" using less.prems assms(5) by (cases "i = p") auto
    then have cont: "\<exists>r. frame_scan mx buf len (i + 1) = Some r \<and>
        (case r of Scan_waiting \<Rightarrow> True | Scan_reject k \<Rightarrow> k \<le> len | Scan_accept k n \<Rightarrow> k + n \<le> len)"
      by (intro less.hyps) auto
    define n where "n = frame_len buf i"
    consider (bad) "mx < n \<or> n < FRAME_MIN_LEN" | (short) "FRAME_MIN_LEN \<le> n" "n \<le> mx" "u32_sub len i < n"
      | (full) "FRAME_MIN_LEN \<le> n" "n \<le> mx" "n \<le> u32_sub len i" by linarith
    then show ?thesis
    proof cases
      case bad
      then show ?thesis using cont frame_scan_bad [OF i(2) True] n_def by simp
    next
      case short
      then show ?thesis using frame_scan_short [OF i(2) True] n_def i by simp
    next
      case full
      then have "i + n \<le> len" using left [of i] i by linarith
      moreover from this have fits: "i + n \<le> length buf" using assms(1) by simp
      ultimately show ?thesis using cont frame_scan_fits [OF fits True n_def full] by simp
    qed
  qed
qed

lemma frame_scan_at_head:
  assumes "valid_frame mx f" "length f \<le> u32_sub len i" "take (length f) (drop i buf) = f"
  shows "frame_scan mx buf len i = Some (Scan_accept i (length f))"
proof -
  have n: "FRAME_MIN_LEN \<le> length f" "length f \<le> mx" "f ! 0 = FRAME_HEAD"
    "unat (f ! 2) * 256 + unat (f ! 1) = length f"
    using assms(1) by (auto simp: valid_frame_def)
  have "length (take (length f) (drop i buf)) = length f" using assms(3) by simp
  then have fits: "i + length f \<le> length buf" using n(1) by simp
  have at: "f ! k = buf ! (i + k)" if "k < length f" for k
    using assms(3) that fits by (metis add_leD1 nth_drop nth_take)
  have "f ! 0 = buf ! i" "f ! 1 = buf ! (i + 1)" "f ! 2 = buf ! (i + 2)"
    using at [of 0] at [of 1] at [of 2] length_greater_0_conv [of f] n(1) by (simp_all del: length_greater_0_conv)
  then have "buf ! i = FRAME_HEAD" "length f = frame_len buf i"
    using n by (simp_all add: frame_len_def)
  then show ?thesis
    using frame_scan_fits [OF fits] n assms by (simp del: One_nat_def)
qed

lemma next_head_over:
  assumes "\<forall>k. i0 \<le> k \<and> k < m \<longrightarrow> buf ! k \<noteq> FRAME_HEAD" "buf ! m = FRAME_HEAD" "m < len" "len \<le> length buf"
  shows "i0 \<le> i \<Longrightarrow> i \<le> m \<Longrightarrow> next_head buf i len = Some m"
proof (induction "m - i" arbitrary: i)
  case 0
  then show ?case using assms by (subst next_head.simps) (simp add: mem_simps)
next
  case (Suc k)
  then have "next_head buf (Suc i) len = Some m" by (intro Suc.hyps(1)) auto
  moreover have "buf ! i \<noteq> FRAME_HEAD" using assms(1) Suc by auto
  ultimately show ?case using assms Suc by (subst next_head.simps) (simp add: mem_simps)
qed

lemma frame_scan_head_run:
  "n < U32_RANGE \<Longrightarrow> mx < 0xFEFE \<Longrightarrow> FRAME_MIN_LEN \<le> n \<Longrightarrow> frame_scan mx (replicate n FRAME_HEAD) n i = None"
proof (induction "n - i" arbitrary: i rule: less_induct)
  case less
  consider "n \<le> i" | "i < n" "n \<le> i + 2" | "i + 2 < n" by linarith
  then show ?case
  proof cases
    case 1
    then show ?thesis by (subst frame_scan.simps) (simp add: mem_simps)
  next
    case 2
    then show ?thesis by (subst frame_scan.simps) (simp add: mem_simps)
  next
    case 3
    have "frame_scan mx (replicate n FRAME_HEAD) n i = frame_scan mx (replicate n FRAME_HEAD) n (i + 1)"
      using 3 less.prems by (intro frame_scan_bad) (auto simp: frame_len_def)
    also have "\<dots> = None" using 3 less.prems by (intro less.hyps) auto
    finally show ?thesis .
  qed
qed

subsection \<open>Properties\<close>

text \<open>
  Property C13.  Whatever bytes arrive, an accepted frame lies in the buffer and is well formed
  (head, tail, both length bytes and sum agree, the length is within the protocol's limits), and a
  rejection discards at least one byte, so the receiver never rejects the same bytes twice.
\<close>

theorem frame_scan_sound:
  assumes "frame_scan mx buf len 0 = Some r"
  shows "case r of
      Scan_accept k n \<Rightarrow> k + n \<le> length buf \<and> n \<le> u32_sub len k \<and> valid_frame mx (take n (drop k buf))
    | Scan_reject k \<Rightarrow> 0 < k
    | Scan_waiting \<Rightarrow> True"
  using assms frame_scan_accept [of mx buf len 0] frame_scan_reject [of mx buf len 0]
  by (auto split: scan.split)

theorem frame_scan_sound_witness:
  "\<exists>n. frame_scan 1460 [0xFE, 8, 0, 3, 0, 0, 11, 0xBE, 0] 9 0 = Some (Scan_accept 0 n) \<and>
       valid_frame 1460 (take n [0xFE, 8, 0, 3, 0, 0, 11, 0xBE, 0])"
proof -
  have "frame_scan 1460 [0xFE, 8, 0, 3, 0, 0, 11, 0xBE, 0] 9 0 = Some (Scan_accept 0 8)"
    using frame_scan_at_head [of 1460 "[0xFE, 8, 0, 3, 0, 0, 11, 0xBE]" 9 0 "[0xFE, 8, 0, 3, 0, 0, 11, 0xBE, 0]"]
    by (simp add: valid_frame_def u32_sub_def)
  from frame_scan_sound [OF this] this show ?thesis by auto
qed

text \<open>
  Fact.  Resynchronisation: bytes without a head in front of a well-formed frame are
  skipped and the frame is accepted, whatever follows it.
\<close>

theorem frame_scan_resync:
  assumes "valid_frame mx f" "FRAME_HEAD \<notin> set pre"
    "length pre + length f \<le> len" "len \<le> length (pre @ f @ rest)" "len < U32_RANGE"
  shows "frame_scan mx (pre @ f @ rest) len 0 = Some (Scan_accept (length pre) (length f))"
proof -
  let ?buf = "pre @ f @ rest" and ?m = "length pre"
  have f: "FRAME_MIN_LEN \<le> length f" "f ! 0 = FRAME_HEAD" using assms(1) by (auto simp: valid_frame_def)
  have left: "u32_sub len ?m = len - ?m" using assms(3,5) by (intro u32_sub_exact) auto
  have at: "frame_scan mx ?buf len ?m = Some (Scan_accept ?m (length f))"
    using assms(1) assms(3) left by (intro frame_scan_at_head) auto
  have "0 < length f" using f by linarith
  then have head: "?buf ! ?m = FRAME_HEAD" using f by (simp add: nth_append)
  show ?thesis
  proof (cases "?m = 0")
    case False
    then have "\<forall>k. 0 \<le> k \<and> k < ?m \<longrightarrow> ?buf ! k \<noteq> FRAME_HEAD"
      using assms(2) by (auto simp: nth_append in_set_conv_nth)
    moreover from this have "?buf ! 0 \<noteq> FRAME_HEAD" using False by blast
    moreover have "next_head ?buf (0 + 1) len = Some ?m"
      using next_head_over [of 0 ?m ?buf len "0 + 1"] calculation head assms f False by auto
    moreover have "FRAME_MIN_LEN \<le> u32_sub len ?m" using left assms(3) f by simp
    ultimately show ?thesis
      using frame_scan_skip [of 0 ?buf mx len] at False by simp
  qed (use at in simp)
qed

theorem frame_scan_resync_witness:
  "frame_scan 1460 ([1, 2] @ [0xFE, 8, 0, 3, 0, 0, 11, 0xBE] @ [9]) 11 0 = Some (Scan_accept 2 8)"
  using frame_scan_resync [of 1460 "[0xFE, 8, 0, 3, 0, 0, 11, 0xBE]" "[1, 2]" 11 "[9]"]
  by (simp add: valid_frame_def)

text \<open>
  Property C16.  Memory safety and its condition: when one of the last bytes received (behind the
  position where a shortest frame could start, and not among the last two) is not a head, the scan
  returns, it reads no byte behind the \<open>len\<close> received ones when they fill the buffer, and what it
  asks to delete has been received.
\<close>

theorem frame_scan_memory_safe:
  assumes "len \<le> length buf" "len < U32_RANGE" "p + 3 \<le> len" "len \<le> p + 7" "buf ! p \<noteq> FRAME_HEAD"
  shows "\<exists>r. frame_scan mx buf len 0 = Some r \<and>
     (case r of Scan_waiting \<Rightarrow> True | Scan_reject k \<Rightarrow> k \<le> len | Scan_accept k n \<Rightarrow> k + n \<le> len)"
  using frame_scan_bounded [OF assms] by blast

theorem frame_scan_memory_safe_witness:
  "\<exists>r. frame_scan 1460 (replicate 8 0xFE @ [1, 0, 0, 0]) 12 0 = Some r"
  using frame_scan_memory_safe [of 12 "replicate 8 0xFE @ [1, 0, 0, 0]" 8 1460]
  by (auto simp: nth_append)

text \<open>
  Fact.  Without that condition the scan leaves its buffer: when a full buffer holds head
  bytes only, every length it reads is out of range, the index is advanced without comparing it to
  \<open>len\<close>, and the length bytes of the last two positions are read behind the allocation.
\<close>

theorem frame_scan_head_overrun:
  assumes "8 \<le> n" "n < U32_RANGE"
  shows "frame_scan CAN_COMM_PROTOCOL_MAX_LEN (replicate n FRAME_HEAD) n 0 = None \<and>
         frame_scan COMM_PROTOCOL_MAX_LEN (replicate n FRAME_HEAD) n 0 = None"
  using assms by (simp add: frame_scan_head_run)

theorem frame_scan_head_overrun_witness:
  "frame_scan CAN_COMM_PROTOCOL_MAX_LEN (replicate 1024 FRAME_HEAD) 1024 0 = None"
  using frame_scan_head_overrun [of 1024] by simp

end
