(* ===== verification/FlashIf.thy ===== *)
theory FlashIf imports Prelude DataLib
begin

text \<open>
  \<open>drivers/flash_if.c\<close> of the application, on top of the erase and program routines of
  \<open>stm32f10x_flash.c\<close>: erasing a range of pages, writing and reading bytes, storing the header of a
  firmware image.

  The flash memory is the byte array \<open>cells\<close> behind a controller that is locked or not (\<open>locked\<close>)
  and whose status register \<open>sr\<close> keeps an error until \<open>Flash_Unlock\<close> clears it.  What the
  controller does with a store of a half-word and with a page erase is not code of the repository:
  it is the parameter \<open>hw\<close>, and \<open>nor_flash hw\<close> states the documented behaviour of the part
  (erased pages read \<open>FF\<close>; an erased half-word can be programmed; programming one that is not
  erased sets \<open>PGERR\<close> and changes nothing; a store touches no other half-word).
\<close>

subsection \<open>The controller and the standard library's routines\<close>

datatype FLASH_Status = FLASH_BUSY | FLASH_ERROR_PG | FLASH_ERROR_WRP | FLASH_COMPLETE | FLASH_TIMEOUT

record flash_dev =
  cells :: "nat \<Rightarrow> u8"
  locked :: bool
  sr :: FLASH_Status
  flash_kb :: u16
  chip_uid :: "u16 list"

record flash_hw =
  hw_store :: "flash_dev \<Rightarrow> nat \<Rightarrow> u16 \<Rightarrow> flash_dev"
  hw_erase :: "flash_dev \<Rightarrow> nat \<Rightarrow> flash_dev"

abbreviation (input) FLASH_START_ADDR :: nat where "FLASH_START_ADDR \<equiv> 0x08000000"
abbreviation (input) FLASH_PAGE_SIZE :: nat where "FLASH_PAGE_SIZE \<equiv> 0x800"
abbreviation (input) OTA_BIN_MAX_SIZE :: nat where "OTA_BIN_MAX_SIZE \<equiv> 52 * FLASH_PAGE_SIZE"

definition FLASH_ProgramHalfWord :: "flash_hw \<Rightarrow> flash_dev \<Rightarrow> nat \<Rightarrow> u16 \<Rightarrow> flash_dev \<times> FLASH_Status" where
  "FLASH_ProgramHalfWord hw d addr data =
     (if sr d \<noteq> FLASH_COMPLETE then (d, sr d)
      else let d = hw_store hw d addr data in (d, sr d))"

definition FLASH_ProgramWord :: "flash_hw \<Rightarrow> flash_dev \<Rightarrow> nat \<Rightarrow> u32 \<Rightarrow> flash_dev \<times> FLASH_Status" where
  "FLASH_ProgramWord hw d addr data =
     (if sr d \<noteq> FLASH_COMPLETE then (d, sr d)
      else let d = hw_store hw d addr (ucast data) in
        if sr d \<noteq> FLASH_COMPLETE then (d, sr d)
        else let d = hw_store hw d (u32_add addr 2) (ucast (drop_bit 16 data)) in (d, sr d))"

definition FLASH_ErasePage :: "flash_hw \<Rightarrow> flash_dev \<Rightarrow> nat \<Rightarrow> flash_dev \<times> FLASH_Status" where
  "FLASH_ErasePage hw d addr =
     (if sr d \<noteq> FLASH_COMPLETE then (d, sr d)
      else let d = hw_erase hw d addr in (d, sr d))"

subsection \<open>flash_if.c\<close>

definition Flash_Unlock :: "flash_dev \<Rightarrow> flash_dev" where
  "Flash_Unlock d = d\<lparr>locked := False,
     sr := (if sr d = FLASH_ERROR_PG \<or> sr d = FLASH_ERROR_WRP then FLASH_COMPLETE else sr d)\<rparr>"

definition Flash_Lock :: "flash_dev \<Rightarrow> flash_dev" where
  "Flash_Lock d = d\<lparr>locked := True\<rparr>"

fun erase_pages :: "flash_hw \<Rightarrow> flash_dev \<Rightarrow> nat \<Rightarrow> nat \<Rightarrow> nat \<Rightarrow> flash_dev" where
  "erase_pages hw d addr i 0 = d"
| "erase_pages hw d addr i (Suc k) =
     erase_pages hw (fst (FLASH_ErasePage hw d (u32_add addr (u32_mul i FLASH_PAGE_SIZE)))) addr (i + 1) k"

definition Flash_Erase_Page :: "flash_hw \<Rightarrow> flash_dev \<Rightarrow> nat \<Rightarrow> nat \<Rightarrow> flash_dev \<times> nat" where
  "Flash_Erase_Page hw d addr bin_size =
     (if OTA_BIN_MAX_SIZE < bin_size \<or> bin_size = 0 then (d, 1)
      else let page_num = u32_sub (u32_add bin_size FLASH_PAGE_SIZE) 1 div FLASH_PAGE_SIZE
           in (Flash_Lock (erase_pages hw (Flash_Unlock d) addr 0 page_num), 0))"

text \<open>The loop over whole words; it stops at the first word that cannot be programmed.\<close>

function write_words :: "flash_hw \<Rightarrow> flash_dev \<Rightarrow> nat \<Rightarrow> u8 list \<Rightarrow> nat \<Rightarrow> nat \<Rightarrow> (flash_dev \<times> nat \<times> bool) option" where
  "write_words hw d addr buf i len =
     (if i < len then do {
        word \<leftarrow> ArrayU8ToU32 buf i;
        let (d, st) = FLASH_ProgramWord hw d (u32_add addr i) word in
        if st \<noteq> FLASH_COMPLETE then Some (d, i, False) else write_words hw d addr buf (i + 4) len }
      else Some (d, i, True))"
  by pat_completeness auto
termination by (relation "measure (\<lambda>(hw, d, addr, buf, i, len). len - i)") auto

declare write_words.simps [simp del]

fun left_bytes :: "u8 list \<Rightarrow> nat \<Rightarrow> nat \<Rightarrow> u32 option" where
  "left_bytes buf i 0 = Some 0"
| "left_bytes buf i (Suc n) =
     do { word \<leftarrow> left_bytes buf i n; b \<leftarrow> rd buf (i + n); Some (word OR push_bit (8 * n) (ucast b)) }"

definition left_word :: "u8 list \<Rightarrow> nat \<Rightarrow> nat \<Rightarrow> u32 option" where
  "left_word buf i left_num =
     do { word \<leftarrow> left_bytes buf i left_num;
          Some (foldl (\<lambda>w n. w OR push_bit (8 * n) 0xFF) word [left_num..<4]) }"

definition Flash_Write :: "flash_hw \<Rightarrow> flash_dev \<Rightarrow> nat \<Rightarrow> u8 list \<Rightarrow> nat \<Rightarrow> (flash_dev \<times> nat) option" where
  "Flash_Write hw d addr buf len0 =
     (let left_num = len0 mod 4; len = len0 - left_num in
      if addr mod 4 \<noteq> 0 then Some (d, 0)
      else do {
        (d, i, ok) \<leftarrow> write_words hw (Flash_Unlock d) addr buf 0 len;
        if \<not> ok then Some (Flash_Lock d, i)
        else if left_num = 0 then Some (Flash_Lock d, len)
        else do {
          word \<leftarrow> left_word buf i left_num;
          let (d, st) = FLASH_ProgramWord hw d (u32_add addr i) word in
          Some (Flash_Lock d, if st = FLASH_COMPLETE then len + left_num else len) } })"

definition Flash_Read :: "flash_dev \<Rightarrow> nat \<Rightarrow> u8 list \<Rightarrow> nat \<Rightarrow> (u8 list \<times> nat) option" where
  "Flash_Read d addr buf len =
     do { buf \<leftarrow> memcpy buf 0 (map (cells d) [addr..<addr + len]) 0 len; Some (buf, len) }"

definition Get_FlashSize :: "flash_dev \<Rightarrow> nat" where
  "Get_FlashSize d = unat (flash_kb d)"

text \<open>\<open>FLASH_START_ADDR + Get_FlashSize() * 1024 - page * FLASH_PAGE_SIZE\<close>: the pages that the
  program keeps its flag, parameters and images in are counted from the end of the flash.\<close>

definition page_from_end :: "flash_dev \<Rightarrow> nat \<Rightarrow> nat" where
  "page_from_end d page =
     u32_sub (u32_add FLASH_START_ADDR (u32_mul (Get_FlashSize d) 1024)) (u32_mul page FLASH_PAGE_SIZE)"

abbreviation (input) FLASH_IAP_FLAG_ADDR :: nat where "FLASH_IAP_FLAG_ADDR \<equiv> 1"
abbreviation (input) FLASH_IAP_PARAM_ADDR :: nat where "FLASH_IAP_PARAM_ADDR \<equiv> 2"
abbreviation (input) FLASH_APP_PARAM_ADDR :: nat where "FLASH_APP_PARAM_ADDR \<equiv> 3"
abbreviation (input) FLASH_APP_INFO_ADDR :: nat where "FLASH_APP_INFO_ADDR \<equiv> 4"
abbreviation (input) FLASH_APP_FACTORY_ADDR :: nat where "FLASH_APP_FACTORY_ADDR \<equiv> 5"
abbreviation (input) FLASH_APP_COPY_ADDR :: nat where "FLASH_APP_COPY_ADDR \<equiv> 57"

fun header_words :: "flash_hw \<Rightarrow> flash_dev \<Rightarrow> nat \<Rightarrow> u8 list \<Rightarrow> nat \<Rightarrow> nat \<Rightarrow> (flash_dev \<times> bool) option" where
  "header_words hw d addr pData i 0 = Some (d, True)"
| "header_words hw d addr pData i (Suc k) = do {
     word \<leftarrow> ArrayU8ToU32 pData (4 * i);
     let (d, st) = FLASH_ProgramWord hw d (u32_add addr (i * 4)) word in
     if st \<noteq> FLASH_COMPLETE then Some (d, False) else header_words hw d addr pData (i + 1) k }"

definition Flash_Storage_Header :: "flash_hw \<Rightarrow> flash_dev \<Rightarrow> u8 list \<Rightarrow> (flash_dev \<times> nat) option" where
  "Flash_Storage_Header hw d pData = do {
     (d, ok) \<leftarrow> header_words hw (Flash_Unlock d) (page_from_end d FLASH_APP_INFO_ADDR) pData 0 (28 div 4);
     if \<not> ok then Some (d, 0) else Some (Flash_Lock d, 1) }"

subsection \<open>The documented behaviour of the flash\<close>

definition in_flash :: "flash_dev \<Rightarrow> nat \<Rightarrow> bool" where
  "in_flash d a \<longleftrightarrow> FLASH_START_ADDR \<le> a \<and> a < FLASH_START_ADDR + Get_FlashSize d * 1024"

definition erased :: "flash_dev \<Rightarrow> nat \<Rightarrow> bool" where
  "erased d a \<longleftrightarrow> cells d a = 0xFF"

definition page_wiped :: "(nat \<Rightarrow> u8) \<Rightarrow> nat \<Rightarrow> nat \<Rightarrow> u8" where
  "page_wiped m a b = (if b div FLASH_PAGE_SIZE = a div FLASH_PAGE_SIZE then 0xFF else m b)"

definition nor_flash :: "flash_hw \<Rightarrow> bool" where
  "nor_flash hw \<longleftrightarrow>
     (\<forall>d a. \<not> locked d \<and> sr d = FLASH_COMPLETE \<and> in_flash d a \<longrightarrow>
        hw_erase hw d a = d\<lparr>cells := page_wiped (cells d) a\<rparr>) \<and>
     (\<forall>d a v. \<not> locked d \<and> sr d = FLASH_COMPLETE \<and> in_flash d a \<and> even a \<and> erased d a \<and> erased d (a + 1) \<longrightarrow>
        hw_store hw d a v = d\<lparr>cells := (cells d)(a := ucast v, a + 1 := ucast (drop_bit 8 v))\<rparr>) \<and>
     (\<forall>d a v. \<not> locked d \<and> sr d = FLASH_COMPLETE \<and> in_flash d a \<and> even a \<and>
        \<not> (erased d a \<and> erased d (a + 1)) \<and> v \<noteq> 0 \<longrightarrow>
        hw_store hw d a v = d\<lparr>sr := FLASH_ERROR_PG\<rparr>) \<and>
     (\<forall>d a v. \<not> locked d \<and> sr d = FLASH_COMPLETE \<and> in_flash d a \<and> even a \<longrightarrow>
        (\<exists>m s. hw_store hw d a v = d\<lparr>cells := m, sr := s\<rparr> \<and> s \<noteq> FLASH_BUSY \<and> s \<noteq> FLASH_TIMEOUT \<and>
               (\<forall>b. b \<noteq> a \<and> b \<noteq> a + 1 \<longrightarrow> m b = cells d b)))"

lemma nor_erase:
  "nor_flash hw \<Longrightarrow> \<not> locked d \<Longrightarrow> sr d = FLASH_COMPLETE \<Longrightarrow> in_flash d a \<Longrightarrow>
   hw_erase hw d a = d\<lparr>cells := page_wiped (cells d) a\<rparr>"
  by (drule nor_flash_def [THEN iffD1, THEN conjunct1]) simp

lemma nor_store_erased:
  "nor_flash hw \<Longrightarrow> \<not> locked d \<Longrightarrow> sr d = FLASH_COMPLETE \<Longrightarrow> in_flash d a \<Longrightarrow> even a \<Longrightarrow>
   erased d a \<Longrightarrow> erased d (a + 1) \<Longrightarrow>
   hw_store hw d a v = d\<lparr>cells := (cells d)(a := ucast v, a + 1 := ucast (drop_bit 8 v))\<rparr>"
  by (drule nor_flash_def [THEN iffD1, THEN conjunct2, THEN conjunct1]) simp

lemma nor_store_refused:
  "nor_flash hw \<Longrightarrow> \<not> locked d \<Longrightarrow> sr d = FLASH_COMPLETE \<Longrightarrow> in_flash d a \<Longrightarrow> even a \<Longrightarrow>
   \<not> (erased d a \<and> erased d (a + 1)) \<Longrightarrow> v \<noteq> 0 \<Longrightarrow> hw_store hw d a v = d\<lparr>sr := FLASH_ERROR_PG\<rparr>"
  by (drule nor_flash_def [THEN iffD1, THEN conjunct2, THEN conjunct2, THEN conjunct1]) simp

lemma nor_store_frame:
  "nor_flash hw \<Longrightarrow> \<not> locked d \<Longrightarrow> sr d = FLASH_COMPLETE \<Longrightarrow> in_flash d a \<Longrightarrow> even a \<Longrightarrow>
   \<exists>m s. hw_store hw d a v = d\<lparr>cells := m, sr := s\<rparr> \<and> s \<noteq> FLASH_BUSY \<and> s \<noteq> FLASH_TIMEOUT \<and>
         (\<forall>b. b \<noteq> a \<and> b \<noteq> a + 1 \<longrightarrow> m b = cells d b)"
  by (drule nor_flash_def [THEN iffD1, THEN conjunct2, THEN conjunct2, THEN conjunct2]) simp

text \<open>A controller with that behaviour.\<close>

definition nor_hw :: flash_hw where
  "nor_hw = \<lparr>
     hw_store = \<lambda>d a v. if locked d then d
       else if erased d a \<and> erased d (a + 1)
         then d\<lparr>cells := (cells d)(a := ucast v, a + 1 := ucast (drop_bit 8 v))\<rparr>
         else if v = 0 then d\<lparr>cells := (cells d)(a := 0, a + 1 := 0)\<rparr>
         else d\<lparr>sr := FLASH_ERROR_PG\<rparr>,
     hw_erase = \<lambda>d a. if locked d then d else d\<lparr>cells := page_wiped (cells d) a\<rparr>\<rparr>"

lemma nor_hw_is_nor: "nor_flash nor_hw"
proof -
  have "\<exists>m s. hw_store nor_hw d a v = d\<lparr>cells := m, sr := s\<rparr> \<and> s \<noteq> FLASH_BUSY \<and> s \<noteq> FLASH_TIMEOUT \<and>
      (\<forall>b. b \<noteq> a \<and> b \<noteq> a + 1 \<longrightarrow> m b = cells d b)"
    if "\<not> locked d" "sr d = FLASH_COMPLETE" for d a v
    using that
    by (intro exI [of _ "cells (hw_store nor_hw d a v)"] exI [of _ "sr (hw_store nor_hw d a v)"])
      (auto simp: nor_hw_def)
  then show ?thesis unfolding nor_flash_def by (simp add: nor_hw_def)
qed

subsection \<open>Memory contents\<close>

definition put :: "(nat \<Rightarrow> u8) \<Rightarrow> nat \<Rightarrow> u8 list \<Rightarrow> nat \<Rightarrow> u8" where
  "put m a xs b = (if a \<le> b \<and> b < a + length xs then xs ! (b - a) else m b)"

definition blank :: "flash_dev \<Rightarrow> nat \<Rightarrow> nat \<Rightarrow> bool" where
  "blank d a n \<longleftrightarrow> (\<forall>b. a \<le> b \<and> b < a + n \<longrightarrow> in_flash d b \<and> erased d b)"

definition ready :: "flash_dev \<Rightarrow> bool" where
  "ready d \<longleftrightarrow> sr d \<noteq> FLASH_BUSY \<and> sr d \<noteq> FLASH_TIMEOUT"

abbreviation unlocked :: "flash_dev \<Rightarrow> bool" where
  "unlocked d \<equiv> \<not> locked d \<and> sr d = FLASH_COMPLETE"

lemma put_empty [simp]: "put m a [] = m"
  by (rule ext) (auto simp: put_def)

lemma put_append: "put (put m a xs) (a + length xs) ys = put m a (xs @ ys)"
  by (rule ext) (auto simp: put_def nth_append)

lemma put_in: "a \<le> b \<Longrightarrow> b < a + length xs \<Longrightarrow> put m a xs b = xs ! (b - a)"
  by (simp add: put_def)

lemma put_out: "b < a \<or> a + length xs \<le> b \<Longrightarrow> put m a xs b = m b"
  by (auto simp: put_def)

lemma put_read: "map (put m a xs) [a..<a + length xs] = xs"
  by (rule nth_equalityI) (simp_all add: put_def)

lemma put_blank:
  "blank d a (n + k) \<Longrightarrow> put (cells d) a (xs @ replicate k 0xFF) = put (cells d) a xs" if "length xs = n"
  using that by (intro ext) (auto simp: put_def nth_append blank_def erased_def)

lemma blank_sub: "blank d a n \<Longrightarrow> a \<le> b \<Longrightarrow> b + k \<le> a + n \<Longrightarrow> blank d b k"
  by (auto simp: blank_def)

lemma blank_put: "blank d b k \<Longrightarrow> b + k \<le> a \<or> a + length xs \<le> b \<Longrightarrow>
    blank (d\<lparr>cells := put (cells d) a xs\<rparr>) b k"
  by (auto simp: blank_def in_flash_def erased_def put_def Get_FlashSize_def)

lemma in_flash_less: "in_flash d a \<Longrightarrow> a + 65536 < U32_RANGE"
  using unat_u16_less [of "flash_kb d"] by (simp add: in_flash_def Get_FlashSize_def)

lemma in_flash_update [simp]:
  "in_flash (d\<lparr>cells := m\<rparr>) = in_flash d" "in_flash (d\<lparr>locked := l\<rparr>) = in_flash d"
  "in_flash (d\<lparr>sr := s\<rparr>) = in_flash d"
  by (auto simp: in_flash_def Get_FlashSize_def fun_eq_iff)

lemma erased_update [simp]:
  "erased (d\<lparr>locked := l\<rparr>) = erased d" "erased (d\<lparr>sr := s\<rparr>) = erased d"
  by (auto simp: erased_def fun_eq_iff)

lemma blank_update [simp]:
  "blank (d\<lparr>locked := l\<rparr>) = blank d" "blank (d\<lparr>sr := s\<rparr>) = blank d"
  by (auto simp: blank_def fun_eq_iff)

lemma Flash_Unlock_ready: "ready d \<Longrightarrow> Flash_Unlock d = d\<lparr>locked := False, sr := FLASH_COMPLETE\<rparr>"
  by (cases "sr d") (auto simp: Flash_Unlock_def ready_def)

subsection \<open>Programming blank words\<close>

definition u32_bytes :: "u32 \<Rightarrow> u8 list" where
  "u32_bytes w = [ucast w, ucast (drop_bit 8 w), ucast (drop_bit 16 w), ucast (drop_bit 24 w)]"

lemma halfword_bytes:
  "(ucast (ucast (w :: u32) :: u16) :: u8) = ucast w"
  "(ucast (drop_bit 8 (ucast w :: u16)) :: u8) = ucast (drop_bit 8 w)"
  "(ucast (ucast (drop_bit 16 w) :: u16) :: u8) = ucast (drop_bit 16 w)"
  "(ucast (drop_bit 8 (ucast (drop_bit 16 w) :: u16)) :: u8) = ucast (drop_bit 24 w)"
  by (rule bit_word_eqI; auto simp: bit_simps)+

lemma hw_store_blank:
  "nor_flash hw \<Longrightarrow> unlocked d \<Longrightarrow> even a \<Longrightarrow> blank d a 2 \<Longrightarrow>
   hw_store hw d a v = d\<lparr>cells := put (cells d) a [ucast v, ucast (drop_bit 8 v)]\<rparr>"
proof -
  assume *: "nor_flash hw" "unlocked d" "even a" "blank d a 2"
  then have "in_flash d a" "erased d a" "erased d (a + 1)" by (auto simp: blank_def)
  then have "hw_store hw d a v = d\<lparr>cells := (cells d)(a := ucast v, a + 1 := ucast (drop_bit 8 v))\<rparr>"
    using * by (intro nor_store_erased) auto
  moreover have "(cells d)(a := ucast v, a + 1 := ucast (drop_bit 8 v)) = put (cells d) a [ucast v, ucast (drop_bit 8 v)]"
    by (rule ext) (auto simp: put_def less_Suc_eq nth_Cons' le_Suc_eq)
  ultimately show ?thesis by simp
qed

lemma FLASH_ProgramWord_blank:
  assumes "nor_flash hw" "unlocked d" "even a" "blank d a 4"
  shows "FLASH_ProgramWord hw d a w = (d\<lparr>cells := put (cells d) a (u32_bytes w)\<rparr>, FLASH_COMPLETE)"
proof -
  have b: "blank d a 2" "blank d (a + 2) 2" using assms(4) by (auto intro: blank_sub)
  have "in_flash d a" using assms(4) by (auto simp: blank_def)
  then have a2: "u32_add a 2 = a + 2" using in_flash_less by (intro u32_add_exact) force
  let ?d = "d\<lparr>cells := put (cells d) a [ucast w, ucast (drop_bit 8 w)]\<rparr>"
  have s1: "hw_store hw d a (ucast w) = ?d"
    using hw_store_blank [OF assms(1-3) b(1), of "ucast w"] by (simp add: halfword_bytes)
  have "blank ?d (a + 2) 2" using b(2) by (rule blank_put) simp
  then have "hw_store hw ?d (a + 2) (ucast (drop_bit 16 w)) =
      ?d\<lparr>cells := put (cells ?d) (a + 2) [ucast (drop_bit 16 w), ucast (drop_bit 24 w)]\<rparr>"
    using hw_store_blank [OF assms(1), of ?d "a + 2" "ucast (drop_bit 16 w)"] assms(2,3)
    by (simp add: halfword_bytes)
  moreover have "put (cells ?d) (a + 2) [ucast (drop_bit 16 w), ucast (drop_bit 24 w)] = put (cells d) a (u32_bytes w)"
    using put_append [of "cells d" a "[ucast w, ucast (drop_bit 8 w)]" "[ucast (drop_bit 16 w), ucast (drop_bit 24 w)]"]
    by (simp add: u32_bytes_def)
  ultimately show ?thesis
    using assms(2) by (simp add: FLASH_ProgramWord_def s1 a2 Let_def)
qed

lemma u32_bytes_of:
  fixes b0 b1 b2 b3 :: u8
  assumes "unat (w :: u32) = unat b0 + 256 * unat b1 + 65536 * unat b2 + 16777216 * unat b3"
  shows "u32_bytes w = [b0, b1, b2, b3]"
proof -
  have b: "unat b0 < 256" "unat b1 < 256" "unat b2 < 256" "unat b3 < 256" by (rule unat_u8_less)+
  define r2 r1 where "r2 = unat b2 + 256 * unat b3" and "r1 = unat b1 + 256 * r2"
  have w: "unat w = unat b0 + 256 * r1" using assms by (simp add: r1_def r2_def)
  have digit: "(x + 256 * y) mod 256 = x" "(x + 256 * y) div 256 = y" if "x < 256" for x y :: nat
    using that by simp_all
  have d8: "unat w div 256 = r1" unfolding w by (rule digit) (rule b)
  have d16: "unat w div 65536 = r2"
    using digit(2) [OF b(2), of r2] d8 div_mult2_eq [of "unat w" 256 256] by (simp add: r1_def)
  have d24: "unat w div 16777216 = unat b3"
    using digit(2) [OF b(3), of "unat b3"] d16 div_mult2_eq [of "unat w" 65536 256] by (simp add: r2_def)
  have "unat (ucast w :: u8) = unat b0" unfolding unat_bits w using digit(1) [OF b(1)] by simp
  moreover have "unat (ucast (drop_bit 8 w) :: u8) = unat b1"
    unfolding unat_bits using d8 digit(1) [OF b(2)] by (simp add: r1_def)
  moreover have "unat (ucast (drop_bit 16 w) :: u8) = unat b2"
    unfolding unat_bits using d16 digit(1) [OF b(3)] by (simp add: r2_def)
  moreover have "unat (ucast (drop_bit 24 w) :: u8) = unat b3"
    unfolding unat_bits using d24 b(4) by simp
  ultimately show ?thesis unfolding u32_bytes_def by (simp only: word_unat_eq_iff list.inject simp_thms)
qed

lemma ArrayU8ToU32_bytes:
  "p + 4 \<le> length src \<Longrightarrow> \<exists>w. ArrayU8ToU32 src p = Some w \<and> u32_bytes w = take 4 (drop p src)"
proof -
  assume p: "p + 4 \<le> length src"
  then obtain w where w: "ArrayU8ToU32 src p = Some w" "unat w = unat (src ! p) + 256 * unat (src ! (p + 1)) +
              65536 * unat (src ! (p + 2)) + 16777216 * unat (src ! (p + 3))"
    using ArrayU8ToU32_value [of p src] by auto
  have "take 4 (drop p src) = [src ! p, src ! (p + 1), src ! (p + 2), src ! (p + 3)]"
    using p by (auto intro!: nth_equalityI simp: less_Suc_eq numeral_eq_Suc)
  then show ?thesis using w u32_bytes_of by auto
qed


subsection \<open>Flash_Write\<close>

lemma write_words_blank:
  assumes "nor_flash hw" "addr mod 4 = 0" "len mod 4 = 0" "len \<le> length buf"
  shows "unlocked d \<Longrightarrow> i mod 4 = 0 \<Longrightarrow> i \<le> len \<Longrightarrow> blank d (addr + i) (len - i) \<Longrightarrow>
    write_words hw d addr buf i len =
      Some (d\<lparr>cells := put (cells d) (addr + i) (take (len - i) (drop i buf))\<rparr>, len, True)"
proof (induction "len - i" arbitrary: i d rule: less_induct)
  case less
  show ?case
  proof (cases "i < len")
    case False
    then show ?thesis using less.prems by (subst write_words.simps) simp
  next
    case True
    then have i4: "i + 4 \<le> len" using assms(3) less.prems(2) by presburger
    then obtain w where w: "ArrayU8ToU32 buf i = Some w" "u32_bytes w = take 4 (drop i buf)"
      using ArrayU8ToU32_bytes [of i buf] assms(4) by auto
    have b4: "blank d (addr + i) 4" using less.prems(4) i4 by (auto intro: blank_sub)
    then have "in_flash d (addr + i)" by (simp add: blank_def)
    then have a: "u32_add addr i = addr + i" using in_flash_less by (intro u32_add_exact) force
    have "even (addr + i)" using assms(2) less.prems(2) by presburger
    then have p: "FLASH_ProgramWord hw d (addr + i) w =
        (d\<lparr>cells := put (cells d) (addr + i) (take 4 (drop i buf))\<rparr>, FLASH_COMPLETE)"
      using FLASH_ProgramWord_blank [OF assms(1) less.prems(1) _ b4] w(2) by simp
    let ?d = "d\<lparr>cells := put (cells d) (addr + i) (take 4 (drop i buf))\<rparr>"
    have l4: "length (take 4 (drop i buf)) = 4" using i4 assms(4) by simp
    have "blank d (addr + (i + 4)) (len - (i + 4))" using less.prems(4) i4 by (auto intro: blank_sub)
    then have b: "blank ?d (addr + (i + 4)) (len - (i + 4))" by (rule blank_put) (simp add: l4)
    have "write_words hw ?d addr buf (i + 4) len =
        Some (?d\<lparr>cells := put (cells ?d) (addr + (i + 4)) (take (len - (i + 4)) (drop (i + 4) buf))\<rparr>, len, True)"
    proof (rule less.hyps)
      show "len - (i + 4) < len - i" using True by simp
      show "(i + 4) mod 4 = 0" using less.prems(2) by simp
    qed (use less.prems(1) i4 b in auto)
    moreover have "put (cells ?d) (addr + (i + 4)) (take (len - (i + 4)) (drop (i + 4) buf)) =
        put (cells d) (addr + i) (take (len - i) (drop i buf))"
    proof -
      have "put (cells ?d) (addr + (i + 4)) (take (len - (i + 4)) (drop (i + 4) buf)) =
          put (put (cells d) (addr + i) (take 4 (drop i buf))) (addr + i + length (take 4 (drop i buf)))
            (take (len - (i + 4)) (drop (i + 4) buf))"
        unfolding l4 by (simp add: add.assoc)
      also have "\<dots> = put (cells d) (addr + i) (take 4 (drop i buf) @ take (len - (i + 4)) (drop (i + 4) buf))"
        by (rule put_append)
      also have "take 4 (drop i buf) @ take (len - (i + 4)) (drop (i + 4) buf) = take (len - i) (drop i buf)"
        using i4 take_add [of 4 "len - (i + 4)" "drop i buf"] by (simp add: add.commute)
      finally show ?thesis .
    qed
    ultimately show ?thesis
      using True by (subst write_words.simps) (simp add: w(1) a p)
  qed
qed

lemma u32_bytes_or:
  fixes b0 b1 b2 b3 :: u8
  shows "u32_bytes (ucast b0 OR push_bit 8 (ucast b1) OR push_bit 16 (ucast b2) OR push_bit 24 (ucast b3)) =
         [b0, b1, b2, b3]"
  unfolding u32_bytes_def list.inject
  by (intro conjI; (rule refl)?) (rule bit_word_eqI; auto simp: bit_simps bitwise dest: bit_imp_le_length)+

lemma left_word_bytes:
  assumes "0 < n" "n < 4" "i + n \<le> length buf"
  shows "\<exists>w. left_word buf i n = Some w \<and> u32_bytes w = take n (drop i buf) @ replicate (4 - n) 0xFF"
proof -
  have ff: "(0xFF :: u32) = ucast (0xFF :: u8)" by simp
  have r: "rd buf (i + k) = Some (buf ! (i + k))" if "k < n" for k using that assms by (simp add: mem_simps)
  have t: "take n (drop i buf) = map (\<lambda>k. buf ! (i + k)) [0..<n]"
    using assms(3) by (intro nth_equalityI) auto
  have bytes: "left_bytes buf i (Suc 0) = Some (0 OR push_bit 0 (ucast (buf ! i)))"
    using r [of 0] assms by simp
  have bytes2: "left_bytes buf i (Suc (Suc 0)) =
      Some ((0 OR push_bit 0 (ucast (buf ! i))) OR push_bit 8 (ucast (buf ! (i + 1))))" if "1 < n"
    unfolding left_bytes.simps(2) [of _ _ "Suc 0"] bytes using r [of 1] that by simp
  have bytes3: "left_bytes buf i (Suc (Suc (Suc 0))) =
      Some (((0 OR push_bit 0 (ucast (buf ! i))) OR push_bit 8 (ucast (buf ! (i + 1)))) OR
        push_bit 16 (ucast (buf ! (i + 2))))" if "2 < n"
    unfolding left_bytes.simps(2) [of _ _ "Suc (Suc 0)"] using bytes2 r [of 2] that by simp
  have upt: "[Suc 0..<4] = [1, 2, 3 :: nat]" "[2..<4] = [2, 3 :: nat]" "[3..<4] = [3 :: nat]"
    by (simp_all add: upt_rec)
  have pad: "[0..<2] = [0, 1 :: nat]" "[0..<3] = [0, 1, 2 :: nat]" "replicate 3 x = [x, x, x]" "replicate 2 x = [x, x]"
    for x :: u8 by (simp_all add: upt_rec numeral_eq_Suc)
  consider "n = 1" | "n = 2" | "n = 3" using assms by linarith
  then show ?thesis
  proof cases
    case 1
    have "left_word buf i 1 = Some (ucast (buf ! i) OR push_bit 8 (ucast (0xFF :: u8)) OR
        push_bit 16 (ucast (0xFF :: u8)) OR push_bit 24 (ucast (0xFF :: u8)))"
      using bytes by (simp add: left_word_def upt or.assoc del: left_bytes.simps)
    moreover have "take n (drop i buf) @ replicate (4 - n) 0xFF = [buf ! i, 0xFF, 0xFF, 0xFF]"
      by (simp only: t) (simp add: 1 pad)
    ultimately show ?thesis unfolding 1 using u32_bytes_or by metis
  next
    case 2
    have "left_word buf i 2 = Some (ucast (buf ! i) OR push_bit 8 (ucast (buf ! (i + 1))) OR
        push_bit 16 (ucast (0xFF :: u8)) OR push_bit 24 (ucast (0xFF :: u8)))"
      using bytes2 [unfolded numeral_2_eq_2 [symmetric]] 2 by (simp add: left_word_def upt or.assoc del: left_bytes.simps)
    moreover have "take n (drop i buf) @ replicate (4 - n) 0xFF = [buf ! i, buf ! (i + 1), 0xFF, 0xFF]"
      by (simp only: t) (simp add: 2 pad)
    ultimately show ?thesis unfolding 2 using u32_bytes_or by metis
  next
    case 3
    have "left_word buf i 3 = Some (ucast (buf ! i) OR push_bit 8 (ucast (buf ! (i + 1))) OR
        push_bit 16 (ucast (buf ! (i + 2))) OR push_bit 24 (ucast (0xFF :: u8)))"
      using bytes3 [unfolded numeral_3_eq_3 [symmetric]] 3 by (simp add: left_word_def upt or.assoc del: left_bytes.simps)
    moreover have "take n (drop i buf) @ replicate (4 - n) 0xFF = [buf ! i, buf ! (i + 1), buf ! (i + 2), 0xFF]"
      by (simp only: t) (simp add: 3 pad)
    ultimately show ?thesis unfolding 3 using u32_bytes_or by metis
  qed
qed


lemma Flash_Write_blank:
  assumes "nor_flash hw" "addr mod 4 = 0" "len \<le> length buf" "ready d"
    "blank d addr (4 * ((len + 3) div 4))"
  shows "Flash_Write hw d addr buf len =
    Some (d\<lparr>locked := True, sr := FLASH_COMPLETE, cells := put (cells d) addr (take len buf)\<rparr>, len)"
proof -
  define n m where "n = len mod 4" and "m = len - len mod 4"
  have m4: "m mod 4 = 0" "len = m + n" "n < 4" "m \<le> len" "m \<le> length buf"
    using assms(3) by (auto simp: n_def m_def minus_mod_eq_mult_div)
  let ?d0 = "d\<lparr>locked := False, sr := FLASH_COMPLETE\<rparr>"
  have u: "Flash_Unlock d = ?d0" using assms(4) by (rule Flash_Unlock_ready)
  obtain q where q: "m = 4 * q" using m4(1) by auto
  have "(4 * q + n + 3) div 4 = q + (n + 3) div 4" by simp
  moreover have "(n + 3) div 4 = (if n = 0 then 0 else 1)" 
  proof -
    have "n = 0 \<or> n = 1 \<or> n = 2 \<or> n = 3" using m4(3) by linarith
    then show ?thesis by (elim disjE) simp_all
  qed
  ultimately have total: "4 * ((len + 3) div 4) = (if n = 0 then m else m + 4)"
    using m4(2) q by simp
  then have bm: "blank ?d0 addr m" using assms(5) by (auto intro: blank_sub)
  let ?d1 = "?d0\<lparr>cells := put (cells d) addr (take m buf)\<rparr>"
  have w: "write_words hw ?d0 addr buf 0 m = Some (?d1, m, True)"
    using write_words_blank [OF assms(1,2) m4(1,5), of ?d0 0] bm by simp
  show ?thesis
  proof (cases "n = 0")
    case True
    then show ?thesis
      using assms(2) w m4 unfolding Flash_Write_def Let_def u n_def [symmetric] m_def [symmetric]
      by (simp add: Flash_Lock_def)
  next
    case False
    obtain word where word: "left_word buf m n = Some word"
      "u32_bytes word = take n (drop m buf) @ replicate (4 - n) 0xFF"
      using left_word_bytes [of n m buf] False m4 assms(3) by auto
    have b4: "blank ?d0 (addr + m) 4" using assms(5) total False by (auto intro: blank_sub)
    have lm: "length (take m buf) = m" using m4 by simp
    then have b: "blank ?d1 (addr + m) 4" using b4 blank_put [of ?d0 "addr + m" 4 addr "take m buf"] by simp
    then have "in_flash ?d1 (addr + m)" by (simp add: blank_def)
    then have a: "u32_add addr m = addr + m" using in_flash_less by (intro u32_add_exact) force
    have "even (addr + m)" using assms(2) m4(1) by presburger
    then have p: "FLASH_ProgramWord hw ?d1 (addr + m) word =
        (?d1\<lparr>cells := put (cells ?d1) (addr + m) (u32_bytes word)\<rparr>, FLASH_COMPLETE)"
      using b by (intro FLASH_ProgramWord_blank assms(1)) auto
    have "put (cells ?d1) (addr + m) (u32_bytes word) = put (cells d) addr (take len buf)"
    proof -
      have nd: "length (take n (drop m buf)) = n" using m4 assms(3) by simp
      have "blank ?d1 (addr + m) (n + (4 - n))" using b m4(3) by simp
      then have "put (cells ?d1) (addr + m) (u32_bytes word) = put (cells ?d1) (addr + m) (take n (drop m buf))"
        unfolding word(2) by (rule put_blank [OF nd])
      also have "\<dots> = put (cells d) addr (take m buf @ take n (drop m buf))"
        using put_append [of "cells d" addr "take m buf" "take n (drop m buf)"] unfolding lm by simp
      also have "take m buf @ take n (drop m buf) = take len buf"
        using m4(2) by (simp add: take_add)
      finally show ?thesis .
    qed
    then show ?thesis
      using assms(2) w m4(2) False unfolding Flash_Write_def Let_def u n_def [symmetric] m_def [symmetric]
      by (simp add: Flash_Lock_def word(1) a p)
  qed
qed

subsection \<open>Addresses counted from the end\<close>

lemma page_from_end_exact:
  "2 * page \<le> Get_FlashSize d \<Longrightarrow> page_from_end d page = FLASH_START_ADDR + Get_FlashSize d * 1024 - page * 2048"
  using unat_u16_less [of "flash_kb d"]
  by (simp add: page_from_end_def Get_FlashSize_def u32_simps)

lemma page_from_end_aligned:
  assumes "2 * page \<le> Get_FlashSize d"
  shows "page_from_end d page mod 4 = 0"
    and "even (Get_FlashSize d) \<Longrightarrow> page_from_end d page mod FLASH_PAGE_SIZE = 0"
proof -
  obtain k where k: "Get_FlashSize d = 2 * page + k" using assms le_Suc_ex by blast
  have p: "page_from_end d page = FLASH_START_ADDR + k * 1024" using k by (simp add: page_from_end_exact)
  have "page_from_end d page = 4 * (0x2000000 + k * 256)" unfolding p by simp
  then show "page_from_end d page mod 4 = 0" by simp
  assume "even (Get_FlashSize d)"
  then obtain j where "k = 2 * j" using k by (metis dvd_add_right_iff dvd_triv_left evenE)
  then have "page_from_end d page = FLASH_PAGE_SIZE * (0x10000 + j)" unfolding p by simp
  then show "page_from_end d page mod FLASH_PAGE_SIZE = 0" by simp
qed

lemma page_from_end_in_flash:
  "2 * page \<le> Get_FlashSize d \<Longrightarrow> b < page * 2048 \<Longrightarrow> in_flash d (page_from_end d page + b)"
  by (auto simp: page_from_end_exact in_flash_def)

subsection \<open>Erasing\<close>

definition wipe :: "(nat \<Rightarrow> u8) \<Rightarrow> nat \<Rightarrow> nat \<Rightarrow> nat \<Rightarrow> u8" where
  "wipe m a n b = (if a \<le> b \<and> b < a + n then 0xFF else m b)"

lemma page_wiped_wipe: "a mod FLASH_PAGE_SIZE = 0 \<Longrightarrow> page_wiped m a = wipe m a FLASH_PAGE_SIZE"
proof (rule ext)
  fix b :: nat assume "a mod FLASH_PAGE_SIZE = 0"
  then have "a = FLASH_PAGE_SIZE * (a div FLASH_PAGE_SIZE)" by (simp add: minus_mod_eq_mult_div [symmetric])
  moreover have "b = FLASH_PAGE_SIZE * (b div FLASH_PAGE_SIZE) + b mod FLASH_PAGE_SIZE" "b mod FLASH_PAGE_SIZE < FLASH_PAGE_SIZE"
    by simp_all
  ultimately have "b div FLASH_PAGE_SIZE = a div FLASH_PAGE_SIZE \<longleftrightarrow> a \<le> b \<and> b < a + FLASH_PAGE_SIZE"
    by linarith
  then show "page_wiped m a b = wipe m a FLASH_PAGE_SIZE b" by (simp add: page_wiped_def wipe_def)
qed

lemma wipe_more: "wipe (wipe m a n) (a + n) k = wipe m a (n + k)"
  by (auto simp: wipe_def)

lemma wipe_none [simp]: "wipe m a 0 = m"
  by (rule ext) (auto simp: wipe_def)

lemma FLASH_ErasePage_wipe:
  "nor_flash hw \<Longrightarrow> unlocked d \<Longrightarrow> in_flash d a \<Longrightarrow> a mod FLASH_PAGE_SIZE = 0 \<Longrightarrow>
   FLASH_ErasePage hw d a = (d\<lparr>cells := wipe (cells d) a FLASH_PAGE_SIZE\<rparr>, FLASH_COMPLETE)"
  by (simp add: nor_erase FLASH_ErasePage_def Let_def page_wiped_wipe)

lemma erase_pages_wipe:
  assumes "nor_flash hw" "addr mod FLASH_PAGE_SIZE = 0"
  shows "unlocked d \<Longrightarrow> \<forall>b < k * FLASH_PAGE_SIZE. in_flash d (addr + i * FLASH_PAGE_SIZE + b) \<Longrightarrow>
    erase_pages hw d addr i k = d\<lparr>cells := wipe (cells d) (addr + i * FLASH_PAGE_SIZE) (k * FLASH_PAGE_SIZE)\<rparr>"
proof (induction k arbitrary: d i)
  case (Suc k)
  let ?a = "addr + i * FLASH_PAGE_SIZE"
  have "in_flash d ?a" using Suc.prems(2) [rule_format, of 0] by simp
  then have at: "u32_add addr (u32_mul i FLASH_PAGE_SIZE) = ?a"
    using in_flash_less [of d ?a] by (simp add: u32_simps)
  have e: "FLASH_ErasePage hw d ?a = (d\<lparr>cells := wipe (cells d) ?a FLASH_PAGE_SIZE\<rparr>, FLASH_COMPLETE)"
    using assms Suc.prems(1) \<open>in_flash d ?a\<close> by (intro FLASH_ErasePage_wipe) (auto simp: mod_simps)
  let ?d = "d\<lparr>cells := wipe (cells d) ?a FLASH_PAGE_SIZE\<rparr>"
  have "\<forall>b < k * FLASH_PAGE_SIZE. in_flash ?d (addr + (i + 1) * FLASH_PAGE_SIZE + b)"
  proof (intro allI impI)
    fix b assume "b < k * FLASH_PAGE_SIZE"
    then have "in_flash d (?a + (FLASH_PAGE_SIZE + b))" using Suc.prems(2) by (intro Suc.prems(2) [rule_format]) simp
    then show "in_flash ?d (addr + (i + 1) * FLASH_PAGE_SIZE + b)" by (simp add: algebra_simps)
  qed
  then have "erase_pages hw ?d addr (i + 1) k =
      ?d\<lparr>cells := wipe (cells ?d) (addr + (i + 1) * FLASH_PAGE_SIZE) (k * FLASH_PAGE_SIZE)\<rparr>"
    using Suc.prems(1) by (intro Suc.IH) auto
  moreover have "wipe (cells ?d) (addr + (i + 1) * FLASH_PAGE_SIZE) (k * FLASH_PAGE_SIZE) =
      wipe (cells d) ?a (Suc k * FLASH_PAGE_SIZE)"
    using wipe_more [of "cells d" ?a FLASH_PAGE_SIZE "k * FLASH_PAGE_SIZE"] by (simp add: algebra_simps)
  ultimately show ?case using e at by simp
qed simp

definition pages_of :: "nat \<Rightarrow> nat" where
  "pages_of n = (n + (FLASH_PAGE_SIZE - 1)) div FLASH_PAGE_SIZE"

lemma Flash_Erase_Page_wipe:
  assumes "nor_flash hw" "addr mod FLASH_PAGE_SIZE = 0" "ready d" "0 < n" "n \<le> OTA_BIN_MAX_SIZE"
    "\<forall>b < pages_of n * FLASH_PAGE_SIZE. in_flash d (addr + b)"
  shows "Flash_Erase_Page hw d addr n =
    (d\<lparr>locked := True, sr := FLASH_COMPLETE, cells := wipe (cells d) addr (pages_of n * FLASH_PAGE_SIZE)\<rparr>, 0)"
proof -
  have p: "u32_sub (u32_add n FLASH_PAGE_SIZE) 1 div FLASH_PAGE_SIZE = pages_of n"
    using assms(5) by (simp add: u32_simps pages_of_def)
  have "erase_pages hw (Flash_Unlock d) addr 0 (pages_of n) =
      (Flash_Unlock d)\<lparr>cells := wipe (cells d) addr (pages_of n * FLASH_PAGE_SIZE)\<rparr>"
    using erase_pages_wipe [OF assms(1,2), of "Flash_Unlock d" "pages_of n" 0] assms(3,6)
    by (simp add: Flash_Unlock_ready)
  then show ?thesis
    using assms(3-5) unfolding Flash_Erase_Page_def Let_def p
    by (simp add: Flash_Lock_def Flash_Unlock_ready)
qed

subsection \<open>The header of an image\<close>

lemma header_words_blank:
  assumes "nor_flash hw" "addr mod 4 = 0"
  shows "unlocked d \<Longrightarrow> blank d (addr + i * 4) (k * 4) \<Longrightarrow> (i + k) * 4 \<le> length pData \<Longrightarrow>
    header_words hw d addr pData i k =
      Some (d\<lparr>cells := put (cells d) (addr + i * 4) (take (k * 4) (drop (i * 4) pData))\<rparr>, True)"
proof (induction k arbitrary: d i)
  case (Suc k)
  let ?xs = "take 4 (drop (i * 4) pData)" and ?a = "addr + i * 4"
  obtain w where w: "ArrayU8ToU32 pData (4 * i) = Some w" "u32_bytes w = ?xs"
    using ArrayU8ToU32_bytes [of "i * 4" pData] Suc.prems(3) by (auto simp: mult.commute)
  have b4: "blank d ?a 4" using Suc.prems(2) by (rule blank_sub) auto
  then have "in_flash d ?a" by (simp add: blank_def)
  then have a: "u32_add addr (i * 4) = ?a" using in_flash_less by (intro u32_add_exact) force
  have "even ?a" using assms(2) by presburger
  then have p: "FLASH_ProgramWord hw d ?a w = (d\<lparr>cells := put (cells d) ?a ?xs\<rparr>, FLASH_COMPLETE)"
    using FLASH_ProgramWord_blank [OF assms(1) Suc.prems(1) _ b4] w(2) by simp
  let ?d = "d\<lparr>cells := put (cells d) ?a ?xs\<rparr>"
  have l4: "length ?xs = 4" using Suc.prems(3) by simp
  have "blank d (addr + (i + 1) * 4) (k * 4)" using Suc.prems(2) by (rule blank_sub) auto
  then have "blank ?d (addr + (i + 1) * 4) (k * 4)" by (rule blank_put) (simp add: l4)
  then have "header_words hw ?d addr pData (i + 1) k =
      Some (?d\<lparr>cells := put (cells ?d) (addr + (i + 1) * 4) (take (k * 4) (drop ((i + 1) * 4) pData))\<rparr>, True)"
    using Suc.prems by (intro Suc.IH) auto
  moreover have "put (cells ?d) (addr + (i + 1) * 4) (take (k * 4) (drop ((i + 1) * 4) pData)) =
      put (cells d) ?a (take (Suc k * 4) (drop (i * 4) pData))"
  proof -
    have "put (cells ?d) (addr + (i + 1) * 4) (take (k * 4) (drop ((i + 1) * 4) pData)) =
        put (put (cells d) ?a ?xs) (?a + length ?xs) (take (k * 4) (drop ((i + 1) * 4) pData))"
      unfolding l4 by (simp add: algebra_simps)
    also have "\<dots> = put (cells d) ?a (?xs @ take (k * 4) (drop ((i + 1) * 4) pData))"
      by (rule put_append)
    also have "?xs @ take (k * 4) (drop ((i + 1) * 4) pData) = take (Suc k * 4) (drop (i * 4) pData)"
      using take_add [of 4 "k * 4" "drop (i * 4) pData"] by (simp add: algebra_simps)
    finally show ?thesis .
  qed
  ultimately show ?case by (simp add: w(1) a p)
qed simp


lemma Flash_Storage_Header_blank:
  assumes "nor_flash hw" "ready d" "8 \<le> Get_FlashSize d" "28 \<le> length pData"
    "blank d (page_from_end d FLASH_APP_INFO_ADDR) 28"
  shows "Flash_Storage_Header hw d pData =
    Some (d\<lparr>locked := True, sr := FLASH_COMPLETE,
            cells := put (cells d) (page_from_end d FLASH_APP_INFO_ADDR) (take 28 pData)\<rparr>, 1)"
proof -
  have u: "Flash_Unlock d = d\<lparr>locked := False, sr := FLASH_COMPLETE\<rparr>" using assms(2) by (rule Flash_Unlock_ready)
  have "header_words hw (Flash_Unlock d) (page_from_end d FLASH_APP_INFO_ADDR) pData 0 7 =
      Some ((Flash_Unlock d)\<lparr>cells := put (cells d) (page_from_end d FLASH_APP_INFO_ADDR) (take 28 pData)\<rparr>, True)"
    using header_words_blank [OF assms(1), of "page_from_end d FLASH_APP_INFO_ADDR" "Flash_Unlock d" 0 7 pData]
      page_from_end_aligned(1) [of 4 d] assms by (simp add: u)
  then show ?thesis by (simp add: Flash_Storage_Header_def Flash_Lock_def u)
qed

lemma header_words_overread:
  assumes "nor_flash hw" "addr mod 4 = 0" "length pData = k * 4 + r" "r < 4"
  shows "unlocked d \<Longrightarrow> blank d addr (k * 4) \<Longrightarrow> header_words hw d addr pData 0 (k + Suc m) = None"
proof -
  assume d: "unlocked d" "blank d addr (k * 4)"
  have split: "header_words hw d' addr pData i (j + Suc m) = None"
    if "unlocked d'" "blank d' (addr + i * 4) (j * 4)" "i + j = k" for d' i j
    using that
  proof (induction j arbitrary: d' i)
    case 0
    have "ArrayU8ToU32 pData (4 * i) = None"
      using assms(3,4) 0 by (auto simp: ArrayU8ToU32_def rd_def split: bind_splits)
    then show ?case by simp
  next
    case (Suc j)
    let ?xs = "take 4 (drop (i * 4) pData)" and ?a = "addr + i * 4"
    have room: "i * 4 + 4 \<le> length pData" using assms(3) Suc.prems(3) by auto
    obtain w where w: "ArrayU8ToU32 pData (4 * i) = Some w" "u32_bytes w = ?xs"
      using ArrayU8ToU32_bytes [OF room] by (auto simp: mult.commute)
    have b4: "blank d' ?a 4" using Suc.prems(2) by (rule blank_sub) auto
    then have "in_flash d' ?a" by (simp add: blank_def)
    then have a: "u32_add addr (i * 4) = ?a" using in_flash_less by (intro u32_add_exact) force
    have "even ?a" using assms(2) by presburger
    then have p: "FLASH_ProgramWord hw d' ?a w = (d'\<lparr>cells := put (cells d') ?a ?xs\<rparr>, FLASH_COMPLETE)"
      using FLASH_ProgramWord_blank [OF assms(1) Suc.prems(1) _ b4] w(2) by simp
    have "blank d' (addr + (i + 1) * 4) (j * 4)" using Suc.prems(2) by (rule blank_sub) auto
    then have "blank (d'\<lparr>cells := put (cells d') ?a ?xs\<rparr>) (addr + (i + 1) * 4) (j * 4)"
      by (rule blank_put) (use room in simp)
    then have "header_words hw (d'\<lparr>cells := put (cells d') ?a ?xs\<rparr>) addr pData (i + 1) (j + Suc m) = None"
      using Suc.prems by (intro Suc.IH) auto
    then show ?case by (simp add: w(1) a p)
  qed
  show ?thesis using split [of d 0 k] d by simp
qed

subsection \<open>What the routines can change on any flash\<close>

definition same_outside :: "nat \<Rightarrow> nat \<Rightarrow> (nat \<Rightarrow> u8) \<Rightarrow> (nat \<Rightarrow> u8) \<Rightarrow> bool" where
  "same_outside a n m m' \<longleftrightarrow> (\<forall>b. b < a \<or> a + n \<le> b \<longrightarrow> m' b = m b)"

abbreviation answered :: "FLASH_Status \<Rightarrow> bool" where
  "answered s \<equiv> s \<noteq> FLASH_BUSY \<and> s \<noteq> FLASH_TIMEOUT"

lemma same_outside_refl [simp]: "same_outside a n m m"
  by (simp add: same_outside_def)

lemma same_outside_trans:
  "same_outside a n m m' \<Longrightarrow> same_outside b k m' m'' \<Longrightarrow> c \<le> a \<Longrightarrow> a + n \<le> c + l \<Longrightarrow> c \<le> b \<Longrightarrow> b + k \<le> c + l \<Longrightarrow>
   same_outside c l m m''"
  by (auto simp: same_outside_def)

lemma same_outside_put: "length xs \<le> n \<Longrightarrow> same_outside a n m (put m a xs)"
  by (auto simp: same_outside_def put_def)

lemma FLASH_ProgramWord_frame:
  assumes "nor_flash hw" "unlocked d" "even a" "in_flash d a" "in_flash d (a + 2)"
  shows "\<exists>m s. FLASH_ProgramWord hw d a w = (d\<lparr>cells := m, sr := s\<rparr>, s) \<and> answered s \<and> same_outside a 4 (cells d) m"
proof -
  have a2: "u32_add a 2 = a + 2" using in_flash_less [OF assms(4)] by (intro u32_add_exact) simp
  obtain m s where 1: "hw_store hw d a (ucast w) = d\<lparr>cells := m, sr := s\<rparr>" "answered s"
    "\<forall>b. b \<noteq> a \<and> b \<noteq> a + 1 \<longrightarrow> m b = cells d b"
    using nor_store_frame [OF assms(1), of d a "ucast w"] assms by blast
  have o1: "same_outside a 4 (cells d) m" using 1(3) by (auto simp: same_outside_def)
  show ?thesis
  proof (cases "s = FLASH_COMPLETE")
    case False
    then show ?thesis using assms(2) 1 o1 by (simp add: FLASH_ProgramWord_def Let_def) blast
  next
    case True
    let ?d = "d\<lparr>cells := m, sr := s\<rparr>"
    obtain m2 s2 where 2: "hw_store hw ?d (a + 2) (ucast (drop_bit 16 w)) = ?d\<lparr>cells := m2, sr := s2\<rparr>" "answered s2"
      "\<forall>b. b \<noteq> a + 2 \<and> b \<noteq> a + 2 + 1 \<longrightarrow> m2 b = cells ?d b"
      using nor_store_frame [OF assms(1), of ?d "a + 2" "ucast (drop_bit 16 w)"] assms True by auto
    have "same_outside a 4 (cells d) m2" using 1(3) 2(3) by (auto simp: same_outside_def)
    then show ?thesis using assms(2) 1(1) 2(1,2) True by (simp add: FLASH_ProgramWord_def Let_def a2) blast
  qed
qed

lemma header_words_frame:
  assumes "nor_flash hw" "addr mod 4 = 0"
  shows "unlocked d \<Longrightarrow> (\<And>b. b < (i + k) * 4 \<Longrightarrow> in_flash d (addr + b)) \<Longrightarrow> (i + k) * 4 \<le> length pData \<Longrightarrow>
    \<exists>m s ok. header_words hw d addr pData i k = Some (d\<lparr>cells := m, sr := s\<rparr>, ok) \<and> answered s \<and>
             same_outside (addr + i * 4) (k * 4) (cells d) m"
proof (induction k arbitrary: d i)
  case 0
  then show ?case by (intro exI [of _ "cells d"] exI [of _ "sr d"] exI [of _ True]) simp
next
  case (Suc k)
  let ?a = "addr + i * 4"
  obtain w where w: "ArrayU8ToU32 pData (4 * i) = Some w"
    using ArrayU8ToU32_bytes [of "i * 4" pData] Suc.prems(3) by (auto simp: mult.commute)
  have inf: "in_flash d ?a" "in_flash d (?a + 2)"
    using Suc.prems(2) [of "i * 4"] Suc.prems(2) [of "i * 4 + 2"] by (simp_all add: add.assoc)
  have a: "u32_add addr (i * 4) = ?a" using in_flash_less [OF inf(1)] by (intro u32_add_exact) simp
  have ev: "even ?a" using assms(2) by presburger
  obtain m s where p: "FLASH_ProgramWord hw d ?a w = (d\<lparr>cells := m, sr := s\<rparr>, s)" "answered s"
    "same_outside ?a 4 (cells d) m"
    using FLASH_ProgramWord_frame [OF assms(1) Suc.prems(1) ev inf] by blast
  show ?case
  proof (cases "s = FLASH_COMPLETE")
    case False
    have "same_outside ?a (Suc k * 4) (cells d) m"
      using p(3) by (rule same_outside_trans [OF _ same_outside_refl [where a = ?a and n = 0]]) simp_all
    then show ?thesis using False p
      by (intro exI [of _ m] exI [of _ s] exI [of _ False]) (simp add: w a)
  next
    case True
    let ?d = "d\<lparr>cells := m, sr := s\<rparr>"
    obtain m2 s2 ok where h: "header_words hw ?d addr pData (i + 1) k = Some (?d\<lparr>cells := m2, sr := s2\<rparr>, ok)" "answered s2"
      "same_outside (addr + (i + 1) * 4) (k * 4) (cells ?d) m2"
      using Suc.IH [of ?d "i + 1"] Suc.prems True by auto
    have "same_outside ?a (Suc k * 4) (cells d) m2"
      by (rule same_outside_trans [OF p(3)]) (use h(3) in auto)
    then show ?thesis using True p h
      by (intro exI [of _ m2] exI [of _ s2] exI [of _ ok]) (simp add: w a)
  qed
qed

lemma Flash_Storage_Header_frame:
  assumes "nor_flash hw" "ready d" "8 \<le> Get_FlashSize d" "28 \<le> length pData"
  shows "\<exists>m s l r. Flash_Storage_Header hw d pData = Some (d\<lparr>locked := l, sr := s, cells := m\<rparr>, r) \<and> answered s \<and>
    same_outside (page_from_end d FLASH_APP_INFO_ADDR) 28 (cells d) m"
proof -
  let ?a = "page_from_end d FLASH_APP_INFO_ADDR"
  have u: "Flash_Unlock d = d\<lparr>locked := False, sr := FLASH_COMPLETE\<rparr>" using assms(2) by (rule Flash_Unlock_ready)
  have "in_flash d (?a + b)" if "b < 28" for b using page_from_end_in_flash [of 4 d b] assms(3) that by simp
  then obtain m s ok where h: "header_words hw (Flash_Unlock d) ?a pData 0 7 =
      Some ((Flash_Unlock d)\<lparr>cells := m, sr := s\<rparr>, ok)" "answered s" "same_outside ?a 28 (cells d) m"
    using header_words_frame [OF assms(1), of ?a "Flash_Unlock d" 0 7 pData]
      page_from_end_aligned(1) [of 4 d] assms by (auto simp: u)
  have "(28 :: nat) div 4 = 7" by simp
  show ?thesis
  proof (cases ok)
    case True
    then have "Flash_Storage_Header hw d pData = Some (d\<lparr>locked := True, sr := s, cells := m\<rparr>, 1)"
      using h(1) unfolding Flash_Storage_Header_def \<open>28 div 4 = 7\<close> by (simp add: u Flash_Lock_def)
    then show ?thesis using h(2,3) by blast
  next
    case False
    then have "Flash_Storage_Header hw d pData = Some (d\<lparr>locked := False, sr := s, cells := m\<rparr>, 0)"
      using h(1) unfolding Flash_Storage_Header_def \<open>28 div 4 = 7\<close> by (simp add: u)
    then show ?thesis using h(2,3) by blast
  qed
qed

lemma write_words_frame:
  assumes "nor_flash hw" "addr mod 4 = 0" "len mod 4 = 0" "len \<le> length buf"
  shows "unlocked d \<Longrightarrow> i mod 4 = 0 \<Longrightarrow> i \<le> len \<Longrightarrow> (\<And>b. b < len \<Longrightarrow> in_flash d (addr + b)) \<Longrightarrow>
    \<exists>m s j ok. write_words hw d addr buf i len = Some (d\<lparr>cells := m, sr := s\<rparr>, j, ok) \<and> answered s \<and>
      (ok \<longrightarrow> s = FLASH_COMPLETE \<and> j = len) \<and> j \<le> len \<and> same_outside addr len (cells d) m"
proof (induction "len - i" arbitrary: i d rule: less_induct)
  case less
  show ?case
  proof (cases "i < len")
    case False
    then show ?thesis using less.prems
      by (subst write_words.simps) (auto intro!: exI [of _ "cells d"] exI [of _ "sr d"])
  next
    case True
    then have i4: "i + 4 \<le> len" using assms(3) less.prems(2) by presburger
    then obtain w where w: "ArrayU8ToU32 buf i = Some w"
      using ArrayU8ToU32_bytes [of i buf] assms(4) by auto
    have inf: "in_flash d (addr + i)" "in_flash d (addr + i + 2)"
      using less.prems(4) [of i] less.prems(4) [of "i + 2"] i4 by (simp_all add: add.assoc)
    have a: "u32_add addr i = addr + i" using in_flash_less [OF inf(1)] by (intro u32_add_exact) simp
    have ev: "even (addr + i)" using assms(2) less.prems(2) by presburger
    obtain m s where p: "FLASH_ProgramWord hw d (addr + i) w = (d\<lparr>cells := m, sr := s\<rparr>, s)" "answered s"
      "same_outside (addr + i) 4 (cells d) m"
      using FLASH_ProgramWord_frame [OF assms(1) less.prems(1) ev inf] by blast
    have o1: "same_outside addr len (cells d) m" using p(3) i4 by (auto simp: same_outside_def)
    show ?thesis
    proof (cases "s = FLASH_COMPLETE")
      case False
      then show ?thesis using True p o1
        by (subst write_words.simps, intro exI [of _ m] exI [of _ s] exI [of _ i] exI [of _ False]) (simp add: w a)
    next
      case ok: True
      let ?d = "d\<lparr>cells := m, sr := s\<rparr>"
      have mod: "(i + 4) mod 4 = 0" using less.prems(2) by simp
      obtain m2 s2 j k where r: "write_words hw ?d addr buf (i + 4) len = Some (?d\<lparr>cells := m2, sr := s2\<rparr>, j, k)"
        "answered s2" "k \<longrightarrow> s2 = FLASH_COMPLETE \<and> j = len" "j \<le> len" "same_outside addr len (cells ?d) m2"
      proof -
        have "\<exists>m s j ok. write_words hw ?d addr buf (i + 4) len = Some (?d\<lparr>cells := m, sr := s\<rparr>, j, ok) \<and> answered s \<and>
          (ok \<longrightarrow> s = FLASH_COMPLETE \<and> j = len) \<and> j \<le> len \<and> same_outside addr len (cells ?d) m"
        proof (rule less.hyps)
          show "len - (i + 4) < len - i" using True by simp
          show "\<And>b. b < len \<Longrightarrow> in_flash ?d (addr + b)" using less.prems(4) by simp
        qed (use less.prems ok i4 mod in auto)
        then show ?thesis using that by blast
      qed
      have "same_outside addr len (cells d) m2" using o1 r(5) by (auto simp: same_outside_def)
      then show ?thesis using True ok p r
        by (subst write_words.simps, intro exI [of _ m2] exI [of _ s2] exI [of _ j] exI [of _ k]) (simp add: w a)
    qed
  qed
qed

lemma Flash_Write_frame:
  assumes "nor_flash hw" "addr mod 4 = 0" "len \<le> length buf" "ready d"
    "\<And>b. b < len + 3 \<Longrightarrow> in_flash d (addr + b)"
  shows "\<exists>m s r. Flash_Write hw d addr buf len = Some (d\<lparr>locked := True, sr := s, cells := m\<rparr>, r) \<and> answered s \<and>
    r \<le> len \<and> same_outside addr (len + 3) (cells d) m"
proof -
  define n where "n = len mod 4"
  define m where "m = len - n"
  have m4: "m mod 4 = 0" "len = m + n" "n < 4" "m \<le> length buf"
    using assms(3) by (auto simp: n_def m_def minus_mod_eq_mult_div)
  let ?d0 = "d\<lparr>locked := False, sr := FLASH_COMPLETE\<rparr>"
  have u: "Flash_Unlock d = ?d0" using assms(4) by (rule Flash_Unlock_ready)
  obtain c s j ok where w: "write_words hw ?d0 addr buf 0 m = Some (?d0\<lparr>cells := c, sr := s\<rparr>, j, ok)" "answered s"
      "ok \<longrightarrow> s = FLASH_COMPLETE \<and> j = m" "j \<le> m" "same_outside addr m (cells d) c"
    using write_words_frame [OF assms(1,2) m4(1,4), of ?d0 0] assms(5) m4 by auto
  have oc: "same_outside addr (len + 3) (cells d) c" using w(5) m4 by (auto simp: same_outside_def)
  consider "\<not> ok" | "ok" "n = 0" | "ok" "n \<noteq> 0" by blast
  then show ?thesis
  proof cases
    case 1
    then have "Flash_Write hw d addr buf len = Some (d\<lparr>locked := True, sr := s, cells := c\<rparr>, j)"
      using assms(2) w(1) unfolding Flash_Write_def Let_def u n_def [symmetric] m_def [symmetric]
      by (simp add: Flash_Lock_def)
    then show ?thesis using w(2,4) oc m4 by fastforce
  next
    case 2
    then have "Flash_Write hw d addr buf len = Some (d\<lparr>locked := True, sr := s, cells := c\<rparr>, m)"
      using assms(2) w(1) unfolding Flash_Write_def Let_def u n_def [symmetric] m_def [symmetric]
      by (simp add: Flash_Lock_def)
    then show ?thesis using w(2) oc m4 by fastforce
  next
    case 3
    let ?d1 = "?d0\<lparr>cells := c, sr := s\<rparr>"
    obtain word where word: "left_word buf m n = Some word"
      using left_word_bytes [of n m buf] 3 m4 assms(3) by auto
    have inf: "in_flash ?d1 (addr + m)" "in_flash ?d1 (addr + m + 2)"
      using assms(5) [of m] assms(5) [of "m + 2"] m4 3 by (simp_all add: add.assoc)
    have a: "u32_add addr m = addr + m" using in_flash_less [OF inf(1)] by (intro u32_add_exact) simp
    have ev: "even (addr + m)" using assms(2) m4(1) by presburger
    obtain c2 s2 where p: "FLASH_ProgramWord hw ?d1 (addr + m) word = (?d1\<lparr>cells := c2, sr := s2\<rparr>, s2)" "answered s2"
      "same_outside (addr + m) 4 (cells ?d1) c2"
      using FLASH_ProgramWord_frame [OF assms(1) _ ev inf, of word] 3 w(3) by auto
    have o2: "same_outside addr (len + 3) (cells d) c2"
      using p(3) oc m4 3 by (auto simp: same_outside_def)
    have "Flash_Write hw d addr buf len =
        Some (d\<lparr>locked := True, sr := s2, cells := c2\<rparr>, if s2 = FLASH_COMPLETE then m + n else m)"
      using assms(2) w(1,3) 3 p(1) unfolding Flash_Write_def Let_def u n_def [symmetric] m_def [symmetric]
      by (simp add: Flash_Lock_def word a)
    then show ?thesis using p(2) o2 m4 by (intro exI conjI) auto
  qed
qed

subsection \<open>Properties\<close>

text \<open>
  Property C9.  \<open>Flash_Write\<close> on blank flash, at a word boundary, programs exactly the given bytes,
  whatever their number (the last word is filled with \<open>FF\<close>, which leaves the cells erased), reports
  all of them as written, changes no other byte and leaves the controller locked.
\<close>

theorem Flash_Write_exact:
  assumes "nor_flash hw" "addr mod 4 = 0" "len \<le> length buf" "ready d"
    "blank d addr (4 * ((len + 3) div 4))"
  shows "\<exists>d'. Flash_Write hw d addr buf len = Some (d', len) \<and> locked d' \<and>
    cells d' = put (cells d) addr (take len buf) \<and>
    (\<forall>out. len \<le> length out \<longrightarrow> Flash_Read d' addr out len = Some (take len buf @ drop len out, len))"
proof -
  have w: "length (take len buf) = len" using assms(3) by simp
  have r: "map (put (cells d) addr (take len buf)) [addr..<addr + len] = take len buf"
    using put_read [of "cells d" addr "take len buf"] unfolding w .
  have "take len buf = take len (take len buf)" by simp
  then show ?thesis
    unfolding Flash_Write_blank [OF assms] using w r by (auto simp: Flash_Read_def memcpy_def)
qed

theorem Flash_Write_exact_witness:
  "\<exists>d'. Flash_Write nor_hw \<lparr>cells = \<lambda>_. 0xFF, locked = True, sr = FLASH_ERROR_PG, flash_kb = 256, chip_uid = []\<rparr>
     0x0800A000 [1, 2, 3, 4, 5] 5 = Some (d', 5) \<and>
   cells d' = put (\<lambda>_. 0xFF) 0x0800A000 [1, 2, 3, 4, 5]"
proof -
  let ?d = "\<lparr>cells = \<lambda>_. 0xFF, locked = True, sr = FLASH_ERROR_PG, flash_kb = 256, chip_uid = []\<rparr>"
  have "blank ?d 0x0800A000 (4 * ((5 + 3) div 4))"
    by (auto simp: blank_def in_flash_def erased_def Get_FlashSize_def)
  then show ?thesis
    using Flash_Write_exact [OF nor_hw_is_nor, of "0x0800A000" 5 "[1, 2, 3, 4, 5]" ?d]
    by (auto simp: ready_def)
qed

text \<open>
  Property C19.  \<open>Flash_Erase_Page\<close> refuses a size of zero or above the size of an image with code 1, wherever its pages would
  lie, and nothing is erased; for any other size whose pages lie in the flash it answers 0 and erases exactly the pages that
  hold the given number of bytes.
\<close>

theorem Flash_Erase_Page_exact:
  assumes "nor_flash hw" "addr mod FLASH_PAGE_SIZE = 0" "ready d"
    "0 < n \<and> n \<le> OTA_BIN_MAX_SIZE \<longrightarrow> (\<forall>b < pages_of n * FLASH_PAGE_SIZE. in_flash d (addr + b))"
  shows "if 0 < n \<and> n \<le> OTA_BIN_MAX_SIZE
    then \<exists>d'. Flash_Erase_Page hw d addr n = (d', 0) \<and> locked d' \<and>
           cells d' = wipe (cells d) addr (pages_of n * FLASH_PAGE_SIZE) \<and> n \<le> pages_of n * FLASH_PAGE_SIZE
    else Flash_Erase_Page hw d addr n = (d, 1)"
proof (cases "0 < n \<and> n \<le> OTA_BIN_MAX_SIZE")
  case True
  then have f: "\<forall>b < pages_of n * FLASH_PAGE_SIZE. in_flash d (addr + b)" using assms(4) by blast
  have "n \<le> pages_of n * FLASH_PAGE_SIZE"
    unfolding pages_of_def
    using div_mult_mod_eq [of "n + (FLASH_PAGE_SIZE - 1)" FLASH_PAGE_SIZE]
      mod_less_divisor [of FLASH_PAGE_SIZE "n + (FLASH_PAGE_SIZE - 1)"] by linarith
  then show ?thesis
    using True Flash_Erase_Page_wipe [OF assms(1-3) _ _ f] by simp
next
  case False
  then show ?thesis unfolding Flash_Erase_Page_def by auto
qed

text \<open>Two pages are erased; 110 kilobytes, more than the flash of 64 kilobytes holds behind the address, are refused.\<close>

theorem Flash_Erase_Page_exact_witness:
  "let d = \<lparr>cells = \<lambda>_. 0, locked = True, sr = FLASH_COMPLETE, flash_kb = 64, chip_uid = []\<rparr> in
   (\<exists>d'. Flash_Erase_Page nor_hw d 0x0800A000 3000 = (d', 0) \<and> cells d' = wipe (\<lambda>_. 0) 0x0800A000 4096) \<and>
   Flash_Erase_Page nor_hw d 0x0800A000 112640 = (d, 1) \<and> Flash_Erase_Page nor_hw d 0x0800A000 0 = (d, 1)"
  using Flash_Erase_Page_exact [OF nor_hw_is_nor, of "0x0800A000"
      "\<lparr>cells = \<lambda>_. 0, locked = True, sr = FLASH_COMPLETE, flash_kb = 64, chip_uid = []\<rparr>" 3000]
    Flash_Erase_Page_exact [OF nor_hw_is_nor, of "0x0800A000"
      "\<lparr>cells = \<lambda>_. 0, locked = True, sr = FLASH_COMPLETE, flash_kb = 64, chip_uid = []\<rparr>" 112640]
    Flash_Erase_Page_exact [OF nor_hw_is_nor, of "0x0800A000"
      "\<lparr>cells = \<lambda>_. 0, locked = True, sr = FLASH_COMPLETE, flash_kb = 64, chip_uid = []\<rparr>" 0]
  by (auto simp: ready_def pages_of_def in_flash_def Get_FlashSize_def Let_def)

text \<open>
  Fact.  \<open>Flash_Storage_Header\<close> programs the page of the image header without erasing it:
  when a header is stored there already, the new one (with a version other than zero) is refused
  with code 0, the old one stays, and the controller is left unlocked with its error flag set.
\<close>

theorem Flash_Storage_Header_stale:
  assumes "nor_flash hw" "ready d" "8 \<le> Get_FlashSize d" "28 \<le> length pData"
    "\<not> (erased d (page_from_end d FLASH_APP_INFO_ADDR) \<and> erased d (page_from_end d FLASH_APP_INFO_ADDR + 1))"
    "pData ! 0 \<noteq> 0 \<or> pData ! 1 \<noteq> 0"
  shows "Flash_Storage_Header hw d pData = Some (d\<lparr>locked := False, sr := FLASH_ERROR_PG\<rparr>, 0)"
proof -
  let ?a = "page_from_end d FLASH_APP_INFO_ADDR"
  have u: "Flash_Unlock d = d\<lparr>locked := False, sr := FLASH_COMPLETE\<rparr>" using assms(2) by (rule Flash_Unlock_ready)
  have inf: "in_flash d ?a" using page_from_end_in_flash [of 4 d 0] assms(3) by simp
  have ev: "even ?a" using page_from_end_aligned(1) [of 4 d] assms(3) by presburger
  obtain w where w: "ArrayU8ToU32 pData 0 = Some w" "u32_bytes w = take 4 pData"
    using ArrayU8ToU32_bytes [of 0 pData] assms(4) by auto
  have "ucast w = pData ! 0 \<and> ucast (drop_bit 8 w) = pData ! 1"
    using arg_cong [OF w(2), of "\<lambda>xs. xs ! 0"] arg_cong [OF w(2), of "\<lambda>xs. xs ! 1"] assms(4)
    by (simp add: u32_bytes_def)
  then have "(ucast w :: u16) \<noteq> 0"
    using assms(6) halfword_bytes(1,2) [of w] by auto
  then have "hw_store hw (Flash_Unlock d) ?a (ucast w) = (Flash_Unlock d)\<lparr>sr := FLASH_ERROR_PG\<rparr>"
    using assms(5) inf ev by (subst nor_store_refused [OF assms(1)]) (simp_all add: u)
  then have "FLASH_ProgramWord hw (Flash_Unlock d) ?a w = (d\<lparr>locked := False, sr := FLASH_ERROR_PG\<rparr>, FLASH_ERROR_PG)"
    by (simp add: FLASH_ProgramWord_def u Let_def)
  moreover have "u32_add ?a 0 = ?a" using in_flash_less [OF inf] by (simp add: u32_simps)
  moreover have "(7 :: nat) = Suc 6" by simp
  ultimately have "header_words hw (Flash_Unlock d) ?a pData 0 7 = Some (d\<lparr>locked := False, sr := FLASH_ERROR_PG\<rparr>, False)"
    by (simp only: header_words.simps) (simp add: w(1))
  then show ?thesis by (simp add: Flash_Storage_Header_def)
qed

theorem Flash_Storage_Header_stale_witness:
  "\<exists>d'. Flash_Storage_Header nor_hw
     \<lparr>cells = \<lambda>_. 1, locked = True, sr = FLASH_COMPLETE, flash_kb = 256, chip_uid = []\<rparr> (replicate 28 2) = Some (d', 0) \<and>
   cells d' = (\<lambda>_. 1)"
  using Flash_Storage_Header_stale [OF nor_hw_is_nor, of
      "\<lparr>cells = \<lambda>_. 1, locked = True, sr = FLASH_COMPLETE, flash_kb = 256, chip_uid = []\<rparr>" "replicate 28 2"]
  by (simp add: ready_def Get_FlashSize_def erased_def)

text \<open>
  Fact.  The packed header \<open>iap_updata_param_type\<close> has 26 bytes, and
  \<open>Flash_Storage_Header\<close> copies seven words: on blank flash it reads behind the object it is given.
\<close>

theorem Flash_Storage_Header_overread:
  assumes "nor_flash hw" "ready d" "8 \<le> Get_FlashSize d" "length pData = 26"
    "blank d (page_from_end d FLASH_APP_INFO_ADDR) 28"
  shows "Flash_Storage_Header hw d pData = None"
proof -
  let ?a = "page_from_end d FLASH_APP_INFO_ADDR"
  have "header_words hw (Flash_Unlock d) ?a pData 0 (6 + Suc 0) = None"
    using page_from_end_aligned(1) [of 4 d] assms blank_sub [OF assms(5), of ?a 24]
    by (intro header_words_overread [where r = 2]) (auto simp: Flash_Unlock_ready)
  then show ?thesis by (simp add: Flash_Storage_Header_def)
qed

theorem Flash_Storage_Header_overread_witness:
  "Flash_Storage_Header nor_hw
     \<lparr>cells = \<lambda>_. 0xFF, locked = True, sr = FLASH_COMPLETE, flash_kb = 256, chip_uid = []\<rparr> (replicate 26 2) = None"
  using Flash_Storage_Header_overread [OF nor_hw_is_nor, of
      "\<lparr>cells = \<lambda>_. 0xFF, locked = True, sr = FLASH_COMPLETE, flash_kb = 256, chip_uid = []\<rparr>" "replicate 26 2"]
  by (simp add: ready_def Get_FlashSize_def erased_def blank_def in_flash_def page_from_end_exact)

end
