(* ===== verification/DevState.thy ===== *)
theory DevState imports Prelude FlashIf
begin

text \<open>
  The global state of the application firmware that the protocol handlers share: the parameter
  structures of \<open>drivers/iap_if.h\<close> and \<open>app/param.h\<close> with their packed memory layout, the network
  addresses, the variables of the two OTA sessions, the flash, and the trace of what the firmware
  sends and asks of the system (\<open>outbox\<close>).
\<close>

subsection \<open>Half-words in memory\<close>

definition u16_bytes :: "u16 \<Rightarrow> u8 list" where
  "u16_bytes w = [ucast w, ucast (drop_bit 8 w)]"

definition u16_of :: "u8 \<Rightarrow> u8 \<Rightarrow> u16" where
  "u16_of lo hi = push_bit 8 (ucast hi) OR ucast lo"

definition u16_at :: "u8 list \<Rightarrow> nat \<Rightarrow> u16" where
  "u16_at bs i = u16_of (bs ! i) (bs ! (i + 1))"

lemma length_u16_bytes [simp]: "length (u16_bytes w) = 2"
  by (simp add: u16_bytes_def)

lemma u16_of_bytes [simp]: "u16_of (ucast w) (ucast (drop_bit 8 w)) = w"
  unfolding u16_of_def
  by (rule bit_word_eqI) (auto simp: bitwise bit_simps not_le dest: bit_imp_le_length)

lemma u16_bytes_of [simp]: "u16_bytes (u16_of lo hi) = [lo, hi]"
  unfolding u16_of_def u16_bytes_def list.inject
  by (intro conjI; (rule refl)?) (rule bit_word_eqI; auto simp: bit_simps bitwise dest: bit_imp_le_length)+

subsection \<open>The parameter structures\<close>

record iap_param_type =
  Power_First_Flag :: u16
  ChipUniqueID :: "u16 list"
  swversion :: u16
  hwversion :: u16
  IAP_flag :: u16
  remoteID :: u16
  ID :: u16

record dev_param_type =
  Dev_Power_First_Flag :: u16
  mswork_mode :: u16
  version :: u16
  analog_dial_switch :: u8

record realtime_param_type =
  voltage :: u16
  current :: u16
  heartbeat_count :: u8
  can_debug_flag :: u8

record iap_updata_param_type =
  Version :: u16
  CompressFlag :: u16
  UpdatesTotalSize :: u32
  UpdatesSubSize :: u16
  UpdatesCRC32 :: u32
  ComPackOriginalSize :: u32
  ComPackNo :: u16
  PerComPackOriginalSize :: u16
  ComPackOriginalCRC32 :: u32

text \<open>The packed layouts: 24, 7 and 26 bytes.\<close>

definition iap_param_bytes :: "iap_param_type \<Rightarrow> u8 list" where
  "iap_param_bytes p = concat (map u16_bytes
     ([Power_First_Flag p] @ ChipUniqueID p @ [swversion p, hwversion p, IAP_flag p, remoteID p, ID p]))"

definition iap_param_of :: "u8 list \<Rightarrow> iap_param_type" where
  "iap_param_of bs = \<lparr>Power_First_Flag = u16_at bs 0,
     ChipUniqueID = [u16_at bs 2, u16_at bs 4, u16_at bs 6, u16_at bs 8, u16_at bs 10, u16_at bs 12],
     swversion = u16_at bs 14, hwversion = u16_at bs 16, IAP_flag = u16_at bs 18,
     remoteID = u16_at bs 20, ID = u16_at bs 22\<rparr>"

definition dev_param_bytes :: "dev_param_type \<Rightarrow> u8 list" where
  "dev_param_bytes p = u16_bytes (Dev_Power_First_Flag p) @ u16_bytes (mswork_mode p) @
     u16_bytes (version p) @ [analog_dial_switch p]"

definition dev_param_of :: "u8 list \<Rightarrow> dev_param_type" where
  "dev_param_of bs = \<lparr>Dev_Power_First_Flag = u16_at bs 0, mswork_mode = u16_at bs 2,
     version = u16_at bs 4, analog_dial_switch = bs ! 6\<rparr>"

abbreviation (input) sizeof_iap_param :: nat where "sizeof_iap_param \<equiv> 24"
abbreviation (input) sizeof_dev_param :: nat where "sizeof_dev_param \<equiv> 7"
abbreviation (input) sizeof_iap_updata_param :: nat where "sizeof_iap_updata_param \<equiv> 26"

lemma six_elements:
  assumes "length xs = 6"
  obtains a b c d e f where "xs = [a, b, c, d, e, f]"
  using assms by (auto simp: numeral_eq_Suc length_Suc_conv)

lemma iap_param_layout:
  assumes "length (ChipUniqueID p) = 6"
  shows "length (iap_param_bytes p) = sizeof_iap_param" "iap_param_of (iap_param_bytes p) = p"
proof -
  obtain a b c d e f where c: "ChipUniqueID p = [a, b, c, d, e, f]" using assms by (rule six_elements)
  show "length (iap_param_bytes p) = sizeof_iap_param" by (simp add: iap_param_bytes_def c)
  show "iap_param_of (iap_param_bytes p) = p"
    unfolding iap_param_bytes_def c by (simp add: iap_param_of_def u16_at_def u16_bytes_def c)
qed

lemma dev_param_layout [simp]:
  "length (dev_param_bytes p) = sizeof_dev_param" "dev_param_of (dev_param_bytes p) = p"
  by (simp_all add: dev_param_bytes_def dev_param_of_def u16_at_def u16_bytes_def)

subsection \<open>The state\<close>

datatype event =
    Can_send nat "u8 list"
  | Uart_send "u8 list"
  | Thread_delay nat
  | Hal_delay nat
  | System_reset

record can_ota_vars =
  OTA_UpdateFlag :: u8
  OTA_Version :: u16
  OTA_TotalSize :: u32
  OTA_SubSize :: u32
  OTA_CRC32 :: u32
  OTA_Frame_Num :: u16

record uart_ota_vars =
  U_OTA_UpdateFlag :: u8
  U_OTA_Version :: u16
  U_OTA_TotalSize :: u64
  U_OTA_SubSize :: u32
  U_OTA_CRC32 :: u64
  U_OTA_Frame_Num :: u16

record dev_state =
  flash :: flash_dev
  IAP_FLAG :: u64
  iap_param :: iap_param_type
  dev_param :: dev_param_type
  realtime_param :: realtime_param_type
  RT_LWIP :: "u8 list"
  Sys_Run_Time :: u32
  can_ota :: can_ota_vars
  uart_ota :: uart_ota_vars
  outbox :: "event list"

definition emit_event :: "event \<Rightarrow> dev_state \<Rightarrow> dev_state" where
  "emit_event e st = st\<lparr>outbox := outbox st @ [e]\<rparr>"

text \<open>The part of the state that the hardware fixes: six chip identifier half-words, a device with
  at least the pages that the layout counts from the end of the flash.\<close>

definition dev_ok :: "dev_state \<Rightarrow> bool" where
  "dev_ok st \<longleftrightarrow> ready (flash st) \<and> 128 \<le> Get_FlashSize (flash st) \<and> even (Get_FlashSize (flash st)) \<and>
     length (chip_uid (flash st)) = 6 \<and> length (ChipUniqueID (iap_param st)) = 6 \<and> length (RT_LWIP st) = 16"

end
