(* ===== verification/IapIf.thy ===== *)
theory IapIf imports Prelude FlashIf DevState
begin

text \<open>
  \<open>drivers/iap_if.c\<close>, \<open>app/param.c\<close> and \<open>general_app/manage_id.c\<close>: the boot mode flag and the
  parameters that survive a reset.  Each function takes the flash controller \<open>hw\<close> and the state and
  answers the new state; the printed messages are left out.
\<close>

subsection \<open>The boot mode flag\<close>

abbreviation (input) OTA_RUN_APP :: u64 where "OTA_RUN_APP \<equiv> 0xFFFFFFFFFFFFFFFF"
abbreviation (input) OTA_Update_APP :: u64 where "OTA_Update_APP \<equiv> 0xFFFF5678FFFF5678"
abbreviation (input) OTA_Force_Update_APP :: u64 where "OTA_Force_Update_APP \<equiv> 0x1234567812345678"

definition read_u64 :: "flash_dev \<Rightarrow> nat \<Rightarrow> u64" where
  "read_u64 d a = ucast (cells d a) + push_bit 8 (ucast (cells d (a + 1))) +
     push_bit 16 (ucast (cells d (a + 2))) + push_bit 24 (ucast (cells d (a + 3))) +
     push_bit 32 (ucast (cells d (a + 4))) + push_bit 40 (ucast (cells d (a + 5))) +
     push_bit 48 (ucast (cells d (a + 6))) + push_bit 56 (ucast (cells d (a + 7)))"

definition read_u16 :: "flash_dev \<Rightarrow> nat \<Rightarrow> u16" where
  "read_u16 d a = u16_of (cells d a) (cells d (a + 1))"

definition ReadIAPMode :: "flash_dev \<Rightarrow> u64" where
  "ReadIAPMode d = read_u64 d (page_from_end d FLASH_IAP_FLAG_ADDR)"

definition RunAppMode :: "flash_hw \<Rightarrow> dev_state \<Rightarrow> dev_state" where
  "RunAppMode hw st =
     (let addr = page_from_end (flash st) FLASH_IAP_FLAG_ADDR;
          d = Flash_Unlock (flash st);
          (d, _) = FLASH_ErasePage hw d addr
      in st\<lparr>IAP_FLAG := OTA_RUN_APP, flash := Flash_Lock d\<rparr>)"

definition UpdateAppMode :: "flash_hw \<Rightarrow> dev_state \<Rightarrow> dev_state" where
  "UpdateAppMode hw st =
     (let addr = page_from_end (flash st) FLASH_IAP_FLAG_ADDR;
          st = (if ReadIAPMode (flash st) \<noteq> OTA_RUN_APP then RunAppMode hw st else st);
          d = Flash_Unlock (flash st);
          flag = OTA_Update_APP;
          (d, _) = FLASH_ProgramWord hw d addr (ucast flag);
          (d, _) = FLASH_ProgramWord hw d (u32_add addr 2) (ucast (drop_bit 16 flag))
      in st\<lparr>IAP_FLAG := flag, flash := Flash_Lock d\<rparr>)"

definition ForceUpdateAppMode :: "flash_hw \<Rightarrow> dev_state \<Rightarrow> dev_state" where
  "ForceUpdateAppMode hw st =
     (let addr = page_from_end (flash st) FLASH_IAP_FLAG_ADDR;
          st = (if ReadIAPMode (flash st) \<noteq> OTA_RUN_APP \<or> ReadIAPMode (flash st) \<noteq> OTA_Update_APP
                then RunAppMode hw st else st);
          d = Flash_Unlock (flash st);
          flag = OTA_Force_Update_APP;
          (d, _) = FLASH_ProgramWord hw d addr (ucast flag);
          (d, _) = FLASH_ProgramWord hw d (u32_add addr 2) (ucast (drop_bit 16 flag))
      in st\<lparr>IAP_FLAG := flag, flash := Flash_Lock d\<rparr>)"

subsection \<open>The device parameters of iap_if.c\<close>

definition Get_ChipID :: "flash_dev \<Rightarrow> u16 list" where
  "Get_ChipID d = map (\<lambda>k. chip_uid d ! k) [0..<6]"

definition iap_param_save :: "flash_hw \<Rightarrow> dev_state \<Rightarrow> dev_state option" where
  "iap_param_save hw st = do {
     let addr = page_from_end (flash st) FLASH_IAP_PARAM_ADDR;
     let d = Flash_Unlock (flash st);
     let d = fst (FLASH_ErasePage hw d addr);
     (d, _) \<leftarrow> Flash_Write hw d addr (iap_param_bytes (iap_param st)) sizeof_iap_param;
     Some (st\<lparr>flash := Flash_Lock d\<rparr>) }"

definition iap_param_default :: "flash_hw \<Rightarrow> dev_state \<Rightarrow> dev_state option" where
  "iap_param_default hw st =
     iap_param_save hw (st\<lparr>iap_param := \<lparr>Power_First_Flag = 0x1234, ChipUniqueID = Get_ChipID (flash st),
       swversion = 1, hwversion = 1, IAP_flag = 1, remoteID = 0, ID = 0xFFFF\<rparr>\<rparr>)"

definition iap_param_load :: "flash_hw \<Rightarrow> dev_state \<Rightarrow> dev_state option" where
  "iap_param_load hw st = do {
     let addr = page_from_end (flash st) FLASH_IAP_PARAM_ADDR;
     let st = st\<lparr>iap_param := (iap_param st)\<lparr>Power_First_Flag := read_u16 (flash st) addr\<rparr>\<rparr>;
     st \<leftarrow> (if Power_First_Flag (iap_param st) \<noteq> 0x1234 then iap_param_default hw st else Some st);
     (buf, _) \<leftarrow> Flash_Read (flash st) addr (replicate sizeof_iap_param 0) sizeof_iap_param;
     Some (st\<lparr>iap_param := (iap_param_of buf)\<lparr>IAP_flag := 2\<rparr>\<rparr>) }"

subsection \<open>The application parameters of param.c\<close>

fun program_halfwords :: "flash_hw \<Rightarrow> flash_dev \<Rightarrow> nat \<Rightarrow> u8 list \<Rightarrow> flash_dev" where
  "program_halfwords hw d addr [] = d"
| "program_halfwords hw d addr (x # xs) =
     program_halfwords hw (fst (FLASH_ProgramHalfWord hw d addr (ucast x))) (u32_add addr 2) xs"

definition stm32_param_save :: "flash_hw \<Rightarrow> dev_state \<Rightarrow> dev_state option" where
  "stm32_param_save hw st = do {
     let addr = page_from_end (flash st) FLASH_APP_PARAM_ADDR;
     let d = Flash_Unlock (flash st);
     let d = fst (FLASH_ErasePage hw d addr);
     let d = program_halfwords hw d addr (RT_LWIP st);
     (d, _) \<leftarrow> Flash_Write hw d (u32_add addr (2 * length (RT_LWIP st)))
                  (dev_param_bytes (dev_param st)) sizeof_dev_param;
     Some (st\<lparr>flash := Flash_Lock d\<rparr>) }"

definition stm32_param_default :: "flash_hw \<Rightarrow> dev_state \<Rightarrow> dev_state option" where
  "stm32_param_default hw st =
     stm32_param_save hw (st\<lparr>
       RT_LWIP := [192, 168, 1, 100,  255, 255, 255, 0,  192, 168, 1, 1,  192, 168, 1, 1],
       dev_param := \<lparr>Dev_Power_First_Flag = 0x4321, mswork_mode = 0, version = 1, analog_dial_switch = 0\<rparr>\<rparr>)"

definition realtime_param_init :: "dev_state \<Rightarrow> dev_state" where
  "realtime_param_init st =
     st\<lparr>realtime_param := \<lparr>voltage = 0, current = 0, heartbeat_count = 0, can_debug_flag = 0\<rparr>\<rparr>"

text \<open>The board is chosen by a macro of the project; \<open>None\<close> when none of them is defined.\<close>

datatype board = SCU | DCG | RCG | PMU | PXU | GNSS | ACCG | BMLG | MLDG | WSG | OAG | DWSM | OWSM

fun board_base :: "board \<Rightarrow> u16" where
  "board_base SCU = 0x0101" | "board_base DCG = 0x0201" | "board_base RCG = 0x0301"
| "board_base PMU = 0x0401" | "board_base PXU = 0x0501" | "board_base GNSS = 0x0601"
| "board_base ACCG = 0x0701" | "board_base BMLG = 0x0801" | "board_base MLDG = 0x0901"
| "board_base WSG = 0x0A01" | "board_base OAG = 0x0B01" | "board_base DWSM = 0x0C01"
| "board_base OWSM = 0x0D01"

definition board_slave_increase :: "board \<Rightarrow> u16" where
  "board_slave_increase b = (if b \<in> {PXU, ACCG, BMLG, MLDG, OAG, DWSM, OWSM} then 2 else 1)"

definition device_id_set :: "board option \<Rightarrow> dev_state \<Rightarrow> dev_state" where
  "device_id_set board st =
     (case board of None \<Rightarrow> st
      | Some b \<Rightarrow>
          let dial_switch_flag = ucast (analog_dial_switch (dev_param st));
              id_increase = (if mswork_mode (dev_param st) = 0 then 0 else board_slave_increase b)
          in st\<lparr>iap_param := (iap_param st)\<lparr>ID := board_base b + dial_switch_flag + id_increase\<rparr>\<rparr>)"

definition stm32_param_load :: "flash_hw \<Rightarrow> board option \<Rightarrow> dev_state \<Rightarrow> dev_state option" where
  "stm32_param_load hw board st = do {
     let addr = page_from_end (flash st) FLASH_APP_PARAM_ADDR;
     let st = st\<lparr>dev_param := (dev_param st)\<lparr>Dev_Power_First_Flag := read_u16 (flash st) addr\<rparr>\<rparr>;
     st \<leftarrow> (if Dev_Power_First_Flag (dev_param st) \<noteq> 0x4321 then stm32_param_default hw st else Some st);
     let st = st\<lparr>RT_LWIP := map (\<lambda>k. ucast (read_u16 (flash st) (addr + 2 * k))) [0..<16]\<rparr>;
     (buf, _) \<leftarrow> Flash_Read (flash st) (addr + 32) (replicate sizeof_dev_param 0) sizeof_dev_param;
     let st = st\<lparr>dev_param := dev_param_of buf\<rparr>;
     st \<leftarrow> iap_param_load hw st;
     Some (device_id_set board (realtime_param_init st)) }"

subsection \<open>Erasing and rewriting a parameter page\<close>

lemma page_facts:
  assumes "dev_ok st" "0 < k" "k \<le> 60"
  defines "A \<equiv> page_from_end (flash st) k"
  shows "A mod 4 = 0" "A mod FLASH_PAGE_SIZE = 0" "\<And>b. b < FLASH_PAGE_SIZE \<Longrightarrow> in_flash (flash st) (A + b)"
    "ready (flash st)" "A + FLASH_PAGE_SIZE < U32_RANGE"
proof -
  have s: "2 * k \<le> Get_FlashSize (flash st)" "even (Get_FlashSize (flash st))" "ready (flash st)"
    using assms by (auto simp: dev_ok_def)
  then show "A mod 4 = 0" "A mod FLASH_PAGE_SIZE = 0" "ready (flash st)"
    using page_from_end_aligned by (auto simp: A_def)
  show inf: "in_flash (flash st) (A + b)" if "b < FLASH_PAGE_SIZE" for b
    using page_from_end_in_flash [OF s(1), of b] that assms(2) by (cases k) (auto simp: A_def)
  show "A + FLASH_PAGE_SIZE < U32_RANGE" using in_flash_less [OF inf [of 0]] by simp
qed

lemma wiped_blank:
  "(\<And>b. b < n \<Longrightarrow> in_flash d (a + b)) \<Longrightarrow> k \<le> n \<Longrightarrow> blank (d\<lparr>cells := wipe (cells d) a n\<rparr>) a k"
  by (auto simp: blank_def erased_def wipe_def dest: le_Suc_ex)

lemma erase_param_page:
  assumes "nor_flash hw" "dev_ok st" "0 < k" "k \<le> 60"
  defines "A \<equiv> page_from_end (flash st) k"
  shows "FLASH_ErasePage hw (Flash_Unlock (flash st)) A =
    ((flash st)\<lparr>locked := False, sr := FLASH_COMPLETE, cells := wipe (cells (flash st)) A FLASH_PAGE_SIZE\<rparr>, FLASH_COMPLETE)"
  using FLASH_ErasePage_wipe [OF assms(1), of "Flash_Unlock (flash st)" A]
    page_facts(2) [OF assms(2-4)] page_facts(3) [OF assms(2-4), of 0] page_facts(4) [OF assms(2-4)]
  by (simp add: Flash_Unlock_ready A_def)

lemma rewrite_param_page:
  assumes "nor_flash hw" "dev_ok st" "0 < k" "k \<le> 60" "length bs \<le> 2000"
  defines "A \<equiv> page_from_end (flash st) k"
  shows "Flash_Write hw (fst (FLASH_ErasePage hw (Flash_Unlock (flash st)) A)) A bs (length bs) =
    Some ((flash st)\<lparr>locked := True, sr := FLASH_COMPLETE,
            cells := put (wipe (cells (flash st)) A FLASH_PAGE_SIZE) A bs\<rparr>, length bs)"
proof -
  let ?d = "(flash st)\<lparr>locked := False, sr := FLASH_COMPLETE, cells := wipe (cells (flash st)) A FLASH_PAGE_SIZE\<rparr>"
  note facts = page_facts [OF assms(2-4), folded A_def]
  have "4 * ((length bs + 3) div 4) \<le> FLASH_PAGE_SIZE" using assms(5) by linarith
  then have "blank ((flash st)\<lparr>cells := wipe (cells (flash st)) A FLASH_PAGE_SIZE\<rparr>) A (4 * ((length bs + 3) div 4))"
    using facts(3) by (intro wiped_blank) auto
  then have b: "blank ?d A (4 * ((length bs + 3) div 4))" by (simp add: blank_def erased_def in_flash_def Get_FlashSize_def)
  show ?thesis
    using Flash_Write_blank [OF assms(1) facts(1) order_refl _ b]
    unfolding erase_param_page [OF assms(1-4), folded A_def] by (simp add: ready_def)
qed

subsection \<open>The mode flag\<close>

lemma add_byte:
  assumes "unat (x :: u64) < 2 ^ n" "n \<le> 56"
  shows "unat (x + push_bit n (ucast (b :: u8))) = unat x + 2 ^ n * unat b"
    and "unat x + 2 ^ n * unat b < 2 ^ (n + 8)"
proof -
  have b: "unat b \<le> 255" by (rule unat_u8_le)
  then have m: "2 ^ n * unat b \<le> 2 ^ n * 255" by simp
  have "(2 :: nat) ^ (n + 8) = 2 ^ n * 256" by (simp add: power_add)
  then show sum: "unat x + 2 ^ n * unat b < 2 ^ (n + 8)" using assms(1) m by linarith
  have "(2 :: nat) ^ (n + 8) \<le> 2 ^ 64" using assms(2) by (intro power_increasing) auto
  then have lt: "unat x + 2 ^ n * unat b < 2 ^ 64" using sum by (rule less_le_trans [rotated])
  then have p: "unat b * 2 ^ n < 2 ^ 64" by (simp add: mult.commute)
  have "unat (ucast b :: u64) = unat b mod 2 ^ 64" by (simp only: unat_ucast len_of_numeral_defs) simp
  then have "unat (ucast b :: u64) = unat b" using b by simp
  then have "unat (push_bit n (ucast b) :: u64) = (unat b * 2 ^ n) mod 2 ^ 64"
    by (simp only: unat_push_bit len_of_numeral_defs) simp
  then have "unat (push_bit n (ucast b) :: u64) = 2 ^ n * unat b"
    using p by (simp add: mult.commute)
  then show "unat (x + push_bit n (ucast b)) = unat x + 2 ^ n * unat b"
    using lt by (simp add: unat_word_ariths)
qed

lemma add_byte_chain:
  "unat (x :: u64) = v \<and> v < 2 ^ n \<Longrightarrow> n \<le> 56 \<Longrightarrow> m = n + 8 \<Longrightarrow>
   unat (x + push_bit n (ucast (b :: u8))) = v + 2 ^ n * unat b \<and> v + 2 ^ n * unat b < 2 ^ m"
  using add_byte [of x n b] by simp

lemma read_u64_value:
  "unat (read_u64 d a) = unat (cells d a) + 2 ^ 8 * unat (cells d (a + 1)) +
     2 ^ 16 * unat (cells d (a + 2)) + 2 ^ 24 * unat (cells d (a + 3)) + 2 ^ 32 * unat (cells d (a + 4)) +
     2 ^ 40 * unat (cells d (a + 5)) + 2 ^ 48 * unat (cells d (a + 6)) + 2 ^ 56 * unat (cells d (a + 7))"
proof -
  have "unat (ucast (cells d a) :: u64) = unat (cells d a) mod 2 ^ 64"
    by (simp only: unat_ucast len_of_numeral_defs) simp
  then have "unat (ucast (cells d a) :: u64) = unat (cells d a) \<and> unat (cells d a) < 2 ^ 8"
    using unat_u8_less [of "cells d a"] by simp
  note c = this
  note c = add_byte_chain [OF c, of 16 "cells d (a + 1)"]
  note c = add_byte_chain [OF c, of 24 "cells d (a + 2)"]
  note c = add_byte_chain [OF c, of 32 "cells d (a + 3)"]
  note c = add_byte_chain [OF c, of 40 "cells d (a + 4)"]
  note c = add_byte_chain [OF c, of 48 "cells d (a + 5)"]
  note c = add_byte_chain [OF c, of 56 "cells d (a + 6)"]
  note c = add_byte_chain [OF c, of 64 "cells d (a + 7)"]
  show ?thesis unfolding read_u64_def by (rule conjunct1 [OF c]) simp_all
qed

lemma all_bytes_ones:
  fixes b0 b1 b2 b3 b4 b5 b6 b7 :: nat
  assumes "b0 + 2 ^ 8 * b1 + 2 ^ 16 * b2 + 2 ^ 24 * b3 + 2 ^ 32 * b4 + 2 ^ 40 * b5 + 2 ^ 48 * b6 + 2 ^ 56 * b7 =
    18446744073709551615"
    and "b0 \<le> 255" "b1 \<le> 255" "b2 \<le> 255" "b3 \<le> 255" "b4 \<le> 255" "b5 \<le> 255" "b6 \<le> 255" "b7 \<le> 255"
  shows "b0 = 255" "b1 = 255" "b2 = 255" "b3 = 255" "b4 = 255" "b5 = 255" "b6 = 255" "b7 = 255"
proof -
  note full = assms(1) [simplified]
  have "255 \<le> b0" "255 \<le> b1" "255 \<le> b2" "255 \<le> b3" "255 \<le> b4" "255 \<le> b5" "255 \<le> b6" "255 \<le> b7"
    using full assms(2-9) by linarith+
  then show "b0 = 255" "b1 = 255" "b2 = 255" "b3 = 255" "b4 = 255" "b5 = 255" "b6 = 255" "b7 = 255"
    using assms(2-9) by (auto intro: le_antisym)
qed

lemma read_u64_blank:
  assumes "read_u64 d a = OTA_RUN_APP" "\<And>b. b < 8 \<Longrightarrow> in_flash d (a + b)"
  shows "blank d a 8"
proof -
  have full: "unat (cells d a) + 2 ^ 8 * unat (cells d (a + 1)) +
     2 ^ 16 * unat (cells d (a + 2)) + 2 ^ 24 * unat (cells d (a + 3)) + 2 ^ 32 * unat (cells d (a + 4)) +
     2 ^ 40 * unat (cells d (a + 5)) + 2 ^ 48 * unat (cells d (a + 6)) + 2 ^ 56 * unat (cells d (a + 7)) =
     18446744073709551615"
    using read_u64_value [of d a] unfolding assms(1) by simp
  have le: "unat (cells d (a + k)) \<le> 255" for k by (rule unat_u8_le)
  have le0: "unat (cells d a) \<le> 255" by (rule unat_u8_le)
  note ones = all_bytes_ones [OF full le0 le le le le le le le]
  have "unat (cells d (a + k)) = 255" if "k < 8" for k
    using eight_cases [OF that] ones by (elim disjE) simp_all
  then have "unat (cells d (a + k)) = unat (0xFF :: u8)" if "k < 8" for k
    using that by simp
  then have "cells d (a + k) = 0xFF" if "k < 8" for k using that by (simp only: unsigned_word_eqI word_unat_eq_iff)
  then show ?thesis using assms(2) by (auto simp: blank_def erased_def dest!: le_Suc_ex)
qed

lemma run_mode_flash:
  assumes "nor_flash hw" "dev_ok st"
  defines "A \<equiv> page_from_end (flash st) FLASH_IAP_FLAG_ADDR"
  shows "flash (RunAppMode hw st) = (flash st)\<lparr>locked := True, sr := FLASH_COMPLETE,
           cells := wipe (cells (flash st)) A FLASH_PAGE_SIZE\<rparr>"
proof -
  have "FLASH_ErasePage hw (Flash_Unlock (flash st)) A =
      ((flash st)\<lparr>locked := False, sr := FLASH_COMPLETE, cells := wipe (cells (flash st)) A FLASH_PAGE_SIZE\<rparr>, FLASH_COMPLETE)"
    unfolding A_def by (rule erase_param_page [OF assms(1,2)]) simp_all
  then show ?thesis unfolding RunAppMode_def Let_def A_def [symmetric] by (simp add: Flash_Lock_def)
qed

text \<open>The common second half of the two update modes: the flag page is blank for eight bytes.\<close>

lemma page_from_end_cells [simp]:
  "page_from_end (d\<lparr>cells := m\<rparr>) = page_from_end d" "page_from_end (d\<lparr>locked := l\<rparr>) = page_from_end d"
  "page_from_end (d\<lparr>sr := s\<rparr>) = page_from_end d"
  by (simp_all add: fun_eq_iff page_from_end_def Get_FlashSize_def)

lemma UpdateAppMode_from_blank:
  assumes "nor_flash hw" "ready d" "even a" "blank d a 8"
  shows "\<exists>d1 d2. FLASH_ProgramWord hw (Flash_Unlock d) a (ucast OTA_Update_APP) = (d1, FLASH_COMPLETE) \<and>
    FLASH_ProgramWord hw d1 (u32_add a 2) (ucast (drop_bit 16 OTA_Update_APP)) = (d2, FLASH_COMPLETE) \<and>
    d2 = d\<lparr>locked := False, sr := FLASH_COMPLETE, cells := put (cells d) a [0x78, 0x56, 0xFF, 0xFF, 0x78, 0x56]\<rparr>"
proof -
  let ?d0 = "d\<lparr>locked := False, sr := FLASH_COMPLETE\<rparr>"
  let ?m1 = "put (cells d) a [0x78, 0x56, 0xFF, 0xFF]"
  let ?d1 = "?d0\<lparr>cells := ?m1\<rparr>"
  have u: "Flash_Unlock d = ?d0" using assms(2) by (rule Flash_Unlock_ready)
  have w1: "u32_bytes (ucast OTA_Update_APP) = [0x78, 0x56, 0xFF, 0xFF]"
    and w2: "u32_bytes (ucast (drop_bit 16 OTA_Update_APP)) = [0xFF, 0xFF, 0x78, 0x56]"
    by (simp_all add: u32_bytes_def)
  have "blank ?d0 a 4" using assms(4) by (auto intro: blank_sub)
  then have p1: "FLASH_ProgramWord hw ?d0 a (ucast OTA_Update_APP) = (?d1, FLASH_COMPLETE)"
    using FLASH_ProgramWord_blank [OF assms(1), of ?d0 a "ucast OTA_Update_APP"] assms(3) unfolding w1 by simp
  have inf: "in_flash d a" using assms(4) by (auto simp: blank_def)
  then have a2: "u32_add a 2 = a + 2" using in_flash_less by (intro u32_add_exact) force
  have "blank ?d1 (a + 2) 4"
    using assms(4) by (auto simp: blank_def erased_def put_def nth_Cons' in_flash_def Get_FlashSize_def)
  then have p2: "FLASH_ProgramWord hw ?d1 (a + 2) (ucast (drop_bit 16 OTA_Update_APP)) =
      (?d1\<lparr>cells := put ?m1 (a + 2) [0xFF, 0xFF, 0x78, 0x56]\<rparr>, FLASH_COMPLETE)"
    using FLASH_ProgramWord_blank [OF assms(1), of ?d1 "a + 2" "ucast (drop_bit 16 OTA_Update_APP)"] assms(3)
    unfolding w2 by simp
  have "put ?m1 (a + 2) [0xFF, 0xFF, 0x78, 0x56] = put (cells d) a [0x78, 0x56, 0xFF, 0xFF, 0x78, 0x56]"
    by (rule ext) (auto simp: put_def nth_Cons')
  then show ?thesis using p1 p2 by (simp add: u a2)
qed

lemma ForceUpdateAppMode_from_blank:
  assumes "nor_flash hw" "ready d" "even a" "blank d a 8"
  shows "\<exists>d1 d2 s. FLASH_ProgramWord hw (Flash_Unlock d) a (ucast OTA_Force_Update_APP) = (d1, FLASH_COMPLETE) \<and>
    FLASH_ProgramWord hw d1 (u32_add a 2) (ucast (drop_bit 16 OTA_Force_Update_APP)) = (d2, s) \<and>
    d2 = d\<lparr>locked := False, sr := FLASH_ERROR_PG, cells := put (cells d) a [0x78, 0x56, 0x34, 0x12]\<rparr>"
proof -
  let ?d0 = "d\<lparr>locked := False, sr := FLASH_COMPLETE\<rparr>"
  let ?d1 = "?d0\<lparr>cells := put (cells d) a [0x78, 0x56, 0x34, 0x12]\<rparr>"
  have u: "Flash_Unlock d = ?d0" using assms(2) by (rule Flash_Unlock_ready)
  have w1: "u32_bytes (ucast OTA_Force_Update_APP) = [0x78, 0x56, 0x34, 0x12]"
    by (simp add: u32_bytes_def)
  have "blank ?d0 a 4" using assms(4) by (auto intro: blank_sub)
  then have p1: "FLASH_ProgramWord hw ?d0 a (ucast OTA_Force_Update_APP) = (?d1, FLASH_COMPLETE)"
    using FLASH_ProgramWord_blank [OF assms(1), of ?d0 a "ucast OTA_Force_Update_APP"] assms(3) unfolding w1 by simp
  have inf: "in_flash d a" "in_flash d (a + 2)" using assms(4) by (auto simp: blank_def)
  have a2: "u32_add a 2 = a + 2" using in_flash_less [OF inf(1)] by (intro u32_add_exact) simp
  have "\<not> erased ?d1 (a + 2)" by (simp add: erased_def put_def)
  moreover have "(ucast (ucast (drop_bit 16 OTA_Force_Update_APP) :: u32) :: u16) \<noteq> 0" by simp
  ultimately have "hw_store hw ?d1 (a + 2) (ucast (ucast (drop_bit 16 OTA_Force_Update_APP) :: u32)) =
      ?d1\<lparr>sr := FLASH_ERROR_PG\<rparr>"
    using assms(3) inf(2) by (intro nor_store_refused assms(1)) auto
  then have "FLASH_ProgramWord hw ?d1 (a + 2) (ucast (drop_bit 16 OTA_Force_Update_APP)) =
      (?d1\<lparr>sr := FLASH_ERROR_PG\<rparr>, FLASH_ERROR_PG)"
    by (simp add: FLASH_ProgramWord_def Let_def)
  then show ?thesis using p1 by (simp add: u a2)
qed

text \<open>The flag page after the optional erase: blank for the flag, and nothing else changed.\<close>

lemma dev_ok_flash:
  assumes "dev_ok st" "flash st' = (flash st)\<lparr>locked := l, sr := FLASH_COMPLETE, cells := m\<rparr>"
    "length (ChipUniqueID (iap_param st')) = 6" "length (RT_LWIP st') = 16"
  shows "dev_ok st'"
  using assms by (simp add: dev_ok_def ready_def Get_FlashSize_def)

lemma wiped_page_blank:
  assumes "dev_ok st" "0 < k" "k \<le> 60" "n \<le> FLASH_PAGE_SIZE"
  defines "A \<equiv> page_from_end (flash st) k"
  shows "blank ((flash st)\<lparr>locked := l, sr := s, cells := wipe (cells (flash st)) A FLASH_PAGE_SIZE\<rparr>) A n"
proof -
  have "blank ((flash st)\<lparr>cells := wipe (cells (flash st)) A FLASH_PAGE_SIZE\<rparr>) A n"
    using page_facts(3) [OF assms(1-3), folded A_def] assms(4) by (intro wiped_blank)
  then show ?thesis by (simp add: blank_def erased_def in_flash_def Get_FlashSize_def)
qed

lemma UpdateAppMode_flash:
  assumes "nor_flash hw" "dev_ok st"
  shows "ReadIAPMode (flash (UpdateAppMode hw st)) = OTA_Update_APP \<and>
    (\<forall>b. b < page_from_end (flash st) FLASH_IAP_FLAG_ADDR \<or>
         page_from_end (flash st) FLASH_IAP_FLAG_ADDR + FLASH_PAGE_SIZE \<le> b \<longrightarrow>
         cells (flash (UpdateAppMode hw st)) b = cells (flash st) b) \<and>
    (\<exists>m. flash (UpdateAppMode hw st) = (flash st)\<lparr>locked := True, sr := FLASH_COMPLETE, cells := m\<rparr>)"
proof -
  define a where "a = page_from_end (flash st) FLASH_IAP_FLAG_ADDR"
  define st1 where "st1 = (if ReadIAPMode (flash st) \<noteq> OTA_RUN_APP then RunAppMode hw st else st)"
  note facts = page_facts [OF assms(2), of 1, simplified, folded One_nat_def, folded a_def]
  have "ready (flash st1) \<and> blank (flash st1) a 8 \<and> page_from_end (flash st1) = page_from_end (flash st) \<and>
      (\<forall>b. b < a \<or> a + FLASH_PAGE_SIZE \<le> b \<longrightarrow> cells (flash st1) b = cells (flash st) b)"
  proof (cases "ReadIAPMode (flash st) = OTA_RUN_APP")
    case True
    then have "blank (flash st) a 8"
      using read_u64_blank [of "flash st" a] facts(3) by (simp add: ReadIAPMode_def a_def)
    then show ?thesis using True facts(4) by (simp add: st1_def)
  next
    case False
    then have f: "flash st1 = (flash st)\<lparr>locked := True, sr := FLASH_COMPLETE,
        cells := wipe (cells (flash st)) a FLASH_PAGE_SIZE\<rparr>"
      using run_mode_flash [OF assms] by (simp add: st1_def a_def)
    have "blank (flash st1) a 8"
      unfolding f a_def by (rule wiped_page_blank) (use assms in auto)
    then show ?thesis by (auto simp: f ready_def wipe_def)
  qed
  note s1 = this
  have ev: "even a" using facts(1) by presburger
  obtain d1 d2 where p: "FLASH_ProgramWord hw (Flash_Unlock (flash st1)) a (ucast OTA_Update_APP) = (d1, FLASH_COMPLETE)"
    "FLASH_ProgramWord hw d1 (u32_add a 2) (ucast (drop_bit 16 OTA_Update_APP)) = (d2, FLASH_COMPLETE)"
    "d2 = (flash st1)\<lparr>locked := False, sr := FLASH_COMPLETE,
        cells := put (cells (flash st1)) a [0x78, 0x56, 0xFF, 0xFF, 0x78, 0x56]\<rparr>"
    using UpdateAppMode_from_blank [OF assms(1) _ ev, of "flash st1"] s1 by blast
  have res: "flash (UpdateAppMode hw st) = Flash_Lock d2"
    unfolding UpdateAppMode_def Let_def a_def [symmetric] st1_def [symmetric] by (simp only: p prod.case dev_state.simps) simp
  have "cells (flash st1) (a + 6) = 0xFF" "cells (flash st1) (a + 7) = 0xFF"
    using s1 by (auto simp: blank_def erased_def)
  then have "read_u64 (Flash_Lock d2) a = OTA_Update_APP"
    by (simp add: read_u64_def p(3) Flash_Lock_def put_def)
  moreover have pg: "page_from_end (Flash_Lock d2) = page_from_end (flash st)"
    using s1 by (simp add: p(3) Flash_Lock_def)
  ultimately have "ReadIAPMode (Flash_Lock d2) = OTA_Update_APP"
    unfolding ReadIAPMode_def pg a_def [symmetric] by simp
  moreover have "\<forall>b. b < a \<or> a + FLASH_PAGE_SIZE \<le> b \<longrightarrow> cells (Flash_Lock d2) b = cells (flash st) b"
    using s1 by (auto simp: p(3) Flash_Lock_def put_def)
  moreover have "\<exists>m. Flash_Lock d2 = (flash st)\<lparr>locked := True, sr := FLASH_COMPLETE, cells := m\<rparr>"
    by (intro exI [of _ "cells d2"]) (simp add: p(3) Flash_Lock_def st1_def run_mode_flash [OF assms])
  ultimately show ?thesis unfolding res a_def [symmetric] by blast
qed

lemma UpdateAppMode_result:
  assumes "nor_flash hw" "dev_ok st"
  shows "ReadIAPMode (flash (UpdateAppMode hw st)) = OTA_Update_APP \<and>
    (\<forall>b. b < page_from_end (flash st) FLASH_IAP_FLAG_ADDR \<or>
         page_from_end (flash st) FLASH_IAP_FLAG_ADDR + FLASH_PAGE_SIZE \<le> b \<longrightarrow>
         cells (flash (UpdateAppMode hw st)) b = cells (flash st) b)"
  using UpdateAppMode_flash [OF assms] by blast

text \<open>
  Fact.  \<open>UpdateAppMode\<close> leaves the update flag readable from any earlier flag, and programs or
  erases nothing outside the flag page.
\<close>

theorem UpdateAppMode_sets_flag:
  assumes "nor_flash hw" "dev_ok st"
  shows "ReadIAPMode (flash (UpdateAppMode hw st)) = OTA_Update_APP \<and>
    (\<forall>b. b < page_from_end (flash st) FLASH_IAP_FLAG_ADDR \<or>
         page_from_end (flash st) FLASH_IAP_FLAG_ADDR + FLASH_PAGE_SIZE \<le> b \<longrightarrow>
         cells (flash (UpdateAppMode hw st)) b = cells (flash st) b)"
  using assms by (rule UpdateAppMode_result)


text \<open>
  Fact.  \<open>ForceUpdateAppMode\<close> never leaves the forced-update flag: its second store starts at
  a half-word that the first one programmed, is refused, and the flag reads \<open>0xFFFFFFFF12345678\<close>,
  which is none of the three modes.
\<close>

theorem ForceUpdateAppMode_flag:
  assumes "nor_flash hw" "dev_ok st"
  shows "ReadIAPMode (flash (ForceUpdateAppMode hw st)) = 0xFFFFFFFF12345678"
proof -
  define a where "a = page_from_end (flash st) FLASH_IAP_FLAG_ADDR"
  define st1 where "st1 = RunAppMode hw st"
  note facts = page_facts [OF assms(2), of 1, simplified, folded One_nat_def, folded a_def]
  have f: "flash st1 = (flash st)\<lparr>locked := True, sr := FLASH_COMPLETE,
      cells := wipe (cells (flash st)) a FLASH_PAGE_SIZE\<rparr>"
    using run_mode_flash [OF assms] by (simp add: st1_def a_def)
  have b: "blank (flash st1) a 8"
    unfolding f a_def by (rule wiped_page_blank) (use assms in auto)
  have r: "ready (flash st1)" by (simp add: f ready_def)
  have ev: "even a" using facts(1) by presburger
  obtain d1 d2 s where p: "FLASH_ProgramWord hw (Flash_Unlock (flash st1)) a (ucast OTA_Force_Update_APP) = (d1, FLASH_COMPLETE)"
    "FLASH_ProgramWord hw d1 (u32_add a 2) (ucast (drop_bit 16 OTA_Force_Update_APP)) = (d2, s)"
    "d2 = (flash st1)\<lparr>locked := False, sr := FLASH_ERROR_PG, cells := put (cells (flash st1)) a [0x78, 0x56, 0x34, 0x12]\<rparr>"
    using ForceUpdateAppMode_from_blank [OF assms(1) r ev b] by blast
  have either: "ReadIAPMode (flash st) \<noteq> OTA_RUN_APP \<or> ReadIAPMode (flash st) \<noteq> OTA_Update_APP" by auto
  have res: "flash (ForceUpdateAppMode hw st) = Flash_Lock d2"
    unfolding ForceUpdateAppMode_def Let_def a_def [symmetric] if_P [OF either] st1_def [symmetric]
    by (simp only: p prod.case dev_state.simps) simp
  have "cells (flash st1) (a + 4) = 0xFF" "cells (flash st1) (a + 5) = 0xFF"
    "cells (flash st1) (a + 6) = 0xFF" "cells (flash st1) (a + 7) = 0xFF"
    using b by (auto simp: blank_def erased_def)
  then have "read_u64 (Flash_Lock d2) a = 0xFFFFFFFF12345678"
    by (simp add: read_u64_def p(3) Flash_Lock_def put_def)
  moreover have pg: "page_from_end (Flash_Lock d2) = page_from_end (flash st)"
    by (simp add: p(3) Flash_Lock_def f)
  ultimately show ?thesis unfolding res ReadIAPMode_def pg a_def [symmetric] by simp
qed

subsection \<open>Parameters across a reset\<close>

lemma iap_param_save_flash:
  assumes "nor_flash hw" "dev_ok st"
  defines "A \<equiv> page_from_end (flash st) FLASH_IAP_PARAM_ADDR"
  shows "iap_param_save hw st = Some (st\<lparr>flash := (flash st)\<lparr>locked := True, sr := FLASH_COMPLETE,
     cells := put (wipe (cells (flash st)) A FLASH_PAGE_SIZE) A (iap_param_bytes (iap_param st))\<rparr>\<rparr>)"
proof -
  have n: "length (iap_param_bytes (iap_param st)) = sizeof_iap_param"
    using assms(2) iap_param_layout(1) by (simp add: dev_ok_def)
  show ?thesis
    using rewrite_param_page [OF assms(1,2), of 2 "iap_param_bytes (iap_param st)", unfolded n, folded A_def]
    unfolding iap_param_save_def Let_def A_def [symmetric] by (simp add: Flash_Lock_def)
qed

lemma Flash_Read_all:
  "length buf = n \<Longrightarrow> Flash_Read d a buf n = Some (map (cells d) [a..<a + n], n)"
  by (simp add: Flash_Read_def memcpy_def)

lemma u16_at_cells: "u16_at (map (cells d) [a..<a + n]) k = read_u16 d (a + k)" if "k + 1 < n"
  using that by (simp add: u16_at_def read_u16_def)

lemma put_read_at: "length bs = n \<Longrightarrow> map (put m a bs) [a..<a + n] = bs"
  using put_read [of m a bs] by simp

lemma iap_param_load_saved:
  assumes "iap_param_of (map (cells (flash st)) [A..<A + sizeof_iap_param]) = p"
    "A = page_from_end (flash st) FLASH_IAP_PARAM_ADDR" "Power_First_Flag p = 0x1234"
  shows "iap_param_load hw st = Some (st\<lparr>iap_param := p\<lparr>IAP_flag := 2\<rparr>\<rparr>)"
proof -
  have "read_u16 (flash st) A = Power_First_Flag p"
    unfolding assms(1) [symmetric] iap_param_of_def using u16_at_cells [of 0 24 "flash st" A] by simp
  then have r: "read_u16 (flash st) A = 0x1234" using assms(3) by simp
  show ?thesis
    unfolding iap_param_load_def Let_def assms(2) [symmetric] r
    by (simp add: Flash_Read_all assms(1))
qed

lemma FLASH_ProgramHalfWord_blank:
  assumes "nor_flash hw" "unlocked d" "even a" "blank d a 2"
  shows "FLASH_ProgramHalfWord hw d a (ucast (x :: u8)) = (d\<lparr>cells := put (cells d) a [x, 0]\<rparr>, FLASH_COMPLETE)"
proof -
  have "(ucast (ucast x :: u16) :: u8) = x" "(ucast (drop_bit 8 (ucast x :: u16)) :: u8) = 0"
    by (rule bit_word_eqI; auto simp: bit_simps dest: bit_imp_le_length)+
  then show ?thesis
    using hw_store_blank [OF assms, of "ucast x"] assms(2) by (simp add: FLASH_ProgramHalfWord_def Let_def)
qed

definition halfword_bytes_of :: "u8 list \<Rightarrow> u8 list" where
  "halfword_bytes_of xs = concat (map (\<lambda>x. [x, 0]) xs)"

lemma length_halfword_bytes_of [simp]: "length (halfword_bytes_of xs) = 2 * length xs"
  by (induction xs) (simp_all add: halfword_bytes_of_def)

lemma nth_halfword_bytes_of:
  "k < length xs \<Longrightarrow> halfword_bytes_of xs ! (2 * k) = xs ! k \<and> halfword_bytes_of xs ! (2 * k + 1) = 0"
proof (induction xs arbitrary: k)
  case (Cons x xs)
  then show ?case by (cases k) (auto simp: halfword_bytes_of_def)
qed simp

lemma program_halfwords_blank:
  assumes "nor_flash hw"
  shows "unlocked d \<Longrightarrow> even a \<Longrightarrow> blank d a (2 * length xs) \<Longrightarrow>
    program_halfwords hw d a xs = d\<lparr>cells := put (cells d) a (halfword_bytes_of xs)\<rparr>"
proof (induction xs arbitrary: d a)
  case (Cons x xs)
  have b2: "blank d a 2" using Cons.prems(3) by (rule blank_sub) auto
  then have "in_flash d a" by (simp add: blank_def)
  then have a2: "u32_add a 2 = a + 2" using in_flash_less [of d a] by (intro u32_add_exact) simp
  let ?d = "d\<lparr>cells := put (cells d) a [x, 0]\<rparr>"
  have "blank d (a + 2) (2 * length xs)" using Cons.prems(3) by (rule blank_sub) auto
  then have "blank ?d (a + 2) (2 * length xs)" by (rule blank_put) simp
  then have "program_halfwords hw ?d (a + 2) xs = ?d\<lparr>cells := put (cells ?d) (a + 2) (halfword_bytes_of xs)\<rparr>"
    using Cons.prems by (intro Cons.IH) auto
  moreover have "put (cells ?d) (a + 2) (halfword_bytes_of xs) = put (cells d) a (halfword_bytes_of (x # xs))"
    using put_append [of "cells d" a "[x, 0]" "halfword_bytes_of xs"] by (simp add: halfword_bytes_of_def)
  ultimately show ?case
    using FLASH_ProgramHalfWord_blank [OF assms Cons.prems(1,2) b2] by (simp add: a2)
qed (simp add: halfword_bytes_of_def)

lemma stm32_param_save_flash:
  assumes "nor_flash hw" "dev_ok st"
  defines "A \<equiv> page_from_end (flash st) FLASH_APP_PARAM_ADDR"
  shows "stm32_param_save hw st = Some (st\<lparr>flash := (flash st)\<lparr>locked := True, sr := FLASH_COMPLETE,
     cells := put (wipe (cells (flash st)) A FLASH_PAGE_SIZE) A
                (halfword_bytes_of (RT_LWIP st) @ dev_param_bytes (dev_param st))\<rparr>\<rparr>)"
proof -
  let ?m = "wipe (cells (flash st)) A FLASH_PAGE_SIZE"
  let ?d0 = "(flash st)\<lparr>locked := False, sr := FLASH_COMPLETE, cells := ?m\<rparr>"
  have e: "FLASH_ErasePage hw (Flash_Unlock (flash st)) A = (?d0, FLASH_COMPLETE)"
    using erase_param_page [OF assms(1,2), of 3] by (simp add: A_def)
  have n: "length (RT_LWIP st) = 16" using assms(2) by (simp add: dev_ok_def)
  note facts = page_facts [OF assms(2), of 3, folded A_def, simplified]
  have ev: "even A" using facts(1) by presburger
  have b: "blank ?d0 A 40" unfolding A_def by (rule wiped_page_blank) (use assms in auto)
  let ?d1 = "?d0\<lparr>cells := put ?m A (halfword_bytes_of (RT_LWIP st))\<rparr>"
  have p: "program_halfwords hw ?d0 A (RT_LWIP st) = ?d1"
  proof -
    have "blank ?d0 A (2 * length (RT_LWIP st))" using b by (rule blank_sub) (simp_all add: n)
    then show ?thesis using program_halfwords_blank [OF assms(1), of ?d0 A "RT_LWIP st"] ev by simp
  qed
  have a32: "u32_add A 32 = A + 32" using facts(5) by (intro u32_add_exact) simp
  have "blank ?d0 (A + 32) 8" using b by (rule blank_sub) auto
  then have b8: "blank ?d1 (A + 32) (4 * ((7 + 3) div 4))"
    using blank_put [of ?d0 "A + 32" 8 A "halfword_bytes_of (RT_LWIP st)"] n by simp
  have "(A + 32) mod 4 = 0" using facts(1) by presburger
  then have w: "Flash_Write hw ?d1 (A + 32) (dev_param_bytes (dev_param st)) 7 =
      Some (?d1\<lparr>locked := True, sr := FLASH_COMPLETE,
             cells := put (cells ?d1) (A + 32) (take 7 (dev_param_bytes (dev_param st)))\<rparr>, 7)"
    using b8 by (intro Flash_Write_blank assms(1)) (auto simp: ready_def)
  have "put (cells ?d1) (A + 32) (take 7 (dev_param_bytes (dev_param st))) =
      put ?m A (halfword_bytes_of (RT_LWIP st) @ dev_param_bytes (dev_param st))"
    using put_append [of ?m A "halfword_bytes_of (RT_LWIP st)" "dev_param_bytes (dev_param st)"] n by simp
  note w = w [unfolded this]
  have a: "u32_add A (2 * 16) = A + 32" using a32 by simp
  show ?thesis
    unfolding stm32_param_save_def Let_def A_def [symmetric] e fst_conv p n a w by (simp add: Flash_Lock_def)
qed

subsection \<open>Properties of the parameters\<close>

text \<open>
  Property C17.  The device parameters survive a reset: after \<open>iap_param_save\<close>, a start from any other
  RAM contents on the same flash loads them back, with \<open>IAP_flag\<close> set to 2 for a running application.
\<close>

theorem iap_param_survives_reset:
  assumes "nor_flash hw" "dev_ok st" "Power_First_Flag (iap_param st) = 0x1234"
  shows "\<exists>st1. iap_param_save hw st = Some st1 \<and>
    (\<forall>st2. flash st2 = flash st1 \<longrightarrow>
       iap_param_load hw st2 = Some (st2\<lparr>iap_param := (iap_param st)\<lparr>IAP_flag := 2\<rparr>\<rparr>))"
proof -
  define A where "A = page_from_end (flash st) FLASH_IAP_PARAM_ADDR"
  have c: "length (ChipUniqueID (iap_param st)) = 6" using assms(2) by (simp add: dev_ok_def)
  let ?f = "(flash st)\<lparr>locked := True, sr := FLASH_COMPLETE,
     cells := put (wipe (cells (flash st)) A FLASH_PAGE_SIZE) A (iap_param_bytes (iap_param st))\<rparr>"
  have "iap_param_load hw st2 = Some (st2\<lparr>iap_param := (iap_param st)\<lparr>IAP_flag := 2\<rparr>\<rparr>)" if "flash st2 = ?f" for st2
  proof (rule iap_param_load_saved)
    show "A = page_from_end (flash st2) FLASH_IAP_PARAM_ADDR" by (simp add: that A_def)
    show "iap_param_of (map (cells (flash st2)) [A..<A + sizeof_iap_param]) = iap_param st"
      using iap_param_layout [OF c] by (simp add: that put_read_at)
  qed (rule assms(3))
  then show ?thesis using iap_param_save_flash [OF assms(1,2)] by (auto simp: A_def)
qed

text \<open>
  Fact.  On a flash without the first-power mark \<open>iap_param_load\<close> stores the default parameters
  and loads them: identifier \<open>FFFF\<close>, the chip's own unique identifier, and a next load finds them.
\<close>

theorem iap_param_first_power:
  assumes "nor_flash hw" "dev_ok st"
    "read_u16 (flash st) (page_from_end (flash st) FLASH_IAP_PARAM_ADDR) \<noteq> 0x1234"
  shows "\<exists>st1. iap_param_load hw st = Some st1 \<and> ID (iap_param st1) = 0xFFFF \<and>
    ChipUniqueID (iap_param st1) = chip_uid (flash st) \<and> IAP_flag (iap_param st1) = 2 \<and>
    read_u16 (flash st1) (page_from_end (flash st1) FLASH_IAP_PARAM_ADDR) = 0x1234 \<and>
    iap_param_load hw st1 = Some st1"
proof -
  define A where "A = page_from_end (flash st) FLASH_IAP_PARAM_ADDR"
  define p where "p = \<lparr>Power_First_Flag = 0x1234, ChipUniqueID = Get_ChipID (flash st),
       swversion = 1, hwversion = 1, IAP_flag = 1, remoteID = 0, ID = 0xFFFF\<rparr>"
  define f where "f = (flash st)\<lparr>locked := True, sr := FLASH_COMPLETE,
     cells := put (wipe (cells (flash st)) A FLASH_PAGE_SIZE) A (iap_param_bytes p)\<rparr>"
  have chip: "Get_ChipID (flash st) = chip_uid (flash st)"
    using assms(2) by (intro nth_equalityI) (auto simp: Get_ChipID_def dev_ok_def)
  have c: "length (ChipUniqueID p) = 6" by (simp add: p_def Get_ChipID_def)
  let ?st0 = "st\<lparr>iap_param := (iap_param st)\<lparr>Power_First_Flag := read_u16 (flash st) A\<rparr>\<rparr>"
  have ok: "dev_ok (?st0\<lparr>iap_param := p\<rparr>)" using assms(2) c by (simp add: dev_ok_def)
  have "iap_param_save hw (?st0\<lparr>iap_param := p\<rparr>) = Some (?st0\<lparr>iap_param := p, flash := f\<rparr>)"
    using iap_param_save_flash [OF assms(1) ok] by (simp add: f_def A_def)
  then have d: "iap_param_default hw ?st0 = Some (?st0\<lparr>iap_param := p, flash := f\<rparr>)"
    by (simp add: iap_param_default_def p_def)
  have read: "map (cells f) [A..<A + sizeof_iap_param] = iap_param_bytes p"
    using iap_param_layout(1) [OF c] by (simp add: f_def put_read_at)
  have page: "page_from_end f = page_from_end (flash st)" by (simp add: f_def)
  let ?st1 = "st\<lparr>iap_param := p\<lparr>IAP_flag := 2\<rparr>, flash := f\<rparr>"
  have l1: "iap_param_load hw st = Some ?st1"
    using assms(3) unfolding iap_param_load_def Let_def A_def [symmetric]
    by (simp add: d Flash_Read_all read iap_param_layout(2) [OF c])
  have "iap_param_load hw ?st1 = Some (?st1\<lparr>iap_param := p\<lparr>IAP_flag := 2\<rparr>\<rparr>)"
  proof (rule iap_param_load_saved)
    show "A = page_from_end (flash ?st1) FLASH_IAP_PARAM_ADDR" by (simp add: page A_def)
    show "iap_param_of (map (cells (flash ?st1)) [A..<A + sizeof_iap_param]) = p"
      by (simp add: read iap_param_layout(2) [OF c])
    show "Power_First_Flag p = 0x1234" by (simp add: p_def)
  qed
  then have l2: "iap_param_load hw ?st1 = Some ?st1" by simp
  have "read_u16 f A = u16_at (iap_param_bytes p) 0"
    unfolding read [symmetric] using u16_at_cells [of 0 24 f A] by simp
  also have "\<dots> = Power_First_Flag (iap_param_of (iap_param_bytes p))" by (simp add: iap_param_of_def)
  also have "\<dots> = 0x1234" by (simp add: iap_param_layout(2) [OF c]) (simp add: p_def)
  finally show ?thesis
    using l1 l2 by (intro exI [of _ ?st1]) (simp add: p_def chip page A_def)
qed


lemma stm32_param_load_default:
  assumes "nor_flash hw" "dev_ok st"
    "read_u16 (flash st) (page_from_end (flash st) FLASH_APP_PARAM_ADDR) \<noteq> 0x4321"
  shows "\<exists>st1. stm32_param_load hw board st = Some st1 \<and>
    dev_param st1 = \<lparr>Dev_Power_First_Flag = 0x4321, mswork_mode = 0, version = 1, analog_dial_switch = 0\<rparr> \<and>
    RT_LWIP st1 = [192, 168, 1, 100, 255, 255, 255, 0, 192, 168, 1, 1, 192, 168, 1, 1]"
proof -
  define A where "A = page_from_end (flash st) FLASH_APP_PARAM_ADDR"
  define net :: "u8 list" where "net = [192, 168, 1, 100, 255, 255, 255, 0, 192, 168, 1, 1, 192, 168, 1, 1]"
  define p where "p = \<lparr>Dev_Power_First_Flag = 0x4321, mswork_mode = 0, version = 1, analog_dial_switch = 0\<rparr>"
  define st0 where "st0 = st\<lparr>RT_LWIP := net, dev_param := p\<rparr>"
  define bytes where "bytes = halfword_bytes_of net @ dev_param_bytes p"
  define f where "f = (flash st)\<lparr>locked := True, sr := FLASH_COMPLETE,
     cells := put (wipe (cells (flash st)) A FLASH_PAGE_SIZE) A bytes\<rparr>"
  have n: "length net = 16" by (simp add: net_def)
  have ok0: "dev_ok st0" using assms(2) n by (simp add: st0_def dev_ok_def)
  have d: "stm32_param_default hw (st\<lparr>dev_param := x\<rparr>) = Some (st0\<lparr>flash := f\<rparr>)" for x
    using stm32_param_save_flash [OF assms(1) ok0]
    by (simp add: stm32_param_default_def st0_def f_def bytes_def A_def flip: p_def net_def)
  have len: "length bytes = 39" by (simp add: bytes_def n)
  have at: "cells f (A + k) = bytes ! k" if "k < 39" for k
    using that by (simp add: f_def put_def len)
  have lw: "map (\<lambda>k. ucast (read_u16 f (A + 2 * k))) [0..<16] = net"
  proof (rule nth_equalityI)
    fix k assume "k < length (map (\<lambda>k. ucast (read_u16 f (A + 2 * k)) :: u8) [0..<16])"
    then have k: "k < 16" by simp
    have "bytes ! (2 * k) = net ! k" "bytes ! (2 * k + 1) = 0"
      using nth_halfword_bytes_of [of k net] k n by (auto simp: bytes_def nth_append)
    then have "read_u16 f (A + 2 * k) = u16_of (net ! k) 0"
      using at [of "2 * k"] at [of "2 * k + 1"] k by (simp add: read_u16_def)
    moreover have "(ucast (u16_of b 0) :: u8) = b" for b
      unfolding u16_of_def by (rule bit_word_eqI) (auto simp: bit_simps bitwise dest: bit_imp_le_length)
    ultimately show "map (\<lambda>k. ucast (read_u16 f (A + 2 * k))) [0..<16] ! k = net ! k" using k by simp
  qed (simp add: n)
  have "map (cells f) [A + 32..<A + 32 + 7] = dev_param_bytes p"
  proof (rule nth_equalityI)
    fix k assume "k < length (map (cells f) [A + 32..<A + 32 + 7])"
    then have k: "k < 7" by simp
    have "cells f (A + (32 + k)) = bytes ! (32 + k)" using k by (intro at) simp
    then show "map (cells f) [A + 32..<A + 32 + 7] ! k = dev_param_bytes p ! k"
      using k n by (simp add: bytes_def nth_append add.assoc)
  qed simp
  then have r: "Flash_Read f (A + 32) (replicate 7 0) 7 = Some (dev_param_bytes p, 7)"
    by (simp add: Flash_Read_all)
  let ?st2 = "st0\<lparr>flash := f, RT_LWIP := net, dev_param := p\<rparr>"
  have ok2: "dev_ok ?st2" by (rule dev_ok_flash [OF ok0, where l = True and m = "cells f"])
      (use ok0 n in \<open>auto simp: f_def st0_def dev_ok_def\<close>)
  have "\<exists>st3. iap_param_load hw ?st2 = Some st3 \<and> dev_param st3 = p \<and> RT_LWIP st3 = net"
  proof (cases "read_u16 f (page_from_end f FLASH_IAP_PARAM_ADDR) = 0x1234")
    case True
    then show ?thesis by (simp add: iap_param_load_def Let_def Flash_Read_all)
  next
    case False
    let ?i = "\<lparr>Power_First_Flag = 0x1234, ChipUniqueID = Get_ChipID f,
       swversion = 1, hwversion = 1, IAP_flag = 1, remoteID = 0, ID = 0xFFFF\<rparr>"
    have "dev_ok (?st2\<lparr>iap_param := ?i\<rparr>)" using ok2 by (simp add: dev_ok_def Get_ChipID_def)
    from iap_param_save_flash [OF assms(1) this] False show ?thesis
      by (auto simp: iap_param_load_def Let_def iap_param_default_def Flash_Read_all)
  qed
  then obtain st3 where st3: "iap_param_load hw ?st2 = Some st3" "dev_param st3 = p" "RT_LWIP st3 = net" by blast
  have "stm32_param_load hw board st = Some (device_id_set board (realtime_param_init st3))"
    unfolding stm32_param_load_def Let_def A_def [symmetric] using assms(3) [folded A_def] st3(1)
    by (simp add: d lw r)
  moreover have "dev_param (device_id_set board (realtime_param_init st3)) = p"
    "RT_LWIP (device_id_set board (realtime_param_init st3)) = net"
    using st3 by (auto simp: device_id_set_def realtime_param_init_def Let_def split: option.split)
  ultimately show ?thesis by (simp add: p_def net_def)
qed

text \<open>
  Fact.  \<open>stm32_param_load\<close> never loads what \<open>stm32_param_save\<close> stored: the mark it tests is the
  first half-word of the page, where the save puts the first byte of the IP address, so a start
  after a save always falls back to the defaults (master mode, dial switch 0, \<open>192.168.1.100\<close>).
\<close>

theorem stm32_param_load_forgets:
  assumes "nor_flash hw" "dev_ok st" "dev_ok st2"
  shows "\<exists>st1. stm32_param_save hw st = Some st1 \<and>
    (flash st2 = flash st1 \<longrightarrow> (\<exists>st3. stm32_param_load hw board st2 = Some st3 \<and>
       dev_param st3 = \<lparr>Dev_Power_First_Flag = 0x4321, mswork_mode = 0, version = 1, analog_dial_switch = 0\<rparr> \<and>
       RT_LWIP st3 = [192, 168, 1, 100, 255, 255, 255, 0, 192, 168, 1, 1, 192, 168, 1, 1]))"
proof -
  define A where "A = page_from_end (flash st) FLASH_APP_PARAM_ADDR"
  define bytes where "bytes = halfword_bytes_of (RT_LWIP st) @ dev_param_bytes (dev_param st)"
  define f where "f = (flash st)\<lparr>locked := True, sr := FLASH_COMPLETE,
     cells := put (wipe (cells (flash st)) A FLASH_PAGE_SIZE) A bytes\<rparr>"
  have n: "length (RT_LWIP st) = 16" using assms(2) by (simp add: dev_ok_def)
  have "bytes ! 1 = 0"
    using nth_halfword_bytes_of [of 0 "RT_LWIP st"] n by (simp add: bytes_def nth_append)
  then have "cells f (A + 1) = 0" by (simp add: f_def put_def bytes_def n)
  then have u: "read_u16 f A = u16_of (cells f A) 0" by (simp add: read_u16_def)
  have "\<not> bit (u16_of b 0) 8" for b by (auto simp: u16_of_def bitwise bit_simps dest: bit_imp_le_length)
  moreover have "bit (0x4321 :: u16) 8" by simp
  ultimately have ne: "read_u16 f A \<noteq> 0x4321" unfolding u by metis
  have "\<exists>st3. stm32_param_load hw board st2 = Some st3 \<and>
       dev_param st3 = \<lparr>Dev_Power_First_Flag = 0x4321, mswork_mode = 0, version = 1, analog_dial_switch = 0\<rparr> \<and>
       RT_LWIP st3 = [192, 168, 1, 100, 255, 255, 255, 0, 192, 168, 1, 1, 192, 168, 1, 1]"
    if "flash st2 = f"
    by (rule stm32_param_load_default [OF assms(1,3)])
      (use ne that in \<open>simp add: A_def f_def\<close>)
  then show ?thesis
    using stm32_param_save_flash [OF assms(1,2)] by (auto simp: f_def A_def bytes_def)
qed

subsection \<open>Witnesses\<close>

text \<open>A device with blank flash of 256 KB.\<close>

definition blank_device :: dev_state where
  "blank_device = \<lparr>
     flash = \<lparr>cells = \<lambda>_. 0xFF, locked = True, sr = FLASH_COMPLETE, flash_kb = 256, chip_uid = [1, 2, 3, 4, 5, 6]\<rparr>,
     IAP_FLAG = 0,
     iap_param = \<lparr>Power_First_Flag = 0x1234, ChipUniqueID = [1, 2, 3, 4, 5, 6], swversion = 1, hwversion = 1,
       IAP_flag = 1, remoteID = 0, ID = 0x0801\<rparr>,
     dev_param = \<lparr>Dev_Power_First_Flag = 0x4321, mswork_mode = 1, version = 1, analog_dial_switch = 2\<rparr>,
     realtime_param = \<lparr>voltage = 0, current = 0, heartbeat_count = 0, can_debug_flag = 0\<rparr>,
     RT_LWIP = replicate 16 10, Sys_Run_Time = 0,
     can_ota = \<lparr>OTA_UpdateFlag = 0, OTA_Version = 0, OTA_TotalSize = 0, OTA_SubSize = 0, OTA_CRC32 = 0, OTA_Frame_Num = 0\<rparr>,
     uart_ota = \<lparr>U_OTA_UpdateFlag = 0, U_OTA_Version = 0, U_OTA_TotalSize = 0, U_OTA_SubSize = 0, U_OTA_CRC32 = 0, U_OTA_Frame_Num = 0\<rparr>,
     outbox = []\<rparr>"

lemma blank_device_ok: "dev_ok blank_device"
  by (simp add: blank_device_def dev_ok_def ready_def Get_FlashSize_def)

theorem UpdateAppMode_sets_flag_witness:
  "ReadIAPMode (flash (UpdateAppMode nor_hw blank_device)) = OTA_Update_APP"
  using UpdateAppMode_sets_flag [OF nor_hw_is_nor blank_device_ok] by blast

theorem ForceUpdateAppMode_flag_witness:
  "ReadIAPMode (flash (ForceUpdateAppMode nor_hw blank_device)) = 0xFFFFFFFF12345678"
  by (rule ForceUpdateAppMode_flag [OF nor_hw_is_nor blank_device_ok])

theorem iap_param_survives_reset_witness:
  "\<exists>st1. iap_param_save nor_hw blank_device = Some st1 \<and>
     iap_param_load nor_hw (st1\<lparr>iap_param := (iap_param blank_device)\<lparr>ID := 0\<rparr>\<rparr>) =
       Some (st1\<lparr>iap_param := (iap_param blank_device)\<lparr>IAP_flag := 2\<rparr>\<rparr>)"
proof -
  have "Power_First_Flag (iap_param blank_device) = 0x1234" by (simp add: blank_device_def)
  then obtain st1 where "iap_param_save nor_hw blank_device = Some st1"
    "\<forall>st2. flash st2 = flash st1 \<longrightarrow>
       iap_param_load nor_hw st2 = Some (st2\<lparr>iap_param := (iap_param blank_device)\<lparr>IAP_flag := 2\<rparr>\<rparr>)"
    using iap_param_survives_reset [OF nor_hw_is_nor blank_device_ok] by blast
  then show ?thesis by (intro exI [of _ st1]) simp
qed

theorem iap_param_first_power_witness:
  "\<exists>st1. iap_param_load nor_hw blank_device = Some st1 \<and> ID (iap_param st1) = 0xFFFF"
proof -
  have "read_u16 (flash blank_device) (page_from_end (flash blank_device) FLASH_IAP_PARAM_ADDR) \<noteq> 0x1234"
    by (simp add: blank_device_def read_u16_def u16_of_def)
  from iap_param_first_power [OF nor_hw_is_nor blank_device_ok this] show ?thesis by blast
qed

theorem stm32_param_load_forgets_witness:
  "\<exists>st1 st3. stm32_param_save nor_hw blank_device = Some st1 \<and> mswork_mode (dev_param blank_device) = 1 \<and>
     stm32_param_load nor_hw None st1 = Some st3 \<and> mswork_mode (dev_param st3) = 0"
proof -
  obtain st1 where s: "stm32_param_save nor_hw blank_device = Some st1" and ok: "dev_ok st1"
    using stm32_param_save_flash [OF nor_hw_is_nor blank_device_ok]
      dev_ok_flash [OF blank_device_ok] blank_device_ok
    by (auto simp: dev_ok_def ready_def Get_FlashSize_def)
  from stm32_param_load_forgets [OF nor_hw_is_nor blank_device_ok ok, of None] s
  obtain st3 where "stm32_param_load nor_hw None st1 = Some st3" "mswork_mode (dev_param st3) = 0" by auto
  then show ?thesis using s by (auto simp: blank_device_def)
qed

end
