(* ===== verification/CopyArea.thy ===== *)
theory CopyArea imports Prelude DataLib FlashIf DevState IapIf
begin

text \<open>
  The area of the flash that receives a new firmware image, as both update protocols see it: where
  it starts, the image header they decode, and what holds of the area while the packets of an image
  are being written in order (\<open>copied\<close>).
\<close>

definition addr_appcopy :: "dev_state \<Rightarrow> nat" where
  "addr_appcopy st = page_from_end (flash st) FLASH_APP_COPY_ADDR"

subsection \<open>The image header in a request\<close>

definition updata_bytes :: "iap_updata_param_type \<Rightarrow> u8 list" where
  "updata_bytes h = u16_bytes (Version h) @ u16_bytes (CompressFlag h) @ u32_bytes (UpdatesTotalSize h) @
     u16_bytes (UpdatesSubSize h) @ u32_bytes (UpdatesCRC32 h) @ u32_bytes (ComPackOriginalSize h) @
     u16_bytes (ComPackNo h) @ u16_bytes (PerComPackOriginalSize h) @ u32_bytes (ComPackOriginalCRC32 h)"

lemma length_u32_bytes [simp]: "length (u32_bytes w) = 4"
  by (simp add: u32_bytes_def)

lemma length_updata_bytes [simp]: "length (updata_bytes h) = sizeof_iap_updata_param"
  by (simp add: updata_bytes_def)

lemma load_u16: "take 2 (drop p buf) = u16_bytes w \<Longrightarrow> p + 2 \<le> length buf \<Longrightarrow> ArrayU8ToU16 buf p = Some w"
proof -
  assume t: "take 2 (drop p buf) = u16_bytes w" and p: "p + 2 \<le> length buf"
  have "buf ! p = ucast w" "buf ! (p + 1) = ucast (drop_bit 8 w)"
    using arg_cong [OF t, of "\<lambda>xs. xs ! 0"] arg_cong [OF t, of "\<lambda>xs. xs ! 1"] p
    by (simp_all add: u16_bytes_def)
  then show ?thesis
    using p by (simp add: ArrayU8ToU16_in ucast_ucast_u8 word_of_bytes2)
qed

lemma load_u32: "take 4 (drop p buf) = u32_bytes w \<Longrightarrow> p + 4 \<le> length buf \<Longrightarrow> ArrayU8ToU32 buf p = Some w"
proof -
  assume t: "take 4 (drop p buf) = u32_bytes w" and p: "p + 4 \<le> length buf"
  have "buf ! p = ucast w" "buf ! (p + 1) = ucast (drop_bit 8 w)" "buf ! (p + 2) = ucast (drop_bit 16 w)"
    "buf ! (p + 3) = ucast (drop_bit 24 w)"
    using arg_cong [OF t, of "\<lambda>xs. xs ! 0"] arg_cong [OF t, of "\<lambda>xs. xs ! 1"]
      arg_cong [OF t, of "\<lambda>xs. xs ! 2"] arg_cong [OF t, of "\<lambda>xs. xs ! 3"] p
    by (simp_all add: u32_bytes_def)
  then show ?thesis
    using p by (simp add: ArrayU8ToU32_in ucast_ucast_u8 word_of_bytes4)
qed

subsection \<open>Layout of the area\<close>

lemma dev_ok_copy:
  assumes "dev_ok st" "n \<le> OTA_BIN_MAX_SIZE"
  shows "addr_appcopy st mod 4 = 0" "addr_appcopy st mod FLASH_PAGE_SIZE = 0"
    "\<And>b. b < OTA_BIN_MAX_SIZE + 5 * FLASH_PAGE_SIZE \<Longrightarrow> in_flash (flash st) (addr_appcopy st + b)"
    "pages_of n * FLASH_PAGE_SIZE \<le> OTA_BIN_MAX_SIZE"
proof -
  note f = page_facts [OF assms(1), of 57, folded addr_appcopy_def, simplified]
  show "addr_appcopy st mod 4 = 0" "addr_appcopy st mod FLASH_PAGE_SIZE = 0" using f by simp_all
  have "2 * 57 \<le> Get_FlashSize (flash st)" using assms(1) by (simp add: dev_ok_def)
  then show "in_flash (flash st) (addr_appcopy st + b)" if "b < OTA_BIN_MAX_SIZE + 5 * FLASH_PAGE_SIZE" for b
    using page_from_end_in_flash [of 57 "flash st" b] that by (simp add: addr_appcopy_def)
  have "n + (FLASH_PAGE_SIZE - 1) < 53 * FLASH_PAGE_SIZE" using assms(2) by simp
  then have "pages_of n < 53" unfolding pages_of_def by (rule less_mult_imp_div_less)
  then show "pages_of n * FLASH_PAGE_SIZE \<le> OTA_BIN_MAX_SIZE" by simp
qed

lemma roundup4: "(a::nat) mod 4 = 0 \<Longrightarrow> p mod 4 = 0 \<Longrightarrow> a + n \<le> p \<Longrightarrow> a + 4 * ((n + 3) div 4) \<le> p"
proof -
  assume "a mod 4 = 0" "p mod 4 = 0" and le: "a + n \<le> p"
  then obtain q r where q: "a = 4 * q" "p = 4 * r" by (auto simp: mod_0_imp_dvd elim!: dvdE)
  then have "q \<le> r" "n + 3 < (r - q + 1) * 4" using le by auto
  then have "(n + 3) div 4 < r - q + 1" by (intro less_mult_imp_div_less)
  then show ?thesis using q \<open>q \<le> r\<close> by linarith
qed

lemma pages_of_ge: "n \<le> pages_of n * FLASH_PAGE_SIZE"
  unfolding pages_of_def
  using div_mult_mod_eq [of "n + (FLASH_PAGE_SIZE - 1)" FLASH_PAGE_SIZE]
    mod_less_divisor [of FLASH_PAGE_SIZE "n + (FLASH_PAGE_SIZE - 1)"] by linarith

lemma put_behind: "map (put m (a + n) xs) [a..<a + n + length xs] = map m [a..<a + n] @ xs"
proof -
  have "map (put m (a + n) xs) [a..<a + n] = map m [a..<a + n]" by (simp add: put_def)
  moreover have "[a..<a + n + length xs] = [a..<a + n] @ [a + n..<a + n + length xs]"
    by (rule upt_add_eq_append) simp
  ultimately show ?thesis using put_read [of m "a + n" xs] by simp
qed

subsection \<open>An image cut into packets\<close>

definition chunk_of :: "nat \<Rightarrow> u8 list \<Rightarrow> nat \<Rightarrow> u8 list" where
  "chunk_of S img k = take S (drop (k * S) img)"

definition packets :: "nat \<Rightarrow> u8 list \<Rightarrow> nat" where
  "packets S img = (length img + (S - 1)) div S"

lemma packets_cover:
  assumes "0 < S"
  shows "length img \<le> packets S img * S" "k < packets S img \<Longrightarrow> k * S < length img"
proof -
  let ?n = "length img + (S - 1)"
  have e: "packets S img * S + ?n mod S = ?n" unfolding packets_def by (rule div_mult_mod_eq)
  have m: "?n mod S < S" using assms by simp
  show "length img \<le> packets S img * S" using e m by linarith
  assume "k < packets S img"
  then have "(k + 1) * S \<le> packets S img * S" by (intro mult_le_mono1) simp
  then show "k * S < length img" using e assms by (simp add: add.commute)
qed

text \<open>The first \<open>k\<close> packets of the image are at \<open>base\<close> and the rest of its pages is blank.\<close>

definition copied :: "nat \<Rightarrow> u8 list \<Rightarrow> nat \<Rightarrow> nat \<Rightarrow> flash_dev \<Rightarrow> bool" where
  "copied S img base k d \<longleftrightarrow>
     map (cells d) [base..<base + min (k * S) (length img)] = take (k * S) img \<and>
     blank d (base + k * S) (pages_of (length img) * FLASH_PAGE_SIZE - k * S)"

lemma copied_wiped:
  assumes "\<And>b. b < pages_of (length img) * FLASH_PAGE_SIZE \<Longrightarrow> in_flash d (base + b)"
    "pages_of (length img) * FLASH_PAGE_SIZE \<le> n" "cells d = wipe m base n"
  shows "copied S img base 0 d"
proof -
  have "blank d base (pages_of (length img) * FLASH_PAGE_SIZE)"
    unfolding blank_def
  proof (intro allI impI)
    fix b assume b: "base \<le> b \<and> b < base + pages_of (length img) * FLASH_PAGE_SIZE"
    then have "in_flash d (base + (b - base))" by (intro assms(1)) auto
    then show "in_flash d b \<and> erased d b" using b assms(2,3) by (simp add: erased_def wipe_def)
  qed
  then show ?thesis by (simp add: copied_def)
qed

lemma copied_all: "0 < S \<Longrightarrow> copied S img base (packets S img) d \<Longrightarrow> map (cells d) [base..<base + length img] = img"
  using packets_cover(1) [of S img] by (simp add: copied_def min_absorb2)

text \<open>The next packet fits the blank rest, and once it is programmed one more packet is copied.\<close>

lemma copied_step:
  assumes "copied S img base k d" "0 < S" "S mod 4 = 0" "k * S < length img"
  shows "blank d (base + k * S) (4 * ((length (chunk_of S img k) + 3) div 4))"
    "cells d' = put (cells d) (base + k * S) (chunk_of S img k) \<Longrightarrow> flash_kb d' = flash_kb d \<Longrightarrow>
       copied S img base (k + 1) d'"
    "length (chunk_of S img k) \<le> S" "k * S mod 4 = 0"
proof -
  define c where "c = chunk_of S img k"
  have inv: "map (cells d) [base..<base + min (k * S) (length img)] = take (k * S) img"
    "blank d (base + k * S) (pages_of (length img) * FLASH_PAGE_SIZE - k * S)"
    using assms(1) by (auto simp: copied_def)
  have c: "length c = min S (length img - k * S)" by (simp add: chunk_of_def c_def)
  then show "length (chunk_of S img k) \<le> S" by (simp add: c_def)
  show kS4: "k * S mod 4 = 0" using assms(3) by (metis mod_mult_right_eq mult_0_right mod_0)
  have "pages_of (length img) * FLASH_PAGE_SIZE = 4 * (pages_of (length img) * 512)" by simp
  then have P4: "pages_of (length img) * FLASH_PAGE_SIZE mod 4 = 0" by (simp only: mod_mult_self1_is_0)
  have "k * S + 4 * ((length c + 3) div 4) \<le> pages_of (length img) * FLASH_PAGE_SIZE"
    using pages_of_ge [of "length img"] c assms(4) by (intro roundup4 kS4 P4) linarith
  then show "blank d (base + k * S) (4 * ((length (chunk_of S img k) + 3) div 4))"
    unfolding c_def [symmetric] by (intro blank_sub [OF inv(2)]) auto
  assume d': "cells d' = put (cells d) (base + k * S) (chunk_of S img k)" "flash_kb d' = flash_kb d"
  have tk: "take ((k + 1) * S) img = take (k * S) img @ c"
    by (simp add: c_def chunk_of_def take_add add.commute [of S])
  have up: "min ((k + 1) * S) (length img) = k * S + length c" using c assms(4) by simp
  have kS: "min (k * S) (length img) = k * S" using assms(4) by simp
  have "map (cells d') [base..<base + min ((k + 1) * S) (length img)] = take ((k + 1) * S) img"
    using put_behind [of "cells d" base "k * S" c] inv(1) unfolding kS up tk d'(1) c_def [symmetric] by (simp add: add.assoc)
  moreover have "blank d' (base + (k + 1) * S) (pages_of (length img) * FLASH_PAGE_SIZE - (k + 1) * S)"
  proof -
    have "blank d (base + (k + 1) * S) (pages_of (length img) * FLASH_PAGE_SIZE - (k + 1) * S)"
    proof (cases "(k + 1) * S \<le> pages_of (length img) * FLASH_PAGE_SIZE")
      case True
      then show ?thesis by (intro blank_sub [OF inv(2)]) auto
    qed (auto simp: blank_def)
    from blank_put [OF this, of "base + k * S" c] c d' show ?thesis
      by (simp add: blank_def in_flash_def erased_def Get_FlashSize_def c_def)
  qed
  ultimately show "copied S img base (k + 1) d'" by (simp add: copied_def)
qed

lemma packet_number:
  assumes "0 < S" "S mod 4 = 0" "k * S < length img" "length img \<le> OTA_BIN_MAX_SIZE"
  shows "unat (of_nat k :: u16) = k"
proof -
  have "4 \<le> S" using assms(1,2) by presburger
  then have "k * 4 \<le> k * S" by simp
  then have "k < 65536" using assms(3,4) by linarith
  then show ?thesis by (simp add: unat_of_nat)
qed

end
