(* ===== verification/CanSearch.thy ===== *)
theory CanSearch imports Prelude Frame DevState
begin

text \<open>
  The messages of \<open>general_app/can_search_protocol.c\<close> and the three acknowledgements of
  \<open>general_app/can_ota_protocol.c\<close>.  A constructor gets the state, the buffer to fill and its size
  \<open>len\<close>; it answers the buffer and the number of bytes built, 0 when the buffer is too small.
  \<open>seal\<close> is the common last part: the bytes written so far, their sum and the tail.
\<close>

named_theorems construct_defs "the message constructors"

abbreviation (input) CAN_OTA_Recv_Start :: u8 where "CAN_OTA_Recv_Start \<equiv> 0x01"
abbreviation (input) CAN_OTA_Recv_Update :: u8 where "CAN_OTA_Recv_Update \<equiv> 0x02"
abbreviation (input) CAN_OTA_Recv_End :: u8 where "CAN_OTA_Recv_End \<equiv> 0x03"
abbreviation (input) CAN_OTA_Send_Start :: u8 where "CAN_OTA_Send_Start \<equiv> 0x81"
abbreviation (input) CAN_OTA_Send_Update :: u8 where "CAN_OTA_Send_Update \<equiv> 0x82"
abbreviation (input) CAN_OTA_Send_End :: u8 where "CAN_OTA_Send_End \<equiv> 0x83"
abbreviation (input) FUC_PARAMSET_READ :: u8 where "FUC_PARAMSET_READ \<equiv> 0xA1"
abbreviation (input) FUC_PARAMSET_WRITE :: u8 where "FUC_PARAMSET_WRITE \<equiv> 0xA2"
abbreviation (input) FUC_PARAMSET_SAVE :: u8 where "FUC_PARAMSET_SAVE \<equiv> 0xA3"
abbreviation (input) FUC_DEVICE_RESTART :: u8 where "FUC_DEVICE_RESTART \<equiv> 0xA4"
abbreviation (input) FUC_PARAMSET_DEFAULT :: u8 where "FUC_PARAMSET_DEFAULT \<equiv> 0xA5"
abbreviation (input) FUC_DEVICE_SEARCH :: u8 where "FUC_DEVICE_SEARCH \<equiv> 0xB1"
abbreviation (input) FUC_DEVICE_PARAMSET_SEARCH :: u8 where "FUC_DEVICE_PARAMSET_SEARCH \<equiv> 0xB2"
abbreviation (input) FUC_AUTOMATIC_CHECK :: u8 where "FUC_AUTOMATIC_CHECK \<equiv> 0xC1"

text \<open>Head, length, command and the two identifiers that every message starts with.\<close>

definition can_header :: "nat \<Rightarrow> u8 \<Rightarrow> dev_state \<Rightarrow> u8 list" where
  "can_header data_len cmd st =
     [FRAME_HEAD, of_nat data_len, of_nat (data_len div 256), cmd] @
     u16_bytes (remoteID (iap_param st)) @ u16_bytes (ID (iap_param st))"

definition construct :: "nat \<Rightarrow> u8 list \<Rightarrow> u8 list \<Rightarrow> nat \<Rightarrow> (u8 list \<times> nat) option" where
  "construct data_len hdr buf len = (if len < data_len then Some (buf, 0) else seal buf data_len hdr)"

subsection \<open>Acknowledgements of the OTA session\<close>

definition CAN_OTA_Start_ACK_Construct :: "dev_state \<Rightarrow> u8 list \<Rightarrow> nat \<Rightarrow> (u8 list \<times> nat) option" where
  [construct_defs]: "CAN_OTA_Start_ACK_Construct st = construct 10 (can_header 10 CAN_OTA_Send_Start st)"

definition CAN_OTA_Update_ACK_Construct :: "dev_state \<Rightarrow> u8 \<Rightarrow> u8 list \<Rightarrow> nat \<Rightarrow> (u8 list \<times> nat) option" where
  [construct_defs]: "CAN_OTA_Update_ACK_Construct st state_code =
     construct 13 (can_header 13 CAN_OTA_Send_Update st @ u16_bytes (OTA_Frame_Num (can_ota st)) @ [state_code])"

definition CAN_OTA_End_ACK_Construct :: "dev_state \<Rightarrow> u8 list \<Rightarrow> nat \<Rightarrow> (u8 list \<times> nat) option" where
  [construct_defs]: "CAN_OTA_End_ACK_Construct st = construct 10 (can_header 10 CAN_OTA_Send_End st)"

subsection \<open>Answers of can_search_protocol.c\<close>

definition u32_low_bytes :: "u32 \<Rightarrow> u8 list" where
  "u32_low_bytes w = [ucast w, ucast (drop_bit 8 w), ucast (drop_bit 16 w), ucast (drop_bit 24 w)]"

definition CAN_Paramset_Read_Construct :: "dev_state \<Rightarrow> u8 list \<Rightarrow> nat \<Rightarrow> (u8 list \<times> nat) option" where
  [construct_defs]: "CAN_Paramset_Read_Construct st =
     construct 32 (can_header 32 FUC_PARAMSET_READ st @
       u16_bytes (ID (iap_param st)) @
       [ucast (mswork_mode (dev_param st)), can_debug_flag (realtime_param st), analog_dial_switch (dev_param st)] @
       u16_bytes (voltage (realtime_param st)) @ u16_bytes (current (realtime_param st)) @
       u32_low_bytes (Sys_Run_Time st) @
       u16_bytes (version (dev_param st)) @ u16_bytes (swversion (iap_param st)) @
       [ucast (hwversion (iap_param st)), 0, 0, 0, 0])"

definition CAN_Automatic_Check_Construct :: "dev_state \<Rightarrow> u8 list \<Rightarrow> nat \<Rightarrow> (u8 list \<times> nat) option" where
  [construct_defs]: "CAN_Automatic_Check_Construct st =
     construct 24 (can_header 24 FUC_DEVICE_SEARCH st @ replicate 14 0)"

definition CAN_Paramset_Write_Construct :: "dev_state \<Rightarrow> u8 list \<Rightarrow> nat \<Rightarrow> (u8 list \<times> nat) option" where
  [construct_defs]: "CAN_Paramset_Write_Construct st = construct 10 (can_header 10 FUC_PARAMSET_WRITE st)"

definition CAN_Paramset_Save_Construct :: "dev_state \<Rightarrow> u8 list \<Rightarrow> nat \<Rightarrow> (u8 list \<times> nat) option" where
  [construct_defs]: "CAN_Paramset_Save_Construct st = construct 10 (can_header 10 FUC_PARAMSET_SAVE st)"

definition CAN_Device_Restart_Construct :: "dev_state \<Rightarrow> u8 list \<Rightarrow> nat \<Rightarrow> (u8 list \<times> nat) option" where
  [construct_defs]: "CAN_Device_Restart_Construct st = construct 10 (can_header 10 FUC_DEVICE_RESTART st)"

definition CAN_Paramset_Default_Construct :: "dev_state \<Rightarrow> u8 list \<Rightarrow> nat \<Rightarrow> (u8 list \<times> nat) option" where
  [construct_defs]: "CAN_Paramset_Default_Construct st = construct 10 (can_header 10 FUC_PARAMSET_DEFAULT st)"

definition CAN_Device_Search_Construct :: "dev_state \<Rightarrow> u8 list \<Rightarrow> nat \<Rightarrow> (u8 list \<times> nat) option" where
  [construct_defs]: "CAN_Device_Search_Construct st =
     construct 32 (can_header 32 FUC_DEVICE_SEARCH st @
       concat (map (\<lambda>k. u16_bytes (ChipUniqueID (iap_param st) ! k)) [0..<6]) @
       u16_bytes (swversion (iap_param st)) @
       [ucast (hwversion (iap_param st)), ucast (IAP_flag (iap_param st))] @
       u16_bytes (version (dev_param st)) @ u16_bytes (ID (iap_param st)) @ [0, 0])"

definition CAN_Device_Paramset_Search_Construct :: "dev_state \<Rightarrow> u8 list \<Rightarrow> nat \<Rightarrow> (u8 list \<times> nat) option" where
  [construct_defs]: "CAN_Device_Paramset_Search_Construct st =
     construct 10 (can_header 10 FUC_DEVICE_PARAMSET_SEARCH st)"

subsection \<open>Requests that change the parameters\<close>

definition rd_u16 :: "u8 list \<Rightarrow> nat \<Rightarrow> u16 option" where
  "rd_u16 buf i = do { hi \<leftarrow> rd buf (i + 1); lo \<leftarrow> rd buf i; Some (u16_of lo hi) }"

definition CAN_Paramset_Receive_Analyse :: "dev_state \<Rightarrow> u8 list \<Rightarrow> dev_state option" where
  "CAN_Paramset_Receive_Analyse st buf = do {
     new_id \<leftarrow> rd_u16 buf 8;
     mode \<leftarrow> rd buf 10;
     debug \<leftarrow> rd buf 11;
     dial \<leftarrow> rd buf 12;
     Some (st\<lparr>iap_param := (iap_param st)\<lparr>ID := new_id\<rparr>,
              dev_param := (dev_param st)\<lparr>mswork_mode := ucast mode, analog_dial_switch := dial\<rparr>,
              realtime_param := (realtime_param st)\<lparr>can_debug_flag := debug\<rparr>\<rparr>) }"

fun rd_u16s :: "u8 list \<Rightarrow> nat \<Rightarrow> nat \<Rightarrow> u16 list option" where
  "rd_u16s buf i 0 = Some []"
| "rd_u16s buf i (Suc n) = do { w \<leftarrow> rd_u16 buf i; ws \<leftarrow> rd_u16s buf (i + 2) n; Some (w # ws) }"

definition CAN_Device_Paramset_Search_SetID :: "dev_state \<Rightarrow> u8 list \<Rightarrow> dev_state option" where
  "CAN_Device_Paramset_Search_SetID st buf = do {
     RecvID \<leftarrow> rd_u16 buf 26;
     RecvUUID \<leftarrow> rd_u16s buf 8 6;
     let check_sum = length (filter (\<lambda>k. RecvUUID ! k = ChipUniqueID (iap_param st) ! k) [0..<6]);
     Some (if check_sum = 6 then st\<lparr>iap_param := (iap_param st)\<lparr>ID := RecvID\<rparr>\<rparr> else st) }"

subsection \<open>Every constructor seals a well-formed frame\<close>

lemma length_can_header [simp]: "length (can_header n cmd st) = 8"
  by (simp add: can_header_def)

lemma construct_in:
  "length hdr + 2 = data_len \<Longrightarrow> 10 \<le> data_len \<Longrightarrow> data_len \<le> len \<Longrightarrow> len \<le> length buf \<Longrightarrow>
   construct data_len hdr buf len = Some (sealed hdr @ drop data_len buf, data_len)"
  by (simp add: construct_def seal_in)

lemma construct_small: "len < data_len \<Longrightarrow> construct data_len hdr buf len = Some (buf, 0)"
  by (simp add: construct_def)

lemma valid_can_frame:
  assumes "length payload + 10 = n" "n < 256"
  shows "valid_frame CAN_COMM_PROTOCOL_MAX_LEN (sealed (can_header n cmd st @ payload))"
proof (rule valid_sealed)
  show "can_header n cmd st @ payload =
      FRAME_HEAD # of_nat n # of_nat (n div 256) #
        (cmd # u16_bytes (remoteID (iap_param st)) @ u16_bytes (ID (iap_param st)) @ payload)"
    by (simp add: can_header_def)
  have "unat (of_nat n :: u8) = n" using assms(2) by (simp add: unat_of_nat)
  then show "unat (of_nat (n div 256) :: u8) * 256 + unat (of_nat n :: u8) = length (can_header n cmd st @ payload) + 2"
    using assms by simp
qed (use assms in auto)

definition builds_frame :: "(u8 list \<Rightarrow> nat \<Rightarrow> (u8 list \<times> nat) option) \<Rightarrow> nat \<Rightarrow> u8 \<Rightarrow> dev_state \<Rightarrow> bool" where
  "builds_frame f n cmd st \<longleftrightarrow>
     (\<forall>buf len. len \<le> length buf \<longrightarrow>
        (if len < n then f buf len = Some (buf, 0)
         else \<exists>msg. f buf len = Some (msg @ drop n buf, n) \<and> length msg = n \<and>
                valid_frame CAN_COMM_PROTOCOL_MAX_LEN msg \<and> take 8 msg = can_header n cmd st))"

lemma construct_builds_frame:
  "length payload + 10 = n \<Longrightarrow> n < 256 \<Longrightarrow> builds_frame (construct n (can_header n cmd st @ payload)) n cmd st"
  unfolding builds_frame_def
proof (intro allI impI)
  fix buf :: "u8 list" and len assume n: "length payload + 10 = n" "n < 256" and len: "len \<le> length buf"
  show "if len < n then construct n (can_header n cmd st @ payload) buf len = Some (buf, 0)
    else \<exists>msg. construct n (can_header n cmd st @ payload) buf len = Some (msg @ drop n buf, n) \<and>
           length msg = n \<and> valid_frame CAN_COMM_PROTOCOL_MAX_LEN msg \<and> take 8 msg = can_header n cmd st"
  proof (cases "len < n")
    case False
    then have "construct n (can_header n cmd st @ payload) buf len =
        Some (sealed (can_header n cmd st @ payload) @ drop n buf, n)"
      using n len by (intro construct_in) auto
    then show ?thesis
      using False n valid_can_frame [OF n, of cmd st]
      by (auto simp: sealed_def intro!: exI [of _ "sealed (can_header n cmd st @ payload)"])
  qed (simp add: construct_small)
qed

text \<open>
  Fact.  Every message the device answers with is a frame the other side's parser accepts: the
  constructor refuses a buffer that is too small without touching it, and otherwise leaves a
  well-formed frame of its fixed length that starts with head, length, command and both
  identifiers, followed by the old rest of the buffer.  (The answer to the self-test carries the
  search command.)
\<close>

theorem constructors_build_frames:
  "builds_frame (CAN_OTA_Start_ACK_Construct st) 10 CAN_OTA_Send_Start st \<and>
   builds_frame (CAN_OTA_Update_ACK_Construct st code) 13 CAN_OTA_Send_Update st \<and>
   builds_frame (CAN_OTA_End_ACK_Construct st) 10 CAN_OTA_Send_End st \<and>
   builds_frame (CAN_Paramset_Read_Construct st) 32 FUC_PARAMSET_READ st \<and>
   builds_frame (CAN_Paramset_Write_Construct st) 10 FUC_PARAMSET_WRITE st \<and>
   builds_frame (CAN_Paramset_Save_Construct st) 10 FUC_PARAMSET_SAVE st \<and>
   builds_frame (CAN_Device_Restart_Construct st) 10 FUC_DEVICE_RESTART st \<and>
   builds_frame (CAN_Paramset_Default_Construct st) 10 FUC_PARAMSET_DEFAULT st \<and>
   builds_frame (CAN_Device_Search_Construct st) 32 FUC_DEVICE_SEARCH st \<and>
   builds_frame (CAN_Device_Paramset_Search_Construct st) 10 FUC_DEVICE_PARAMSET_SEARCH st \<and>
   builds_frame (CAN_Automatic_Check_Construct st) 24 FUC_DEVICE_SEARCH st"
proof -
  have short: "builds_frame (construct 10 (can_header 10 cmd st)) 10 cmd st" for cmd
    using construct_builds_frame [of "[]" 10 cmd st] by simp
  have update: "builds_frame (CAN_OTA_Update_ACK_Construct st code) 13 CAN_OTA_Send_Update st"
    unfolding construct_defs by (rule construct_builds_frame) simp_all
  have read: "builds_frame (CAN_Paramset_Read_Construct st) 32 FUC_PARAMSET_READ st"
    unfolding construct_defs by (rule construct_builds_frame) (simp_all add: u32_low_bytes_def)
  have search: "builds_frame (CAN_Device_Search_Construct st) 32 FUC_DEVICE_SEARCH st"
    unfolding construct_defs by (rule construct_builds_frame) (simp_all add: length_concat sum_list_triv comp_def)
  have auto_check: "builds_frame (CAN_Automatic_Check_Construct st) 24 FUC_DEVICE_SEARCH st"
    unfolding construct_defs by (rule construct_builds_frame) simp_all
  show ?thesis
    using update read search auto_check
    by (simp add: short CAN_OTA_Start_ACK_Construct_def CAN_OTA_End_ACK_Construct_def CAN_Paramset_Write_Construct_def
        CAN_Paramset_Save_Construct_def CAN_Device_Restart_Construct_def CAN_Paramset_Default_Construct_def
        CAN_Device_Paramset_Search_Construct_def)
qed

end
