(* ===== verification/CanOta.thy ===== *)
theory CanOta imports Prelude DataLib Frame FlashIf DevState IapIf CopyArea CanSearch
begin

text \<open>
  \<open>can500_protocol_anylise\<close> of \<open>general_app/can_ota_protocol.c\<close>: find a frame in the received bytes,
  check whether it is for this device, and carry out its command.  One definition per group of
  commands; a \<open>NVIC_SystemReset\<close> is the last event of the trace, since the hardware restarts there.

  Two things are arguments: \<open>hw\<close>, the flash controller, and \<open>behind\<close>, the two bytes of the stack
  that lie behind the local header structure, which \<open>Flash_Storage_Header\<close> copies as well.
\<close>

datatype anylise_state = anylise_waiting | anylise_accept | anylise_reject

definition can500_scan :: "u8 list \<Rightarrow> nat \<Rightarrow> scan option" where
  "can500_scan buf len = frame_scan CAN_COMM_PROTOCOL_MAX_LEN buf len 0"

text \<open>\<open>send_len = construct(send_buf, sizeof(send_buf)); if (send_len) canbus_middle_send(...)\<close>\<close>

definition send_frame :: "(dev_state \<Rightarrow> u8 list \<Rightarrow> nat \<Rightarrow> (u8 list \<times> nat) option) \<Rightarrow> dev_state \<Rightarrow> dev_state option" where
  "send_frame f st = do {
     (send_buf, send_len) \<leftarrow> f st (replicate 100 0) 100;
     Some (if send_len \<noteq> 0 then emit_event (Can_send 0x500 (take send_len send_buf)) st else st) }"

definition ota_start :: "flash_hw \<Rightarrow> u8 list \<Rightarrow> dev_state \<Rightarrow> u8 list \<Rightarrow> nat \<Rightarrow> dev_state option" where
  "ota_start hw behind st buf i = do {
     ver \<leftarrow> rd_u16 buf (i + 8);
     total \<leftarrow> ArrayU8ToU32 buf (i + 12);
     sub \<leftarrow> ArrayU8ToU16 buf (i + 16);
     crc \<leftarrow> ArrayU8ToU32 buf (i + 18);
     let st = st\<lparr>can_ota := (can_ota st)\<lparr>OTA_UpdateFlag := 1, OTA_Version := ver, OTA_TotalSize := total,
                                          OTA_SubSize := ucast sub, OTA_CRC32 := crc\<rparr>\<rparr>;
     header \<leftarrow> memcpy (replicate sizeof_iap_updata_param 0) 0 buf (i + 8) sizeof_iap_updata_param;
     let header = u16_bytes ver @ drop 2 header;
     let copy_addr = addr_appcopy st;
     (d, _) \<leftarrow> Flash_Storage_Header hw (flash st) (header @ behind);
     let (d, _) = Flash_Erase_Page hw d copy_addr (unat total);
     send_frame CAN_OTA_Start_ACK_Construct (st\<lparr>flash := d\<rparr>) }"

definition ota_update :: "flash_hw \<Rightarrow> dev_state \<Rightarrow> u8 list \<Rightarrow> nat \<Rightarrow> nat \<Rightarrow> dev_state option" where
  "ota_update hw st buf i data_len = do {
     num \<leftarrow> ArrayU8ToU16 buf (i + 8);
     let st = st\<lparr>can_ota := (can_ota st)\<lparr>OTA_UpdateFlag := 2, OTA_Frame_Num := num\<rparr>\<rparr>;
     let offset = u32_mul (unat num) (unat (OTA_SubSize (can_ota st)));
     if 10 < data_len \<and> offset < OTA_BIN_MAX_SIZE then do {
       let updata_len = u32_sub data_len 12;
       (d, _) \<leftarrow> Flash_Write hw (flash st) (u32_add (addr_appcopy st) offset) (drop (i + 10) buf) updata_len;
       send_frame (\<lambda>st. CAN_OTA_Update_ACK_Construct st 0) (st\<lparr>flash := d\<rparr>) }
     else send_frame (\<lambda>st. CAN_OTA_Update_ACK_Construct st 1) st }"

definition ota_end :: "flash_hw \<Rightarrow> dev_state \<Rightarrow> dev_state option" where
  "ota_end hw st = do {
     let st = emit_event (Thread_delay 1) st;
     let st = st\<lparr>can_ota := (can_ota st)\<lparr>OTA_UpdateFlag := 3\<rparr>\<rparr>;
     st \<leftarrow> send_frame CAN_OTA_End_ACK_Construct st;
     let st = UpdateAppMode hw st;
     Some (emit_event System_reset (emit_event (Thread_delay 20) st)) }"

definition paramset_write :: "dev_state \<Rightarrow> u8 list \<Rightarrow> nat \<Rightarrow> dev_state option" where
  "paramset_write st buf i = do {
     st \<leftarrow> CAN_Paramset_Receive_Analyse st (drop i buf);
     send_frame CAN_Paramset_Write_Construct st }"

definition paramset_save :: "flash_hw \<Rightarrow> dev_state \<Rightarrow> dev_state option" where
  "paramset_save hw st = do {
     st \<leftarrow> stm32_param_save hw st;
     st \<leftarrow> iap_param_save hw st;
     send_frame CAN_Paramset_Save_Construct st }"

definition device_restart :: "dev_state \<Rightarrow> dev_state option" where
  "device_restart st = do {
     st \<leftarrow> send_frame CAN_Device_Restart_Construct st;
     Some (emit_event System_reset (emit_event (Thread_delay 10) st)) }"

definition paramset_default :: "flash_hw \<Rightarrow> dev_state \<Rightarrow> dev_state option" where
  "paramset_default hw st = do {
     st \<leftarrow> send_frame CAN_Paramset_Default_Construct st;
     stm32_param_default hw st }"

definition device_search :: "dev_state \<Rightarrow> dev_state option" where
  "device_search st = do {
     (send_buf, send_len) \<leftarrow> CAN_Device_Search_Construct st (replicate 100 0) 100;
     let id = ID (iap_param st);
     Some (if send_len \<noteq> 0 then
             emit_event (Can_send 0x500 (take send_len send_buf))
               (if id = 0xFFFF then st
                else emit_event (Thread_delay (unat (drop_bit 8 id AND 0xFF) * 10 + unat (id AND 0xFF) * 2)) st)
           else st) }"

definition device_paramset_search :: "dev_state \<Rightarrow> u8 list \<Rightarrow> nat \<Rightarrow> dev_state option" where
  "device_paramset_search st buf i = do {
     st \<leftarrow> CAN_Device_Paramset_Search_SetID st (drop i buf);
     send_frame CAN_Device_Paramset_Search_Construct st }"

definition can500_dispatch :: "flash_hw \<Rightarrow> u8 list \<Rightarrow> dev_state \<Rightarrow> u8 list \<Rightarrow> nat \<Rightarrow> nat \<Rightarrow> dev_state option" where
  "can500_dispatch hw behind st buf i data_len = do {
     cmd \<leftarrow> rd buf (i + 3);
     if cmd = CAN_OTA_Recv_Start then ota_start hw behind st buf i
     else if cmd = CAN_OTA_Recv_Update then ota_update hw st buf i data_len
     else if cmd = CAN_OTA_Recv_End then ota_end hw st
     else if cmd = FUC_PARAMSET_READ then send_frame CAN_Paramset_Read_Construct st
     else if cmd = FUC_PARAMSET_WRITE then paramset_write st buf i
     else if cmd = FUC_PARAMSET_SAVE then paramset_save hw st
     else if cmd = FUC_DEVICE_RESTART then device_restart st
     else if cmd = FUC_PARAMSET_DEFAULT then paramset_default hw st
     else if cmd = FUC_DEVICE_SEARCH then device_search st
     else if cmd = FUC_DEVICE_PARAMSET_SEARCH then device_paramset_search st buf i
     else if cmd = FUC_AUTOMATIC_CHECK then send_frame CAN_Automatic_Check_Construct st
     else Some st }"

definition can500_handle :: "flash_hw \<Rightarrow> u8 list \<Rightarrow> dev_state \<Rightarrow> u8 list \<Rightarrow> nat \<Rightarrow> nat \<Rightarrow> dev_state option" where
  "can500_handle hw behind st buf i data_len = do {
     dev_ID \<leftarrow> rd_u16 buf (i + 4);
     remote \<leftarrow> rd_u16 buf (i + 6);
     let st = st\<lparr>iap_param := (iap_param st)\<lparr>remoteID := remote\<rparr>\<rparr>;
     if ID (iap_param st) = dev_ID \<or> ID (iap_param st) = 0xFFFF
     then can500_dispatch hw behind st buf i data_len else Some st }"

definition can500_protocol_anylise ::
  "flash_hw \<Rightarrow> u8 list \<Rightarrow> dev_state \<Rightarrow> u8 list \<Rightarrow> nat \<Rightarrow> (dev_state \<times> anylise_state \<times> nat) option" where
  "can500_protocol_anylise hw behind st buf len =
     (if len < FRAME_MIN_LEN then Some (st, anylise_waiting, 0)
      else do {
        r \<leftarrow> can500_scan buf len;
        case r of
          Scan_waiting \<Rightarrow> Some (st, anylise_waiting, 0)
        | Scan_reject k \<Rightarrow> Some (st, anylise_reject, k)
        | Scan_accept i data_len \<Rightarrow> do {
            st \<leftarrow> can500_handle hw behind st buf i data_len;
            Some (st, anylise_accept, u32_add data_len i) } })"

subsection \<open>Frames of the host\<close>

definition host_frame :: "u8 \<Rightarrow> u16 \<Rightarrow> u16 \<Rightarrow> u8 list \<Rightarrow> u8 list" where
  "host_frame cmd dev remote payload = framed (cmd # u16_bytes dev @ u16_bytes remote @ payload)"

lemma length_host_frame [simp]: "length (host_frame cmd dev remote payload) = length payload + 10"
  by (simp add: host_frame_def)

lemma host_frame_layout:
  "host_frame cmd dev remote payload =
     [FRAME_HEAD, of_nat (length payload + 10), of_nat ((length payload + 10) div 256), cmd] @
     u16_bytes dev @ u16_bytes remote @ payload @
     drop (length payload + 8) (host_frame cmd dev remote payload)"
  unfolding host_frame_def by (subst framed_layout) (simp add: ac_simps)

lemma host_frame_payload:
  "k < length payload \<Longrightarrow> host_frame cmd dev remote payload ! (8 + k) = payload ! k"
  by (subst host_frame_layout) (simp add: nth_append u16_bytes_def)

lemma host_frame_drop:
  "take (length payload) (drop 8 (host_frame cmd dev remote payload @ rest)) = payload"
  by (subst host_frame_layout) (simp add: u16_bytes_def)

lemma host_frame_ids:
  "host_frame cmd dev remote payload ! 3 = cmd"
  "rd_u16 (host_frame cmd dev remote payload @ rest) 4 = Some dev"
  "rd_u16 (host_frame cmd dev remote payload @ rest) 6 = Some remote"
  by (subst host_frame_layout; simp add: u16_bytes_def rd_u16_def rd_def nth_append; fail)+

lemma valid_host_frame:
  "length payload + 10 \<le> CAN_COMM_PROTOCOL_MAX_LEN \<Longrightarrow> valid_frame CAN_COMM_PROTOCOL_MAX_LEN (host_frame cmd dev remote payload)"
  unfolding host_frame_def by (intro valid_framed) simp_all

definition addressed :: "dev_state \<Rightarrow> u16 \<Rightarrow> bool" where
  "addressed st dev \<longleftrightarrow> ID (iap_param st) = dev \<or> ID (iap_param st) = 0xFFFF"

definition heard :: "u16 \<Rightarrow> dev_state \<Rightarrow> dev_state" where
  "heard remote st = st\<lparr>iap_param := (iap_param st)\<lparr>remoteID := remote\<rparr>\<rparr>"

lemma can500_on_frame:
  assumes "length payload + 10 \<le> CAN_COMM_PROTOCOL_MAX_LEN" "length payload + 10 \<le> len" "len < U32_RANGE"
  shows "can500_protocol_anylise hw behind st (host_frame cmd dev remote payload @ rest) len =
    do { st \<leftarrow> (if addressed st dev
               then can500_dispatch hw behind (heard remote st) (host_frame cmd dev remote payload @ rest) 0 (length payload + 10)
               else Some (heard remote st));
         Some (st, anylise_accept, length payload + 10) }"
proof -
  let ?f = "host_frame cmd dev remote payload"
  have "frame_scan CAN_COMM_PROTOCOL_MAX_LEN (?f @ rest) len 0 = Some (Scan_accept 0 (length ?f))"
    using assms by (intro frame_scan_at_head valid_host_frame) (simp_all add: u32_sub_exact)
  then have s: "can500_scan (?f @ rest) len = Some (Scan_accept 0 (length payload + 10))"
    by (simp add: can500_scan_def)
  have a: "u32_add (length payload + 10) 0 = length payload + 10"
    using assms by (intro u32_add_exact [of _ 0, simplified]) simp
  have n: "\<not> len < FRAME_MIN_LEN" using assms(2) by simp
  show ?thesis
    unfolding can500_protocol_anylise_def if_not_P [OF n] s
    by (simp add: can500_handle_def host_frame_ids a Let_def heard_def addressed_def)
qed

lemma send_frame_builds:
  assumes "builds_frame (f st) n cmd st" "n \<le> 100" "0 < n"
  shows "\<exists>msg. send_frame f st = Some (emit_event (Can_send 0x500 msg) st) \<and> length msg = n \<and>
    valid_frame CAN_COMM_PROTOCOL_MAX_LEN msg \<and> take 8 msg = can_header n cmd st"
proof -
  obtain msg where msg: "f st (replicate 100 0) 100 = Some (msg @ drop n (replicate 100 0), n)" "length msg = n"
    "valid_frame CAN_COMM_PROTOCOL_MAX_LEN msg" "take 8 msg = can_header n cmd st"
    using assms(1,2) unfolding builds_frame_def by (metis length_replicate order_refl not_less)
  then show ?thesis using assms(3) by (intro exI [of _ msg]) (simp add: send_frame_def)
qed

lemma send_frame_ack:
  "\<exists>msg. send_frame (\<lambda>st. CAN_OTA_Update_ACK_Construct st code) st = Some (emit_event (Can_send 0x500 msg) st)"
  "\<exists>msg. send_frame CAN_OTA_Start_ACK_Construct st = Some (emit_event (Can_send 0x500 msg) st)"
  "\<exists>msg. send_frame CAN_OTA_End_ACK_Construct st = Some (emit_event (Can_send 0x500 msg) st)"
proof -
  have "builds_frame (CAN_OTA_Update_ACK_Construct st code) 13 CAN_OTA_Send_Update st"
    unfolding construct_defs by (rule construct_builds_frame) simp_all
  then show "\<exists>msg. send_frame (\<lambda>st. CAN_OTA_Update_ACK_Construct st code) st = Some (emit_event (Can_send 0x500 msg) st)"
    using send_frame_builds [of "\<lambda>st. CAN_OTA_Update_ACK_Construct st code" st 13] by auto
  have short: "builds_frame (construct 10 (can_header 10 cmd st)) 10 cmd st" for cmd
    using construct_builds_frame [of "[]" 10 cmd st] by simp
  show "\<exists>msg. send_frame CAN_OTA_Start_ACK_Construct st = Some (emit_event (Can_send 0x500 msg) st)"
    using send_frame_builds [of CAN_OTA_Start_ACK_Construct st 10] short
    by (auto simp: CAN_OTA_Start_ACK_Construct_def)
  show "\<exists>msg. send_frame CAN_OTA_End_ACK_Construct st = Some (emit_event (Can_send 0x500 msg) st)"
    using send_frame_builds [of CAN_OTA_End_ACK_Construct st 10] short
    by (auto simp: CAN_OTA_End_ACK_Construct_def)
qed

end
