(* ===== verification/CanSession.thy ===== *)
theory CanSession imports CanOta
begin

text \<open>
  What the handlers of \<open>CanOta\<close> do to a device over a run of received frames.  \<open>feed\<close> passes the
  frames one after the other to \<open>can500_protocol_anylise\<close>; \<open>session_inv\<close> is the invariant of an
  update session (the first packets of the image are in the copy area, the rest of the area is
  blank), which the start frame establishes, every update frame keeps and the end frame uses.
\<close>

subsection \<open>The start request\<close>

lemma ota_start_erases:
  assumes "nor_flash hw" "dev_ok st" "length behind = 2"
    "0 < unat (UpdatesTotalSize h)" "unat (UpdatesTotalSize h) \<le> OTA_BIN_MAX_SIZE"
    and buf_def: "buf = host_frame CAN_OTA_Recv_Start dev remote (updata_bytes h) @ rest"
  shows "\<exists>m msg. ota_start hw behind st buf 0 = Some (emit_event (Can_send 0x500 msg)
     (st\<lparr>can_ota := (can_ota st)\<lparr>OTA_UpdateFlag := 1, OTA_Version := Version h,
           OTA_TotalSize := UpdatesTotalSize h, OTA_SubSize := ucast (UpdatesSubSize h), OTA_CRC32 := UpdatesCRC32 h\<rparr>,
         flash := (flash st)\<lparr>locked := True, sr := FLASH_COMPLETE,
           cells := wipe m (addr_appcopy st) (pages_of (unat (UpdatesTotalSize h)) * FLASH_PAGE_SIZE)\<rparr>\<rparr>)) \<and>
     same_outside (page_from_end (flash st) FLASH_APP_INFO_ADDR) 28 (cells (flash st)) m"
proof -
  let ?T = "unat (UpdatesTotalSize h)"
  let ?st1 = "st\<lparr>can_ota := (can_ota st)\<lparr>OTA_UpdateFlag := 1, OTA_Version := Version h,
           OTA_TotalSize := UpdatesTotalSize h, OTA_SubSize := ucast (UpdatesSubSize h), OTA_CRC32 := UpdatesCRC32 h\<rparr>\<rparr>"
  have len: "36 \<le> length buf" by (simp add: buf_def)
  have pay: "take 26 (drop 8 buf) = updata_bytes h"
    using host_frame_drop [of "updata_bytes h" CAN_OTA_Recv_Start dev remote rest] by (simp add: buf_def)
  have ver: "take 2 (drop 8 buf) = u16_bytes (Version h)"
    using take_drop_inside [OF pay, of 0 2] by (simp add: updata_bytes_def)
  have v: "rd_u16 buf 8 = Some (Version h)"
  proof -
    have "buf ! 8 = ucast (Version h)" "buf ! 9 = ucast (drop_bit 8 (Version h))"
      using arg_cong [OF ver, of "\<lambda>xs. xs ! 0"] arg_cong [OF ver, of "\<lambda>xs. xs ! 1"] len
      by (simp_all add: u16_bytes_def)
    then show ?thesis using len by (simp add: rd_u16_def mem_simps)
  qed
  have t: "ArrayU8ToU32 buf 12 = Some (UpdatesTotalSize h)"
    using take_drop_inside [OF pay, of 4 4] len by (intro load_u32) (simp_all add: updata_bytes_def)
  have s: "ArrayU8ToU16 buf 16 = Some (UpdatesSubSize h)"
    using take_drop_inside [OF pay, of 8 2] len by (intro load_u16) (simp_all add: updata_bytes_def)
  have c: "ArrayU8ToU32 buf 18 = Some (UpdatesCRC32 h)"
    using take_drop_inside [OF pay, of 10 4] len by (intro load_u32) (simp_all add: updata_bytes_def)
  have mc: "memcpy (replicate 26 0) 0 buf 8 26 = Some (updata_bytes h)"
    using len pay by (simp add: memcpy_def)
  have same: "u16_bytes (Version h) @ drop 2 (updata_bytes h) @ xs = updata_bytes h @ xs" for xs
    by (simp add: updata_bytes_def)
  have ok: "ready (flash st)" "8 \<le> Get_FlashSize (flash st)" using assms(2) by (simp_all add: dev_ok_def)
  obtain m s' l r where h: "Flash_Storage_Header hw (flash st) (updata_bytes h @ behind) =
      Some ((flash st)\<lparr>locked := l, sr := s', cells := m\<rparr>, r)" "answered s'"
    "same_outside (page_from_end (flash st) FLASH_APP_INFO_ADDR) 28 (cells (flash st)) m"
    using Flash_Storage_Header_frame [OF assms(1) ok, of "updata_bytes h @ behind"] assms(3) by auto
  let ?d = "(flash st)\<lparr>locked := l, sr := s', cells := m\<rparr>"
  note copy = dev_ok_copy [OF assms(2,5)]
  have e: "Flash_Erase_Page hw ?d (addr_appcopy st) ?T =
     (?d\<lparr>locked := True, sr := FLASH_COMPLETE, cells := wipe (cells ?d) (addr_appcopy st) (pages_of ?T * FLASH_PAGE_SIZE)\<rparr>, 0)"
    using assms(4,5) copy h(2) by (intro Flash_Erase_Page_wipe assms(1)) (auto simp: ready_def)
  obtain msg where msg: "send_frame CAN_OTA_Start_ACK_Construct
      (?st1\<lparr>flash := ?d\<lparr>locked := True, sr := FLASH_COMPLETE, cells := wipe (cells ?d) (addr_appcopy st) (pages_of ?T * FLASH_PAGE_SIZE)\<rparr>\<rparr>) =
      Some (emit_event (Can_send 0x500 msg)
        (?st1\<lparr>flash := ?d\<lparr>locked := True, sr := FLASH_COMPLETE, cells := wipe (cells ?d) (addr_appcopy st) (pages_of ?T * FLASH_PAGE_SIZE)\<rparr>\<rparr>))"
    using send_frame_ack(2) by blast
  have ap: "addr_appcopy ?st1 = addr_appcopy st" by (simp add: addr_appcopy_def)
  have "ota_start hw behind st buf 0 = Some (emit_event (Can_send 0x500 msg)
        (?st1\<lparr>flash := ?d\<lparr>locked := True, sr := FLASH_COMPLETE, cells := wipe (cells ?d) (addr_appcopy st) (pages_of ?T * FLASH_PAGE_SIZE)\<rparr>\<rparr>))"
    unfolding ota_start_def using v t s c mc h(1) e msg by (simp add: Let_def same ap)
  then show ?thesis using h(3) by (intro exI [of _ m] exI [of _ msg]) simp
qed


subsection \<open>One update request\<close>

lemma ota_update_writes:
  assumes "nor_flash hw" "dev_ok st"
    and buf_def: "buf = host_frame CAN_OTA_Recv_Update dev remote (u16_bytes num @ chunk) @ rest"
    and off_def: "off = unat num * unat (OTA_SubSize (can_ota st))"
    and "off < OTA_BIN_MAX_SIZE" "off mod 4 = 0" "length chunk + 12 \<le> CAN_COMM_PROTOCOL_MAX_LEN"
    and "blank (flash st) (addr_appcopy st + off) (4 * ((length chunk + 3) div 4))"
  shows "\<exists>msg. ota_update hw st buf 0 (length chunk + 12) = Some (emit_event (Can_send 0x500 msg)
     (st\<lparr>can_ota := (can_ota st)\<lparr>OTA_UpdateFlag := 2, OTA_Frame_Num := num\<rparr>,
         flash := (flash st)\<lparr>locked := True, sr := FLASH_COMPLETE,
           cells := put (cells (flash st)) (addr_appcopy st + off) chunk\<rparr>\<rparr>))"
proof -
  let ?st1 = "st\<lparr>can_ota := (can_ota st)\<lparr>OTA_UpdateFlag := 2, OTA_Frame_Num := num\<rparr>\<rparr>"
  have pay: "take (2 + length chunk) (drop 8 buf) = u16_bytes num @ chunk"
    using host_frame_drop [of "u16_bytes num @ chunk"] by (simp add: buf_def)
  have n: "ArrayU8ToU16 buf 8 = Some num"
    using take_drop_inside [OF pay, of 0 2] by (intro load_u16) (simp_all add: buf_def)
  have data: "take (length chunk) (drop 10 buf) = chunk"
    using take_drop_inside [OF pay, of 2 "length chunk"] by simp
  have o: "u32_mul (unat num) (unat (OTA_SubSize (can_ota st))) = off"
    using assms(5) off_def by (simp add: u32_mul_def)
  have u: "u32_sub (length chunk + 12) 12 = length chunk"
    using assms(7) by (subst u32_sub_exact) auto
  note copy = dev_ok_copy [OF assms(2) order_refl]
  have a: "u32_add (addr_appcopy st) off = addr_appcopy st + off"
    using in_flash_less [OF copy(3) [of off]] assms(5) by (intro u32_add_exact) simp
  have m4: "(addr_appcopy st + off) mod 4 = 0" using copy(1) assms(6) by presburger
  have l: "length chunk \<le> length (drop 10 buf)" by (simp add: buf_def)
  have w: "Flash_Write hw (flash st) (addr_appcopy st + off) (drop 10 buf) (length chunk) =
      Some ((flash st)\<lparr>locked := True, sr := FLASH_COMPLETE, cells := put (cells (flash st)) (addr_appcopy st + off) chunk\<rparr>,
            length chunk)"
    using Flash_Write_blank [OF assms(1) m4 l _ assms(8)] assms(2) unfolding data by (simp add: dev_ok_def)
  obtain msg where msg: "send_frame (\<lambda>st. CAN_OTA_Update_ACK_Construct st 0)
      (?st1\<lparr>flash := (flash st)\<lparr>locked := True, sr := FLASH_COMPLETE, cells := put (cells (flash st)) (addr_appcopy st + off) chunk\<rparr>\<rparr>) =
      Some (emit_event (Can_send 0x500 msg)
        (?st1\<lparr>flash := (flash st)\<lparr>locked := True, sr := FLASH_COMPLETE, cells := put (cells (flash st)) (addr_appcopy st + off) chunk\<rparr>\<rparr>))"
    using send_frame_ack(1) by blast
  have ap: "addr_appcopy ?st1 = addr_appcopy st" by (simp add: addr_appcopy_def)
  show ?thesis
    unfolding ota_update_def using n assms(5) w msg
    by (intro exI [of _ msg]) (simp add: Let_def o u ap a)
qed

lemma ota_end_marks:
  assumes "nor_flash hw" "dev_ok st"
  shows "\<exists>st'. ota_end hw st = Some st' \<and> ReadIAPMode (flash st') = OTA_Update_APP \<and>
     last (outbox st') = System_reset \<and>
     (\<forall>b. b < page_from_end (flash st) FLASH_IAP_FLAG_ADDR \<longrightarrow> cells (flash st') b = cells (flash st) b)"
proof -
  let ?st1 = "(emit_event (Thread_delay 1) st)\<lparr>can_ota := (can_ota st)\<lparr>OTA_UpdateFlag := 3\<rparr>\<rparr>"
  obtain msg where s: "send_frame CAN_OTA_End_ACK_Construct ?st1 = Some (emit_event (Can_send 0x500 msg) ?st1)"
    using send_frame_ack(3) by blast
  let ?st2 = "emit_event (Can_send 0x500 msg) ?st1"
  have f: "flash ?st2 = flash st" by (simp add: emit_event_def)
  have "dev_ok ?st2" using assms(2) by (simp add: dev_ok_def emit_event_def)
  from UpdateAppMode_result [OF assms(1) this]
  have u: "ReadIAPMode (flash (UpdateAppMode hw ?st2)) = OTA_Update_APP"
    "\<forall>b. b < page_from_end (flash st) FLASH_IAP_FLAG_ADDR \<longrightarrow>
       cells (flash (UpdateAppMode hw ?st2)) b = cells (flash st) b"
    unfolding f by blast+
  have "ota_end hw st = Some (emit_event System_reset (emit_event (Thread_delay 20) (UpdateAppMode hw ?st2)))"
    using s by (simp add: ota_end_def Let_def emit_event_def)
  then show ?thesis using u by (simp add: emit_event_def)
qed


subsection \<open>A whole session\<close>

fun feed :: "flash_hw \<Rightarrow> u8 list \<Rightarrow> dev_state \<Rightarrow> u8 list list \<Rightarrow> dev_state option" where
  "feed hw behind st [] = Some st"
| "feed hw behind st (f # fs) =
     do { (st, _, _) \<leftarrow> can500_protocol_anylise hw behind st f (length f); feed hw behind st fs }"

definition session_inv :: "nat \<Rightarrow> u8 list \<Rightarrow> nat \<Rightarrow> nat \<Rightarrow> u16 \<Rightarrow> dev_state \<Rightarrow> bool" where
  "session_inv S img base k dev st \<longleftrightarrow>
     dev_ok st \<and> addressed st dev \<and> addr_appcopy st = base \<and> unat (OTA_SubSize (can_ota st)) = S \<and>
     copied S img base k (flash st)"

lemma feed_append: "feed hw behind st (fs @ gs) = do { st \<leftarrow> feed hw behind st fs; feed hw behind st gs }"
proof (induction fs arbitrary: st)
  case (Cons f fs)
  then show ?case by (cases "can500_protocol_anylise hw behind st f (length f)") auto
qed simp

lemma feed_frame:
  assumes "length payload + 10 \<le> CAN_COMM_PROTOCOL_MAX_LEN" "addressed st dev"
    "can500_dispatch hw behind (heard remote st) (host_frame cmd dev remote payload) 0 (length payload + 10) = Some st'"
  shows "feed hw behind st [host_frame cmd dev remote payload] = Some st'"
  using can500_on_frame [OF assms(1), of "length payload + 10" hw behind st cmd dev remote "[]"] assms
  by simp

lemma dev_ok_heard [simp]: "dev_ok (heard remote st) = dev_ok st"
  by (simp add: dev_ok_def heard_def)

lemma heard_fields [simp]:
  "flash (heard remote st) = flash st" "can_ota (heard remote st) = can_ota st"
  "addr_appcopy (heard remote st) = addr_appcopy st" "addressed (heard remote st) dev = addressed st dev"
  by (simp_all add: heard_def addr_appcopy_def addressed_def)

lemma session_step:
  assumes "nor_flash hw" "session_inv S img base k dev st" "0 < S" "S mod 4 = 0"
    "S + 12 \<le> CAN_COMM_PROTOCOL_MAX_LEN" "k * S < length img" "length img \<le> OTA_BIN_MAX_SIZE"
  shows "\<exists>st'. feed hw behind st [host_frame CAN_OTA_Recv_Update dev remote (u16_bytes (of_nat k) @ chunk_of S img k)] = Some st' \<and>
    session_inv S img base (k + 1) dev st'"
proof -
  define c where "c = chunk_of S img k"
  define num :: u16 where "num = of_nat k"
  have inv: "dev_ok st" "addressed st dev" "addr_appcopy st = base" "unat (OTA_SubSize (can_ota st)) = S"
    "copied S img base k (flash st)"
    using assms(2) by (auto simp: session_inv_def)
  note step = copied_step [OF inv(5) assms(3,4,6), folded c_def]
  have num: "unat num = k" unfolding num_def by (rule packet_number [OF assms(3,4,6,7)])
  let ?buf = "host_frame CAN_OTA_Recv_Update dev remote (u16_bytes num @ c)"
  let ?fl = "(flash st)\<lparr>locked := True, sr := FLASH_COMPLETE, cells := put (cells (flash st)) (base + k * S) c\<rparr>"
  let ?st1 = "(heard remote st)\<lparr>can_ota := (can_ota st)\<lparr>OTA_UpdateFlag := 2, OTA_Frame_Num := num\<rparr>, flash := ?fl\<rparr>"
  have len: "length c + 12 \<le> CAN_COMM_PROTOCOL_MAX_LEN" using assms(5) step(3) by linarith
  obtain msg where "ota_update hw (heard remote st) (?buf @ []) 0 (length c + 12) = Some (emit_event (Can_send 0x500 msg) ?st1)"
    using ota_update_writes [OF assms(1), of "heard remote st" "?buf @ []" dev remote num c "[]" "k * S"]
      inv(1-4) num len assms(6,7) step(1,4) by auto
  then have "can500_dispatch hw behind (heard remote st) ?buf 0 (length (u16_bytes num @ c) + 10) =
      Some (emit_event (Can_send 0x500 msg) ?st1)" by (simp add: can500_dispatch_def mem_simps host_frame_ids add.commute)
  from feed_frame [OF _ inv(2) this]
  have f: "feed hw behind st [?buf] = Some (emit_event (Can_send 0x500 msg) ?st1)" using len by simp
  have "dev_ok (emit_event (Can_send 0x500 msg) ?st1)"
    using inv(1) by (simp add: dev_ok_def emit_event_def ready_def heard_def Get_FlashSize_def)
  moreover have "copied S img base (k + 1) ?fl" by (rule step(2)) simp_all
  ultimately have "session_inv S img base (k + 1) dev (emit_event (Can_send 0x500 msg) ?st1)"
    using inv(2-4) by (simp add: session_inv_def emit_event_def addressed_def heard_def addr_appcopy_def page_from_end_def Get_FlashSize_def)
  then show ?thesis using f unfolding c_def num_def by blast
qed

definition update_frame :: "nat \<Rightarrow> u8 list \<Rightarrow> u16 \<Rightarrow> u16 \<Rightarrow> nat \<Rightarrow> u8 list" where
  "update_frame S img dev remote k =
     host_frame CAN_OTA_Recv_Update dev remote (u16_bytes (of_nat k) @ chunk_of S img k)"

definition session_frames :: "iap_updata_param_type \<Rightarrow> u8 list \<Rightarrow> u16 \<Rightarrow> u16 \<Rightarrow> u8 list list" where
  "session_frames h img dev remote =
     (let S = unat (UpdatesSubSize h) in
      [host_frame CAN_OTA_Recv_Start dev remote (updata_bytes h)] @
      map (update_frame S img dev remote) [0..<packets S img] @
      [host_frame CAN_OTA_Recv_End dev remote []])"

lemma session_updates:
  assumes "nor_flash hw" "session_inv S img base 0 dev st" "0 < S" "S mod 4 = 0"
    "S + 12 \<le> CAN_COMM_PROTOCOL_MAX_LEN" "length img \<le> OTA_BIN_MAX_SIZE" "n \<le> packets S img"
  shows "\<exists>st'. feed hw behind st (map (update_frame S img dev remote) [0..<n]) = Some st' \<and>
    session_inv S img base n dev st'"
  using assms(7)
proof (induction n)
  case 0
  then show ?case using assms(2) by simp
next
  case (Suc n)
  then obtain st1 where st1: "feed hw behind st (map (update_frame S img dev remote) [0..<n]) = Some st1"
    "session_inv S img base n dev st1" by auto
  have "n * S < length img" using packets_cover(2) [OF assms(3)] Suc.prems by simp
  from session_step [OF assms(1) st1(2) assms(3-5) this assms(6), of behind remote] obtain st2 where
    "feed hw behind st1 [update_frame S img dev remote n] = Some st2" "session_inv S img base (n + 1) dev st2"
    unfolding update_frame_def by blast
  then show ?case using st1(1) by (simp add: feed_append)
qed

lemma session_begins:
  assumes "nor_flash hw" "dev_ok st" "addressed st dev" "length behind = 2"
    "unat (UpdatesTotalSize h) = length img" "img \<noteq> []" "length img \<le> OTA_BIN_MAX_SIZE"
  shows "\<exists>st'. feed hw behind st [host_frame CAN_OTA_Recv_Start dev remote (updata_bytes h)] = Some st' \<and>
    session_inv (unat (UpdatesSubSize h)) img (addr_appcopy st) 0 dev st'"
proof -
  let ?f = "host_frame CAN_OTA_Recv_Start dev remote (updata_bytes h)"
  let ?T = "length img"
  obtain m msg where s: "ota_start hw behind (heard remote st) (?f @ []) 0 = Some (emit_event (Can_send 0x500 msg)
     ((heard remote st)\<lparr>can_ota := (can_ota st)\<lparr>OTA_UpdateFlag := 1, OTA_Version := Version h,
           OTA_TotalSize := UpdatesTotalSize h, OTA_SubSize := ucast (UpdatesSubSize h), OTA_CRC32 := UpdatesCRC32 h\<rparr>,
         flash := (flash st)\<lparr>locked := True, sr := FLASH_COMPLETE,
           cells := wipe m (addr_appcopy st) (pages_of ?T * FLASH_PAGE_SIZE)\<rparr>\<rparr>))" (is "_ = Some ?st1")
    using ota_start_erases [OF assms(1) _ assms(4) _ _ refl, of "heard remote st" h dev remote "[]"] assms(2,5-7)
    by auto
  have "can500_dispatch hw behind (heard remote st) ?f 0 (length (updata_bytes h) + 10) = Some ?st1"
    using s by (simp add: can500_dispatch_def mem_simps host_frame_ids)
  from feed_frame [OF _ assms(3) this] have f: "feed hw behind st [?f] = Some ?st1" by simp
  note copy = dev_ok_copy [OF assms(2,7)]
  have same: "addr_appcopy ?st1 = addr_appcopy st"
    by (simp add: emit_event_def addr_appcopy_def page_from_end_def Get_FlashSize_def)
  have ok: "dev_ok ?st1" using assms(2) by (simp add: dev_ok_def emit_event_def ready_def heard_def Get_FlashSize_def)
  have "copied (unat (UpdatesSubSize h)) img (addr_appcopy st) 0 (flash ?st1)"
    using copy(3,4) by (intro copied_wiped) (auto simp: emit_event_def in_flash_def Get_FlashSize_def)
  then have "session_inv (unat (UpdatesSubSize h)) img (addr_appcopy st) 0 dev ?st1"
    using ok same assms(3) unfolding session_inv_def
    using mod_less [OF order_less_trans [OF unat_u16_less [of "UpdatesSubSize h"]], of U32_RANGE]
    by (simp add: emit_event_def addressed_def heard_def unat_ucast)
  then show ?thesis using f by blast
qed

lemma ota_session_result:
  assumes "nor_flash hw" "dev_ok st" "addressed st dev" "length behind = 2"
    "unat (UpdatesTotalSize h) = length img" "img \<noteq> []" "length img \<le> OTA_BIN_MAX_SIZE"
    "0 < unat (UpdatesSubSize h)" "unat (UpdatesSubSize h) mod 4 = 0"
    "unat (UpdatesSubSize h) + 12 \<le> CAN_COMM_PROTOCOL_MAX_LEN"
  shows "\<exists>st'. feed hw behind st (session_frames h img dev remote) = Some st' \<and>
    map (cells (flash st')) [addr_appcopy st..<addr_appcopy st + length img] = img \<and>
    ReadIAPMode (flash st') = OTA_Update_APP \<and> last (outbox st') = System_reset"
proof -
  let ?S = "unat (UpdatesSubSize h)" and ?base = "addr_appcopy st"
  let ?n = "packets ?S img"
  obtain st1 where st1: "feed hw behind st [host_frame CAN_OTA_Recv_Start dev remote (updata_bytes h)] = Some st1"
    "session_inv ?S img ?base 0 dev st1" using session_begins [OF assms(1-7)] by blast
  obtain st2 where st2: "feed hw behind st1 (map (update_frame ?S img dev remote) [0..<?n]) = Some st2"
    "session_inv ?S img ?base ?n dev st2"
    using session_updates [OF assms(1) st1(2) assms(8-10,7) order_refl] by blast
  have inv: "dev_ok st2" "addressed st2 dev" "addr_appcopy st2 = ?base"
    "map (cells (flash st2)) [?base..<?base + length img] = img"
    using st2(2) copied_all [OF assms(8)] by (auto simp: session_inv_def)
  let ?f = "host_frame CAN_OTA_Recv_End dev remote []"
  obtain st3 where st3: "ota_end hw (heard remote st2) = Some st3" "ReadIAPMode (flash st3) = OTA_Update_APP"
    "last (outbox st3) = System_reset"
    "\<forall>b. b < page_from_end (flash st2) FLASH_IAP_FLAG_ADDR \<longrightarrow> cells (flash st3) b = cells (flash st2) b"
    using ota_end_marks [OF assms(1), of "heard remote st2"] inv(1) by auto
  have "can500_dispatch hw behind (heard remote st2) ?f 0 (length ([] :: u8 list) + 10) = Some st3"
    using st3(1) by (simp add: can500_dispatch_def mem_simps host_frame_ids)
  from feed_frame [OF _ inv(2) this] have f: "feed hw behind st2 [?f] = Some st3" by simp
  have "?base = page_from_end (flash st2) FLASH_APP_COPY_ADDR" using inv(3) by (simp add: addr_appcopy_def)
  then have "?base + OTA_BIN_MAX_SIZE \<le> page_from_end (flash st2) FLASH_IAP_FLAG_ADDR"
    using inv(1) by (simp add: page_from_end_exact dev_ok_def)
  then have "map (cells (flash st3)) [?base..<?base + length img] = img"
    using st3(4) assms(7) by (subst inv(4) [symmetric]) (auto intro!: map_cong)
  moreover have "feed hw behind st (session_frames h img dev remote) = Some st3"
    using st1(1) st2(1) f unfolding session_frames_def Let_def
    by (simp only: feed_append bind.bind_lunit)
  ultimately show ?thesis using st3(2,3) by blast
qed

subsection \<open>Update packets that are too short\<close>

lemma write_words_overread:
  assumes "nor_flash hw" "addr mod 4 = 0" "length buf < len"
  shows "unlocked d \<Longrightarrow> i mod 4 = 0 \<Longrightarrow> i \<le> length buf \<Longrightarrow> blank d (addr + i) (length buf - i) \<Longrightarrow>
    write_words hw d addr buf i len = None"
proof (induction "length buf - i" arbitrary: i d rule: less_induct)
  case less
  show ?case
  proof (cases "i + 4 \<le> length buf")
    case False
    then have "ArrayU8ToU32 buf i = None"
      by (auto simp: ArrayU8ToU32_def rd_def split: bind_splits)
    moreover have "i < len" using assms(3) less.prems(3) by simp
    ultimately show ?thesis by (subst write_words.simps) simp
  next
    case True
    let ?xs = "take 4 (drop i buf)"
    obtain w where w: "ArrayU8ToU32 buf i = Some w" "u32_bytes w = ?xs" using ArrayU8ToU32_bytes [OF True] by blast
    have b4: "blank d (addr + i) 4" using less.prems(4) by (rule blank_sub) (use True in auto)
    then have "in_flash d (addr + i)" by (simp add: blank_def)
    then have a: "u32_add addr i = addr + i" using in_flash_less by (intro u32_add_exact) force
    have ev: "even (addr + i)" using assms(2) less.prems(2) by presburger
    have p: "FLASH_ProgramWord hw d (addr + i) w = (d\<lparr>cells := put (cells d) (addr + i) ?xs\<rparr>, FLASH_COMPLETE)"
      using FLASH_ProgramWord_blank [OF assms(1) less.prems(1) ev b4] w(2) by simp
    have "blank d (addr + (i + 4)) (length buf - (i + 4))" using less.prems(4) by (rule blank_sub) (use True in auto)
    then have "blank (d\<lparr>cells := put (cells d) (addr + i) ?xs\<rparr>) (addr + (i + 4)) (length buf - (i + 4))"
      by (rule blank_put) (use True in simp)
    then have "write_words hw (d\<lparr>cells := put (cells d) (addr + i) ?xs\<rparr>) addr buf (i + 4) len = None"
      using less.prems True by (intro less.hyps) auto
    moreover have "i < len" using assms(3) True by simp
    ultimately show ?thesis by (subst write_words.simps) (simp add: w(1) a p)
  qed
qed

lemma Flash_Write_overread:
  assumes "nor_flash hw" "addr mod 4 = 0" "length buf + 3 < len" "ready d" "blank d addr (length buf)"
  shows "Flash_Write hw d addr buf len = None"
proof -
  let ?d = "d\<lparr>locked := False, sr := FLASH_COMPLETE\<rparr>"
  have "len mod 4 < 4" by simp
  then have n: "length buf < len - len mod 4" using assms(3) by linarith
  have "blank ?d (addr + 0) (length buf - 0)" using assms(5) by (simp add: blank_def in_flash_def erased_def Get_FlashSize_def)
  then have "write_words hw ?d addr buf 0 (len - len mod 4) = None"
    by (intro write_words_overread [OF assms(1,2) n]) simp_all
  then show ?thesis using assms(2) by (simp add: Flash_Write_def Flash_Unlock_ready [OF assms(4)])
qed

text \<open>
  Property C23.  The guard of the update command lets a frame of eleven bytes pass, from which the
  handler then takes \<open>11 - 12\<close> bytes of data: on blank flash it programs the receive buffer from
  its end on and reads behind it, instead of answering the error code.
\<close>

theorem short_update_overreads:
  assumes "nor_flash hw" "dev_ok st" "addressed st dev"
    and "buf = host_frame CAN_OTA_Recv_Update dev remote [x] @ rest"
    and "off = unat (u16_of x (buf ! 9)) * unat (OTA_SubSize (can_ota st))"
    and "off < OTA_BIN_MAX_SIZE" "off mod 4 = 0" "length buf < 4000"
    and "blank (flash st) (addr_appcopy st + off) (length rest + 1)"
  shows "can500_protocol_anylise hw behind st buf (length buf) = None"
proof -
  define num where "num = u16_of x (buf ! 9)"
  have len: "length buf = length rest + 11" using assms(4) by simp
  have "buf ! 8 = x"
    using host_frame_payload [of 0 "[x]" CAN_OTA_Recv_Update dev remote] assms(4) by (simp add: nth_append)
  moreover have "push_bit 8 (ucast (buf ! 9) :: u16) + ucast x = u16_of x (buf ! 9)"
    unfolding u16_of_def by (rule disjunctive_add) (auto simp: bit_simps dest: bit_imp_le_length)
  ultimately have n: "ArrayU8ToU16 buf 8 = Some num"
    using len by (simp add: ArrayU8ToU16_in num_def add.commute)
  let ?st = "heard remote st" and ?off = off
  let ?st1 = "?st\<lparr>can_ota := (can_ota st)\<lparr>OTA_UpdateFlag := 2, OTA_Frame_Num := num\<rparr>\<rparr>"
  have o: "u32_mul (unat num) (unat (OTA_SubSize (can_ota st))) = off"
    using assms(5,6) by (simp add: u32_mul_def num_def)
  note copy = dev_ok_copy [OF assms(2) order_refl]
  have a: "u32_add (addr_appcopy st) off = addr_appcopy st + off"
    using in_flash_less [OF copy(3) [of off]] assms(6) by (intro u32_add_exact) simp
  have m4: "(addr_appcopy st + off) mod 4 = 0" using copy(1) assms(7) by presburger
  have u: "u32_sub 11 12 = U32_RANGE - 1" by (simp add: u32_sub_def)
  have w: "Flash_Write hw (flash st) (addr_appcopy st + off) (drop 10 buf) (U32_RANGE - 1) = None"
    using assms(2,8,9) len by (intro Flash_Write_overread assms(1) m4) (simp_all add: dev_ok_def)
  have ap: "addr_appcopy ?st1 = addr_appcopy st" by (simp add: addr_appcopy_def heard_def)
  have "ota_update hw ?st buf 0 11 = None"
    unfolding ota_update_def using n assms(6) w by (simp add: Let_def o u ap a)
  then have "can500_dispatch hw behind ?st buf 0 (length [x] + 10) = None"
    using assms(4) by (simp add: can500_dispatch_def mem_simps host_frame_ids nth_append)
  then show ?thesis
    using can500_on_frame [of "[x]" "length buf" hw behind st CAN_OTA_Recv_Update dev remote rest] assms(3,4,8) len by simp
qed


text \<open>
  Fact.  Whatever the flash holds, an update packet changes only the copy area and at most the
  page behind it: boot loader, running application, image header, parameters and boot flag keep
  their bytes.
\<close>

theorem ota_update_keeps_other_pages:
  assumes "nor_flash hw" "dev_ok st" "12 \<le> data_len" "data_len \<le> CAN_COMM_PROTOCOL_MAX_LEN"
    "i + data_len \<le> length buf" "ota_update hw st buf i data_len = Some st'"
    "b < addr_appcopy st \<or> page_from_end (flash st) FLASH_APP_INFO_ADDR \<le> b"
  shows "cells (flash st') b = cells (flash st) b"
proof -
  obtain num where num: "ArrayU8ToU16 buf (i + 8) = Some num"
    using assms(6) unfolding ota_update_def by (auto split: bind_splits)
  let ?st1 = "st\<lparr>can_ota := (can_ota st)\<lparr>OTA_UpdateFlag := 2, OTA_Frame_Num := num\<rparr>\<rparr>"
  define off where "off = u32_mul (unat num) (unat (OTA_SubSize (can_ota st)))"
  have sent: "flash s' = flash s" if "send_frame (\<lambda>st. CAN_OTA_Update_ACK_Construct st code) s = Some s'" for code s s'
    using send_frame_ack(1) [of code s] that by (auto simp: emit_event_def)
  show ?thesis
  proof (cases "off < OTA_BIN_MAX_SIZE")
    case False
    then have "send_frame (\<lambda>st. CAN_OTA_Update_ACK_Construct st 1) ?st1 = Some st'"
      using assms(6) num by (simp add: ota_update_def Let_def off_def)
    from sent [OF this] show ?thesis by simp
  next
    case True
    note copy = dev_ok_copy [OF assms(2) order_refl]
    let ?a = "addr_appcopy st + off" and ?n = "data_len - 12"
    have a: "u32_add (addr_appcopy st) off = ?a"
      using in_flash_less [OF copy(3) [of off]] True by (intro u32_add_exact) simp
    have n: "u32_sub data_len 12 = ?n" using assms(3,4) by (intro u32_sub_exact) auto
    have ap: "addr_appcopy ?st1 = addr_appcopy st" by (simp add: addr_appcopy_def)
    obtain d r where w: "Flash_Write hw (flash st) ?a (drop (i + 10) buf) ?n = Some (d, r)"
      "send_frame (\<lambda>st. CAN_OTA_Update_ACK_Construct st 0) (?st1\<lparr>flash := d\<rparr>) = Some st'"
      using assms(3,6) num True unfolding ota_update_def
      by (auto simp: Let_def off_def [symmetric] ap a n split: bind_splits)
    have d: "flash st' = d" using sent [OF w(2)] by simp
    show ?thesis
    proof (cases "?a mod 4 = 0")
      case False
      then show ?thesis using w(1) d by (simp add: Flash_Write_def Let_def)
    next
      case a4: True
      have inf: "in_flash (flash st) (?a + c)" if "c < ?n + 3" for c
        using copy(3) [of "off + c"] that True assms(4) by (simp add: add.assoc)
      have "?n \<le> length (drop (i + 10) buf)" "ready (flash st)" using assms(2-5) by (simp_all add: dev_ok_def)
      from Flash_Write_frame [OF assms(1) a4 this inf] w(1)
      have "same_outside ?a (?n + 3) (cells (flash st)) (cells d)" by auto
      moreover have "b < ?a \<or> ?a + (?n + 3) \<le> b"
        using assms(2,4,7) True unfolding addr_appcopy_def dev_ok_def by (auto simp: page_from_end_exact)
      ultimately show ?thesis by (auto simp: same_outside_def d)
    qed
  qed
qed

text \<open>
  Property C22.  Only a well-formed frame that carries the identifier of the device (or any frame, as
  long as the device has none) is acted upon: everything else leaves the state unchanged, except
  that a frame for another device still replaces the stored remote identifier.
\<close>

theorem can500_acts_on_addressed_frames:
  assumes "can500_protocol_anylise hw behind st buf len = Some (st', s, n)"
  shows "st' = st \<and> s \<noteq> anylise_accept \<or>
    (\<exists>i m dev remote. i + m \<le> length buf \<and> valid_frame CAN_COMM_PROTOCOL_MAX_LEN (take m (drop i buf)) \<and>
       s = anylise_accept \<and> n = u32_add m i \<and>
       rd_u16 buf (i + 4) = Some dev \<and> rd_u16 buf (i + 6) = Some remote \<and>
       (if addressed st dev then can500_dispatch hw behind (heard remote st) buf i m = Some st'
        else st' = heard remote st))"
proof (cases "len < FRAME_MIN_LEN")
  case True
  then show ?thesis using assms by (simp add: can500_protocol_anylise_def)
next
  case False
  then obtain r where r: "can500_scan buf len = Some r"
    using assms by (auto simp: can500_protocol_anylise_def split: bind_splits)
  show ?thesis
  proof (cases r)
    case (Scan_accept i m)
    then have "i + m \<le> length buf" "valid_frame CAN_COMM_PROTOCOL_MAX_LEN (take m (drop i buf))"
      using r frame_scan_accept by (auto simp: can500_scan_def)
    then show ?thesis
      using assms False r Scan_accept
      by (auto simp: can500_protocol_anylise_def can500_handle_def Let_def addressed_def heard_def
          split: bind_splits if_splits)
  qed (use assms False r in \<open>auto simp: can500_protocol_anylise_def\<close>)
qed

subsection \<open>Setting the identifier of one device on the bus\<close>

lemma rd_u16s_bytes:
  "rd_u16s (pre @ concat (map u16_bytes ws) @ post) (length pre) (length ws) = Some ws"
proof (induction ws arbitrary: pre)
  case (Cons w ws)
  have "rd_u16 (pre @ u16_bytes w @ concat (map u16_bytes ws) @ post) (length pre) = Some w"
    by (simp add: rd_u16_def rd_def nth_append u16_bytes_def)
  moreover have "rd_u16s (pre @ u16_bytes w @ concat (map u16_bytes ws) @ post) (length pre + 2) (length ws) = Some ws"
    using Cons.IH [of "pre @ u16_bytes w"] by simp
  ultimately show ?case by simp
qed simp

definition set_id_payload :: "u16 list \<Rightarrow> u8 list \<Rightarrow> u16 \<Rightarrow> u8 list" where
  "set_id_payload uuid filler new_id = concat (map u16_bytes uuid) @ filler @ u16_bytes new_id"

text \<open>
  Fact.  The request that assigns an identifier reaches every device, and exactly the one whose
  chip identifier it names takes the new identifier.
\<close>

theorem set_id_selects_device:
  assumes "dev_ok st" "addressed st dev" "length uuid = 6" "length filler = 6"
  shows "\<exists>st'. feed hw behind st [host_frame FUC_DEVICE_PARAMSET_SEARCH dev remote (set_id_payload uuid filler new_id)] = Some st' \<and>
    iap_param st' = (iap_param st)\<lparr>remoteID := remote,
      ID := (if uuid = ChipUniqueID (iap_param st) then new_id else ID (iap_param st))\<rparr>"
proof -
  let ?p = "set_id_payload uuid filler new_id" and ?s = "heard remote st"
  let ?f = "host_frame FUC_DEVICE_PARAMSET_SEARCH dev remote ?p"
  have n12: "length (concat (map u16_bytes uuid)) = 12" using assms(3) by (simp add: length_concat comp_def sum_list_triv)
  then have len: "length ?p = 20" using assms(4) by (simp add: set_id_payload_def)
  define pre where "pre = [FRAME_HEAD, of_nat (length ?p + 10), of_nat ((length ?p + 10) div 256), FUC_DEVICE_PARAMSET_SEARCH] @
     u16_bytes dev @ u16_bytes remote"
  obtain post where lay: "?f = pre @ concat (map u16_bytes uuid) @ filler @ u16_bytes new_id @ post"
    using host_frame_layout [of FUC_DEVICE_PARAMSET_SEARCH dev remote ?p] unfolding pre_def set_id_payload_def by auto
  have pre: "length pre = 8" by (simp add: pre_def)
  have ids: "rd_u16 ?f 26 = Some new_id"
    unfolding lay using pre n12 assms(4) by (simp add: rd_u16_def rd_def nth_append u16_bytes_def)
  have us: "rd_u16s ?f 8 6 = Some uuid"
    using rd_u16s_bytes [of pre uuid "filler @ u16_bytes new_id @ post"] unfolding lay pre assms(3) by simp
  have c6: "length (ChipUniqueID (iap_param ?s)) = 6" using assms(1) by (simp add: dev_ok_def heard_def)
  have "length (filter (\<lambda>k. uuid ! k = ChipUniqueID (iap_param ?s) ! k) [0..<6]) = 6 \<longleftrightarrow> uuid = ChipUniqueID (iap_param ?s)"
  proof -
    have "length (filter P [0..<6]) = 6 \<longleftrightarrow> (\<forall>k<6. P k)" for P
      using length_filter_less [of _ "[0..<6]" P] by (auto simp: less_le)
    then show ?thesis using assms(3) c6 by (auto simp: list_eq_iff_nth_eq)
  qed
  then have s: "CAN_Device_Paramset_Search_SetID ?s ?f =
      Some (if uuid = ChipUniqueID (iap_param ?s) then ?s\<lparr>iap_param := (iap_param ?s)\<lparr>ID := new_id\<rparr>\<rparr> else ?s)"
    (is "_ = Some ?t") using ids us by (simp add: CAN_Device_Paramset_Search_SetID_def)
  have "builds_frame (CAN_Device_Paramset_Search_Construct ?t) 10 FUC_DEVICE_PARAMSET_SEARCH ?t"
    using construct_builds_frame [of "[]" 10 FUC_DEVICE_PARAMSET_SEARCH ?t] by (simp add: CAN_Device_Paramset_Search_Construct_def)
  from send_frame_builds [where f = CAN_Device_Paramset_Search_Construct, OF this] obtain msg where
    m: "send_frame CAN_Device_Paramset_Search_Construct ?t = Some (emit_event (Can_send 0x500 msg) ?t)" by auto
  have "can500_dispatch hw behind ?s ?f 0 (length ?p + 10) = Some (emit_event (Can_send 0x500 msg) ?t)"
    using s m by (simp add: can500_dispatch_def mem_simps host_frame_ids len device_paramset_search_def)
  from feed_frame [OF _ assms(2) this] len
  have "feed hw behind st [?f] = Some (emit_event (Can_send 0x500 msg) ?t)" by simp
  then show ?thesis by (auto simp: emit_event_def heard_def)
qed


subsection \<open>The update session\<close>

text \<open>
  Property C3.  An update session delivers the image: the start frame, the packets in order and the end
  frame, sent to a device in any state, leave every byte of the image at the address of the copy
  area and the boot flag at \<open>OTA_Update_APP\<close>, and the last thing the device does is its reset.  The
  packets are of a size that is a multiple of four and fits a frame.
\<close>

theorem ota_session_stores_image:
  assumes "nor_flash hw" "dev_ok st" "addressed st dev" "length behind = 2"
    "unat (UpdatesTotalSize h) = length img" "img \<noteq> []" "length img \<le> OTA_BIN_MAX_SIZE"
    "0 < unat (UpdatesSubSize h)" "unat (UpdatesSubSize h) mod 4 = 0"
    "unat (UpdatesSubSize h) + 12 \<le> CAN_COMM_PROTOCOL_MAX_LEN"
  shows "\<exists>st'. feed hw behind st (session_frames h img dev remote) = Some st' \<and>
    map (cells (flash st')) [addr_appcopy st..<addr_appcopy st + length img] = img \<and>
    ReadIAPMode (flash st') = OTA_Update_APP \<and> last (outbox st') = System_reset"
  by (rule ota_session_result [OF assms])

definition small_header :: iap_updata_param_type where
  "small_header = \<lparr>Version = 2, CompressFlag = 0, UpdatesTotalSize = 6, UpdatesSubSize = 4, UpdatesCRC32 = 0,
     ComPackOriginalSize = 0, ComPackNo = 0, PerComPackOriginalSize = 0, ComPackOriginalCRC32 = 0\<rparr>"

lemma blank_device_addressed: "addressed blank_device 0x0801"
  by (simp add: addressed_def blank_device_def)

lemma blank_device_blank:
  "in_flash (flash blank_device) a \<Longrightarrow> in_flash (flash blank_device) (a + n) \<Longrightarrow> blank (flash blank_device) a n"
  by (auto simp: blank_device_def blank_def in_flash_def erased_def Get_FlashSize_def)

theorem ota_session_stores_image_witness:
  "\<exists>st'. feed nor_hw [0, 0] blank_device (session_frames small_header [1, 2, 3, 4, 5, 6] 0x0801 1) = Some st' \<and>
     map (cells (flash st')) [addr_appcopy blank_device..<addr_appcopy blank_device + 6] = [1, 2, 3, 4, 5, 6] \<and>
     ReadIAPMode (flash st') = OTA_Update_APP"
proof -
  have "length [1, 2, 3, 4, 5, 6 :: u8] = 6" by simp
  moreover have "\<exists>st'. feed nor_hw [0, 0] blank_device (session_frames small_header [1, 2, 3, 4, 5, 6] 0x0801 1) = Some st' \<and>
     map (cells (flash st')) [addr_appcopy blank_device..<addr_appcopy blank_device + length [1, 2, 3, 4, 5, 6 :: u8]] = [1, 2, 3, 4, 5, 6] \<and>
     ReadIAPMode (flash st') = OTA_Update_APP \<and> last (outbox st') = System_reset"
    by (rule ota_session_stores_image [OF nor_hw_is_nor blank_device_ok blank_device_addressed])
      (simp_all add: small_header_def)
  ultimately show ?thesis by metis
qed

theorem short_update_overreads_witness:
  "can500_protocol_anylise nor_hw [0, 0] blank_device (host_frame CAN_OTA_Recv_Update 0x0801 0 [7]) 11 = None"
proof -
  have "blank (flash blank_device) (addr_appcopy blank_device) 1"
    using dev_ok_copy(3) [OF blank_device_ok order_refl, of 0] dev_ok_copy(3) [OF blank_device_ok order_refl, of 1]
    by (intro blank_device_blank) simp_all
  then show ?thesis
    using short_update_overreads [OF nor_hw_is_nor blank_device_ok blank_device_addressed, of _ 0 7 "[]" 0 "[0, 0]"]
    by (simp add: blank_device_def)
qed

theorem ota_update_keeps_other_pages_witness:
  "\<exists>st'. ota_update nor_hw blank_device (replicate 24 0) 0 24 = Some st' \<and> cells (flash st') 0x08000000 = 0xFF"
proof -
  obtain d r where w: "Flash_Write nor_hw (flash blank_device) (addr_appcopy blank_device) (replicate 14 0) 12 = Some (d, r)"
    using Flash_Write_frame [OF nor_hw_is_nor dev_ok_copy(1) [OF blank_device_ok order_refl],
        of 12 "replicate 14 0" "flash blank_device"] dev_ok_copy(3) [OF blank_device_ok order_refl] blank_device_ok
    by (auto simp: dev_ok_def)
  have sub: "OTA_SubSize (can_ota blank_device) = 0" by (simp add: blank_device_def)
  have "ArrayU8ToU16 (replicate 24 0) 8 = Some 0" by (simp add: ArrayU8ToU16_in nth_append)
  moreover have "addr_appcopy (blank_device\<lparr>can_ota := x\<rparr>) = addr_appcopy blank_device" for x
    by (simp add: addr_appcopy_def)
  moreover have "u32_add (addr_appcopy blank_device) 0 = addr_appcopy blank_device"
    using in_flash_less [OF dev_ok_copy(3) [OF blank_device_ok order_refl, of 0]] by (simp add: u32_simps)
  moreover have "u32_mul a 0 = 0" "u32_sub 24 12 = 12" for a by (simp_all add: u32_mul_def u32_sub_def)
  moreover obtain st' where "send_frame (\<lambda>st. CAN_OTA_Update_ACK_Construct st 0)
      (blank_device\<lparr>can_ota := (can_ota blank_device)\<lparr>OTA_UpdateFlag := 2, OTA_Frame_Num := 0\<rparr>, flash := d\<rparr>) = Some st'"
    using send_frame_ack(1) by blast
  ultimately have u: "ota_update nor_hw blank_device (replicate 24 0) 0 24 = Some st'"
    using w by (simp add: ota_update_def sub Let_def)
  have "0x08000000 < addr_appcopy blank_device"
    by (simp add: addr_appcopy_def page_from_end_exact blank_device_def Get_FlashSize_def)
  then have "cells (flash st') 0x08000000 = cells (flash blank_device) 0x08000000"
    using u by (intro ota_update_keeps_other_pages [OF nor_hw_is_nor blank_device_ok, of 24 0 "replicate 24 0"]) simp_all
  then show ?thesis using u by (auto simp: blank_device_def)
qed

theorem can500_acts_on_addressed_frames_witness:
  "\<exists>st'. can500_protocol_anylise nor_hw [0, 0] blank_device (host_frame CAN_OTA_Recv_End 0x0802 7 []) 10 =
      Some (st', anylise_accept, 10) \<and> st' = heard 7 blank_device"
proof -
  let ?f = "host_frame CAN_OTA_Recv_End 0x0802 7 []"
  have n: "\<not> addressed blank_device 0x0802" by (simp add: addressed_def blank_device_def)
  have a: "can500_protocol_anylise nor_hw [0, 0] blank_device ?f 10 = Some (heard 7 blank_device, anylise_accept, 10)"
    using can500_on_frame [of "[]" 10 nor_hw "[0, 0]" blank_device CAN_OTA_Recv_End "0x0802" 7 "[]"] n by simp
  from can500_acts_on_addressed_frames [OF this] show ?thesis using a by blast
qed

theorem set_id_selects_device_witness:
  "\<exists>st'. feed nor_hw [0, 0] blank_device [host_frame FUC_DEVICE_PARAMSET_SEARCH 0x0801 1
     (set_id_payload [1, 2, 3, 4, 5, 6] (replicate 6 0) 0x0A05)] = Some st' \<and> ID (iap_param st') = 0x0A05"
  using set_id_selects_device [OF blank_device_ok blank_device_addressed, of "[1, 2, 3, 4, 5, 6]" "replicate 6 0",
      where hw = nor_hw and behind = "[0, 0]" and remote = 1 and new_id = "0x0A05"]
  by (auto simp: blank_device_def)

end
