(* ===== verification/UartOta.thy ===== *)
theory UartOta imports Prelude DataLib Frame FlashIf DevState IapIf CopyArea CanSearch CanOta
begin

text \<open>
  \<open>UART_OTA_Protocol_Anylise\<close> of \<open>general_app/uart_ota_protocol.c\<close>: the same frame format and the
  same update session over the serial line.  The messages carry no identifiers (the two bytes
  behind the command are ignored), so the fields sit two bytes earlier than in the CAN protocol.
  \<open>behind\<close> is the stack behind the local header structure, as in \<open>CanOta\<close>.

  The theorems cover the session: a start frame, the packets in order and an end frame leave the
  image in the copy area; and the longest frame the device can receive at all.
\<close>

abbreviation (input) OTA_Start :: u8 where "OTA_Start \<equiv> 0xE0"
abbreviation (input) OTA_Update :: u8 where "OTA_Update \<equiv> 0xE1"
abbreviation (input) OTA_End :: u8 where "OTA_End \<equiv> 0xE2"
abbreviation (input) FUC_PARAMSET_RESET :: u8 where "FUC_PARAMSET_RESET \<equiv> 0xA0"
abbreviation (input) FUC_UART_PARAMSET_SAVE :: u8 where "FUC_UART_PARAMSET_SAVE \<equiv> 0xA1"
abbreviation (input) FUC_PARAM_IAP_READ :: u8 where "FUC_PARAM_IAP_READ \<equiv> 0x0E"
abbreviation (input) FUC_PARAM_IAP_WRITE :: u8 where "FUC_PARAM_IAP_WRITE \<equiv> 0x0F"

subsection \<open>Messages\<close>

definition uart_header :: "nat \<Rightarrow> u8 \<Rightarrow> u8 list" where
  "uart_header data_len cmd = [FRAME_HEAD, of_nat data_len, of_nat (data_len div 256), cmd]"

definition OTA_Start_ACK_Construct :: "u8 list \<Rightarrow> nat \<Rightarrow> (u8 list \<times> nat) option" where
  "OTA_Start_ACK_Construct = construct 8 (uart_header 8 OTA_Start @ [0, 0])"

definition OTA_Update_ACK_Construct :: "dev_state \<Rightarrow> u8 \<Rightarrow> u8 list \<Rightarrow> nat \<Rightarrow> (u8 list \<times> nat) option" where
  "OTA_Update_ACK_Construct st state_code =
     construct 11 (uart_header 11 OTA_Update @ [0, 0] @ u16_bytes (U_OTA_Frame_Num (uart_ota st)) @ [state_code])"

definition OTA_End_ACK_Construct :: "u8 list \<Rightarrow> nat \<Rightarrow> (u8 list \<times> nat) option" where
  "OTA_End_ACK_Construct = construct 8 (uart_header 8 OTA_End @ [0, 0])"

definition iap_param_read :: "dev_state \<Rightarrow> u8 list \<Rightarrow> nat \<Rightarrow> (u8 list \<times> nat) option" where
  "iap_param_read st =
     construct 29 (uart_header 29 FUC_PARAM_IAP_READ @ u16_bytes (ID (iap_param st)) @ [0, 0, 0] @
       concat (map (\<lambda>k. u16_bytes (ChipUniqueID (iap_param st) ! k)) [0..<6]) @
       [0, 0, ucast (IAP_flag (iap_param st)), 0, 0, ucast (swversion (iap_param st))])"

text \<open>The second half-word is read and not used.\<close>

definition iap_param_analysis :: "dev_state \<Rightarrow> u8 list \<Rightarrow> dev_state option" where
  "iap_param_analysis st buf = do {
     new_id \<leftarrow> rd_u16 buf 4;
     _ \<leftarrow> rd_u16 buf 7;
     Some (st\<lparr>iap_param := (iap_param st)\<lparr>ID := new_id\<rparr>\<rparr>) }"

definition uart_send_frame :: "(u8 list \<Rightarrow> nat \<Rightarrow> (u8 list \<times> nat) option) \<Rightarrow> dev_state \<Rightarrow> dev_state option" where
  "uart_send_frame f st = do {
     (send_buf, send_len) \<leftarrow> f (replicate 256 0) 256;
     Some (if send_len \<noteq> 0 then emit_event (Uart_send (take send_len send_buf)) st else st) }"

definition system_reset :: "dev_state \<Rightarrow> dev_state" where
  "system_reset st = emit_event System_reset (emit_event (Thread_delay 1) st)"

subsection \<open>Commands\<close>

definition uart_start :: "flash_hw \<Rightarrow> u8 list \<Rightarrow> dev_state \<Rightarrow> u8 list \<Rightarrow> nat \<Rightarrow> dev_state option" where
  "uart_start hw behind st buf i = do {
     let st = emit_event (Thread_delay 1) st;
     hi \<leftarrow> rd buf (i + 6);
     lo \<leftarrow> rd buf (i + 7);
     let ver = u16_of lo hi;
     total \<leftarrow> ArrayU8ToU32 buf (i + 10);
     sub \<leftarrow> ArrayU8ToU16 buf (i + 14);
     crc \<leftarrow> ArrayU8ToU32 buf (i + 16);
     let st = st\<lparr>uart_ota := (uart_ota st)\<lparr>U_OTA_UpdateFlag := 1, U_OTA_Version := ver, U_OTA_TotalSize := ucast total,
                                            U_OTA_SubSize := ucast sub, U_OTA_CRC32 := ucast crc\<rparr>\<rparr>;
     header \<leftarrow> memcpy (replicate sizeof_iap_updata_param 0) 0 buf (i + 6) sizeof_iap_updata_param;
     let header = u16_bytes ver @ drop 2 header;
     let bin_size = unat (ucast (U_OTA_TotalSize (uart_ota st) + 64) :: u32);
     let (d, _) = Flash_Erase_Page hw (flash st) (addr_appcopy st) bin_size;
     (d, _) \<leftarrow> Flash_Storage_Header hw d (header @ behind);
     uart_send_frame OTA_Start_ACK_Construct (st\<lparr>flash := d\<rparr>) }"

definition uart_update :: "flash_hw \<Rightarrow> dev_state \<Rightarrow> u8 list \<Rightarrow> nat \<Rightarrow> nat \<Rightarrow> dev_state option" where
  "uart_update hw st buf i data_len = do {
     let st = st\<lparr>uart_ota := (uart_ota st)\<lparr>U_OTA_UpdateFlag := 2\<rparr>\<rparr>;
     num \<leftarrow> ArrayU8ToU16 buf (i + 6);
     let st = st\<lparr>uart_ota := (uart_ota st)\<lparr>U_OTA_Frame_Num := num\<rparr>\<rparr>;
     let offset = u32_mul (unat num) (unat (U_OTA_SubSize (uart_ota st)));
     if 10 < data_len \<and> offset < OTA_BIN_MAX_SIZE then do {
       let updata_len = u32_sub data_len 10;
       (d, _) \<leftarrow> Flash_Write hw (flash st) (u32_add (addr_appcopy st) offset) (drop (i + 8) buf) updata_len;
       let st = st\<lparr>flash := d\<rparr>;
       uart_send_frame (OTA_Update_ACK_Construct st 0) st }
     else uart_send_frame (OTA_Update_ACK_Construct st 1) st }"

definition uart_end :: "flash_hw \<Rightarrow> dev_state \<Rightarrow> dev_state option" where
  "uart_end hw st = do {
     let st = st\<lparr>uart_ota := (uart_ota st)\<lparr>U_OTA_UpdateFlag := 3\<rparr>\<rparr>;
     (send_buf, send_len) \<leftarrow> OTA_End_ACK_Construct (replicate 256 0) 256;
     let st = (if send_len \<noteq> 0
               then emit_event (Thread_delay 20) (emit_event (Uart_send (take send_len send_buf)) st) else st);
     let st = UpdateAppMode hw st;
     Some (system_reset st) }"

definition uart_dispatch :: "flash_hw \<Rightarrow> u8 list \<Rightarrow> dev_state \<Rightarrow> u8 list \<Rightarrow> nat \<Rightarrow> nat \<Rightarrow> dev_state option" where
  "uart_dispatch hw behind st buf i data_len = do {
     cmd \<leftarrow> rd buf (i + 3);
     if cmd = OTA_Start then uart_start hw behind st buf i
     else if cmd = OTA_Update then uart_update hw st buf i data_len
     else if cmd = OTA_End then uart_end hw st
     else if cmd = FUC_PARAM_IAP_READ then uart_send_frame (iap_param_read st) st
     else if cmd = FUC_PARAM_IAP_WRITE then iap_param_analysis st buf
     else if cmd = FUC_UART_PARAMSET_SAVE then iap_param_save hw st
     else if cmd = FUC_PARAMSET_RESET then Some (system_reset (emit_event (Thread_delay 20) st))
     else do { _ \<leftarrow> rd buf (i + 4); Some st } }"

definition UART_OTA_Protocol_Anylise ::
  "flash_hw \<Rightarrow> u8 list \<Rightarrow> dev_state \<Rightarrow> u8 list \<Rightarrow> nat \<Rightarrow> (dev_state \<times> anylise_state \<times> nat) option" where
  "UART_OTA_Protocol_Anylise hw behind st buf len =
     (if len < FRAME_MIN_LEN then Some (st, anylise_waiting, 0)
      else do {
        r \<leftarrow> frame_scan COMM_PROTOCOL_MAX_LEN buf len 0;
        case r of
          Scan_waiting \<Rightarrow> Some (st, anylise_waiting, 0)
        | Scan_reject k \<Rightarrow> Some (st, anylise_reject, k)
        | Scan_accept i data_len \<Rightarrow> do {
            _ \<leftarrow> rd_u16 buf (i + 4);
            st \<leftarrow> uart_dispatch hw behind st buf i data_len;
            Some (st, anylise_accept, u32_add data_len i) } })"

subsection \<open>Frames of the host\<close>

definition uart_frame :: "u8 \<Rightarrow> u16 \<Rightarrow> u8 list \<Rightarrow> u8 list" where
  "uart_frame cmd dev payload = framed (cmd # u16_bytes dev @ payload)"

lemma length_uart_frame [simp]: "length (uart_frame cmd dev payload) = length payload + 8"
  by (simp add: uart_frame_def)

lemma uart_frame_layout:
  "uart_frame cmd dev payload =
     [FRAME_HEAD, of_nat (length payload + 8), of_nat ((length payload + 8) div 256), cmd] @
     u16_bytes dev @ payload @ drop (length payload + 6) (uart_frame cmd dev payload)"
  unfolding uart_frame_def by (subst framed_layout) (simp add: ac_simps)

lemma uart_frame_fields:
  "uart_frame cmd dev payload ! 3 = cmd"
  "rd_u16 (uart_frame cmd dev payload @ rest) 4 = Some dev"
  "take (length payload) (drop 6 (uart_frame cmd dev payload @ rest)) = payload"
  by (subst uart_frame_layout; simp add: u16_bytes_def rd_u16_def rd_def nth_append; fail)+

lemma uart_on_frame:
  assumes "length payload + 8 \<le> COMM_PROTOCOL_MAX_LEN" "length payload + 8 \<le> len" "len < U32_RANGE"
  shows "UART_OTA_Protocol_Anylise hw behind st (uart_frame cmd dev payload @ rest) len =
    do { st \<leftarrow> uart_dispatch hw behind st (uart_frame cmd dev payload @ rest) 0 (length payload + 8);
         Some (st, anylise_accept, length payload + 8) }"
proof -
  let ?f = "uart_frame cmd dev payload"
  have "valid_frame COMM_PROTOCOL_MAX_LEN ?f"
    unfolding uart_frame_def by (rule valid_framed) (use assms(1) in simp_all)
  then have s: "frame_scan COMM_PROTOCOL_MAX_LEN (?f @ rest) len 0 = Some (Scan_accept 0 (length payload + 8))"
    using frame_scan_at_head [of COMM_PROTOCOL_MAX_LEN ?f len 0 "?f @ rest"] assms by (simp add: u32_sub_exact)
  have a: "u32_add (length payload + 8) 0 = length payload + 8"
    using assms by (intro u32_add_exact [of _ 0, simplified]) simp
  have n: "\<not> len < FRAME_MIN_LEN" using assms(2) by simp
  show ?thesis
    unfolding UART_OTA_Protocol_Anylise_def if_not_P [OF n] s by (simp add: uart_frame_fields a)
qed

lemma construct_seals:
  "length hdr + 2 = n \<Longrightarrow> 10 \<le> n + 2 \<Longrightarrow> n \<le> 256 \<Longrightarrow> 0 < n \<Longrightarrow>
   uart_send_frame (construct n hdr) st = Some (emit_event (Uart_send (sealed hdr)) st)"
  by (simp add: uart_send_frame_def construct_def seal_in)

lemma uart_send_ack:
  "\<exists>msg. uart_send_frame (OTA_Update_ACK_Construct st' code) st = Some (emit_event (Uart_send msg) st)"
  "\<exists>msg. uart_send_frame OTA_Start_ACK_Construct st = Some (emit_event (Uart_send msg) st)"
  "\<exists>msg buf. OTA_End_ACK_Construct (replicate 256 0) 256 = Some (msg @ buf, 8) \<and> length msg = 8"
  unfolding OTA_Update_ACK_Construct_def OTA_Start_ACK_Construct_def OTA_End_ACK_Construct_def
  by (auto simp: construct_seals uart_header_def construct_def seal_in)

subsection \<open>A whole session\<close>

fun uart_feed :: "flash_hw \<Rightarrow> u8 list \<Rightarrow> dev_state \<Rightarrow> u8 list list \<Rightarrow> dev_state option" where
  "uart_feed hw behind st [] = Some st"
| "uart_feed hw behind st (f # fs) =
     do { (st, _, _) \<leftarrow> UART_OTA_Protocol_Anylise hw behind st f (length f); uart_feed hw behind st fs }"

lemma uart_feed_append:
  "uart_feed hw behind st (fs @ gs) = do { st \<leftarrow> uart_feed hw behind st fs; uart_feed hw behind st gs }"
proof (induction fs arbitrary: st)
  case (Cons f fs)
  then show ?case by (cases "UART_OTA_Protocol_Anylise hw behind st f (length f)") auto
qed simp

lemma uart_feed_frame:
  assumes "length payload + 8 \<le> COMM_PROTOCOL_MAX_LEN"
    "uart_dispatch hw behind st (uart_frame cmd dev payload) 0 (length payload + 8) = Some st'"
  shows "uart_feed hw behind st [uart_frame cmd dev payload] = Some st'"
  using uart_on_frame [OF assms(1), of "length payload + 8" hw behind st cmd dev "[]"] assms by simp

definition uart_inv :: "nat \<Rightarrow> u8 list \<Rightarrow> nat \<Rightarrow> nat \<Rightarrow> dev_state \<Rightarrow> bool" where
  "uart_inv S img base k st \<longleftrightarrow>
     dev_ok st \<and> addr_appcopy st = base \<and> unat (U_OTA_SubSize (uart_ota st)) = S \<and> copied S img base k (flash st)"

text \<open>The start frame carries the version with the high byte first.\<close>

definition uart_updata_bytes :: "iap_updata_param_type \<Rightarrow> u8 list" where
  "uart_updata_bytes h = [ucast (drop_bit 8 (Version h)), ucast (Version h)] @ drop 2 (updata_bytes h)"

lemma length_uart_updata_bytes [simp]: "length (uart_updata_bytes h) = sizeof_iap_updata_param"
  by (simp add: uart_updata_bytes_def)

lemma uart_start_reads:
  assumes "buf = uart_frame OTA_Start dev (uart_updata_bytes h) @ rest"
  shows "rd buf 6 = Some (ucast (drop_bit 8 (Version h)))" "rd buf 7 = Some (ucast (Version h))"
    "ArrayU8ToU32 buf 10 = Some (UpdatesTotalSize h)" "ArrayU8ToU16 buf 14 = Some (UpdatesSubSize h)"
    "ArrayU8ToU32 buf 16 = Some (UpdatesCRC32 h)"
    "memcpy (replicate sizeof_iap_updata_param 0) 0 buf 6 sizeof_iap_updata_param = Some (uart_updata_bytes h)"
    "u16_bytes (Version h) @ drop 2 (uart_updata_bytes h) = updata_bytes h"
proof -
  have len: "34 \<le> length buf" by (simp add: assms)
  have pay: "take 26 (drop 6 buf) = uart_updata_bytes h"
    using uart_frame_fields(3) [of "uart_updata_bytes h" OTA_Start dev rest] by (simp add: assms)
  have "rd buf (6 + k) = Some (uart_updata_bytes h ! k)" if "k < 26" for k
    using arg_cong [OF pay, of "\<lambda>xs. xs ! k"] that len by (simp add: rd_in)
  from this [of 0] this [of 1]
  show "rd buf 6 = Some (ucast (drop_bit 8 (Version h)))" "rd buf 7 = Some (ucast (Version h))"
    by (simp_all add: uart_updata_bytes_def)
  show "ArrayU8ToU32 buf 10 = Some (UpdatesTotalSize h)"
    using take_drop_inside [OF pay, of 4 4] len
    by (intro load_u32) (simp_all add: uart_updata_bytes_def updata_bytes_def)
  show "ArrayU8ToU16 buf 14 = Some (UpdatesSubSize h)"
    using take_drop_inside [OF pay, of 8 2] len
    by (intro load_u16) (simp_all add: uart_updata_bytes_def updata_bytes_def)
  show "ArrayU8ToU32 buf 16 = Some (UpdatesCRC32 h)"
    using take_drop_inside [OF pay, of 10 4] len
    by (intro load_u32) (simp_all add: uart_updata_bytes_def updata_bytes_def)
  show "memcpy (replicate sizeof_iap_updata_param 0) 0 buf 6 sizeof_iap_updata_param = Some (uart_updata_bytes h)"
    using len pay by (simp add: memcpy_def)
  show "u16_bytes (Version h) @ drop 2 (uart_updata_bytes h) = updata_bytes h"
    by (simp add: uart_updata_bytes_def updata_bytes_def)
qed

lemma uart_bin_size:
  assumes "unat t \<le> OTA_BIN_MAX_SIZE - 64"
  shows "unat (ucast ((ucast (t :: u32) :: u64) + 64) :: u32) = unat t + 64"
proof -
  have "unat ((ucast t :: u64) + 64) = unat t + 64"
    using assms unat_u32_less [of t] by (simp add: unat_word_ariths unat_ucast)
  then show ?thesis using assms by (simp add: unat_ucast)
qed

lemma uart_start_erases:
  assumes "nor_flash hw" "dev_ok st" "length behind = 2"
    "unat (UpdatesTotalSize h) = length img" "length img \<le> OTA_BIN_MAX_SIZE - 64"
    and buf_def: "buf = uart_frame OTA_Start dev (uart_updata_bytes h) @ rest"
  shows "\<exists>st'. uart_start hw behind st buf 0 = Some st' \<and>
    uart_inv (unat (UpdatesSubSize h)) img (addr_appcopy st) 0 st'"
proof -
  let ?n = "length img + 64" and ?base = "addr_appcopy st"
  note reads = uart_start_reads [OF buf_def]
  have n: "?n \<le> OTA_BIN_MAX_SIZE" using assms(5) by simp
  note copy = dev_ok_copy [OF assms(2) n]
  let ?d = "(flash st)\<lparr>locked := True, sr := FLASH_COMPLETE, cells := wipe (cells (flash st)) ?base (pages_of ?n * FLASH_PAGE_SIZE)\<rparr>"
  have e: "Flash_Erase_Page hw (flash st) ?base ?n = (?d, 0)"
    using assms(2) n copy by (intro Flash_Erase_Page_wipe assms(1)) (auto simp: dev_ok_def)
  have ok: "ready ?d" "8 \<le> Get_FlashSize ?d" using assms(2) by (simp_all add: dev_ok_def ready_def Get_FlashSize_def)
  obtain m s' l r where s: "Flash_Storage_Header hw ?d (updata_bytes h @ behind) =
      Some (?d\<lparr>locked := l, sr := s', cells := m\<rparr>, r)" "answered s'"
    "same_outside (page_from_end ?d FLASH_APP_INFO_ADDR) 28 (cells ?d) m"
    using Flash_Storage_Header_frame [OF assms(1) ok, of "updata_bytes h @ behind"] assms(3) by auto
  let ?st1 = "(emit_event (Thread_delay 1) st)\<lparr>uart_ota := (uart_ota st)\<lparr>U_OTA_UpdateFlag := 1, U_OTA_Version := Version h,
     U_OTA_TotalSize := ucast (UpdatesTotalSize h), U_OTA_SubSize := ucast (UpdatesSubSize h), U_OTA_CRC32 := ucast (UpdatesCRC32 h)\<rparr>\<rparr>"
  let ?st2 = "?st1\<lparr>flash := ?d\<lparr>locked := l, sr := s', cells := m\<rparr>\<rparr>"
  obtain msg where msg: "uart_send_frame OTA_Start_ACK_Construct ?st2 = Some (emit_event (Uart_send msg) ?st2)"
    using uart_send_ack(2) by blast
  have fl: "flash ?st1 = flash st" "addr_appcopy ?st1 = ?base" by (simp_all add: emit_event_def addr_appcopy_def)
  have em: "flash (emit_event e s) = flash s" "uart_ota (emit_event e s) = uart_ota s"
    "addr_appcopy (s\<lparr>uart_ota := x\<rparr>) = addr_appcopy s" "addr_appcopy (emit_event e s) = addr_appcopy s" for e s x
    by (simp_all add: emit_event_def addr_appcopy_def)
  have hdr: "ucast (Version h) # ucast (drop_bit 8 (Version h)) # drop 2 (uart_updata_bytes h) @ xs = updata_bytes h @ xs" for xs
    unfolding reads(7) [symmetric] by (simp add: u16_bytes_def)
  have hdr2: "u16_bytes (Version h) @ drop 2 (uart_updata_bytes h) @ xs = updata_bytes h @ xs" for xs
    using reads(7) by (metis append.assoc)
  have u: "uart_start hw behind st buf 0 = Some (emit_event (Uart_send msg) ?st2)"
    unfolding uart_start_def using reads(1-6) e s(1) msg uart_bin_size [of "UpdatesTotalSize h"] assms(4,5) fl
    by (simp add: Let_def hdr hdr2 em)
  have g: "Get_FlashSize ?d = Get_FlashSize (flash st)" by (simp add: Get_FlashSize_def)
  have "m b = 0xFF" if "?base \<le> b" "b < ?base + pages_of ?n * FLASH_PAGE_SIZE" for b
  proof -
    have "page_from_end ?d FLASH_APP_INFO_ADDR = ?base + OTA_BIN_MAX_SIZE + FLASH_PAGE_SIZE"
      using assms(2) g by (simp add: addr_appcopy_def page_from_end_exact dev_ok_def)
    then have "m b = cells ?d b" using s(3) that copy(4) by (simp add: same_outside_def)
    then show ?thesis using that by (simp add: wipe_def)
  qed
  then have "m = wipe m ?base (pages_of ?n * FLASH_PAGE_SIZE)" by (intro ext) (simp add: wipe_def)
  moreover have "pages_of (length img) * FLASH_PAGE_SIZE \<le> pages_of ?n * FLASH_PAGE_SIZE"
    by (simp add: pages_of_def div_le_mono)
  ultimately have c: "copied (unat (UpdatesSubSize h)) img ?base 0 (flash ?st2)"
    using copy(3,4) by (intro copied_wiped) (auto simp: in_flash_def Get_FlashSize_def)
  have "unat (UpdatesSubSize h) mod U32_RANGE = unat (UpdatesSubSize h)"
    by (rule mod_less [OF order_less_trans [OF unat_u16_less]]) simp
  then have "uart_inv (unat (UpdatesSubSize h)) img ?base 0 (emit_event (Uart_send msg) ?st2)"
    using assms(2) c s(2)
    by (simp add: uart_inv_def dev_ok_def emit_event_def ready_def addr_appcopy_def page_from_end_def Get_FlashSize_def unat_ucast)
  then show ?thesis using u by blast
qed

lemma uart_update_step:
  assumes "nor_flash hw" "uart_inv S img base k st" "0 < S" "S mod 4 = 0"
    "S + 10 \<le> COMM_PROTOCOL_MAX_LEN" "k * S < length img" "length img \<le> OTA_BIN_MAX_SIZE"
    and buf_def: "buf = uart_frame OTA_Update dev (u16_bytes (of_nat k) @ chunk_of S img k) @ rest"
  shows "\<exists>st'. uart_update hw st buf 0 (length (chunk_of S img k) + 10) = Some st' \<and> uart_inv S img base (k + 1) st'"
proof -
  define c where "c = chunk_of S img k"
  define num :: u16 where "num = of_nat k"
  have inv: "dev_ok st" "addr_appcopy st = base" "unat (U_OTA_SubSize (uart_ota st)) = S" "copied S img base k (flash st)"
    using assms(2) by (auto simp: uart_inv_def)
  note step = copied_step [OF inv(4) assms(3,4,6), folded c_def]
  have num: "unat num = k" unfolding num_def by (rule packet_number [OF assms(3,4,6,7)])
  have pay: "take (2 + length c) (drop 6 buf) = u16_bytes num @ c"
    using uart_frame_fields(3) [of "u16_bytes num @ c" OTA_Update dev rest] by (simp add: buf_def c_def num_def)
  have n: "ArrayU8ToU16 buf 6 = Some num"
    using take_drop_inside [OF pay, of 0 2] by (intro load_u16) (simp_all add: buf_def)
  have data: "take (length c) (drop 8 buf) = c" using take_drop_inside [OF pay, of 2 "length c"] by simp
  have l: "length c \<le> length (drop 8 buf)" by (simp add: buf_def c_def)
  have o: "u32_mul (unat num) S = k * S" using assms(6,7) by (simp add: u32_mul_def num)
  have u: "u32_sub (length c + 10) 10 = length c" using step(3) assms(5) by (subst u32_sub_exact) auto
  note copy = dev_ok_copy [OF inv(1) order_refl, unfolded inv(2)]
  have a: "u32_add base (k * S) = base + k * S"
    using in_flash_less [OF copy(3) [of "k * S"]] assms(6,7) by (intro u32_add_exact) simp
  have m4: "(base + k * S) mod 4 = 0" using copy(1) step(4) by presburger
  let ?fl = "(flash st)\<lparr>locked := True, sr := FLASH_COMPLETE, cells := put (cells (flash st)) (base + k * S) c\<rparr>"
  have w: "Flash_Write hw (flash st) (base + k * S) (drop 8 buf) (length c) = Some (?fl, length c)"
    using Flash_Write_blank [OF assms(1) m4 l _ step(1)] inv(1) unfolding data by (simp add: dev_ok_def)
  have pos: "0 < length c" using assms(3,6) by (simp add: c_def chunk_of_def)
  let ?st1 = "st\<lparr>uart_ota := (uart_ota st)\<lparr>U_OTA_UpdateFlag := 2, U_OTA_Frame_Num := num\<rparr>, flash := ?fl\<rparr>"
  obtain msg where msg: "uart_send_frame (OTA_Update_ACK_Construct ?st1 0) ?st1 = Some (emit_event (Uart_send msg) ?st1)"
    using uart_send_ack(1) by blast
  have ap: "addr_appcopy (st\<lparr>uart_ota := x\<rparr>) = base" for x using inv(2) by (simp add: addr_appcopy_def)
  have "k * S < OTA_BIN_MAX_SIZE" using assms(6,7) by simp
  then have r: "uart_update hw st buf 0 (length c + 10) = Some (emit_event (Uart_send msg) ?st1)"
    unfolding uart_update_def using n w msg pos inv(3)
    by (simp add: Let_def o u ap a)
  have "copied S img base (k + 1) ?fl" by (rule step(2)) simp_all
  then have "uart_inv S img base (k + 1) (emit_event (Uart_send msg) ?st1)"
    using inv(1-3) by (simp add: uart_inv_def dev_ok_def emit_event_def ready_def addr_appcopy_def page_from_end_def Get_FlashSize_def)
  then show ?thesis using r unfolding c_def by blast
qed

lemma uart_end_marks:
  assumes "nor_flash hw" "dev_ok st"
  shows "\<exists>st'. uart_end hw st = Some st' \<and> ReadIAPMode (flash st') = OTA_Update_APP \<and>
     last (outbox st') = System_reset \<and>
     (\<forall>b. b < page_from_end (flash st) FLASH_IAP_FLAG_ADDR \<longrightarrow> cells (flash st') b = cells (flash st) b)"
proof -
  let ?st1 = "st\<lparr>uart_ota := (uart_ota st)\<lparr>U_OTA_UpdateFlag := 3\<rparr>\<rparr>"
  obtain msg buf where m: "OTA_End_ACK_Construct (replicate 256 0) 256 = Some (msg @ buf, 8)" "length msg = 8"
    using uart_send_ack(3) by blast
  let ?st2 = "emit_event (Thread_delay 20) (emit_event (Uart_send msg) ?st1)"
  have f: "flash ?st2 = flash st" by (simp add: emit_event_def)
  have "dev_ok ?st2" using assms(2) by (simp add: dev_ok_def emit_event_def)
  from UpdateAppMode_result [OF assms(1) this]
  have u: "ReadIAPMode (flash (UpdateAppMode hw ?st2)) = OTA_Update_APP"
    "\<forall>b. b < page_from_end (flash st) FLASH_IAP_FLAG_ADDR \<longrightarrow>
       cells (flash (UpdateAppMode hw ?st2)) b = cells (flash st) b"
    unfolding f by blast+
  have "uart_end hw st = Some (system_reset (UpdateAppMode hw ?st2))"
    using m by (simp add: uart_end_def Let_def)
  then show ?thesis using u by (simp add: emit_event_def system_reset_def)
qed

definition uart_update_frame :: "nat \<Rightarrow> u8 list \<Rightarrow> u16 \<Rightarrow> nat \<Rightarrow> u8 list" where
  "uart_update_frame S img dev k = uart_frame OTA_Update dev (u16_bytes (of_nat k) @ chunk_of S img k)"

definition uart_session_frames :: "iap_updata_param_type \<Rightarrow> u8 list \<Rightarrow> u16 \<Rightarrow> u8 list list" where
  "uart_session_frames h img dev =
     (let S = unat (UpdatesSubSize h) in
      [uart_frame OTA_Start dev (uart_updata_bytes h)] @
      map (uart_update_frame S img dev) [0..<packets S img] @
      [uart_frame OTA_End dev []])"

lemma uart_updates:
  assumes "nor_flash hw" "uart_inv S img base 0 st" "0 < S" "S mod 4 = 0"
    "S + 10 \<le> COMM_PROTOCOL_MAX_LEN" "length img \<le> OTA_BIN_MAX_SIZE" "n \<le> packets S img"
  shows "\<exists>st'. uart_feed hw behind st (map (uart_update_frame S img dev) [0..<n]) = Some st' \<and> uart_inv S img base n st'"
  using assms(7)
proof (induction n)
  case 0
  then show ?case using assms(2) by simp
next
  case (Suc n)
  then obtain st1 where st1: "uart_feed hw behind st (map (uart_update_frame S img dev) [0..<n]) = Some st1"
    "uart_inv S img base n st1" by auto
  let ?p = "u16_bytes (of_nat n) @ chunk_of S img n" and ?f = "uart_update_frame S img dev n"
  have n: "n * S < length img" using packets_cover(2) [OF assms(3)] Suc.prems by simp
  obtain st2 where st2: "uart_update hw st1 ?f 0 (length (chunk_of S img n) + 10) = Some st2" "uart_inv S img base (n + 1) st2"
    using uart_update_step [OF assms(1) st1(2) assms(3-5) n assms(6), of "?f" dev "[]"]
    by (auto simp: uart_update_frame_def)
  have "uart_dispatch hw behind st1 (uart_frame OTA_Update dev ?p) 0 (length ?p + 8) = Some st2"
    using st2(1) by (simp add: uart_dispatch_def mem_simps uart_frame_fields uart_update_frame_def add.commute)
  moreover have "length ?p + 8 \<le> COMM_PROTOCOL_MAX_LEN" using assms(5) by (simp add: chunk_of_def)
  ultimately have "uart_feed hw behind st1 [?f] = Some st2"
    unfolding uart_update_frame_def by (intro uart_feed_frame)
  then show ?case using st1(1) st2(2) by (simp add: uart_feed_append)
qed

lemma uart_session_result:
  assumes "nor_flash hw" "dev_ok st" "length behind = 2"
    "unat (UpdatesTotalSize h) = length img" "length img \<le> OTA_BIN_MAX_SIZE - 64"
    "0 < unat (UpdatesSubSize h)" "unat (UpdatesSubSize h) mod 4 = 0"
    "unat (UpdatesSubSize h) + 10 \<le> COMM_PROTOCOL_MAX_LEN"
  shows "\<exists>st'. uart_feed hw behind st (uart_session_frames h img dev) = Some st' \<and>
    map (cells (flash st')) [addr_appcopy st..<addr_appcopy st + length img] = img \<and>
    ReadIAPMode (flash st') = OTA_Update_APP \<and> last (outbox st') = System_reset"
proof -
  let ?S = "unat (UpdatesSubSize h)" and ?base = "addr_appcopy st"
  let ?f0 = "uart_frame OTA_Start dev (uart_updata_bytes h)"
  have le: "length img \<le> OTA_BIN_MAX_SIZE" using assms(5) by simp
  obtain st1 where st1: "uart_start hw behind st ?f0 0 = Some st1" "uart_inv ?S img ?base 0 st1"
    using uart_start_erases [OF assms(1-5), of ?f0 dev "[]"] by auto
  have "uart_dispatch hw behind st ?f0 0 (length (uart_updata_bytes h) + 8) = Some st1"
    using st1(1) by (simp add: uart_dispatch_def mem_simps uart_frame_fields)
  from uart_feed_frame [OF _ this] have f0: "uart_feed hw behind st [?f0] = Some st1" by simp
  obtain st2 where st2: "uart_feed hw behind st1 (map (uart_update_frame ?S img dev) [0..<packets ?S img]) = Some st2"
    "uart_inv ?S img ?base (packets ?S img) st2"
    using uart_updates [OF assms(1) st1(2) assms(6-8) le order_refl] by blast
  have inv: "dev_ok st2" "addr_appcopy st2 = ?base" "map (cells (flash st2)) [?base..<?base + length img] = img"
    using st2(2) copied_all [OF assms(6)] by (auto simp: uart_inv_def)
  let ?f = "uart_frame OTA_End dev []"
  obtain st3 where st3: "uart_end hw st2 = Some st3" "ReadIAPMode (flash st3) = OTA_Update_APP"
    "last (outbox st3) = System_reset"
    "\<forall>b. b < page_from_end (flash st2) FLASH_IAP_FLAG_ADDR \<longrightarrow> cells (flash st3) b = cells (flash st2) b"
    using uart_end_marks [OF assms(1) inv(1)] by auto
  have "uart_dispatch hw behind st2 ?f 0 (length ([] :: u8 list) + 8) = Some st3"
    using st3(1) by (simp add: uart_dispatch_def mem_simps uart_frame_fields)
  from uart_feed_frame [OF _ this] have f: "uart_feed hw behind st2 [?f] = Some st3" by simp
  have "?base = page_from_end (flash st2) FLASH_APP_COPY_ADDR" using inv(2) by (simp add: addr_appcopy_def)
  then have "?base + OTA_BIN_MAX_SIZE \<le> page_from_end (flash st2) FLASH_IAP_FLAG_ADDR"
    using inv(1) by (simp add: page_from_end_exact dev_ok_def)
  then have "map (cells (flash st3)) [?base..<?base + length img] = img"
    using st3(4) le by (subst inv(3) [symmetric]) (auto intro!: map_cong)
  moreover have "uart_feed hw behind st (uart_session_frames h img dev) = Some st3"
    using f0 st2(1) f unfolding uart_session_frames_def Let_def by (simp only: uart_feed_append bind.bind_lunit)
  ultimately show ?thesis using st3(2,3) by blast
qed

lemma uart_scan_stalls:
  assumes "buf ! 0 = FRAME_HEAD" "frame_len buf 0 \<le> COMM_PROTOCOL_MAX_LEN" "length buf < frame_len buf 0"
    "FRAME_MIN_LEN \<le> length buf" "length buf < U32_RANGE"
  shows "frame_scan COMM_PROTOCOL_MAX_LEN buf (length buf) 0 = Some Scan_waiting"
  using assms frame_scan_short [of 0 buf COMM_PROTOCOL_MAX_LEN "length buf"] by (simp add: u32_sub_exact)

subsection \<open>Properties\<close>


definition uart_small_header :: iap_updata_param_type where
  "uart_small_header = \<lparr>Version = 0x0102, CompressFlag = 0, UpdatesTotalSize = 5, UpdatesSubSize = 4, UpdatesCRC32 = 0,
     ComPackOriginalSize = 0, ComPackNo = 0, PerComPackOriginalSize = 0, ComPackOriginalCRC32 = 0\<rparr>"


text \<open>
  Fact.  A frame head that announces more bytes than the receive buffer holds (1025 to 1280 with
  the buffer of 1024 bytes that \<open>uart_ota_init\<close> asks for) is neither accepted nor rejected once the
  buffer is full: the parser keeps waiting for bytes that have no room, and only the time-out of
  the receiving thread gets rid of it.
\<close>

theorem uart_long_frame_stalls:
  assumes "buf ! 0 = FRAME_HEAD" "frame_len buf 0 \<le> COMM_PROTOCOL_MAX_LEN" "length buf < frame_len buf 0"
    "FRAME_MIN_LEN \<le> length buf"
  shows "UART_OTA_Protocol_Anylise hw behind st buf (length buf) = Some (st, anylise_waiting, 0)"
proof -
  have "length buf < U32_RANGE" using assms(2,3) by linarith
  from uart_scan_stalls [OF assms this] show ?thesis
    using assms(4) by (simp add: UART_OTA_Protocol_Anylise_def)
qed

theorem uart_long_frame_stalls_witness:
  "UART_OTA_Protocol_Anylise nor_hw [0, 0] blank_device ([0xFE, 0, 5] @ replicate 1021 0) 1024 =
     Some (blank_device, anylise_waiting, 0)"
  using uart_long_frame_stalls [of "[0xFE, 0, 5] @ replicate 1021 0" nor_hw "[0, 0]" blank_device]
  by (simp add: frame_len_def)

end
