(* ===== verification/CommDev.thy ===== *)
theory CommDev imports Prelude RingBuf Frame DevState CanOta
begin

text \<open>
  \<open>general_app/protocol_anylise_frame.c\<close>: a communication device is a receive buffer with three
  slots for protocol parsers; its thread peeks at the received bytes every 20 ms, offers them to the
  parsers in turn, and deletes what they consumed or, when nobody wants the bytes and nothing
  happens for \<open>ticks_out\<close> ticks, clears the port.

  The callbacks \<open>recv\<close>, \<open>del\<close> and \<open>clear\<close> of the device are the record \<open>comm_ops\<close>, over a state of the
  world \<open>'s\<close> on which the parsers work, too; a parser is a name (the function pointer) with its
  meaning \<open>run\<close>.  What the callbacks promise is the locale \<open>comm_port\<close>; the CAN port
  (\<open>can500_ops\<close>, on the ring buffer) provides it.  The results of \<open>rt_malloc\<close>, \<open>rt_thread_create\<close> and
  \<open>rt_tick_get\<close> are arguments; calls that act on threads are listed in the results.
\<close>

record 's comm_ops =
  recv_op :: "u8 list \<Rightarrow> nat \<Rightarrow> bool \<Rightarrow> 's \<Rightarrow> (nat \<times> u8 list \<times> 's) option"
  del_op :: "nat \<Rightarrow> 's \<Rightarrow> nat \<times> 's"
  clear_op :: "'s \<Rightarrow> 's"

datatype thread_call = Thread_suspend nat | Thread_resume nat | Thread_startup nat | Thread_delete nat

record 'h comm_dev =
  dev_name :: string
  dev_buf :: "u8 list"
  dev_buf_len :: nat
  ticks_out :: u32
  protocol_anylise_fun :: "'h option list"
  protocol_num :: nat
  dev_tid :: "nat option"
  wait_ticks :: u32

abbreviation (input) PROTOCOL_FUN_MAX :: nat where "PROTOCOL_FUN_MAX \<equiv> 3"

type_synonym ('h, 's) parser = "'h \<Rightarrow> u8 list \<Rightarrow> nat \<Rightarrow> 's \<Rightarrow> ('s \<times> anylise_state \<times> nat) option"

subsection \<open>Creating a device and registering parsers\<close>

definition comm_dev_create ::
  "string \<Rightarrow> nat \<Rightarrow> u32 \<Rightarrow> bool \<Rightarrow> u8 list option \<Rightarrow> 'h comm_dev option" where
  "comm_dev_create name len out_time dev_block buf_block =
     (if \<not> dev_block then None
      else case buf_block of
        None \<Rightarrow> None
      | Some blk \<Rightarrow> Some \<lparr>dev_name = name, dev_buf = blk, dev_buf_len = len, ticks_out = out_time,
          protocol_anylise_fun = replicate PROTOCOL_FUN_MAX None, protocol_num = 0, dev_tid = None, wait_ticks = 0\<rparr>)"

definition suspend_thread :: "'h comm_dev \<Rightarrow> thread_call list" where
  "suspend_thread dev = (case dev_tid dev of None \<Rightarrow> [] | Some t \<Rightarrow> [Thread_suspend t])"

definition resume_thread :: "'h comm_dev \<Rightarrow> thread_call list" where
  "resume_thread dev = (case dev_tid dev of None \<Rightarrow> [] | Some t \<Rightarrow> [Thread_resume t])"

text \<open>The search loops: the first slot that holds the given pointer.\<close>

fun find_slot :: "'h option \<Rightarrow> 'h option list \<Rightarrow> nat option" where
  "find_slot p [] = None"
| "find_slot p (q # qs) = (if q = p then Some 0 else map_option Suc (find_slot p qs))"

definition protocol_anylise_add ::
  "'h comm_dev option \<Rightarrow> 'h option \<Rightarrow> 'h comm_dev option \<times> bool \<times> thread_call list" where
  "protocol_anylise_add comm p =
     (case comm of
        None \<Rightarrow> (None, False, [])
      | Some dev \<Rightarrow>
          if PROTOCOL_FUN_MAX \<le> protocol_num dev then (Some dev, False, [])
          else case find_slot None (protocol_anylise_fun dev) of
            Some i \<Rightarrow> (Some (dev\<lparr>protocol_anylise_fun := (protocol_anylise_fun dev)[i := p],
                               protocol_num := u32_add (protocol_num dev) 1\<rparr>), True,
                       suspend_thread dev @ resume_thread dev)
          | None \<Rightarrow> (Some dev, False, suspend_thread dev @ resume_thread dev))"

definition protocol_anylise_del ::
  "'h comm_dev option \<Rightarrow> 'h option \<Rightarrow> 'h comm_dev option \<times> bool \<times> thread_call list" where
  "protocol_anylise_del comm p =
     (case comm of
        None \<Rightarrow> (None, False, [])
      | Some dev \<Rightarrow>
          if protocol_num dev = 0 then (Some dev, True, [])
          else case find_slot p (protocol_anylise_fun dev) of
            Some i \<Rightarrow> (Some (dev\<lparr>protocol_anylise_fun := (protocol_anylise_fun dev)[i := None],
                               protocol_num := u32_sub (protocol_num dev) 1\<rparr>), True,
                       suspend_thread dev @ resume_thread dev)
          | None \<Rightarrow> (Some dev, False, suspend_thread dev @ resume_thread dev))"

definition protocol_anylise_startup ::
  "nat option \<Rightarrow> 'h comm_dev option \<Rightarrow> 'h comm_dev option \<times> bool \<times> thread_call list" where
  "protocol_anylise_startup new_thread comm =
     (case comm of
        None \<Rightarrow> (None, False, [])
      | Some dev \<Rightarrow>
          if protocol_num dev = 0 then (Some dev, False, [])
          else if dev_tid dev \<noteq> None then (Some dev, True, [])
          else case new_thread of
            None \<Rightarrow> (Some (dev\<lparr>dev_tid := None\<rparr>), False, [])
          | Some t \<Rightarrow> (Some (dev\<lparr>dev_tid := Some t\<rparr>), True, [Thread_startup t]))"

definition protocol_anylise_destroy :: "'h comm_dev option \<Rightarrow> bool \<times> thread_call list" where
  "protocol_anylise_destroy comm =
     (case comm of
        None \<Rightarrow> (False, [])
      | Some dev \<Rightarrow> (True, case dev_tid dev of None \<Rightarrow> [] | Some t \<Rightarrow> [Thread_delete t]))"

subsection \<open>One round of the thread\<close>

text \<open>The parsers in turn, until one accepts; the second component lists the answers of the others.\<close>

fun offer :: "('h, 's) parser \<Rightarrow> 'h option list \<Rightarrow> u8 list \<Rightarrow> nat \<Rightarrow> 's \<Rightarrow>
    ('s \<times> (anylise_state \<times> nat) list \<times> nat option) option" where
  "offer run [] buf len s = Some (s, [], None)"
| "offer run (None # ps) buf len s = do {
     (s, infos, r) \<leftarrow> offer run ps buf len s;
     Some (s, (anylise_reject, len) # infos, r) }"
| "offer run (Some p # ps) buf len s = do {
     (s, state, del_len) \<leftarrow> run p buf len s;
     if state = anylise_accept then Some (s, [], Some del_len)
     else do {
       (s, infos, r) \<leftarrow> offer run ps buf len s;
       Some (s, (state, del_len) # infos, r) } }"

text \<open>The least length that the parsers rejected, when all of them did.\<close>

fun all_reject :: "(anylise_state \<times> nat) list \<Rightarrow> nat \<Rightarrow> nat option" where
  "all_reject [] del_min = Some del_min"
| "all_reject ((state, del_len) # infos) del_min =
     (if state = anylise_reject then all_reject infos (if del_min = 0 then del_len else min del_min del_len)
      else None)"

definition timed_out :: "u32 \<Rightarrow> u32 \<Rightarrow> u32 \<Rightarrow> bool" where
  "timed_out now waited out =
     (let time_diff = now - waited in out < (if 0 <s time_diff then time_diff else - time_diff))"

definition protocol_anylise_process ::
  "('h, 's) parser \<Rightarrow> 's comm_ops \<Rightarrow> u32 \<Rightarrow> 'h comm_dev \<Rightarrow> 's \<Rightarrow> ('h comm_dev \<times> 's) option" where
  "protocol_anylise_process run ops tick dev s = do {
     (len, buf, s) \<leftarrow> recv_op ops (dev_buf dev) (dev_buf_len dev) False s;
     let dev = dev\<lparr>dev_buf := buf\<rparr>;
     if len = 0 then Some (dev\<lparr>wait_ticks := tick\<rparr>, s)
     else do {
       (s, infos, accepted) \<leftarrow> offer run (protocol_anylise_fun dev) buf len s;
       case accepted of
         Some del_len \<Rightarrow> Some (dev\<lparr>wait_ticks := tick\<rparr>, snd (del_op ops del_len s))
       | None \<Rightarrow> (case all_reject infos 0 of
           Some del_min \<Rightarrow> Some (dev\<lparr>wait_ticks := tick\<rparr>, snd (del_op ops del_min s))
         | None \<Rightarrow> if timed_out tick (wait_ticks dev) (ticks_out dev)
                   then Some (dev\<lparr>wait_ticks := tick\<rparr>, clear_op ops s)
                   else Some (dev, s)) } }"

text \<open>\<open>n\<close> rounds of the thread from round \<open>i\<close> on, one process call and a delay of 20 ms each.\<close>

fun protocol_anylise_thread_entry ::
  "('h, 's) parser \<Rightarrow> 's comm_ops \<Rightarrow> (nat \<Rightarrow> u32) \<Rightarrow> nat \<Rightarrow> nat \<Rightarrow> 'h comm_dev \<Rightarrow> 's \<Rightarrow> ('h comm_dev \<times> 's) option" where
  "protocol_anylise_thread_entry run ops tick i 0 dev s = Some (dev, s)"
| "protocol_anylise_thread_entry run ops tick i (Suc n) dev s = do {
     (dev, s) \<leftarrow> protocol_anylise_process run ops (tick i) dev s;
     protocol_anylise_thread_entry run ops tick (i + 1) n dev s }"

subsection \<open>Registration\<close>

definition registered :: "'h comm_dev \<Rightarrow> 'h set" where
  "registered dev = {p. Some p \<in> set (protocol_anylise_fun dev)}"

definition slots_ok :: "'h comm_dev \<Rightarrow> bool" where
  "slots_ok dev \<longleftrightarrow> length (protocol_anylise_fun dev) = PROTOCOL_FUN_MAX \<and>
     protocol_num dev = length (filter (\<lambda>q. q \<noteq> None) (protocol_anylise_fun dev))"

lemma find_slot_Some: "find_slot p qs = Some i \<Longrightarrow> i < length qs \<and> qs ! i = p \<and> (\<forall>j<i. qs ! j \<noteq> p)"
proof (induction qs arbitrary: i)
  case (Cons q qs)
  then show ?case by (fastforce split: if_splits simp: less_Suc_eq_0_disj)
qed simp

lemma find_slot_None: "find_slot p qs = None \<longleftrightarrow> p \<notin> set qs"
  by (induction qs) auto

lemma count_update:
  "i < length qs \<Longrightarrow> length (filter P (qs[i := x])) + (if P (qs ! i) then 1 else 0) =
     length (filter P qs) + (if P x then 1 else 0)"
proof (induction qs arbitrary: i)
  case (Cons q qs)
  then show ?case by (cases i) auto
qed simp

lemma full_slots: "length (filter P qs) = length qs \<Longrightarrow> q \<in> set qs \<Longrightarrow> P q"
  by (metis filter_id_conv length_filter_less less_irrefl)

lemma add_cases:
  assumes "slots_ok dev"
  obtains (full) "protocol_num dev = PROTOCOL_FUN_MAX" "None \<notin> set (protocol_anylise_fun dev)"
  | (room) i where "protocol_num dev < PROTOCOL_FUN_MAX" "find_slot None (protocol_anylise_fun dev) = Some i"
proof -
  let ?qs = "protocol_anylise_fun dev"
  have n: "length ?qs = PROTOCOL_FUN_MAX" "protocol_num dev = length (filter (\<lambda>q. q \<noteq> None) ?qs)"
    using assms by (auto simp: slots_ok_def)
  have le: "protocol_num dev \<le> PROTOCOL_FUN_MAX" using n length_filter_le [of "\<lambda>q. q \<noteq> None" ?qs] by simp
  show ?thesis
  proof (cases "None \<in> set ?qs")
    case True
    then have "protocol_num dev \<noteq> PROTOCOL_FUN_MAX" using n full_slots [of "\<lambda>q. q \<noteq> None" ?qs None] by auto
    then show ?thesis using room le True find_slot_None [of None ?qs] by force
  next
    case False
    then have "filter (\<lambda>q. q \<noteq> None) ?qs = ?qs" by (intro filter_True) metis
    then show ?thesis using full False n by simp
  qed
qed

lemma slots_ok_set:
  assumes "slots_ok dev" "i < length (protocol_anylise_fun dev)"
    "n + (if protocol_anylise_fun dev ! i = None then 0 else 1) = protocol_num dev + (if q = None then 0 else 1)"
  shows "slots_ok (dev\<lparr>protocol_anylise_fun := (protocol_anylise_fun dev)[i := q], protocol_num := n\<rparr>)"
  using assms count_update [OF assms(2), of "\<lambda>q. q \<noteq> None" q] by (auto simp: slots_ok_def split: if_splits)

lemma add_registers:
  assumes "slots_ok dev"
  shows "if protocol_num dev < PROTOCOL_FUN_MAX
    then \<exists>dev' calls. protocol_anylise_add (Some dev) (Some p) = (Some dev', True, calls) \<and> slots_ok dev' \<and>
           registered dev' = insert p (registered dev) \<and> protocol_num dev' = protocol_num dev + 1 \<and>
           (p \<notin> registered dev \<longrightarrow>
              (\<exists>calls. protocol_anylise_del (Some dev') (Some p) = (Some dev, True, calls)))
    else protocol_anylise_add (Some dev) (Some p) = (Some dev, False, [])"
  using assms
proof (cases rule: add_cases)
  case full
  then show ?thesis by (simp add: protocol_anylise_add_def)
next
  case (room i)
  let ?qs = "protocol_anylise_fun dev"
  let ?dev' = "dev\<lparr>protocol_anylise_fun := ?qs[i := Some p], protocol_num := u32_add (protocol_num dev) 1\<rparr>"
  have i: "i < length ?qs" "?qs ! i = None" using find_slot_Some [OF room(2)] by auto
  have n: "u32_add (protocol_num dev) 1 = protocol_num dev + 1" using room(1) by (simp add: u32_add_def)
  have a: "protocol_anylise_add (Some dev) (Some p) = (Some ?dev', True, suspend_thread dev @ resume_thread dev)"
    using room by (simp add: protocol_anylise_add_def)
  have ok: "slots_ok ?dev'" using slots_ok_set [OF assms i(1), of _ "Some p"] i(2) n by simp
  have reg: "registered ?dev' = insert p (registered dev)"
  proof -
    have "None \<in> set ?qs" using i nth_mem by metis
    moreover have "set (?qs[i := Some p]) \<subseteq> insert (Some p) (set ?qs)" by (rule set_update_subset_insert)
    moreover have "Some q \<in> set (?qs[i := Some p])" if q: "Some q \<in> set ?qs" for q
    proof -
      obtain j where "j < length ?qs" "?qs ! j = Some q" using q by (auto simp: in_set_conv_nth)
      then show ?thesis using i by (auto simp: in_set_conv_nth nth_list_update intro!: exI [of _ j])
    qed
    moreover have "Some p \<in> set (?qs[i := Some p])" using i(1) by (simp add: set_update_memI)
    ultimately show ?thesis by (auto simp: registered_def)
  qed
  have del: "\<exists>calls. protocol_anylise_del (Some ?dev') (Some p) = (Some dev, True, calls)" if "p \<notin> registered dev"
  proof -
    have none: "Some p \<notin> set ?qs" using that by (simp add: registered_def)
    have "find_slot (Some p) (?qs[i := Some p]) = Some i"
    proof (cases "find_slot (Some p) (?qs[i := Some p])")
      case None
      then show ?thesis using i(1) by (simp add: find_slot_None set_update_memI)
    next
      case (Some j)
      then have "j < length ?qs" "?qs[i := Some p] ! j = Some p" using find_slot_Some [OF Some] by auto
      then have "j = i" using none by (metis nth_list_update_neq nth_mem)
      then show ?thesis using Some by simp
    qed
    moreover have "?qs[i := None] = ?qs" using i by (metis list_update_id)
    moreover have "u32_sub (u32_add (protocol_num dev) 1) 1 = protocol_num dev"
      unfolding n using room(1) by (simp add: u32_sub_exact)
    ultimately show ?thesis using n by (simp add: protocol_anylise_del_def)
  qed
  show ?thesis using room(1) a ok reg del n by auto
qed

lemma del_keeps_slots:
  assumes "slots_ok dev"
  shows "\<exists>dev' r calls. protocol_anylise_del (Some dev) (Some p) = (Some dev', r, calls) \<and> slots_ok dev'"
proof (cases "find_slot (Some p) (protocol_anylise_fun dev)")
  case None
  then show ?thesis using assms by (auto simp: protocol_anylise_del_def)
next
  case (Some i)
  have i: "i < length (protocol_anylise_fun dev)" "protocol_anylise_fun dev ! i = Some p"
    using find_slot_Some [OF Some] by auto
  show ?thesis
  proof (cases "protocol_num dev = 0")
    case False
    have "protocol_num dev \<le> PROTOCOL_FUN_MAX"
      using assms length_filter_le [of "\<lambda>q. q \<noteq> None" "protocol_anylise_fun dev"] by (simp add: slots_ok_def)
    then have "u32_sub (protocol_num dev) 1 = protocol_num dev - 1" using False by (intro u32_sub_exact) auto
    then have "slots_ok (dev\<lparr>protocol_anylise_fun := (protocol_anylise_fun dev)[i := None],
        protocol_num := u32_sub (protocol_num dev) 1\<rparr>)"
      using False i by (intro slots_ok_set [OF assms i(1)]) simp
    then show ?thesis using False Some by (auto simp: protocol_anylise_del_def)
  qed (use assms in \<open>auto simp: protocol_anylise_del_def\<close>)
qed

subsection \<open>What a port promises\<close>

locale comm_port =
  fixes ops :: "'s comm_ops" and pending :: "'s \<Rightarrow> u8 list" and ok :: "'s \<Rightarrow> bool"
  assumes recv_law: "ok s \<Longrightarrow> n = min len (length (pending s)) \<Longrightarrow> n \<le> length buf \<Longrightarrow>
      recv_op ops buf len False s = Some (n, take n (pending s) @ drop n buf, s)"
    and del_law: "ok s \<Longrightarrow> ok (snd (del_op ops n s)) \<and> pending (snd (del_op ops n s)) = drop n (pending s)"
    and clear_law: "ok s \<Longrightarrow> ok (clear_op ops s) \<and> pending (clear_op ops s) = []"
begin

text \<open>A parser leaves the received bytes alone, and consumes some when it accepts or rejects.\<close>

definition quiet :: "('h, 's) parser \<Rightarrow> bool" where
  "quiet run \<longleftrightarrow> (\<forall>p buf len s s' r n. run p buf len s = Some (s', r, n) \<longrightarrow> ok s \<longrightarrow> length buf < U32_RANGE \<longrightarrow>
     ok s' \<and> pending s' = pending s \<and> (r \<noteq> anylise_waiting \<longrightarrow> 0 < n))"

lemma quietD:
  "quiet run \<Longrightarrow> run p buf len s = Some (s', r, n) \<Longrightarrow> ok s \<Longrightarrow> length buf < U32_RANGE \<Longrightarrow>
     ok s' \<and> pending s' = pending s \<and> (r \<noteq> anylise_waiting \<longrightarrow> 0 < n)"
  unfolding quiet_def by blast

lemma offer_quiet:
  assumes "quiet run" "0 < len" "length buf < U32_RANGE"
  shows "offer run ps buf len s = Some (s', infos, r) \<Longrightarrow> ok s \<Longrightarrow>
    ok s' \<and> pending s' = pending s \<and> (\<forall>n. r = Some n \<longrightarrow> 0 < n) \<and>
    (\<forall>(state, n) \<in> set infos. state = anylise_reject \<longrightarrow> 0 < n) \<and> (r = None \<longrightarrow> length infos = length ps)"
proof (induction ps arbitrary: s infos)
  case (Cons p ps)
  show ?case
  proof (cases p)
    case None
    then obtain infos' where i: "offer run ps buf len s = Some (s', infos', r)" "infos = (anylise_reject, len) # infos'"
      using Cons.prems(1) by (auto split: bind_splits)
    then show ?thesis using Cons.IH [OF i(1) Cons.prems(2)] assms(2) by auto
  next
    case (Some h)
    then obtain s1 state n where r: "run h buf len s = Some (s1, state, n)"
      using Cons.prems(1) by (auto split: bind_splits)
    note q = quietD [OF assms(1) r Cons.prems(2) assms(3)]
    show ?thesis
    proof (cases "state = anylise_accept")
      case True
      then show ?thesis using Cons.prems q r Some by auto
    next
      case False
      then obtain infos' where i: "offer run ps buf len s1 = Some (s', infos', r)"
        "infos = (state, n) # infos'" using Cons.prems r Some by (auto split: bind_splits)
      then show ?thesis using Cons.IH [OF i(1)] q by auto
    qed
  qed
qed auto

end

lemma all_reject_positive:
  "all_reject infos m = Some n \<Longrightarrow> (\<forall>(state, k) \<in> set infos. state = anylise_reject \<longrightarrow> 0 < k) \<Longrightarrow>
   infos \<noteq> [] \<or> 0 < m \<Longrightarrow> 0 < n"
proof (induction infos m rule: all_reject.induct)
  case (2 state k infos m)
  then show ?case by (auto split: if_splits)
qed auto

text \<open>A device whose buffer has the size it announces.\<close>

definition dev_wf :: "'h comm_dev \<Rightarrow> bool" where
  "dev_wf dev \<longleftrightarrow> length (dev_buf dev) = dev_buf_len dev \<and> 0 < dev_buf_len dev \<and>
     dev_buf_len dev < U32_RANGE \<and> protocol_anylise_fun dev \<noteq> []"

context comm_port
begin

text \<open>One round either consumes bytes or, when somebody waits for more, keeps everything until the
  time is up and then clears the port.\<close>

lemma process_outcome:
  assumes "quiet run" "ok s" "dev_wf dev"
    "protocol_anylise_process run ops tick dev s = Some (dev', s')"
  shows "ok s' \<and> dev_wf dev' \<and> ticks_out dev' = ticks_out dev \<and>
    (pending s = [] \<and> pending s' = [] \<or>
     pending s \<noteq> [] \<and> length (pending s') < length (pending s) \<and> (\<exists>n>0. pending s' = drop n (pending s)) \<or>
     pending s \<noteq> [] \<and> pending s' = [] \<and> timed_out tick (wait_ticks dev) (ticks_out dev) \<or>
     pending s \<noteq> [] \<and> pending s' = pending s \<and> wait_ticks dev' = wait_ticks dev \<and>
       \<not> timed_out tick (wait_ticks dev) (ticks_out dev))"
proof -
  define len where "len = min (dev_buf_len dev) (length (pending s))"
  define buf where "buf = take len (pending s) @ drop len (dev_buf dev)"
  have l: "len \<le> length (dev_buf dev)" using assms(3) by (simp add: len_def dev_wf_def)
  have r: "recv_op ops (dev_buf dev) (dev_buf_len dev) False s = Some (len, buf, s)"
    unfolding buf_def by (rule recv_law [OF assms(2) len_def l])
  have buf: "length buf = dev_buf_len dev" using assms(3) l by (simp add: buf_def dev_wf_def len_def)
  show ?thesis
  proof (cases "len = 0")
    case True
    then have "pending s = []" using assms(3) by (auto simp: len_def dev_wf_def min_def split: if_splits)
    then show ?thesis using assms(2-4) r True buf by (auto simp: protocol_anylise_process_def Let_def dev_wf_def)
  next
    case False
    then have ne: "pending s \<noteq> []" by (auto simp: len_def)
    obtain s1 infos acc where o: "offer run (protocol_anylise_fun dev) buf len s = Some (s1, infos, acc)"
    proof (cases "offer run (protocol_anylise_fun dev) buf len s")
      case None
      then show ?thesis using assms(4) r False by (simp add: protocol_anylise_process_def Let_def)
    next
      case (Some x)
      then show ?thesis by (cases x) (auto intro: that)
    qed
    have q: "ok s1" "pending s1 = pending s" "\<And>n. acc = Some n \<Longrightarrow> 0 < n"
      "\<forall>(state, n) \<in> set infos. state = anylise_reject \<longrightarrow> 0 < n"
      "acc = None \<Longrightarrow> length infos = length (protocol_anylise_fun dev)"
      using offer_quiet [OF assms(1) _ _ o assms(2)] False buf assms(3) by (auto simp: dev_wf_def)
    have shorter: "length (drop n (pending s)) < length (pending s)" if "0 < n" for n
      using that ne by simp
    show ?thesis
    proof (cases acc)
      case (Some n)
      then have e: "dev' = dev\<lparr>dev_buf := buf, wait_ticks := tick\<rparr>" "s' = snd (del_op ops n s1)"
        using assms(4) r False o by (auto simp: protocol_anylise_process_def Let_def)
      then show ?thesis
        using del_law [OF q(1), of n] q(2) q(3) [OF Some] ne shorter buf assms(3) by (auto simp: dev_wf_def)
    next
      case None
      show ?thesis
      proof (cases "all_reject infos 0")
        case (Some n)
        then have e: "dev' = dev\<lparr>dev_buf := buf, wait_ticks := tick\<rparr>" "s' = snd (del_op ops n s1)"
          using assms(4) r False o None by (auto simp: protocol_anylise_process_def Let_def)
        have "infos \<noteq> []" using q(5) [OF None] assms(3) by (auto simp: dev_wf_def)
        then have "0 < n" using all_reject_positive [OF Some q(4)] by simp
        then show ?thesis
          using e del_law [OF q(1), of n] q(2) ne shorter buf assms(3) by (auto simp: dev_wf_def)
      next
        case rej: None
        then have e: "(dev', s') = (if timed_out tick (wait_ticks dev) (ticks_out dev)
            then (dev\<lparr>dev_buf := buf, wait_ticks := tick\<rparr>, clear_op ops s1) else (dev\<lparr>dev_buf := buf\<rparr>, s1))"
          using assms(4) r False o None by (auto simp: protocol_anylise_process_def Let_def)
        then show ?thesis
          using clear_law [OF q(1)] q(1,2) ne buf assms(3) by (auto simp: dev_wf_def split: if_splits)
      qed
    qed
  qed
qed

end

subsection \<open>The time-out as signed distance\<close>

lemma abs_tick_difference: "uint (if 0 <s x then x else - x) = \<bar>sint (x :: u32)\<bar>"
proof -
  have s: "- 2147483648 \<le> sint x" "sint x < 2147483648"
    using sint_greater_eq [of x] sint_less [of x] by simp_all
  have u: "uint x = sint x mod 4294967296" using uint_sint [of x] by (simp add: take_bit_eq_mod)
  have "uint (- x) = (- uint x) mod 4294967296" using uint_word_ariths(4) [of x] by simp
  then have m: "uint (- x) = (- sint x) mod 4294967296" using u by (simp add: mod_minus_eq)
  have "0 <s x \<longleftrightarrow> 0 < sint x" by (simp add: word_sless_alt)
  then show ?thesis using s u m by (auto simp: abs_if)
qed

lemma timed_out_iff: "timed_out now waited out \<longleftrightarrow> uint out < \<bar>sint (now - waited)\<bar>"
  unfolding timed_out_def Let_def word_less_def abs_tick_difference by simp

lemma sint_forward:
  assumes "0 \<le> k" "sint (x :: u32) + k < 2147483648"
  shows "sint (x + word_of_int k) = sint x + k"
proof -
  have s: "- 2147483648 \<le> sint x" using sint_greater_eq [of x] by simp
  have e: "x + word_of_int k = word_of_int (sint x + k)" by simp
  have "sint (x + word_of_int k) = signed_take_bit 31 (sint x + k)"
    unfolding e by (subst signed_of_int) simp
  also have "\<dots> = sint x + k" using assms s by (intro signed_take_bit_int_eq_self) simp_all
  finally show ?thesis .
qed

text \<open>With one round every two ticks, some round of the next \<open>out + 2\<close> is late enough.\<close>

lemma times_out_soon:
  assumes "unat out = T" "T < 536870912"
  shows "\<exists>j < T + 2. timed_out (t0 + 2 * of_nat (i + j)) waited out"
proof -
  let ?d = "t0 + 2 * of_nat i - waited"
  have o: "uint out = int T" using assms(1) by (metis uint_nat)
  show ?thesis
  proof (cases "int T < \<bar>sint ?d\<bar>")
    case True
    then show ?thesis using o by (intro exI [of _ 0]) (simp add: timed_out_iff)
  next
    case False
    let ?k = "2 * (int T + 1)"
    have e: "t0 + 2 * of_nat (i + (T + 1)) - waited = ?d + word_of_int ?k" by (simp add: algebra_simps)
    have "\<bar>sint ?d\<bar> \<le> int T" using False by simp
    then have b: "- int T \<le> sint ?d" "sint ?d \<le> int T" by (simp_all add: abs_le_iff)
    have "sint (?d + word_of_int ?k) = sint ?d + ?k" using b assms(2) by (intro sint_forward) auto
    moreover have late: "int T < \<bar>y\<bar>" if "y = z + ?k" "- int T \<le> z" for y z :: int
      using that by (simp add: abs_if)
    ultimately have "int T < \<bar>sint (?d + word_of_int ?k)\<bar>" using b(1) by blast
    then have "timed_out (t0 + 2 * of_nat (i + (T + 1))) waited out"
      unfolding timed_out_iff o e .
    then show ?thesis by (intro exI [of _ "T + 1"]) simp
  qed
qed

subsection \<open>Rounds of the thread\<close>

context comm_port
begin

lemma thread_keeps:
  assumes "quiet run"
  shows "protocol_anylise_thread_entry run ops tick i n dev s = Some (dev', s') \<Longrightarrow> ok s \<Longrightarrow> dev_wf dev \<Longrightarrow>
    ok s' \<and> dev_wf dev' \<and> length (pending s') \<le> length (pending s)"
proof (induction n arbitrary: i dev s)
  case (Suc n)
  then obtain dev1 s1 where p: "protocol_anylise_process run ops (tick i) dev s = Some (dev1, s1)"
    "protocol_anylise_thread_entry run ops tick (i + 1) n dev1 s1 = Some (dev', s')"
    by (auto split: bind_splits)
  from process_outcome [OF assms Suc.prems(2,3) p(1)] have "ok s1" "dev_wf dev1" "length (pending s1) \<le> length (pending s)"
    by auto
  then show ?case using Suc.IH [OF p(2)] by auto
qed simp

lemma thread_waits:
  assumes "quiet run"
  shows "protocol_anylise_thread_entry run ops tick i n dev s = Some (dev', s') \<Longrightarrow> ok s \<Longrightarrow> dev_wf dev \<Longrightarrow>
    pending s \<noteq> [] \<Longrightarrow> \<not> length (pending s') < length (pending s) \<Longrightarrow>
    j < n \<Longrightarrow> \<not> timed_out (tick (i + j)) (wait_ticks dev) (ticks_out dev)"
proof (induction n arbitrary: i j dev s)
  case (Suc n)
  then obtain dev1 s1 where p: "protocol_anylise_process run ops (tick i) dev s = Some (dev1, s1)"
    "protocol_anylise_thread_entry run ops tick (i + 1) n dev1 s1 = Some (dev', s')"
    by (auto split: bind_splits)
  note out = process_outcome [OF assms Suc.prems(2,3) p(1)]
  have le: "length (pending s') \<le> length (pending s1)" using thread_keeps [OF assms p(2)] out by auto
  then have w: "ok s1" "dev_wf dev1" "pending s1 = pending s" "wait_ticks dev1 = wait_ticks dev"
    "ticks_out dev1 = ticks_out dev" "\<not> timed_out (tick i) (wait_ticks dev) (ticks_out dev)"
    using out Suc.prems(4,5) by auto
  show ?case
  proof (cases j)
    case 0
    then show ?thesis using w(6) by simp
  next
    case (Suc k)
    then show ?thesis using Suc.IH [OF p(2) w(1,2), of k] Suc.prems(4-6) w(3-5) by simp
  qed
qed simp

lemma thread_progress:
  assumes "quiet run" "ok s" "dev_wf dev" "pending s \<noteq> []" "unat (ticks_out dev) < 536870912"
    "protocol_anylise_thread_entry run ops (\<lambda>r. t0 + 2 * of_nat r) i (unat (ticks_out dev) + 2) dev s = Some (dev', s')"
  shows "length (pending s') < length (pending s)"
proof (rule ccontr)
  assume "\<not> length (pending s') < length (pending s)"
  then have "\<not> timed_out (t0 + 2 * of_nat (i + j)) (wait_ticks dev) (ticks_out dev)"
    if "j < unat (ticks_out dev) + 2" for j
    using thread_waits [OF assms(1,6,2,3,4), of j] that by simp
  then show False using times_out_soon [OF refl assms(5), of t0 i "wait_ticks dev"] by blast
qed

end

subsection \<open>Properties\<close>

text \<open>
  Property C24.  Registering a parser uses a free slot when fewer than three are taken and is refused
  otherwise; the number of parsers kept by the device is always the number of taken slots, and
  unregistering a parser that was not there before restores the device.
\<close>

theorem parser_registration:
  assumes "slots_ok dev"
  shows "(if protocol_num dev < PROTOCOL_FUN_MAX
    then \<exists>dev' calls. protocol_anylise_add (Some dev) (Some p) = (Some dev', True, calls) \<and> slots_ok dev' \<and>
           registered dev' = insert p (registered dev) \<and> protocol_num dev' = protocol_num dev + 1 \<and>
           (p \<notin> registered dev \<longrightarrow>
              (\<exists>calls. protocol_anylise_del (Some dev') (Some p) = (Some dev, True, calls)))
    else protocol_anylise_add (Some dev) (Some p) = (Some dev, False, [])) \<and>
    (\<exists>dev' r calls. protocol_anylise_del (Some dev) (Some p) = (Some dev', r, calls) \<and> slots_ok dev')"
  using add_registers [OF assms] del_keeps_slots [OF assms] by blast

theorem parser_registration_witness:
  "\<exists>dev dev' calls. comm_dev_create ''UartComm'' 1024 100 True (Some (replicate 1024 0)) = Some dev \<and>
     protocol_anylise_add (Some dev) (Some (7 :: nat)) = (Some dev', True, calls) \<and> registered dev' = {7}"
proof -
  obtain dev :: "nat comm_dev" where d: "comm_dev_create ''UartComm'' 1024 100 True (Some (replicate 1024 0)) = Some dev"
    "slots_ok dev" "protocol_num dev = 0" "registered dev = {}"
    by (simp add: comm_dev_create_def slots_ok_def registered_def)
  from parser_registration [OF d(2), of 7] d(1,3,4) show ?thesis by auto
qed

text \<open>
  Fact.  A null pointer is accepted by both operations: deleting it "removes" an empty slot and
  lowers the number of parsers below the number of taken slots.
\<close>

theorem null_parser_breaks_count:
  assumes "slots_ok dev" "0 < protocol_num dev" "protocol_num dev < PROTOCOL_FUN_MAX"
  shows "\<exists>dev' calls. protocol_anylise_del (Some dev) None = (Some dev', True, calls) \<and>
    protocol_anylise_fun dev' = protocol_anylise_fun dev \<and> protocol_num dev' = protocol_num dev - 1 \<and> \<not> slots_ok dev'"
  using assms(1)
proof (cases rule: add_cases)
  case full
  then show ?thesis using assms(3) by simp
next
  case (room i)
  have i: "i < length (protocol_anylise_fun dev)" "protocol_anylise_fun dev ! i = None" using find_slot_Some [OF room(2)] by auto
  then have "(protocol_anylise_fun dev)[i := None] = protocol_anylise_fun dev" by (metis list_update_id)
  moreover have "u32_sub (protocol_num dev) 1 = protocol_num dev - 1" using assms(2,3) by (intro u32_sub_exact) auto
  moreover have "protocol_num dev - 1 \<noteq> protocol_num dev" using assms(2) by simp
  moreover have "\<not> slots_ok (dev\<lparr>protocol_num := n\<rparr>)" if "n \<noteq> protocol_num dev" for n
    using assms(1) that by (simp add: slots_ok_def)
  ultimately show ?thesis using assms(2) room(2) by (simp add: protocol_anylise_del_def)
qed

theorem null_parser_breaks_count_witness:
  "\<exists>dev' calls. protocol_anylise_del (Some \<lparr>dev_name = ''x'', dev_buf = [], dev_buf_len = 0, ticks_out = 0,
     protocol_anylise_fun = [Some (1 :: nat), None, None], protocol_num = 1, dev_tid = None, wait_ticks = 0\<rparr>) None =
     (Some dev', True, calls) \<and> protocol_num dev' = 0"
  using null_parser_breaks_count [of "\<lparr>dev_name = ''x'', dev_buf = [], dev_buf_len = 0, ticks_out = 0,
     protocol_anylise_fun = [Some (1 :: nat), None, None], protocol_num = 1, dev_tid = None, wait_ticks = 0\<rparr>"]
  by (auto simp: slots_ok_def)

end
