(* ===== verification/CanThread.thy ===== *)
theory CanThread imports Prelude RingBuf Frame DevState CanOta CanSession CommDev
begin

text \<open>
  The thread that serves the CAN protocol (\<open>can_ota_init\<close> of \<open>general_app/can_ota_protocol.c\<close>): the
  communication device of \<open>CommDev\<close> with the ring buffer \<open>CAN_BUF500\<close> as its port and
  \<open>can500_protocol_anylise\<close> as its parser.  The ring buffer provides what \<open>comm_port\<close> asks for, and
  the parser is quiet, so the thread's lemmas hold of the firmware: received frames are carried out
  and removed, and whatever else is received is gone after the time-out.
\<close>

record can_world =
  CAN_BUF500 :: RingBufType
  app :: dev_state

subsection \<open>The port\<close>

definition can500_buf_recv :: "u8 list \<Rightarrow> nat \<Rightarrow> bool \<Rightarrow> can_world \<Rightarrow> (nat \<times> u8 list \<times> can_world) option" where
  "can500_buf_recv buf len clear w = do {
     (n, buf, b) \<leftarrow> ReadDataFromBuf (CAN_BUF500 w) buf len clear;
     Some (n, buf, w\<lparr>CAN_BUF500 := b\<rparr>) }"

definition can500_buf_del :: "nat \<Rightarrow> can_world \<Rightarrow> nat \<times> can_world" where
  "can500_buf_del len w = (let (n, b) = DelDataFromBuf (CAN_BUF500 w) len in (n, w\<lparr>CAN_BUF500 := b\<rparr>))"

definition can500_buf_clear :: "can_world \<Rightarrow> can_world" where
  "can500_buf_clear w = w\<lparr>CAN_BUF500 := ClearDateFromBuf (CAN_BUF500 w)\<rparr>"

definition can500_ops :: "can_world comm_ops" where
  "can500_ops = \<lparr>recv_op = can500_buf_recv, del_op = can500_buf_del, clear_op = can500_buf_clear\<rparr>"

datatype can_parser = Can500_protocol_anylise

definition can500_run :: "flash_hw \<Rightarrow> u8 list \<Rightarrow> (can_parser, can_world) parser" where
  "can500_run hw behind p buf len w = do {
     (st, r, n) \<leftarrow> can500_protocol_anylise hw behind (app w) buf len;
     Some (w\<lparr>app := st\<rparr>, r, n) }"

text \<open>The blocks are the answers of the three allocations; the heartbeat thread is started apart.\<close>

definition can_ota_init :: "u8 list option \<Rightarrow> bool \<Rightarrow> u8 list option \<Rightarrow> nat option \<Rightarrow>
    RingBufType \<times> can_parser comm_dev option \<times> thread_call list" where
  "can_ota_init ring_block dev_block buf_block new_thread =
     (let ring = RxBufInit 1024 ring_block;
          comm = comm_dev_create ''CAN500T'' 1024 100 dev_block buf_block in
      if comm = None then (ring, None, [])
      else let (comm, _, calls1) = protocol_anylise_add comm (Some Can500_protocol_anylise);
               (comm, _, calls2) = protocol_anylise_startup new_thread comm
           in (ring, comm, calls1 @ calls2))"

subsection \<open>The ring buffer is a port, the parser is quiet\<close>

interpretation can_port: comm_port can500_ops "\<lambda>w. rb_list (CAN_BUF500 w)" "\<lambda>w. rb_inv (CAN_BUF500 w)"
proof
  fix w :: can_world and n len :: nat and buf :: "u8 list"
  assume ok: "rb_inv (CAN_BUF500 w)"
  show "recv_op can500_ops buf len False w = Some (n, take n (rb_list (CAN_BUF500 w)) @ drop n buf, w)"
    if n: "n = min len (length (rb_list (CAN_BUF500 w)))" and fits: "n \<le> length buf"
    using ReadDataFromBuf_rb_list [OF ok n fits, of False] by (auto simp: can500_ops_def can500_buf_recv_def)
  show "rb_inv (CAN_BUF500 (snd (del_op can500_ops n w))) \<and>
      rb_list (CAN_BUF500 (snd (del_op can500_ops n w))) = drop n (rb_list (CAN_BUF500 w))"
    using DelDataFromBuf_rb_list [OF ok, of n] by (auto simp: can500_ops_def can500_buf_del_def split: prod.split)
  show "rb_inv (CAN_BUF500 (clear_op can500_ops w)) \<and> rb_list (CAN_BUF500 (clear_op can500_ops w)) = []"
    using ClearDateFromBuf_rb_list [OF ok] by (simp add: can500_ops_def can500_buf_clear_def)
qed

lemma can500_consumes:
  assumes "can500_protocol_anylise hw behind st buf len = Some (st', r, n)" "length buf < U32_RANGE"
    "r \<noteq> anylise_waiting"
  shows "0 < n"
proof -
  have l: "\<not> len < FRAME_MIN_LEN" using assms(1,3) by (auto simp: can500_protocol_anylise_def)
  obtain s where s: "can500_scan buf len = Some s"
    using assms(1) l by (auto simp: can500_protocol_anylise_def split: bind_splits)
  show ?thesis
  proof (cases s)
    case (Scan_accept i m)
    then have v: "i + m \<le> length buf" "valid_frame CAN_COMM_PROTOCOL_MAX_LEN (take m (drop i buf))"
      using s frame_scan_accept by (auto simp: can500_scan_def)
    then have "0 < m" by (auto simp: valid_frame_def)
    moreover have "u32_add m i = m + i" using v(1) assms(2) by (intro u32_add_exact) simp
    moreover have "n = u32_add m i" using assms(1) l s Scan_accept
      by (auto simp: can500_protocol_anylise_def split: bind_splits)
    ultimately show ?thesis by simp
  next
    case (Scan_reject k)
    then show ?thesis
      using assms(1) l s frame_scan_reject by (auto simp: can500_protocol_anylise_def can500_scan_def)
  qed (use assms l s in \<open>auto simp: can500_protocol_anylise_def\<close>)
qed

lemma can500_quiet: "can_port.quiet (can500_run hw behind)"
  unfolding can_port.quiet_def
proof (intro allI impI)
  fix p buf len w w' r n
  assume "can500_run hw behind p buf len w = Some (w', r, n)" "rb_inv (CAN_BUF500 w)" "length buf < U32_RANGE"
  then show "rb_inv (CAN_BUF500 w') \<and> rb_list (CAN_BUF500 w') = rb_list (CAN_BUF500 w) \<and> (r \<noteq> anylise_waiting \<longrightarrow> 0 < n)"
    using can500_consumes by (fastforce simp: can500_run_def split: bind_splits)
qed

lemma can_ota_init_dev:
  assumes "length blk = 1024"
  shows "\<exists>comm. can_ota_init (Some ring) True (Some blk) (Some t) = (RxBufInit 1024 (Some ring), Some comm, [Thread_startup t]) \<and>
    dev_wf comm \<and> dev_buf_len comm = 1024 \<and> ticks_out comm = 100 \<and> slots_ok comm \<and>
    protocol_anylise_fun comm = [Some Can500_protocol_anylise, None, None]"
  using assms
  by (simp add: can_ota_init_def comm_dev_create_def protocol_anylise_add_def protocol_anylise_startup_def
      dev_wf_def slots_ok_def Let_def u32_add_def numeral_3_eq_3 suspend_thread_def resume_thread_def)

text \<open>A state of the device whose receive buffer works, and the device that the initialisation makes.\<close>

definition can_dev :: "can_parser comm_dev \<Rightarrow> bool" where
  "can_dev dev \<longleftrightarrow> dev_wf dev \<and> dev_buf_len dev = 1024 \<and> ticks_out dev = 100 \<and>
     protocol_anylise_fun dev = [Some Can500_protocol_anylise, None, None]"

lemma process_frame:
  assumes "can_dev dev" "rb_inv (CAN_BUF500 w)"
    "rb_list (CAN_BUF500 w) = host_frame cmd did remote payload @ rest" "length payload + 10 \<le> 1024"
  shows "\<exists>buf. protocol_anylise_process (can500_run hw behind) can500_ops tick dev w =
    do { st \<leftarrow> (if addressed (app w) did
               then can500_dispatch hw behind (heard remote (app w)) (host_frame cmd did remote payload @ buf) 0 (length payload + 10)
               else Some (heard remote (app w)));
         Some (dev\<lparr>dev_buf := host_frame cmd did remote payload @ buf, wait_ticks := tick\<rparr>,
               w\<lparr>app := st, CAN_BUF500 := snd (DelDataFromBuf (CAN_BUF500 w) (length payload + 10))\<rparr>) } \<and>
    rb_list (snd (DelDataFromBuf (CAN_BUF500 w) (length payload + 10))) = rest"
proof -
  let ?f = "host_frame cmd did remote payload" and ?n = "length payload + 10"
  define len where "len = min 1024 (length (rb_list (CAN_BUF500 w)))"
  define buf where "buf = take (len - ?n) rest @ drop len (dev_buf dev)"
  have dev: "length (dev_buf dev) = 1024" "dev_buf_len dev = 1024"
    "protocol_anylise_fun dev = [Some Can500_protocol_anylise, None, None]"
    using assms(1) by (simp_all add: can_dev_def dev_wf_def)
  have n: "?n \<le> len" "len < U32_RANGE" "len \<noteq> 0" using assms(3,4) by (auto simp: len_def)
  have "recv_op can500_ops (dev_buf dev) 1024 False w = Some (len, take len (?f @ rest) @ drop len (dev_buf dev), w)"
    using can_port.recv_law [OF assms(2), of len 1024 "dev_buf dev"] dev assms(3) by (simp add: len_def)
  then have r: "recv_op can500_ops (dev_buf dev) 1024 False w = Some (len, ?f @ buf, w)"
    using n(1) by (simp add: buf_def)
  have p: "can500_protocol_anylise hw behind (app w) (?f @ buf) len =
    do { st \<leftarrow> (if addressed (app w) did then can500_dispatch hw behind (heard remote (app w)) (?f @ buf) 0 ?n
               else Some (heard remote (app w)));
         Some (st, anylise_accept, ?n) }"
    using assms(4) n by (intro can500_on_frame) simp_all
  have "snd (del_op can500_ops ?n (w\<lparr>app := st\<rparr>)) = w\<lparr>app := st, CAN_BUF500 := snd (DelDataFromBuf (CAN_BUF500 w) ?n)\<rparr>" for st
    by (simp add: can500_ops_def can500_buf_del_def split: prod.split)
  then have "protocol_anylise_process (can500_run hw behind) can500_ops tick dev w =
    do { st \<leftarrow> (if addressed (app w) did then can500_dispatch hw behind (heard remote (app w)) (?f @ buf) 0 ?n
               else Some (heard remote (app w)));
         Some (dev\<lparr>dev_buf := ?f @ buf, wait_ticks := tick\<rparr>,
               w\<lparr>app := st, CAN_BUF500 := snd (DelDataFromBuf (CAN_BUF500 w) ?n)\<rparr>) }"
    using r p n(3) dev by (auto simp: protocol_anylise_process_def Let_def can500_run_def split: Option.bind_split)
  moreover have "rb_list (snd (DelDataFromBuf (CAN_BUF500 w) ?n)) = rest"
    using DelDataFromBuf_rb_list [OF assms(2), of ?n] assms(3) by simp
  ultimately show ?thesis by blast
qed

subsection \<open>Rounds that stay in their buffers\<close>

text \<open>
  Received bytes that the thread survives for certain: no five heads in a row (a longer run at the end of a full
  buffer is read over, \<open>frame_scan_head_overrun\<close>), and no frame for this device, whose command might fail. Everything else is allowed:
  garbage, frames cut off or damaged, frames for other devices.
\<close>

definition harmless :: "dev_state \<Rightarrow> u8 list \<Rightarrow> bool" where
  "harmless st xs \<longleftrightarrow> (\<forall>i. i + 5 \<le> length xs \<longrightarrow> (\<exists>p. i \<le> p \<and> p < i + 5 \<and> xs ! p \<noteq> FRAME_HEAD)) \<and>
     (\<forall>i n. i + n \<le> length xs \<longrightarrow> valid_frame CAN_COMM_PROTOCOL_MAX_LEN (take n (drop i xs)) \<longrightarrow> \<not> addressed st (u16_at xs (i + 4)))"

lemma harmless_drop: "harmless st xs \<Longrightarrow> harmless st (drop k xs)"
proof -
  assume h: "harmless st xs"
  have "\<exists>p. i \<le> p \<and> p < i + 5 \<and> drop k xs ! p \<noteq> FRAME_HEAD" if "i + 5 \<le> length (drop k xs)" for i
  proof -
    have "k + i + 5 \<le> length xs" using that by simp
    then obtain p where "k + i \<le> p" "p < k + i + 5" "xs ! p \<noteq> FRAME_HEAD" using h unfolding harmless_def by blast
    then show ?thesis using that by (intro exI [of _ "p - k"]) auto
  qed
  moreover have "\<not> addressed st (u16_at (drop k xs) (i + 4))"
    if "i + n \<le> length (drop k xs)" "valid_frame CAN_COMM_PROTOCOL_MAX_LEN (take n (drop i (drop k xs)))" for i n
  proof -
    have "8 \<le> n" using that by (auto simp: valid_frame_def)
    then have "u16_at (drop k xs) (i + 4) = u16_at xs (k + i + 4)" using that(1) by (simp add: u16_at_def ac_simps)
    moreover have "valid_frame CAN_COMM_PROTOCOL_MAX_LEN (take n (drop (k + i) xs))" using that(2) by (simp add: add.commute)
    moreover have "k + i + n \<le> length xs" using that(1) \<open>8 \<le> n\<close> by simp
    ultimately show ?thesis using h unfolding harmless_def by (metis (no_types, lifting))
  qed
  ultimately show ?thesis unfolding harmless_def by blast
qed

lemma harmless_heard: "harmless (heard remote st) xs = harmless st xs"
  by (simp add: harmless_def addressed_def heard_def)

lemma can500_survives:
  assumes "harmless st xs" "len = min 1024 (length xs)" "buf = take len xs @ rest" "length buf = 1024"
  shows "\<exists>st' r n. can500_protocol_anylise hw behind st buf len = Some (st', r, n) \<and> (st' = st \<or> (\<exists>m. st' = heard m st))"
proof (cases "len < FRAME_MIN_LEN")
  case True
  then show ?thesis by (simp add: can500_protocol_anylise_def)
next
  case False
  have same: "buf ! p = xs ! p" if "p < len" for p using that assms(2,3) by (simp add: nth_append)
  have "len - 7 + 5 \<le> length xs" using False assms(2) by simp
  then obtain p where p: "len - 7 \<le> p" "p < len - 7 + 5" "xs ! p \<noteq> FRAME_HEAD" using assms(1) unfolding harmless_def by blast
  then have "p < len" using False by simp
  then have w: "len \<le> length buf" "len < U32_RANGE" "p + 3 \<le> len" "len \<le> p + 7" "buf ! p \<noteq> FRAME_HEAD"
    using p False assms(2,4) same [of p] by auto
  obtain s where s: "frame_scan CAN_COMM_PROTOCOL_MAX_LEN buf len 0 = Some s"
    "case s of Scan_waiting \<Rightarrow> True | Scan_reject k \<Rightarrow> k \<le> len | Scan_accept k n \<Rightarrow> k + n \<le> len"
    using frame_scan_bounded [OF w, of 0 CAN_COMM_PROTOCOL_MAX_LEN] by auto
  then have scan: "can500_scan buf len = Some s" by (simp add: can500_scan_def)
  show ?thesis
  proof (cases s)
    case (Scan_accept k n)
    then have k: "k + n \<le> len" using s(2) by simp
    have v: "valid_frame CAN_COMM_PROTOCOL_MAX_LEN (take n (drop k buf))" using frame_scan_accept s(1) Scan_accept by blast
    have n: "8 \<le> n" using v by (auto simp: valid_frame_def)
    have "take n (drop k buf) = take n (drop k xs)"
      using k assms(2,3) by (intro nth_equalityI) (auto simp: nth_append)
    then have "\<not> addressed st (u16_at xs (k + 4))" using assms(1,2) v k unfolding harmless_def by auto
    moreover have "u16_at buf (k + 4) = u16_at xs (k + 4)" using n k by (simp add: u16_at_def same)
    moreover have "rd_u16 buf i = Some (u16_at buf i)" if "i + 1 < len" for i
      using that w(1) by (simp add: rd_u16_def u16_at_def rd_in)
    ultimately show ?thesis
      using False scan Scan_accept n k
      by (auto simp: can500_protocol_anylise_def can500_handle_def addressed_def heard_def)
  qed (use False scan in \<open>auto simp: can500_protocol_anylise_def\<close>)
qed

lemma process_survives:
  assumes "can_dev dev" "rb_inv (CAN_BUF500 w)" "harmless (app w) (rb_list (CAN_BUF500 w))"
  shows "\<exists>dev' w'. protocol_anylise_process (can500_run hw behind) can500_ops tick dev w = Some (dev', w') \<and> can_dev dev' \<and>
    rb_inv (CAN_BUF500 w') \<and> harmless (app w') (rb_list (CAN_BUF500 w'))"
proof -
  have dev: "length (dev_buf dev) = 1024" "dev_buf_len dev = 1024" "dev_wf dev" "ticks_out dev = 100"
    "protocol_anylise_fun dev = [Some Can500_protocol_anylise, None, None]"
    using assms(1) by (simp_all add: can_dev_def dev_wf_def)
  let ?xs = "rb_list (CAN_BUF500 w)"
  define len where "len = min 1024 (length ?xs)"
  define buf where "buf = take len ?xs @ drop len (dev_buf dev)"
  have b: "length buf = 1024" using dev(1) by (simp add: buf_def len_def)
  have r: "recv_op can500_ops (dev_buf dev) 1024 False w = Some (len, buf, w)"
    unfolding buf_def by (rule can_port.recv_law [OF assms(2)]) (simp_all add: len_def dev)
  obtain st s n where p: "can500_protocol_anylise hw behind (app w) buf len = Some (st, s, n)" "st = app w \<or> (\<exists>m. st = heard m (app w))"
    using can500_survives [OF assms(3) len_def buf_def b] by blast
  have "\<exists>dev' w'. protocol_anylise_process (can500_run hw behind) can500_ops tick dev w = Some (dev', w') \<and> can_dev dev' \<and>
      app w' \<in> {app w, st}"
    using r p(1) dev b assms(1)
    by (auto simp: protocol_anylise_process_def Let_def can500_run_def can_dev_def dev_wf_def can500_ops_def can500_buf_del_def
        can500_buf_clear_def split: option.split prod.split)
  then obtain dev' w' where q: "protocol_anylise_process (can500_run hw behind) can500_ops tick dev w = Some (dev', w')" "can_dev dev'"
    "app w' \<in> {app w, st}" by blast
  have "rb_inv (CAN_BUF500 w')" "\<exists>k. rb_list (CAN_BUF500 w') = drop k ?xs"
    using can_port.process_outcome [OF can500_quiet assms(2) dev(3) q(1)] by (auto intro: exI [of _ 0] exI [of _ "length ?xs"])
  moreover have "harmless (app w') xs = harmless (app w) xs" for xs using q(3) p(2) harmless_heard by auto
  ultimately show ?thesis using q(1,2) harmless_drop [OF assms(3)] by auto
qed

lemma thread_survives:
  "can_dev dev \<Longrightarrow> rb_inv (CAN_BUF500 w) \<Longrightarrow> harmless (app w) (rb_list (CAN_BUF500 w)) \<Longrightarrow>
   \<exists>dev' w'. protocol_anylise_thread_entry (can500_run hw behind) can500_ops tick i n dev w = Some (dev', w')"
proof (induction n arbitrary: i dev w)
  case (Suc n)
  obtain dev1 w1 where p: "protocol_anylise_process (can500_run hw behind) can500_ops (tick i) dev w = Some (dev1, w1)"
    "can_dev dev1" "rb_inv (CAN_BUF500 w1)" "harmless (app w1) (rb_list (CAN_BUF500 w1))"
    using process_survives [OF Suc.prems, of hw behind "tick i"] by blast
  from Suc.IH [OF p(2-4), of "i + 1"] p(1) show ?case by auto
qed simp

subsection \<open>Properties\<close>

text \<open>
  Property C12.  A complete frame at the front of the receive ring is carried out in one round of the
  CAN thread: the command runs if the frame is for this device, exactly the bytes of the frame leave
  the ring, and what was received behind it stays.
\<close>

theorem can_thread_carries_out_frame:
  assumes "can_dev dev" "rb_inv (CAN_BUF500 w)"
    "rb_list (CAN_BUF500 w) = host_frame cmd did remote payload @ rest" "length payload + 10 \<le> 1024"
    "protocol_anylise_process (can500_run hw behind) can500_ops tick dev w = Some (dev', w')"
  shows "rb_list (CAN_BUF500 w') = rest \<and>
    (if addressed (app w) did
     then \<exists>buf. can500_dispatch hw behind (heard remote (app w)) (host_frame cmd did remote payload @ buf) 0 (length payload + 10) =
            Some (app w')
     else app w' = heard remote (app w))"
  using process_frame [OF assms(1-4), of hw behind tick] assms(5)
  by (auto split: Option.bind_splits if_splits)

text \<open>
  Property C11.  The CAN thread does not get stuck: with anything in the receive ring, and however long ago the thread
  last made progress, 102 of its rounds (about two seconds, one round every two ticks of 10 ms) without new bytes leave
  less of it in the ring, unless one of them leaves an array, which a run of heads or a command that fails can make it
  do (\<open>frame_scan_head_overrun\<close>, \<open>short_update_overreads\<close>).  With harmless bytes (garbage, damaged or unfinished frames, frames
  for other devices) no round does.
\<close>

theorem can_thread_never_stalls:
  assumes "can_dev dev" "rb_inv (CAN_BUF500 w)" "rb_list (CAN_BUF500 w) \<noteq> []"
  shows "(case protocol_anylise_thread_entry (can500_run hw behind) can500_ops (\<lambda>r. t0 + 2 * of_nat r) i 102 dev w of
      Some (dev', w') \<Rightarrow> length (rb_list (CAN_BUF500 w')) < length (rb_list (CAN_BUF500 w))
    | None \<Rightarrow> \<not> harmless (app w) (rb_list (CAN_BUF500 w)))"
proof -
  have dev: "dev_wf dev" "unat (ticks_out dev) < 536870912" "unat (ticks_out dev) + 2 = 102"
    using assms(1) by (simp_all add: can_dev_def)
  show ?thesis
  proof (cases "protocol_anylise_thread_entry (can500_run hw behind) can500_ops (\<lambda>r. t0 + 2 * of_nat r) i 102 dev w")
    case None
    then show ?thesis using thread_survives [OF assms(1,2), of hw behind "\<lambda>r. t0 + 2 * of_nat r" i 102] by auto
  next
    case (Some x)
    obtain dev' w' where x: "x = (dev', w')" by (cases x)
    have "length (rb_list (CAN_BUF500 w')) < length (rb_list (CAN_BUF500 w))"
      by (rule can_port.thread_progress [OF can500_quiet assms(2) dev(1) assms(3) dev(2)])
        (use Some x in \<open>simp only: dev(3)\<close>)
    then show ?thesis using Some x by simp
  qed
qed

subsection \<open>Witnesses\<close>

definition small_ring :: "u8 list \<Rightarrow> RingBufType" where
  "small_ring xs = \<lparr>Head = 0, Tail = length xs, RxBuf = Some (xs @ replicate (1024 - length xs) 0), RxBufSize = 1024\<rparr>"

lemma small_ring_holds:
  assumes "length xs < 1024"
  shows "rb_inv (small_ring xs)" "rb_list (small_ring xs) = xs"
proof -
  show "rb_inv (small_ring xs)" using assms by (simp add: small_ring_def rb_inv_def)
  have "rb_len (small_ring xs) = length xs" using assms by (simp add: small_ring_def rb_len_def)
  then show "rb_list (small_ring xs) = xs"
    using assms by (intro nth_equalityI) (simp_all add: rb_list_nth, simp add: small_ring_def nth_append)
qed

definition can_thread_dev :: "can_parser comm_dev" where
  "can_thread_dev = \<lparr>dev_name = ''CAN500T'', dev_buf = replicate 1024 0, dev_buf_len = 1024, ticks_out = 100,
     protocol_anylise_fun = [Some Can500_protocol_anylise, None, None], protocol_num = 1, dev_tid = Some 1, wait_ticks = 0\<rparr>"

lemma can_thread_dev_ok: "can_dev can_thread_dev"
  by (simp add: can_dev_def can_thread_dev_def dev_wf_def)

theorem can_thread_carries_out_frame_witness:
  "\<exists>dev' w'. protocol_anylise_process (can500_run nor_hw [0, 0]) can500_ops 5 can_thread_dev
      \<lparr>CAN_BUF500 = small_ring (host_frame CAN_OTA_Recv_End 0x0802 7 [] @ [1, 2]), app = blank_device\<rparr> = Some (dev', w') \<and>
    rb_list (CAN_BUF500 w') = [1, 2] \<and> app w' = heard 7 blank_device"
proof -
  let ?xs = "host_frame CAN_OTA_Recv_End 0x0802 7 [] @ [1, 2]"
  let ?w = "\<lparr>CAN_BUF500 = small_ring ?xs, app = blank_device\<rparr>"
  have ring: "rb_inv (CAN_BUF500 ?w)" "rb_list (CAN_BUF500 ?w) = ?xs" using small_ring_holds [of ?xs] by simp_all
  have n: "\<not> addressed blank_device 0x0802" by (simp add: addressed_def blank_device_def)
  obtain dev' w' where p: "protocol_anylise_process (can500_run nor_hw [0, 0]) can500_ops 5 can_thread_dev ?w = Some (dev', w')"
    using process_frame [OF can_thread_dev_ok ring, where hw = nor_hw and behind = "[0, 0]" and tick = 5] n by auto
  from can_thread_carries_out_frame [OF can_thread_dev_ok ring _ p] n
  show ?thesis using p by auto
qed

text \<open>Garbage, a whole frame for another device, and the beginning of a frame that is never finished.\<close>

theorem can_thread_never_stalls_witness:
  "let xs = [0x11, 0xFE, 0x22] @ host_frame 0x0B 0x0802 7 [] @ [0xFE, 20, 0, 1] in
   \<exists>dev' w'. protocol_anylise_thread_entry (can500_run nor_hw [0, 0]) can500_ops (\<lambda>r. 7 + 2 * of_nat r) 0 102 can_thread_dev
      \<lparr>CAN_BUF500 = small_ring xs, app = blank_device\<rparr> = Some (dev', w') \<and> length (rb_list (CAN_BUF500 w')) < length xs"
proof -
  let ?xs = "[0x11, 0xFE, 0x22] @ host_frame 0x0B 0x0802 7 [] @ [0xFE, 20, 0, 1]"
  let ?w = "\<lparr>CAN_BUF500 = small_ring ?xs, app = blank_device\<rparr>"
  have ring: "rb_inv (CAN_BUF500 ?w)" "rb_list (CAN_BUF500 ?w) = ?xs" using small_ring_holds [of ?xs] by simp_all
  have xs: "?xs = [0x11, 0xFE, 0x22, 0xFE, 10, 0, 0x0B, 2, 8, 7, 0, 0x26, 0xBE, 0xFE, 20, 0, 1]" by code_simp
  have h: "harmless blank_device ?xs"
  proof -
    have l: "list_all (\<lambda>i. ?xs ! i \<noteq> 0xFE \<or> ?xs ! (i + 1) \<noteq> 0xFE) [0..<16]" "list_all (\<lambda>i. u16_at ?xs (i + 4) \<noteq> 0x0801) [0..<10]"
      unfolding xs by code_simp+
    have a: "?xs ! i \<noteq> 0xFE \<or> ?xs ! (i + 1) \<noteq> 0xFE" if "i < 16" for i
      using l(1) that unfolding list_all_iff set_upt by (metis atLeastLessThan_iff le0)
    have b: "u16_at ?xs (i + 4) \<noteq> 0x0801" if "i < 10" for i
      using l(2) that unfolding list_all_iff set_upt by (metis atLeastLessThan_iff le0)
    have "\<exists>p. i \<le> p \<and> p < i + 5 \<and> ?xs ! p \<noteq> 0xFE" if "i + 5 \<le> length ?xs" for i
    proof -
      have "i < 16" using that unfolding xs by simp
      from a [OF this] show ?thesis by (elim disjE) (rule exI [of _ i], simp, rule exI [of _ "i + 1"], simp)
    qed
    moreover have "\<not> addressed blank_device (u16_at ?xs (i + 4))"
      if "i + n \<le> length ?xs" "valid_frame CAN_COMM_PROTOCOL_MAX_LEN (take n (drop i ?xs))" for i n
    proof -
      have "8 \<le> n" using that by (auto simp: valid_frame_def)
      then have "i < 10" using that(1) unfolding xs by simp
      then show ?thesis using b [of i] by (simp add: addressed_def blank_device_def)
    qed
    ultimately show ?thesis unfolding harmless_def by blast
  qed
  have p: "case protocol_anylise_thread_entry (can500_run nor_hw [0, 0]) can500_ops (\<lambda>r. 7 + 2 * of_nat r) 0 102 can_thread_dev ?w of
      Some (dev', w') \<Rightarrow> length (rb_list (CAN_BUF500 w')) < length (rb_list (CAN_BUF500 ?w))
    | None \<Rightarrow> \<not> harmless (app ?w) (rb_list (CAN_BUF500 ?w))"
    by (rule can_thread_never_stalls [OF can_thread_dev_ok ring(1)]) (unfold ring(2), simp)
  then show ?thesis unfolding Let_def ring(2) using h by (auto split: option.splits)
qed

end
