(* ===== verification/CanMiddle.thy ===== *)
theory CanMiddle imports Prelude RingBuf DevState
begin

text \<open>
  The CAN middle layer: \<open>bsp/BMLG_LW/app/canbus_middle.c\<close> cuts messages into CAN frames of at most
  eight bytes and collects the received ones in a ring buffer; \<open>drivers/drv_can.c\<close> below it sends a
  frame with retries and keeps received frames in a ring of twenty; the serial command parser of
  the same file; and the heartbeat and debug messages that are sent through it
  (\<open>general_app/can_heartbeat_protocol.c\<close>, \<open>can_debug_protocol.c\<close>).

  The transmit mailboxes of the controller are the parameter \<open>can_hw\<close> over a state of the line,
  which also sees the thread's delays; a message's \<open>Data\<close> are the \<open>DLC\<close> bytes that go out.
\<close>

subsection \<open>Frames on the bus\<close>

record CanTxMsg =
  StdId :: u32
  IDE :: u8
  RTR :: u8
  DLC :: nat
  Data :: "u8 list"

type_synonym CanRxMsg = CanTxMsg

abbreviation (input) CAN_Id_Standard :: u8 where "CAN_Id_Standard \<equiv> 0"
abbreviation (input) CAN_RTR_Data :: u8 where "CAN_RTR_Data \<equiv> 0"
abbreviation (input) CAN_RX_BUFFER_SIZE :: nat where "CAN_RX_BUFFER_SIZE \<equiv> 20"
abbreviation (input) CAN_TX_TRY_TIMES :: nat where "CAN_TX_TRY_TIMES \<equiv> 2"

subsection \<open>Sending one frame (drv_can.c)\<close>

record 'c can_hw =
  CAN_Transmit :: "CanTxMsg \<Rightarrow> 'c \<Rightarrow> u8 \<times> 'c"
  CAN_TransmitStatus :: "u8 \<Rightarrow> 'c \<Rightarrow> bool \<times> 'c"
  line_wait :: "nat \<Rightarrow> 'c \<Rightarrow> 'c"

fun poll_status :: "'c can_hw \<Rightarrow> u8 \<Rightarrow> nat \<Rightarrow> 'c \<Rightarrow> bool \<times> 'c" where
  "poll_status hw mailbox 0 c = (False, c)"
| "poll_status hw mailbox (Suc n) c =
     (let (ok, c) = CAN_TransmitStatus hw mailbox c in if ok then (True, c) else poll_status hw mailbox n c)"

fun send_tries :: "'c can_hw \<Rightarrow> CanTxMsg \<Rightarrow> nat \<Rightarrow> 'c \<Rightarrow> bool \<times> 'c" where
  "send_tries hw tx 0 c = (False, c)"
| "send_tries hw tx (Suc n) c =
     (let (mailbox, c) = CAN_Transmit hw tx c;
          (ok, c) = poll_status hw mailbox 0x10000 c
      in if ok then (True, c) else send_tries hw tx n c)"

definition stm32_CAN_send :: "'c can_hw \<Rightarrow> CanTxMsg \<Rightarrow> 'c \<Rightarrow> bool \<times> 'c" where
  "stm32_CAN_send hw tx c = send_tries hw tx CAN_TX_TRY_TIMES c"

subsection \<open>The ring of received frames (drv_can.c)\<close>

record CANBus_type =
  CANRxBuf :: "CanRxMsg list"
  CanRx_Read :: nat
  CanRx_Write :: nat

definition stm32_CAN_recv :: "CANBus_type \<Rightarrow> (CanRxMsg option \<times> CANBus_type) option" where
  "stm32_CAN_recv can =
     (if CanRx_Read can = CanRx_Write can then Some (None, can)
      else do { rx \<leftarrow> rd (CANRxBuf can) (CanRx_Read can);
                Some (Some rx, can\<lparr>CanRx_Read := u32_add (CanRx_Read can) 1 mod CAN_RX_BUFFER_SIZE\<rparr>) })"

definition stm32_CAN_clear :: "CANBus_type \<Rightarrow> CANBus_type" where
  "stm32_CAN_clear can = can\<lparr>CanRx_Read := CanRx_Write can\<rparr>"

text \<open>One turn of the interrupt's loop: a frame is taken from the controller into the ring.\<close>

definition CAN_recv_one :: "CANBus_type \<Rightarrow> CanRxMsg \<Rightarrow> CANBus_type option" where
  "CAN_recv_one can rx = do {
     buf \<leftarrow> wr (CANRxBuf can) (CanRx_Write can) rx;
     let w = u32_add (CanRx_Write can) 1 mod CAN_RX_BUFFER_SIZE;
     let can = can\<lparr>CANRxBuf := buf, CanRx_Write := w\<rparr>;
     Some (if w = CanRx_Read can then can\<lparr>CanRx_Read := u32_add (CanRx_Read can) 1 mod CAN_RX_BUFFER_SIZE\<rparr> else can) }"

fun CAN_recv_all :: "CANBus_type \<Rightarrow> CanRxMsg list \<Rightarrow> CANBus_type option" where
  "CAN_recv_all can [] = Some can"
| "CAN_recv_all can (m # ms) = do { can \<leftarrow> CAN_recv_one can m; CAN_recv_all can ms }"

definition stm32_CAN_recv_isr :: "CANBus_type \<Rightarrow> bool \<Rightarrow> CanRxMsg list \<Rightarrow> CANBus_type option" where
  "stm32_CAN_recv_isr can it_status fifo = (if it_status then CAN_recv_all can fifo else Some can)"

subsection \<open>Sending a message (canbus_middle.c)\<close>

definition can_frame :: "u32 \<Rightarrow> u8 list \<Rightarrow> CanTxMsg" where
  "can_frame stdID data = \<lparr>StdId = stdID, IDE = CAN_Id_Standard, RTR = CAN_RTR_Data, DLC = length data, Data = data\<rparr>"

text \<open>The loop over the full frames; it answers the number of bytes sent when a frame fails.\<close>

fun send_full :: "'c can_hw \<Rightarrow> u32 \<Rightarrow> u8 list \<Rightarrow> nat \<Rightarrow> nat \<Rightarrow> 'c \<Rightarrow> (nat option \<times> 'c) option" where
  "send_full hw stdID buf i 0 c = Some (None, c)"
| "send_full hw stdID buf i (Suc n) c = do {
     data \<leftarrow> memcpy (replicate 8 0) 0 buf (i * 8) 8;
     let (ok, c) = stm32_CAN_send hw (can_frame stdID data) c in
     if \<not> ok then Some (Some (i * 8), c)
     else send_full hw stdID buf (i + 1) n (if i mod 10 = 0 then line_wait hw 1 c else c) }"

definition canbus_middle_send :: "'c can_hw \<Rightarrow> u32 \<Rightarrow> u8 list \<Rightarrow> nat \<Rightarrow> 'c \<Rightarrow> (nat \<times> 'c) option" where
  "canbus_middle_send hw stdID buf len c =
     (if len = 0 then Some (0, c)
      else do {
        let num = len div 8;
        let len_left = len mod 8;
        (failed, c) \<leftarrow> send_full hw stdID buf 0 num c;
        case failed of
          Some k \<Rightarrow> Some (k, c)
        | None \<Rightarrow>
            if len_left = 0 then Some (len, c)
            else do {
              data \<leftarrow> memcpy (replicate len_left 0) 0 buf (num * 8) len_left;
              let (ok, c) = stm32_CAN_send hw (can_frame stdID data) c in
              Some (if ok then len else num * 8, c) } })"

subsection \<open>Collecting received frames (canbus_middle.c)\<close>

record middle =
  CAN :: CANBus_type
  BUF500 :: RingBufType
  rx_delay :: nat

text \<open>One turn of the thread's loop; the second component is the delay in ticks it asks for.\<close>

definition canbus_middle_step :: "middle \<Rightarrow> (middle \<times> nat) option" where
  "canbus_middle_step m = do {
     (rx, can) \<leftarrow> stm32_CAN_recv (CAN m);
     let m = m\<lparr>CAN := can\<rparr>;
     case rx of
       None \<Rightarrow> Some (m\<lparr>rx_delay := 0\<rparr>, 1)
     | Some rx \<Rightarrow> do {
         let d = u32_add (rx_delay m) 1;
         let wait = (if d mod 10 = 0 then 1 else 0);
         let m = m\<lparr>rx_delay := (if d mod 10 = 0 then 0 else d)\<rparr>;
         if IDE rx \<noteq> CAN_Id_Standard \<or> RTR rx \<noteq> CAN_RTR_Data then Some (m, wait)
         else if StdId rx = 0x500 then do {
           b \<leftarrow> AddDataToBuf (BUF500 m) (Data rx) (DLC rx);
           Some (m\<lparr>BUF500 := b\<rparr>, wait) }
         else Some (m, wait) } }"

fun canbus_middle_run :: "nat \<Rightarrow> middle \<Rightarrow> middle option" where
  "canbus_middle_run 0 m = Some m"
| "canbus_middle_run (Suc n) m = do { (m, _) \<leftarrow> canbus_middle_step m; canbus_middle_run n m }"

subsection \<open>The serial command parser (canbus_middle.c)\<close>

datatype usart_state = State_Frame_Head | State_Frame_Length | State_Frame_Data | State_Frame_CS | State_Frame_End

record usart1 =
  u_state :: usart_state
  u_length :: u8
  u_i :: u8
  u_cs :: u8
  USART1_RxBuffer :: "u8 list"
  UART1_RxFlag :: u8

definition USART1_IRQHandler_Callback :: "usart1 \<Rightarrow> u8 \<Rightarrow> usart1 option" where
  "USART1_IRQHandler_Callback s temp =
     (case u_state s of
        State_Frame_Head \<Rightarrow>
          Some (if temp = 0xFE then s\<lparr>u_state := State_Frame_Length, u_length := 0, u_i := 0, u_cs := 0\<rparr> else s)
      | State_Frame_Length \<Rightarrow> Some (s\<lparr>u_length := temp, u_state := State_Frame_Data\<rparr>)
      | State_Frame_Data \<Rightarrow> do {
          buf \<leftarrow> wr (USART1_RxBuffer s) (unat (u_i s)) temp;
          let s = s\<lparr>USART1_RxBuffer := buf, u_cs := u_cs s XOR temp\<rparr>;
          Some (if int (unat (u_i s)) = int (unat (u_length s)) - 1 then s\<lparr>u_i := 0, u_state := State_Frame_CS\<rparr>
                else s\<lparr>u_i := u_i s + 1\<rparr>) }
      | State_Frame_CS \<Rightarrow>
          Some (s\<lparr>u_state := if temp = u_cs s then State_Frame_End else State_Frame_Head\<rparr>)
      | State_Frame_End \<Rightarrow>
          Some (if temp = 0xBE then s\<lparr>u_state := State_Frame_Head, UART1_RxFlag := 1\<rparr>
                else s\<lparr>u_state := State_Frame_Head\<rparr>))"

fun usart_feed :: "usart1 \<Rightarrow> u8 list \<Rightarrow> usart1 option" where
  "usart_feed s [] = Some s"
| "usart_feed s (x # xs) = do { s \<leftarrow> USART1_IRQHandler_Callback s x; usart_feed s xs }"

subsection \<open>Heartbeat and debug messages\<close>

definition CAN_Heartbeat_Package_Send :: "dev_state \<Rightarrow> dev_state" where
  "CAN_Heartbeat_Package_Send st =
     emit_event (Can_send 0x600
       (u16_bytes (ID (iap_param st)) @ [heartbeat_count (realtime_param st), ucast (version (dev_param st))] @
        u16_bytes (voltage (realtime_param st)) @ u16_bytes (current (realtime_param st)))) st"

text \<open>One turn of the heartbeat thread.\<close>

definition rt_thread_heartbeat_entry :: "dev_state \<Rightarrow> dev_state" where
  "rt_thread_heartbeat_entry st =
     (let n = heartbeat_count (realtime_param st) + 1;
          st = st\<lparr>realtime_param := (realtime_param st)\<lparr>heartbeat_count := (if 255 \<le> n then 0 else n)\<rparr>\<rparr>
      in emit_event (Thread_delay 1000) (CAN_Heartbeat_Package_Send st))"

definition can_debug_send :: "dev_state \<Rightarrow> u8 list \<Rightarrow> dev_state" where
  "can_debug_send st buf =
     (if can_debug_flag (realtime_param st) = 1 then emit_event (Can_send 0x700 buf) st else st)"

subsection \<open>What goes out on the line\<close>

text \<open>A line whose log grows by the message when the send routine reports success, and not otherwise.\<close>

definition honest_line :: "'c can_hw \<Rightarrow> ('c \<Rightarrow> CanTxMsg list) \<Rightarrow> bool" where
  "honest_line hw log \<longleftrightarrow>
     (\<forall>tx c ok c'. stm32_CAN_send hw tx c = (ok, c') \<longrightarrow> log c' = log c @ (if ok then [tx] else [])) \<and>
     (\<forall>n c. log (line_wait hw n c) = log c)"

definition data_frames :: "u32 \<Rightarrow> CanTxMsg list \<Rightarrow> bool" where
  "data_frames stdID ms \<longleftrightarrow> (\<forall>m \<in> set ms. StdId m = stdID \<and> IDE m = CAN_Id_Standard \<and> RTR m = CAN_RTR_Data \<and>
     DLC m = length (Data m) \<and> DLC m \<le> 8)"

lemma data_frames_append [simp]: "data_frames stdID (ms @ ms') \<longleftrightarrow> data_frames stdID ms \<and> data_frames stdID ms'"
  by (auto simp: data_frames_def)

lemma data_frames_one [simp]: "length data \<le> 8 \<Longrightarrow> data_frames stdID [can_frame stdID data]"
  "data_frames stdID []"
  by (simp_all add: data_frames_def can_frame_def)

lemma send_full_log:
  assumes "honest_line hw log" "(i + n) * 8 \<le> length buf"
  shows "\<exists>r c' ms. send_full hw stdID buf i n c = Some (r, c') \<and> log c' = log c @ ms \<and> data_frames stdID ms \<and>
    (case r of
       None \<Rightarrow> concat (map Data ms) = take (n * 8) (drop (i * 8) buf)
     | Some k \<Rightarrow> i * 8 \<le> k \<and> k < (i + n) * 8 \<and> concat (map Data ms) = take (k - i * 8) (drop (i * 8) buf) \<and>
         (\<exists>tx c. \<not> fst (stm32_CAN_send hw tx c)))"
  using assms(2)
proof (induction n arbitrary: i c)
  case (Suc n)
  let ?data = "take 8 (drop (i * 8) buf)"
  have d: "memcpy (replicate 8 0) 0 buf (i * 8) 8 = Some ?data" using Suc.prems by (simp add: memcpy_def)
  have l: "length ?data = 8" using Suc.prems by simp
  obtain ok c1 where s: "stm32_CAN_send hw (can_frame stdID ?data) c = (ok, c1)" by (cases "stm32_CAN_send hw (can_frame stdID ?data) c")
  have log1: "log c1 = log c @ (if ok then [can_frame stdID ?data] else [])"
    using assms(1) s unfolding honest_line_def by blast
  show ?case
  proof (cases ok)
    case False
    then have "\<not> fst (stm32_CAN_send hw (can_frame stdID ?data) c)" using s by simp
    moreover have "send_full hw stdID buf i (Suc n) c = Some (Some (i * 8), c1)" using d s False by (simp add: mult.commute)
    ultimately show ?thesis using log1 False by (intro exI [of _ "Some (i * 8)"] exI [of _ c1] exI [of _ "[]"]) auto
  next
    case True
    let ?c2 = "if i mod 10 = 0 then line_wait hw 1 c1 else c1"
    have log2: "log ?c2 = log c @ [can_frame stdID ?data]" using assms(1) log1 True by (simp add: honest_line_def)
    have "(i + 1 + n) * 8 \<le> length buf" using Suc.prems by simp
    from Suc.IH [OF this, of ?c2] obtain r c' ms where ih: "send_full hw stdID buf (i + 1) n ?c2 = Some (r, c')"
      "log c' = log ?c2 @ ms" "data_frames stdID ms"
      "case r of
         None \<Rightarrow> concat (map Data ms) = take (n * 8) (drop ((i + 1) * 8) buf)
       | Some k \<Rightarrow> (i + 1) * 8 \<le> k \<and> k < (i + 1 + n) * 8 \<and>
           concat (map Data ms) = take (k - (i + 1) * 8) (drop ((i + 1) * 8) buf) \<and>
           (\<exists>tx c. \<not> fst (stm32_CAN_send hw tx c))" by blast
    have "drop ((i + 1) * 8) buf = drop 8 (drop (i * 8) buf)" by simp
    then have split: "take (8 + k) (drop (i * 8) buf) = ?data @ take k (drop ((i + 1) * 8) buf)" for k
      by (simp only: take_add)
    have "send_full hw stdID buf i (Suc n) c = Some (r, c')" using d s True ih(1) by simp
    moreover have "log c' = log c @ can_frame stdID ?data # ms" using ih(2) log2 by simp
    moreover have "data_frames stdID (can_frame stdID ?data # ms)"
      using ih(3) data_frames_append [of stdID "[can_frame stdID ?data]" ms] l by simp
    moreover have "case r of
         None \<Rightarrow> concat (map Data (can_frame stdID ?data # ms)) = take (Suc n * 8) (drop (i * 8) buf)
       | Some k \<Rightarrow> i * 8 \<le> k \<and> k < (i + Suc n) * 8 \<and>
           concat (map Data (can_frame stdID ?data # ms)) = take (k - i * 8) (drop (i * 8) buf) \<and>
           (\<exists>tx c. \<not> fst (stm32_CAN_send hw tx c))"
    proof (cases r)
      case None
      then show ?thesis using ih(4) split [of "n * 8"] by (simp add: can_frame_def)
    next
      case (Some k)
      then have k: "(i + 1) * 8 \<le> k" "k < (i + 1 + n) * 8"
        "concat (map Data ms) = take (k - (i + 1) * 8) (drop ((i + 1) * 8) buf)"
        "\<exists>tx c. \<not> fst (stm32_CAN_send hw tx c)" using ih(4) by auto
      obtain j where j: "k = (i + 1) * 8 + j" using k(1) by (auto simp: le_iff_add)
      then have m: "k - i * 8 = 8 + j" "k - (i + 1) * 8 = j" by simp_all
      have "concat (map Data (can_frame stdID ?data # ms)) = ?data @ concat (map Data ms)" by (simp add: can_frame_def)
      then have "concat (map Data (can_frame stdID ?data # ms)) = take (k - i * 8) (drop (i * 8) buf)"
        using k(3) unfolding m split by simp
      moreover have "i * 8 \<le> k" "k < (i + Suc n) * 8" using k(1,2) by simp_all
      ultimately show ?thesis using k(4) unfolding Some option.case by blast
    qed
    ultimately show ?thesis by blast
  qed
qed (auto simp: data_frames_def)

lemma canbus_middle_send_log:
  assumes "honest_line hw log" "len \<le> length buf"
  shows "\<exists>r c' ms. canbus_middle_send hw stdID buf len c = Some (r, c') \<and> log c' = log c @ ms \<and> data_frames stdID ms \<and>
    r \<le> len \<and> concat (map Data ms) = take r buf \<and> (r < len \<longrightarrow> (\<exists>tx c. \<not> fst (stm32_CAN_send hw tx c)))"
proof (cases "len = 0")
  case True
  then show ?thesis by (intro exI [of _ 0] exI [of _ c] exI [of _ "[]"]) (simp add: canbus_middle_send_def)
next
  case False
  define num where "num = len div 8"
  define left where "left = len mod 8"
  have len: "num * 8 + left = len" "left < 8" by (simp_all add: num_def left_def)
  have "(0 + num) * 8 \<le> length buf" using len assms(2) by simp
  from send_full_log [OF assms(1) this, of stdID c] obtain r c1 ms where f:
    "send_full hw stdID buf 0 num c = Some (r, c1)" "log c1 = log c @ ms" "data_frames stdID ms"
    "case r of None \<Rightarrow> concat (map Data ms) = take (num * 8) buf
     | Some k \<Rightarrow> k < num * 8 \<and> concat (map Data ms) = take k buf \<and> (\<exists>tx c. \<not> fst (stm32_CAN_send hw tx c))"
    by (auto split: option.splits)
  show ?thesis
  proof (cases r)
    case (Some k)
    then have "canbus_middle_send hw stdID buf len c = Some (k, c1)"
      using False f(1) by (simp add: canbus_middle_send_def num_def Let_def)
    then show ?thesis using f Some len by (intro exI [of _ k] exI [of _ c1] exI [of _ ms]) auto
  next
    case None
    show ?thesis
    proof (cases "left = 0")
      case True
      then have "canbus_middle_send hw stdID buf len c = Some (len, c1)"
        using False f(1) None by (simp add: canbus_middle_send_def num_def left_def Let_def)
      then show ?thesis using f None len True by (intro exI [of _ len] exI [of _ c1] exI [of _ ms]) auto
    next
      case left: False
      let ?data = "take left (drop (num * 8) buf)"
      have d: "memcpy (replicate left 0) 0 buf (num * 8) left = Some ?data" using len assms(2) by (simp add: memcpy_def)
      obtain ok c2 where s: "stm32_CAN_send hw (can_frame stdID ?data) c1 = (ok, c2)" by (cases "stm32_CAN_send hw (can_frame stdID ?data) c1")
      have log2: "log c2 = log c1 @ (if ok then [can_frame stdID ?data] else [])"
        using assms(1) s unfolding honest_line_def by blast
      have r: "canbus_middle_send hw stdID buf len c = Some (if ok then len else num * 8, c2)"
        using False f(1) None left d s by (simp add: canbus_middle_send_def num_def left_def Let_def)
      have l: "length ?data \<le> 8" using len by simp
      show ?thesis
      proof (cases ok)
        case True
        have "take len buf = take (num * 8) buf @ ?data" using len(1) by (metis take_add)
        then have "concat (map Data (ms @ [can_frame stdID ?data])) = take len buf"
          using f(4) None by (simp add: can_frame_def)
        then show ?thesis
          using r True log2 f(2,3) l by (intro exI [of _ len] exI [of _ c2] exI [of _ "ms @ [can_frame stdID ?data]"]) simp
      next
        case False
        then have "\<not> fst (stm32_CAN_send hw (can_frame stdID ?data) c1)" using s by simp
        then show ?thesis
          using r False log2 f None len by (intro exI [of _ "num * 8"] exI [of _ c2] exI [of _ ms]) auto
      qed
    qed
  qed
qed

subsection \<open>Rings of slots\<close>

definition slots_len :: "nat \<Rightarrow> nat \<Rightarrow> nat \<Rightarrow> nat" where
  "slots_len n h t = (n + t - h) mod n"

definition slots :: "nat \<Rightarrow> nat \<Rightarrow> nat \<Rightarrow> 'a list \<Rightarrow> 'a list" where
  "slots n h t arr = map (\<lambda>i. arr ! ((h + i) mod n)) [0..<slots_len n h t]"

lemma slots_len_cases: "h < n \<Longrightarrow> t < n \<Longrightarrow> slots_len n h t = (if h \<le> t then t - h else n + t - h)"
  by (auto simp: slots_len_def mod_once)

lemma slot_is_tail:
  assumes "h < n" "t < n" "i < n"
  shows "(h + i) mod n = t \<longleftrightarrow> i = slots_len n h t"
proof (cases "h + i < n")
  case True
  then show ?thesis using assms by (auto simp: slots_len_cases)
next
  case False
  then have "(h + i) mod n = h + i - n" using assms by (intro mod_once) auto
  then show ?thesis using assms False by (auto simp: slots_len_cases)
qed

lemma length_slots [simp]: "length (slots n h t arr) = slots_len n h t"
  by (simp add: slots_def)

lemma nth_slots: "i < slots_len n h t \<Longrightarrow> slots n h t arr ! i = arr ! ((h + i) mod n)"
  by (simp add: slots_def)

lemma slots_pop:
  assumes "h < n" "t < n" "slots n h t arr = x # xs"
  shows "h \<noteq> t" "arr ! h = x" "slots n (Suc h mod n) t arr = xs"
proof -
  let ?l = "slots_len n h t"
  have l: "?l = Suc (length xs)" using arg_cong [OF assms(3), of length] by (simp add: slots_def)
  then show "h \<noteq> t" by (auto simp: slots_len_def)
  have at: "arr ! ((h + i) mod n) = (x # xs) ! i" if "i < ?l" for i
    using arg_cong [OF assms(3), of "\<lambda>ys. ys ! i"] that by (simp add: slots_def)
  show "arr ! h = x" using at [of 0] l assms(1) by simp
  have "slots_len n (Suc h mod n) t = length xs"
    using l assms(1,2) by (auto simp: slots_len_cases mod_Suc split: if_splits)
  moreover have "arr ! (Suc (h + i) mod n) = xs ! i" if "i < length xs" for i using at [of "Suc i"] that l by simp
  ultimately show "slots n (Suc h mod n) t arr = xs"
    by (intro nth_equalityI) (auto simp: slots_def mod_add_left_eq)
qed

lemma slots_push:
  assumes "h < n" "t < n" "length arr = n" "2 \<le> n"
  shows "slots n (if Suc t mod n = h then Suc h mod n else h) (Suc t mod n) (arr[t := x]) =
    keep_last (n - 1) (slots n h t arr @ [x])"
proof -
  let ?l = "slots_len n h t"
  have l: "?l < n" using assms(1) by (simp add: slots_len_def)
  have at: "arr[t := x] ! ((h + i) mod n) = (slots n h t arr @ [x]) ! i" if "i \<le> ?l" for i
    using that l slot_is_tail [OF assms(1,2), of i] assms(2,3)
    by (cases "i = ?l") (auto simp: slots_def nth_append)
  have full: "Suc t mod n = h \<longleftrightarrow> ?l = n - 1"
    using assms by (auto simp: slots_len_cases mod_Suc split: if_splits)
  have len: "length (slots n h t arr) = ?l" by (simp add: slots_def)
  show ?thesis
  proof (cases "?l = n - 1")
    case True
    have "slots_len n (Suc h mod n) (Suc t mod n) = n - 1"
      using assms True by (auto simp: slots_len_cases mod_Suc split: if_splits)
    moreover have "arr[t := x] ! ((Suc h mod n + i) mod n) = (slots n h t arr @ [x]) ! Suc i" if "i < n - 1" for i
      using at [of "Suc i"] that True by (simp add: mod_add_left_eq)
    moreover have "keep_last (n - 1) (slots n h t arr @ [x]) ! i = (slots n h t arr @ [x]) ! Suc i" if "i < n - 1" for i
      using nth_drop [of 1 "slots n h t arr @ [x]" i] that len True l by (simp add: keep_last_def del: drop_append)
    moreover have "length (keep_last (n - 1) (slots n h t arr @ [x])) = n - 1" using True len l by simp
    ultimately show ?thesis
      using True full by (intro nth_equalityI) (simp_all add: nth_slots)
  next
    case False
    have "slots_len n h (Suc t mod n) = Suc ?l"
      using assms False full by (auto simp: slots_len_cases mod_Suc split: if_splits)
    then show ?thesis
      using False full len l at by (intro nth_equalityI) (simp_all add: nth_slots)
  qed
qed

subsection \<open>The ring of received frames\<close>

definition can_ok :: "CANBus_type \<Rightarrow> bool" where
  "can_ok can \<longleftrightarrow> length (CANRxBuf can) = CAN_RX_BUFFER_SIZE \<and> CanRx_Read can < CAN_RX_BUFFER_SIZE \<and>
     CanRx_Write can < CAN_RX_BUFFER_SIZE"

definition can_list :: "CANBus_type \<Rightarrow> CanRxMsg list" where
  "can_list can = slots CAN_RX_BUFFER_SIZE (CanRx_Read can) (CanRx_Write can) (CANRxBuf can)"

lemma next_slot: "i < 20 \<Longrightarrow> u32_add i (Suc 0) mod 20 = Suc i mod 20"
  by (simp add: u32_add_def)

lemma stm32_CAN_recv_pops:
  assumes "can_ok can" "can_list can = m # ms"
  shows "\<exists>can'. stm32_CAN_recv can = Some (Some m, can') \<and> can_ok can' \<and> can_list can' = ms"
  using assms slots_pop [of "CanRx_Read can" 20 "CanRx_Write can" "CANRxBuf can" m ms]
  by (auto simp: stm32_CAN_recv_def can_ok_def can_list_def rd_def next_slot)

lemma CAN_recv_one_pushes:
  assumes "can_ok can"
  shows "\<exists>can'. CAN_recv_one can m = Some can' \<and> can_ok can' \<and> can_list can' = keep_last 19 (can_list can @ [m])"
  using assms slots_push [of "CanRx_Read can" 20 "CanRx_Write can" "CANRxBuf can" m]
  by (auto simp: CAN_recv_one_def can_ok_def can_list_def wr_def next_slot Let_def)

lemma CAN_recv_all_pushes:
  "can_ok can \<Longrightarrow> \<exists>can'. CAN_recv_all can ms = Some can' \<and> can_ok can' \<and> can_list can' = keep_last 19 (can_list can @ ms)"
proof (induction ms arbitrary: can)
  case Nil
  have "length (can_list can) \<le> 19" using Nil by (simp add: can_list_def slots_def slots_len_def can_ok_def)
  then show ?case using Nil by simp
next
  case (Cons m ms)
  obtain can1 where c: "CAN_recv_one can m = Some can1" "can_ok can1" "can_list can1 = keep_last 19 (can_list can @ [m])"
    using CAN_recv_one_pushes [OF Cons.prems] by blast
  from Cons.IH [OF c(2)] obtain can' where "CAN_recv_all can1 ms = Some can'" "can_ok can'"
    "can_list can' = keep_last 19 (can_list can1 @ ms)" by blast
  then show ?case using c(1,3) by simp
qed

subsection \<open>The receiving thread\<close>

lemma middle_step_data:
  assumes "can_ok (CAN m)" "can_list (CAN m) = rx # ms" "rb_inv (BUF500 m)"
    "IDE rx = CAN_Id_Standard" "RTR rx = CAN_RTR_Data" "StdId rx = 0x500" "DLC rx \<le> length (Data rx)"
  shows "\<exists>m' wait. canbus_middle_step m = Some (m', wait) \<and> can_ok (CAN m') \<and> can_list (CAN m') = ms \<and> rb_inv (BUF500 m') \<and>
    RxBufSize (BUF500 m') = RxBufSize (BUF500 m) \<and>
    rb_list (BUF500 m') = keep_last (RxBufSize (BUF500 m) - 1) (rb_list (BUF500 m) @ take (DLC rx) (Data rx))"
proof -
  obtain can where c: "stm32_CAN_recv (CAN m) = Some (Some rx, can)" "can_ok can" "can_list can = ms"
    using stm32_CAN_recv_pops [OF assms(1,2)] by blast
  obtain b where b: "AddDataToBuf (BUF500 m) (Data rx) (DLC rx) = Some b" "rb_inv b" "RxBufSize b = RxBufSize (BUF500 m)"
    "rb_list b = keep_last (RxBufSize (BUF500 m) - 1) (rb_list (BUF500 m) @ take (DLC rx) (Data rx))"
    using AddDataToBuf_rb_list [OF assms(3,7)] by blast
  show ?thesis
    using c b assms(4-6) by (simp add: canbus_middle_step_def Let_def)
qed

lemma middle_run_data:
  "can_ok (CAN m) \<Longrightarrow> can_list (CAN m) = ms @ ms' \<Longrightarrow> rb_inv (BUF500 m) \<Longrightarrow> data_frames 0x500 ms \<Longrightarrow>
   \<exists>m'. canbus_middle_run (length ms) m = Some m' \<and> can_ok (CAN m') \<and> can_list (CAN m') = ms' \<and> rb_inv (BUF500 m') \<and>
    rb_list (BUF500 m') = keep_last (RxBufSize (BUF500 m) - 1) (rb_list (BUF500 m) @ concat (map Data ms))"
proof (induction ms arbitrary: m)
  case Nil
  then show ?case using rb_len_less [of "BUF500 m"] by simp
next
  case (Cons rx ms)
  have rx: "IDE rx = CAN_Id_Standard" "RTR rx = CAN_RTR_Data" "StdId rx = 0x500" "DLC rx = length (Data rx)"
    using Cons.prems(4) by (auto simp: data_frames_def)
  obtain m1 wait where m1: "canbus_middle_step m = Some (m1, wait)" "can_ok (CAN m1)" "can_list (CAN m1) = ms @ ms'"
    "rb_inv (BUF500 m1)" "RxBufSize (BUF500 m1) = RxBufSize (BUF500 m)"
    "rb_list (BUF500 m1) = keep_last (RxBufSize (BUF500 m) - 1) (rb_list (BUF500 m) @ Data rx)"
    using middle_step_data [OF Cons.prems(1) _ Cons.prems(3) rx(1-3)] rx(4) Cons.prems(2) by auto
  have "data_frames 0x500 ms" using Cons.prems(4) by (auto simp: data_frames_def)
  from Cons.IH [OF m1(2-4) this] m1(1,5,6) show ?case by auto
qed

subsection \<open>The serial command parser\<close>

lemma usart_feed_append: "usart_feed s (xs @ ys) = do { s \<leftarrow> usart_feed s xs; usart_feed s ys }"
proof (induction xs arbitrary: s)
  case (Cons x xs)
  then show ?case by (cases "USART1_IRQHandler_Callback s x") auto
qed simp

definition xor_sum :: "u8 list \<Rightarrow> u8" where
  "xor_sum xs = foldl (XOR) 0 xs"

lemma last_index: "uint a = uint b - 1 \<longleftrightarrow> Suc (unat a) = unat (b :: u8)"
proof -
  have "int (unat a) = uint a" "int (unat b) = uint b" by simp_all
  then show ?thesis by linarith
qed

text \<open>The data bytes of a command that fit the buffer, from byte \<open>i\<close> on.\<close>

lemma usart_data:
  assumes "length (USART1_RxBuffer s) = 8" "u_state s = State_Frame_Data" "xs \<noteq> []"
    "unat (u_i s) + length xs = unat (u_length s)" "unat (u_length s) \<le> 8"
  shows "usart_feed s xs = Some (s\<lparr>u_state := State_Frame_CS, u_i := 0, u_cs := foldl (XOR) (u_cs s) xs,
    USART1_RxBuffer := take (unat (u_i s)) (USART1_RxBuffer s) @ xs @ drop (unat (u_length s)) (USART1_RxBuffer s)\<rparr>)"
  using assms
proof (induction xs arbitrary: s)
  case (Cons x xs)
  let ?i = "unat (u_i s)"
  have i: "?i < 8" using Cons.prems(4,5) by simp
  have upd: "(USART1_RxBuffer s)[?i := x] = take ?i (USART1_RxBuffer s) @ x # drop (Suc ?i) (USART1_RxBuffer s)"
    using i Cons.prems(1) by (intro upd_conv_take_nth_drop) simp
  let ?s1 = "s\<lparr>USART1_RxBuffer := (USART1_RxBuffer s)[?i := x], u_cs := u_cs s XOR x\<rparr>"
  show ?case
  proof (cases "xs = []")
    case True
    then have e: "Suc ?i = unat (u_length s)" "unat (u_length s) = Suc ?i" using Cons.prems(4) by simp_all
    have "USART1_IRQHandler_Callback s x = Some (?s1\<lparr>u_i := 0, u_state := State_Frame_CS\<rparr>)"
      using Cons.prems(1,2) i e(1) by (simp add: USART1_IRQHandler_Callback_def wr_def last_index)
    then show ?thesis unfolding True upd e(2) by simp
  next
    case False
    then have ne: "Suc ?i \<noteq> unat (u_length s)" using Cons.prems(4) by (cases xs) auto
    then have c: "USART1_IRQHandler_Callback s x = Some (?s1\<lparr>u_i := u_i s + 1\<rparr>)"
      using Cons.prems(1,2) i ne by (simp add: USART1_IRQHandler_Callback_def wr_def last_index)
    have suc: "unat (u_i s + 1) = Suc ?i" using i by (simp add: unat_word_ariths)
    have "usart_feed (?s1\<lparr>u_i := u_i s + 1\<rparr>) xs = Some (?s1\<lparr>u_state := State_Frame_CS, u_i := 0,
       u_cs := foldl (XOR) (u_cs s XOR x) xs,
       USART1_RxBuffer := take (Suc ?i) ((USART1_RxBuffer s)[?i := x]) @ xs @ drop (unat (u_length s)) ((USART1_RxBuffer s)[?i := x])\<rparr>)"
      using Cons.IH [of "?s1\<lparr>u_i := u_i s + 1\<rparr>"] Cons.prems False suc by simp
    moreover have "take (Suc ?i) ((USART1_RxBuffer s)[?i := x]) = take ?i (USART1_RxBuffer s) @ [x]"
      using i Cons.prems(1) unfolding upd by simp
    moreover have "?i < unat (u_length s)" using Cons.prems(4) by simp
    ultimately show ?thesis using c by simp
  qed
qed simp

definition usart_frame :: "u8 list \<Rightarrow> u8 list" where
  "usart_frame data = [0xFE, of_nat (length data)] @ data @ [xor_sum data, 0xBE]"

lemma usart_frame_parsed:
  assumes "u_state s = State_Frame_Head" "length (USART1_RxBuffer s) = 8" "data \<noteq> []" "length data \<le> 8"
  shows "\<exists>s'. usart_feed s (usart_frame data) = Some s' \<and> u_state s' = State_Frame_Head \<and> UART1_RxFlag s' = 1 \<and>
    USART1_RxBuffer s' = data @ drop (length data) (USART1_RxBuffer s)"
proof -
  let ?s2 = "s\<lparr>u_state := State_Frame_Data, u_length := of_nat (length data), u_i := 0, u_cs := 0\<rparr>"
  have n: "unat (of_nat (length data) :: u8) = length data" using assms(4) by (simp add: unat_of_nat)
  have h: "usart_feed s [0xFE, of_nat (length data)] = Some ?s2"
    using assms(1) by (simp add: USART1_IRQHandler_Callback_def)
  have d: "usart_feed ?s2 data = Some (?s2\<lparr>u_state := State_Frame_CS, u_i := 0, u_cs := xor_sum data,
      USART1_RxBuffer := data @ drop (length data) (USART1_RxBuffer s)\<rparr>)"
    using usart_data [of ?s2 data] assms(2-4) n by (simp add: xor_sum_def)
  show ?thesis
    unfolding usart_frame_def usart_feed_append h bind.bind_lunit d
    by (simp add: USART1_IRQHandler_Callback_def)
qed

lemma usart_overrun:
  assumes "length (USART1_RxBuffer s) = 8" "u_state s = State_Frame_Data" "unat (u_i s) \<le> 8"
    "length xs = 9 - unat (u_i s)" "unat (u_length s) = 0 \<or> 8 < unat (u_length s)"
  shows "usart_feed s xs = None"
  using assms
proof (induction xs arbitrary: s)
  case (Cons x xs)
  let ?i = "unat (u_i s)"
  show ?case
  proof (cases "?i = 8")
    case True
    then show ?thesis using Cons.prems by (simp add: USART1_IRQHandler_Callback_def wr_def)
  next
    case False
    then have i: "?i < 8" using Cons.prems(3) by simp
    have ne: "Suc ?i \<noteq> unat (u_length s)" using Cons.prems(5) i by auto
    then have c: "USART1_IRQHandler_Callback s x =
        Some (s\<lparr>USART1_RxBuffer := (USART1_RxBuffer s)[?i := x], u_cs := u_cs s XOR x, u_i := u_i s + 1\<rparr>)"
      using Cons.prems(1,2) i ne by (simp add: USART1_IRQHandler_Callback_def wr_def last_index)
    have suc: "unat (u_i s + 1) = Suc ?i" using i by (simp add: unat_word_ariths)
    show ?thesis
      using c Cons.IH [of "s\<lparr>USART1_RxBuffer := (USART1_RxBuffer s)[?i := x], u_cs := u_cs s XOR x, u_i := u_i s + 1\<rparr>"]
        Cons.prems suc i by simp
  qed
qed simp

lemma heartbeat_turns:
  assumes "unat (heartbeat_count (realtime_param st)) < 255"
  shows "unat (heartbeat_count (realtime_param ((rt_thread_heartbeat_entry ^^ n) st))) =
    (unat (heartbeat_count (realtime_param st)) + n) mod 255"
proof (induction n)
  case 0
  then show ?case using assms by simp
next
  case (Suc n)
  let ?st = "(rt_thread_heartbeat_entry ^^ n) st"
  let ?c = "heartbeat_count (realtime_param ?st)"
  have lt: "unat ?c < 255" unfolding Suc by simp
  then have s: "unat (?c + 1) = unat ?c + 1" by (simp add: unat_word_ariths)
  have "255 \<le> ?c + 1 \<longleftrightarrow> unat ?c = 254" using s lt by (auto simp: word_le_nat_alt)
  then have "unat (heartbeat_count (realtime_param (rt_thread_heartbeat_entry ?st))) = (unat ?c + 1) mod 255"
    using s lt by (simp add: rt_thread_heartbeat_entry_def CAN_Heartbeat_Package_Send_def emit_event_def Let_def)
  also have "\<dots> = (unat (heartbeat_count (realtime_param st)) + Suc n) mod 255" unfolding Suc by (simp add: mod_Suc_eq)
  finally show ?case by simp
qed

subsection \<open>Properties\<close>

text \<open>
  Fact.  A message handed to \<open>canbus_middle_send\<close> goes out as data frames of at most eight bytes
  with its identifier, and the function returns exactly the number of its bytes that went out: all
  of them unless the controller failed to send a frame.
\<close>

theorem canbus_middle_send_reports:
  assumes "honest_line hw log" "len \<le> length buf"
  shows "\<exists>r c' ms. canbus_middle_send hw stdID buf len c = Some (r, c') \<and> log c' = log c @ ms \<and> data_frames stdID ms \<and>
    r \<le> len \<and> concat (map Data ms) = take r buf \<and> (r < len \<longrightarrow> (\<exists>tx c. \<not> fst (stm32_CAN_send hw tx c)))"
  by (rule canbus_middle_send_log [OF assms])

text \<open>A controller that sends every frame at once; its state is the list of the frames.\<close>

definition good_line :: "CanTxMsg list can_hw" where
  "good_line = \<lparr>CAN_Transmit = \<lambda>tx c. (0, c @ [tx]), CAN_TransmitStatus = \<lambda>mailbox c. (True, c), line_wait = \<lambda>n c. c\<rparr>"

lemma good_line_send: "stm32_CAN_send good_line tx c = (True, c @ [tx])"
proof -
  have "(0x10000 :: nat) = Suc 0xFFFF" "(2 :: nat) = Suc 1" by simp_all
  then show ?thesis
    by (simp only: stm32_CAN_send_def send_tries.simps poll_status.simps) (simp add: good_line_def)
qed

lemma good_line_honest: "honest_line good_line (\<lambda>c. c)"
  by (simp add: honest_line_def good_line_send) (simp add: good_line_def)

theorem canbus_middle_send_reports_witness:
  "\<exists>c'. canbus_middle_send good_line 0x500 [1, 2, 3, 4, 5, 6, 7, 8, 9, 10] 10 [] = Some (10, c') \<and>
     concat (map Data c') = [1, 2, 3, 4, 5, 6, 7, 8, 9, 10]"
proof -
  obtain r c' ms where s: "canbus_middle_send good_line 0x500 [1, 2, 3, 4, 5, 6, 7, 8, 9, 10] 10 [] = Some (r, c')"
    "c' = [] @ ms" "concat (map Data ms) = take r [1, 2, 3, 4, 5, 6, 7, 8, 9, 10]" "r \<le> 10" "\<not> r < 10"
    using canbus_middle_send_reports [OF good_line_honest, of 10 "[1, 2, 3, 4, 5, 6, 7, 8, 9, 10]" "0x500" "[]"]
      good_line_send by fastforce
  then have "r = 10" by simp
  then show ?thesis using s(1-3) by simp
qed

text \<open>
  Property C25.  What the sender's frames carry is what the receiver collects: once the frames of a
  message that was sent completely are in the receiver's ring of frames, as many turns of its thread
  append the message to the ring of bytes (of which the newest bytes are kept).
\<close>

theorem can_message_roundtrip:
  assumes "honest_line hw log" "len \<le> length buf"
    "canbus_middle_send hw 0x500 buf len c = Some (len, c')" "log c' = log c @ ms"
    "can_ok (CAN m)" "can_list (CAN m) = ms @ ms'" "rb_inv (BUF500 m)"
  shows "\<exists>m'. canbus_middle_run (length ms) m = Some m' \<and> can_list (CAN m') = ms' \<and> rb_inv (BUF500 m') \<and>
    rb_list (BUF500 m') = keep_last (RxBufSize (BUF500 m) - 1) (rb_list (BUF500 m) @ take len buf)"
proof -
  obtain ms1 where "log c' = log c @ ms1" "data_frames 0x500 ms1" "concat (map Data ms1) = take len buf"
    using canbus_middle_send_log [OF assms(1,2), of "0x500" c] assms(3) by auto
  then have "data_frames 0x500 ms" "concat (map Data ms) = take len buf" using assms(4) by auto
  then show ?thesis using middle_run_data [OF assms(5-7)] by auto
qed

theorem can_message_roundtrip_witness:
  "\<exists>m'. canbus_middle_run 2 \<lparr>CAN = \<lparr>CANRxBuf = [can_frame 0x500 [1, 2, 3, 4, 5, 6, 7, 8], can_frame 0x500 [9]] @
        replicate 18 (can_frame 0 []), CanRx_Read = 0, CanRx_Write = 2\<rparr>,
      BUF500 = RxBufInit 16 (Some (replicate 16 0)), rx_delay = 0\<rparr> = Some m' \<and>
    rb_list (BUF500 m') = [1, 2, 3, 4, 5, 6, 7, 8, 9]"
proof -
  let ?ms = "[can_frame 0x500 [1, 2, 3, 4, 5, 6, 7, 8], can_frame 0x500 [9]]"
  let ?m = "\<lparr>CAN = \<lparr>CANRxBuf = ?ms @ replicate 18 (can_frame 0 []), CanRx_Read = 0, CanRx_Write = 2\<rparr>,
      BUF500 = RxBufInit 16 (Some (replicate 16 0)), rx_delay = 0\<rparr>"
  have s: "canbus_middle_send good_line 0x500 [1, 2, 3, 4, 5, 6, 7, 8, 9] 9 [] = Some (9, ?ms)"
  proof -
    have "send_full good_line 0x500 [1, 2, 3, 4, 5, 6, 7, 8, 9] 0 (Suc 0) [] = Some (None, [can_frame 0x500 [1, 2, 3, 4, 5, 6, 7, 8]])"
      by (simp add: memcpy_def good_line_send) (simp add: good_line_def)
    moreover have "(9 :: nat) div 8 = Suc 0" "(9 :: nat) mod 8 = Suc 0" by simp_all
    ultimately show ?thesis by (simp add: canbus_middle_send_def memcpy_def good_line_send Let_def)
  qed
  have ring: "rb_inv (BUF500 ?m)" "rb_list (BUF500 ?m) = []" "RxBufSize (BUF500 ?m) = 16"
    using RxBufInit_rb_list [of 16 "replicate 16 0"] by (simp_all add: RxBufInit_def)
  have c: "can_ok (CAN ?m)" "can_list (CAN ?m) = ?ms @ []"
    by (simp_all add: can_ok_def can_list_def slots_def slots_len_def numeral_2_eq_2)
  show ?thesis
    using can_message_roundtrip [OF good_line_honest _ s _ c ring(1)] ring(2,3) by (auto simp: numeral_2_eq_2)
qed

text \<open>
  Fact.  A serial command of one to eight data bytes is received completely: the parser stores
  exactly the data, raises the flag and is ready for the next command.
\<close>

theorem usart_command_received:
  assumes "u_state s = State_Frame_Head" "length (USART1_RxBuffer s) = 8" "data \<noteq> []" "length data \<le> 8"
  shows "\<exists>s'. usart_feed s (usart_frame data) = Some s' \<and> u_state s' = State_Frame_Head \<and> UART1_RxFlag s' = 1 \<and>
    USART1_RxBuffer s' = data @ drop (length data) (USART1_RxBuffer s)"
  by (rule usart_frame_parsed [OF assms])

theorem usart_command_received_witness:
  "\<exists>s'. usart_feed \<lparr>u_state = State_Frame_Head, u_length = 0, u_i = 0, u_cs = 0, USART1_RxBuffer = replicate 8 0, UART1_RxFlag = 0\<rparr>
     [0xFE, 1, 0x42, 0x42, 0xBE] = Some s' \<and> UART1_RxFlag s' = 1 \<and> USART1_RxBuffer s' ! 0 = 0x42"
  using usart_command_received [of "\<lparr>u_state = State_Frame_Head, u_length = 0, u_i = 0, u_cs = 0,
      USART1_RxBuffer = replicate 8 0, UART1_RxFlag = 0\<rparr>" "[0x42]"]
  by (auto simp: usart_frame_def xor_sum_def)

text \<open>
  Fact.  The length byte of a serial command is not checked: with a length of zero or above eight
  the ninth data byte is stored behind the buffer.
\<close>

theorem usart_length_overrun:
  assumes "u_state s = State_Frame_Head" "length (USART1_RxBuffer s) = 8" "n = 0 \<or> 8 < unat n" "length data = 9"
  shows "usart_feed s ([0xFE, n] @ data) = None"
proof -
  have "usart_feed s [0xFE, n] = Some (s\<lparr>u_state := State_Frame_Data, u_length := n, u_i := 0, u_cs := 0\<rparr>)"
    using assms(1) by (simp add: USART1_IRQHandler_Callback_def)
  then show ?thesis
    unfolding usart_feed_append using usart_overrun [of "s\<lparr>u_state := State_Frame_Data, u_length := n, u_i := 0, u_cs := 0\<rparr>" data] assms
    by auto
qed

theorem usart_length_overrun_witness:
  "usart_feed \<lparr>u_state = State_Frame_Head, u_length = 0, u_i = 0, u_cs = 0, USART1_RxBuffer = replicate 8 0, UART1_RxFlag = 0\<rparr>
     ([0xFE, 0] @ replicate 9 1) = None"
  by (rule usart_length_overrun) simp_all

text \<open>
  Fact.  The heartbeat counter runs through 0 to 254 and starts again: \<open>n\<close> turns of the heartbeat
  thread advance it by \<open>n\<close> modulo 255.
\<close>

theorem heartbeat_counts:
  assumes "unat (heartbeat_count (realtime_param st)) < 255"
  shows "unat (heartbeat_count (realtime_param ((rt_thread_heartbeat_entry ^^ n) st))) =
    (unat (heartbeat_count (realtime_param st)) + n) mod 255"
  by (rule heartbeat_turns [OF assms])

theorem heartbeat_counts_witness:
  "\<exists>st. unat (heartbeat_count (realtime_param ((rt_thread_heartbeat_entry ^^ 300) st))) = 45"
proof -
  obtain st :: dev_state where "heartbeat_count (realtime_param st) = 0"
    by (metis realtime_param_type.select_convs(3) dev_state.select_convs(5))
  then show ?thesis using heartbeat_counts [of st 300] by auto
qed

end
