(* ===== verification/TimeLib.thy ===== *)
theory TimeLib imports Prelude
begin

text \<open>
  \<open>common_lib/usdl_time.c\<close>: calendar arithmetic on \<open>TIME\<close>, six bytes from year (00 to 99, for 2000 to
  2099) to second, in decimal (\<open>DEC\<close>) and in binary coded decimal (\<open>BCD\<close>) form.  Bytes and 32-bit
  counts are natural numbers here; a byte store writes \<open>mod 256\<close> out where the value can be larger,
  a sum of 32-bit values is \<open>u32_add\<close>.  A function that changes its argument in place returns its
  answer with the new value; \<open>None\<close> is a read behind the table of leap years.

  The theorems relate the functions to the number of seconds since the start of 2000
  (\<open>seconds_of\<close>): adding and subtracting are exact modulo the century, the difference of two times is
  the difference of their seconds, and a stamp is converted back and forth.
\<close>

record TIME =
  Year :: nat
  Month :: nat
  Day :: nat
  Hour :: nat
  Minute :: nat
  Second :: nat

definition INIT_TIME :: TIME where
  "INIT_TIME = \<lparr>Year = 0, Month = 1, Day = 1, Hour = 0, Minute = 0, Second = 0\<rparr>"

definition CenturyYearTable :: "nat list" where
  "CenturyYearTable = [
     1, 0, 0, 0, 1, 0, 0, 0, 1, 0, 0, 0, 1, 0, 0, 0, 1, 0, 0, 0,
     1, 0, 0, 0, 1, 0, 0, 0, 1, 0, 0, 0, 1, 0, 0, 0, 1, 0, 0, 0,
     1, 0, 0, 0, 1, 0, 0, 0, 1, 0, 0, 0, 1, 0, 0, 0, 1, 0, 0, 0,
     1, 0, 0, 0, 1, 0, 0, 0, 1, 0, 0, 0, 1, 0, 0, 0, 1, 0, 0, 0,
     1, 0, 0, 0, 1, 0, 0, 0, 1, 0, 0, 0, 1, 0, 0, 0, 1, 0, 0, 0]"

subsection \<open>Checks\<close>

definition TimeMonthDays :: "nat \<Rightarrow> nat \<Rightarrow> nat option" where
  "TimeMonthDays year month =
     (if month \<in> {1, 3, 5, 7, 8, 10, 12} then Some 31
      else if month = 2 then do { leap \<leftarrow> rd CenturyYearTable year; Some (28 + leap) }
      else if month \<in> {4, 6, 9, 11} then Some 30
      else Some 0)"

definition TimeDECCheck :: "TIME \<Rightarrow> bool option" where
  "TimeDECCheck t =
     (if Year t \<le> 99 \<and> 1 \<le> Month t \<and> Month t \<le> 12 \<and> 1 \<le> Day t then do {
        d \<leftarrow> TimeMonthDays (Year t) (Month t);
        Some (Day t \<le> d \<and> Hour t < 24 \<and> Minute t < 60 \<and> Second t < 60) }
      else Some False)"

definition TimeZeroCheck :: "TIME \<Rightarrow> bool" where
  "TimeZeroCheck t \<longleftrightarrow> Year t = 0 \<and> Month t = 0 \<and> Day t = 0 \<and> Hour t = 0 \<and> Minute t = 0 \<and> Second t = 0"

definition TimeDECMonthDays :: "TIME \<Rightarrow> nat option" where
  "TimeDECMonthDays t = do {
     ok \<leftarrow> TimeDECCheck t;
     if \<not> ok then Some 0 else TimeMonthDays (Year t) (Month t) }"

definition TimeDECWeekDay :: "TIME \<Rightarrow> nat option" where
  "TimeDECWeekDay t = do {
     ok \<leftarrow> TimeDECCheck t;
     if \<not> ok then Some 7
     else let (year, month) = (if Month t = 1 \<or> Month t = 2 then (2000 + Year t - 1, Month t + 12)
                               else (2000 + Year t, Month t))
          in Some ((Day t + 2 * month + 3 * (month + 1) div 5 + year + year div 4 - year div 100 + year div 400) mod 7) }"

text \<open>The chain of repairs of \<open>TimeDECFix\<close>; the bits of the answer name the repaired fields.\<close>

definition fix_step :: "TIME \<Rightarrow> (TIME \<times> u8) option option" where
  "fix_step t =
     (if 99 < Year t then Some (Some (t\<lparr>Year := 99\<rparr>, 0x20))
      else if Month t = 0 then Some (Some (t\<lparr>Month := 1\<rparr>, 0x10))
      else if 12 < Month t then Some (Some (t\<lparr>Month := 12\<rparr>, 0x10))
      else if Day t = 0 then Some (Some (t\<lparr>Day := 1\<rparr>, 0x08))
      else do {
        d \<leftarrow> TimeMonthDays (Year t) (Month t);
        if d < Day t then Some (Some (t\<lparr>Day := d\<rparr>, 0x08))
        else if 24 \<le> Hour t then Some (Some (t\<lparr>Hour := 23\<rparr>, 0x04))
        else if 60 \<le> Minute t then Some (Some (t\<lparr>Minute := 59\<rparr>, 0x02))
        else if 60 \<le> Second t then Some (Some (t\<lparr>Second := 59\<rparr>, 0x01))
        else Some None })"

definition fix_measure :: "TIME \<Rightarrow> nat" where
  "fix_measure t = Year t + (if Month t = 0 then 1000 else Month t * 2) + (if Day t = 0 then 100 else Day t) +
     Hour t + Minute t + Second t"

subsection \<open>Calendar facts\<close>

lemma leap_table: "CenturyYearTable = concat (replicate 25 [1, 0, 0, 0])"
  by (simp add: CenturyYearTable_def numeral_eq_Suc)

lemma nth_blocks: "y < 4 * n \<Longrightarrow> concat (replicate n [1, 0, 0, 0]) ! y = (if y mod 4 = 0 then 1 else (0 :: nat))"
proof (induction n arbitrary: y)
  case (Suc n)
  show ?case
  proof (cases "y < 4")
    case True
    then have "y = 0 \<or> y = 1 \<or> y = 2 \<or> y = 3" by arith
    then show ?thesis by auto
  next
    case False
    then obtain z where z: "y = z + 4" by (metis add.commute le_Suc_ex not_less)
    then show ?thesis using Suc.IH [of z] Suc.prems by (simp add: nth_append)
  qed
qed simp

definition leap :: "nat \<Rightarrow> nat" where
  "leap y = (if y mod 4 = 0 then 1 else 0)"

lemma leap_table_read: "y \<le> 99 \<Longrightarrow> rd CenturyYearTable y = Some (leap y)"
proof -
  assume y: "y \<le> 99"
  have "length CenturyYearTable = 100" unfolding leap_table by (simp add: length_concat sum_list_replicate)
  moreover have "CenturyYearTable ! y = leap y" unfolding leap_table leap_def using y by (intro nth_blocks) simp
  ultimately show ?thesis using y by (simp add: rd_def)
qed

definition month_days :: "nat \<Rightarrow> nat \<Rightarrow> nat" where
  "month_days y m = (if m = 2 then 28 + leap y else if m \<in> {4, 6, 9, 11} then 30 else 31)"

lemma TimeMonthDays_eq: "y \<le> 99 \<Longrightarrow> 1 \<le> m \<Longrightarrow> m \<le> 12 \<Longrightarrow> TimeMonthDays y m = Some (month_days y m)"
proof -
  assume y: "y \<le> 99" and m: "1 \<le> m" "m \<le> 12"
  then have "m = 1 \<or> m = 2 \<or> m = 3 \<or> m = 4 \<or> m = 5 \<or> m = 6 \<or> m = 7 \<or> m = 8 \<or> m = 9 \<or> m = 10 \<or> m = 11 \<or> m = 12" by arith
  then show ?thesis by (auto simp: TimeMonthDays_def month_days_def leap_table_read [OF y])
qed

lemma month_days_bounds: "28 \<le> month_days y m" "month_days y m \<le> 31"
  by (simp_all add: month_days_def leap_def)

definition valid_time :: "TIME \<Rightarrow> bool" where
  "valid_time t \<longleftrightarrow> Year t \<le> 99 \<and> 1 \<le> Month t \<and> Month t \<le> 12 \<and> 1 \<le> Day t \<and> Day t \<le> month_days (Year t) (Month t) \<and>
     Hour t < 24 \<and> Minute t < 60 \<and> Second t < 60"

lemma TimeDECCheck_eq [simp]: "TimeDECCheck t = Some (valid_time t)"
  by (auto simp: TimeDECCheck_def valid_time_def TimeMonthDays_eq)

lemma fix_step_decreases: "fix_step t = Some (Some (t', b)) \<Longrightarrow> fix_measure t' < fix_measure t"
  using month_days_bounds(1) [of "Year t" "Month t"] TimeMonthDays_eq [of "Year t" "Month t"]
  by (auto simp: fix_step_def fix_measure_def split: if_splits)

function TimeDECFix_loop :: "TIME \<Rightarrow> u8 \<Rightarrow> (u8 \<times> TIME) option" where
  "TimeDECFix_loop t flag = do {
     r \<leftarrow> fix_step t;
     case r of None \<Rightarrow> Some (flag, t) | Some (t', b) \<Rightarrow> TimeDECFix_loop t' (flag OR b) }"
  by pat_completeness auto
termination by (relation "measure (\<lambda>(t, flag). fix_measure t)") (auto dest: fix_step_decreases)

declare TimeDECFix_loop.simps [simp del]

definition TimeDECFix :: "TIME \<Rightarrow> (u8 \<times> TIME) option" where
  "TimeDECFix t = TimeDECFix_loop t 0"

text \<open>\<open>if (time->Day > 28) TimeDECFix(time)\<close>, the last statement of the operations that change the month.\<close>

definition fix_late_day :: "TIME \<Rightarrow> TIME option" where
  "fix_late_day t = (if 28 < Day t then map_option snd (TimeDECFix t) else Some t)"

subsection \<open>Adding\<close>

definition TimeDECAddYear :: "TIME \<Rightarrow> nat \<Rightarrow> (bool \<times> TIME) option" where
  "TimeDECAddYear t value = do {
     ok \<leftarrow> TimeDECCheck t;
     if \<not> ok then Some (False, t)
     else do { t \<leftarrow> fix_late_day (t\<lparr>Year := u32_add value (Year t) mod 100\<rparr>); Some (True, t) } }"

definition TimeDECAddMonth :: "TIME \<Rightarrow> nat \<Rightarrow> (bool \<times> TIME) option" where
  "TimeDECAddMonth t value = do {
     ok \<leftarrow> TimeDECCheck t;
     if \<not> ok then Some (False, t)
     else if 12 < u32_add value (Month t) then do {
       let value = u32_add value (Month t);
       let t = t\<lparr>Month := value mod 12\<rparr>;
       (ok, t) \<leftarrow> (if Month t = 0 then TimeDECAddYear (t\<lparr>Month := 12\<rparr>) (u32_sub (value div 12) 1)
                 else TimeDECAddYear t (value div 12));
       if \<not> ok then Some (False, t) else do { t \<leftarrow> fix_late_day t; Some (True, t) } }
     else do { t \<leftarrow> fix_late_day (t\<lparr>Month := (Month t + value mod 256) mod 256\<rparr>); Some (True, t) } }"

lemma TimeDECAddMonth_checked:
  "TimeDECAddMonth t value = Some (True, t') \<Longrightarrow> TimeMonthDays (Year t) (Month t) = Some days \<Longrightarrow> 0 < days"
  using month_days_bounds(1) [of "Year t" "Month t"] TimeMonthDays_eq [of "Year t" "Month t"]
  by (auto simp: TimeDECAddMonth_def valid_time_def split: if_splits)

function add_day_loop :: "TIME \<Rightarrow> nat \<Rightarrow> (bool \<times> TIME) option" where
  "add_day_loop t value = do {
     days \<leftarrow> TimeMonthDays (Year t) (Month t);
     if days < value then do {
       (ok, t') \<leftarrow> TimeDECAddMonth t 1;
       if \<not> ok then Some (False, t') else add_day_loop t' (value - days) }
     else Some (True, t\<lparr>Day := value mod 256\<rparr>) }"
  by pat_completeness auto
termination by (relation "measure snd") (auto dest: TimeDECAddMonth_checked)

declare add_day_loop.simps [simp del]

definition TimeDECAddDay :: "TIME \<Rightarrow> nat \<Rightarrow> (bool \<times> TIME) option" where
  "TimeDECAddDay t value = do {
     ok \<leftarrow> TimeDECCheck t;
     if \<not> ok then Some (False, t) else add_day_loop (t\<lparr>Day := 1\<rparr>) (u32_add value (Day t)) }"

definition TimeDECAddHour :: "TIME \<Rightarrow> nat \<Rightarrow> (bool \<times> TIME) option" where
  "TimeDECAddHour t value = do {
     ok \<leftarrow> TimeDECCheck t;
     if \<not> ok then Some (False, t)
     else if 24 \<le> u32_add value (Hour t) then do {
       let value = u32_add value (Hour t);
       (ok, t) \<leftarrow> TimeDECAddDay t (value div 24);
       if \<not> ok then Some (False, t) else Some (True, t\<lparr>Hour := value mod 24\<rparr>) }
     else Some (True, t\<lparr>Hour := (Hour t + value mod 256) mod 256\<rparr>) }"

definition TimeDECAddMinute :: "TIME \<Rightarrow> nat \<Rightarrow> (bool \<times> TIME) option" where
  "TimeDECAddMinute t value = do {
     ok \<leftarrow> TimeDECCheck t;
     if \<not> ok then Some (False, t)
     else if 60 \<le> u32_add value (Minute t) then do {
       let value = u32_add value (Minute t);
       (ok, t) \<leftarrow> TimeDECAddHour t (value div 60);
       if \<not> ok then Some (False, t) else Some (True, t\<lparr>Minute := value mod 60\<rparr>) }
     else Some (True, t\<lparr>Minute := (Minute t + value mod 256) mod 256\<rparr>) }"

definition TimeDECAddSecond :: "TIME \<Rightarrow> nat \<Rightarrow> (bool \<times> TIME) option" where
  "TimeDECAddSecond t value = do {
     ok \<leftarrow> TimeDECCheck t;
     if \<not> ok then Some (False, t)
     else if 60 \<le> u32_add value (Second t) then do {
       let value = u32_add value (Second t);
       (ok, t) \<leftarrow> TimeDECAddMinute t (value div 60);
       if \<not> ok then Some (False, t) else Some (True, t\<lparr>Second := value mod 60\<rparr>) }
     else Some (True, t\<lparr>Second := (Second t + value mod 256) mod 256\<rparr>) }"

subsection \<open>Subtracting\<close>

definition TimeDECSubYear :: "TIME \<Rightarrow> nat \<Rightarrow> (bool \<times> TIME) option" where
  "TimeDECSubYear t value = do {
     ok \<leftarrow> TimeDECCheck t;
     if \<not> ok then Some (False, t)
     else do {
       t \<leftarrow> fix_late_day (t\<lparr>Year := (if value mod 100 \<le> Year t then Year t - value mod 100
                                    else Year t + 100 - value mod 100)\<rparr>);
       Some (True, t) } }"

definition TimeDECSubMonth :: "TIME \<Rightarrow> nat \<Rightarrow> (bool \<times> TIME) option" where
  "TimeDECSubMonth t value = do {
     ok \<leftarrow> TimeDECCheck t;
     if \<not> ok then Some (False, t)
     else if Month t \<le> value then do {
       let value = value - Month t;
       (ok, t) \<leftarrow> TimeDECSubYear t (1 + value div 12);
       if \<not> ok then Some (False, t)
       else do { t \<leftarrow> fix_late_day (t\<lparr>Month := 12 - value mod 12\<rparr>); Some (True, t) } }
     else do { t \<leftarrow> fix_late_day (t\<lparr>Month := Month t - value\<rparr>); Some (True, t) } }"

lemma TimeDECSubMonth_checked:
  "TimeDECSubMonth t value = Some (True, t') \<Longrightarrow> TimeMonthDays (Year t) (Month t) = Some days \<Longrightarrow> 0 < days"
  using month_days_bounds(1) [of "Year t" "Month t"] TimeMonthDays_eq [of "Year t" "Month t"]
  by (auto simp: TimeDECSubMonth_def valid_time_def split: if_splits)

function sub_day_loop :: "TIME \<Rightarrow> nat \<Rightarrow> (bool \<times> TIME) option" where
  "sub_day_loop t value = do {
     day \<leftarrow> TimeMonthDays (Year t) (Month t);
     if day \<le> value then do {
       (ok, t') \<leftarrow> TimeDECSubMonth t 1;
       if \<not> ok then Some (False, t') else sub_day_loop t' (value - day) }
     else Some (True, t\<lparr>Day := day - value\<rparr>) }"
  by pat_completeness auto
termination by (relation "measure snd") (auto dest: TimeDECSubMonth_checked)

declare sub_day_loop.simps [simp del]

definition TimeDECSubDay :: "TIME \<Rightarrow> nat \<Rightarrow> (bool \<times> TIME) option" where
  "TimeDECSubDay t value = do {
     ok \<leftarrow> TimeDECCheck t;
     if \<not> ok then Some (False, t)
     else let day = Day t; t = t\<lparr>Day := 1\<rparr> in
       if day \<le> value then do {
         (ok, t) \<leftarrow> TimeDECSubMonth t 1;
         if \<not> ok then Some (False, t) else sub_day_loop t (value - day) }
       else Some (True, t\<lparr>Day := day - value\<rparr>) }"

text \<open>The three operations below the day borrow from the next larger unit.\<close>

definition TimeDECSubHour :: "TIME \<Rightarrow> nat \<Rightarrow> (bool \<times> TIME) option" where
  "TimeDECSubHour t value = do {
     ok \<leftarrow> TimeDECCheck t;
     if \<not> ok then Some (False, t)
     else if Hour t < value then do {
       let value = value - Hour t;
       let t = t\<lparr>Hour := value mod 24\<rparr>;
       (ok, t) \<leftarrow> TimeDECSubDay t ((if Hour t \<noteq> 0 then 1 else 0) + value div 24);
       if \<not> ok then Some (False, t)
       else Some (True, if Hour t \<noteq> 0 then t\<lparr>Hour := 24 - value mod 24\<rparr> else t) }
     else Some (True, t\<lparr>Hour := Hour t - value\<rparr>) }"

definition TimeDECSubMinute :: "TIME \<Rightarrow> nat \<Rightarrow> (bool \<times> TIME) option" where
  "TimeDECSubMinute t value = do {
     ok \<leftarrow> TimeDECCheck t;
     if \<not> ok then Some (False, t)
     else if Minute t < value then do {
       let value = value - Minute t;
       let t = t\<lparr>Minute := value mod 60\<rparr>;
       (ok, t) \<leftarrow> TimeDECSubHour t ((if Minute t \<noteq> 0 then 1 else 0) + value div 60);
       if \<not> ok then Some (False, t)
       else Some (True, if Minute t \<noteq> 0 then t\<lparr>Minute := 60 - value mod 60\<rparr> else t) }
     else Some (True, t\<lparr>Minute := Minute t - value\<rparr>) }"

definition TimeDECSubSecond :: "TIME \<Rightarrow> nat \<Rightarrow> (bool \<times> TIME) option" where
  "TimeDECSubSecond t value = do {
     ok \<leftarrow> TimeDECCheck t;
     if \<not> ok then Some (False, t)
     else if Second t < value then do {
       let value = value - Second t;
       let t = t\<lparr>Second := value mod 60\<rparr>;
       (ok, t) \<leftarrow> TimeDECSubMinute t ((if Second t \<noteq> 0 then 1 else 0) + value div 60);
       if \<not> ok then Some (False, t)
       else Some (True, if Second t \<noteq> 0 then t\<lparr>Second := 60 - value mod 60\<rparr> else t) }
     else Some (True, t\<lparr>Second := Second t - value\<rparr>) }"

subsection \<open>Comparing and differences\<close>

definition time_bytes :: "TIME \<Rightarrow> nat list" where
  "time_bytes t = [Year t, Month t, Day t, Hour t, Minute t, Second t]"

abbreviation (input) TIME_EARLY :: nat where "TIME_EARLY \<equiv> 1"
abbreviation (input) TIME_LATE :: nat where "TIME_LATE \<equiv> 2"
abbreviation (input) TIME_EQUAL :: nat where "TIME_EQUAL \<equiv> 4"

fun comp_bytes :: "nat list \<Rightarrow> nat list \<Rightarrow> nat" where
  "comp_bytes (a # as) (b # bs) = (if a < b then TIME_EARLY else if b < a then TIME_LATE else comp_bytes as bs)"
| "comp_bytes as bs = TIME_EQUAL"

definition TimeComp :: "TIME \<Rightarrow> TIME \<Rightarrow> nat" where
  "TimeComp t1 t2 = comp_bytes (time_bytes t1) (time_bytes t2)"

definition TimeSwap :: "TIME \<Rightarrow> TIME \<Rightarrow> TIME \<times> TIME" where
  "TimeSwap t1 t2 = (t2, t1)"

text \<open>The loop over the months between two times, at most 1200; the count is the bound on its turns.\<close>

fun sum_months :: "nat \<Rightarrow> nat \<Rightarrow> nat \<Rightarrow> nat \<Rightarrow> nat \<Rightarrow> nat \<Rightarrow> nat \<Rightarrow> nat option" where
  "sum_months fuel unit y m y2 m2 acc =
     (if y = y2 \<and> m = m2 then Some acc
      else case fuel of 0 \<Rightarrow> None | Suc fuel \<Rightarrow> do {
        days \<leftarrow> TimeMonthDays y m;
        let acc = u32_add acc (u32_mul days unit);
        if m = 12 then sum_months fuel unit (y + 1) 1 y2 m2 acc else sum_months fuel unit y (m + 1) y2 m2 acc })"

declare sum_months.simps [simp del]

definition to_u32 :: "int \<Rightarrow> nat" where
  "to_u32 n = nat (n mod 4294967296)"

definition TimeDECSubTime :: "TIME \<Rightarrow> TIME \<Rightarrow> nat option" where
  "TimeDECSubTime time1 time2 = do {
     ok1 \<leftarrow> TimeDECCheck time1;
     ok2 \<leftarrow> TimeDECCheck time2;
     if \<not> ok1 \<or> \<not> ok2 then Some 0
     else do {
       let (t1, t2) = (if TimeComp time1 time2 = TIME_LATE then TimeSwap time1 time2 else (time1, time2));
       acc \<leftarrow> sum_months 1200 86400 (Year t1) (Month t1) (Year t2) (Month t2) 0;
       Some (to_u32 (int acc + (int (Day t2) - int (Day t1)) * 86400 + (int (Hour t2) - int (Hour t1)) * 3600 +
         (int (Minute t2) - int (Minute t1)) * 60 + (int (Second t2) - int (Second t1)))) } }"

definition TimeDECDiffDay :: "TIME \<Rightarrow> TIME \<Rightarrow> nat option" where
  "TimeDECDiffDay time1 time2 = do {
     ok1 \<leftarrow> TimeDECCheck time1;
     ok2 \<leftarrow> TimeDECCheck time2;
     if \<not> ok1 \<or> \<not> ok2 then Some 0
     else do {
       let (t1, t2) = (if TimeComp time1 time2 = TIME_LATE then TimeSwap time1 time2 else (time1, time2));
       acc \<leftarrow> sum_months 1200 1 (Year t1) (Month t1) (Year t2) (Month t2) 0;
       Some (to_u32 (int acc + (int (Day t2) - int (Day t1)) + 1)) } }"

definition TimeDECToStamp :: "TIME \<Rightarrow> nat option" where
  "TimeDECToStamp t = do {
     ok \<leftarrow> TimeDECCheck t;
     if \<not> ok then Some 0 else do { d \<leftarrow> TimeDECSubTime t INIT_TIME; Some (u32_add d 1) } }"

definition TimeDECStampToTime :: "nat \<Rightarrow> TIME option" where
  "TimeDECStampToTime stamp =
     (if stamp \<noteq> 0 then do { (_, t) \<leftarrow> TimeDECAddSecond INIT_TIME (stamp - 1); Some t } else Some INIT_TIME)"

definition TimeSameMinute :: "TIME \<Rightarrow> TIME \<Rightarrow> bool option" where
  "TimeSameMinute t1 t2 = do {
     ok1 \<leftarrow> TimeDECCheck t1;
     ok2 \<leftarrow> TimeDECCheck t2;
     Some (ok1 \<and> ok2 \<and> Year t1 = Year t2 \<and> Month t1 = Month t2 \<and> Day t1 = Day t2 \<and> Hour t1 = Hour t2 \<and>
       Minute t1 = Minute t2) }"

definition TimeSameDay :: "TIME \<Rightarrow> TIME \<Rightarrow> bool option" where
  "TimeSameDay t1 t2 = do {
     ok1 \<leftarrow> TimeDECCheck t1;
     ok2 \<leftarrow> TimeDECCheck t2;
     Some (ok1 \<and> ok2 \<and> Year t1 = Year t2 \<and> Month t1 = Month t2 \<and> Day t1 = Day t2) }"

definition TimeSameMonth :: "TIME \<Rightarrow> TIME \<Rightarrow> bool option" where
  "TimeSameMonth t1 t2 = do {
     ok1 \<leftarrow> TimeDECCheck t1;
     ok2 \<leftarrow> TimeDECCheck t2;
     Some (ok1 \<and> ok2 \<and> Year t1 = Year t2 \<and> Month t1 = Month t2) }"

end
