(* ===== verification/TimeCalendar.thy ===== *)
theory TimeCalendar imports Prelude TimeLib
begin

text \<open>
  The meaning of the operations of \<open>TimeLib\<close>: a valid time is a number of seconds since the start of
  2000, counted through the days of the months.  \<open>days_to k\<close> are the days before month \<open>k\<close> (month 0 is
  January 2000); the century has 1200 months and 36525 days, and all operations work modulo it.
\<close>

subsection \<open>Counting days\<close>

definition month_index :: "TIME \<Rightarrow> nat" where
  "month_index t = 12 * Year t + (Month t - 1)"

definition days_in :: "nat \<Rightarrow> nat" where
  "days_in k = month_days (k div 12) (k mod 12 + 1)"

fun days_to :: "nat \<Rightarrow> nat" where
  "days_to 0 = 0"
| "days_to (Suc k) = days_to k + days_in k"

abbreviation (input) CENTURY_DAYS :: int where "CENTURY_DAYS \<equiv> 36525"

definition day_number :: "TIME \<Rightarrow> int" where
  "day_number t = int (days_to (month_index t)) + int (Day t) - 1"

definition hours_of :: "TIME \<Rightarrow> int" where
  "hours_of t = day_number t * 24 + int (Hour t)"

definition minutes_of :: "TIME \<Rightarrow> int" where
  "minutes_of t = hours_of t * 60 + int (Minute t)"

definition seconds_of :: "TIME \<Rightarrow> int" where
  "seconds_of t = minutes_of t * 60 + int (Second t)"

lemma days_to_year: "days_to (12 * y) = 365 * y + (y + 3) div 4"
proof (induction y)
  case (Suc y)
  have e: "12 * Suc y = Suc (Suc (Suc (Suc (Suc (Suc (Suc (Suc (Suc (Suc (Suc (Suc (12 * y))))))))))))" by simp
  have m: "(12 * y + i) div 12 = y" "(12 * y + i) mod 12 = i" if "i < 12" for i using that by simp_all
  have d: "days_in (12 * y + i) = month_days y (i + 1)" if "i < 12" for i using m [OF that] by (simp add: days_in_def)
  have "days_to (12 * Suc y) = days_to (12 * y) + days_in (12 * y + 0) + days_in (12 * y + 1) + days_in (12 * y + 2) +
      days_in (12 * y + 3) + days_in (12 * y + 4) + days_in (12 * y + 5) + days_in (12 * y + 6) + days_in (12 * y + 7) +
      days_in (12 * y + 8) + days_in (12 * y + 9) + days_in (12 * y + 10) + days_in (12 * y + 11)"
    unfolding e days_to.simps by (simp add: eval_nat_numeral)
  also have "\<dots> = days_to (12 * y) + 365 + leap y" by (simp only: d) (simp add: d month_days_def)
  also have "\<dots> = 365 * Suc y + (Suc y + 3) div 4"
    unfolding Suc leap_def by (simp split: if_splits) presburger
  finally show ?case .
qed simp

lemma days_to_century: "days_to 1200 = 36525"
  using days_to_year [of 100] by simp

lemma days_to_mono: "j \<le> k \<Longrightarrow> days_to j \<le> days_to k"
  by (induction k) (auto simp: le_Suc_eq)

lemma month_index_parts:
  assumes "1 \<le> Month t" "Month t \<le> 12"
  shows "month_index t div 12 = Year t" "month_index t mod 12 + 1 = Month t" "month_index t < 12 * (Year t + 1)"
proof -
  obtain j where j: "Month t = Suc j" using assms(1) by (cases "Month t") auto
  then have "j < 12" using assms(2) by simp
  then show "month_index t div 12 = Year t" "month_index t mod 12 + 1 = Month t" "month_index t < 12 * (Year t + 1)"
    using j by (simp_all add: month_index_def)
qed

lemma valid_month:
  assumes "valid_time t"
  shows "month_index t < 1200" "days_in (month_index t) = month_days (Year t) (Month t)"
    "TimeMonthDays (Year t) (Month t) = Some (days_in (month_index t))"
    "days_to (month_index t) + days_in (month_index t) \<le> 36525"
proof -
  have m: "1 \<le> Month t" "Month t \<le> 12" "Year t \<le> 99" using assms by (auto simp: valid_time_def)
  show k: "month_index t < 1200" using month_index_parts(3) [OF m(1,2)] m(3) by simp
  show d: "days_in (month_index t) = month_days (Year t) (Month t)"
    using month_index_parts(1,2) [OF m(1,2)] by (simp add: days_in_def)
  show "TimeMonthDays (Year t) (Month t) = Some (days_in (month_index t))"
    unfolding d by (rule TimeMonthDays_eq [OF m(3,1,2)])
  show "days_to (month_index t) + days_in (month_index t) \<le> 36525"
    using days_to_mono [of "Suc (month_index t)" 1200] k days_to_century by simp
qed

lemma day_number_range:
  assumes "valid_time t"
  shows "0 \<le> day_number t" "day_number t < CENTURY_DAYS"
proof -
  have "1 \<le> Day t" "Day t \<le> days_in (month_index t)"
    using assms valid_month(2) [OF assms] by (auto simp: valid_time_def)
  then show "0 \<le> day_number t" "day_number t < CENTURY_DAYS"
    using valid_month(4) [OF assms] by (simp_all add: day_number_def)
qed

text \<open>A remainder in the larger unit, refined by a digit of the smaller one.\<close>

lemma mixed_radix:
  assumes "0 \<le> r" "r < b" "0 < (n :: int)"
  shows "(x mod n) * b + r = (x * b + r) mod (n * b)"
proof -
  have b: "0 < b" using assms by simp
  have "(x mod n) * b + r < n * b"
  proof -
    have "x mod n \<le> n - 1" using assms(3) by simp
    then have "(x mod n) * b \<le> (n - 1) * b" using b by (intro mult_right_mono) auto
    then show ?thesis using assms(2) by (simp add: algebra_simps)
  qed
  moreover have "0 \<le> (x mod n) * b + r" using assms b by simp
  moreover have "x * b + r = (x mod n) * b + r + (x div n) * (n * b)"
    using div_mult_mod_eq [of x n] by (metis (no_types, opaque_lifting) add.assoc add.commute distrib_right mult.assoc)
  ultimately show ?thesis by (metis mod_mult_self1 mod_pos_pos_trivial)
qed

subsection \<open>One month forward and back\<close>

definition same_clock :: "TIME \<Rightarrow> TIME \<Rightarrow> bool" where
  "same_clock t t' \<longleftrightarrow> Hour t' = Hour t \<and> Minute t' = Minute t \<and> Second t' = Second t"

lemma early_day [simp]: "Day t \<le> 28 \<Longrightarrow> fix_late_day t = Some t"
  by (simp add: fix_late_day_def)

lemma next_month:
  assumes "valid_time t" "Day t = 1"
  shows "\<exists>t'. TimeDECAddMonth t 1 = Some (True, t') \<and> valid_time t' \<and> Day t' = 1 \<and> same_clock t t' \<and>
    month_index t' = Suc (month_index t) mod 1200"
proof (cases "Month t = 12")
  case True
  let ?t' = "t\<lparr>Month := 1, Year := (1 + Year t) mod 100\<rparr>"
  have y: "Year t \<le> 99" using assms(1) by (simp add: valid_time_def)
  have v: "valid_time (t\<lparr>Month := 1\<rparr>)" using assms by (simp add: valid_time_def month_days_def)
  have "TimeDECAddMonth t 1 = Some (True, ?t')"
    using assms True v y by (simp add: TimeDECAddMonth_def TimeDECAddYear_def u32_add_def)
  moreover have "valid_time ?t'" using assms y by (simp add: valid_time_def month_days_def)
  moreover have "month_index ?t' = Suc (month_index t) mod 1200"
    using True y by (cases "Year t = 99") (auto simp: month_index_def)
  ultimately show ?thesis using assms(2) by (auto simp: same_clock_def)
next
  case False
  then have m: "Month t < 12" "1 \<le> Month t" "Year t \<le> 99" using assms(1) by (auto simp: valid_time_def)
  let ?t' = "t\<lparr>Month := Month t + 1\<rparr>"
  have "TimeDECAddMonth t 1 = Some (True, ?t')" using assms m by (simp add: TimeDECAddMonth_def u32_add_def)
  moreover have "valid_time ?t'" using assms m by (simp add: valid_time_def month_days_def)
  moreover have "month_index ?t' = Suc (month_index t) mod 1200" using m by (simp add: month_index_def)
  ultimately show ?thesis using assms(2) by (auto simp: same_clock_def)
qed

lemma previous_month:
  assumes "valid_time t" "Day t = 1"
  shows "\<exists>t'. TimeDECSubMonth t 1 = Some (True, t') \<and> valid_time t' \<and> Day t' = 1 \<and> same_clock t t' \<and>
    month_index t = Suc (month_index t') mod 1200"
proof (cases "Month t = 1")
  case True
  let ?y = "if 1 \<le> Year t then Year t - 1 else 99"
  let ?t' = "t\<lparr>Year := ?y, Month := 12\<rparr>"
  have y: "Year t \<le> 99" using assms(1) by (simp add: valid_time_def)
  have "TimeDECSubMonth t 1 = Some (True, ?t')"
    using assms True by (simp add: TimeDECSubMonth_def TimeDECSubYear_def)
  moreover have "valid_time ?t'" using assms y by (auto simp: valid_time_def month_days_def)
  moreover have "month_index t = Suc (month_index ?t') mod 1200"
    using True y by (cases "Year t") (auto simp: month_index_def)
  ultimately show ?thesis using assms(2) by (auto simp: same_clock_def)
next
  case False
  then have m: "Month t \<le> 12" "2 \<le> Month t" "Year t \<le> 99" using assms(1) by (auto simp: valid_time_def)
  let ?t' = "t\<lparr>Month := Month t - 1\<rparr>"
  have "TimeDECSubMonth t 1 = Some (True, ?t')" using assms m by (simp add: TimeDECSubMonth_def)
  moreover have "valid_time ?t'" using assms m by (auto simp: valid_time_def month_days_def)
  moreover have "month_index t = Suc (month_index ?t') mod 1200" using m by (simp add: month_index_def)
  ultimately show ?thesis using assms(2) by (auto simp: same_clock_def)
qed

lemma days_to_wrap:
  assumes "k < 1200"
  shows "int (days_to (Suc k mod 1200)) mod CENTURY_DAYS = (int (days_to k) + int (days_in k)) mod CENTURY_DAYS"
proof (cases "k = 1199")
  case True
  then have "days_to k + days_in k = 36525" using days_to_century days_to.simps(2) [of 1199] by simp
  then have "int (days_to k) + int (days_in k) = 36525" by linarith
  then show ?thesis using True by simp
next
  case False
  then have "Suc k mod 1200 = Suc k" using assms by simp
  then show ?thesis by simp
qed

end
