(* ===== verification/TimeArith.thy ===== *)
theory TimeArith imports Prelude TimeLib TimeCalendar
begin

text \<open>
  Adding to and subtracting from a time (\<open>usdl_time.c\<close>): the loops over the months move the day number
  by the number of days, and every smaller unit carries to or borrows from the next larger one.
\<close>

subsection \<open>Adding and subtracting\<close>

lemma day_in_month:
  assumes "valid_time t" "1 \<le> d" "d \<le> days_in (month_index t)"
  shows "valid_time (t\<lparr>Day := d\<rparr>)" "month_index (t\<lparr>Day := d\<rparr>) = month_index t" "d < 256"
  using assms valid_month(2) [OF assms(1)] month_days_bounds(2) [of "Year t" "Month t"]
  by (auto simp: valid_time_def month_index_def)

lemma add_day_loop_counts:
  assumes "valid_time t" "Day t = 1" "1 \<le> n"
  shows "\<exists>t'. add_day_loop t n = Some (True, t') \<and> valid_time t' \<and> same_clock t t' \<and>
    day_number t' = (int (days_to (month_index t)) + int n - 1) mod CENTURY_DAYS"
  using assms
proof (induction n arbitrary: t rule: less_induct)
  case (less n)
  let ?k = "month_index t" and ?d = "days_in (month_index t)"
  have rd: "TimeMonthDays (Year t) (Month t) = Some ?d" using valid_month(3) [OF less.prems(1)] .
  show ?case
  proof (cases "?d < n")
    case True
    obtain s where s: "TimeDECAddMonth t 1 = Some (True, s)" "valid_time s" "Day s = 1" "same_clock t s"
        "month_index s = Suc ?k mod 1200"
      using next_month [OF less.prems(1,2)] by blast
    have pos: "0 < ?d" using valid_month(2) [OF less.prems(1)] month_days_bounds(1) [of "Year t" "Month t"] by simp
    then have lt: "n - ?d < n" "1 \<le> n - ?d" using True by simp_all
    obtain t' where t': "add_day_loop s (n - ?d) = Some (True, t')" "valid_time t'" "same_clock s t'"
        "day_number t' = (int (days_to (Suc ?k mod 1200)) + int (n - ?d) - 1) mod CENTURY_DAYS"
      using less.IH [OF lt(1) s(2,3) lt(2)] unfolding s(5) by blast
    have "day_number t' = (int (days_to ?k) + int ?d + (int (n - ?d) - 1)) mod CENTURY_DAYS"
      unfolding t'(4) using mod_add_cong [OF days_to_wrap [OF valid_month(1) [OF less.prems(1)]]
        refl [of "(int (n - ?d) - 1) mod CENTURY_DAYS"]]
      by (simp add: algebra_simps)
    then have "day_number t' = (int (days_to ?k) + int n - 1) mod CENTURY_DAYS" using True by (simp add: add_diff_eq)
    moreover have "add_day_loop t n = Some (True, t')"
      using rd True s(1) t'(1) by (subst add_day_loop.simps) simp
    ultimately show ?thesis using t'(2,3) s(4) by (auto simp: same_clock_def)
  next
    case False
    then have d: "valid_time (t\<lparr>Day := n\<rparr>)" "month_index (t\<lparr>Day := n\<rparr>) = ?k" "n < 256"
      using day_in_month [OF less.prems(1,3)] by auto
    have dn: "day_number (t\<lparr>Day := n\<rparr>) = int (days_to ?k) + int n - 1"
      using d(2) by (simp add: day_number_def)
    have "add_day_loop t n = Some (True, t\<lparr>Day := n\<rparr>)"
      using rd False d(3) by (subst add_day_loop.simps) simp
    moreover have "day_number (t\<lparr>Day := n\<rparr>) = (int (days_to ?k) + int n - 1) mod CENTURY_DAYS"
      using day_number_range [OF d(1)] dn by simp
    ultimately show ?thesis using d(1) by (auto simp: same_clock_def)
  qed
qed

lemma add_day_counts:
  assumes "valid_time t" "n + Day t < 4294967296"
  shows "\<exists>t'. TimeDECAddDay t n = Some (True, t') \<and> valid_time t' \<and> same_clock t t' \<and>
    day_number t' = (day_number t + int n) mod CENTURY_DAYS"
proof -
  have first: "1 \<le> Day t" "1 \<le> days_in (month_index t)"
    using assms(1) valid_month(2) [OF assms(1)] month_days_bounds(1) [of "Year t" "Month t"] by (simp_all add: valid_time_def)
  have v: "valid_time (t\<lparr>Day := 1\<rparr>)" "month_index (t\<lparr>Day := 1\<rparr>) = month_index t"
    using day_in_month [OF assms(1) _ first(2)] by simp_all
  obtain t' where "add_day_loop (t\<lparr>Day := 1\<rparr>) (n + Day t) = Some (True, t')" "valid_time t'"
      "same_clock (t\<lparr>Day := 1\<rparr>) t'"
      "day_number t' = (int (days_to (month_index t)) + int (n + Day t) - 1) mod CENTURY_DAYS"
    using add_day_loop_counts [OF v(1), of "n + Day t"] first(1) v(2) by auto
  then show ?thesis using assms
    by (auto simp: TimeDECAddDay_def u32_add_def same_clock_def day_number_def algebra_simps)
qed


text \<open>A carry into the larger unit, and a value that stays below the unit.\<close>

lemma carry_radix:
  assumes "0 < b" "0 < n"
  shows "((x + int (v div b)) mod n) * int b + int (v mod b) = (x * int b + int v) mod (n * int b)"
proof -
  have e: "((x + int (v div b)) mod n) * int b + int (v mod b) = ((x + int (v div b)) * int b + int (v mod b)) mod (n * int b)"
    by (rule mixed_radix) (use assms in simp_all)
  have "int v = int (v div b) * int b + int (v mod b)" by (metis div_mult_mod_eq of_nat_add of_nat_mult)
  then have "(x + int (v div b)) * int b + int (v mod b) = x * int b + int v" by (simp add: algebra_simps)
  then show ?thesis using e by simp
qed

lemma no_carry_radix:
  assumes "0 \<le> x" "x < n" "0 \<le> r" "r < (b :: int)"
  shows "x * b + r = (x * b + r) mod (n * b)"
  using mixed_radix [of r b n x] assms by simp

lemma carry_small: "(V :: nat) < 4294967296 \<Longrightarrow> f < 60 \<Longrightarrow> 24 \<le> b \<Longrightarrow> V div b + f < 4294967296"
  using div_le_mono2 [of 24 b V] div_le_mono [of V 4294967295 24] by simp

lemma add_hour_counts:
  assumes "valid_time t" "v + Hour t < 4294967296"
  shows "\<exists>t'. TimeDECAddHour t v = Some (True, t') \<and> valid_time t' \<and> Minute t' = Minute t \<and> Second t' = Second t \<and>
    hours_of t' = (hours_of t + int v) mod (CENTURY_DAYS * 24)"
proof (cases "24 \<le> v + Hour t")
  case True
  let ?V = "v + Hour t"
  have "?V div 24 + Day t < 4294967296"
    using assms month_days_bounds(2) [of "Year t" "Month t"] by (intro carry_small) (auto simp: valid_time_def)
  then obtain s where s: "TimeDECAddDay t (?V div 24) = Some (True, s)" "valid_time s" "same_clock t s"
      "day_number s = (day_number t + int (?V div 24)) mod CENTURY_DAYS"
    using add_day_counts [OF assms(1)] by blast
  let ?t' = "s\<lparr>Hour := ?V mod 24\<rparr>"
  have "hours_of ?t' = day_number s * 24 + int (?V mod 24)"
    by (simp add: hours_of_def day_number_def month_index_def)
  also have "\<dots> = (day_number t * int 24 + int ?V) mod (CENTURY_DAYS * int 24)"
    unfolding s(4) using carry_radix [of 24 CENTURY_DAYS "day_number t" ?V] by simp
  finally have "hours_of ?t' = (hours_of t + int v) mod (CENTURY_DAYS * 24)"
    by (simp add: hours_of_def algebra_simps)
  moreover have "valid_time ?t'" using s(2) by (simp add: valid_time_def)
  moreover have "TimeDECAddHour t v = Some (True, ?t')"
    using assms True s(1) by (simp add: TimeDECAddHour_def u32_add_def)
  ultimately show ?thesis using s(3) by (auto simp: same_clock_def)
next
  case False
  let ?t' = "t\<lparr>Hour := Hour t + v\<rparr>"
  have "TimeDECAddHour t v = Some (True, ?t')" "valid_time ?t'"
    using assms False by (simp_all add: TimeDECAddHour_def u32_add_def valid_time_def)
  moreover have "hours_of ?t' = hours_of t + int v"
    by (simp add: hours_of_def day_number_def month_index_def)
  moreover have "hours_of t + int v = (hours_of t + int v) mod (CENTURY_DAYS * 24)"
    using no_carry_radix [of "day_number t" CENTURY_DAYS "int (Hour t + v)" 24] day_number_range [OF assms(1)] False
    by (simp add: hours_of_def algebra_simps)
  ultimately show ?thesis by simp
qed

lemma hours_range: "valid_time t \<Longrightarrow> 0 \<le> hours_of t \<and> hours_of t < CENTURY_DAYS * 24"
  using day_number_range [of t] by (simp add: hours_of_def valid_time_def)

lemma minutes_range: "valid_time t \<Longrightarrow> 0 \<le> minutes_of t \<and> minutes_of t < CENTURY_DAYS * 24 * 60"
  using hours_range [of t] by (simp add: minutes_of_def valid_time_def)

lemma seconds_range: "valid_time t \<Longrightarrow> 0 \<le> seconds_of t \<and> seconds_of t < CENTURY_DAYS * 86400"
  using minutes_range [of t] by (simp add: seconds_of_def valid_time_def)

lemma add_minute_counts:
  assumes "valid_time t" "v + Minute t < 4294967296"
  shows "\<exists>t'. TimeDECAddMinute t v = Some (True, t') \<and> valid_time t' \<and> Second t' = Second t \<and>
    minutes_of t' = (minutes_of t + int v) mod (CENTURY_DAYS * 24 * 60)"
proof (cases "60 \<le> v + Minute t")
  case True
  let ?V = "v + Minute t"
  have "?V div 60 + Hour t < 4294967296" using assms by (intro carry_small) (auto simp: valid_time_def)
  then obtain s where s: "TimeDECAddHour t (?V div 60) = Some (True, s)" "valid_time s" "Second s = Second t"
      "hours_of s = (hours_of t + int (?V div 60)) mod (CENTURY_DAYS * 24)"
    using add_hour_counts [OF assms(1)] by blast
  let ?t' = "s\<lparr>Minute := ?V mod 60\<rparr>"
  have "minutes_of ?t' = hours_of s * 60 + int (?V mod 60)"
    by (simp add: minutes_of_def hours_of_def day_number_def month_index_def)
  also have "\<dots> = (hours_of t * int 60 + int ?V) mod (CENTURY_DAYS * 24 * int 60)"
    unfolding s(4) using carry_radix [of 60 "CENTURY_DAYS * 24" "hours_of t" ?V] by simp
  finally have "minutes_of ?t' = (minutes_of t + int v) mod (CENTURY_DAYS * 24 * 60)"
    by (simp add: minutes_of_def algebra_simps)
  moreover have "valid_time ?t'" using s(2) by (simp add: valid_time_def)
  moreover have "TimeDECAddMinute t v = Some (True, ?t')"
    using assms True s(1) by (simp add: TimeDECAddMinute_def u32_add_def)
  ultimately show ?thesis using s(3) by auto
next
  case False
  let ?t' = "t\<lparr>Minute := Minute t + v\<rparr>"
  have "TimeDECAddMinute t v = Some (True, ?t')" "valid_time ?t'"
    using assms False by (simp_all add: TimeDECAddMinute_def u32_add_def valid_time_def)
  moreover have "minutes_of ?t' = minutes_of t + int v"
    by (simp add: minutes_of_def hours_of_def day_number_def month_index_def)
  moreover have "minutes_of t + int v = (minutes_of t + int v) mod (CENTURY_DAYS * 24 * 60)"
    using no_carry_radix [of "hours_of t" "CENTURY_DAYS * 24" "int (Minute t + v)" 60] hours_range [OF assms(1)] False
    by (simp add: minutes_of_def algebra_simps)
  ultimately show ?thesis by simp
qed

lemma add_second_counts:
  assumes "valid_time t" "v + Second t < 4294967296"
  shows "\<exists>t'. TimeDECAddSecond t v = Some (True, t') \<and> valid_time t' \<and>
    seconds_of t' = (seconds_of t + int v) mod (CENTURY_DAYS * 86400)"
proof (cases "60 \<le> v + Second t")
  case True
  let ?V = "v + Second t"
  have "?V div 60 + Minute t < 4294967296" using assms by (intro carry_small) (auto simp: valid_time_def)
  then obtain s where s: "TimeDECAddMinute t (?V div 60) = Some (True, s)" "valid_time s"
      "minutes_of s = (minutes_of t + int (?V div 60)) mod (CENTURY_DAYS * 24 * 60)"
    using add_minute_counts [OF assms(1)] by blast
  let ?t' = "s\<lparr>Second := ?V mod 60\<rparr>"
  have "seconds_of ?t' = minutes_of s * 60 + int (?V mod 60)"
    by (simp add: seconds_of_def minutes_of_def hours_of_def day_number_def month_index_def)
  also have "\<dots> = (minutes_of t * int 60 + int ?V) mod (CENTURY_DAYS * 24 * 60 * int 60)"
    unfolding s(3) using carry_radix [of 60 "CENTURY_DAYS * 24 * 60" "minutes_of t" ?V] by simp
  finally have "seconds_of ?t' = (seconds_of t + int v) mod (CENTURY_DAYS * 86400)"
    by (simp add: seconds_of_def algebra_simps)
  moreover have "valid_time ?t'" using s(2) by (simp add: valid_time_def)
  moreover have "TimeDECAddSecond t v = Some (True, ?t')"
    using assms True s(1) by (simp add: TimeDECAddSecond_def u32_add_def)
  ultimately show ?thesis by auto
next
  case False
  let ?t' = "t\<lparr>Second := Second t + v\<rparr>"
  have "TimeDECAddSecond t v = Some (True, ?t')" "valid_time ?t'"
    using assms False by (simp_all add: TimeDECAddSecond_def u32_add_def valid_time_def)
  moreover have "seconds_of ?t' = seconds_of t + int v"
    by (simp add: seconds_of_def minutes_of_def hours_of_def day_number_def month_index_def)
  moreover have "seconds_of t + int v = (seconds_of t + int v) mod (CENTURY_DAYS * 86400)"
    using no_carry_radix [of "minutes_of t" "CENTURY_DAYS * 24 * 60" "int (Second t + v)" 60] minutes_range [OF assms(1)] False
    by (simp add: seconds_of_def algebra_simps)
  ultimately show ?thesis by simp
qed


lemma sub_day_loop_counts:
  assumes "valid_time t" "Day t = 1"
  shows "\<exists>t'. sub_day_loop t n = Some (True, t') \<and> valid_time t' \<and> same_clock t t' \<and>
    day_number t' = (int (days_to (month_index t)) + int (days_in (month_index t)) - int n - 1) mod CENTURY_DAYS"
  using assms
proof (induction n arbitrary: t rule: less_induct)
  case (less n)
  let ?k = "month_index t" and ?d = "days_in (month_index t)"
  have rd: "TimeMonthDays (Year t) (Month t) = Some ?d" using valid_month(3) [OF less.prems(1)] .
  show ?case
  proof (cases "?d \<le> n")
    case True
    obtain s where s: "TimeDECSubMonth t 1 = Some (True, s)" "valid_time s" "Day s = 1" "same_clock t s"
        "month_index t = Suc (month_index s) mod 1200"
      using previous_month [OF less.prems(1,2)] by blast
    have pos: "0 < ?d" using valid_month(2) [OF less.prems(1)] month_days_bounds(1) [of "Year t" "Month t"] by simp
    then have lt: "n - ?d < n" using True by simp
    obtain t' where t': "sub_day_loop s (n - ?d) = Some (True, t')" "valid_time t'" "same_clock s t'"
        "day_number t' = (int (days_to (month_index s)) + int (days_in (month_index s)) - int (n - ?d) - 1) mod CENTURY_DAYS"
      using less.IH [OF lt s(2,3)] by blast
    have "day_number t' = (int (days_to ?k) + (- int (n - ?d) - 1)) mod CENTURY_DAYS"
      unfolding t'(4) using mod_add_cong [OF days_to_wrap [OF valid_month(1) [OF s(2)]]
        refl [of "(- int (n - ?d) - 1) mod CENTURY_DAYS"]] s(5)
      by (simp add: algebra_simps)
    then have "day_number t' = (int (days_to ?k) + int ?d - int n - 1) mod CENTURY_DAYS" using True by (simp add: add_diff_eq)
    moreover have "sub_day_loop t n = Some (True, t')"
      using rd True s(1) t'(1) by (subst sub_day_loop.simps) simp
    ultimately show ?thesis using t'(2,3) s(4) by (auto simp: same_clock_def)
  next
    case False
    then have d: "valid_time (t\<lparr>Day := ?d - n\<rparr>)" "month_index (t\<lparr>Day := ?d - n\<rparr>) = ?k"
      using day_in_month [OF less.prems(1), of "?d - n"] by auto
    have dn: "day_number (t\<lparr>Day := ?d - n\<rparr>) = int (days_to ?k) + int ?d - int n - 1"
      using d(2) False by (simp add: day_number_def)
    have "sub_day_loop t n = Some (True, t\<lparr>Day := ?d - n\<rparr>)"
      using rd False by (subst sub_day_loop.simps) simp
    moreover have "day_number (t\<lparr>Day := ?d - n\<rparr>) = (int (days_to ?k) + int ?d - int n - 1) mod CENTURY_DAYS"
      using day_number_range [OF d(1)] dn by simp
    ultimately show ?thesis using d(1) by (auto simp: same_clock_def)
  qed
qed

lemma sub_day_counts:
  assumes "valid_time t"
  shows "\<exists>t'. TimeDECSubDay t n = Some (True, t') \<and> valid_time t' \<and> same_clock t t' \<and>
    day_number t' = (day_number t - int n) mod CENTURY_DAYS"
proof (cases "Day t \<le> n")
  case True
  have first: "1 \<le> days_in (month_index t)"
    using valid_month(2) [OF assms] month_days_bounds(1) [of "Year t" "Month t"] by simp
  have v: "valid_time (t\<lparr>Day := 1\<rparr>)" "month_index (t\<lparr>Day := 1\<rparr>) = month_index t"
    using day_in_month [OF assms _ first] by simp_all
  obtain s where s: "TimeDECSubMonth (t\<lparr>Day := 1\<rparr>) 1 = Some (True, s)" "valid_time s" "Day s = 1" "same_clock t s"
      "month_index t = Suc (month_index s) mod 1200"
    using previous_month [OF v(1)] v(2) by (auto simp: same_clock_def)
  obtain t' where t': "sub_day_loop s (n - Day t) = Some (True, t')" "valid_time t'" "same_clock s t'"
      "day_number t' = (int (days_to (month_index s)) + int (days_in (month_index s)) - int (n - Day t) - 1) mod CENTURY_DAYS"
    using sub_day_loop_counts [OF s(2,3)] by blast
  have "day_number t' = (int (days_to (month_index t)) + (- int (n - Day t) - 1)) mod CENTURY_DAYS"
    unfolding t'(4) using mod_add_cong [OF days_to_wrap [OF valid_month(1) [OF s(2)]]
      refl [of "(- int (n - Day t) - 1) mod CENTURY_DAYS"]] s(5)
    by (simp add: algebra_simps)
  then have "day_number t' = (day_number t - int n) mod CENTURY_DAYS" using True by (simp add: day_number_def algebra_simps)
  moreover have "TimeDECSubDay t n = Some (True, t')"
    using assms True s(1) t'(1) by (simp add: TimeDECSubDay_def)
  ultimately show ?thesis using t'(2,3) s(4) by (auto simp: same_clock_def)
next
  case False
  have d: "valid_time (t\<lparr>Day := Day t - n\<rparr>)"
    using assms False by (auto simp: valid_time_def)
  have dn: "day_number (t\<lparr>Day := Day t - n\<rparr>) = day_number t - int n"
    using False by (simp add: day_number_def month_index_def)
  have "TimeDECSubDay t n = Some (True, t\<lparr>Day := Day t - n\<rparr>)"
    using assms False by (simp add: TimeDECSubDay_def Let_def)
  moreover have "day_number t - int n = (day_number t - int n) mod CENTURY_DAYS"
    using day_number_range [OF d] dn by simp
  ultimately show ?thesis using d dn by (auto simp: same_clock_def)
qed

text \<open>A borrow from the larger unit.\<close>

lemma borrow_radix:
  assumes "0 < b" "0 < n"
  shows "((x - int ((if v mod b \<noteq> 0 then 1 else 0) + v div b)) mod n) * int b + int (if v mod b \<noteq> 0 then b - v mod b else 0) =
    (x * int b - int v) mod (n * int b)"
proof -
  let ?q = "(if v mod b \<noteq> 0 then 1 else 0) + v div b" and ?r = "if v mod b \<noteq> 0 then b - v mod b else 0"
  have small: "v mod b < b" using assms(1) by simp
  have "int v = int (v div b) * int b + int (v mod b)" by (metis div_mult_mod_eq of_nat_add of_nat_mult)
  then have "(x - int ?q) * int b + int ?r = x * int b - int v"
    using small by (simp add: algebra_simps)
  moreover have "((x - int ?q) mod n) * int b + int ?r = ((x - int ?q) * int b + int ?r) mod (n * int b)"
    by (rule mixed_radix) (use assms in auto)
  ultimately show ?thesis by simp
qed

lemma sub_hour_counts:
  assumes "valid_time t"
  shows "\<exists>t'. TimeDECSubHour t v = Some (True, t') \<and> valid_time t' \<and> Minute t' = Minute t \<and> Second t' = Second t \<and>
    hours_of t' = (hours_of t - int v) mod (CENTURY_DAYS * 24)"
proof (cases "Hour t < v")
  case True
  let ?V = "v - Hour t" let ?s = "t\<lparr>Hour := ?V mod 24\<rparr>"
  have vs: "valid_time ?s" using assms by (simp add: valid_time_def)
  have ds: "day_number ?s = day_number t" by (simp add: day_number_def month_index_def)
  obtain s where s: "TimeDECSubDay ?s ((if ?V mod 24 \<noteq> 0 then 1 else 0) + ?V div 24) = Some (True, s)" "valid_time s"
      "same_clock ?s s" "day_number s = (day_number t - int ((if ?V mod 24 \<noteq> 0 then 1 else 0) + ?V div 24)) mod CENTURY_DAYS"
    using sub_day_counts [OF vs] unfolding ds by blast
  let ?t' = "s\<lparr>Hour := if ?V mod 24 \<noteq> 0 then 24 - ?V mod 24 else 0\<rparr>"
  have hs: "Hour s = ?V mod 24" using s(3) by (simp add: same_clock_def)
  have "hours_of ?t' = day_number s * 24 + int (if ?V mod 24 \<noteq> 0 then 24 - ?V mod 24 else 0)"
    by (simp add: hours_of_def day_number_def month_index_def)
  also have "\<dots> = (day_number t * int 24 - int ?V) mod (CENTURY_DAYS * int 24)"
    unfolding s(4) using borrow_radix [of 24 CENTURY_DAYS "day_number t" ?V] by simp
  finally have "hours_of ?t' = (hours_of t - int v) mod (CENTURY_DAYS * 24)"
    using True by (simp add: hours_of_def algebra_simps)
  moreover have "valid_time ?t'" using s(2) by (simp add: valid_time_def)
  moreover have "TimeDECSubHour t v = Some (True, ?t')"
    using assms True s(1) hs by (simp add: TimeDECSubHour_def)
  ultimately show ?thesis using s(3) by (auto simp: same_clock_def)
next
  case False
  let ?t' = "t\<lparr>Hour := Hour t - v\<rparr>"
  have "TimeDECSubHour t v = Some (True, ?t')" and v: "valid_time ?t'"
    using assms False by (auto simp: TimeDECSubHour_def valid_time_def)
  moreover have "hours_of ?t' = hours_of t - int v"
    using False by (simp add: hours_of_def day_number_def month_index_def)
  ultimately show ?thesis using hours_range [OF v] by simp
qed


lemma sub_minute_counts:
  assumes "valid_time t"
  shows "\<exists>t'. TimeDECSubMinute t v = Some (True, t') \<and> valid_time t' \<and> Second t' = Second t \<and>
    minutes_of t' = (minutes_of t - int v) mod (CENTURY_DAYS * 24 * 60)"
proof (cases "Minute t < v")
  case True
  let ?V = "v - Minute t" let ?s = "t\<lparr>Minute := ?V mod 60\<rparr>"
  have vs: "valid_time ?s" using assms by (simp add: valid_time_def)
  have ds: "hours_of ?s = hours_of t" by (simp add: hours_of_def day_number_def month_index_def)
  obtain s where s: "TimeDECSubHour ?s ((if ?V mod 60 \<noteq> 0 then 1 else 0) + ?V div 60) = Some (True, s)" "valid_time s"
      "Minute s = ?V mod 60" "Second s = Second t"
      "hours_of s = (hours_of t - int ((if ?V mod 60 \<noteq> 0 then 1 else 0) + ?V div 60)) mod (CENTURY_DAYS * 24)"
    using sub_hour_counts [OF vs, of "(if ?V mod 60 \<noteq> 0 then 1 else 0) + ?V div 60"] unfolding ds by auto
  let ?t' = "s\<lparr>Minute := if ?V mod 60 \<noteq> 0 then 60 - ?V mod 60 else 0\<rparr>"
  have "minutes_of ?t' = hours_of s * 60 + int (if ?V mod 60 \<noteq> 0 then 60 - ?V mod 60 else 0)"
    by (simp add: minutes_of_def hours_of_def day_number_def month_index_def)
  also have "\<dots> = (hours_of t * int 60 - int ?V) mod (CENTURY_DAYS * 24 * int 60)"
    unfolding s(5) using borrow_radix [of 60 "CENTURY_DAYS * 24" "hours_of t" ?V] by simp
  finally have "minutes_of ?t' = (minutes_of t - int v) mod (CENTURY_DAYS * 24 * 60)"
    using True by (simp add: minutes_of_def algebra_simps)
  moreover have "valid_time ?t'" using s(2) by (simp add: valid_time_def)
  moreover have "TimeDECSubMinute t v = Some (True, ?t')"
    using assms True s(1,3) by (simp add: TimeDECSubMinute_def)
  ultimately show ?thesis using s(4) by auto
next
  case False
  let ?t' = "t\<lparr>Minute := Minute t - v\<rparr>"
  have "TimeDECSubMinute t v = Some (True, ?t')" and v: "valid_time ?t'"
    using assms False by (auto simp: TimeDECSubMinute_def valid_time_def)
  moreover have "minutes_of ?t' = minutes_of t - int v"
    using False by (simp add: minutes_of_def hours_of_def day_number_def month_index_def)
  ultimately show ?thesis using minutes_range [OF v] by simp
qed

lemma sub_second_counts:
  assumes "valid_time t"
  shows "\<exists>t'. TimeDECSubSecond t v = Some (True, t') \<and> valid_time t' \<and>
    seconds_of t' = (seconds_of t - int v) mod (CENTURY_DAYS * 86400)"
proof (cases "Second t < v")
  case True
  let ?V = "v - Second t" let ?s = "t\<lparr>Second := ?V mod 60\<rparr>"
  have vs: "valid_time ?s" using assms by (simp add: valid_time_def)
  have ds: "minutes_of ?s = minutes_of t" by (simp add: minutes_of_def hours_of_def day_number_def month_index_def)
  obtain s where s: "TimeDECSubMinute ?s ((if ?V mod 60 \<noteq> 0 then 1 else 0) + ?V div 60) = Some (True, s)" "valid_time s"
      "Second s = ?V mod 60"
      "minutes_of s = (minutes_of t - int ((if ?V mod 60 \<noteq> 0 then 1 else 0) + ?V div 60)) mod (CENTURY_DAYS * 24 * 60)"
    using sub_minute_counts [OF vs, of "(if ?V mod 60 \<noteq> 0 then 1 else 0) + ?V div 60"] unfolding ds by auto
  let ?t' = "s\<lparr>Second := if ?V mod 60 \<noteq> 0 then 60 - ?V mod 60 else 0\<rparr>"
  have "seconds_of ?t' = minutes_of s * 60 + int (if ?V mod 60 \<noteq> 0 then 60 - ?V mod 60 else 0)"
    by (simp add: seconds_of_def minutes_of_def hours_of_def day_number_def month_index_def)
  also have "\<dots> = (minutes_of t * int 60 - int ?V) mod (CENTURY_DAYS * 24 * 60 * int 60)"
    unfolding s(4) using borrow_radix [of 60 "CENTURY_DAYS * 24 * 60" "minutes_of t" ?V] by simp
  finally have "seconds_of ?t' = (seconds_of t - int v) mod (CENTURY_DAYS * 86400)"
    using True by (simp add: seconds_of_def algebra_simps)
  moreover have "valid_time ?t'" using s(2) by (simp add: valid_time_def)
  moreover have "TimeDECSubSecond t v = Some (True, ?t')"
    using assms True s(1,3) by (simp add: TimeDECSubSecond_def)
  ultimately show ?thesis by auto
next
  case False
  let ?t' = "t\<lparr>Second := Second t - v\<rparr>"
  have "TimeDECSubSecond t v = Some (True, ?t')" and v: "valid_time ?t'"
    using assms False by (auto simp: TimeDECSubSecond_def valid_time_def)
  moreover have "seconds_of ?t' = seconds_of t - int v"
    using False by (simp add: seconds_of_def minutes_of_def hours_of_def day_number_def month_index_def)
  ultimately show ?thesis using seconds_range [OF v] by simp
qed

end
