(* ===== verification/TimeDiff.thy ===== *)
theory TimeDiff imports Prelude TimeLib TimeCalendar TimeArith
begin

text \<open>
  Comparing times, the distance between two times, time stamps and the day of the week
  (\<open>usdl_time.c\<close>).
\<close>

subsection \<open>Order and difference\<close>

lemma earlier_month:
  assumes "valid_time a" "valid_time b" "month_index a < month_index b"
  shows "day_number a < day_number b"
proof -
  have "int (days_to (month_index a)) + int (days_in (month_index a)) \<le> int (days_to (month_index b))"
    using days_to_mono [of "Suc (month_index a)" "month_index b"] assms(3) by simp
  moreover have "int (Day a) \<le> int (days_in (month_index a))" "1 \<le> int (Day b)"
    using assms(1,2) valid_month(2) [OF assms(1)] by (simp_all add: valid_time_def)
  ultimately show ?thesis unfolding day_number_def by linarith
qed

lemma seconds_order:
  assumes "valid_time a" "valid_time b"
  shows "day_number a < day_number b \<Longrightarrow> seconds_of a < seconds_of b"
    "day_number a = day_number b \<Longrightarrow> Hour a < Hour b \<Longrightarrow> seconds_of a < seconds_of b"
    "day_number a = day_number b \<Longrightarrow> Hour a = Hour b \<Longrightarrow> Minute a < Minute b \<Longrightarrow> seconds_of a < seconds_of b"
  using assms by (simp_all add: seconds_of_def minutes_of_def hours_of_def valid_time_def)

lemma TimeComp_early:
  assumes "valid_time a" "valid_time b" "TimeComp a b = TIME_EARLY"
  shows "month_index a \<le> month_index b \<and> seconds_of a < seconds_of b"
proof -
  have m: "1 \<le> Month a" "Month a \<le> 12" "1 \<le> Month b" "Month b \<le> 12" using assms(1,2) by (simp_all add: valid_time_def)
  consider "month_index a < month_index b"
    | "month_index a = month_index b" "Day a < Day b"
    | "month_index a = month_index b" "Day a = Day b" "Hour a < Hour b"
    | "month_index a = month_index b" "Day a = Day b" "Hour a = Hour b" "Minute a < Minute b"
    | "month_index a = month_index b" "Day a = Day b" "Hour a = Hour b" "Minute a = Minute b" "Second a < Second b"
  proof -
    have "Year a < Year b \<or> Year a = Year b \<and> Month a < Month b \<Longrightarrow> month_index a < month_index b"
      using m by (auto simp: month_index_def)
    moreover have "Year a = Year b \<and> Month a = Month b \<Longrightarrow> month_index a = month_index b" by (simp add: month_index_def)
    ultimately show ?thesis using assms(3) that by (auto simp: TimeComp_def time_bytes_def split: if_splits)
  qed
  then show ?thesis
  proof cases
    case 1 then show ?thesis using earlier_month [OF assms(1,2)] seconds_order(1) [OF assms(1,2)] by simp
  next
    case 2 then show ?thesis using seconds_order(1) [OF assms(1,2)] by (simp add: day_number_def)
  next
    case 3 then show ?thesis using seconds_order(2) [OF assms(1,2)] by (simp add: day_number_def)
  next
    case 4 then show ?thesis using seconds_order(3) [OF assms(1,2)] by (simp add: day_number_def)
  next
    case 5 then show ?thesis by (simp add: seconds_of_def minutes_of_def hours_of_def day_number_def)
  qed
qed

lemma comp_bytes_sym: "length as = length bs \<Longrightarrow> comp_bytes as bs = TIME_LATE \<longleftrightarrow> comp_bytes bs as = TIME_EARLY"
  by (induction as bs rule: comp_bytes.induct) auto

lemma TimeComp_sym: "TimeComp a b = TIME_LATE \<longleftrightarrow> TimeComp b a = TIME_EARLY"
  unfolding TimeComp_def by (rule comp_bytes_sym) (simp add: time_bytes_def)

lemma TimeComp_cases: "TimeComp a b = TIME_EARLY \<or> TimeComp a b = TIME_LATE \<or> TimeComp a b = TIME_EQUAL \<and> a = b"
  by (cases a; cases b) (auto simp: TimeComp_def time_bytes_def)

lemma seconds_inj:
  assumes "valid_time a" "valid_time b" "seconds_of a = seconds_of b"
  shows "a = b"
  using TimeComp_cases [of a b] TimeComp_early [OF assms(1,2)] TimeComp_early [OF assms(2,1)] TimeComp_sym [of a b] assms(3)
  by auto

lemma month_index_inj:
  assumes "1 \<le> m" "m \<le> 12" "1 \<le> m2" "m2 \<le> 12" "12 * y + (m - 1) = 12 * y2 + (m2 - (1 :: nat))"
  shows "y = y2 \<and> m = m2"
proof -
  obtain j j2 where j: "m = Suc j" "m2 = Suc j2" using assms(1,3) by (cases m; cases m2) auto
  have "(12 * y + j) div 12 = (12 * y2 + j2) div 12" "(12 * y + j) mod 12 = (12 * y2 + j2) mod 12"
    using assms(5) unfolding j by simp_all
  then show ?thesis using assms(2,4) unfolding j by simp
qed

lemma month_index_split:
  assumes "1 \<le> m" "m \<le> 12" "k = 12 * y + (m - (1 :: nat))"
  shows "k div 12 = y" "k mod 12 + 1 = m"
    "m = 12 \<Longrightarrow> Suc k = 12 * (y + 1) + (1 - 1)" "m \<noteq> 12 \<Longrightarrow> Suc k = 12 * y + (m + 1 - 1)"
proof -
  obtain j where j: "m = Suc j" using assms(1) by (cases m) auto
  show "k div 12 = y" "k mod 12 + 1 = m" "m = 12 \<Longrightarrow> Suc k = 12 * (y + 1) + (1 - 1)"
    "m \<noteq> 12 \<Longrightarrow> Suc k = 12 * y + (m + 1 - 1)"
    using assms unfolding j by simp_all
qed

lemma sum_months_counts:
  assumes "y \<le> 99" "1 \<le> m" "m \<le> 12" "y2 \<le> 99" "1 \<le> m2" "m2 \<le> 12" "k = 12 * y + (m - 1)" "k2 = 12 * y2 + (m2 - 1)"
    "k \<le> k2" "k2 - k \<le> fuel" "acc < 4294967296"
  shows "sum_months fuel u y m y2 m2 acc = Some ((acc + u * (days_to k2 - days_to k)) mod 4294967296)"
  using assms
proof (induction fuel arbitrary: y m k acc)
  case 0
  have k: "k = k2" using 0(9,10) by simp
  then have "y = y2 \<and> m = m2" using month_index_inj [OF 0(2,3,5,6)] unfolding 0(7,8) by blast
  then show ?case using k 0(11) by (subst sum_months.simps) simp
next
  case (Suc fuel)
  show ?case
  proof (cases "k = k2")
    case True
    then have "y = y2 \<and> m = m2" using month_index_inj [OF Suc.prems(2,3,5,6)] unfolding Suc.prems(7,8) by blast
    then show ?thesis using Suc.prems(11) True by (subst sum_months.simps) simp
  next
    case False
    then have lt: "k < k2" using Suc.prems(9) by simp
    then have ne: "\<not> (y = y2 \<and> m = m2)" unfolding Suc.prems(7,8) by blast
    note kdm = month_index_split [OF Suc.prems(2,3,7)]
    have rd: "TimeMonthDays y m = Some (days_in k)"
      using TimeMonthDays_eq [OF Suc.prems(1,2,3)] kdm(1,2) by (simp add: days_in_def)
    let ?acc = "u32_add acc (u32_mul (days_in k) u)"
    have acc: "?acc < 4294967296" by (simp add: u32_add_def)
    have le: "Suc k \<le> k2" "k2 - Suc k \<le> fuel" using lt Suc.prems(10) by simp_all
    have d: "days_to (Suc k) \<le> days_to k2" using days_to_mono [OF le(1)] .
    have "sum_months (Suc fuel) u y m y2 m2 acc =
        (if m = 12 then sum_months fuel u (y + 1) 1 y2 m2 ?acc else sum_months fuel u y (m + 1) y2 m2 ?acc)"
      by (subst sum_months.simps) (simp add: ne rd Let_def split del: if_split cong: if_weak_cong)
    also have "\<dots> = Some ((?acc + u * (days_to k2 - days_to (Suc k))) mod 4294967296)"
    proof (cases "m = 12")
      case True
      have "y + 1 \<le> 99" using div_le_mono [OF le(1), of 12] month_index_split(1) [OF Suc.prems(5,6,8)] Suc.prems(4) kdm(3) [OF True] by simp
      then show ?thesis
        using Suc.IH [OF _ _ _ Suc.prems(4,5,6) kdm(3) [OF True] Suc.prems(8) le acc] True by simp
    next
      case False
      then have "m + 1 \<le> 12" using Suc.prems(3) by simp
      then show ?thesis
        using Suc.IH [OF Suc.prems(1) _ _ Suc.prems(4,5,6) kdm(4) [OF False] Suc.prems(8) le acc] False by simp
    qed
    also have "(?acc + u * (days_to k2 - days_to (Suc k))) mod 4294967296 =
        (acc + u * days_in k + u * (days_to k2 - days_to (Suc k))) mod 4294967296"
      unfolding u32_add_def u32_mul_def by (simp only: mod_add_left_eq mod_add_right_eq mult.commute)
    also have "acc + u * days_in k + u * (days_to k2 - days_to (Suc k)) = acc + u * (days_to k2 - days_to k)"
    proof -
      have "days_to k2 - days_to k = days_in k + (days_to k2 - days_to (Suc k))" using d by simp
      then show ?thesis by (simp only: distrib_left add.assoc)
    qed
    finally show ?thesis .
  qed
qed


lemma seconds_zero: "seconds_of INIT_TIME = 0" "valid_time INIT_TIME"
  by (simp_all add: seconds_of_def minutes_of_def hours_of_def day_number_def month_index_def INIT_TIME_def
    valid_time_def month_days_def)

lemma sub_months:
  assumes "valid_time a" "valid_time b" "month_index a \<le> month_index b" "u \<le> 86400"
  shows "sum_months 1200 u (Year a) (Month a) (Year b) (Month b) 0 =
    Some (u * (days_to (month_index b) - days_to (month_index a)))"
proof -
  have m: "Year a \<le> 99" "1 \<le> Month a" "Month a \<le> 12" "Year b \<le> 99" "1 \<le> Month b" "Month b \<le> 12"
    using assms(1,2) by (simp_all add: valid_time_def)
  have f: "month_index b - month_index a \<le> 1200" using valid_month(1) [OF assms(2)] by simp
  have "u * (days_to (month_index b) - days_to (month_index a)) \<le> 86400 * 36525"
    using valid_month(4) [OF assms(2)] assms(4) by (intro mult_le_mono) auto
  then have "(0 + u * (days_to (month_index b) - days_to (month_index a))) mod 4294967296 =
      u * (days_to (month_index b) - days_to (month_index a))" by simp
  then show ?thesis
    using sum_months_counts [OF m month_index_def month_index_def assms(3) f, of 0 u] by simp
qed

lemma to_u32_small: "0 \<le> n \<Longrightarrow> n < 4294967296 \<Longrightarrow> to_u32 n = nat n"
  by (simp add: to_u32_def)

lemma seconds_diff:
  assumes "valid_time a" "valid_time b" "month_index a \<le> month_index b" "seconds_of a \<le> seconds_of b"
  shows "to_u32 (int (86400 * (days_to (month_index b) - days_to (month_index a))) + (int (Day b) - int (Day a)) * 86400 +
      (int (Hour b) - int (Hour a)) * 3600 + (int (Minute b) - int (Minute a)) * 60 + (int (Second b) - int (Second a))) =
    nat (seconds_of b - seconds_of a)"
proof -
  have "int (days_to (month_index b) - days_to (month_index a)) =
      int (days_to (month_index b)) - int (days_to (month_index a))"
    using days_to_mono [OF assms(3)] by simp
  then have "int (86400 * (days_to (month_index b) - days_to (month_index a))) + (int (Day b) - int (Day a)) * 86400 +
      (int (Hour b) - int (Hour a)) * 3600 + (int (Minute b) - int (Minute a)) * 60 + (int (Second b) - int (Second a)) =
    seconds_of b - seconds_of a"
    by (simp add: seconds_of_def minutes_of_def hours_of_def day_number_def algebra_simps)
  then show ?thesis
    using to_u32_small [of "seconds_of b - seconds_of a"] assms(4) seconds_range [OF assms(1)] seconds_range [OF assms(2)]
    by simp
qed

lemma ordered_times:
  assumes "valid_time a" "valid_time b"
  obtains t1 t2 where "(if TimeComp a b = TIME_LATE then TimeSwap a b else (a, b)) = (t1, t2)"
    "valid_time t1" "valid_time t2" "month_index t1 \<le> month_index t2" "seconds_of t1 \<le> seconds_of t2"
    "{t1, t2} = {a, b}"
proof (cases "TimeComp a b = TIME_LATE")
  case True
  then show ?thesis
    using that [of b a] TimeComp_early [OF assms(2,1)] TimeComp_sym [of a b] assms by (auto simp: TimeSwap_def)
next
  case False
  then have "TimeComp a b = TIME_EARLY \<or> a = b" using TimeComp_cases [of a b] by auto
  then show ?thesis using that [of a b] TimeComp_early [OF assms] assms False by auto
qed

lemma sub_time_counts:
  assumes "valid_time a" "valid_time b"
  shows "TimeDECSubTime a b = Some (nat \<bar>seconds_of a - seconds_of b\<bar>)"
proof -
  obtain t1 t2 where t: "(if TimeComp a b = TIME_LATE then TimeSwap a b else (a, b)) = (t1, t2)"
      "valid_time t1" "valid_time t2" "month_index t1 \<le> month_index t2" "seconds_of t1 \<le> seconds_of t2" "{t1, t2} = {a, b}"
    using ordered_times [OF assms] .
  have "TimeDECSubTime a b = Some (nat (seconds_of t2 - seconds_of t1))"
    using assms sub_months [OF t(2-4), of 86400] seconds_diff [OF t(2-5)]
    unfolding TimeDECSubTime_def t(1) by simp
  moreover have "seconds_of t2 - seconds_of t1 = \<bar>seconds_of a - seconds_of b\<bar>"
    using t(5,6) by (auto simp: doubleton_eq_iff)
  ultimately show ?thesis by simp
qed

text \<open>Fact. The difference of two times is the number of seconds between them, in either order.\<close>

theorem TimeDECSubTime_is_distance:
  assumes "valid_time a" "valid_time b"
  shows "TimeDECSubTime a b = Some (nat \<bar>seconds_of a - seconds_of b\<bar>)"
  by (rule sub_time_counts [OF assms])

theorem TimeDECSubTime_is_distance_witness:
  "TimeDECSubTime (INIT_TIME\<lparr>Day := 3\<rparr>) INIT_TIME = Some 172800"
proof -
  have v: "valid_time (INIT_TIME\<lparr>Day := 3\<rparr>)" by (simp add: INIT_TIME_def valid_time_def month_days_def)
  have "seconds_of (INIT_TIME\<lparr>Day := 3\<rparr>) = 172800"
    by (simp add: seconds_of_def minutes_of_def hours_of_def day_number_def month_index_def INIT_TIME_def)
  then show ?thesis using TimeDECSubTime_is_distance [OF v seconds_zero(2)] seconds_zero(1) by simp
qed

lemma add_sub_seconds:
  assumes "valid_time t" "v + Second t < 4294967296" "v < 3155760000"
  shows "\<exists>t'. TimeDECAddSecond t v = Some (True, t') \<and> valid_time t' \<and>
      seconds_of t' = (seconds_of t + int v) mod 3155760000 \<and> TimeDECSubSecond t' v = Some (True, t)"
proof -
  obtain t' where t': "TimeDECAddSecond t v = Some (True, t')" "valid_time t'"
      "seconds_of t' = (seconds_of t + int v) mod 3155760000"
    using add_second_counts [OF assms(1,2)] by auto
  obtain s where s: "TimeDECSubSecond t' v = Some (True, s)" "valid_time s"
      "seconds_of s = (seconds_of t' - int v) mod 3155760000"
    using sub_second_counts [OF t'(2), of v] by auto
  have "seconds_of s = seconds_of t mod 3155760000" unfolding s(3) t'(3) by (simp add: mod_simps)
  then have "seconds_of s = seconds_of t" using seconds_range [OF assms(1)] by simp
  then have "s = t" using seconds_inj [OF s(2) assms(1)] by simp
  then show ?thesis using t' s(1) by blast
qed

lemma to_stamp_counts: "valid_time t \<Longrightarrow> TimeDECToStamp t = Some (nat (seconds_of t) + 1)"
proof -
  assume t: "valid_time t"
  then have "nat (seconds_of t) < 3155760000" "0 \<le> seconds_of t" using seconds_range [of t] by (simp_all add: nat_less_iff)
  then show ?thesis using t sub_time_counts [OF t seconds_zero(2)] seconds_zero(1)
    by (simp add: TimeDECToStamp_def u32_add_def)
qed

lemma stamp_to_time_counts:
  assumes "n \<noteq> 0" "n \<le> 3155760000"
  shows "\<exists>t. TimeDECStampToTime n = Some t \<and> valid_time t \<and> seconds_of t = int n - 1"
proof -
  have "n - 1 + Second INIT_TIME < 4294967296" using assms(2) by (simp add: INIT_TIME_def)
  then obtain t where "TimeDECAddSecond INIT_TIME (n - 1) = Some (True, t)" "valid_time t"
      "seconds_of t = int (n - 1) mod 3155760000"
    using add_second_counts [OF seconds_zero(2)] seconds_zero(1) by auto
  then show ?thesis using assms by (simp add: TimeDECStampToTime_def of_nat_diff)
qed

text \<open>Property C26. Adding and subtracting seconds is exact modulo the century: a valid time stays valid, its number of
  seconds changes by the value, and subtracting what was added gives the time back.\<close>

theorem TimeDECAddSecond_exact:
  assumes "valid_time t" "v + Second t < 4294967296" "v < 3155760000"
  shows "\<exists>t'. TimeDECAddSecond t v = Some (True, t') \<and> valid_time t' \<and>
      seconds_of t' = (seconds_of t + int v) mod 3155760000 \<and> TimeDECSubSecond t' v = Some (True, t)"
  by (rule add_sub_seconds [OF assms])

theorem TimeDECAddSecond_exact_witness:
  "\<exists>t'. TimeDECAddSecond INIT_TIME 100000 = Some (True, t') \<and> seconds_of t' = 100000 \<and>
    TimeDECSubSecond t' 100000 = Some (True, INIT_TIME)"
proof -
  have "(100000 :: nat) + Second INIT_TIME < 4294967296" by (simp add: INIT_TIME_def)
  then show ?thesis using TimeDECAddSecond_exact [OF seconds_zero(2), of 100000] seconds_zero(1) by auto
qed

text \<open>Fact. Time stamps: a valid time has the stamp one more than its seconds and is rebuilt from it; every stamp
  of the century is the stamp of the time it is converted to.\<close>

theorem stamp_roundtrip:
  "(valid_time t \<longrightarrow> (\<exists>n. TimeDECToStamp t = Some n \<and> n = nat (seconds_of t) + 1 \<and> TimeDECStampToTime n = Some t)) \<and>
   (0 < n \<and> n \<le> 3155760000 \<longrightarrow> (\<exists>u. TimeDECStampToTime n = Some u \<and> valid_time u \<and> TimeDECToStamp u = Some n))"
proof (intro conjI impI)
  assume v: "valid_time t"
  have s: "0 \<le> seconds_of t" "seconds_of t < 3155760000" using seconds_range [OF v] by simp_all
  have "nat (seconds_of t) + 1 \<noteq> 0" "nat (seconds_of t) + 1 \<le> 3155760000" using s by (simp_all add: nat_less_iff Suc_le_eq)
  from stamp_to_time_counts [OF this] obtain u where
    u: "TimeDECStampToTime (nat (seconds_of t) + 1) = Some u" "valid_time u" "seconds_of u = seconds_of t"
    using s by auto
  then have "u = t" using seconds_inj [OF _ v] by simp
  then show "\<exists>n. TimeDECToStamp t = Some n \<and> n = nat (seconds_of t) + 1 \<and> TimeDECStampToTime n = Some t"
    using u(1) to_stamp_counts [OF v] by simp
next
  assume n: "0 < n \<and> n \<le> 3155760000"
  then obtain u where u: "TimeDECStampToTime n = Some u" "valid_time u" "seconds_of u = int n - 1"
    using stamp_to_time_counts [of n] by auto
  then show "\<exists>u. TimeDECStampToTime n = Some u \<and> valid_time u \<and> TimeDECToStamp u = Some n"
    using to_stamp_counts [OF u(2)] n by (auto simp: nat_diff_distrib)
qed

theorem stamp_roundtrip_witness:
  "\<exists>u. TimeDECStampToTime 86401 = Some u \<and> valid_time u \<and> TimeDECToStamp u = Some 86401"
  using stamp_roundtrip [of INIT_TIME 86401] by simp

subsection \<open>The day of the week\<close>

lemma days_to_month:
  "days_to (12 * y) = 365 * y + (y + 3) div 4" "days_to (12 * y + 1) = 365 * y + (y + 3) div 4 + 31"
  "days_to (12 * y + 2) = 365 * y + (y + 3) div 4 + 59 + leap y" "days_to (12 * y + 3) = 365 * y + (y + 3) div 4 + 90 + leap y"
  "days_to (12 * y + 4) = 365 * y + (y + 3) div 4 + 120 + leap y" "days_to (12 * y + 5) = 365 * y + (y + 3) div 4 + 151 + leap y"
  "days_to (12 * y + 6) = 365 * y + (y + 3) div 4 + 181 + leap y" "days_to (12 * y + 7) = 365 * y + (y + 3) div 4 + 212 + leap y"
  "days_to (12 * y + 8) = 365 * y + (y + 3) div 4 + 243 + leap y" "days_to (12 * y + 9) = 365 * y + (y + 3) div 4 + 273 + leap y"
  "days_to (12 * y + 10) = 365 * y + (y + 3) div 4 + 304 + leap y" "days_to (12 * y + 11) = 365 * y + (y + 3) div 4 + 334 + leap y"
proof -
  have m: "(12 * y + i) div 12 = y" "(12 * y + i) mod 12 = i" if "i < 12" for i using that by simp_all
  have d: "days_in (12 * y + i) = month_days y (i + 1)" if "i < 12" for i using m [OF that] by (simp add: days_in_def)
  have s: "days_to (12 * y + Suc i) = days_to (12 * y + i) + month_days y (i + 1)" if "i < 12" for i
    using d [OF that] by simp
  show 0: "days_to (12 * y) = 365 * y + (y + 3) div 4" by (rule days_to_year)
  show 1: "days_to (12 * y + 1) = 365 * y + (y + 3) div 4 + 31" using s [of 0] 0 by (simp add: month_days_def)
  show 2: "days_to (12 * y + 2) = 365 * y + (y + 3) div 4 + 59 + leap y" using s [of 1] 1 by (simp add: month_days_def)
  show 3: "days_to (12 * y + 3) = 365 * y + (y + 3) div 4 + 90 + leap y" using s [of 2] 2 by (simp add: month_days_def)
  show 4: "days_to (12 * y + 4) = 365 * y + (y + 3) div 4 + 120 + leap y" using s [of 3] 3 by (simp add: month_days_def)
  show 5: "days_to (12 * y + 5) = 365 * y + (y + 3) div 4 + 151 + leap y" using s [of 4] 4 by (simp add: month_days_def)
  show 6: "days_to (12 * y + 6) = 365 * y + (y + 3) div 4 + 181 + leap y" using s [of 5] 5 by (simp add: month_days_def)
  show 7: "days_to (12 * y + 7) = 365 * y + (y + 3) div 4 + 212 + leap y" using s [of 6] 6 by (simp add: month_days_def)
  show 8: "days_to (12 * y + 8) = 365 * y + (y + 3) div 4 + 243 + leap y" using s [of 7] 7 by (simp add: month_days_def)
  show 9: "days_to (12 * y + 9) = 365 * y + (y + 3) div 4 + 273 + leap y" using s [of 8] 8 by (simp add: month_days_def)
  show 10: "days_to (12 * y + 10) = 365 * y + (y + 3) div 4 + 304 + leap y" using s [of 9] 9 by (simp add: month_days_def)
  show 11: "days_to (12 * y + 11) = 365 * y + (y + 3) div 4 + 334 + leap y" using s [of 10] 10 by (simp add: month_days_def)
qed

text \<open>With \<open>y = 4 * q + r\<close> the formula of the code and the day count are linear in \<open>q\<close> and \<open>r\<close>.\<close>

definition year_terms :: "nat \<Rightarrow> nat" where
  "year_terms year = year + year div 4 - year div 100 + year div 400"

lemma year_terms_late:
  assumes "y = 4 * q + r" "r < 4" "q \<le> 24"
  shows "year_terms (2000 + y) = 5 * q + r + 2485"
proof -
  have "(2000 + y) div 4 = 500 + q" using assms(1,2) by simp
  moreover have "(2000 + y) div 100 = 20" "(2000 + y) div 400 = 5" using assms by (auto intro!: div_nat_eqI)
  ultimately show ?thesis using assms(1) by (simp add: year_terms_def)
qed

lemma year_terms_early:
  assumes "y = 4 * q + r" "r < 4" "q \<le> 24"
  shows "year_terms (2000 + y - 1) = 5 * q + r + (if r = 0 then 2483 else 2484)"
proof (cases "y = 0")
  case False
  have "(2000 + y - 1) div 4 = (if r = 0 then 499 + q else 500 + q)" using assms(1,2) by (auto intro!: div_nat_eqI)
  moreover have "(2000 + y - 1) div 100 = 20" "(2000 + y - 1) div 400 = 5" using assms False by (auto intro!: div_nat_eqI)
  ultimately show ?thesis using assms(1) by (simp add: year_terms_def)
qed (use assms in \<open>simp add: year_terms_def\<close>)

lemma weeks:
  assumes "a mod 7 = b mod (7 :: nat)"
  shows "(d + (5 * q + r) + a) mod 7 = (d + 1461 * q + 365 * r + b) mod 7"
proof -
  have "d + 1461 * q + 365 * r + b = d + (5 * q + r) + b + 7 * (208 * q + 52 * r)" by simp
  then have "(d + 1461 * q + 365 * r + b) mod 7 = (d + (5 * q + r) + b) mod 7" by (metis mod_mult_self2)
  then show ?thesis using mod_add_cong [OF refl assms] by simp
qed

lemma weekday_late:
  assumes "y = 4 * q + r" "r < 4" "q \<le> 24" "k = 365 * y + (y + 3) div 4 + c + leap y" "(a + 2485) mod 7 = (c + 5) mod 7"
  shows "(d + a + year_terms (2000 + y)) mod 7 = (k + d + 4) mod 7"
proof -
  have "(y + 3) div 4 = (if r = 0 then q else q + 1)" "leap y = (if r = 0 then 1 else 0)"
    using assms(1,2) by (auto simp: leap_def intro!: div_nat_eqI)
  then have k: "k + d + 4 = d + 1461 * q + 365 * r + (c + 5)" using assms(1,4) by simp
  have t: "d + a + year_terms (2000 + y) = d + (5 * q + r) + (a + 2485)"
    using year_terms_late [OF assms(1-3)] by simp
  show ?thesis unfolding k t by (rule weeks [OF assms(5)])
qed

lemma weekday_early:
  assumes "y = 4 * q + r" "r < 4" "q \<le> 24" "k = 365 * y + (y + 3) div 4 + c" "(a + 2483) mod 7 = (c + 4) mod 7"
  shows "(d + a + year_terms (2000 + y - 1)) mod 7 = (k + d + 4) mod 7"
proof -
  have "(y + 3) div 4 = (if r = 0 then q else q + 1)"
    using assms(1,2) by (auto intro!: div_nat_eqI)
  then have k: "k + d + 4 = d + 1461 * q + 365 * r + (c + 4 + (if r = 0 then 0 else 1))" using assms(1,4) by simp
  have t: "d + a + year_terms (2000 + y - 1) = d + (5 * q + r) + (a + 2483 + (if r = 0 then 0 else 1))"
    using year_terms_early [OF assms(1-3)] by simp
  show ?thesis unfolding k t by (rule weeks [OF mod_add_cong [OF assms(5) refl]])
qed

lemma weekday_counts:
  assumes "y \<le> 99" "1 \<le> m" "m \<le> 12"
  shows "(if m = 1 \<or> m = 2 then (d + (2 * (m + 12) + 3 * (m + 12 + 1) div 5) + year_terms (2000 + y - 1)) mod 7
      else (d + (2 * m + 3 * (m + 1) div 5) + year_terms (2000 + y)) mod 7) =
    (days_to (12 * y + (m - 1)) + d + 4) mod 7"
proof -
  have y: "y = 4 * (y div 4) + y mod 4" "y mod 4 < 4" "y div 4 \<le> 24" using assms(1) by simp_all
  note late = weekday_late [OF y] and early = weekday_early [OF y] and dm = days_to_month [of y]
  have w1: "(d + 34 + year_terms (2000 + y - 1)) mod 7 = (days_to (12 * y) + d + 4) mod 7"
    by (rule early [where c = 0]) (simp_all only: dm, simp_all)
  have w2: "(d + 37 + year_terms (2000 + y - 1)) mod 7 = (days_to (12 * y + 1) + d + 4) mod 7"
    by (rule early [where c = 31]) (simp_all only: dm, simp_all)
  have w3: "(d + 8 + year_terms (2000 + y)) mod 7 = (days_to (12 * y + 2) + d + 4) mod 7"
    by (rule late [where c = 59]) (simp_all only: dm, simp_all)
  have w4: "(d + 11 + year_terms (2000 + y)) mod 7 = (days_to (12 * y + 3) + d + 4) mod 7"
    by (rule late [where c = 90]) (simp_all only: dm, simp_all)
  have w5: "(d + 13 + year_terms (2000 + y)) mod 7 = (days_to (12 * y + 4) + d + 4) mod 7"
    by (rule late [where c = 120]) (simp_all only: dm, simp_all)
  have w6: "(d + 16 + year_terms (2000 + y)) mod 7 = (days_to (12 * y + 5) + d + 4) mod 7"
    by (rule late [where c = 151]) (simp_all only: dm, simp_all)
  have w7: "(d + 18 + year_terms (2000 + y)) mod 7 = (days_to (12 * y + 6) + d + 4) mod 7"
    by (rule late [where c = 181]) (simp_all only: dm, simp_all)
  have w8: "(d + 21 + year_terms (2000 + y)) mod 7 = (days_to (12 * y + 7) + d + 4) mod 7"
    by (rule late [where c = 212]) (simp_all only: dm, simp_all)
  have w9: "(d + 24 + year_terms (2000 + y)) mod 7 = (days_to (12 * y + 8) + d + 4) mod 7"
    by (rule late [where c = 243]) (simp_all only: dm, simp_all)
  have w10: "(d + 26 + year_terms (2000 + y)) mod 7 = (days_to (12 * y + 9) + d + 4) mod 7"
    by (rule late [where c = 273]) (simp_all only: dm, simp_all)
  have w11: "(d + 29 + year_terms (2000 + y)) mod 7 = (days_to (12 * y + 10) + d + 4) mod 7"
    by (rule late [where c = 304]) (simp_all only: dm, simp_all)
  have w12: "(d + 31 + year_terms (2000 + y)) mod 7 = (days_to (12 * y + 11) + d + 4) mod 7"
    by (rule late [where c = 334]) (simp_all only: dm, simp_all)
  have "m = 1 \<or> m = 2 \<or> m = 3 \<or> m = 4 \<or> m = 5 \<or> m = 6 \<or> m = 7 \<or> m = 8 \<or> m = 9 \<or> m = 10 \<or> m = 11 \<or> m = 12"
    using assms(2,3) by arith
  then show ?thesis
  proof (elim disjE)
    assume m: "m = 1" show ?thesis unfolding m using w1 by (simp del: days_to.simps)
  next
    assume m: "m = 2" show ?thesis unfolding m using w2 by (simp del: days_to.simps)
  next
    assume m: "m = 3" show ?thesis unfolding m using w3 by (simp del: days_to.simps)
  next
    assume m: "m = 4" show ?thesis unfolding m using w4 by (simp del: days_to.simps)
  next
    assume m: "m = 5" show ?thesis unfolding m using w5 by (simp del: days_to.simps)
  next
    assume m: "m = 6" show ?thesis unfolding m using w6 by (simp del: days_to.simps)
  next
    assume m: "m = 7" show ?thesis unfolding m using w7 by (simp del: days_to.simps)
  next
    assume m: "m = 8" show ?thesis unfolding m using w8 by (simp del: days_to.simps)
  next
    assume m: "m = 9" show ?thesis unfolding m using w9 by (simp del: days_to.simps)
  next
    assume m: "m = 10" show ?thesis unfolding m using w10 by (simp del: days_to.simps)
  next
    assume m: "m = 11" show ?thesis unfolding m using w11 by (simp del: days_to.simps)
  next
    assume m: "m = 12" show ?thesis unfolding m using w12 by (simp del: days_to.simps)
  qed
qed

lemma week_day_counts:
  assumes "valid_time t"
  shows "TimeDECWeekDay t = Some (nat ((day_number t + 5) mod 7))"
proof -
  have m: "Year t \<le> 99" "1 \<le> Month t" "Month t \<le> 12" "1 \<le> Day t" using assms by (simp_all add: valid_time_def)
  have terms: "a + year + year div 4 - year div 100 + year div 400 = a + year_terms year" for a year :: nat
  proof -
    have "year div 100 \<le> year" by simp
    then show ?thesis by (simp add: year_terms_def)
  qed
  have "TimeDECWeekDay t = Some ((days_to (12 * Year t + (Month t - 1)) + Day t + 4) mod 7)"
    unfolding weekday_counts [OF m(1-3), of "Day t", symmetric] TimeDECWeekDay_def TimeDECCheck_eq
    by (cases "Month t = 1 \<or> Month t = 2")
      (simp_all only: assms bind.bind_lunit not_True_eq_False if_True if_False Let_def prod.case terms add.assoc [symmetric])
  moreover have "day_number t + 5 = int (days_to (month_index t) + Day t + 4)" by (simp add: day_number_def)
  then have "nat ((day_number t + 5) mod 7) = (days_to (month_index t) + Day t + 4) mod 7"
    by (metis nat_int of_nat_mod of_nat_numeral)
  ultimately show ?thesis by (simp add: month_index_def)
qed

text \<open>Fact. The day of the week of a valid time is counted from Saturday, 1 January 2000 (Monday is 0), and an
  invalid time is answered with 7.\<close>

theorem TimeDECWeekDay_counts:
  "TimeDECWeekDay t = Some (if valid_time t then nat ((day_number t + 5) mod 7) else 7)"
  using week_day_counts [of t] by (simp add: TimeDECWeekDay_def)

lemma diff_day_counts:
  assumes "valid_time a" "valid_time b"
  shows "TimeDECDiffDay a b = Some (nat (\<bar>day_number a - day_number b\<bar> + 1))"
proof -
  obtain t1 t2 where t: "(if TimeComp a b = TIME_LATE then TimeSwap a b else (a, b)) = (t1, t2)"
      "valid_time t1" "valid_time t2" "month_index t1 \<le> month_index t2" "seconds_of t1 \<le> seconds_of t2" "{t1, t2} = {a, b}"
    using ordered_times [OF assms] .
  have le: "day_number t1 \<le> day_number t2"
    using seconds_order(1) [OF t(3,2)] t(5) by linarith
  have "int (days_to (month_index t2) - days_to (month_index t1)) = int (days_to (month_index t2)) - int (days_to (month_index t1))"
    using days_to_mono [OF t(4)] by simp
  then have "int (1 * (days_to (month_index t2) - days_to (month_index t1))) + (int (Day t2) - int (Day t1)) + 1 =
      day_number t2 - day_number t1 + 1" by (simp add: day_number_def)
  then have "TimeDECDiffDay a b = Some (to_u32 (day_number t2 - day_number t1 + 1))"
    using assms sub_months [OF t(2-4), of 1] unfolding TimeDECDiffDay_def t(1) by simp
  moreover have "to_u32 (day_number t2 - day_number t1 + 1) = nat (day_number t2 - day_number t1 + 1)"
    using to_u32_small le day_number_range [OF t(2)] day_number_range [OF t(3)] by simp
  moreover have "day_number t2 - day_number t1 = \<bar>day_number a - day_number b\<bar>"
    using t(6) le by (auto simp: doubleton_eq_iff)
  ultimately show ?thesis by simp
qed

subsection \<open>A month added across the end of a year\<close>

text \<open>
  \<open>TimeDECAddMonth\<close> stores the new month before it calls \<open>TimeDECAddYear\<close>, whose check then sees the
  old day in the new month: late days are refused although \<open>TimeDECFix\<close> stands ready to shorten them.
\<close>

lemma late_day_refused:
  assumes "valid_time t" "12 < v + Month t" "v + Month t < 4294967296" "(v + Month t) mod 12 \<in> {2, 4, 6, 9, 11}"
    "month_days (Year t) ((v + Month t) mod 12) < Day t"
  shows "TimeDECAddMonth t v = Some (False, t\<lparr>Month := (v + Month t) mod 12\<rparr>)"
proof -
  have u: "u32_add v (Month t) = v + Month t" using assms(3) by (simp add: u32_add_def)
  have "\<not> valid_time (t\<lparr>Month := (v + Month t) mod 12\<rparr>)" using assms(5) by (simp add: valid_time_def)
  moreover have "(v + Month t) mod 12 \<noteq> 0" using assms(4) by auto
  ultimately show ?thesis using assms(1,2) by (simp add: TimeDECAddMonth_def TimeDECAddYear_def u Let_def)
qed

text \<open>Fact. Adding months across the end of a year to a day that the target month does not have fails and leaves
  an invalid time behind.\<close>

theorem TimeDECAddMonth_late_day:
  assumes "valid_time t" "12 < v + Month t" "v + Month t < 4294967296" "(v + Month t) mod 12 \<in> {2, 4, 6, 9, 11}"
    "month_days (Year t) ((v + Month t) mod 12) < Day t"
  shows "\<exists>t'. TimeDECAddMonth t v = Some (False, t') \<and> \<not> valid_time t' \<and> TimeDECCheck t' = Some False"
  using late_day_refused [OF assms] assms(5) by (auto simp: valid_time_def)

theorem TimeDECAddMonth_late_day_witness:
  "\<exists>t'. TimeDECAddMonth (INIT_TIME\<lparr>Year := 15, Month := 12, Day := 31\<rparr>) 2 = Some (False, t') \<and> \<not> valid_time t'"
proof -
  let ?t = "INIT_TIME\<lparr>Year := 15, Month := 12, Day := 31\<rparr>"
  have "valid_time ?t" "12 < 2 + Month ?t" "2 + Month ?t < 4294967296" "(2 + Month ?t) mod 12 \<in> {2, 4, 6, 9, 11}"
    "month_days (Year ?t) ((2 + Month ?t) mod 12) < Day ?t"
    by (simp_all add: valid_time_def month_days_def leap_def INIT_TIME_def)
  from TimeDECAddMonth_late_day [OF this] show ?thesis by blast
qed

subsection \<open>Repairing a time\<close>

lemma fix_step_valid: "fix_step t = Some None \<Longrightarrow> valid_time t"
  using TimeMonthDays_eq [of "Year t" "Month t"] by (auto simp: fix_step_def valid_time_def split: if_splits)

lemma fix_step_total: "fix_step t \<noteq> None"
  using TimeMonthDays_eq [of "Year t" "Month t"] by (auto simp: fix_step_def)

lemma fix_loop_valid: "\<exists>flag t'. TimeDECFix_loop t f = Some (flag, t') \<and> valid_time t'"
proof (induction t f rule: TimeDECFix_loop.induct)
  case (1 t f)
  show ?case
  proof (cases "fix_step t")
    case None then show ?thesis using fix_step_total by blast
  next
    case (Some r)
    show ?thesis
    proof (cases r)
      case None
      then show ?thesis using Some fix_step_valid [of t] by (subst TimeDECFix_loop.simps) simp
    next
      case Some2: (Some q)
      obtain t' b where q: "q = (t', b)" by (cases q)
      show ?thesis using 1 [OF Some Some2 q [symmetric]] Some Some2 q by (subst TimeDECFix_loop.simps) simp
    qed
  qed
qed

lemma fix_valid: "valid_time t \<Longrightarrow> TimeDECFix t = Some (0, t)"
  unfolding TimeDECFix_def
  by (subst TimeDECFix_loop.simps) (auto simp: fix_step_def valid_time_def TimeMonthDays_eq)

text \<open>Fact. \<open>TimeDECFix\<close> ends for every time, its result is valid, and a valid time is left alone.\<close>

theorem TimeDECFix_repairs:
  "(\<exists>flag t'. TimeDECFix t = Some (flag, t') \<and> valid_time t') \<and> (valid_time t \<longrightarrow> TimeDECFix t = Some (0, t))"
  using fix_loop_valid [of t 0] fix_valid [of t] by (simp add: TimeDECFix_def)

theorem TimeDECFix_repairs_witness: "TimeDECFix INIT_TIME = Some (0, INIT_TIME)"
  using TimeDECFix_repairs [of INIT_TIME] seconds_zero(2) by simp

end
