(* ===== verification/BootFlash.thy ===== *)
theory BootFlash imports Prelude DataLib FlashIf DevState IapIf
begin

unbundle bit_operations_syntax

text \<open>
  The flash layer of the boot loader (\<open>src/IAP project\<close>): \<open>flash_if.c\<close> and the mode flag and parameter
  functions of \<open>iap_if.c\<close>, which differ from the application's in that they program double words
  through the vendor's HAL, and the three HAL routines they call.  The controller is the parameter
  \<open>hw\<close> of \<open>FlashIf\<close>.  \<open>Flash_Unlock\<close>, \<open>Flash_Lock\<close>, \<open>Flash_Read\<close>, \<open>Get_FlashSize\<close>, \<open>Get_ChipID\<close> and
  \<open>ReadIAPMode\<close> have the same effect as in the application and are taken from there; the others
  carry the prefix \<open>boot_\<close>.  The lock of the HAL's process structure is free at every call and left out.
\<close>

subsection \<open>The routines of the HAL\<close>

datatype HAL_StatusTypeDef = HAL_OK | HAL_ERROR | HAL_BUSY | HAL_TIMEOUT

definition FLASH_WaitForLastOperation :: "flash_dev \<Rightarrow> flash_dev \<times> HAL_StatusTypeDef" where
  "FLASH_WaitForLastOperation d =
     (case sr d of
        FLASH_COMPLETE \<Rightarrow> (d, HAL_OK)
      | FLASH_ERROR_PG \<Rightarrow> (d\<lparr>sr := FLASH_COMPLETE\<rparr>, HAL_ERROR)
      | FLASH_ERROR_WRP \<Rightarrow> (d\<lparr>sr := FLASH_COMPLETE\<rparr>, HAL_ERROR)
      | _ \<Rightarrow> (d, HAL_TIMEOUT))"

definition HAL_FLASH_Unlock :: "flash_dev \<Rightarrow> flash_dev" where
  "HAL_FLASH_Unlock d = d\<lparr>locked := False\<rparr>"

definition HAL_FLASH_Lock :: "flash_dev \<Rightarrow> flash_dev" where
  "HAL_FLASH_Lock d = d\<lparr>locked := True\<rparr>"

abbreviation (input) FLASH_TYPEPROGRAM_HALFWORD :: nat where "FLASH_TYPEPROGRAM_HALFWORD \<equiv> 1"
abbreviation (input) FLASH_TYPEPROGRAM_WORD :: nat where "FLASH_TYPEPROGRAM_WORD \<equiv> 2"
abbreviation (input) FLASH_TYPEPROGRAM_DOUBLEWORD :: nat where "FLASH_TYPEPROGRAM_DOUBLEWORD \<equiv> 3"

fun program_iterations :: "flash_hw \<Rightarrow> flash_dev \<Rightarrow> nat \<Rightarrow> u64 \<Rightarrow> nat \<Rightarrow> nat \<Rightarrow> flash_dev \<times> HAL_StatusTypeDef" where
  "program_iterations hw d Address Data index 0 = (d, HAL_OK)"
| "program_iterations hw d Address Data index (Suc k) =
     (let d = hw_store hw d (u32_add Address (2 * index)) (ucast (drop_bit (16 * index) Data));
          (d, status) = FLASH_WaitForLastOperation d
      in if status \<noteq> HAL_OK then (d, status) else program_iterations hw d Address Data (index + 1) k)"

definition HAL_FLASH_Program :: "flash_hw \<Rightarrow> flash_dev \<Rightarrow> nat \<Rightarrow> nat \<Rightarrow> u64 \<Rightarrow> flash_dev \<times> HAL_StatusTypeDef" where
  "HAL_FLASH_Program hw d TypeProgram Address Data =
     (let (d, status) = FLASH_WaitForLastOperation d in
      if status \<noteq> HAL_OK then (d, status)
      else program_iterations hw d Address Data 0
             (if TypeProgram = FLASH_TYPEPROGRAM_HALFWORD then 1
              else if TypeProgram = FLASH_TYPEPROGRAM_WORD then 2 else 4))"

text \<open>The page loop; the bound is a multiple of the page size above the start, so the address does not wrap.\<close>

function erase_range :: "flash_hw \<Rightarrow> flash_dev \<Rightarrow> nat \<Rightarrow> nat \<Rightarrow> HAL_StatusTypeDef \<Rightarrow> flash_dev \<times> HAL_StatusTypeDef" where
  "erase_range hw d address bound status =
     (if address < bound then
        let (d, status) = FLASH_WaitForLastOperation (hw_erase hw d address) in
        if status \<noteq> HAL_OK then (d, status) else erase_range hw d (address + FLASH_PAGE_SIZE) bound status
      else (d, status))"
  by pat_completeness auto
termination by (relation "measure (\<lambda>(hw, d, address, bound, status). bound - address)") auto

declare erase_range.simps [simp del]

definition HAL_FLASHEx_Erase :: "flash_hw \<Rightarrow> flash_dev \<Rightarrow> nat \<Rightarrow> nat \<Rightarrow> flash_dev \<times> HAL_StatusTypeDef" where
  "HAL_FLASHEx_Erase hw d PageAddress NbPages =
     (let (d, status) = FLASH_WaitForLastOperation d in
      if status \<noteq> HAL_OK then (d, HAL_ERROR)
      else erase_range hw d PageAddress (u32_add (u32_mul NbPages FLASH_PAGE_SIZE) PageAddress) HAL_ERROR)"

subsection \<open>flash_if.c of the boot loader\<close>

definition boot_Flash_Erase_Page :: "flash_hw \<Rightarrow> flash_dev \<Rightarrow> nat \<Rightarrow> nat \<Rightarrow> flash_dev \<times> HAL_StatusTypeDef" where
  "boot_Flash_Erase_Page hw d addr bin_size =
     (if OTA_BIN_MAX_SIZE < bin_size \<or> bin_size = 0 then (d, HAL_ERROR)
      else
        let d = Flash_Unlock d;
            NbOfPages = u32_sub (u32_add bin_size FLASH_PAGE_SIZE) 1 div FLASH_PAGE_SIZE;
            (d, _) = FLASH_WaitForLastOperation d;
            (d, status) = HAL_FLASHEx_Erase hw d addr NbOfPages
        in (Flash_Lock d, if status \<noteq> HAL_OK then HAL_ERROR else HAL_OK))"

function write_dwords :: "flash_hw \<Rightarrow> flash_dev \<Rightarrow> nat \<Rightarrow> u8 list \<Rightarrow> nat \<Rightarrow> nat \<Rightarrow> (flash_dev \<times> nat \<times> bool) option" where
  "write_dwords hw d addr buf i len =
     (if i < len then do {
        double_word \<leftarrow> ArrayU8ToU64 buf i;
        let (d, _) = FLASH_WaitForLastOperation d;
        let (d, status) = HAL_FLASH_Program hw d FLASH_TYPEPROGRAM_DOUBLEWORD (u32_add addr i) double_word;
        if status \<noteq> HAL_OK then Some (d, i, False) else write_dwords hw d addr buf (i + 8) len }
      else Some (d, i, True))"
  by pat_completeness auto
termination by (relation "measure (\<lambda>(hw, d, addr, buf, i, len). len - i)") auto

declare write_dwords.simps [simp del]

fun left_dword_bytes :: "u8 list \<Rightarrow> nat \<Rightarrow> nat \<Rightarrow> u64 option" where
  "left_dword_bytes buf i 0 = Some 0"
| "left_dword_bytes buf i (Suc n) =
     do { w \<leftarrow> left_dword_bytes buf i n; b \<leftarrow> rd buf (i + n); Some (w OR push_bit (8 * n) (ucast b)) }"

definition left_dword :: "u8 list \<Rightarrow> nat \<Rightarrow> nat \<Rightarrow> u64 option" where
  "left_dword buf i left_num =
     do { w \<leftarrow> left_dword_bytes buf i left_num; Some (foldl (\<lambda>w n. w OR push_bit (n * 8) 0xFF) w [left_num..<8]) }"

definition boot_Flash_Write :: "flash_hw \<Rightarrow> flash_dev \<Rightarrow> nat \<Rightarrow> u8 list \<Rightarrow> nat \<Rightarrow> (flash_dev \<times> nat) option" where
  "boot_Flash_Write hw d addr buf len0 =
     (let left_num = len0 mod 8; len = len0 - left_num in
      if addr mod 8 \<noteq> 0 then Some (d, 0)
      else do {
        (d, i, ok) \<leftarrow> write_dwords hw (Flash_Unlock d) addr buf 0 len;
        if \<not> ok then Some (Flash_Lock d, i)
        else if left_num = 0 then Some (Flash_Lock d, len)
        else do {
          double_word \<leftarrow> left_dword buf i left_num;
          let (d, _) = FLASH_WaitForLastOperation d;
          let (d, status) = HAL_FLASH_Program hw d FLASH_TYPEPROGRAM_DOUBLEWORD (u32_add addr i) double_word;
          Some (Flash_Lock d, if status = HAL_OK then len + left_num else len) } })"

text \<open>The header: the page is erased first, and three double words are programmed.\<close>

fun header_dwords :: "flash_hw \<Rightarrow> flash_dev \<Rightarrow> nat \<Rightarrow> u8 list \<Rightarrow> nat \<Rightarrow> nat \<Rightarrow> (flash_dev \<times> bool) option" where
  "header_dwords hw d addr pData p 0 = Some (d, True)"
| "header_dwords hw d addr pData p (Suc k) = do {
     Tem \<leftarrow> ArrayU8ToU64 pData p;
     let (d, _) = FLASH_WaitForLastOperation d;
     let (d, status) = HAL_FLASH_Program hw d FLASH_TYPEPROGRAM_DOUBLEWORD (u32_add addr p) Tem;
     if status \<noteq> HAL_OK then Some (d, False) else header_dwords hw d addr pData (p + 8) k }"

definition boot_Flash_Storage_Header :: "flash_hw \<Rightarrow> flash_dev \<Rightarrow> u8 list \<Rightarrow> (flash_dev \<times> nat) option" where
  "boot_Flash_Storage_Header hw d pData = do {
     let addr_appinfo = page_from_end d FLASH_APP_INFO_ADDR;
     let (d, status) = boot_Flash_Erase_Page hw d addr_appinfo FLASH_PAGE_SIZE;
     if status \<noteq> HAL_OK then Some (d, 0)
     else do {
       (d, ok) \<leftarrow> header_dwords hw (Flash_Unlock d) addr_appinfo pData 0 3;
       if \<not> ok then Some (d, 0) else Some (Flash_Lock d, 1) } }"

subsection \<open>iap_if.c of the boot loader\<close>

definition boot_RunAppMode :: "flash_hw \<Rightarrow> dev_state \<Rightarrow> dev_state" where
  "boot_RunAppMode hw st =
     (let addr_iapflag = page_from_end (flash st) FLASH_IAP_FLAG_ADDR;
          d = HAL_FLASH_Unlock (flash st);
          (d, _) = FLASH_WaitForLastOperation d;
          (d, _) = HAL_FLASHEx_Erase hw d addr_iapflag 1
      in st\<lparr>IAP_FLAG := OTA_RUN_APP, flash := HAL_FLASH_Lock d\<rparr>)"

text \<open>The last statements of \<open>UpdateAppMode\<close> and \<open>ForceUpdateAppMode\<close>: the flag is programmed.\<close>

definition program_flag :: "flash_hw \<Rightarrow> u64 \<Rightarrow> dev_state \<Rightarrow> dev_state" where
  "program_flag hw flag st =
     (let addr_iapflag = page_from_end (flash st) FLASH_IAP_FLAG_ADDR;
          d = HAL_FLASH_Unlock (flash st);
          (d, _) = FLASH_WaitForLastOperation d;
          (d, _) = HAL_FLASH_Program hw d FLASH_TYPEPROGRAM_DOUBLEWORD addr_iapflag flag
      in st\<lparr>IAP_FLAG := flag, flash := HAL_FLASH_Lock d\<rparr>)"

definition boot_UpdateAppMode :: "flash_hw \<Rightarrow> dev_state \<Rightarrow> dev_state" where
  "boot_UpdateAppMode hw st =
     program_flag hw OTA_Update_APP
       (if ReadIAPMode (flash st) \<noteq> OTA_RUN_APP then boot_RunAppMode hw st else st)"

definition boot_ForceUpdateAppMode :: "flash_hw \<Rightarrow> dev_state \<Rightarrow> dev_state" where
  "boot_ForceUpdateAppMode hw st =
     program_flag hw OTA_Force_Update_APP
       (if ReadIAPMode (flash st) \<noteq> OTA_RUN_APP \<or> ReadIAPMode (flash st) \<noteq> OTA_Update_APP
        then boot_RunAppMode hw st else st)"

definition boot_iap_param_save :: "flash_hw \<Rightarrow> dev_state \<Rightarrow> dev_state option" where
  "boot_iap_param_save hw st = do {
     let addr_iapparam = page_from_end (flash st) FLASH_IAP_PARAM_ADDR;
     let d = HAL_FLASH_Unlock (flash st);
     let (d, _) = FLASH_WaitForLastOperation d;
     let (d, _) = HAL_FLASHEx_Erase hw d addr_iapparam 1;
     (d, _) \<leftarrow> boot_Flash_Write hw d addr_iapparam (iap_param_bytes (iap_param st)) sizeof_iap_param;
     Some (st\<lparr>flash := HAL_FLASH_Lock d\<rparr>) }"

definition boot_iap_param_default :: "flash_hw \<Rightarrow> dev_state \<Rightarrow> dev_state option" where
  "boot_iap_param_default hw st =
     boot_iap_param_save hw (st\<lparr>iap_param := \<lparr>Power_First_Flag = 0x1234, ChipUniqueID = Get_ChipID (flash st),
       swversion = 1, hwversion = 1, IAP_flag = 1, remoteID = 0, ID = 0xFFFF\<rparr>\<rparr>)"

definition boot_iap_param_load :: "flash_hw \<Rightarrow> dev_state \<Rightarrow> dev_state option" where
  "boot_iap_param_load hw st = do {
     let addr_iapparam = page_from_end (flash st) FLASH_IAP_PARAM_ADDR;
     let st = st\<lparr>iap_param := (iap_param st)\<lparr>Power_First_Flag := read_u16 (flash st) addr_iapparam\<rparr>\<rparr>;
     st \<leftarrow> (if Power_First_Flag (iap_param st) \<noteq> 0x1234 then boot_iap_param_default hw st else Some st);
     (buf, _) \<leftarrow> Flash_Read (flash st) addr_iapparam (replicate sizeof_iap_param 0) sizeof_iap_param;
     Some (st\<lparr>iap_param := iap_param_of buf\<rparr>) }"

subsection \<open>Double words and their bytes\<close>

fun dword_of :: "u8 list \<Rightarrow> nat \<Rightarrow> u64" where
  "dword_of [] k = 0"
| "dword_of (b # bs) k = push_bit (8 * k) (ucast b) OR dword_of bs (k + 1)"

definition u64_bytes :: "u64 \<Rightarrow> u8 list" where
  "u64_bytes w = map (\<lambda>k. ucast (drop_bit (8 * k) w)) [0..<8]"

lemma length_u64_bytes [simp]: "length (u64_bytes w) = 8"
  by (simp add: u64_bytes_def)

lemma bit_byte: "bit (b :: u8) n \<Longrightarrow> n < 8"
  using bit_imp_le_length [of b n] by simp

lemma bit_dword_of:
  "bit (dword_of bs k) n \<longleftrightarrow> n < 64 \<and> k \<le> n div 8 \<and> n div 8 - k < length bs \<and> bit (bs ! (n div 8 - k)) (n mod 8)"
proof (induction bs arbitrary: k)
  case (Cons b bs)
  have here: "8 * k \<le> n \<and> bit b (n - 8 * k) \<longleftrightarrow> n div 8 = k \<and> bit b (n mod 8)"
  proof
    assume a: "8 * k \<le> n \<and> bit b (n - 8 * k)"
    then have "n - 8 * k < 8" by (intro bit_byte [of b]) simp
    then obtain r where "n = 8 * k + r" "r < 8" using a by (metis le_add_diff_inverse)
    then show "n div 8 = k \<and> bit b (n mod 8)" using a by simp
  next
    assume a: "n div 8 = k \<and> bit b (n mod 8)"
    then have "n = 8 * k + n mod 8" by (metis mult_div_mod_eq)
    then show "8 * k \<le> n \<and> bit b (n - 8 * k)" using a by (metis add_diff_cancel_left' le_add1)
  qed
  consider "n div 8 = k" | "k + 1 \<le> n div 8" | "n div 8 < k" by linarith
  then show ?case
  proof cases
    case 1
    then show ?thesis using here by (auto simp: bitwise bit_simps Cons.IH dest: bit_byte)
  next
    case 2
    then obtain j where "n div 8 - k = Suc j" "n div 8 - (k + 1) = j" by (metis Suc_diff_Suc Suc_eq_plus1 Suc_le_lessD)
    then show ?thesis using 2 here by (auto simp: bitwise bit_simps Cons.IH)
  next
    case 3
    then show ?thesis using here by (auto simp: bitwise bit_simps Cons.IH)
  qed
qed simp

lemma u64_bytes_dword_of:
  assumes "length bs = 8"
  shows "u64_bytes (dword_of bs 0) = bs"
proof (rule nth_equalityI)
  fix j assume "j < length (u64_bytes (dword_of bs 0))"
  then have j: "j < 8" by simp
  have "ucast (drop_bit (8 * j) (dword_of bs 0)) = bs ! j"
  proof (rule bit_word_eqI)
    fix n assume "n < LENGTH(8)"
    then have n: "n < 8" by simp
    then have "(8 * j + n) div 8 = j" "(8 * j + n) mod 8 = n" "8 * j + n < 64" using j by simp_all
    then show "bit (ucast (drop_bit (8 * j) (dword_of bs 0)) :: u8) n \<longleftrightarrow> bit (bs ! j) n"
      using n j assms by (simp add: bit_simps bit_dword_of)
  qed
  then show "u64_bytes (dword_of bs 0) ! j = bs ! j" using j by (simp add: u64_bytes_def)
qed (simp add: assms)

lemma take8:
  "p + 7 < length src \<Longrightarrow> take 8 (drop p src) =
    [src ! p, src ! (p + 1), src ! (p + 2), src ! (p + 3), src ! (p + 4), src ! (p + 5), src ! (p + 6), src ! (p + 7)]"
  by (intro nth_equalityI) (auto simp: less_Suc_eq numeral_eq_Suc)

lemma ArrayU8ToU64_bytes:
  assumes "p + 8 \<le> length src"
  shows "\<exists>w. ArrayU8ToU64 src p = Some w \<and> u64_bytes w = take 8 (drop p src)"
proof -
  let ?bs = "take 8 (drop p src)"
  define w where "w = dword_of ?bs 0"
  have b: "u64_bytes w = ?bs" unfolding w_def using assms by (intro u64_bytes_dword_of) simp
  have "take 8 (drop p src) = u64_bytes w" using b by simp
  then have "src ! p = ucast w" "src ! (p + 1) = ucast (drop_bit 8 w)" "src ! (p + 2) = ucast (drop_bit 16 w)"
      "src ! (p + 3) = ucast (drop_bit 24 w)" "src ! (p + 4) = ucast (drop_bit 32 w)" "src ! (p + 5) = ucast (drop_bit 40 w)"
      "src ! (p + 6) = ucast (drop_bit 48 w)" "src ! (p + 7) = ucast (drop_bit 56 w)"
    using assms take8 [of p src] by (simp_all add: u64_bytes_def upt_rec)
  then have "ArrayU8ToU64 src p = Some w"
    using assms by (simp add: ArrayU8ToU64_in ucast_ucast_u8 word_of_bytes8)
  then show ?thesis using b by blast
qed

lemma dword_of_snoc: "dword_of (bs @ [b]) k = dword_of bs k OR push_bit (8 * (k + length bs)) (ucast b)"
  by (induction bs arbitrary: k) (simp_all add: or.assoc algebra_simps)

lemma left_dword_bytes_of:
  "i + n \<le> length buf \<Longrightarrow> left_dword_bytes buf i n = Some (dword_of (take n (drop i buf)) 0)"
proof (induction n)
  case (Suc n)
  then have "take (Suc n) (drop i buf) = take n (drop i buf) @ [buf ! (i + n)]"
    by (simp add: take_Suc_conv_app_nth)
  then show ?case using Suc by (simp add: mem_simps dword_of_snoc)
qed simp

lemma pad_dword: "length bs \<le> m \<Longrightarrow>
    foldl (\<lambda>w n. w OR push_bit (n * 8) 0xFF) (dword_of bs 0) [length bs..<m] = dword_of (bs @ replicate (m - length bs) 0xFF) 0"
proof (induction m)
  case (Suc m)
  show ?case
  proof (cases "length bs \<le> m")
    case True
    then have "replicate (Suc m - length bs) (0xFF :: u8) = replicate (m - length bs) 0xFF @ [0xFF]"
      by (simp add: Suc_diff_le replicate_append_same)
    moreover have "(ucast (0xFF :: u8) :: u64) = 0xFF" by simp
    ultimately show ?thesis
      using Suc True dword_of_snoc [of "bs @ replicate (m - length bs) 0xFF" "0xFF" 0] by (simp add: mult.commute)
  next
    case False
    then show ?thesis using Suc.prems by (simp add: le_Suc_eq)
  qed
qed simp

lemma left_dword_of:
  assumes "n < 8" "i + n \<le> length buf"
  shows "\<exists>w. left_dword buf i n = Some w \<and> u64_bytes w = take n (drop i buf) @ replicate (8 - n) 0xFF"
proof -
  have l: "length (take n (drop i buf)) = n" using assms(2) by simp
  have "left_dword buf i n = Some (dword_of (take n (drop i buf) @ replicate (8 - n) 0xFF) 0)"
    using pad_dword [of "take n (drop i buf)" 8] assms unfolding l
    by (simp add: left_dword_def left_dword_bytes_of)
  then show ?thesis using u64_bytes_dword_of [of "take n (drop i buf) @ replicate (8 - n) 0xFF"] l assms(1) by simp
qed

subsection \<open>Programming blank double words\<close>

lemma wait_unlocked [simp]: "sr d = FLASH_COMPLETE \<Longrightarrow> FLASH_WaitForLastOperation d = (d, HAL_OK)"
  by (simp add: FLASH_WaitForLastOperation_def)

lemma wait_ready: "ready d \<Longrightarrow> fst (FLASH_WaitForLastOperation d) = d\<lparr>sr := FLASH_COMPLETE\<rparr>"
  by (cases "sr d") (auto simp: FLASH_WaitForLastOperation_def ready_def)

definition half_bytes :: "u64 \<Rightarrow> nat \<Rightarrow> u8 list" where
  "half_bytes w i = [ucast (drop_bit (16 * i) w), ucast (drop_bit (16 * i + 8) w)]"

lemma half_bytes_store:
  "[ucast (ucast (drop_bit (16 * i) w) :: u16), ucast (drop_bit 8 (ucast (drop_bit (16 * i) w) :: u16))] = half_bytes w i"
  unfolding half_bytes_def list.inject
  by (intro conjI; (rule refl)?) (rule bit_word_eqI; auto simp: bit_simps bitwise ac_simps)+

lemma program_iterations_blank:
  assumes "nor_flash hw" "even a"
  shows "unlocked d \<Longrightarrow> blank d (a + 2 * i) (2 * k) \<Longrightarrow>
    program_iterations hw d a w i k = (d\<lparr>cells := put (cells d) (a + 2 * i) (concat (map (half_bytes w) [i..<i + k]))\<rparr>, HAL_OK)"
proof (induction k arbitrary: d i)
  case (Suc k)
  let ?a = "a + 2 * i"
  have b2: "blank d ?a 2" using Suc.prems(2) by (rule blank_sub) auto
  then have "in_flash d ?a" by (simp add: blank_def)
  then have at: "u32_add a (2 * i) = ?a" using in_flash_less by (intro u32_add_exact) force
  let ?d = "d\<lparr>cells := put (cells d) ?a (half_bytes w i)\<rparr>"
  have s: "hw_store hw d ?a (ucast (drop_bit (16 * i) w)) = ?d"
    using hw_store_blank [OF assms(1) Suc.prems(1) _ b2] assms(2) by (simp add: half_bytes_store)
  have "blank d (a + 2 * (i + 1)) (2 * k)" using Suc.prems(2) by (rule blank_sub) auto
  then have "blank ?d (a + 2 * (i + 1)) (2 * k)" by (rule blank_put) (simp add: half_bytes_def)
  then have "program_iterations hw ?d a w (i + 1) k =
      (?d\<lparr>cells := put (cells ?d) (a + 2 * (i + 1)) (concat (map (half_bytes w) [i + 1..<i + 1 + k]))\<rparr>, HAL_OK)"
    using Suc.prems(1) by (intro Suc.IH) auto
  moreover have "put (cells ?d) (a + 2 * (i + 1)) (concat (map (half_bytes w) [i + 1..<i + 1 + k])) =
      put (cells d) ?a (concat (map (half_bytes w) [i..<i + Suc k]))"
  proof -
    have l: "length (half_bytes w i) = 2" by (simp add: half_bytes_def)
    have "[i..<i + Suc k] = i # [i + 1..<i + 1 + k]" by (simp add: upt_conv_Cons del: upt_Suc)
    then have c: "concat (map (half_bytes w) [i..<i + Suc k]) = half_bytes w i @ concat (map (half_bytes w) [i + 1..<i + 1 + k])"
      by (simp only: list.map concat.simps)
    have "put (cells ?d) (a + 2 * (i + 1)) xs = put (put (cells d) ?a (half_bytes w i)) (?a + length (half_bytes w i)) xs" for xs
      unfolding l by simp
    then show ?thesis unfolding c put_append .
  qed
  ultimately show ?case using Suc.prems(1) by (simp add: at s Let_def)
qed simp

lemma half_bytes_all: "concat (map (half_bytes w) [0..<4]) = u64_bytes w"
  by (simp add: half_bytes_def u64_bytes_def upt_rec)

lemma HAL_FLASH_Program_blank:
  assumes "nor_flash hw" "unlocked d" "even a" "blank d a 8"
  shows "HAL_FLASH_Program hw d FLASH_TYPEPROGRAM_DOUBLEWORD a w = (d\<lparr>cells := put (cells d) a (u64_bytes w)\<rparr>, HAL_OK)"
proof -
  have "program_iterations hw d a w 0 4 = (d\<lparr>cells := put (cells d) a (u64_bytes w)\<rparr>, HAL_OK)"
    using program_iterations_blank [OF assms(1,3,2), of 0 4 w] assms(4) half_bytes_all [of w] by simp
  then show ?thesis using assms(2) by (simp add: HAL_FLASH_Program_def)
qed

lemma write_dwords_blank:
  assumes "nor_flash hw" "addr mod 8 = 0" "len mod 8 = 0" "len \<le> length buf"
  shows "unlocked d \<Longrightarrow> i mod 8 = 0 \<Longrightarrow> i \<le> len \<Longrightarrow> blank d (addr + i) (len - i) \<Longrightarrow>
    write_dwords hw d addr buf i len =
      Some (d\<lparr>cells := put (cells d) (addr + i) (take (len - i) (drop i buf))\<rparr>, len, True)"
proof (induction "len - i" arbitrary: i d rule: less_induct)
  case less
  show ?case
  proof (cases "i < len")
    case False
    then show ?thesis using less.prems by (subst write_dwords.simps) simp
  next
    case True
    then have i8: "i + 8 \<le> len" using assms(3) less.prems(2) by presburger
    then obtain w where w: "ArrayU8ToU64 buf i = Some w" "u64_bytes w = take 8 (drop i buf)"
      using ArrayU8ToU64_bytes [of i buf] assms(4) by auto
    have b8: "blank d (addr + i) 8" using less.prems(4) i8 by (auto intro: blank_sub)
    then have "in_flash d (addr + i)" by (simp add: blank_def)
    then have a: "u32_add addr i = addr + i" using in_flash_less by (intro u32_add_exact) force
    let ?xs = "take 8 (drop i buf)"
    let ?d = "d\<lparr>cells := put (cells d) (addr + i) ?xs\<rparr>"
    have "even (addr + i)" using assms(2) less.prems(2) by presburger
    then have p: "HAL_FLASH_Program hw d FLASH_TYPEPROGRAM_DOUBLEWORD (addr + i) w = (?d, HAL_OK)"
      using HAL_FLASH_Program_blank [OF assms(1) less.prems(1) _ b8] w(2) by simp
    have l8: "length ?xs = 8" using i8 assms(4) by simp
    have "blank d (addr + (i + 8)) (len - (i + 8))" using less.prems(4) i8 by (auto intro: blank_sub)
    then have b: "blank ?d (addr + (i + 8)) (len - (i + 8))" by (rule blank_put) (simp add: l8)
    have "write_dwords hw ?d addr buf (i + 8) len =
        Some (?d\<lparr>cells := put (cells ?d) (addr + (i + 8)) (take (len - (i + 8)) (drop (i + 8) buf))\<rparr>, len, True)"
    proof (rule less.hyps)
      show "len - (i + 8) < len - i" using True by simp
      show "(i + 8) mod 8 = 0" using less.prems(2) by simp
    qed (use less.prems(1) i8 b in auto)
    moreover have "put (cells ?d) (addr + (i + 8)) (take (len - (i + 8)) (drop (i + 8) buf)) =
        put (cells d) (addr + i) (take (len - i) (drop i buf))"
      using put_append [of "cells d" "addr + i" ?xs "take (len - (i + 8)) (drop (i + 8) buf)"]
        take_add [of 8 "len - (i + 8)" "drop i buf"] i8 unfolding l8 by (simp add: add.commute [of _ 8] add.assoc [symmetric])
    ultimately show ?thesis
      using True less.prems(1) by (subst write_dwords.simps) (simp add: w(1) a p)
  qed
qed

lemma roundup8: "8 * ((len + 7) div 8) = (len :: nat) - len mod 8 + (if len mod 8 = 0 then 0 else 8)"
proof -
  obtain q r where qr: "len = 8 * q + r" "r < 8" by (metis mult_div_mod_eq mod_less_divisor zero_less_numeral)
  then have "(len + 7) div 8 = q + (r + 7) div 8" "len mod 8 = r" by simp_all
  moreover have "(r + 7) div 8 = (if r = 0 then 0 else 1)" using qr(2) by (auto intro!: div_nat_eqI)
  ultimately show ?thesis using qr by simp
qed

lemma boot_Flash_Write_blank:
  assumes "nor_flash hw" "addr mod 8 = 0" "len \<le> length buf" "ready d" "blank d addr (8 * ((len + 7) div 8))"
  shows "boot_Flash_Write hw d addr buf len =
    Some (d\<lparr>locked := True, sr := FLASH_COMPLETE, cells := put (cells d) addr (take len buf)\<rparr>, len)"
proof -
  define n m where "n = len mod 8" and "m = len - len mod 8"
  have m8: "m mod 8 = 0" "len = m + n" "n < 8" "m \<le> len" "m \<le> length buf"
    using assms(3) by (auto simp: n_def m_def minus_mod_eq_mult_div)
  let ?d0 = "d\<lparr>locked := False, sr := FLASH_COMPLETE\<rparr>"
  have u: "Flash_Unlock d = ?d0" using assms(4) by (rule Flash_Unlock_ready)
  have total: "8 * ((len + 7) div 8) = m + (if n = 0 then 0 else 8)" unfolding n_def m_def by (rule roundup8)
  then have bm: "blank ?d0 addr m" using assms(5) by (auto intro: blank_sub)
  let ?d1 = "?d0\<lparr>cells := put (cells d) addr (take m buf)\<rparr>"
  have w: "write_dwords hw ?d0 addr buf 0 m = Some (?d1, m, True)"
    using write_dwords_blank [OF assms(1,2) m8(1,5), of ?d0 0] bm by simp
  show ?thesis
  proof (cases "n = 0")
    case True
    then show ?thesis
      using assms(2) w m8 unfolding boot_Flash_Write_def Let_def u n_def [symmetric] m_def [symmetric]
      by (simp add: Flash_Lock_def)
  next
    case False
    obtain word where word: "left_dword buf m n = Some word"
      "u64_bytes word = take n (drop m buf) @ replicate (8 - n) 0xFF"
      using left_dword_of [of n m buf] m8 assms(3) by auto
    have b8: "blank ?d0 (addr + m) 8" using assms(5) total False by (auto intro: blank_sub)
    have lm: "length (take m buf) = m" using m8 by simp
    then have b: "blank ?d1 (addr + m) 8" using b8 blank_put [of ?d0 "addr + m" 8 addr "take m buf"] by simp
    then have "in_flash ?d1 (addr + m)" by (simp add: blank_def)
    then have a: "u32_add addr m = addr + m" using in_flash_less by (intro u32_add_exact) force
    have "even (addr + m)" using assms(2) m8(1) by presburger
    then have p: "HAL_FLASH_Program hw ?d1 FLASH_TYPEPROGRAM_DOUBLEWORD (addr + m) word =
        (?d1\<lparr>cells := put (cells ?d1) (addr + m) (u64_bytes word)\<rparr>, HAL_OK)"
      using b by (intro HAL_FLASH_Program_blank assms(1)) auto
    have "put (cells ?d1) (addr + m) (u64_bytes word) = put (cells d) addr (take len buf)"
    proof -
      have nd: "length (take n (drop m buf)) = n" using m8 assms(3) by simp
      have "blank ?d1 (addr + m) (n + (8 - n))" using b m8(3) by simp
      then have "put (cells ?d1) (addr + m) (u64_bytes word) = put (cells ?d1) (addr + m) (take n (drop m buf))"
        unfolding word(2) by (rule put_blank [OF nd])
      also have "\<dots> = put (cells d) addr (take m buf @ take n (drop m buf))"
        using put_append [of "cells d" addr "take m buf" "take n (drop m buf)"] unfolding lm by simp
      also have "take m buf @ take n (drop m buf) = take len buf" using m8(2) by (simp add: take_add)
      finally show ?thesis .
    qed
    then show ?thesis
      using assms(2) w m8(2) False unfolding boot_Flash_Write_def Let_def u n_def [symmetric] m_def [symmetric]
      by (simp add: Flash_Lock_def word(1) a p)
  qed
qed

subsection \<open>Erasing\<close>

lemma erase_range_wipe:
  assumes "nor_flash hw" "addr mod FLASH_PAGE_SIZE = 0"
  shows "unlocked d \<Longrightarrow> \<forall>b < k * FLASH_PAGE_SIZE. in_flash d (addr + i * FLASH_PAGE_SIZE + b) \<Longrightarrow>
    erase_range hw d (addr + i * FLASH_PAGE_SIZE) (addr + (i + k) * FLASH_PAGE_SIZE) s =
      (d\<lparr>cells := wipe (cells d) (addr + i * FLASH_PAGE_SIZE) (k * FLASH_PAGE_SIZE)\<rparr>, if k = 0 then s else HAL_OK)"
proof (induction k arbitrary: d i s)
  case 0
  then show ?case by (subst erase_range.simps) simp
next
  case (Suc k)
  let ?a = "addr + i * FLASH_PAGE_SIZE"
  have inf: "in_flash d ?a" using Suc.prems(2) [rule_format, of 0] by simp
  have am: "?a mod FLASH_PAGE_SIZE = 0" using assms(2) by (simp add: mod_simps)
  let ?d = "d\<lparr>cells := wipe (cells d) ?a FLASH_PAGE_SIZE\<rparr>"
  have e: "hw_erase hw d ?a = ?d"
    using nor_erase [OF assms(1), of d ?a] Suc.prems(1) inf page_wiped_wipe [OF am] by simp
  have "\<forall>b < k * FLASH_PAGE_SIZE. in_flash ?d (addr + (i + 1) * FLASH_PAGE_SIZE + b)"
  proof (intro allI impI)
    fix b assume "b < k * FLASH_PAGE_SIZE"
    then have "in_flash d (?a + (FLASH_PAGE_SIZE + b))" using Suc.prems(2) by (intro Suc.prems(2) [rule_format]) simp
    then show "in_flash ?d (addr + (i + 1) * FLASH_PAGE_SIZE + b)" by (simp add: algebra_simps)
  qed
  then have "erase_range hw ?d (addr + (i + 1) * FLASH_PAGE_SIZE) (addr + (i + 1 + k) * FLASH_PAGE_SIZE) HAL_OK =
      (?d\<lparr>cells := wipe (cells ?d) (addr + (i + 1) * FLASH_PAGE_SIZE) (k * FLASH_PAGE_SIZE)\<rparr>, if k = 0 then HAL_OK else HAL_OK)"
    using Suc.prems(1) by (intro Suc.IH) auto
  moreover have "wipe (cells ?d) (addr + (i + 1) * FLASH_PAGE_SIZE) (k * FLASH_PAGE_SIZE) =
      wipe (cells d) ?a (Suc k * FLASH_PAGE_SIZE)"
    using wipe_more [of "cells d" ?a FLASH_PAGE_SIZE "k * FLASH_PAGE_SIZE"] by (simp add: algebra_simps)
  ultimately show ?case
    using Suc.prems(1) by (subst erase_range.simps) (simp add: e algebra_simps)
qed

lemma HAL_FLASHEx_Erase_wipe:
  assumes "nor_flash hw" "addr mod FLASH_PAGE_SIZE = 0" "unlocked d" "0 < k" "k * FLASH_PAGE_SIZE < 0x1000000"
    "\<forall>b < k * FLASH_PAGE_SIZE. in_flash d (addr + b)"
  shows "HAL_FLASHEx_Erase hw d addr k = (d\<lparr>cells := wipe (cells d) addr (k * FLASH_PAGE_SIZE)\<rparr>, HAL_OK)"
proof -
  have "in_flash d addr" using assms(4,6) by (metis add_0_right mult_pos_pos zero_less_numeral)
  then have "addr < 0x10000000" using unat_u16_less [of "flash_kb d"] by (simp add: in_flash_def Get_FlashSize_def)
  then have b: "u32_add (u32_mul k FLASH_PAGE_SIZE) addr = addr + (0 + k) * FLASH_PAGE_SIZE"
    using assms(5) by (simp add: u32_simps)
  have "erase_range hw d addr (addr + (0 + k) * FLASH_PAGE_SIZE) HAL_ERROR =
      (d\<lparr>cells := wipe (cells d) addr (k * FLASH_PAGE_SIZE)\<rparr>, HAL_OK)"
    using erase_range_wipe [OF assms(1,2,3), of k 0 HAL_ERROR] assms(4,6) by simp
  then show ?thesis unfolding HAL_FLASHEx_Erase_def b using assms(3) by simp
qed

lemma boot_Flash_Erase_Page_wipe:
  assumes "nor_flash hw" "addr mod FLASH_PAGE_SIZE = 0" "ready d" "0 < n" "n \<le> OTA_BIN_MAX_SIZE"
    "\<forall>b < pages_of n * FLASH_PAGE_SIZE. in_flash d (addr + b)"
  shows "boot_Flash_Erase_Page hw d addr n =
    (d\<lparr>locked := True, sr := FLASH_COMPLETE, cells := wipe (cells d) addr (pages_of n * FLASH_PAGE_SIZE)\<rparr>, HAL_OK)"
proof -
  have p: "u32_sub (u32_add n FLASH_PAGE_SIZE) 1 div FLASH_PAGE_SIZE = pages_of n"
    using assms(5) by (simp add: u32_simps pages_of_def)
  have k: "0 < pages_of n" "pages_of n * FLASH_PAGE_SIZE < 0x1000000"
    using assms(4,5) by (auto simp: pages_of_def div_greater_zero_iff)
  have u: "Flash_Unlock d = d\<lparr>locked := False, sr := FLASH_COMPLETE\<rparr>" by (rule Flash_Unlock_ready [OF assms(3)])
  have "HAL_FLASHEx_Erase hw (Flash_Unlock d) addr (pages_of n) =
      ((Flash_Unlock d)\<lparr>cells := wipe (cells d) addr (pages_of n * FLASH_PAGE_SIZE)\<rparr>, HAL_OK)"
    using HAL_FLASHEx_Erase_wipe [OF assms(1,2) _ k, of "Flash_Unlock d"] assms(6) unfolding u by simp
  then show ?thesis
    using assms(4,5) unfolding boot_Flash_Erase_Page_def Let_def p by (simp add: u Flash_Lock_def)
qed

subsection \<open>The mode flag\<close>

lemma boot_RunAppMode_flash:
  assumes "nor_flash hw" "dev_ok st"
  defines "A \<equiv> page_from_end (flash st) FLASH_IAP_FLAG_ADDR"
  shows "boot_RunAppMode hw st = st\<lparr>IAP_FLAG := OTA_RUN_APP, flash := (flash st)\<lparr>locked := True, sr := FLASH_COMPLETE,
           cells := wipe (cells (flash st)) A FLASH_PAGE_SIZE\<rparr>\<rparr>"
proof -
  note f = page_facts [OF assms(2), of 1, folded A_def, simplified]
  let ?d = "(flash st)\<lparr>locked := False, sr := FLASH_COMPLETE\<rparr>"
  have w: "fst (FLASH_WaitForLastOperation (HAL_FLASH_Unlock (flash st))) = ?d"
    using wait_ready [of "HAL_FLASH_Unlock (flash st)"] f(4) by (simp add: HAL_FLASH_Unlock_def ready_def)
  have "HAL_FLASHEx_Erase hw ?d A 1 = (?d\<lparr>cells := wipe (cells (flash st)) A FLASH_PAGE_SIZE\<rparr>, HAL_OK)"
    using HAL_FLASHEx_Erase_wipe [OF assms(1) f(2), of ?d 1] f(3) by simp
  then show ?thesis
    using w unfolding boot_RunAppMode_def Let_def A_def [symmetric]
    by (simp add: case_prod_beta HAL_FLASH_Lock_def)
qed

lemma read_u64_put: "read_u64 (d\<lparr>cells := put m a (u64_bytes w)\<rparr>) a = w"
proof -
  have b: "put m a (u64_bytes w) (a + j) = ucast (drop_bit (8 * j) w)" if "j < 8" for j
    using that by (simp add: put_def u64_bytes_def)
  show ?thesis
    using word_of_bytes8 [of w] b [of 0] b [of 1] b [of 2] b [of 3] b [of 4] b [of 5] b [of 6] b [of 7]
    by (simp add: read_u64_def ucast_ucast_u8)
qed

lemma program_flag_blank:
  assumes "nor_flash hw" "dev_ok st"
  defines "A \<equiv> page_from_end (flash st) FLASH_IAP_FLAG_ADDR"
  assumes "blank (flash st) A 8"
  shows "program_flag hw flag st = st\<lparr>IAP_FLAG := flag, flash := (flash st)\<lparr>locked := True, sr := FLASH_COMPLETE,
           cells := put (cells (flash st)) A (u64_bytes flag)\<rparr>\<rparr>"
proof -
  note f = page_facts [OF assms(2), of 1, folded A_def, simplified]
  let ?d = "(flash st)\<lparr>locked := False, sr := FLASH_COMPLETE\<rparr>"
  have w: "fst (FLASH_WaitForLastOperation (HAL_FLASH_Unlock (flash st))) = ?d"
    using wait_ready [of "HAL_FLASH_Unlock (flash st)"] f(4) by (simp add: HAL_FLASH_Unlock_def ready_def)
  have "even A" using f(1) by presburger
  then have "HAL_FLASH_Program hw ?d FLASH_TYPEPROGRAM_DOUBLEWORD A flag =
      (?d\<lparr>cells := put (cells (flash st)) A (u64_bytes flag)\<rparr>, HAL_OK)"
    using HAL_FLASH_Program_blank [OF assms(1), of ?d A flag] assms(4) by simp
  then show ?thesis
    using w unfolding program_flag_def Let_def A_def [symmetric]
    by (simp add: case_prod_beta HAL_FLASH_Lock_def)
qed

text \<open>After \<open>RunAppMode\<close> the flag page is blank, so that a flag programmed into it can be read back.\<close>

lemma flag_after_run_mode:
  assumes "nor_flash hw" "dev_ok st"
  defines "A \<equiv> page_from_end (flash st) FLASH_IAP_FLAG_ADDR"
  shows "program_flag hw flag (boot_RunAppMode hw st) = st\<lparr>IAP_FLAG := flag, flash := (flash st)\<lparr>locked := True, sr := FLASH_COMPLETE,
           cells := put (wipe (cells (flash st)) A FLASH_PAGE_SIZE) A (u64_bytes flag)\<rparr>\<rparr>"
    "ReadIAPMode (flash (program_flag hw flag (boot_RunAppMode hw st))) = flag"
proof -
  let ?st = "boot_RunAppMode hw st"
  note r = boot_RunAppMode_flash [OF assms(1,2), folded A_def]
  have ok: "dev_ok ?st" using assms(2) unfolding r by (simp add: dev_ok_def ready_def Get_FlashSize_def)
  have pg: "page_from_end (flash ?st) = page_from_end (flash st)"
    unfolding r by (simp add: fun_eq_iff page_from_end_def Get_FlashSize_def)
  have "blank (flash ?st) A 8"
    using wiped_page_blank [OF assms(2), of 1 8] unfolding A_def r by simp
  then have p: "program_flag hw flag ?st = ?st\<lparr>IAP_FLAG := flag, flash := (flash ?st)\<lparr>locked := True, sr := FLASH_COMPLETE,
           cells := put (cells (flash ?st)) A (u64_bytes flag)\<rparr>\<rparr>"
    using program_flag_blank [OF assms(1) ok] unfolding pg A_def [symmetric] by simp
  then show "program_flag hw flag ?st = st\<lparr>IAP_FLAG := flag, flash := (flash st)\<lparr>locked := True, sr := FLASH_COMPLETE,
           cells := put (wipe (cells (flash st)) A FLASH_PAGE_SIZE) A (u64_bytes flag)\<rparr>\<rparr>"
    unfolding r by simp
  show "ReadIAPMode (flash (program_flag hw flag ?st)) = flag"
    using read_u64_put pg unfolding p by (simp add: ReadIAPMode_def page_from_end_def Get_FlashSize_def A_def)
qed

end
