(* ===== verification/BootMain.thy ===== *)
theory BootMain imports Prelude DataLib CalcLib FlashIf DevState IapIf CopyArea BootFlash
begin

text \<open>
  \<open>main.c\<close> of the boot loader: what happens after a reset.  Depending on the flag left in the flash
  it starts the application, installs the image that waits in the copy area, or stays in its own
  update loop.  The answer is how \<open>main\<close> is left: with a jump into the application, with a reset, or
  into the loop that never ends; \<open>None\<close> is an access outside a buffer or an unpacking loop that does
  not end.  The decompressor of the vendored library is the parameter \<open>uncompress\<close>: from the buffer, the
  size it may fill and the source bytes it answers the buffer, the bytes produced and the bytes consumed.
\<close>

abbreviation (input) addr_apprun :: nat where "addr_apprun \<equiv> 0x0800A000"

subsection \<open>The header of the waiting image\<close>

record boot_updata =
  B_CompressFlag :: u16
  B_UpdatesTotalSize :: u32
  B_UpdatesSubSize :: u16
  B_UpdatesCRC32 :: u32
  B_ComPackOriginalSize :: u32
  B_ComPackNo :: u16
  B_PerComPackOriginalSize :: u16
  B_ComPackOriginalCRC32 :: u32

abbreviation (input) sizeof_boot_updata :: nat where "sizeof_boot_updata \<equiv> 24"

definition u32_of :: "u8 \<Rightarrow> u8 \<Rightarrow> u8 \<Rightarrow> u8 \<Rightarrow> u32" where
  "u32_of b0 b1 b2 b3 = ucast b0 + push_bit 8 (ucast b1) + push_bit 16 (ucast b2) + push_bit 24 (ucast b3)"

definition u32_at :: "u8 list \<Rightarrow> nat \<Rightarrow> u32" where
  "u32_at bs i = u32_of (bs ! i) (bs ! (i + 1)) (bs ! (i + 2)) (bs ! (i + 3))"

definition boot_updata_of :: "u8 list \<Rightarrow> boot_updata" where
  "boot_updata_of bs = \<lparr>B_CompressFlag = u16_at bs 0, B_UpdatesTotalSize = u32_at bs 2, B_UpdatesSubSize = u16_at bs 6,
     B_UpdatesCRC32 = u32_at bs 8, B_ComPackOriginalSize = u32_at bs 12, B_ComPackNo = u16_at bs 16,
     B_PerComPackOriginalSize = u16_at bs 18, B_ComPackOriginalCRC32 = u32_at bs 20\<rparr>"

definition read_u32 :: "flash_dev \<Rightarrow> nat \<Rightarrow> u32" where
  "read_u32 d a = u32_of (cells d a) (cells d (a + 1)) (cells d (a + 2)) (cells d (a + 3))"

subsection \<open>The ends of main\<close>

datatype boot_end = Jump (msp: u32) (pc: u32) | Reset | Ota_Loop

text \<open>The label \<open>OTAoE\<close>, up to the endless loop; the board set-up is left out.\<close>

definition ota_mode :: "flash_hw \<Rightarrow> dev_state \<Rightarrow> (boot_end \<times> dev_state) option" where
  "ota_mode hw st = do { st \<leftarrow> boot_iap_param_load hw st; Some (Ota_Loop, st) }"

text \<open>The label \<open>RunAPP\<close>.\<close>

definition run_app :: "flash_hw \<Rightarrow> dev_state \<Rightarrow> (boot_end \<times> dev_state) option" where
  "run_app hw st =
     (if read_u32 (flash st) addr_apprun AND 0x2FFE0000 = 0x20000000
      then Some (Jump (read_u32 (flash st) addr_apprun) (read_u32 (flash st) (addr_apprun + 4)), st)
      else ota_mode hw (boot_ForceUpdateAppMode hw st))"

subsection \<open>Checking the copy area\<close>

fun check_pages :: "flash_dev \<Rightarrow> nat \<Rightarrow> u8 list \<Rightarrow> CRC32_CTX \<Rightarrow> nat \<Rightarrow> nat \<Rightarrow> (u8 list \<times> CRC32_CTX) option" where
  "check_pages d addr check_buf CRC32 i 0 = Some (check_buf, CRC32)"
| "check_pages d addr check_buf CRC32 i (Suc n) = do {
     (check_buf, _) \<leftarrow> Flash_Read d (u32_add addr (u32_mul i FLASH_PAGE_SIZE)) check_buf FLASH_PAGE_SIZE;
     CRC32 \<leftarrow> CRC32_Update CRC32 check_buf FLASH_PAGE_SIZE;
     check_pages d addr check_buf CRC32 (i + 1) n }"

definition check_image :: "flash_dev \<Rightarrow> nat \<Rightarrow> u8 list \<Rightarrow> nat \<Rightarrow> nat \<Rightarrow> (u8 list \<times> u32) option" where
  "check_image d addr check_buf page_num page_left = do {
     (check_buf, CRC32) \<leftarrow> check_pages d addr check_buf (CRC32_Init 0) 0 page_num;
     (check_buf, CRC32) \<leftarrow>
       (if page_left \<noteq> 0 then do {
          (check_buf, _) \<leftarrow> Flash_Read d (u32_add addr (u32_mul page_num FLASH_PAGE_SIZE)) check_buf page_left;
          CRC32 \<leftarrow> CRC32_Update CRC32 check_buf page_left;
          Some (check_buf, CRC32) }
        else Some (check_buf, CRC32));
     Some (check_buf, fst (CRC32_Final CRC32)) }"

subsection \<open>Copying an image that is not compressed\<close>

definition copy_part :: "flash_hw \<Rightarrow> flash_dev \<Rightarrow> nat \<Rightarrow> u8 list \<Rightarrow> CRC32_CTX \<Rightarrow> nat \<Rightarrow> nat \<Rightarrow>
    (flash_dev \<times> u8 list \<times> CRC32_CTX) option" where
  "copy_part hw d src check_buf CRC32 i len = do {
     let (d, _) = FLASH_WaitForLastOperation d;
     (check_buf, _) \<leftarrow> Flash_Read d (u32_add src (u32_mul i FLASH_PAGE_SIZE)) check_buf len;
     (d, _) \<leftarrow> boot_Flash_Write hw d (u32_add addr_apprun (u32_mul i FLASH_PAGE_SIZE)) check_buf len;
     (check_buf, _) \<leftarrow> Flash_Read d (u32_add addr_apprun (u32_mul i FLASH_PAGE_SIZE)) check_buf len;
     CRC32 \<leftarrow> CRC32_Update CRC32 check_buf len;
     Some (d, check_buf, CRC32) }"

fun copy_pages :: "flash_hw \<Rightarrow> flash_dev \<Rightarrow> nat \<Rightarrow> u8 list \<Rightarrow> CRC32_CTX \<Rightarrow> nat \<Rightarrow> nat \<Rightarrow>
    (flash_dev \<times> u8 list \<times> CRC32_CTX) option" where
  "copy_pages hw d src check_buf CRC32 i 0 = Some (d, check_buf, CRC32)"
| "copy_pages hw d src check_buf CRC32 i (Suc n) = do {
     (d, check_buf, CRC32) \<leftarrow> copy_part hw d src check_buf CRC32 i FLASH_PAGE_SIZE;
     copy_pages hw d src check_buf CRC32 (i + 1) n }"

definition copy_image :: "flash_hw \<Rightarrow> flash_dev \<Rightarrow> nat \<Rightarrow> u8 list \<Rightarrow> nat \<Rightarrow> nat \<Rightarrow> nat \<Rightarrow> (flash_dev \<times> u8 list \<times> u32) option" where
  "copy_image hw d src check_buf bin_size page_num page_left = do {
     let (d, _) = boot_Flash_Erase_Page hw d addr_apprun bin_size;
     (d, check_buf, CRC32) \<leftarrow> copy_pages hw d src check_buf (CRC32_Init 0) 0 page_num;
     (d, check_buf, CRC32) \<leftarrow>
       (if page_left \<noteq> 0 then copy_part hw d src check_buf CRC32 page_num page_left
        else Some (d, check_buf, CRC32));
     Some (d, check_buf, fst (CRC32_Final CRC32)) }"

text \<open>The attempts that are left, three at first.\<close>

fun copy_attempts :: "flash_hw \<Rightarrow> dev_state \<Rightarrow> boot_updata \<Rightarrow> nat \<Rightarrow> u8 list \<Rightarrow> nat \<Rightarrow> (boot_end \<times> dev_state) option" where
  "copy_attempts hw st p src check_buf 0 =
     ota_mode hw (boot_ForceUpdateAppMode hw (st\<lparr>flash := Flash_Lock (flash st)\<rparr>))"
| "copy_attempts hw st p src check_buf (Suc k) = do {
     let bin_size = unat (B_UpdatesTotalSize p);
     (d, check_buf, crc) \<leftarrow> copy_image hw (flash st) src check_buf bin_size (bin_size div FLASH_PAGE_SIZE) (bin_size mod FLASH_PAGE_SIZE);
     if B_UpdatesCRC32 p = crc then Some (Reset, boot_RunAppMode hw (st\<lparr>flash := Flash_Lock d\<rparr>))
     else copy_attempts hw (st\<lparr>flash := d\<rparr>) p src check_buf k }"

subsection \<open>Unpacking a compressed image\<close>

type_synonym uncompress = "u8 list \<Rightarrow> nat \<Rightarrow> u8 list \<Rightarrow> (u8 list \<times> nat \<times> nat) option"

partial_function (option) unpack_loop ::
    "uncompress \<Rightarrow> flash_hw \<Rightarrow> boot_updata \<Rightarrow> flash_dev \<Rightarrow> u8 list \<Rightarrow> nat \<Rightarrow> nat \<Rightarrow> nat \<Rightarrow> (flash_dev \<times> u8 list \<times> nat) option" where
  "unpack_loop unz hw p d check_buf pSrcData ComSizeCnt UncomSizeCnt =
     (if ComSizeCnt < unat (B_UpdatesTotalSize p) then do {
        let room = unat (B_PerComPackOriginalSize p) * 2;
        (check_buf, UncomSizeCntTmp, ComSizeCntTmp) \<leftarrow> unz check_buf room (map (cells d) [pSrcData..<pSrcData + room]);
        (d, _) \<leftarrow> boot_Flash_Write hw (fst (FLASH_WaitForLastOperation d)) (u32_add addr_apprun UncomSizeCnt) check_buf UncomSizeCntTmp;
        unpack_loop unz hw p d check_buf (u32_add pSrcData ComSizeCntTmp) (u32_add ComSizeCnt ComSizeCntTmp)
          (u32_add UncomSizeCnt UncomSizeCntTmp) }
      else Some (d, check_buf, UncomSizeCnt))"

text \<open>After an attempt the source pointer stays at the start of the application.\<close>

fun unpack_attempts :: "uncompress \<Rightarrow> flash_hw \<Rightarrow> dev_state \<Rightarrow> boot_updata \<Rightarrow> u8 list \<Rightarrow> nat \<Rightarrow> nat \<Rightarrow> (boot_end \<times> dev_state) option" where
  "unpack_attempts unz hw st p check_buf pSrcData 0 =
     ota_mode hw (boot_ForceUpdateAppMode hw (st\<lparr>flash := Flash_Lock (flash st)\<rparr>))"
| "unpack_attempts unz hw st p check_buf pSrcData (Suc k) = do {
     let (d, _) = boot_Flash_Erase_Page hw (flash st) addr_apprun (unat (B_ComPackOriginalSize p));
     (d, check_buf, UncomSizeCnt) \<leftarrow> unpack_loop unz hw p d check_buf pSrcData 0 0;
     let pSrcData = addr_apprun;
     CRC32 \<leftarrow> CRC32_Update (CRC32_Init 0) (map (cells d) [pSrcData..<pSrcData + UncomSizeCnt]) UncomSizeCnt;
     if B_ComPackOriginalCRC32 p = fst (CRC32_Final CRC32) \<and> unat (B_ComPackOriginalSize p) = UncomSizeCnt
     then Some (Reset, boot_RunAppMode hw (st\<lparr>flash := Flash_Lock d\<rparr>))
     else unpack_attempts unz hw (st\<lparr>flash := d\<rparr>) p check_buf pSrcData k }"

subsection \<open>main\<close>

definition boot_update :: "uncompress \<Rightarrow> flash_hw \<Rightarrow> u8 list \<Rightarrow> dev_state \<Rightarrow> (boot_end \<times> dev_state) option" where
  "boot_update unz hw check_buf st = do {
     let copy = addr_appcopy st;
     (header, _) \<leftarrow> Flash_Read (flash st) (page_from_end (flash st) FLASH_APP_INFO_ADDR) (replicate sizeof_boot_updata 0) sizeof_boot_updata;
     let p = boot_updata_of header;
     let bin_size = unat (B_UpdatesTotalSize p);
     if OTA_BIN_MAX_SIZE < bin_size then run_app hw (boot_RunAppMode hw st)
     else do {
       (check_buf, crc) \<leftarrow> check_image (flash st) copy check_buf (bin_size div FLASH_PAGE_SIZE) (bin_size mod FLASH_PAGE_SIZE);
       if B_UpdatesCRC32 p \<noteq> crc then run_app hw (boot_RunAppMode hw st)
       else
         let st = st\<lparr>flash := Flash_Unlock (flash st)\<rparr> in
         if B_CompressFlag p = 1 then unpack_attempts unz hw st p check_buf copy 3
         else copy_attempts hw st p copy check_buf 3 } }"

definition boot_main :: "uncompress \<Rightarrow> flash_hw \<Rightarrow> dev_state \<Rightarrow> (boot_end \<times> dev_state) option" where
  "boot_main unz hw st =
     (let flag = ReadIAPMode (flash st);
          st = st\<lparr>IAP_FLAG := flag\<rparr>
      in if flag = OTA_RUN_APP then run_app hw st
         else if flag = OTA_Update_APP then boot_update unz hw (replicate FLASH_PAGE_SIZE 0) st
         else ota_mode hw st)"

subsection \<open>Reading an image page by page\<close>

definition image_crc :: "u8 list \<Rightarrow> u32" where
  "image_crc xs = crc32_ref 0xFFFFFFFF xs XOR 0xFFFFFFFF"

lemma crc32_ref_Nil [simp]: "crc32_ref c [] = c"
  by (simp add: crc32_ref_def)

lemma crc32_ref_append: "crc32_ref c (xs @ ys) = crc32_ref (crc32_ref c xs) ys"
  by (simp add: crc32_ref_def)

lemma crc_final: "fst (CRC32_Final (crc32_ref (CRC32_Init 0) xs)) = image_crc xs"
  by (simp add: CRC32_Final_def CRC32_Init_def image_crc_def Let_def)

lemma Flash_Read_front:
  "n \<le> length buf \<Longrightarrow> Flash_Read d a buf n = Some (map (cells d) [a..<a + n] @ drop n buf, n)"
  by (simp add: Flash_Read_def memcpy_in)

lemma CRC32_Update_front: "length xs = n \<Longrightarrow> CRC32_Update c (xs @ ys) n = Some (crc32_ref c xs)"
  by (simp add: CRC32_Update_ref)

lemma upt_glue: "i \<le> j \<Longrightarrow> j \<le> k \<Longrightarrow> map f [i..<k] = map f [i..<j] @ map f [j..<k]" for i j k :: nat
  by (metis le_add_diff_inverse map_append upt_add_eq_append)

lemma page_address: "a + i * FLASH_PAGE_SIZE < U32_RANGE \<Longrightarrow> u32_add a (u32_mul i FLASH_PAGE_SIZE) = a + i * FLASH_PAGE_SIZE"
  by (simp add: u32_simps)

lemma check_pages_crc:
  "length buf = FLASH_PAGE_SIZE \<Longrightarrow> a + (i + n) * FLASH_PAGE_SIZE < U32_RANGE \<Longrightarrow>
   \<exists>buf'. length buf' = FLASH_PAGE_SIZE \<and> check_pages d a buf c i n =
     Some (buf', crc32_ref c (map (cells d) [a + i * FLASH_PAGE_SIZE..<a + (i + n) * FLASH_PAGE_SIZE]))"
proof (induction n arbitrary: buf c i)
  case (Suc n)
  let ?a = "a + i * FLASH_PAGE_SIZE" and ?e = "a + (i + Suc n) * FLASH_PAGE_SIZE"
  define xs where "xs = map (cells d) [?a..<?a + FLASH_PAGE_SIZE]"
  have l: "length xs = FLASH_PAGE_SIZE" by (simp add: xs_def)
  have e: "a + (i + 1 + n) * FLASH_PAGE_SIZE = ?e" "a + (i + 1) * FLASH_PAGE_SIZE = ?a + FLASH_PAGE_SIZE" by simp_all
  obtain buf' where b: "length buf' = FLASH_PAGE_SIZE" "check_pages d a xs (crc32_ref c xs) (i + 1) n =
      Some (buf', crc32_ref (crc32_ref c xs) (map (cells d) [?a + FLASH_PAGE_SIZE..<?e]))"
    using Suc.IH [OF l, of "i + 1" "crc32_ref c xs"] Suc.prems(2) unfolding e by auto
  have split: "map (cells d) [?a..<?e] = xs @ map (cells d) [?a + FLASH_PAGE_SIZE..<?e]"
    unfolding xs_def by (rule upt_glue) simp_all
  have "u32_add a (u32_mul i FLASH_PAGE_SIZE) = ?a" using Suc.prems(2) by (intro page_address) simp
  then have "check_pages d a buf c i (Suc n) = check_pages d a xs (crc32_ref c xs) (i + 1) n"
    using Suc.prems(1) Flash_Read_front [of FLASH_PAGE_SIZE buf d ?a] CRC32_Update_front [OF l, of c "[]"]
    by (simp add: xs_def [symmetric])
  then show ?case using b unfolding split crc32_ref_append by auto
qed simp

lemma check_image_crc:
  assumes "length buf = FLASH_PAGE_SIZE" "a + n < U32_RANGE"
  shows "\<exists>buf'. length buf' = FLASH_PAGE_SIZE \<and>
    check_image d a buf (n div FLASH_PAGE_SIZE) (n mod FLASH_PAGE_SIZE) = Some (buf', image_crc (map (cells d) [a..<a + n]))"
proof -
  let ?q = "n div FLASH_PAGE_SIZE" and ?r = "n mod FLASH_PAGE_SIZE"
  have n: "n = ?q * FLASH_PAGE_SIZE + ?r" "?r < FLASH_PAGE_SIZE" by simp_all
  let ?m = "a + ?q * FLASH_PAGE_SIZE"
  have m: "?m < U32_RANGE" using assms(2) n(1) by linarith
  obtain b1 where b1: "length b1 = FLASH_PAGE_SIZE"
      "check_pages d a buf (CRC32_Init 0) 0 ?q = Some (b1, crc32_ref (CRC32_Init 0) (map (cells d) [a..<?m]))"
    using check_pages_crc [OF assms(1), of a 0 ?q d "CRC32_Init 0"] m by auto
  have split: "map (cells d) [a..<a + n] = map (cells d) [a..<?m] @ map (cells d) [?m..<?m + ?r]"
  proof -
    have e: "a + n = ?m + ?r" using n(1) by linarith
    show ?thesis unfolding e by (rule upt_glue) simp_all
  qed
  have at: "u32_add a (u32_mul ?q FLASH_PAGE_SIZE) = ?m" by (rule page_address [OF m])
  show ?thesis
  proof (cases "?r = 0")
    case True
    then show ?thesis using b1 crc_final [of "map (cells d) [a..<?m]"] unfolding split by (simp add: check_image_def)
  next
    case False
    have "Flash_Read d ?m b1 ?r = Some (map (cells d) [?m..<?m + ?r] @ drop ?r b1, ?r)"
      using n(2) b1(1) by (intro Flash_Read_front) simp
    moreover have "CRC32_Update c (map (cells d) [?m..<?m + ?r] @ drop ?r b1) ?r = Some (crc32_ref c (map (cells d) [?m..<?m + ?r]))" for c
      by (rule CRC32_Update_front) (simp only: length_map length_upt diff_add_inverse)
    ultimately show ?thesis
      using False b1 n(2) crc_final [of "map (cells d) [a..<?m] @ map (cells d) [?m..<?m + ?r]"] unfolding split crc32_ref_append
      by (simp add: check_image_def at)
  qed
qed

subsection \<open>Copying\<close>

text \<open>The flash \<open>d'\<close> is \<open>d\<close> with other contents; the controller answers.\<close>

definition rewritten :: "flash_dev \<Rightarrow> (nat \<Rightarrow> u8) \<Rightarrow> flash_dev \<Rightarrow> bool" where
  "rewritten d m d' \<longleftrightarrow> (\<exists>l s. d' = d\<lparr>cells := m, locked := l, sr := s\<rparr> \<and> answered s)"

lemma rewritten_facts:
  "rewritten d m d' \<Longrightarrow> cells d' = m \<and> ready d' \<and> Get_FlashSize d' = Get_FlashSize d \<and> in_flash d' = in_flash d \<and>
     chip_uid d' = chip_uid d \<and> page_from_end d' = page_from_end d"
  by (auto simp: rewritten_def ready_def Get_FlashSize_def in_flash_def page_from_end_def fun_eq_iff)

lemma rewritten_trans: "rewritten d m d' \<Longrightarrow> rewritten d' m' d'' \<Longrightarrow> rewritten d m' d''"
proof -
  assume "rewritten d m d'" "rewritten d' m' d''"
  then obtain l s l' s' where "d' = d\<lparr>cells := m, locked := l, sr := s\<rparr>" "d'' = d'\<lparr>cells := m', locked := l', sr := s'\<rparr>" "answered s'"
    by (auto simp: rewritten_def)
  then have "d'' = d\<lparr>cells := m', locked := l', sr := s'\<rparr> \<and> answered s'" by simp
  then show ?thesis unfolding rewritten_def by blast
qed

lemma rewritten_lock: "rewritten d m d' \<Longrightarrow> rewritten d m (Flash_Lock d')"
proof -
  assume "rewritten d m d'"
  then obtain l s where "d' = d\<lparr>cells := m, locked := l, sr := s\<rparr>" "answered s" by (auto simp: rewritten_def)
  then have "Flash_Lock d' = d\<lparr>cells := m, locked := True, sr := s\<rparr> \<and> answered s" by (simp add: Flash_Lock_def)
  then show ?thesis unfolding rewritten_def by blast
qed

lemma copy_part_copies:
  fixes src :: nat
  assumes "nor_flash hw" "ready d" "length buf = FLASH_PAGE_SIZE" "n \<le> FLASH_PAGE_SIZE"
    "blank d (addr_apprun + i * FLASH_PAGE_SIZE) (8 * ((n + 7) div 8))" "src + i * FLASH_PAGE_SIZE < U32_RANGE"
    "0 < n"
  defines "R \<equiv> addr_apprun + i * FLASH_PAGE_SIZE"
  defines "xs \<equiv> map (cells d) [src + i * FLASH_PAGE_SIZE..<src + i * FLASH_PAGE_SIZE + n]"
  shows "\<exists>d' buf'. copy_part hw d src buf c i n = Some (d', buf', crc32_ref c xs) \<and> length buf' = FLASH_PAGE_SIZE \<and>
    rewritten d (put (cells d) R xs) d'"
proof -
  let ?d = "fst (FLASH_WaitForLastOperation d)"
  have w: "?d = d\<lparr>sr := FLASH_COMPLETE\<rparr>" by (rule wait_ready [OF assms(2)])
  have lx: "length xs = n" by (simp add: xs_def)
  have "in_flash d R" using assms(5,7) unfolding R_def blank_def by simp
  then have R: "u32_add addr_apprun (u32_mul i FLASH_PAGE_SIZE) = R"
    using in_flash_less [of d R] unfolding R_def by (intro page_address) simp
  have S: "u32_add src (u32_mul i FLASH_PAGE_SIZE) = src + i * FLASH_PAGE_SIZE" by (rule page_address [OF assms(6)])
  have r1: "Flash_Read ?d (src + i * FLASH_PAGE_SIZE) buf n = Some (xs @ drop n buf, n)"
    using Flash_Read_front [of n buf ?d] assms(3,4) by (simp add: w xs_def)
  let ?b = "xs @ drop n buf"
  have "R = 8 * (0x1001400 + i * 256)" unfolding R_def by simp
  then have "R mod 8 = 0" by (simp only: mod_mult_self1_is_0)
  then have w1: "boot_Flash_Write hw ?d R ?b n =
      Some (d\<lparr>locked := True, sr := FLASH_COMPLETE, cells := put (cells d) R xs\<rparr>, n)"
    using boot_Flash_Write_blank [OF assms(1), of R n ?b ?d] assms(5) lx unfolding R_def w by (simp add: ready_def)
  let ?d' = "d\<lparr>locked := True, sr := FLASH_COMPLETE, cells := put (cells d) R xs\<rparr>"
  have lb: "length ?b = FLASH_PAGE_SIZE" using lx assms(3,4) by simp
  have "map (put (cells d) R xs) [R..<R + n] = xs" using put_read [of "cells d" R xs] lx by simp
  then have r2: "Flash_Read ?d' R ?b n = Some (xs @ drop n ?b, n)"
    using Flash_Read_front [of n ?b ?d' R] lb assms(4) by simp
  have cr: "CRC32_Update c (xs @ drop n ?b) n = Some (crc32_ref c xs)" by (rule CRC32_Update_front [OF lx])
  have "copy_part hw d src buf c i n = Some (?d', xs @ drop n ?b, crc32_ref c xs)"
    unfolding copy_part_def R S by (simp add: case_prod_beta r1 w1 r2 cr del: drop_append)
  moreover have "rewritten d (put (cells d) R xs) ?d'"
    unfolding rewritten_def by (intro exI [of _ True] exI [of _ FLASH_COMPLETE]) simp
  moreover have "length (xs @ drop n ?b) = FLASH_PAGE_SIZE" using lx lb assms(4) by simp
  ultimately show ?thesis by blast
qed

lemma rewritten_same: "ready d \<Longrightarrow> rewritten d (cells d) d"
  unfolding rewritten_def ready_def by (intro exI [of _ "locked d"] exI [of _ "sr d"]) simp

lemma rewritten_blank: "rewritten d m d' \<Longrightarrow> blank d' = blank (d\<lparr>cells := m\<rparr>)"
  by (auto simp: rewritten_def)

lemma map_put_out:
  assumes "b \<le> r \<or> r + length xs \<le> a"
  shows "map (put m r xs) [a..<b] = map m [a..<b]"
  using assms by (intro map_cong refl put_out) auto

lemma copy_pages_copies:
  fixes src :: nat
  assumes "nor_flash hw"
  shows "ready d \<Longrightarrow> length buf = FLASH_PAGE_SIZE \<Longrightarrow>
    blank d (addr_apprun + i * FLASH_PAGE_SIZE) (n * FLASH_PAGE_SIZE) \<Longrightarrow> addr_apprun + (i + n) * FLASH_PAGE_SIZE \<le> src \<Longrightarrow>
    src + (i + n) * FLASH_PAGE_SIZE < U32_RANGE \<Longrightarrow>
    \<exists>d' buf'. copy_pages hw d src buf c i n =
        Some (d', buf', crc32_ref c (map (cells d) [src + i * FLASH_PAGE_SIZE..<src + (i + n) * FLASH_PAGE_SIZE])) \<and>
      length buf' = FLASH_PAGE_SIZE \<and>
      rewritten d (put (cells d) (addr_apprun + i * FLASH_PAGE_SIZE)
        (map (cells d) [src + i * FLASH_PAGE_SIZE..<src + (i + n) * FLASH_PAGE_SIZE])) d'"
proof (induction n arbitrary: d buf c i)
  case 0
  then show ?case using rewritten_same [of d] by simp
next
  case (Suc n)
  let ?R = "addr_apprun + i * FLASH_PAGE_SIZE" and ?S = "src + i * FLASH_PAGE_SIZE"
  let ?e = "src + (i + Suc n) * FLASH_PAGE_SIZE"
  define xs ys where "xs = map (cells d) [?S..<?S + FLASH_PAGE_SIZE]" and "ys = map (cells d) [?S + FLASH_PAGE_SIZE..<?e]"
  have lx: "length xs = FLASH_PAGE_SIZE" by (simp add: xs_def)
  have all: "map (cells d) [?S..<?e] = xs @ ys" unfolding xs_def ys_def by (rule upt_glue) simp_all
  have e: "src + (i + 1) * FLASH_PAGE_SIZE = ?S + FLASH_PAGE_SIZE" "src + (i + 1 + n) * FLASH_PAGE_SIZE = ?e"
    "addr_apprun + (i + 1) * FLASH_PAGE_SIZE = ?R + FLASH_PAGE_SIZE" "addr_apprun + (i + 1 + n) * FLASH_PAGE_SIZE = ?R + (n + 1) * FLASH_PAGE_SIZE"
    by simp_all
  have b1: "blank d ?R (8 * ((FLASH_PAGE_SIZE + 7) div 8))" using Suc.prems(3) by (auto intro: blank_sub)
  have S: "?S < U32_RANGE" using Suc.prems(5) by simp
  obtain d1 buf1 where 1: "copy_part hw d src buf c i FLASH_PAGE_SIZE = Some (d1, buf1, crc32_ref c xs)"
      "length buf1 = FLASH_PAGE_SIZE" "rewritten d (put (cells d) ?R xs) d1"
    using copy_part_copies [OF assms Suc.prems(1,2) order_refl b1 S, of c] unfolding xs_def by auto
  note f1 = rewritten_facts [OF 1(3)]
  have b2: "blank d1 (?R + FLASH_PAGE_SIZE) (n * FLASH_PAGE_SIZE)"
    unfolding rewritten_blank [OF 1(3)] using Suc.prems(3) lx by (intro blank_put blank_sub [OF Suc.prems(3)]) auto
  have run: "?R + (n + 1) * FLASH_PAGE_SIZE \<le> src" "?e < U32_RANGE" using Suc.prems(4,5) by simp_all
  have far: "?R + length xs \<le> ?S + FLASH_PAGE_SIZE" using run(1) unfolding lx by simp
  have ys: "map (cells d1) [?S + FLASH_PAGE_SIZE..<?e] = ys"
    unfolding ys_def f1 [THEN conjunct1] using far by (intro map_put_out) auto
  obtain d' buf' where 2: "copy_pages hw d1 src buf1 (crc32_ref c xs) (i + 1) n = Some (d', buf', crc32_ref (crc32_ref c xs) ys)"
      "length buf' = FLASH_PAGE_SIZE" "rewritten d1 (put (cells d1) (?R + FLASH_PAGE_SIZE) ys) d'"
    using Suc.IH [of d1 buf1 "i + 1" "crc32_ref c xs"] f1 1(2) b2 run unfolding e ys by auto
  have "put (cells d1) (?R + FLASH_PAGE_SIZE) ys = put (cells d) ?R (xs @ ys)"
    using put_append [of "cells d" ?R xs ys] f1 unfolding lx by simp
  then have "rewritten d (put (cells d) ?R (xs @ ys)) d'" using rewritten_trans [OF 1(3) 2(3)] by simp
  then show ?case unfolding all crc32_ref_append using 1(1) 2(1,2) by simp
qed

lemma copy_image_copies:
  fixes src :: nat
  assumes "nor_flash hw" "ready d" "length buf = FLASH_PAGE_SIZE" "0 < n" "n \<le> OTA_BIN_MAX_SIZE"
    "addr_apprun + pages_of n * FLASH_PAGE_SIZE \<le> src" "src + n < U32_RANGE"
    "\<forall>b < pages_of n * FLASH_PAGE_SIZE. in_flash d (addr_apprun + b)"
  defines "img \<equiv> map (cells d) [src..<src + n]"
  shows "\<exists>d' buf'. copy_image hw d src buf n (n div FLASH_PAGE_SIZE) (n mod FLASH_PAGE_SIZE) = Some (d', buf', image_crc img) \<and>
    rewritten d (put (wipe (cells d) addr_apprun (pages_of n * FLASH_PAGE_SIZE)) addr_apprun img) d'"
proof -
  let ?q = "n div FLASH_PAGE_SIZE" and ?r = "n mod FLASH_PAGE_SIZE" and ?w = "pages_of n * FLASH_PAGE_SIZE"
  have n: "n = ?q * FLASH_PAGE_SIZE + ?r" "?r < FLASH_PAGE_SIZE" by simp_all
  have w: "?q * FLASH_PAGE_SIZE + 8 * ((?r + 7) div 8) \<le> ?w" "n \<le> ?w"
  proof -
    have "8 * ((?r + 7) div 8) \<le> (if ?r = 0 then 0 else FLASH_PAGE_SIZE)"
    proof (cases "?r = 0")
      case False
      have "8 * ((?r + 7) div 8) \<le> 8 * ((FLASH_PAGE_SIZE - 1 + 7) div 8)" using n(2) by (intro mult_le_mono2 div_le_mono) simp
      then show ?thesis using False by simp
    qed simp
    moreover have "pages_of n = ?q + (if ?r = 0 then 0 else 1)"
    proof -
      have "pages_of (q * FLASH_PAGE_SIZE + r) = q + (r + (FLASH_PAGE_SIZE - 1)) div FLASH_PAGE_SIZE" for q r
        unfolding pages_of_def by (simp add: add.assoc)
      from this [of ?q ?r] have "pages_of n = ?q + (?r + (FLASH_PAGE_SIZE - 1)) div FLASH_PAGE_SIZE"
        unfolding n(1) [symmetric] .
      moreover have "(?r + (FLASH_PAGE_SIZE - 1)) div FLASH_PAGE_SIZE = (if ?r = 0 then 0 else 1)"
        using n(2) by (auto intro!: div_nat_eqI)
      ultimately show ?thesis by simp
    qed
    ultimately show "?q * FLASH_PAGE_SIZE + 8 * ((?r + 7) div 8) \<le> ?w" by (simp split: if_splits)
    show "n \<le> ?w" by (rule pages_of_ge)
  qed
  define d0 where "d0 = d\<lparr>locked := True, sr := FLASH_COMPLETE, cells := wipe (cells d) addr_apprun ?w\<rparr>"
  have "addr_apprun mod FLASH_PAGE_SIZE = (0 :: nat)" by simp
  then have e: "boot_Flash_Erase_Page hw d addr_apprun n = (d0, HAL_OK)"
    unfolding d0_def by (rule boot_Flash_Erase_Page_wipe [OF assms(1) _ assms(2,4,5,8)])
  have r0: "rewritten d (wipe (cells d) addr_apprun ?w) d0"
    unfolding rewritten_def d0_def by (intro exI [of _ True] exI [of _ FLASH_COMPLETE]) simp
  note f0 = rewritten_facts [OF r0]
  have b0: "blank d0 addr_apprun ?w"
    unfolding rewritten_blank [OF r0] using assms(8) by (intro wiped_blank) auto
  have src: "map (cells d0) [a..<b] = map (cells d) [a..<b]" if "src \<le> a" for a b
    unfolding f0 [THEN conjunct1] using that assms(6) by (intro map_cong refl) (auto simp: wipe_def)
  let ?m = "src + ?q * FLASH_PAGE_SIZE" and ?M = "addr_apprun + ?q * FLASH_PAGE_SIZE"
  define xs ys where "xs = map (cells d) [src..<?m]" and "ys = map (cells d) [?m..<?m + ?r]"
  have en: "src + n = ?m + ?r" using n(1) by linarith
  have img: "img = xs @ ys" unfolding img_def xs_def ys_def en by (rule upt_glue) simp_all
  have lx: "length xs = ?q * FLASH_PAGE_SIZE" by (simp add: xs_def)
  have q: "?q * FLASH_PAGE_SIZE \<le> n" by simp
  have b1: "blank d0 (addr_apprun + 0 * FLASH_PAGE_SIZE) (?q * FLASH_PAGE_SIZE)"
    using w(2) q by (intro blank_sub [OF b0]) auto
  obtain d1 buf1 where 1: "copy_pages hw d0 src buf (CRC32_Init 0) 0 ?q = Some (d1, buf1, crc32_ref (CRC32_Init 0) xs)"
      "length buf1 = FLASH_PAGE_SIZE" "rewritten d0 (put (cells d0) addr_apprun xs) d1"
  proof -
    have sx: "map (cells d0) [src + 0 * FLASH_PAGE_SIZE..<src + (0 + ?q) * FLASH_PAGE_SIZE] = xs"
      using src [of src ?m] by (simp add: xs_def)
    have "addr_apprun + (0 + ?q) * FLASH_PAGE_SIZE \<le> src" "src + (0 + ?q) * FLASH_PAGE_SIZE < U32_RANGE"
      using assms(6,7) w(2) q by simp_all
    then show ?thesis
      using copy_pages_copies [OF assms(1) _ assms(3) b1, of src "CRC32_Init 0"] f0 that unfolding sx by auto
  qed
  have rx: "rewritten d (put (wipe (cells d) addr_apprun ?w) addr_apprun xs) d1"
    using rewritten_trans [OF r0 1(3)] f0 by simp
  note f1 = rewritten_facts [OF 1(3)]
  show ?thesis
  proof (cases "?r = 0")
    case True
    then have "ys = []" by (simp add: ys_def)
    then show ?thesis
      using True e 1 rx crc_final [of xs] unfolding img by (simp add: copy_image_def)
  next
    case False
    have b2: "blank d1 ?M (8 * ((?r + 7) div 8))"
      unfolding rewritten_blank [OF 1(3)] using lx w(1) by (intro blank_put blank_sub [OF b0]) auto
    have S: "?m < U32_RANGE" using en assms(7) by linarith
    have ys: "map (cells d1) [?m..<?m + ?r] = ys"
    proof -
      have "map (cells d1) [?m..<?m + ?r] = map (cells d0) [?m..<?m + ?r]"
        unfolding f1 [THEN conjunct1] using assms(6) w(2) q lx by (intro map_put_out) auto
      then show ?thesis using src [of ?m] by (simp add: ys_def)
    qed
    obtain d2 buf2 where 2: "copy_part hw d1 src buf1 (crc32_ref (CRC32_Init 0) xs) ?q ?r =
        Some (d2, buf2, crc32_ref (crc32_ref (CRC32_Init 0) xs) ys)" "rewritten d1 (put (cells d1) ?M ys) d2"
      using copy_part_copies [OF assms(1) _ 1(2) _ b2 S, of "crc32_ref (CRC32_Init 0) xs"] f1 n(2) False unfolding ys by auto
    have "put (cells d1) ?M ys = put (wipe (cells d) addr_apprun ?w) addr_apprun (xs @ ys)"
      using put_append [of "cells d0" addr_apprun xs ys] f1 f0 unfolding lx by simp
    then have "rewritten d (put (wipe (cells d) addr_apprun ?w) addr_apprun (xs @ ys)) d2"
      using rewritten_trans [OF rx 2(2)] by simp
    then show ?thesis
      using False e 1(1) 2(1) crc_final [of "xs @ ys"] unfolding img crc32_ref_append by (simp add: copy_image_def)
  qed
qed

subsection \<open>What main does with a waiting image\<close>

text \<open>The image that waits and its header, as \<open>main\<close> reads them.\<close>

definition waiting_header :: "dev_state \<Rightarrow> boot_updata" where
  "waiting_header st =
     boot_updata_of (map (cells (flash st)) [page_from_end (flash st) FLASH_APP_INFO_ADDR..<
       page_from_end (flash st) FLASH_APP_INFO_ADDR + sizeof_boot_updata])"

definition waiting_image :: "dev_state \<Rightarrow> u8 list" where
  "waiting_image st =
     map (cells (flash st)) [addr_appcopy st..<addr_appcopy st + unat (B_UpdatesTotalSize (waiting_header st))]"

definition waiting_image_ok :: "dev_state \<Rightarrow> bool" where
  "waiting_image_ok st \<longleftrightarrow>
     unat (B_UpdatesTotalSize (waiting_header st)) \<le> OTA_BIN_MAX_SIZE \<and> image_crc (waiting_image st) = B_UpdatesCRC32 (waiting_header st)"

lemma header_read:
  "Flash_Read (flash st) (page_from_end (flash st) FLASH_APP_INFO_ADDR) (replicate sizeof_boot_updata 0) sizeof_boot_updata =
     Some (map (cells (flash st)) [page_from_end (flash st) FLASH_APP_INFO_ADDR..<
       page_from_end (flash st) FLASH_APP_INFO_ADDR + sizeof_boot_updata], sizeof_boot_updata)"
  by (simp add: Flash_Read_front)

lemma copy_area_small: "dev_ok st \<Longrightarrow> n \<le> OTA_BIN_MAX_SIZE \<Longrightarrow> addr_appcopy st + n < U32_RANGE"
  using dev_ok_copy(3) [of st 0 n] in_flash_less [of "flash st" "addr_appcopy st + n"] by simp

lemma boot_update_refuses:
  assumes "dev_ok st" "\<not> waiting_image_ok st" "length buf = FLASH_PAGE_SIZE"
  shows "boot_update unz hw buf st = run_app hw (boot_RunAppMode hw st)"
proof -
  let ?p = "waiting_header st" let ?n = "unat (B_UpdatesTotalSize ?p)"
  show ?thesis
  proof (cases "OTA_BIN_MAX_SIZE < ?n")
    case True
    then show ?thesis by (simp add: boot_update_def header_read waiting_header_def [symmetric] Let_def)
  next
    case False
    then have n: "?n \<le> OTA_BIN_MAX_SIZE" by simp
    obtain buf' where "check_image (flash st) (addr_appcopy st) buf (?n div FLASH_PAGE_SIZE) (?n mod FLASH_PAGE_SIZE) =
        Some (buf', image_crc (waiting_image st))"
      using check_image_crc [OF assms(3) copy_area_small [OF assms(1) n], of "flash st"] unfolding waiting_image_def by auto
    then show ?thesis
      using False assms(2) n by (simp add: boot_update_def header_read waiting_header_def [symmetric] Let_def waiting_image_ok_def)
  qed
qed

text \<open>A device whose run area and copy area do not overlap: at least 258 KB of flash.\<close>

lemma run_area:
  assumes "dev_ok st" "258 \<le> Get_FlashSize (flash st)" "n \<le> OTA_BIN_MAX_SIZE"
  shows "addr_apprun + pages_of n * FLASH_PAGE_SIZE \<le> addr_appcopy st"
    "\<forall>b < pages_of n * FLASH_PAGE_SIZE. in_flash (flash st) (addr_apprun + b)"
proof -
  have p: "pages_of n * FLASH_PAGE_SIZE \<le> OTA_BIN_MAX_SIZE" by (rule dev_ok_copy(4) [OF assms(1,3)])
  have "addr_appcopy st = FLASH_START_ADDR + Get_FlashSize (flash st) * 1024 - 57 * 2048"
    unfolding addr_appcopy_def using page_from_end_exact [of 57 "flash st"] assms(2) by simp
  then show 1: "addr_apprun + pages_of n * FLASH_PAGE_SIZE \<le> addr_appcopy st" using p assms(2) by simp
  show "\<forall>b < pages_of n * FLASH_PAGE_SIZE. in_flash (flash st) (addr_apprun + b)"
    using p assms(2) by (auto simp: in_flash_def)
qed

lemma boot_update_installs:
  assumes "nor_flash hw" "dev_ok st" "258 \<le> Get_FlashSize (flash st)" "waiting_image_ok st"
    "B_CompressFlag (waiting_header st) \<noteq> 1" "waiting_image st \<noteq> []" "length buf = FLASH_PAGE_SIZE"
  defines "W \<equiv> pages_of (length (waiting_image st)) * FLASH_PAGE_SIZE"
  shows "\<exists>st'. boot_update unz hw buf st = Some (Reset, st') \<and> ready (flash st') \<and>
    page_from_end (flash st') = page_from_end (flash st) \<and>
    cells (flash st') = wipe (put (wipe (cells (flash st)) addr_apprun W) addr_apprun (waiting_image st))
      (page_from_end (flash st) FLASH_IAP_FLAG_ADDR) FLASH_PAGE_SIZE"
proof -
  let ?p = "waiting_header st" and ?img = "waiting_image st" let ?n = "unat (B_UpdatesTotalSize ?p)"
  have n: "?n \<le> OTA_BIN_MAX_SIZE" "image_crc ?img = B_UpdatesCRC32 ?p" using assms(4) by (auto simp: waiting_image_ok_def)
  have len: "length ?img = ?n" by (simp add: waiting_image_def)
  then have pos: "0 < ?n" using assms(6) by (metis length_greater_0_conv)
  obtain buf' where 1: "check_image (flash st) (addr_appcopy st) buf (?n div FLASH_PAGE_SIZE) (?n mod FLASH_PAGE_SIZE) =
      Some (buf', image_crc ?img)" "length buf' = FLASH_PAGE_SIZE"
    using check_image_crc [OF assms(7) copy_area_small [OF assms(2) n(1)], of "flash st"] unfolding waiting_image_def by auto
  define d where "d = Flash_Unlock (flash st)"
  have d: "ready d" "cells d = cells (flash st)" "in_flash d = in_flash (flash st)" "rewritten (flash st) (cells (flash st)) d"
  proof -
    have u: "d = (flash st)\<lparr>locked := False, sr := FLASH_COMPLETE\<rparr>"
      using assms(2) unfolding d_def dev_ok_def by (intro Flash_Unlock_ready) simp
    show "rewritten (flash st) (cells (flash st)) d"
      unfolding rewritten_def by (intro exI [of _ False] exI [of _ FLASH_COMPLETE]) (simp add: u)
    show "ready d" "cells d = cells (flash st)" "in_flash d = in_flash (flash st)" by (simp_all add: u ready_def)
  qed
  note run = run_area [OF assms(2,3) n(1)]
  obtain d' buf'' where 2: "copy_image hw d (addr_appcopy st) buf' ?n (?n div FLASH_PAGE_SIZE) (?n mod FLASH_PAGE_SIZE) =
        Some (d', buf'', image_crc ?img)"
      "rewritten d (put (wipe (cells d) addr_apprun W) addr_apprun ?img) d'"
    using copy_image_copies [OF assms(1) d(1) 1(2) pos n(1) run(1) copy_area_small [OF assms(2) n(1)]] run(2)
    unfolding d(2,3) W_def len waiting_image_def by auto
  define st1 where "st1 = st\<lparr>flash := Flash_Lock d'\<rparr>"
  have r1: "rewritten (flash st) (put (wipe (cells (flash st)) addr_apprun W) addr_apprun ?img) (flash st1)"
    using rewritten_lock [OF rewritten_trans [OF d(4) 2(2)]] unfolding d(2) by (simp add: st1_def)
  note f1 = rewritten_facts [OF r1]
  have ok1: "dev_ok st1" using assms(2) f1 by (simp add: dev_ok_def st1_def)
  have "boot_update unz hw buf st = Some (Reset, boot_RunAppMode hw st1)"
  proof -
    have "boot_update unz hw buf st = copy_attempts hw (st\<lparr>flash := d\<rparr>) ?p (addr_appcopy st) buf' 3"
      using n 1(1) assms(5) by (simp add: boot_update_def header_read waiting_header_def [symmetric] Let_def d_def)
    also have "\<dots> = Some (Reset, boot_RunAppMode hw st1)"
      using 2(1) n(2) by (simp add: numeral_3_eq_3 st1_def Let_def)
    finally show ?thesis .
  qed
  moreover have "boot_RunAppMode hw st1 = st1\<lparr>IAP_FLAG := OTA_RUN_APP, flash := (flash st1)\<lparr>locked := True, sr := FLASH_COMPLETE,
      cells := wipe (cells (flash st1)) (page_from_end (flash st1) FLASH_IAP_FLAG_ADDR) FLASH_PAGE_SIZE\<rparr>\<rparr>"
    by (rule boot_RunAppMode_flash [OF assms(1) ok1])
  moreover have "page_from_end (d\<lparr>locked := l, sr := s, cells := m\<rparr>) = page_from_end d" for d l s m
    by (simp add: page_from_end_def Get_FlashSize_def fun_eq_iff)
  ultimately show ?thesis using f1 by (intro exI conjI) (assumption, simp_all add: ready_def)
qed

subsection \<open>Areas that do not meet\<close>

lemma wipe_out: "c \<le> b \<Longrightarrow> b < c + n \<Longrightarrow> b < a \<or> a + k \<le> b \<Longrightarrow> wipe m a k b = m b"
  by (auto simp: wipe_def)

lemma flag_page_behind:
  assumes "dev_ok st" "258 \<le> Get_FlashSize (flash st)" "0 < k" "k \<le> 57"
  shows "page_from_end (flash st) FLASH_IAP_FLAG_ADDR = addr_appcopy st + 56 * FLASH_PAGE_SIZE"
    "page_from_end (flash st) k + k * FLASH_PAGE_SIZE = addr_appcopy st + 57 * FLASH_PAGE_SIZE"
    "addr_apprun + OTA_BIN_MAX_SIZE \<le> addr_appcopy st"
proof -
  have e: "page_from_end (flash st) j = FLASH_START_ADDR + Get_FlashSize (flash st) * 1024 - j * 2048" if "j \<le> 57" for j
    using page_from_end_exact [of j "flash st"] assms(2) that by simp
  show "page_from_end (flash st) FLASH_IAP_FLAG_ADDR = addr_appcopy st + 56 * FLASH_PAGE_SIZE"
    "page_from_end (flash st) k + k * FLASH_PAGE_SIZE = addr_appcopy st + 57 * FLASH_PAGE_SIZE"
    "addr_apprun + OTA_BIN_MAX_SIZE \<le> addr_appcopy st"
    unfolding addr_appcopy_def using e [of 1] e [of 57] e [OF assms(4)] assms(2,4) by simp_all
qed

lemma waiting_image_short: "waiting_image_ok st \<Longrightarrow> length (waiting_image st) \<le> OTA_BIN_MAX_SIZE"
  by (simp add: waiting_image_ok_def waiting_image_def)

lemma read_flag_page: "read_u64 d a = OTA_RUN_APP" if "\<And>b. a \<le> b \<Longrightarrow> b < a + 8 \<Longrightarrow> cells d b = 0xFF"
proof -
  have "cells d a = 0xFF" "cells d (a + 1) = 0xFF" "cells d (a + 2) = 0xFF" "cells d (a + 3) = 0xFF"
    "cells d (a + 4) = 0xFF" "cells d (a + 5) = 0xFF" "cells d (a + 6) = 0xFF" "cells d (a + 7) = 0xFF"
    using that by simp_all
  then show ?thesis by (simp add: read_u64_def)
qed

lemma wiped_flag: "cells d = wipe m (page_from_end d FLASH_IAP_FLAG_ADDR) FLASH_PAGE_SIZE \<Longrightarrow> ReadIAPMode d = OTA_RUN_APP"
  unfolding ReadIAPMode_def by (rule read_flag_page) (simp add: wipe_def)

lemma boot_main_update:
  "ReadIAPMode (flash st) = OTA_Update_APP \<Longrightarrow>
   boot_main unz hw st = boot_update unz hw (replicate FLASH_PAGE_SIZE 0) (st\<lparr>IAP_FLAG := OTA_Update_APP\<rparr>)"
  by (simp add: boot_main_def)

lemma waiting_flag [simp]:
  "waiting_header (st\<lparr>IAP_FLAG := f\<rparr>) = waiting_header st" "waiting_image (st\<lparr>IAP_FLAG := f\<rparr>) = waiting_image st"
  "waiting_image_ok (st\<lparr>IAP_FLAG := f\<rparr>) = waiting_image_ok st" "addr_appcopy (st\<lparr>IAP_FLAG := f\<rparr>) = addr_appcopy st"
  "dev_ok (st\<lparr>IAP_FLAG := f\<rparr>) = dev_ok st"
  by (simp_all add: waiting_header_def waiting_image_def waiting_image_ok_def addr_appcopy_def dev_ok_def)

lemma boot_main_installs:
  assumes "nor_flash hw" "dev_ok st" "258 \<le> Get_FlashSize (flash st)" "ReadIAPMode (flash st) = OTA_Update_APP"
    "waiting_image_ok st" "B_CompressFlag (waiting_header st) \<noteq> 1" "waiting_image st \<noteq> []"
  shows "\<exists>st'. boot_main unz hw st = Some (Reset, st') \<and>
    map (cells (flash st')) [addr_apprun..<addr_apprun + length (waiting_image st)] = waiting_image st \<and>
    ReadIAPMode (flash st') = OTA_RUN_APP \<and> waiting_image st' = waiting_image st"
proof -
  let ?img = "waiting_image st" and ?A = "page_from_end (flash st) FLASH_IAP_FLAG_ADDR"
  let ?W = "pages_of (length ?img) * FLASH_PAGE_SIZE"
  obtain st' where s: "boot_main unz hw st = Some (Reset, st')" "page_from_end (flash st') = page_from_end (flash st)"
    "cells (flash st') = wipe (put (wipe (cells (flash st)) addr_apprun ?W) addr_apprun ?img) ?A FLASH_PAGE_SIZE"
    using boot_update_installs [OF assms(1), of "st\<lparr>IAP_FLAG := OTA_Update_APP\<rparr>" "replicate FLASH_PAGE_SIZE 0" unz] assms
    by (auto simp: boot_main_update)
  have W: "?W \<le> OTA_BIN_MAX_SIZE" "length ?img \<le> ?W"
    using dev_ok_copy(4) [OF assms(2) waiting_image_short [OF assms(5)]] pages_of_ge by auto
  note lay = flag_page_behind [OF assms(2,3)]
  have copy: "cells (flash st') b = cells (flash st) b" if "addr_appcopy st \<le> b" "b < addr_appcopy st + 56 * FLASH_PAGE_SIZE" for b
    using that W lay(1,3) [of 1] unfolding s(3) by (simp add: wipe_def put_def)
  have "map (cells (flash st')) [addr_apprun..<addr_apprun + length ?img] = ?img"
  proof -
    have "map (cells (flash st')) [addr_apprun..<addr_apprun + length ?img] =
        map (put (wipe (cells (flash st)) addr_apprun ?W) addr_apprun ?img) [addr_apprun..<addr_apprun + length ?img]"
      unfolding s(3) using W lay(1,3) [of 1] by (intro map_cong refl) (auto simp: wipe_def)
    then show ?thesis using put_read by simp
  qed
  moreover have "ReadIAPMode (flash st') = OTA_RUN_APP"
    by (rule wiped_flag) (simp add: s(2,3))
  moreover have "waiting_image st' = ?img"
  proof -
    have a: "addr_appcopy st' = addr_appcopy st" by (simp add: addr_appcopy_def s(2))
    have i: "page_from_end (flash st) FLASH_APP_INFO_ADDR = addr_appcopy st + 53 * FLASH_PAGE_SIZE" using lay(2) [of 4] by simp
    have "waiting_header st' = waiting_header st"
      unfolding waiting_header_def s(2) i by (intro arg_cong [of _ _ boot_updata_of] map_cong refl) (simp add: copy)
    then show ?thesis
      unfolding waiting_image_def a using assms(5) by (intro map_cong) (auto simp: copy waiting_image_ok_def)
  qed
  ultimately show ?thesis using s(1) by blast
qed

subsection \<open>Starting the application\<close>

definition starts :: "flash_dev \<Rightarrow> bool" where
  "starts d \<longleftrightarrow> read_u32 d addr_apprun AND 0x2FFE0000 = 0x20000000"

lemma run_app_starts:
  "starts (flash st) \<Longrightarrow> run_app hw st = Some (Jump (read_u32 (flash st) addr_apprun) (read_u32 (flash st) (addr_apprun + 4)), st)"
  by (simp add: run_app_def starts_def)

lemma read_u32_map: "read_u32 d a = u32_at (map (cells d) [b..<b + n]) i" if "b + i = a" "i + 4 \<le> n"
  using that by (simp add: read_u32_def u32_at_def add.assoc [symmetric])

lemma boot_starts_image:
  assumes "ReadIAPMode (flash st) = OTA_RUN_APP" "map (cells (flash st)) [addr_apprun..<addr_apprun + length img] = img"
    "8 \<le> length img" "u32_at img 0 AND 0x2FFE0000 = 0x20000000"
  shows "boot_main unz hw st = Some (Jump (u32_at img 0) (u32_at img 4), st\<lparr>IAP_FLAG := OTA_RUN_APP\<rparr>)"
proof -
  have "read_u32 (flash st) addr_apprun = u32_at img 0" "read_u32 (flash st) (addr_apprun + 4) = u32_at img 4"
    using read_u32_map [of addr_apprun 0 addr_apprun "length img" "flash st"]
      read_u32_map [of addr_apprun 4 "addr_apprun + 4" "length img" "flash st"] assms(3) unfolding assms(2) by simp_all
  then show ?thesis using assms(1,4) by (simp add: boot_main_def run_app_def)
qed

lemma boot_load_total:
  assumes "nor_flash hw" "dev_ok st"
  shows "\<exists>st'. boot_iap_param_load hw st = Some st' \<and> IAP_FLAG st' = IAP_FLAG st \<and>
    (\<forall>b. b < page_from_end (flash st) FLASH_IAP_PARAM_ADDR \<or> page_from_end (flash st) FLASH_IAP_PARAM_ADDR + FLASH_PAGE_SIZE \<le> b \<longrightarrow>
       cells (flash st') b = cells (flash st) b)"
proof (cases "read_u16 (flash st) (page_from_end (flash st) FLASH_IAP_PARAM_ADDR) = 0x1234")
  case True
  then show ?thesis by (simp add: boot_iap_param_load_def Let_def Flash_Read_front)
next
  case False
  let ?A = "page_from_end (flash st) FLASH_IAP_PARAM_ADDR"
  let ?p = "\<lparr>Power_First_Flag = 0x1234, ChipUniqueID = Get_ChipID (flash st),
       swversion = 1, hwversion = 1, IAP_flag = 1, remoteID = 0, ID = 0xFFFF\<rparr>"
  note f = page_facts [OF assms(2), of 2, simplified]
  have len: "length (iap_param_bytes ?p) = sizeof_iap_param" by (rule iap_param_layout) (simp add: Get_ChipID_def)
  let ?d = "(flash st)\<lparr>locked := False, sr := FLASH_COMPLETE\<rparr>"
  have w: "fst (FLASH_WaitForLastOperation (HAL_FLASH_Unlock (flash st))) = ?d"
    using wait_ready [of "HAL_FLASH_Unlock (flash st)"] f(4) by (simp add: HAL_FLASH_Unlock_def ready_def)
  let ?e = "?d\<lparr>cells := wipe (cells (flash st)) ?A FLASH_PAGE_SIZE\<rparr>"
  have e: "HAL_FLASHEx_Erase hw ?d ?A 1 = (?e, HAL_OK)"
    using HAL_FLASHEx_Erase_wipe [OF assms(1) f(2), of ?d 1] f(3) by simp
  have b: "blank ?e ?A (8 * ((sizeof_iap_param + 7) div 8))"
    using wiped_page_blank [OF assms(2), where k = 2 and n = 24 and l = False and s = FLASH_COMPLETE] by simp
  have "?A mod 8 = 0"
  proof -
    have "?A = FLASH_PAGE_SIZE * (?A div FLASH_PAGE_SIZE)" using f(2) by auto
    then have "?A = 8 * (256 * (?A div FLASH_PAGE_SIZE))" by simp
    then show ?thesis by (metis mod_mult_self1_is_0)
  qed
  then have "boot_Flash_Write hw ?e ?A (iap_param_bytes ?p) sizeof_iap_param =
      Some (?e\<lparr>locked := True, sr := FLASH_COMPLETE, cells := put (cells ?e) ?A (iap_param_bytes ?p)\<rparr>, sizeof_iap_param)"
    using boot_Flash_Write_blank [OF assms(1), of ?A sizeof_iap_param "iap_param_bytes ?p" ?e] b len by (simp add: ready_def)
  then have "boot_iap_param_save hw (st\<lparr>iap_param := ?p\<rparr>) = Some (st\<lparr>iap_param := ?p, flash := HAL_FLASH_Lock
      (?e\<lparr>locked := True, sr := FLASH_COMPLETE, cells := put (cells ?e) ?A (iap_param_bytes ?p)\<rparr>)\<rparr>)"
    using w e by (simp add: boot_iap_param_save_def Let_def case_prod_beta)
  then show ?thesis
    using False len by (simp add: boot_iap_param_load_def boot_iap_param_default_def Let_def Flash_Read_front HAL_FLASH_Lock_def wipe_def put_def)
qed

lemma ota_mode_total:
  assumes "nor_flash hw" "dev_ok st"
  shows "\<exists>st'. ota_mode hw st = Some (Ota_Loop, st')"
  using boot_load_total [OF assms] by (auto simp: ota_mode_def)

lemma keeps_application:
  assumes "nor_flash hw" "dev_ok st" "258 \<le> Get_FlashSize (flash st)" "ReadIAPMode (flash st) = OTA_Update_APP"
    "\<not> waiting_image_ok st" "starts (flash st)"
  shows "\<exists>st'. boot_main unz hw st = Some (Jump (read_u32 (flash st) addr_apprun) (read_u32 (flash st) (addr_apprun + 4)), st') \<and>
    (\<forall>b. b < addr_appcopy st \<longrightarrow> cells (flash st') b = cells (flash st) b) \<and> ReadIAPMode (flash st') = OTA_RUN_APP"
proof -
  let ?st = "st\<lparr>IAP_FLAG := OTA_Update_APP\<rparr>" let ?st' = "boot_RunAppMode hw ?st"
  have ok: "dev_ok ?st" using assms(2) by simp
  note r = boot_RunAppMode_flash [OF assms(1) ok]
  note lay = flag_page_behind [OF assms(2,3)]
  have keep: "cells (flash ?st') b = cells (flash st) b" if "b < addr_appcopy st" for b
    unfolding r using that lay(1) [of 1] by (simp add: wipe_def)
  have "addr_apprun + 8 \<le> addr_appcopy st" using lay(3) [of 1] by simp
  then have rd: "read_u32 (flash ?st') addr_apprun = read_u32 (flash st) addr_apprun"
    "read_u32 (flash ?st') (addr_apprun + 4) = read_u32 (flash st) (addr_apprun + 4)"
    by (simp_all add: read_u32_def keep)
  have "boot_main unz hw st = run_app hw ?st'"
    unfolding boot_main_update [OF assms(4)] by (rule boot_update_refuses [OF ok]) (use assms(5) in simp_all)
  also have "\<dots> = Some (Jump (read_u32 (flash st) addr_apprun) (read_u32 (flash st) (addr_apprun + 4)), ?st')"
    using run_app_starts [of ?st' hw] assms(6) unfolding starts_def rd by simp
  finally have "boot_main unz hw st = Some (Jump (read_u32 (flash st) addr_apprun) (read_u32 (flash st) (addr_apprun + 4)), ?st')" .
  moreover have "ReadIAPMode (flash ?st') = OTA_RUN_APP"
    by (rule wiped_flag) (simp add: r page_from_end_def Get_FlashSize_def)
  ultimately show ?thesis using keep by blast
qed

subsection \<open>Properties\<close>

text \<open>
  Property C4.  With the update flag set and an uncompressed image whose checksum is that of the stored
  header, the boot loader copies the image into the application area, clears the flag and resets; the
  copy stays, and at the next start the application is entered at the addresses that the image begins
  with, provided that they are a stack pointer in RAM and an entry point.
\<close>

theorem boot_installs_waiting_image:
  assumes "nor_flash hw" "dev_ok st" "258 \<le> Get_FlashSize (flash st)" "ReadIAPMode (flash st) = OTA_Update_APP"
    "waiting_image_ok st" "B_CompressFlag (waiting_header st) \<noteq> 1" "8 \<le> length (waiting_image st)"
    "u32_at (waiting_image st) 0 AND 0x2FFE0000 = 0x20000000"
  shows "\<exists>st'. boot_main unz hw st = Some (Reset, st') \<and>
    map (cells (flash st')) [addr_apprun..<addr_apprun + length (waiting_image st)] = waiting_image st \<and>
    waiting_image st' = waiting_image st \<and>
    (\<exists>st''. boot_main unz hw st' = Some (Jump (u32_at (waiting_image st) 0) (u32_at (waiting_image st) 4), st''))"
proof -
  let ?img = "waiting_image st"
  have "?img \<noteq> []" using assms(7) by auto
  then obtain st' where s: "boot_main unz hw st = Some (Reset, st')"
    "map (cells (flash st')) [addr_apprun..<addr_apprun + length ?img] = ?img" "ReadIAPMode (flash st') = OTA_RUN_APP"
    "waiting_image st' = ?img"
    using boot_main_installs [OF assms(1-6)] by blast
  then show ?thesis using boot_starts_image [OF s(3,2) assms(7,8), of unz hw] by blast
qed

text \<open>
  Property C5.  A waiting image that is too large or whose checksum differs is never installed: the
  application area keeps its contents, the flag is cleared, and the application that is there is started.
\<close>

theorem boot_keeps_application:
  assumes "nor_flash hw" "dev_ok st" "258 \<le> Get_FlashSize (flash st)" "ReadIAPMode (flash st) = OTA_Update_APP"
    "\<not> waiting_image_ok st" "starts (flash st)"
  shows "\<exists>st'. boot_main unz hw st = Some (Jump (read_u32 (flash st) addr_apprun) (read_u32 (flash st) (addr_apprun + 4)), st') \<and>
    (\<forall>b. b < addr_appcopy st \<longrightarrow> cells (flash st') b = cells (flash st) b) \<and> ReadIAPMode (flash st') = OTA_RUN_APP"
  by (rule keeps_application [OF assms])

text \<open>
  Fact.  Once the boot loader has decided to stay (an application without a stack pointer in RAM, or
  three failed attempts), every later start ends in its update loop: the flag it writes is read back.
\<close>

theorem boot_force_flag_holds:
  assumes "nor_flash hw" "dev_ok st"
  shows "ReadIAPMode (flash (boot_ForceUpdateAppMode hw st)) = OTA_Force_Update_APP \<and>
    (\<exists>st'. boot_main unz hw (boot_ForceUpdateAppMode hw st) = Some (Ota_Loop, st'))"
proof -
  let ?st = "boot_ForceUpdateAppMode hw st"
  have "ReadIAPMode (flash st) \<noteq> OTA_RUN_APP \<or> ReadIAPMode (flash st) \<noteq> OTA_Update_APP" by auto
  then have e: "?st = program_flag hw OTA_Force_Update_APP (boot_RunAppMode hw st)"
    unfolding boot_ForceUpdateAppMode_def by simp
  note f = flag_after_run_mode [OF assms, of OTA_Force_Update_APP]
  have flag: "ReadIAPMode (flash ?st) = OTA_Force_Update_APP" unfolding e by (rule f(2))
  have "dev_ok ?st" using assms(2) unfolding e f(1) by (simp add: dev_ok_def ready_def Get_FlashSize_def)
  then have "dev_ok (?st\<lparr>IAP_FLAG := OTA_Force_Update_APP\<rparr>)" by simp
  then obtain st' where "ota_mode hw (?st\<lparr>IAP_FLAG := OTA_Force_Update_APP\<rparr>) = Some (Ota_Loop, st')"
    using ota_mode_total [OF assms(1)] by blast
  then show ?thesis using flag by (simp add: boot_main_def)
qed

lemma u32_of_value: "unat (u32_of b0 b1 b2 b3) = unat b0 + 256 * unat b1 + 65536 * unat b2 + 16777216 * unat b3"
proof -
  have i: "ArrayU8ToU32 [b0, b1, b2, b3] 0 = Some (u32_of b0 b1 b2 b3)"
    by (simp add: ArrayU8ToU32_in u32_of_def)
  show ?thesis using ArrayU8ToU32_value [of 0 "[b0, b1, b2, b3]"] i by auto
qed

lemma updata_prefix:
  assumes "map f [a..<a + 26] = updata_bytes h"
  shows "boot_updata_of (map f [a..<a + 24]) = boot_updata_of (take 24 (updata_bytes h))"
  unfolding assms [symmetric] by (simp add: take_map)

lemma misread_fields:
  "B_CompressFlag (boot_updata_of (take 24 (updata_bytes h))) = Version h"
  "unat (B_UpdatesTotalSize (boot_updata_of (take 24 (updata_bytes h)))) =
     unat (CompressFlag h) + 65536 * (unat (UpdatesTotalSize h) mod 65536)"
proof -
  have t: "take 24 (updata_bytes h) = ucast (Version h) # ucast (drop_bit 8 (Version h)) # ucast (CompressFlag h) #
      ucast (drop_bit 8 (CompressFlag h)) # ucast (UpdatesTotalSize h) # ucast (drop_bit 8 (UpdatesTotalSize h)) #
      take 18 (drop 6 (updata_bytes h))"
    by (simp add: updata_bytes_def u16_bytes_def u32_bytes_def)
  show "B_CompressFlag (boot_updata_of (take 24 (updata_bytes h))) = Version h"
    unfolding t by (simp add: boot_updata_of_def u16_at_def)
  have half: "unat (ucast (CompressFlag h) :: u8) + 256 * unat (ucast (drop_bit 8 (CompressFlag h)) :: u8) = unat (CompressFlag h)"
    using unat_u16_less [of "CompressFlag h"] by (simp add: unat_bits)
  have low: "unat (ucast (UpdatesTotalSize h) :: u8) + 256 * unat (ucast (drop_bit 8 (UpdatesTotalSize h)) :: u8) =
      unat (UpdatesTotalSize h) mod 65536"
    using mod_mult2_eq [of "unat (UpdatesTotalSize h)" 256 256] by (simp add: unat_bits)
  show "unat (B_UpdatesTotalSize (boot_updata_of (take 24 (updata_bytes h)))) =
     unat (CompressFlag h) + 65536 * (unat (UpdatesTotalSize h) mod 65536)"
    unfolding t low [symmetric] half [symmetric]
    by (simp add: boot_updata_of_def u32_at_def u32_of_value)
qed

lemma misread_refused:
  assumes "map (cells (flash st)) [page_from_end (flash st) FLASH_APP_INFO_ADDR..<page_from_end (flash st) FLASH_APP_INFO_ADDR + 26] = updata_bytes h"
    "2 \<le> unat (UpdatesTotalSize h) mod 65536"
  shows "\<not> waiting_image_ok st"
proof -
  have "unat (B_UpdatesTotalSize (waiting_header st)) = unat (CompressFlag h) + 65536 * (unat (UpdatesTotalSize h) mod 65536)"
    unfolding waiting_header_def updata_prefix [OF assms(1)] by (rule misread_fields(2))
  then show ?thesis using assms(2) by (simp add: waiting_image_ok_def)
qed

text \<open>
  Property C8.  The header that the application stores begins with the version, the structure of the boot
  loader does not: after \<open>Flash_Storage_Header\<close> and \<open>UpdateAppMode\<close> of the application the boot loader
  takes the version for the compression flag and the low half of the size for the high half, and
  throws a correct image away unless the low half of its size is 0 or 1.
\<close>

theorem app_header_is_misread:
  assumes "nor_flash hw" "dev_ok st" "258 \<le> Get_FlashSize (flash st)" "blank (flash st) (page_from_end (flash st) FLASH_APP_INFO_ADDR) 28"
    "length behind = 2" "2 \<le> unat (UpdatesTotalSize h) mod 65536" "starts (flash st)"
  shows "\<exists>d st'. Flash_Storage_Header hw (flash st) (updata_bytes h @ behind) = Some (d, 1) \<and>
    boot_main unz hw (UpdateAppMode hw (st\<lparr>flash := d\<rparr>)) =
      Some (Jump (read_u32 (flash st) addr_apprun) (read_u32 (flash st) (addr_apprun + 4)), st') \<and>
    (\<forall>b. b < addr_appcopy st \<longrightarrow> cells (flash st') b = cells (flash st) b) \<and> ReadIAPMode (flash st') = OTA_RUN_APP"
proof -
  let ?I = "page_from_end (flash st) FLASH_APP_INFO_ADDR" and ?F = "page_from_end (flash st) FLASH_IAP_FLAG_ADDR"
  let ?H = "updata_bytes h @ behind"
  define d where "d = (flash st)\<lparr>locked := True, sr := FLASH_COMPLETE, cells := put (cells (flash st)) ?I ?H\<rparr>"
  have lH: "length ?H = 28" using assms(5) by simp
  have hd: "Flash_Storage_Header hw (flash st) ?H = Some (d, 1)"
    using Flash_Storage_Header_blank [OF assms(1), of "flash st" ?H] assms(2-4) lH by (simp add: d_def dev_ok_def)
  define st1 where "st1 = st\<lparr>flash := d\<rparr>"
  have keep1: "page_from_end (flash st1) = page_from_end (flash st)" "Get_FlashSize (flash st1) = Get_FlashSize (flash st)"
    by (simp_all add: st1_def d_def fun_eq_iff page_from_end_def Get_FlashSize_def)
  have ok1: "dev_ok st1" using assms(2) by (simp add: dev_ok_def st1_def d_def ready_def Get_FlashSize_def)
  define st2 where "st2 = UpdateAppMode hw st1"
  obtain m where u: "ReadIAPMode (flash st2) = OTA_Update_APP"
    "\<forall>b. b < ?F \<or> ?F + FLASH_PAGE_SIZE \<le> b \<longrightarrow> cells (flash st2) b = cells d b"
    "flash st2 = d\<lparr>locked := True, sr := FLASH_COMPLETE, cells := m\<rparr>"
    using UpdateAppMode_flash [OF assms(1) ok1] unfolding st2_def keep1 by (auto simp: st1_def)
  have keep2: "page_from_end (flash st2) = page_from_end (flash st)" "Get_FlashSize (flash st2) = Get_FlashSize (flash st)"
    unfolding u(3) d_def by (simp_all add: fun_eq_iff page_from_end_def Get_FlashSize_def)
  have ok2: "dev_ok st2"
    using ok1 u(3) unfolding st2_def UpdateAppMode_def
    by (simp add: dev_ok_def ready_def Get_FlashSize_def d_def st1_def Let_def case_prod_beta RunAppMode_def)
  note lay = flag_page_behind [OF assms(2,3)]
  have I: "?I = addr_appcopy st + 53 * FLASH_PAGE_SIZE" using lay(2) [of 4] by simp
  have "map (cells (flash st2)) [?I..<?I + 26] = updata_bytes h"
  proof -
    have "map (cells (flash st2)) [?I..<?I + 26] = map (put (cells (flash st)) ?I ?H) [?I..<?I + 26]"
      using u(2) lay(1) [of 1] I by (intro map_cong refl) (auto simp: d_def)
    also have "\<dots> = take 26 (map (put (cells (flash st)) ?I ?H) [?I..<?I + length ?H])"
      unfolding lH by (simp add: take_map)
    also have "\<dots> = updata_bytes h" unfolding put_read by simp
    finally show ?thesis .
  qed
  then have bad: "\<not> waiting_image_ok st2"
    using misread_refused [of st2 h] assms(6) unfolding keep2 by simp
  have low: "cells (flash st2) b = cells (flash st) b" if "b < addr_appcopy st" for b
    using u(2) that lay(1) [of 1] I by (simp add: d_def put_def)
  have "addr_apprun + 8 \<le> addr_appcopy st" using lay(3) [of 1] by simp
  then have rd: "read_u32 (flash st2) addr_apprun = read_u32 (flash st) addr_apprun"
    "read_u32 (flash st2) (addr_apprun + 4) = read_u32 (flash st) (addr_apprun + 4)"
    by (simp_all add: read_u32_def low)
  have "addr_appcopy st2 = addr_appcopy st" unfolding addr_appcopy_def keep2 ..
  then obtain st' where "boot_main unz hw st2 = Some (Jump (read_u32 (flash st) addr_apprun) (read_u32 (flash st) (addr_apprun + 4)), st')"
    "\<forall>b. b < addr_appcopy st \<longrightarrow> cells (flash st') b = cells (flash st) b" "ReadIAPMode (flash st') = OTA_RUN_APP"
    using keeps_application [OF assms(1) ok2 _ u(1) bad, of unz] assms(3,7) low unfolding keep2 rd starts_def by auto
  then show ?thesis using hd unfolding st2_def st1_def by blast
qed

subsection \<open>Witnesses\<close>

text \<open>A device of 512 KB on which an application of eight bytes runs and another one waits.\<close>

definition boot_header :: "u8 list \<Rightarrow> u8 list" where
  "boot_header img = u16_bytes 0 @ u32_bytes (of_nat (length img)) @ u16_bytes 4 @ u32_bytes (image_crc img) @
     u32_bytes 0 @ u16_bytes 0 @ u16_bytes 0 @ u32_bytes 0"

definition boot_device :: "u8 list \<Rightarrow> u8 list \<Rightarrow> u8 list \<Rightarrow> dev_state" where
  "boot_device app hdr img = blank_device\<lparr>flash := (flash blank_device)\<lparr>flash_kb := 512, cells :=
     put (put (put (put (\<lambda>_. 0xFF) 0x0800A000 app) 0x08063800 img) 0x0807E000 hdr) 0x0807F800 (u64_bytes OTA_Update_APP)\<rparr>\<rparr>"

lemma boot_device_facts:
  "dev_ok (boot_device app hdr img)" "Get_FlashSize (flash (boot_device app hdr img)) = 512"
  "page_from_end (flash (boot_device app hdr img)) 1 = 0x0807F800" "page_from_end (flash (boot_device app hdr img)) 4 = 0x0807E000"
  "addr_appcopy (boot_device app hdr img) = 0x08063800"
  by (simp_all add: boot_device_def blank_device_def dev_ok_def ready_def Get_FlashSize_def addr_appcopy_def page_from_end_exact)

lemma boot_device_flag: "ReadIAPMode (flash (boot_device app hdr img)) = OTA_Update_APP"
proof -
  have "ReadIAPMode (flash (boot_device app hdr img)) = read_u64 (flash (boot_device app hdr img)) 0x0807F800"
    unfolding ReadIAPMode_def boot_device_facts(3) ..
  also have "\<dots> = OTA_Update_APP"
    using read_u64_put [where d = "(flash blank_device)\<lparr>flash_kb := 512\<rparr>" and a = "0x0807F800" and w = OTA_Update_APP]
    by (simp add: boot_device_def)
  finally show ?thesis .
qed

lemma boot_device_areas:
  assumes "length hdr \<le> 28" "length img \<le> 2048"
  shows "map (cells (flash (boot_device app hdr img))) [0x0807E000..<0x0807E000 + length hdr] = hdr"
    "map (cells (flash (boot_device app hdr img))) [0x08063800..<0x08063800 + length img] = img"
proof -
  let ?m1 = "put (put (\<lambda>_. 0xFF) 0x0800A000 app) 0x08063800 img"
  have c: "cells (flash (boot_device app hdr img)) = put (put ?m1 0x0807E000 hdr) 0x0807F800 (u64_bytes OTA_Update_APP)"
    by (simp add: boot_device_def)
  have "map (cells (flash (boot_device app hdr img))) [0x0807E000..<0x0807E000 + length hdr] =
      map (put ?m1 0x0807E000 hdr) [0x0807E000..<0x0807E000 + length hdr]"
    unfolding c using assms by (intro map_put_out) auto
  then show "map (cells (flash (boot_device app hdr img))) [0x0807E000..<0x0807E000 + length hdr] = hdr"
    using put_read [of ?m1 "0x0807E000" hdr] by simp
  have "map (cells (flash (boot_device app hdr img))) [0x08063800..<0x08063800 + length img] =
      map (put ?m1 0x0807E000 hdr) [0x08063800..<0x08063800 + length img]"
    unfolding c using assms by (intro map_put_out) auto
  also have "\<dots> = map ?m1 [0x08063800..<0x08063800 + length img]" using assms by (intro map_put_out) auto
  finally show "map (cells (flash (boot_device app hdr img))) [0x08063800..<0x08063800 + length img] = img"
    using put_read [of _ "0x08063800" img] by simp
qed

lemma u32_of_u32_bytes: "u32_of (ucast w) (ucast (drop_bit 8 w)) (ucast (drop_bit 16 w)) (ucast (drop_bit 24 w)) = (w :: u32)"
  by (simp add: u32_of_def ucast_ucast_u8 word_of_bytes4)

definition small_app :: "u8 list" where
  "small_app = u32_bytes 0x20005000 @ u32_bytes 0x0800A101"

definition small_image :: "u8 list" where
  "small_image = u32_bytes 0x20006000 @ u32_bytes 0x0800A201"

lemma small_words:
  "length small_app = 8" "length small_image = 8" "u32_at small_image 0 = 0x20006000" "u32_at small_image 4 = 0x0800A201"
  by (simp_all add: small_app_def small_image_def u32_at_def u32_bytes_def u32_of_def)

lemma boot_header_fields:
  "length (boot_header img) = 24" "B_CompressFlag (boot_updata_of (boot_header img)) = 0"
  "B_UpdatesTotalSize (boot_updata_of (boot_header img)) = of_nat (length img)"
  "B_UpdatesCRC32 (boot_updata_of (boot_header img)) = image_crc img"
  by (simp_all add: boot_header_def boot_updata_of_def u16_at_def u16_bytes_def u32_at_def u32_bytes_def u32_of_u32_bytes u16_of_def)

lemma boot_device_waiting:
  fixes app :: "u8 list"
  defines "st \<equiv> boot_device app (boot_header small_image) small_image"
  shows "waiting_header st = boot_updata_of (boot_header small_image)" "waiting_image st = small_image" "waiting_image_ok st"
proof -
  show h: "waiting_header st = boot_updata_of (boot_header small_image)"
    using boot_device_areas(1) [of "boot_header small_image" small_image app]
    unfolding waiting_header_def st_def boot_device_facts(4) by (simp add: boot_header_fields(1) small_words)
  have n: "unat (B_UpdatesTotalSize (waiting_header st)) = 8" unfolding h boot_header_fields(3) small_words by simp
  show i: "waiting_image st = small_image"
    using boot_device_areas(2) [of "boot_header small_image" small_image app]
    unfolding waiting_image_def n unfolding st_def boot_device_facts(5) by (simp add: boot_header_fields(1) small_words)
  show "waiting_image_ok st" unfolding waiting_image_ok_def n i unfolding h boot_header_fields(4) by simp
qed

theorem boot_installs_waiting_image_witness:
  "\<exists>st' st''. boot_main (\<lambda>buf n src. None) nor_hw (boot_device small_app (boot_header small_image) small_image) = Some (Reset, st') \<and>
     boot_main (\<lambda>buf n src. None) nor_hw st' = Some (Jump 0x20006000 0x0800A201, st'')"
proof -
  note w = boot_device_waiting [of small_app]
  have "(u32_at small_image 0 AND 0x2FFE0000) = 0x20000000" unfolding small_words by simp
  then show ?thesis
    using boot_installs_waiting_image [OF nor_hw_is_nor boot_device_facts(1) _ boot_device_flag w(3), of "\<lambda>buf n src. None"]
    unfolding w boot_device_facts(2) boot_header_fields(2) small_words by auto
qed

lemma read_app:
  assumes "cells d = put (\<lambda>_. 0xFF) addr_apprun small_app \<or>
    (\<forall>b. addr_apprun \<le> b \<and> b < addr_apprun + 8 \<longrightarrow> cells d b = put (\<lambda>_. 0xFF) addr_apprun small_app b)"
  shows "read_u32 d addr_apprun = 0x20005000" "read_u32 d (addr_apprun + 4) = 0x0800A101"
proof -
  have c: "cells d (addr_apprun + j) = small_app ! j" if "j < 8" for j
    using assms that by (auto simp: put_def small_words)
  show "read_u32 d addr_apprun = 0x20005000" "read_u32 d (addr_apprun + 4) = 0x0800A101"
    using c [of 0] c [of 1] c [of 2] c [of 3] c [of 4] c [of 5] c [of 6] c [of 7]
    by (simp_all add: read_u32_def small_app_def u32_bytes_def u32_of_def)
qed

lemma boot_device_app:
  assumes "length hdr \<le> 28" "length img \<le> 2048"
  shows "read_u32 (flash (boot_device small_app hdr img)) addr_apprun = 0x20005000"
    "read_u32 (flash (boot_device small_app hdr img)) (addr_apprun + 4) = 0x0800A101"
    "starts (flash (boot_device small_app hdr img))"
proof -
  have "\<forall>b. addr_apprun \<le> b \<and> b < addr_apprun + 8 \<longrightarrow>
      cells (flash (boot_device small_app hdr img)) b = put (\<lambda>_. 0xFF) addr_apprun small_app b"
    using assms by (simp add: boot_device_def put_def small_words)
  then show r: "read_u32 (flash (boot_device small_app hdr img)) addr_apprun = 0x20005000"
    "read_u32 (flash (boot_device small_app hdr img)) (addr_apprun + 4) = 0x0800A101"
    using read_app by auto
  then show "starts (flash (boot_device small_app hdr img))" by (simp add: starts_def)
qed

theorem boot_keeps_application_witness:
  "\<exists>st'. boot_main (\<lambda>buf n src. None) nor_hw (boot_device small_app (u16_bytes 0 @ u32_bytes 0xFFFFFFFF @ replicate 18 0) []) =
     Some (Jump 0x20005000 0x0800A101, st')"
proof -
  let ?h = "u16_bytes 0 @ u32_bytes 0xFFFFFFFF @ replicate 18 (0 :: u8)" let ?st = "boot_device small_app ?h []"
  have l: "length ?h = 24" by simp
  have "waiting_header ?st = boot_updata_of ?h"
    using boot_device_areas(1) [of ?h "[]" small_app] unfolding waiting_header_def boot_device_facts(4) l by simp
  moreover have "unat (B_UpdatesTotalSize (boot_updata_of ?h)) = 0xFFFFFFFF"
    by (simp add: boot_updata_of_def u32_at_def u16_bytes_def u32_bytes_def u32_of_def)
  ultimately have "\<not> waiting_image_ok ?st" by (simp add: waiting_image_ok_def)
  moreover have "258 \<le> Get_FlashSize (flash ?st)" unfolding boot_device_facts(2) by simp
  moreover have "length ?h \<le> 28" "length ([] :: u8 list) \<le> 2048" by simp_all
  note a = boot_device_app [OF this]
  ultimately show ?thesis
    using boot_keeps_application [OF nor_hw_is_nor boot_device_facts(1) _ boot_device_flag _ a(3), of "\<lambda>buf n src. None"]
    unfolding a(1,2) by blast
qed

theorem boot_force_flag_holds_witness:
  "ReadIAPMode (flash (boot_ForceUpdateAppMode nor_hw blank_device)) = OTA_Force_Update_APP"
  using boot_force_flag_holds [OF nor_hw_is_nor blank_device_ok] by blast

definition new_header :: iap_updata_param_type where
  "new_header = \<lparr>Version = 2, CompressFlag = 0, UpdatesTotalSize = 8, UpdatesSubSize = 4, UpdatesCRC32 = 0,
     ComPackOriginalSize = 0, ComPackNo = 0, PerComPackOriginalSize = 0, ComPackOriginalCRC32 = 0\<rparr>"

theorem app_header_is_misread_witness:
  "\<exists>d st'. Flash_Storage_Header nor_hw (flash (boot_device small_app [] [])) (updata_bytes new_header @ [0, 0]) = Some (d, 1) \<and>
     boot_main (\<lambda>buf n src. None) nor_hw (UpdateAppMode nor_hw ((boot_device small_app [] [])\<lparr>flash := d\<rparr>)) =
       Some (Jump 0x20005000 0x0800A101, st')"
proof -
  let ?st = "boot_device small_app [] []"
  have a: "read_u32 (flash ?st) addr_apprun = 0x20005000" "read_u32 (flash ?st) (addr_apprun + 4) = 0x0800A101"
    "starts (flash ?st)" using boot_device_app [of "[]" "[]"] by simp_all
  have "in_flash (flash ?st) b \<and> erased (flash ?st) b" if "0x0807E000 \<le> b" "b < 0x0807E000 + 28" for b
    using that by (simp add: in_flash_def boot_device_facts(2)) (simp add: erased_def boot_device_def put_def small_words)
  then have "blank (flash ?st) (page_from_end (flash ?st) FLASH_APP_INFO_ADDR) 28"
    unfolding boot_device_facts(4) blank_def by blast
  moreover have "258 \<le> Get_FlashSize (flash ?st)" unfolding boot_device_facts(2) by simp
  moreover have "2 \<le> unat (UpdatesTotalSize new_header) mod 65536" "length [0, 0 :: u8] = 2" by (simp_all add: new_header_def)
  ultimately show ?thesis
    using app_header_is_misread [OF nor_hw_is_nor boot_device_facts(1) _ _ _ _ a(3), of "[0, 0]" new_header "\<lambda>buf n src. None"]
    unfolding a(1,2) by blast
qed

end
