(* ===== verification/BootOta.thy ===== *)
theory BootOta imports Prelude RingBuf DataLib Frame FlashIf DevState IapIf CopyArea CanSearch CanOta CommDev CanMiddle BootFlash BootMain
begin

text \<open>
  The CAN protocol of the boot loader (\<open>canbus_middle.c\<close> of \<open>src/IAP project\<close>): the command handlers of
  \<open>can500_protocol_anylise\<close> and the turn of its update loop, \<open>CAN_OTA_Periodic_Handle\<close>.  Ten of the twelve
  message constructors, the set-identifier request, \<open>canbus_middle_send\<close> and the ring buffer are the same code as in the
  application, and their definitions are used again.  The handlers differ: they go through the HAL, the
  header they store has no version, and the remote identifier is put together from other bytes.

  Theorems on whole sessions are in \<open>BootSession\<close>; here is what a timed-out message does to the loop.
\<close>

subsection \<open>Messages\<close>

definition boot_CAN_Paramset_Read_Construct :: "dev_state \<Rightarrow> u8 list \<Rightarrow> nat \<Rightarrow> (u8 list \<times> nat) option" where
  "boot_CAN_Paramset_Read_Construct st = construct 18 (can_header 18 FUC_PARAMSET_READ st @ replicate 8 0)"

definition boot_CAN_Device_Search_Construct :: "dev_state \<Rightarrow> u8 list \<Rightarrow> nat \<Rightarrow> (u8 list \<times> nat) option" where
  "boot_CAN_Device_Search_Construct st =
     construct 32 (can_header 32 FUC_DEVICE_SEARCH st @
       concat (map (\<lambda>k. u16_bytes (ChipUniqueID (iap_param st) ! k)) [0..<6]) @
       u16_bytes (swversion (iap_param st)) @
       [ucast (hwversion (iap_param st)), ucast (IAP_flag (iap_param st))] @
       [0, 0] @ u16_bytes (ID (iap_param st)) @ [0, 0])"

text \<open>The weak default: it reads the length and stores nothing.\<close>

definition boot_CAN_Paramset_Receive_Analyse :: "dev_state \<Rightarrow> u8 list \<Rightarrow> dev_state option" where
  "boot_CAN_Paramset_Receive_Analyse st buf = do { _ \<leftarrow> rd_u16 buf 1; Some st }"

subsection \<open>Commands\<close>

definition boot_ota_start :: "flash_hw \<Rightarrow> dev_state \<Rightarrow> u8 list \<Rightarrow> nat \<Rightarrow> dev_state option" where
  "boot_ota_start hw st buf i = do {
     ver \<leftarrow> rd_u16 buf (i + 8);
     total \<leftarrow> ArrayU8ToU32 buf (i + 12);
     sub \<leftarrow> ArrayU8ToU16 buf (i + 16);
     crc \<leftarrow> ArrayU8ToU32 buf (i + 18);
     let st = st\<lparr>can_ota := (can_ota st)\<lparr>OTA_UpdateFlag := 1, OTA_Version := ver, OTA_TotalSize := total,
                                          OTA_SubSize := ucast sub, OTA_CRC32 := crc\<rparr>\<rparr>;
     header \<leftarrow> memcpy (replicate sizeof_boot_updata 0) 0 buf (i + 10) sizeof_boot_updata;
     let copy_addr = addr_appcopy st;
     (d, _) \<leftarrow> boot_Flash_Storage_Header hw (flash st) header;
     let (d, _) = boot_Flash_Erase_Page hw d copy_addr (unat total);
     send_frame CAN_OTA_Start_ACK_Construct (st\<lparr>flash := d\<rparr>) }"

definition boot_ota_update :: "flash_hw \<Rightarrow> dev_state \<Rightarrow> u8 list \<Rightarrow> nat \<Rightarrow> nat \<Rightarrow> dev_state option" where
  "boot_ota_update hw st buf i data_len = do {
     let st = st\<lparr>can_ota := (can_ota st)\<lparr>OTA_UpdateFlag := 2\<rparr>\<rparr>;
     num \<leftarrow> ArrayU8ToU16 buf (i + 8);
     let st = st\<lparr>can_ota := (can_ota st)\<lparr>OTA_Frame_Num := num\<rparr>\<rparr>;
     let offset = u32_mul (unat num) (unat (OTA_SubSize (can_ota st)));
     if 10 < data_len \<and> offset < OTA_BIN_MAX_SIZE then do {
       let updata_len = u32_sub data_len 12;
       (d, _) \<leftarrow> boot_Flash_Write hw (flash st) (u32_add (addr_appcopy st) offset) (drop (i + 10) buf) updata_len;
       send_frame (\<lambda>st. CAN_OTA_Update_ACK_Construct st 0) (st\<lparr>flash := d\<rparr>) }
     else send_frame (\<lambda>st. CAN_OTA_Update_ACK_Construct st 1) st }"

definition boot_ota_end :: "flash_hw \<Rightarrow> dev_state \<Rightarrow> dev_state option" where
  "boot_ota_end hw st = do {
     let st = emit_event (Hal_delay 10) st;
     let st = st\<lparr>can_ota := (can_ota st)\<lparr>OTA_UpdateFlag := 3\<rparr>\<rparr>;
     st \<leftarrow> send_frame CAN_OTA_End_ACK_Construct st;
     let st = boot_UpdateAppMode hw st;
     Some (emit_event System_reset (emit_event (Hal_delay 100) st)) }"

definition boot_paramset_write :: "dev_state \<Rightarrow> u8 list \<Rightarrow> nat \<Rightarrow> dev_state option" where
  "boot_paramset_write st buf i = do {
     st \<leftarrow> boot_CAN_Paramset_Receive_Analyse st (drop i buf);
     send_frame CAN_Paramset_Write_Construct st }"

definition boot_paramset_save :: "flash_hw \<Rightarrow> dev_state \<Rightarrow> dev_state option" where
  "boot_paramset_save hw st = do {
     st \<leftarrow> boot_iap_param_save hw st;
     send_frame CAN_Paramset_Save_Construct st }"

definition boot_device_restart :: "dev_state \<Rightarrow> dev_state option" where
  "boot_device_restart st = do {
     st \<leftarrow> send_frame CAN_Device_Restart_Construct st;
     Some (emit_event System_reset (emit_event (Hal_delay 10) st)) }"

definition boot_paramset_default :: "flash_hw \<Rightarrow> dev_state \<Rightarrow> dev_state option" where
  "boot_paramset_default hw st = do {
     st \<leftarrow> send_frame CAN_Paramset_Default_Construct st;
     boot_iap_param_default hw st }"

definition boot_device_search :: "dev_state \<Rightarrow> dev_state option" where
  "boot_device_search st = do {
     (send_buf, send_len) \<leftarrow> boot_CAN_Device_Search_Construct st (replicate 100 0) 100;
     let id = ID (iap_param st);
     Some (if send_len \<noteq> 0 then
             emit_event (Can_send 0x500 (take send_len send_buf))
               (if id = 0xFFFF then st
                else emit_event (Hal_delay (unat (drop_bit 8 id AND 0xFF) * 10 + unat (id AND 0xFF) * 2)) st)
           else st) }"

definition boot_can500_dispatch :: "flash_hw \<Rightarrow> dev_state \<Rightarrow> u8 list \<Rightarrow> nat \<Rightarrow> nat \<Rightarrow> dev_state option" where
  "boot_can500_dispatch hw st buf i data_len = do {
     cmd \<leftarrow> rd buf (i + 3);
     if cmd = CAN_OTA_Recv_Start then boot_ota_start hw st buf i
     else if cmd = CAN_OTA_Recv_Update then boot_ota_update hw st buf i data_len
     else if cmd = CAN_OTA_Recv_End then boot_ota_end hw st
     else if cmd = FUC_PARAMSET_READ then send_frame boot_CAN_Paramset_Read_Construct st
     else if cmd = FUC_PARAMSET_WRITE then boot_paramset_write st buf i
     else if cmd = FUC_PARAMSET_SAVE then boot_paramset_save hw st
     else if cmd = FUC_DEVICE_RESTART then boot_device_restart st
     else if cmd = FUC_PARAMSET_DEFAULT then boot_paramset_default hw st
     else if cmd = FUC_DEVICE_SEARCH then boot_device_search st
     else if cmd = FUC_DEVICE_PARAMSET_SEARCH then device_paramset_search st buf i
     else if cmd = FUC_AUTOMATIC_CHECK then send_frame CAN_Automatic_Check_Construct st
     else Some st }"

text \<open>The second assignment to \<open>remoteID\<close> shifts \<open>dev_ID\<close>, not the byte that was just stored.\<close>

definition boot_remote :: "u16 \<Rightarrow> u8 \<Rightarrow> u16" where
  "boot_remote dev_ID lo = push_bit 8 dev_ID OR ucast lo"

definition boot_can500_handle :: "flash_hw \<Rightarrow> dev_state \<Rightarrow> u8 list \<Rightarrow> nat \<Rightarrow> nat \<Rightarrow> dev_state option" where
  "boot_can500_handle hw st buf i data_len = do {
     dev_ID \<leftarrow> rd_u16 buf (i + 4);
     _ \<leftarrow> rd buf (i + 7);
     lo \<leftarrow> rd buf (i + 6);
     let st = st\<lparr>iap_param := (iap_param st)\<lparr>remoteID := boot_remote dev_ID lo\<rparr>\<rparr>;
     if ID (iap_param st) = dev_ID \<or> ID (iap_param st) = 0xFFFF
     then boot_can500_dispatch hw st buf i data_len else Some st }"

definition boot_can500_protocol_anylise ::
  "flash_hw \<Rightarrow> dev_state \<Rightarrow> u8 list \<Rightarrow> nat \<Rightarrow> (dev_state \<times> anylise_state \<times> nat) option" where
  "boot_can500_protocol_anylise hw st buf len =
     (if len < FRAME_MIN_LEN then Some (st, anylise_waiting, 0)
      else do {
        r \<leftarrow> frame_scan CAN_COMM_PROTOCOL_MAX_LEN buf len 0;
        case r of
          Scan_waiting \<Rightarrow> Some (st, anylise_waiting, 0)
        | Scan_reject k \<Rightarrow> Some (st, anylise_reject, k)
        | Scan_accept i data_len \<Rightarrow> do {
            st \<leftarrow> boot_can500_handle hw st buf i data_len;
            Some (st, anylise_accept, u32_add data_len i) } })"

subsection \<open>The update loop\<close>

record boot_can =
  bus :: CANBus_type
  boot_BUF500 :: RingBufType
  otacanbuf500 :: "u8 list"
  CANOTAWaitTicks :: u32
  loader :: dev_state

definition RingBufInit :: "u8 list \<Rightarrow> nat \<Rightarrow> RingBufType" where
  "RingBufInit addr sz = \<lparr>Head = 0, Tail = 0, RxBuf = Some addr, RxBufSize = sz\<rparr>"

definition CAN_middle_init :: "u8 list \<Rightarrow> boot_can \<Rightarrow> boot_can" where
  "CAN_middle_init canbuf500 w =
     w\<lparr>boot_BUF500 := RingBufInit canbuf500 1024, bus := stm32_CAN_clear (bus w)\<rparr>"

text \<open>
  One call, with the two readings of the tick counter that matter.  The test of the frame's format has an
  empty body, and \<open>delay\<close> is a local that never reaches ten.
\<close>

definition CAN_OTA_Periodic_Handle :: "flash_hw \<Rightarrow> u32 \<Rightarrow> u32 \<Rightarrow> boot_can \<Rightarrow> boot_can option" where
  "CAN_OTA_Periodic_Handle hw tick tick' w = do {
     (rx, can) \<leftarrow> stm32_CAN_recv (bus w);
     let w = w\<lparr>bus := can\<rparr>;
     w \<leftarrow> (case rx of
            None \<Rightarrow> Some (w\<lparr>loader := emit_event (Hal_delay 10) (loader w)\<rparr>)
          | Some rx \<Rightarrow>
              if StdId rx = 0x500 then do {
                b \<leftarrow> AddDataToBuf (boot_BUF500 w) (Data rx) (DLC rx);
                Some (w\<lparr>boot_BUF500 := b\<rparr>) }
              else Some w);
     (len, buf, b) \<leftarrow> ReadDataFromBuf (boot_BUF500 w) (otacanbuf500 w) (length (otacanbuf500 w)) False;
     let w = w\<lparr>otacanbuf500 := buf, boot_BUF500 := b\<rparr>;
     if len = 0 then Some (w\<lparr>CANOTAWaitTicks := tick\<rparr>)
     else do {
       (st, state, del_len) \<leftarrow> boot_can500_protocol_anylise hw (loader w) (otacanbuf500 w) len;
       let w = w\<lparr>loader := st\<rparr>;
       if state \<noteq> anylise_waiting then
         Some (w\<lparr>boot_BUF500 := snd (DelDataFromBuf (boot_BUF500 w) del_len), CANOTAWaitTicks := tick\<rparr>)
       else if timed_out tick (CANOTAWaitTicks w) 1000 then
         Some (w\<lparr>bus := stm32_CAN_clear (bus w), CANOTAWaitTicks := tick'\<rparr>)
       else Some w } }"

fun boot_turns :: "flash_hw \<Rightarrow> (u32 \<times> u32) list \<Rightarrow> boot_can \<Rightarrow> boot_can option" where
  "boot_turns hw [] w = Some w"
| "boot_turns hw ((tick, tick') # ts) w = do { w \<leftarrow> CAN_OTA_Periodic_Handle hw tick tick' w; boot_turns hw ts w }"

subsection \<open>A message that is never completed\<close>

text \<open>The bytes at the front of the ring announce a message longer than what follows.\<close>

definition unfinished :: "u8 list \<Rightarrow> bool" where
  "unfinished xs \<longleftrightarrow> FRAME_MIN_LEN \<le> length xs \<and> xs ! 0 = FRAME_HEAD \<and>
     length xs < frame_len xs 0 \<and> frame_len xs 0 \<le> CAN_COMM_PROTOCOL_MAX_LEN"

lemma unfinished_waits:
  assumes "unfinished xs"
  shows "boot_can500_protocol_anylise hw st (xs @ rest) (length xs) = Some (st, anylise_waiting, 0)"
proof -
  have l: "FRAME_MIN_LEN \<le> length xs" "length xs < 1460" using assms by (auto simp: unfinished_def)
  have f: "frame_len (xs @ rest) 0 = frame_len xs 0" "(xs @ rest) ! 0 = xs ! 0"
    using l by (auto simp: frame_len_def nth_append)
  have "frame_scan CAN_COMM_PROTOCOL_MAX_LEN (xs @ rest) (length xs) 0 = Some Scan_waiting"
    using assms l by (subst frame_scan_short) (auto simp: f unfinished_def u32_sub_exact)
  then show ?thesis using l by (simp add: boot_can500_protocol_anylise_def)
qed

lemma unfinished_length: "unfinished xs \<Longrightarrow> length xs < 1460 \<and> xs \<noteq> []"
  by (auto simp: unfinished_def)

definition idle :: "boot_can \<Rightarrow> bool" where
  "idle w \<longleftrightarrow> CanRx_Read (bus w) = CanRx_Write (bus w) \<and> rb_inv (boot_BUF500 w) \<and> length (otacanbuf500 w) = 2048 \<and>
     unfinished (rb_list (boot_BUF500 w))"

lemma idle_turn:
  assumes "idle w"
  shows "\<exists>w'. CAN_OTA_Periodic_Handle hw tick tick' w = Some w' \<and> idle w' \<and> boot_BUF500 w' = boot_BUF500 w \<and>
    loader w' = emit_event (Hal_delay 10) (loader w)"
proof -
  let ?xs = "rb_list (boot_BUF500 w)" and ?st = "emit_event (Hal_delay 10) (loader w)"
  have i: "CanRx_Read (bus w) = CanRx_Write (bus w)" "rb_inv (boot_BUF500 w)" "length (otacanbuf500 w) = 2048" "unfinished ?xs"
    using assms by (auto simp: idle_def)
  define buf where "buf = ?xs @ drop (length ?xs) (otacanbuf500 w)"
  have l: "length ?xs < 1460" "?xs \<noteq> []" using unfinished_length [OF i(4)] by (blast, blast)
  then have n: "length ?xs = min 2048 (length ?xs)" by simp
  have r: "ReadDataFromBuf (boot_BUF500 w) (otacanbuf500 w) 2048 False = Some (length ?xs, buf, boot_BUF500 w)"
    using ReadDataFromBuf_rb_list [OF i(2) n, of "otacanbuf500 w" False] l i(3) by (auto simp: buf_def)
  have a: "boot_can500_protocol_anylise hw ?st buf (length ?xs) = Some (?st, anylise_waiting, 0)"
    unfolding buf_def by (rule unfinished_waits [OF i(4)])
  have b: "length buf = 2048" using l i(3) by (simp add: buf_def)
  show ?thesis
    using i(1,2,4) l(2) b by (auto simp: CAN_OTA_Periodic_Handle_def stm32_CAN_recv_def i(3) r a idle_def stm32_CAN_clear_def Let_def
        simp del: length_rb_list)
qed

lemma idle_turns:
  "idle w \<Longrightarrow> \<exists>w'. boot_turns hw ts w = Some w' \<and> boot_BUF500 w' = boot_BUF500 w \<and>
    loader w' = (loader w)\<lparr>outbox := outbox (loader w) @ replicate (length ts) (Hal_delay 10)\<rparr>"
proof (induction ts arbitrary: w)
  case (Cons t ts)
  obtain w1 where w1: "CAN_OTA_Periodic_Handle hw (fst t) (snd t) w = Some w1" "idle w1" "boot_BUF500 w1 = boot_BUF500 w"
    "loader w1 = emit_event (Hal_delay 10) (loader w)" using idle_turn [OF Cons.prems] by blast
  obtain w' where "boot_turns hw ts w1 = Some w'" "boot_BUF500 w' = boot_BUF500 w1"
    "loader w' = (loader w1)\<lparr>outbox := outbox (loader w1) @ replicate (length ts) (Hal_delay 10)\<rparr>"
    using Cons.IH [OF w1(2)] by blast
  then show ?case using w1 by (cases t) (simp add: emit_event_def)
qed simp

text \<open>
  Fact.  A message whose rest is lost stays in the boot loader's ring: however often the loop turns and
  however late it is, the time-out empties the driver's ring of frames, which is empty already, and not the
  byte ring, so that the next bytes are taken for the rest of the lost message.
\<close>

theorem boot_timeout_keeps_message:
  assumes "CanRx_Read (bus w) = CanRx_Write (bus w)" "rb_inv (boot_BUF500 w)" "length (otacanbuf500 w) = 2048"
    "unfinished (rb_list (boot_BUF500 w))"
  shows "\<exists>w'. boot_turns hw ts w = Some w' \<and> boot_BUF500 w' = boot_BUF500 w \<and>
    loader w' = (loader w)\<lparr>outbox := outbox (loader w) @ replicate (length ts) (Hal_delay 10)\<rparr>"
  by (rule idle_turns) (use assms in \<open>simp add: idle_def\<close>)

definition stale_can :: boot_can where
  "stale_can = \<lparr>bus = \<lparr>CANRxBuf = [], CanRx_Read = 3, CanRx_Write = 3\<rparr>,
     boot_BUF500 = \<lparr>Head = 0, Tail = 8, RxBuf = Some [0xFE, 100, 0, 1, 1, 8, 7, 0, 0], RxBufSize = 9\<rparr>,
     otacanbuf500 = replicate 2048 0, CANOTAWaitTicks = 0, loader = blank_device\<rparr>"

theorem boot_timeout_keeps_message_witness:
  "\<exists>w'. boot_turns nor_hw [(2000, 2000), (5000, 5001)] stale_can = Some w' \<and> boot_BUF500 w' = boot_BUF500 stale_can \<and>
    outbox (loader w') = [Hal_delay 10, Hal_delay 10]"
proof -
  have r: "rb_list (boot_BUF500 stale_can) = [0xFE, 100, 0, 1, 1, 8, 7, 0]"
    by (simp add: stale_can_def rb_list_def rb_len_def upt_rec)
  have i: "rb_inv (boot_BUF500 stale_can)" by (simp add: stale_can_def rb_inv_def)
  have u: "unfinished (rb_list (boot_BUF500 stale_can))" unfolding r by (simp add: unfinished_def frame_len_def)
  have w: "CanRx_Read (bus stale_can) = CanRx_Write (bus stale_can)" "length (otacanbuf500 stale_can) = 2048"
    "outbox (loader stale_can) = []" by (simp_all add: stale_can_def blank_device_def)
  show ?thesis
    using boot_timeout_keeps_message [OF w(1) i w(2) u, of nor_hw "[(2000, 2000), (5000, 5001)]"] w(3) by auto
qed

end
