(* ===== verification/BootUart.thy ===== *)
theory BootUart imports Prelude RingBuf DataLib Frame FlashIf DevState IapIf CopyArea CanSearch CanOta UartOta CommDev BootFlash BootMain
begin

text \<open>
  The serial protocol of the boot loader (\<open>ota_protocol.c\<close> of \<open>src/IAP project\<close>).  The commands are those
  of the application's serial protocol; here the acknowledgements carry the identifier of the device,
  the header is passed as it lies in the frame, and \<open>OTA_Periodic_Handle\<close> serves the receive ring
  without a thread.
\<close>

subsection \<open>Messages\<close>

definition boot_iap_param_read :: "dev_state \<Rightarrow> u8 list \<Rightarrow> nat \<Rightarrow> (u8 list \<times> nat) option" where
  "boot_iap_param_read st =
     construct 29 (uart_header 29 FUC_PARAM_IAP_READ @ u16_bytes (ID (iap_param st)) @ [0, 0, 0] @
       concat (map (\<lambda>k. u16_bytes (ChipUniqueID (iap_param st) ! k)) [0..<6]) @
       [0, 0, ucast (IAP_flag (iap_param st)), 0, 0, ucast (swversion (iap_param st))])"

definition boot_OTA_Start_ACK_Construct :: "dev_state \<Rightarrow> u8 list \<Rightarrow> nat \<Rightarrow> (u8 list \<times> nat) option" where
  "boot_OTA_Start_ACK_Construct st = construct 8 (uart_header 8 OTA_Start @ u16_bytes (ID (iap_param st)))"

definition boot_OTA_Update_ACK_Construct :: "dev_state \<Rightarrow> u8 \<Rightarrow> u8 list \<Rightarrow> nat \<Rightarrow> (u8 list \<times> nat) option" where
  "boot_OTA_Update_ACK_Construct st state_code =
     construct 11 (uart_header 11 OTA_Update @ u16_bytes (ID (iap_param st)) @
       u16_bytes (U_OTA_Frame_Num (uart_ota st)) @ [state_code])"

definition boot_OTA_End_ACK_Construct :: "dev_state \<Rightarrow> u8 list \<Rightarrow> nat \<Rightarrow> (u8 list \<times> nat) option" where
  "boot_OTA_End_ACK_Construct st = construct 8 (uart_header 8 OTA_End @ u16_bytes (ID (iap_param st)))"

definition boot_iap_param_analysis :: "dev_state \<Rightarrow> u8 list \<Rightarrow> dev_state option" where
  "boot_iap_param_analysis st buf = do {
     new_id \<leftarrow> rd_u16 buf 4;
     _ \<leftarrow> rd_u16 buf 7;
     Some (st\<lparr>iap_param := (iap_param st)\<lparr>ID := new_id\<rparr>\<rparr>) }"

text \<open>\<open>send_len = construct(OTASendBuf, sizeof(OTASendBuf)); if (send_len) stm32_uart_send(...)\<close>\<close>

definition boot_uart_send :: "(u8 list \<Rightarrow> nat \<Rightarrow> (u8 list \<times> nat) option) \<Rightarrow> dev_state \<Rightarrow> dev_state option" where
  "boot_uart_send f st = do {
     (send_buf, send_len) \<leftarrow> f (replicate 1024 0) 1024;
     Some (if send_len \<noteq> 0 then emit_event (Uart_send (take send_len send_buf)) st else st) }"

definition iap_param_send_lora :: "dev_state \<Rightarrow> dev_state option" where
  "iap_param_send_lora st = boot_uart_send (boot_iap_param_read st) st"

subsection \<open>Commands\<close>

definition boot_uart_start :: "flash_hw \<Rightarrow> dev_state \<Rightarrow> u8 list \<Rightarrow> nat \<Rightarrow> dev_state option" where
  "boot_uart_start hw st buf i = do {
     let st = emit_event (Hal_delay 20) st;
     hi \<leftarrow> rd buf (i + 6);
     lo \<leftarrow> rd buf (i + 7);
     total \<leftarrow> ArrayU8ToU32 buf (i + 10);
     sub \<leftarrow> ArrayU8ToU16 buf (i + 14);
     crc \<leftarrow> ArrayU8ToU32 buf (i + 16);
     let st = st\<lparr>uart_ota := (uart_ota st)\<lparr>U_OTA_UpdateFlag := 1, U_OTA_Version := u16_of lo hi, U_OTA_TotalSize := ucast total,
                                            U_OTA_SubSize := ucast sub, U_OTA_CRC32 := ucast crc\<rparr>\<rparr>;
     let copy_addr = addr_appcopy st;
     (d, _) \<leftarrow> boot_Flash_Storage_Header hw (flash st) (drop (i + 8) buf);
     let (d, _) = boot_Flash_Erase_Page hw d copy_addr (unat (ucast (U_OTA_TotalSize (uart_ota st)) :: u32));
     let st = st\<lparr>flash := d\<rparr>;
     boot_uart_send (boot_OTA_Start_ACK_Construct st) st }"

definition boot_uart_update :: "flash_hw \<Rightarrow> dev_state \<Rightarrow> u8 list \<Rightarrow> nat \<Rightarrow> nat \<Rightarrow> dev_state option" where
  "boot_uart_update hw st buf i data_len = do {
     let st = st\<lparr>uart_ota := (uart_ota st)\<lparr>U_OTA_UpdateFlag := 2\<rparr>\<rparr>;
     num \<leftarrow> ArrayU8ToU16 buf (i + 6);
     let st = st\<lparr>uart_ota := (uart_ota st)\<lparr>U_OTA_Frame_Num := num\<rparr>\<rparr>;
     let offset = u32_mul (unat num) (unat (U_OTA_SubSize (uart_ota st)));
     if 10 < data_len \<and> offset < OTA_BIN_MAX_SIZE then do {
       let updata_len = u32_sub data_len 10;
       (d, _) \<leftarrow> boot_Flash_Write hw (flash st) (u32_add (addr_appcopy st) offset) (drop (i + 8) buf) updata_len;
       let st = st\<lparr>flash := d\<rparr>;
       boot_uart_send (boot_OTA_Update_ACK_Construct st 0) st }
     else boot_uart_send (boot_OTA_Update_ACK_Construct st 1) st }"

text \<open>\<open>system_reset\<close> of the boot loader resets at once.\<close>

definition boot_uart_end :: "flash_hw \<Rightarrow> dev_state \<Rightarrow> dev_state option" where
  "boot_uart_end hw st = do {
     let st = st\<lparr>uart_ota := (uart_ota st)\<lparr>U_OTA_UpdateFlag := 3\<rparr>\<rparr>;
     (send_buf, send_len) \<leftarrow> boot_OTA_End_ACK_Construct st (replicate 1024 0) 1024;
     let st = (if send_len \<noteq> 0
               then emit_event (Hal_delay 2000) (emit_event (Uart_send (take send_len send_buf)) st) else st);
     Some (emit_event System_reset (boot_UpdateAppMode hw st)) }"

definition boot_uart_dispatch :: "flash_hw \<Rightarrow> dev_state \<Rightarrow> u8 list \<Rightarrow> nat \<Rightarrow> nat \<Rightarrow> dev_state option" where
  "boot_uart_dispatch hw st buf i data_len = do {
     cmd \<leftarrow> rd buf (i + 3);
     if cmd = OTA_Start then boot_uart_start hw st buf i
     else if cmd = OTA_Update then boot_uart_update hw st buf i data_len
     else if cmd = OTA_End then boot_uart_end hw st
     else if cmd = FUC_PARAM_IAP_READ then boot_uart_send (boot_iap_param_read st) st
     else if cmd = FUC_PARAM_IAP_WRITE then boot_iap_param_analysis st buf
     else if cmd = FUC_UART_PARAMSET_SAVE then boot_iap_param_save hw st
     else if cmd = FUC_PARAMSET_RESET then Some (emit_event System_reset (emit_event (Hal_delay 10) st))
     else Some st }"

definition OTA_Protocol_Anylise ::
  "flash_hw \<Rightarrow> dev_state \<Rightarrow> u8 list \<Rightarrow> nat \<Rightarrow> (dev_state \<times> anylise_state \<times> nat) option" where
  "OTA_Protocol_Anylise hw st buf len =
     (if len < FRAME_MIN_LEN then Some (st, anylise_waiting, 0)
      else do {
        r \<leftarrow> frame_scan COMM_PROTOCOL_MAX_LEN buf len 0;
        case r of
          Scan_waiting \<Rightarrow> Some (st, anylise_waiting, 0)
        | Scan_reject k \<Rightarrow> Some (st, anylise_reject, k)
        | Scan_accept i data_len \<Rightarrow> do {
            _ \<leftarrow> rd_u16 buf (i + 4);
            st \<leftarrow> boot_uart_dispatch hw st buf i data_len;
            Some (st, anylise_accept, u32_add data_len i) } })"

subsection \<open>The update loop\<close>

record boot_uart =
  rxbuf :: RingBufType
  OTACommBuf :: "u8 list"
  OTAWaitTicks :: u32
  uart_loader :: dev_state

definition stm32_uart_recv :: "boot_uart \<Rightarrow> u8 list \<Rightarrow> nat \<Rightarrow> bool \<Rightarrow> (nat \<times> u8 list \<times> boot_uart) option" where
  "stm32_uart_recv w rx len clear = do {
     (len_tmp, rx, b) \<leftarrow> ReadDataFromBuf (rxbuf w) rx len clear;
     Some (len_tmp, rx, w\<lparr>rxbuf := b\<rparr>) }"

definition stm32_uart_del :: "boot_uart \<Rightarrow> nat \<Rightarrow> nat \<times> boot_uart" where
  "stm32_uart_del w len = (let (n, b) = DelDataFromBuf (rxbuf w) len in (n, w\<lparr>rxbuf := b\<rparr>))"

definition stm32_uart_clear :: "boot_uart \<Rightarrow> boot_uart" where
  "stm32_uart_clear w = w\<lparr>rxbuf := (rxbuf w)\<lparr>Tail := Head (rxbuf w)\<rparr>\<rparr>"

definition OTA_Periodic_Handle :: "flash_hw \<Rightarrow> u32 \<Rightarrow> u32 \<Rightarrow> boot_uart \<Rightarrow> boot_uart option" where
  "OTA_Periodic_Handle hw tick tick' w = do {
     (len, buf, w) \<leftarrow> stm32_uart_recv w (OTACommBuf w) (length (OTACommBuf w)) False;
     let w = w\<lparr>OTACommBuf := buf\<rparr>;
     if len = 0 then Some (w\<lparr>OTAWaitTicks := tick\<rparr>)
     else do {
       (st, state, del_len) \<leftarrow> OTA_Protocol_Anylise hw (uart_loader w) (OTACommBuf w) len;
       let w = w\<lparr>uart_loader := st\<rparr>;
       if state \<noteq> anylise_waiting then Some ((snd (stm32_uart_del w del_len))\<lparr>OTAWaitTicks := tick\<rparr>)
       else if timed_out tick (OTAWaitTicks w) 20000 then Some ((stm32_uart_clear w)\<lparr>OTAWaitTicks := tick'\<rparr>)
       else Some w } }"

subsection \<open>Frames of the host\<close>

lemma boot_uart_on_frame:
  assumes "length payload + 8 \<le> COMM_PROTOCOL_MAX_LEN" "length payload + 8 \<le> len" "len < U32_RANGE"
  shows "OTA_Protocol_Anylise hw st (uart_frame cmd dev payload @ rest) len =
    do { st \<leftarrow> boot_uart_dispatch hw st (uart_frame cmd dev payload @ rest) 0 (length payload + 8);
         Some (st, anylise_accept, length payload + 8) }"
proof -
  let ?f = "uart_frame cmd dev payload"
  have "valid_frame COMM_PROTOCOL_MAX_LEN ?f"
    unfolding uart_frame_def by (rule valid_framed) (use assms(1) in simp_all)
  then have s: "frame_scan COMM_PROTOCOL_MAX_LEN (?f @ rest) len 0 = Some (Scan_accept 0 (length payload + 8))"
    using frame_scan_at_head [of COMM_PROTOCOL_MAX_LEN ?f len 0 "?f @ rest"] assms by (simp add: u32_sub_exact)
  have a: "u32_add (length payload + 8) 0 = length payload + 8"
    using assms by (intro u32_add_exact [of _ 0, simplified]) simp
  have n: "\<not> len < FRAME_MIN_LEN" using assms(2) by simp
  show ?thesis
    unfolding OTA_Protocol_Anylise_def if_not_P [OF n] s by (simp add: uart_frame_fields a)
qed

lemma boot_uart_send_ack:
  "\<exists>msg. boot_uart_send (boot_OTA_Update_ACK_Construct st' code) st = Some (emit_event (Uart_send msg) st)"
  "\<exists>msg. boot_uart_send (boot_OTA_Start_ACK_Construct st') st = Some (emit_event (Uart_send msg) st)"
  "\<exists>msg buf. boot_OTA_End_ACK_Construct st' (replicate 1024 0) 1024 = Some (msg @ buf, 8) \<and> length msg = 8"
  unfolding boot_OTA_Update_ACK_Construct_def boot_OTA_Start_ACK_Construct_def boot_OTA_End_ACK_Construct_def
  by (auto simp: boot_uart_send_def uart_header_def construct_def seal_in)

end
