(* ===== verification/BootSession.thy ===== *)
theory BootSession imports BootOta BootUart
begin

text \<open>
  Update sessions of the boot loader, over CAN and over the serial line.  Both protocols store the
  header, erase the copy area, program the packets and mark the image; the locale \<open>update_port\<close> states what
  each of the three requests promises, and its lemmas follow a whole session from these promises.  The two
  interpretations discharge them for \<open>can500_protocol_anylise\<close> and \<open>OTA_Protocol_Anylise\<close>.  The theorems
  join a session with the two starts that follow it: the image that was sent is the program that runs.
\<close>

subsection \<open>The header\<close>

definition boot_updata_bytes :: "boot_updata \<Rightarrow> u8 list" where
  "boot_updata_bytes h = u16_bytes (B_CompressFlag h) @ u32_bytes (B_UpdatesTotalSize h) @ u16_bytes (B_UpdatesSubSize h) @
     u32_bytes (B_UpdatesCRC32 h) @ u32_bytes (B_ComPackOriginalSize h) @ u16_bytes (B_ComPackNo h) @
     u16_bytes (B_PerComPackOriginalSize h) @ u32_bytes (B_ComPackOriginalCRC32 h)"

lemma length_boot_updata_bytes [simp]: "length (boot_updata_bytes h) = sizeof_boot_updata"
  by (simp add: boot_updata_bytes_def)

lemma boot_updata_of_bytes [simp]: "boot_updata_of (boot_updata_bytes h) = h"
  by (simp add: boot_updata_bytes_def boot_updata_of_def u16_at_def u32_at_def u16_bytes_def u32_bytes_def u32_of_u32_bytes)

lemma header_dwords_blank:
  assumes "nor_flash hw" "addr mod 8 = 0"
  shows "unlocked d \<Longrightarrow> blank d (addr + p) (8 * k) \<Longrightarrow> p mod 8 = 0 \<Longrightarrow> p + 8 * k \<le> length pData \<Longrightarrow>
    header_dwords hw d addr pData p k = Some (d\<lparr>cells := put (cells d) (addr + p) (take (8 * k) (drop p pData))\<rparr>, True)"
proof (induction k arbitrary: d p)
  case (Suc k)
  have l: "p + 8 \<le> length pData" using Suc.prems(4) by simp
  then obtain w where w: "ArrayU8ToU64 pData p = Some w" "u64_bytes w = take 8 (drop p pData)"
    using ArrayU8ToU64_bytes by blast
  let ?xs = "take 8 (drop p pData)"
  have l8: "length ?xs = 8" using l by simp
  let ?d = "d\<lparr>cells := put (cells d) (addr + p) ?xs\<rparr>"
  have b8: "blank d (addr + p) 8" by (rule blank_sub [OF Suc.prems(2)]) auto
  then have "in_flash d (addr + p)" by (simp add: blank_def)
  then have a: "u32_add addr p = addr + p" using in_flash_less by (intro u32_add_exact) force
  have "even (addr + p)" using assms(2) Suc.prems(3) by presburger
  then have pr: "HAL_FLASH_Program hw d FLASH_TYPEPROGRAM_DOUBLEWORD (addr + p) w = (?d, HAL_OK)"
    using HAL_FLASH_Program_blank [OF assms(1) Suc.prems(1) _ b8] w(2) by simp
  have "blank d (addr + (p + 8)) (8 * k)" by (rule blank_sub [OF Suc.prems(2)]) auto
  then have b: "blank ?d (addr + (p + 8)) (8 * k)" by (rule blank_put) (simp add: l8)
  have "header_dwords hw ?d addr pData (p + 8) k =
      Some (?d\<lparr>cells := put (cells ?d) (addr + (p + 8)) (take (8 * k) (drop (p + 8) pData))\<rparr>, True)"
    using Suc.prems(1,3,4) b by (intro Suc.IH) auto
  moreover have "put (cells ?d) (addr + (p + 8)) (take (8 * k) (drop (p + 8) pData)) =
      put (cells d) (addr + p) (take (8 * Suc k) (drop p pData))"
    using put_append [of "cells d" "addr + p" ?xs "take (8 * k) (drop (p + 8) pData)"]
      take_add [of 8 "8 * k" "drop p pData"] unfolding l8 by (simp add: add.commute [of _ 8] add.assoc [symmetric])
  ultimately show ?case using Suc.prems(1) by (simp add: w(1) a pr)
qed simp

text \<open>The flash once a start request has been carried out: header stored, area erased.\<close>

definition opened :: "u8 list \<Rightarrow> nat \<Rightarrow> flash_dev \<Rightarrow> flash_dev" where
  "opened hdr n d = d\<lparr>locked := True, sr := FLASH_COMPLETE,
     cells := wipe (put (wipe (cells d) (page_from_end d FLASH_APP_INFO_ADDR) FLASH_PAGE_SIZE) (page_from_end d FLASH_APP_INFO_ADDR) hdr)
       (page_from_end d FLASH_APP_COPY_ADDR) (pages_of n * FLASH_PAGE_SIZE)\<rparr>"

lemma page_mod8: "dev_ok st \<Longrightarrow> 0 < k \<Longrightarrow> k \<le> 60 \<Longrightarrow> page_from_end (flash st) k mod 8 = 0"
proof -
  assume "dev_ok st" "0 < k" "k \<le> 60"
  then have "page_from_end (flash st) k mod FLASH_PAGE_SIZE = 0" by (rule page_facts(2))
  then obtain q where "page_from_end (flash st) k = FLASH_PAGE_SIZE * q" by (auto simp: mod_0_imp_dvd elim!: dvdE)
  then have "page_from_end (flash st) k = 8 * (256 * q)" by simp
  then show ?thesis by (metis mod_mult_self1_is_0)
qed

lemma start_opens:
  assumes "nor_flash hw" "dev_ok st" "0 < n" "n \<le> OTA_BIN_MAX_SIZE" "sizeof_boot_updata \<le> length pData"
  shows "\<exists>d r. boot_Flash_Storage_Header hw (flash st) pData = Some (d, r) \<and>
    boot_Flash_Erase_Page hw d (addr_appcopy st) n = (opened (take sizeof_boot_updata pData) n (flash st), HAL_OK)"
proof -
  let ?I = "page_from_end (flash st) FLASH_APP_INFO_ADDR"
  note f = page_facts [OF assms(2), of 4, simplified]
  define m where "m = wipe (cells (flash st)) ?I FLASH_PAGE_SIZE"
  let ?d1 = "(flash st)\<lparr>locked := True, sr := FLASH_COMPLETE, cells := m\<rparr>"
  have p1: "pages_of FLASH_PAGE_SIZE = 1" by (simp add: pages_of_def)
  have e: "boot_Flash_Erase_Page hw (flash st) ?I FLASH_PAGE_SIZE = (?d1, HAL_OK)"
    using boot_Flash_Erase_Page_wipe [OF assms(1) f(2,4), of FLASH_PAGE_SIZE] f(3) unfolding p1 m_def by simp
  let ?d2 = "(flash st)\<lparr>locked := False, sr := FLASH_COMPLETE, cells := m\<rparr>"
  have u: "Flash_Unlock ?d1 = ?d2" by (subst Flash_Unlock_ready) (simp_all add: ready_def)
  have b: "blank ?d2 (?I + 0) (8 * 3)"
    using wiped_page_blank [OF assms(2), where k = 4 and n = 24 and l = False and s = FLASH_COMPLETE] by (simp add: m_def)
  have I8: "?I mod 8 = 0" by (rule page_mod8 [OF assms(2)]) simp_all
  let ?d3 = "(flash st)\<lparr>locked := True, sr := FLASH_COMPLETE, cells := put m ?I (take 24 pData)\<rparr>"
  have "header_dwords hw ?d2 ?I pData 0 3 = Some (?d2\<lparr>cells := put m ?I (take 24 pData)\<rparr>, True)"
    using header_dwords_blank [OF assms(1) I8 _ b, of pData] assms(5) by simp
  then have h: "boot_Flash_Storage_Header hw (flash st) pData = Some (?d3, 1)"
    unfolding boot_Flash_Storage_Header_def Let_def e by (simp add: u Flash_Lock_def)
  note copy = dev_ok_copy [OF assms(2,4)]
  have "boot_Flash_Erase_Page hw ?d3 (addr_appcopy st) n =
      (?d3\<lparr>locked := True, sr := FLASH_COMPLETE, cells := wipe (cells ?d3) (addr_appcopy st) (pages_of n * FLASH_PAGE_SIZE)\<rparr>, HAL_OK)"
    using assms(3,4) copy by (intro boot_Flash_Erase_Page_wipe assms(1)) (auto simp: ready_def)
  then show ?thesis using h by (intro exI [of _ ?d3] exI [of _ 1]) (simp add: opened_def m_def addr_appcopy_def)
qed

subsection \<open>The mode flag\<close>

lemma boot_UpdateAppMode_flash:
  assumes "nor_flash hw" "dev_ok st"
  defines "F \<equiv> page_from_end (flash st) FLASH_IAP_FLAG_ADDR"
  shows "\<exists>m. boot_UpdateAppMode hw st = st\<lparr>IAP_FLAG := OTA_Update_APP,
       flash := (flash st)\<lparr>locked := True, sr := FLASH_COMPLETE, cells := m\<rparr>\<rparr> \<and>
     (\<forall>b. b < F \<or> F + FLASH_PAGE_SIZE \<le> b \<longrightarrow> m b = cells (flash st) b) \<and>
     ReadIAPMode (flash (boot_UpdateAppMode hw st)) = OTA_Update_APP"
proof (cases "ReadIAPMode (flash st) = OTA_RUN_APP")
  case True
  note f = page_facts [OF assms(2), of 1, folded F_def, simplified]
  have b: "blank (flash st) F 8"
    using True f(3) unfolding ReadIAPMode_def F_def by (intro read_u64_blank) auto
  have u: "boot_UpdateAppMode hw st = st\<lparr>IAP_FLAG := OTA_Update_APP, flash := (flash st)\<lparr>locked := True, sr := FLASH_COMPLETE,
           cells := put (cells (flash st)) F (u64_bytes OTA_Update_APP)\<rparr>\<rparr>"
    using program_flag_blank [OF assms(1,2), of OTA_Update_APP] b True by (simp add: boot_UpdateAppMode_def F_def)
  have "ReadIAPMode (flash (boot_UpdateAppMode hw st)) = OTA_Update_APP"
    using read_u64_put unfolding u by (simp add: ReadIAPMode_def page_from_end_def Get_FlashSize_def F_def)
  then show ?thesis unfolding u by (intro exI conjI) (rule refl, auto simp: put_def)
next
  case False
  then have e: "boot_UpdateAppMode hw st = program_flag hw OTA_Update_APP (boot_RunAppMode hw st)"
    by (simp add: boot_UpdateAppMode_def)
  note r = flag_after_run_mode [OF assms(1,2), of OTA_Update_APP, folded F_def e]
  show ?thesis using r(2) unfolding r(1) by (intro exI conjI) (rule refl, auto simp: put_def wipe_def)
qed

subsection \<open>The state of the flash during a session\<close>

lemma roundup8_le: "(a::nat) mod 8 = 0 \<Longrightarrow> p mod 8 = 0 \<Longrightarrow> a + n \<le> p \<Longrightarrow> a + 8 * ((n + 7) div 8) \<le> p"
proof -
  assume "a mod 8 = 0" "p mod 8 = 0" and le: "a + n \<le> p"
  then obtain q r where q: "a = 8 * q" "p = 8 * r" by (auto simp: mod_0_imp_dvd elim!: dvdE)
  then have "q \<le> r" "n + 7 < (r - q + 1) * 8" using le by auto
  then have "(n + 7) div 8 < r - q + 1" by (intro less_mult_imp_div_less)
  then show ?thesis using q \<open>q \<le> r\<close> by linarith
qed

lemma copied_room8:
  assumes "copied S img base k d" "S mod 8 = 0" "k * S < length img"
  shows "blank d (base + k * S) (8 * ((length (chunk_of S img k) + 7) div 8))" "k * S mod 8 = 0"
proof -
  have inv: "blank d (base + k * S) (pages_of (length img) * FLASH_PAGE_SIZE - k * S)"
    using assms(1) by (simp add: copied_def)
  have c: "length (chunk_of S img k) = min S (length img - k * S)" by (simp add: chunk_of_def)
  show kS8: "k * S mod 8 = 0" using assms(2) by (metis mod_mult_right_eq mult_0_right mod_0)
  have "pages_of (length img) * FLASH_PAGE_SIZE = 8 * (pages_of (length img) * 256)" by simp
  then have P8: "pages_of (length img) * FLASH_PAGE_SIZE mod 8 = 0" by (simp only: mod_mult_self1_is_0)
  have "k * S + 8 * ((length (chunk_of S img k) + 7) div 8) \<le> pages_of (length img) * FLASH_PAGE_SIZE"
    using pages_of_ge [of "length img"] c assms(3) by (intro roundup8_le kS8 P8) linarith
  then show "blank d (base + k * S) (8 * ((length (chunk_of S img k) + 7) div 8))"
    by (intro blank_sub [OF inv]) auto
qed

definition stored_header :: "dev_state \<Rightarrow> u8 list" where
  "stored_header st = map (cells (flash st)) [page_from_end (flash st) FLASH_APP_INFO_ADDR..<
     page_from_end (flash st) FLASH_APP_INFO_ADDR + sizeof_boot_updata]"

definition under_way :: "nat \<Rightarrow> u8 list \<Rightarrow> u8 list \<Rightarrow> nat \<Rightarrow> dev_state \<Rightarrow> bool" where
  "under_way S img hdr k st \<longleftrightarrow> dev_ok st \<and> 258 \<le> Get_FlashSize (flash st) \<and>
     copied S img (addr_appcopy st) k (flash st) \<and> stored_header st = hdr"

lemma info_page:
  assumes "dev_ok st" "258 \<le> Get_FlashSize (flash st)"
  shows "page_from_end (flash st) FLASH_APP_INFO_ADDR = addr_appcopy st + 53 * FLASH_PAGE_SIZE"
  using flag_page_behind(2) [OF assms, of 4] by simp

lemma opened_under_way:
  assumes "dev_ok st" "258 \<le> Get_FlashSize (flash st)" "length img \<le> OTA_BIN_MAX_SIZE" "length hdr = sizeof_boot_updata"
    and st': "flash st' = opened hdr (length img) (flash st)" "dev_ok st'"
  shows "under_way S img hdr 0 st'"
proof -
  let ?I = "page_from_end (flash st) FLASH_APP_INFO_ADDR"
  note copy = dev_ok_copy [OF assms(1,3)]
  have same: "Get_FlashSize (flash st') = Get_FlashSize (flash st)" "page_from_end (flash st') = page_from_end (flash st)"
    "in_flash (flash st') = in_flash (flash st)" "addr_appcopy st' = addr_appcopy st"
    unfolding addr_appcopy_def st'(1) by (simp_all add: opened_def fun_eq_iff page_from_end_def Get_FlashSize_def in_flash_def)
  have I: "?I = addr_appcopy st + 53 * FLASH_PAGE_SIZE" by (rule info_page [OF assms(1,2)])
  define m where "m = put (wipe (cells (flash st)) ?I FLASH_PAGE_SIZE) ?I hdr"
  have c: "cells (flash st') = wipe m (addr_appcopy st) (pages_of (length img) * FLASH_PAGE_SIZE)"
    unfolding st'(1) by (simp add: opened_def m_def addr_appcopy_def)
  have "copied S img (addr_appcopy st) 0 (flash st')"
    by (rule copied_wiped [OF _ order_refl c]) (use copy(3,4) in \<open>auto simp: same\<close>)
  moreover have "stored_header st' = hdr"
  proof -
    have "stored_header st' = map m [?I..<?I + sizeof_boot_updata]"
      unfolding stored_header_def same c using copy(4) I by (intro map_cong refl) (auto simp: wipe_def)
    then show ?thesis using put_read [of "wipe (cells (flash st)) ?I FLASH_PAGE_SIZE" ?I hdr] assms(4) by (simp add: m_def)
  qed
  ultimately show ?thesis using assms(2) st'(2) by (simp add: under_way_def same)
qed

lemma packet_under_way:
  assumes "under_way S img hdr k st" "0 < S" "S mod 8 = 0" "k * S < length img" "length img \<le> OTA_BIN_MAX_SIZE"
    and st': "flash st' = (flash st)\<lparr>locked := True, sr := FLASH_COMPLETE,
       cells := put (cells (flash st)) (addr_appcopy st + k * S) (chunk_of S img k)\<rparr>" "dev_ok st'"
  shows "under_way S img hdr (k + 1) st'"
proof -
  let ?I = "page_from_end (flash st) FLASH_APP_INFO_ADDR"
  have u: "dev_ok st" "258 \<le> Get_FlashSize (flash st)" "copied S img (addr_appcopy st) k (flash st)" "stored_header st = hdr"
    using assms(1) by (auto simp: under_way_def)
  have same: "Get_FlashSize (flash st') = Get_FlashSize (flash st)" "page_from_end (flash st') = page_from_end (flash st)"
    "addr_appcopy st' = addr_appcopy st"
    unfolding addr_appcopy_def st'(1) by (simp_all add: fun_eq_iff page_from_end_def Get_FlashSize_def)
  have "S mod 4 = 0" using assms(3) by presburger
  then have "copied S img (addr_appcopy st) (k + 1) (flash st')"
    using copied_step(2) [OF u(3) assms(2) _ assms(4), of "flash st'"] by (simp add: st'(1))
  moreover have "stored_header st' = stored_header st"
  proof -
    have "k * S + length (chunk_of S img k) \<le> length img" using assms(4) by (simp add: chunk_of_def)
    then show ?thesis
      unfolding stored_header_def same unfolding st'(1) using info_page [OF u(1,2)] assms(5)
      by (intro map_cong refl) (auto simp: put_def)
  qed
  ultimately show ?thesis using u st'(2) by (simp add: under_way_def same)
qed

lemma finished_waits:
  assumes "nor_flash hw" "under_way S img (boot_updata_bytes h) (packets S img) st" "0 < S" "length img \<le> OTA_BIN_MAX_SIZE"
    "unat (B_UpdatesTotalSize h) = length img"
    and st': "flash st' = flash (boot_UpdateAppMode hw st)"
  shows "waiting_header st' = h" "waiting_image st' = img" "ReadIAPMode (flash st') = OTA_Update_APP"
    "258 \<le> Get_FlashSize (flash st')" "addr_appcopy st' = addr_appcopy st"
proof -
  let ?F = "page_from_end (flash st) FLASH_IAP_FLAG_ADDR"
  have u: "dev_ok st" "258 \<le> Get_FlashSize (flash st)" "copied S img (addr_appcopy st) (packets S img) (flash st)"
    "stored_header st = boot_updata_bytes h" using assms(2) by (auto simp: under_way_def)
  obtain m where m: "flash st' = (flash st)\<lparr>locked := True, sr := FLASH_COMPLETE, cells := m\<rparr>"
    "\<forall>b. b < ?F \<or> ?F + FLASH_PAGE_SIZE \<le> b \<longrightarrow> m b = cells (flash st) b" "ReadIAPMode (flash st') = OTA_Update_APP"
    using boot_UpdateAppMode_flash [OF assms(1) u(1)] unfolding st' by auto
  show "ReadIAPMode (flash st') = OTA_Update_APP" by (rule m(3))
  have same: "page_from_end (flash st') = page_from_end (flash st)" "Get_FlashSize (flash st') = Get_FlashSize (flash st)"
    unfolding m(1) by (simp_all add: fun_eq_iff page_from_end_def Get_FlashSize_def)
  then show "258 \<le> Get_FlashSize (flash st')" "addr_appcopy st' = addr_appcopy st" using u(2) by (simp_all add: addr_appcopy_def)
  note lay = flag_page_behind [OF u(1,2)] and I = info_page [OF u(1,2)]
  have keep: "cells (flash st') b = cells (flash st) b" if "b < addr_appcopy st + 56 * FLASH_PAGE_SIZE" for b
    using m(2) that lay(1) [of 1] unfolding m(1) by simp
  have "stored_header st' = boot_updata_bytes h"
    unfolding u(4) [symmetric] stored_header_def same I by (intro map_cong refl) (simp add: keep)
  then show h: "waiting_header st' = h" by (simp add: waiting_header_def stored_header_def)
  have a: "addr_appcopy st' = addr_appcopy st" by (simp add: addr_appcopy_def same)
  have "map (cells (flash st')) [addr_appcopy st..<addr_appcopy st + length img] =
      map (cells (flash st)) [addr_appcopy st..<addr_appcopy st + length img]"
    using assms(4) by (intro map_cong refl) (simp add: keep)
  then show "waiting_image st' = img"
    unfolding waiting_image_def h assms(5) a copied_all [OF assms(3) u(3)] .
qed

subsection \<open>What the three requests promise\<close>

fun deliver :: "(dev_state \<Rightarrow> u8 list \<Rightarrow> dev_state option) \<Rightarrow> dev_state \<Rightarrow> u8 list list \<Rightarrow> dev_state option" where
  "deliver receive st [] = Some st"
| "deliver receive st (f # fs) = do { st \<leftarrow> receive st f; deliver receive st fs }"

lemma deliver_append: "deliver receive st (fs @ gs) = do { st \<leftarrow> deliver receive st fs; deliver receive st gs }"
proof (induction fs arbitrary: st)
  case (Cons f fs)
  then show ?case by (cases "receive st f") auto
qed simp

definition update_session :: "u8 list \<Rightarrow> (u16 \<Rightarrow> u8 list \<Rightarrow> u8 list) \<Rightarrow> u8 list \<Rightarrow> nat \<Rightarrow> u8 list \<Rightarrow> u8 list list" where
  "update_session start packet finish S img =
     [start] @ map (\<lambda>k. packet (of_nat k) (chunk_of S img k)) [0..<packets S img] @ [finish]"

locale update_port =
  fixes receive :: "flash_hw \<Rightarrow> dev_state \<Rightarrow> u8 list \<Rightarrow> dev_state option"
    and start :: "boot_updata \<Rightarrow> u8 list"
    and packet :: "u16 \<Rightarrow> u8 list \<Rightarrow> u8 list"
    and finish :: "u8 list"
    and listens :: "dev_state \<Rightarrow> bool"
    and sub_size :: "dev_state \<Rightarrow> nat"
    and room :: nat
  assumes start_law: "nor_flash hw \<Longrightarrow> dev_ok st \<Longrightarrow> listens st \<Longrightarrow> 0 < unat (B_UpdatesTotalSize h) \<Longrightarrow>
      unat (B_UpdatesTotalSize h) \<le> OTA_BIN_MAX_SIZE \<Longrightarrow>
      \<exists>st'. receive hw st (start h) = Some st' \<and> dev_ok st' \<and> listens st' \<and> sub_size st' = unat (B_UpdatesSubSize h) \<and>
        flash st' = opened (boot_updata_bytes h) (unat (B_UpdatesTotalSize h)) (flash st)"
    and packet_law: "nor_flash hw \<Longrightarrow> dev_ok st \<Longrightarrow> listens st \<Longrightarrow> chunk \<noteq> [] \<Longrightarrow> length chunk \<le> room \<Longrightarrow>
      off = unat num * sub_size st \<Longrightarrow> off < OTA_BIN_MAX_SIZE \<Longrightarrow> off mod 8 = 0 \<Longrightarrow>
      blank (flash st) (addr_appcopy st + off) (8 * ((length chunk + 7) div 8)) \<Longrightarrow>
      \<exists>st'. receive hw st (packet num chunk) = Some st' \<and> dev_ok st' \<and> listens st' \<and> sub_size st' = sub_size st \<and>
        flash st' = (flash st)\<lparr>locked := True, sr := FLASH_COMPLETE, cells := put (cells (flash st)) (addr_appcopy st + off) chunk\<rparr>"
    and finish_law: "nor_flash hw \<Longrightarrow> dev_ok st \<Longrightarrow> listens st \<Longrightarrow>
      \<exists>st'. receive hw st finish = Some st' \<and> dev_ok st' \<and> flash st' = flash (boot_UpdateAppMode hw st) \<and>
        last (outbox st') = System_reset"
begin

lemma packets_stored:
  assumes "nor_flash hw" "0 < S" "S mod 8 = 0" "S \<le> room" "length img \<le> OTA_BIN_MAX_SIZE"
    "under_way S img hdr 0 st" "listens st" "sub_size st = S"
  shows "n \<le> packets S img \<Longrightarrow>
    \<exists>st'. deliver (receive hw) st (map (\<lambda>k. packet (of_nat k) (chunk_of S img k)) [0..<n]) = Some st' \<and>
      under_way S img hdr n st' \<and> listens st' \<and> sub_size st' = S"
proof (induction n)
  case 0
  then show ?case using assms(6-8) by simp
next
  case (Suc n)
  then obtain st1 where st1: "deliver (receive hw) st (map (\<lambda>k. packet (of_nat k) (chunk_of S img k)) [0..<n]) = Some st1"
    "under_way S img hdr n st1" "listens st1" "sub_size st1 = S" by auto
  have u: "dev_ok st1" "copied S img (addr_appcopy st1) n (flash st1)" using st1(2) by (auto simp: under_way_def)
  have n: "n * S < length img" using packets_cover(2) [OF assms(2)] Suc.prems by simp
  have S4: "S mod 4 = 0" using assms(3) by presburger
  have num: "unat (of_nat n :: u16) = n" by (rule packet_number [OF assms(2) S4 n assms(5)])
  note room8 = copied_room8 [OF u(2) assms(3) n]
  have c: "chunk_of S img n \<noteq> []" "length (chunk_of S img n) \<le> room" using assms(2,4) n by (auto simp: chunk_of_def)
  obtain st2 where st2: "receive hw st1 (packet (of_nat n) (chunk_of S img n)) = Some st2" "dev_ok st2" "listens st2"
    "sub_size st2 = sub_size st1"
    "flash st2 = (flash st1)\<lparr>locked := True, sr := FLASH_COMPLETE, cells := put (cells (flash st1)) (addr_appcopy st1 + n * S) (chunk_of S img n)\<rparr>"
    using packet_law [OF assms(1) u(1) st1(3) c, of "n * S" "of_nat n"] n assms(5) room8 unfolding num st1(4) by auto
  have "under_way S img hdr (n + 1) st2"
    by (rule packet_under_way [OF st1(2) assms(2,3) n assms(5) st2(5,2)])
  then show ?case using st1(1,4) st2(1,3,4) by (simp add: deliver_append)
qed

lemma session_waits:
  assumes "nor_flash hw" "dev_ok st" "258 \<le> Get_FlashSize (flash st)" "listens st"
    "unat (B_UpdatesTotalSize h) = length img" "img \<noteq> []" "length img \<le> OTA_BIN_MAX_SIZE"
    "0 < unat (B_UpdatesSubSize h)" "unat (B_UpdatesSubSize h) mod 8 = 0" "unat (B_UpdatesSubSize h) \<le> room"
  shows "\<exists>st'. deliver (receive hw) st (update_session (start h) packet finish (unat (B_UpdatesSubSize h)) img) = Some st' \<and>
    dev_ok st' \<and> 258 \<le> Get_FlashSize (flash st') \<and> ReadIAPMode (flash st') = OTA_Update_APP \<and>
    waiting_header st' = h \<and> waiting_image st' = img \<and> last (outbox st') = System_reset"
proof -
  let ?S = "unat (B_UpdatesSubSize h)"
  have n: "0 < unat (B_UpdatesTotalSize h)" "unat (B_UpdatesTotalSize h) \<le> OTA_BIN_MAX_SIZE" using assms(5-7) by simp_all
  obtain st1 where st1: "receive hw st (start h) = Some st1" "dev_ok st1" "listens st1" "sub_size st1 = ?S"
    "flash st1 = opened (boot_updata_bytes h) (length img) (flash st)"
    using start_law [OF assms(1,2,4) n] unfolding assms(5) by blast
  have "under_way ?S img (boot_updata_bytes h) 0 st1"
    by (rule opened_under_way [OF assms(2,3,7) _ st1(5,2)]) simp
  from packets_stored [OF assms(1,8-10,7) this st1(3,4) order_refl] obtain st2 where
    st2: "deliver (receive hw) st1 (map (\<lambda>k. packet (of_nat k) (chunk_of ?S img k)) [0..<packets ?S img]) = Some st2"
      "under_way ?S img (boot_updata_bytes h) (packets ?S img) st2" "listens st2" by blast
  have "dev_ok st2" using st2(2) by (simp add: under_way_def)
  from finish_law [OF assms(1) this st2(3)] obtain st3 where
    st3: "receive hw st2 finish = Some st3" "dev_ok st3" "flash st3 = flash (boot_UpdateAppMode hw st2)"
      "last (outbox st3) = System_reset" by blast
  note w = finished_waits [OF assms(1) st2(2) assms(8,7,5) st3(3)]
  have "deliver (receive hw) st (update_session (start h) packet finish ?S img) = Some st3"
    using st1(1) st2(1) st3(1) by (simp add: update_session_def deliver_append)
  then show ?thesis using w st3(2,4) by blast
qed

end

subsection \<open>The session and the two starts behind it\<close>

text \<open>
  After a reset the memory of the program may hold anything; only the flash is kept.  The first start copies
  the image and resets, the second one enters it.
\<close>

definition installed_and_started :: "uncompress \<Rightarrow> flash_hw \<Rightarrow> u8 list \<Rightarrow> dev_state \<Rightarrow> bool" where
  "installed_and_started unz hw img st \<longleftrightarrow>
     (\<forall>ram. dev_ok ram \<and> flash ram = flash st \<longrightarrow>
       (\<exists>st'. boot_main unz hw ram = Some (Reset, st') \<and>
          map (cells (flash st')) [addr_apprun..<addr_apprun + length img] = img \<and>
          (\<forall>ram'. flash ram' = flash st' \<longrightarrow>
             (\<exists>st''. boot_main unz hw ram' = Some (Jump (u32_at img 0) (u32_at img 4), st'') \<and> flash st'' = flash st'))))"

lemma waiting_same_flash:
  "flash ram = flash st \<Longrightarrow> waiting_header ram = waiting_header st \<and> waiting_image ram = waiting_image st \<and>
     waiting_image_ok ram = waiting_image_ok st"
  by (simp add: waiting_header_def waiting_image_def waiting_image_ok_def addr_appcopy_def)

lemma waits_then_starts:
  assumes "nor_flash hw" "258 \<le> Get_FlashSize (flash st)" "ReadIAPMode (flash st) = OTA_Update_APP"
    "waiting_header st = h" "waiting_image st = img" "length img \<le> OTA_BIN_MAX_SIZE" "unat (B_UpdatesTotalSize h) = length img"
    "B_UpdatesCRC32 h = image_crc img" "B_CompressFlag h \<noteq> 1" "8 \<le> length img" "u32_at img 0 AND 0x2FFE0000 = 0x20000000"
  shows "installed_and_started unz hw img st"
  unfolding installed_and_started_def
proof (intro allI impI)
  fix ram assume ram: "dev_ok ram \<and> flash ram = flash st"
  note w = waiting_same_flash [OF ram [THEN conjunct2]]
  have "waiting_image_ok ram" using w assms(4-8) by (simp add: waiting_image_ok_def)
  moreover have "waiting_image ram \<noteq> []" using w assms(5,10) by auto
  ultimately obtain st' where s: "boot_main unz hw ram = Some (Reset, st')"
    "map (cells (flash st')) [addr_apprun..<addr_apprun + length img] = img" "ReadIAPMode (flash st') = OTA_RUN_APP"
    using boot_main_installs [OF assms(1), of ram unz] ram w assms(2-5,9) by auto
  have "\<exists>st''. boot_main unz hw ram' = Some (Jump (u32_at img 0) (u32_at img 4), st'') \<and> flash st'' = flash st'"
    if "flash ram' = flash st'" for ram'
    using boot_starts_image [of ram' img unz hw] s(2,3) assms(10,11) that by auto
  then show "\<exists>st'. boot_main unz hw ram = Some (Reset, st') \<and>
      map (cells (flash st')) [addr_apprun..<addr_apprun + length img] = img \<and>
      (\<forall>ram'. flash ram' = flash st' \<longrightarrow>
         (\<exists>st''. boot_main unz hw ram' = Some (Jump (u32_at img 0) (u32_at img 4), st'') \<and> flash st'' = flash st'))"
    using s(1,2) by blast
qed

text \<open>What a host needs to know of an image that the boot loader will accept.\<close>

definition sendable :: "nat \<Rightarrow> boot_updata \<Rightarrow> u8 list \<Rightarrow> bool" where
  "sendable room h img \<longleftrightarrow>
     unat (B_UpdatesTotalSize h) = length img \<and> 8 \<le> length img \<and> length img \<le> OTA_BIN_MAX_SIZE \<and>
     0 < unat (B_UpdatesSubSize h) \<and> unat (B_UpdatesSubSize h) mod 8 = 0 \<and> unat (B_UpdatesSubSize h) \<le> room \<and>
     B_UpdatesCRC32 h = image_crc img \<and> B_CompressFlag h \<noteq> 1 \<and> u32_at img 0 AND 0x2FFE0000 = 0x20000000"

context update_port
begin

lemma session_installs:
  assumes "nor_flash hw" "dev_ok st" "258 \<le> Get_FlashSize (flash st)" "listens st" "sendable room h img"
  shows "\<exists>st'. deliver (receive hw) st (update_session (start h) packet finish (unat (B_UpdatesSubSize h)) img) = Some st' \<and>
    last (outbox st') = System_reset \<and> installed_and_started unz hw img st'"
proof -
  have s: "unat (B_UpdatesTotalSize h) = length img" "8 \<le> length img" "length img \<le> OTA_BIN_MAX_SIZE"
    "0 < unat (B_UpdatesSubSize h)" "unat (B_UpdatesSubSize h) mod 8 = 0" "unat (B_UpdatesSubSize h) \<le> room"
    "B_UpdatesCRC32 h = image_crc img" "B_CompressFlag h \<noteq> 1" "u32_at img 0 AND 0x2FFE0000 = 0x20000000"
    using assms(5) by (auto simp: sendable_def)
  have "img \<noteq> []" using s(2) by auto
  from session_waits [OF assms(1-4) s(1) this s(3-6)] obtain st' where
    st': "deliver (receive hw) st (update_session (start h) packet finish (unat (B_UpdatesSubSize h)) img) = Some st'"
      "258 \<le> Get_FlashSize (flash st')" "ReadIAPMode (flash st') = OTA_Update_APP" "waiting_header st' = h"
      "waiting_image st' = img" "last (outbox st') = System_reset" by blast
  have "installed_and_started unz hw img st'"
    by (rule waits_then_starts [OF assms(1) st'(2-5) s(3,1,7,8,2,9)])
  then show ?thesis using st'(1,6) by blast
qed

end

subsection \<open>The CAN protocol\<close>

definition boot_can_receive :: "flash_hw \<Rightarrow> dev_state \<Rightarrow> u8 list \<Rightarrow> dev_state option" where
  "boot_can_receive hw st f = do { (st, _, _) \<leftarrow> boot_can500_protocol_anylise hw st f (length f); Some st }"

definition boot_can_start :: "u16 \<Rightarrow> u16 \<Rightarrow> u16 \<Rightarrow> boot_updata \<Rightarrow> u8 list" where
  "boot_can_start dev remote ver h = host_frame CAN_OTA_Recv_Start dev remote (u16_bytes ver @ boot_updata_bytes h)"

definition boot_can_packet :: "u16 \<Rightarrow> u16 \<Rightarrow> u16 \<Rightarrow> u8 list \<Rightarrow> u8 list" where
  "boot_can_packet dev remote num chunk = host_frame CAN_OTA_Recv_Update dev remote (u16_bytes num @ chunk)"

definition boot_can_finish :: "u16 \<Rightarrow> u16 \<Rightarrow> u8 list" where
  "boot_can_finish dev remote = host_frame CAN_OTA_Recv_End dev remote []"

definition boot_heard :: "u16 \<Rightarrow> u16 \<Rightarrow> dev_state \<Rightarrow> dev_state" where
  "boot_heard dev remote st = st\<lparr>iap_param := (iap_param st)\<lparr>remoteID := boot_remote dev (ucast remote)\<rparr>\<rparr>"

lemma boot_heard_fields [simp]:
  "flash (boot_heard dev remote st) = flash st" "can_ota (boot_heard dev remote st) = can_ota st"
  "addr_appcopy (boot_heard dev remote st) = addr_appcopy st" "addressed (boot_heard dev remote st) d = addressed st d"
  "dev_ok (boot_heard dev remote st) = dev_ok st"
  by (simp_all add: boot_heard_def addr_appcopy_def addressed_def dev_ok_def)

lemma boot_can_on_frame:
  assumes "length payload + 10 \<le> CAN_COMM_PROTOCOL_MAX_LEN" "addressed st dev"
  shows "boot_can_receive hw st (host_frame cmd dev remote payload) =
    boot_can500_dispatch hw (boot_heard dev remote st) (host_frame cmd dev remote payload) 0 (length payload + 10)"
proof -
  let ?f = "host_frame cmd dev remote payload"
  have "frame_scan CAN_COMM_PROTOCOL_MAX_LEN ?f (length ?f) 0 = Some (Scan_accept 0 (length ?f))"
    using frame_scan_at_head [of CAN_COMM_PROTOCOL_MAX_LEN ?f "length ?f" 0 ?f] valid_host_frame [OF assms(1)] assms(1)
    by (simp add: u32_sub_exact)
  then have s: "frame_scan CAN_COMM_PROTOCOL_MAX_LEN ?f (length ?f) 0 = Some (Scan_accept 0 (length payload + 10))" by simp
  have n: "\<not> length ?f < FRAME_MIN_LEN" by simp
  have lay: "?f ! 6 = ucast remote" "?f ! 7 = ucast (drop_bit 8 remote)"
    by (subst host_frame_layout; simp add: u16_bytes_def; fail)+
  have d: "rd_u16 ?f 4 = Some dev" using host_frame_ids(2) [of cmd dev remote payload "[]"] by simp
  have "boot_can500_handle hw st ?f 0 (length payload + 10) =
      boot_can500_dispatch hw (boot_heard dev remote st) ?f 0 (length payload + 10)"
    using assms(2) lay d by (simp add: boot_can500_handle_def mem_simps boot_heard_def addressed_def Let_def)
  then show ?thesis
    unfolding boot_can_receive_def boot_can500_protocol_anylise_def if_not_P [OF n] s
    by (cases "boot_can500_dispatch hw (boot_heard dev remote st) ?f 0 (length payload + 10)") simp_all
qed

lemma boot_can_start_law:
  assumes "nor_flash hw" "dev_ok st" "addressed st dev" "0 < unat (B_UpdatesTotalSize h)" "unat (B_UpdatesTotalSize h) \<le> OTA_BIN_MAX_SIZE"
  shows "\<exists>st'. boot_can_receive hw st (boot_can_start dev remote ver h) = Some st' \<and> dev_ok st' \<and> addressed st' dev \<and>
    unat (OTA_SubSize (can_ota st')) = unat (B_UpdatesSubSize h) \<and>
    flash st' = opened (boot_updata_bytes h) (unat (B_UpdatesTotalSize h)) (flash st)"
proof -
  let ?pay = "u16_bytes ver @ boot_updata_bytes h" and ?n = "unat (B_UpdatesTotalSize h)"
  define buf where "buf = host_frame CAN_OTA_Recv_Start dev remote ?pay"
  define st0 where "st0 = boot_heard dev remote st"
  have len: "36 \<le> length buf" by (simp add: buf_def)
  have pay: "take 26 (drop 8 buf) = ?pay"
    using host_frame_drop [of ?pay CAN_OTA_Recv_Start dev remote "[]"] by (simp add: buf_def)
  have ver: "take 2 (drop 8 buf) = u16_bytes ver" using take_drop_inside [OF pay, of 0 2] by simp
  have v: "rd_u16 buf 8 = Some ver"
    using arg_cong [OF ver, of "\<lambda>xs. xs ! 0"] arg_cong [OF ver, of "\<lambda>xs. xs ! 1"] len
    by (simp add: u16_bytes_def rd_u16_def mem_simps)
  have hd: "take 24 (drop 10 buf) = boot_updata_bytes h" using take_drop_inside [OF pay, of 2 24] by simp
  have t: "ArrayU8ToU32 buf 12 = Some (B_UpdatesTotalSize h)"
    using take_drop_inside [OF hd, of 2 4] len by (intro load_u32) (simp_all add: boot_updata_bytes_def)
  have s: "ArrayU8ToU16 buf 16 = Some (B_UpdatesSubSize h)"
    using take_drop_inside [OF hd, of 6 2] len by (intro load_u16) (simp_all add: boot_updata_bytes_def)
  have c: "ArrayU8ToU32 buf 18 = Some (B_UpdatesCRC32 h)"
    using take_drop_inside [OF hd, of 8 4] len by (intro load_u32) (simp_all add: boot_updata_bytes_def)
  have mc: "memcpy (replicate 24 0) 0 buf 10 24 = Some (boot_updata_bytes h)" using len hd by (simp add: memcpy_def)
  have f0: "flash st0 = flash st" by (simp add: st0_def)
  define st1 where "st1 = st0\<lparr>can_ota := (can_ota st0)\<lparr>OTA_UpdateFlag := 1, OTA_Version := ver, OTA_TotalSize := B_UpdatesTotalSize h,
      OTA_SubSize := ucast (B_UpdatesSubSize h), OTA_CRC32 := B_UpdatesCRC32 h\<rparr>\<rparr>"
  have st1: "dev_ok st1" "flash st1 = flash st" "addressed st1 dev" "OTA_SubSize (can_ota st1) = ucast (B_UpdatesSubSize h)"
    using assms(2,3) by (simp_all add: st1_def st0_def dev_ok_def addressed_def boot_heard_def)
  obtain d r where d: "boot_Flash_Storage_Header hw (flash st) (boot_updata_bytes h) = Some (d, r)"
    "boot_Flash_Erase_Page hw d (addr_appcopy st1) ?n = (opened (boot_updata_bytes h) ?n (flash st), HAL_OK)"
    using start_opens [OF assms(1) st1(1) assms(4,5), of "boot_updata_bytes h"] unfolding st1(2) by auto
  let ?st = "st1\<lparr>flash := opened (boot_updata_bytes h) ?n (flash st)\<rparr>"
  obtain msg where msg: "send_frame CAN_OTA_Start_ACK_Construct ?st = Some (emit_event (Can_send 0x500 msg) ?st)"
    using send_frame_ack(2) by blast
  have "boot_ota_start hw st0 buf 0 = Some (emit_event (Can_send 0x500 msg) ?st)"
    unfolding boot_ota_start_def using v t s c mc d msg
    by (simp add: Let_def st1_def [symmetric] f0)
  then have "boot_can_receive hw st buf = Some (emit_event (Can_send 0x500 msg) ?st)"
    using boot_can_on_frame [of ?pay st dev hw CAN_OTA_Recv_Start remote] assms(3)
    by (simp add: boot_can500_dispatch_def mem_simps host_frame_ids buf_def st0_def)
  moreover have "unat (ucast (B_UpdatesSubSize h) :: u32) = unat (B_UpdatesSubSize h)"
    using unat_u16_less [of "B_UpdatesSubSize h"] by (simp add: unat_ucast)
  ultimately show ?thesis
    using st1 assms(2) unfolding boot_can_start_def buf_def
    by (auto simp: emit_event_def dev_ok_def addressed_def opened_def ready_def Get_FlashSize_def)
qed

lemma boot_can_packet_law:
  assumes "nor_flash hw" "dev_ok st" "addressed st dev" "length chunk \<le> 1448"
    "off = unat num * unat (OTA_SubSize (can_ota st))" "off < OTA_BIN_MAX_SIZE" "off mod 8 = 0"
    "blank (flash st) (addr_appcopy st + off) (8 * ((length chunk + 7) div 8))"
  shows "\<exists>st'. boot_can_receive hw st (boot_can_packet dev remote num chunk) = Some st' \<and> dev_ok st' \<and> addressed st' dev \<and>
    unat (OTA_SubSize (can_ota st')) = unat (OTA_SubSize (can_ota st)) \<and>
    flash st' = (flash st)\<lparr>locked := True, sr := FLASH_COMPLETE, cells := put (cells (flash st)) (addr_appcopy st + off) chunk\<rparr>"
proof -
  let ?pay = "u16_bytes num @ chunk"
  define buf where "buf = host_frame CAN_OTA_Recv_Update dev remote ?pay"
  define st0 where "st0 = boot_heard dev remote st"
  have f0: "flash st0 = flash st" "OTA_SubSize (can_ota st0) = OTA_SubSize (can_ota st)" by (simp_all add: st0_def)
  define st1 where "st1 = st0\<lparr>can_ota := (can_ota st0)\<lparr>OTA_UpdateFlag := 2, OTA_Frame_Num := num\<rparr>\<rparr>"
  have st1: "dev_ok st1" "flash st1 = flash st" "addressed st1 dev" "OTA_SubSize (can_ota st1) = OTA_SubSize (can_ota st)"
    "addr_appcopy st1 = addr_appcopy st"
    using assms(2,3) by (simp_all add: st1_def st0_def dev_ok_def addressed_def boot_heard_def addr_appcopy_def)
  have pay: "take (2 + length chunk) (drop 8 buf) = ?pay"
    using host_frame_drop [of ?pay CAN_OTA_Recv_Update dev remote "[]"] by (simp add: buf_def)
  have n: "ArrayU8ToU16 buf 8 = Some num"
    using take_drop_inside [OF pay, of 0 2] by (intro load_u16) (simp_all add: buf_def)
  have data: "take (length chunk) (drop 10 buf) = chunk"
    using take_drop_inside [OF pay, of 2 "length chunk"] by simp
  have o: "u32_mul (unat num) (unat (OTA_SubSize (can_ota st))) = off"
    using assms(5,6) by (simp add: u32_mul_def)
  have u: "u32_sub (length chunk + 12) 12 = length chunk"
    using assms(4) by (subst u32_sub_exact) auto
  have inf: "in_flash (flash st) (addr_appcopy st + off)"
    using dev_ok_copy(3) [OF assms(2) order_refl, of off] assms(6) by simp
  have a: "u32_add (addr_appcopy st) off = addr_appcopy st + off"
    using in_flash_less [OF inf] by (intro u32_add_exact) simp
  have "addr_appcopy st mod 8 = 0" unfolding addr_appcopy_def by (rule page_mod8 [OF assms(2)]) simp_all
  then have m8: "(addr_appcopy st + off) mod 8 = 0" using assms(7) by presburger
  have l: "length chunk \<le> length (drop 10 buf)" by (simp add: buf_def)
  let ?d = "(flash st)\<lparr>locked := True, sr := FLASH_COMPLETE, cells := put (cells (flash st)) (addr_appcopy st + off) chunk\<rparr>"
  have w: "boot_Flash_Write hw (flash st) (addr_appcopy st + off) (drop 10 buf) (length chunk) = Some (?d, length chunk)"
    using boot_Flash_Write_blank [OF assms(1) m8 l _ assms(8)] assms(2) unfolding data by (simp add: dev_ok_def)
  obtain msg where msg: "send_frame (\<lambda>st. CAN_OTA_Update_ACK_Construct st 0) (st1\<lparr>flash := ?d\<rparr>) =
      Some (emit_event (Can_send 0x500 msg) (st1\<lparr>flash := ?d\<rparr>))"
    using send_frame_ack(1) by blast
  have "boot_ota_update hw st0 buf 0 (length chunk + 12) = Some (emit_event (Can_send 0x500 msg) (st1\<lparr>flash := ?d\<rparr>))"
  proof -
    have "10 < length chunk + 12" by simp
    then show ?thesis
      unfolding boot_ota_update_def using n assms(6) w msg st1(2,4,5)
      by (simp add: Let_def st1_def [symmetric] f0 o u a)
  qed
  then have "boot_can_receive hw st buf = Some (emit_event (Can_send 0x500 msg) (st1\<lparr>flash := ?d\<rparr>))"
    using boot_can_on_frame [of ?pay st dev hw CAN_OTA_Recv_Update remote] assms(3,4)
    by (simp add: boot_can500_dispatch_def mem_simps host_frame_ids buf_def st0_def add.commute)
  then show ?thesis
    using st1 assms(2) unfolding boot_can_packet_def buf_def
    by (auto simp: emit_event_def dev_ok_def addressed_def ready_def Get_FlashSize_def)
qed

lemma dev_ok_update_mode: "nor_flash hw \<Longrightarrow> dev_ok st \<Longrightarrow> dev_ok (boot_UpdateAppMode hw st)"
proof -
  assume a: "nor_flash hw" "dev_ok st"
  obtain m where "boot_UpdateAppMode hw st = st\<lparr>IAP_FLAG := OTA_Update_APP,
       flash := (flash st)\<lparr>locked := True, sr := FLASH_COMPLETE, cells := m\<rparr>\<rparr>"
    using boot_UpdateAppMode_flash [OF a] by blast
  then show ?thesis using a(2) by (simp add: dev_ok_def ready_def Get_FlashSize_def)
qed

text \<open>The mode functions look at the flash only.\<close>

lemma boot_UpdateAppMode_cong: "flash st = flash st' \<Longrightarrow> flash (boot_UpdateAppMode hw st) = flash (boot_UpdateAppMode hw st')"
  by (simp add: boot_UpdateAppMode_def program_flag_def boot_RunAppMode_def Let_def case_prod_beta)

lemma boot_can_finish_law:
  assumes "nor_flash hw" "dev_ok st" "addressed st dev"
  shows "\<exists>st'. boot_can_receive hw st (boot_can_finish dev remote) = Some st' \<and> dev_ok st' \<and>
    flash st' = flash (boot_UpdateAppMode hw st) \<and> last (outbox st') = System_reset"
proof -
  let ?st0 = "boot_heard dev remote st"
  let ?st1 = "(emit_event (Hal_delay 10) ?st0)\<lparr>can_ota := (can_ota st)\<lparr>OTA_UpdateFlag := 3\<rparr>\<rparr>"
  obtain msg where s: "send_frame CAN_OTA_End_ACK_Construct ?st1 = Some (emit_event (Can_send 0x500 msg) ?st1)"
    using send_frame_ack(3) by blast
  let ?st2 = "emit_event (Can_send 0x500 msg) ?st1"
  let ?st3 = "emit_event System_reset (emit_event (Hal_delay 100) (boot_UpdateAppMode hw ?st2))"
  have e: "boot_ota_end hw ?st0 = Some ?st3" using s by (simp add: boot_ota_end_def Let_def emit_event_def)
  have "dev_ok ?st2" using assms(2) by (simp add: dev_ok_def emit_event_def boot_heard_def)
  from dev_ok_update_mode [OF assms(1) this] have ok: "dev_ok ?st3" by (simp add: dev_ok_def emit_event_def)
  have f: "flash ?st3 = flash (boot_UpdateAppMode hw st)"
    using boot_UpdateAppMode_cong [of ?st2 st hw] by (simp add: emit_event_def)
  have "boot_can_receive hw st (boot_can_finish dev remote) = Some ?st3"
    using boot_can_on_frame [of "[]" st dev hw CAN_OTA_Recv_End remote] assms(3) e
    by (simp add: boot_can500_dispatch_def mem_simps host_frame_ids boot_can_finish_def)
  then show ?thesis using ok f by (intro exI [of _ ?st3]) (simp add: emit_event_def)
qed

interpretation can_boot: update_port boot_can_receive "boot_can_start dev remote ver" "boot_can_packet dev remote"
    "boot_can_finish dev remote" "\<lambda>st. addressed st dev" "\<lambda>st. unat (OTA_SubSize (can_ota st))" 1448
  for dev remote ver
  by (unfold_locales; rule boot_can_start_law boot_can_packet_law boot_can_finish_law; assumption)

subsection \<open>The serial protocol\<close>

definition boot_uart_receive :: "flash_hw \<Rightarrow> dev_state \<Rightarrow> u8 list \<Rightarrow> dev_state option" where
  "boot_uart_receive hw st f = do { (st, _, _) \<leftarrow> OTA_Protocol_Anylise hw st f (length f); Some st }"

definition boot_uart_start_frame :: "u16 \<Rightarrow> u16 \<Rightarrow> boot_updata \<Rightarrow> u8 list" where
  "boot_uart_start_frame dev ver h = uart_frame OTA_Start dev (u16_bytes ver @ boot_updata_bytes h)"

definition boot_uart_packet_frame :: "u16 \<Rightarrow> u16 \<Rightarrow> u8 list \<Rightarrow> u8 list" where
  "boot_uart_packet_frame dev num chunk = uart_frame OTA_Update dev (u16_bytes num @ chunk)"

definition boot_uart_end_frame :: "u16 \<Rightarrow> u8 list" where
  "boot_uart_end_frame dev = uart_frame OTA_End dev []"

lemma boot_uart_receive_frame:
  assumes "length payload + 8 \<le> COMM_PROTOCOL_MAX_LEN"
  shows "boot_uart_receive hw st (uart_frame cmd dev payload) =
    boot_uart_dispatch hw st (uart_frame cmd dev payload) 0 (length payload + 8)"
proof -
  have "OTA_Protocol_Anylise hw st (uart_frame cmd dev payload) (length payload + 8) =
    do { st \<leftarrow> boot_uart_dispatch hw st (uart_frame cmd dev payload) 0 (length payload + 8);
         Some (st, anylise_accept, length payload + 8) }"
    using boot_uart_on_frame [OF assms order_refl, of hw st cmd dev "[]"] assms by simp
  then show ?thesis
    unfolding boot_uart_receive_def
    by (cases "boot_uart_dispatch hw st (uart_frame cmd dev payload) 0 (length payload + 8)") simp_all
qed

lemma boot_uart_start_law:
  assumes "nor_flash hw" "dev_ok st" "0 < unat (B_UpdatesTotalSize h)" "unat (B_UpdatesTotalSize h) \<le> OTA_BIN_MAX_SIZE"
  shows "\<exists>st'. boot_uart_receive hw st (boot_uart_start_frame dev ver h) = Some st' \<and> dev_ok st' \<and>
    unat (U_OTA_SubSize (uart_ota st')) = unat (B_UpdatesSubSize h) \<and>
    flash st' = opened (boot_updata_bytes h) (unat (B_UpdatesTotalSize h)) (flash st)"
proof -
  let ?pay = "u16_bytes ver @ boot_updata_bytes h" and ?n = "unat (B_UpdatesTotalSize h)"
  define buf where "buf = uart_frame OTA_Start dev ?pay"
  have len: "34 \<le> length buf" by (simp add: buf_def)
  have pay: "take 26 (drop 6 buf) = ?pay"
    using uart_frame_fields(3) [of ?pay OTA_Start dev "[]"] by (simp add: buf_def)
  have hd: "take 24 (drop 8 buf) = boot_updata_bytes h" using take_drop_inside [OF pay, of 2 24] by simp
  have t: "ArrayU8ToU32 buf 10 = Some (B_UpdatesTotalSize h)"
    using take_drop_inside [OF hd, of 2 4] len by (intro load_u32) (simp_all add: boot_updata_bytes_def)
  have s: "ArrayU8ToU16 buf 14 = Some (B_UpdatesSubSize h)"
    using take_drop_inside [OF hd, of 6 2] len by (intro load_u16) (simp_all add: boot_updata_bytes_def)
  have c: "ArrayU8ToU32 buf 16 = Some (B_UpdatesCRC32 h)"
    using take_drop_inside [OF hd, of 8 4] len by (intro load_u32) (simp_all add: boot_updata_bytes_def)
  have v: "rd buf 6 = Some (buf ! 6)" "rd buf 7 = Some (buf ! 7)" using len by (simp_all add: mem_simps)
  define st0 where "st0 = emit_event (Hal_delay 20) st"
  have f0: "flash st0 = flash st" by (simp add: st0_def emit_event_def)
  define st1 where "st1 = st0\<lparr>uart_ota := (uart_ota st0)\<lparr>U_OTA_UpdateFlag := 1, U_OTA_Version := u16_of (buf ! 7) (buf ! 6),
      U_OTA_TotalSize := ucast (B_UpdatesTotalSize h), U_OTA_SubSize := ucast (B_UpdatesSubSize h),
      U_OTA_CRC32 := ucast (B_UpdatesCRC32 h)\<rparr>\<rparr>"
  have st1: "dev_ok st1" "flash st1 = flash st" "U_OTA_SubSize (uart_ota st1) = ucast (B_UpdatesSubSize h)"
    using assms(2) by (simp_all add: st1_def st0_def dev_ok_def emit_event_def)
  have w: "unat (ucast (ucast (B_UpdatesTotalSize h) :: u64) :: u32) = ?n"
    using unat_u32_less [of "B_UpdatesTotalSize h"] by (simp add: unat_ucast)
  have "sizeof_boot_updata \<le> length (drop 8 buf)" using len by simp
  from start_opens [OF assms(1) st1(1) assms(3,4) this] obtain d r where
    d: "boot_Flash_Storage_Header hw (flash st) (drop 8 buf) = Some (d, r)"
    "boot_Flash_Erase_Page hw d (addr_appcopy st1) ?n = (opened (boot_updata_bytes h) ?n (flash st), HAL_OK)"
    unfolding st1(2) hd by blast
  let ?st = "st1\<lparr>flash := opened (boot_updata_bytes h) ?n (flash st)\<rparr>"
  obtain msg where msg: "boot_uart_send (boot_OTA_Start_ACK_Construct ?st) ?st = Some (emit_event (Uart_send msg) ?st)"
    using boot_uart_send_ack(2) by blast
  have "boot_uart_start hw st buf 0 = Some (emit_event (Uart_send msg) ?st)"
    unfolding boot_uart_start_def using v t s c d msg w
    by (simp add: Let_def st0_def [symmetric] st1_def [symmetric] f0)
  then have "boot_uart_receive hw st buf = Some (emit_event (Uart_send msg) ?st)"
    using boot_uart_receive_frame [of ?pay hw st OTA_Start dev]
    by (simp add: boot_uart_dispatch_def mem_simps uart_frame_fields buf_def)
  moreover have "unat (ucast (B_UpdatesSubSize h) :: u32) = unat (B_UpdatesSubSize h)"
    using unat_u16_less [of "B_UpdatesSubSize h"] by (simp add: unat_ucast)
  ultimately show ?thesis
    using st1 assms(2) unfolding boot_uart_start_frame_def buf_def
    by (auto simp: emit_event_def dev_ok_def opened_def ready_def Get_FlashSize_def)
qed

lemma boot_uart_packet_law:
  assumes "nor_flash hw" "dev_ok st" "chunk \<noteq> []" "length chunk \<le> 1270"
    "off = unat num * unat (U_OTA_SubSize (uart_ota st))" "off < OTA_BIN_MAX_SIZE" "off mod 8 = 0"
    "blank (flash st) (addr_appcopy st + off) (8 * ((length chunk + 7) div 8))"
  shows "\<exists>st'. boot_uart_receive hw st (boot_uart_packet_frame dev num chunk) = Some st' \<and> dev_ok st' \<and>
    unat (U_OTA_SubSize (uart_ota st')) = unat (U_OTA_SubSize (uart_ota st)) \<and>
    flash st' = (flash st)\<lparr>locked := True, sr := FLASH_COMPLETE, cells := put (cells (flash st)) (addr_appcopy st + off) chunk\<rparr>"
proof -
  let ?pay = "u16_bytes num @ chunk"
  define buf where "buf = uart_frame OTA_Update dev ?pay"
  define st1 where "st1 = st\<lparr>uart_ota := (uart_ota st)\<lparr>U_OTA_UpdateFlag := 2, U_OTA_Frame_Num := num\<rparr>\<rparr>"
  have st1: "dev_ok st1" "U_OTA_SubSize (uart_ota st1) = U_OTA_SubSize (uart_ota st)" "addr_appcopy st1 = addr_appcopy st"
    using assms(2) by (simp_all add: st1_def dev_ok_def addr_appcopy_def)
  have f1: "flash st1 = flash st" by (simp add: st1_def)
  have pay: "take (2 + length chunk) (drop 6 buf) = ?pay"
    using uart_frame_fields(3) [of ?pay OTA_Update dev "[]"] by (simp add: buf_def)
  have n: "ArrayU8ToU16 buf 6 = Some num"
    using take_drop_inside [OF pay, of 0 2] by (intro load_u16) (simp_all add: buf_def)
  have data: "take (length chunk) (drop 8 buf) = chunk"
    using take_drop_inside [OF pay, of 2 "length chunk"] by simp
  have o: "u32_mul (unat num) (unat (U_OTA_SubSize (uart_ota st))) = off"
    using assms(5,6) by (simp add: u32_mul_def)
  have u: "u32_sub (length chunk + 10) 10 = length chunk" using assms(4) by (subst u32_sub_exact) auto
  have inf: "in_flash (flash st) (addr_appcopy st + off)"
    using dev_ok_copy(3) [OF assms(2) order_refl, of off] assms(6) by simp
  have a: "u32_add (addr_appcopy st) off = addr_appcopy st + off"
    using in_flash_less [OF inf] by (intro u32_add_exact) simp
  have "addr_appcopy st mod 8 = 0" unfolding addr_appcopy_def by (rule page_mod8 [OF assms(2)]) simp_all
  then have m8: "(addr_appcopy st + off) mod 8 = 0" using assms(7) by presburger
  have l: "length chunk \<le> length (drop 8 buf)" by (simp add: buf_def)
  let ?d = "(flash st)\<lparr>locked := True, sr := FLASH_COMPLETE, cells := put (cells (flash st)) (addr_appcopy st + off) chunk\<rparr>"
  have w: "boot_Flash_Write hw (flash st) (addr_appcopy st + off) (drop 8 buf) (length chunk) = Some (?d, length chunk)"
    using boot_Flash_Write_blank [OF assms(1) m8 l _ assms(8)] assms(2) unfolding data by (simp add: dev_ok_def)
  obtain msg where msg: "boot_uart_send (boot_OTA_Update_ACK_Construct (st1\<lparr>flash := ?d\<rparr>) 0) (st1\<lparr>flash := ?d\<rparr>) =
      Some (emit_event (Uart_send msg) (st1\<lparr>flash := ?d\<rparr>))"
    using boot_uart_send_ack(1) by blast
  have "boot_uart_update hw st buf 0 (length chunk + 10) = Some (emit_event (Uart_send msg) (st1\<lparr>flash := ?d\<rparr>))"
    unfolding boot_uart_update_def using n assms(3,6) w msg
    by (simp add: Let_def st1_def [symmetric] st1(2,3) f1 o u a)
  then have "boot_uart_receive hw st buf = Some (emit_event (Uart_send msg) (st1\<lparr>flash := ?d\<rparr>))"
    using boot_uart_receive_frame [of ?pay hw st OTA_Update dev] assms(4)
    by (simp add: boot_uart_dispatch_def mem_simps uart_frame_fields buf_def add.commute)
  then show ?thesis
    using st1 assms(2) unfolding boot_uart_packet_frame_def buf_def
    by (auto simp: emit_event_def dev_ok_def ready_def Get_FlashSize_def)
qed

lemma boot_uart_finish_law:
  assumes "nor_flash hw" "dev_ok st"
  shows "\<exists>st'. boot_uart_receive hw st (boot_uart_end_frame dev) = Some st' \<and> dev_ok st' \<and>
    flash st' = flash (boot_UpdateAppMode hw st) \<and> last (outbox st') = System_reset"
proof -
  let ?st1 = "st\<lparr>uart_ota := (uart_ota st)\<lparr>U_OTA_UpdateFlag := 3\<rparr>\<rparr>"
  obtain msg buf where s: "boot_OTA_End_ACK_Construct ?st1 (replicate 1024 0) 1024 = Some (msg @ buf, 8)" "length msg = 8"
    using boot_uart_send_ack(3) by blast
  let ?st2 = "emit_event (Hal_delay 2000) (emit_event (Uart_send msg) ?st1)"
  let ?st3 = "emit_event System_reset (boot_UpdateAppMode hw ?st2)"
  have e: "boot_uart_end hw st = Some ?st3" using s by (simp add: boot_uart_end_def Let_def)
  have "dev_ok ?st2" using assms(2) by (simp add: dev_ok_def emit_event_def)
  from dev_ok_update_mode [OF assms(1) this] have ok: "dev_ok ?st3" by (simp add: dev_ok_def emit_event_def)
  have f: "flash ?st3 = flash (boot_UpdateAppMode hw st)"
    using boot_UpdateAppMode_cong [of ?st2 st hw] by (simp add: emit_event_def)
  have "boot_uart_receive hw st (boot_uart_end_frame dev) = Some ?st3"
    using boot_uart_receive_frame [of "[]" hw st OTA_End dev] e
    by (simp add: boot_uart_dispatch_def mem_simps uart_frame_fields(1) boot_uart_end_frame_def)
  then show ?thesis using ok f by (intro exI [of _ ?st3]) (simp add: emit_event_def)
qed

interpretation uart_boot: update_port boot_uart_receive "boot_uart_start_frame dev ver" "boot_uart_packet_frame dev"
    "boot_uart_end_frame dev" "\<lambda>st. True" "\<lambda>st. unat (U_OTA_SubSize (uart_ota st))" 1270
  for dev ver
proof (unfold_locales, goal_cases)
  case (1 hw st h)
  then show ?case using boot_uart_start_law [of hw st h dev ver] by simp
next
  case (2 hw st chunk off num)
  then show ?case using boot_uart_packet_law [of hw st chunk off num dev] by simp
next
  case (3 hw st)
  then show ?case using boot_uart_finish_law [of hw st dev] by simp
qed

subsection \<open>Properties\<close>

text \<open>
  Property C1.  An update over CAN ends with the new program running: the start frame, the packets and the
  end frame, received by the boot loader in any state of its flash, make it reset; the start that follows, whatever the
  memory holds, installs the image and resets again; the next one enters the image at the addresses
  it begins with.  The packets are of a size that is a multiple of eight and fits a frame.
\<close>

theorem boot_can_update_runs_image:
  assumes "nor_flash hw" "dev_ok st" "258 \<le> Get_FlashSize (flash st)" "addressed st dev" "sendable 1448 h img"
  shows "\<exists>st'. deliver (boot_can_receive hw) st
      (update_session (boot_can_start dev remote ver h) (boot_can_packet dev remote) (boot_can_finish dev remote)
        (unat (B_UpdatesSubSize h)) img) = Some st' \<and>
    last (outbox st') = System_reset \<and> installed_and_started unz hw img st'"
  by (rule can_boot.session_installs [OF assms])

text \<open>
  Property C2.  The same of an update over the serial line, where every device listens and the packets are
  of at most 1270 bytes.
\<close>

theorem boot_uart_update_runs_image:
  assumes "nor_flash hw" "dev_ok st" "258 \<le> Get_FlashSize (flash st)" "sendable 1270 h img"
  shows "\<exists>st'. deliver (boot_uart_receive hw) st
      (update_session (boot_uart_start_frame dev ver h) (boot_uart_packet_frame dev) (boot_uart_end_frame dev)
        (unat (B_UpdatesSubSize h)) img) = Some st' \<and>
    last (outbox st') = System_reset \<and> installed_and_started unz hw img st'"
  by (rule uart_boot.session_installs [OF assms(1-3) TrueI assms(4)])

subsection \<open>Witnesses\<close>

definition small_header :: boot_updata where
  "small_header = \<lparr>B_CompressFlag = 0, B_UpdatesTotalSize = 8, B_UpdatesSubSize = 8, B_UpdatesCRC32 = image_crc small_image,
     B_ComPackOriginalSize = 0, B_ComPackNo = 0, B_PerComPackOriginalSize = 0, B_ComPackOriginalCRC32 = 0\<rparr>"

lemma small_sendable: "8 \<le> room \<Longrightarrow> sendable room small_header small_image"
  using small_words by (simp add: sendable_def small_header_def)

text \<open>The host of \<open>small_image\<close>: it reaches the device of \<open>boot_device\<close>, which runs another application.\<close>

theorem boot_can_update_runs_image_witness:
  "\<exists>st'. deliver (boot_can_receive nor_hw) (boot_device small_app [] [])
      (update_session (boot_can_start 0x0801 7 2 small_header) (boot_can_packet 0x0801 7) (boot_can_finish 0x0801 7)
        (unat (B_UpdatesSubSize small_header)) small_image) = Some st' \<and>
    last (outbox st') = System_reset \<and> installed_and_started (\<lambda>buf n src. None) nor_hw small_image st'"
proof (rule boot_can_update_runs_image [OF nor_hw_is_nor boot_device_facts(1)])
  show "258 \<le> Get_FlashSize (flash (boot_device small_app [] []))" unfolding boot_device_facts(2) by simp
  show "addressed (boot_device small_app [] []) 0x0801" by (simp add: addressed_def boot_device_def blank_device_def)
  show "sendable 1448 small_header small_image" by (rule small_sendable) simp
qed

theorem boot_uart_update_runs_image_witness:
  "\<exists>st'. deliver (boot_uart_receive nor_hw) (boot_device small_app [] [])
      (update_session (boot_uart_start_frame 0x0801 2 small_header) (boot_uart_packet_frame 0x0801) (boot_uart_end_frame 0x0801)
        (unat (B_UpdatesSubSize small_header)) small_image) = Some st' \<and>
    last (outbox st') = System_reset \<and> installed_and_started (\<lambda>buf n src. None) nor_hw small_image st'"
proof (rule boot_uart_update_runs_image [OF nor_hw_is_nor boot_device_facts(1)])
  show "258 \<le> Get_FlashSize (flash (boot_device small_app [] []))" unfolding boot_device_facts(2) by simp
  show "sendable 1270 small_header small_image" by (rule small_sendable) simp
qed

end
