(* ===== verification/DList.thy ===== *)
theory DList imports Prelude
begin

text \<open>
  The doubly linked circular lists of \<open>common_lib/usdl_list.c\<close>, over an explicit store: an address is a
  number, 0 is the null pointer, and a node that is not in the store cannot be read or written (\<open>None\<close>).
  \<open>dlist h head xs\<close> says that the list with the head node \<open>head\<close> holds the nodes \<open>xs\<close> in order; the
  theorems show every operation as the operation on \<open>xs\<close> it is meant to be, for
  every other list in the store as well, which keeps its nodes.
\<close>

record ListHeadType =
  node_next :: nat
  node_prev :: nat

type_synonym store = "nat \<Rightarrow> ListHeadType option"

definition next_of :: "store \<Rightarrow> nat \<Rightarrow> nat option" where
  "next_of h p = do { n \<leftarrow> h p; Some (node_next n) }"

definition prev_of :: "store \<Rightarrow> nat \<Rightarrow> nat option" where
  "prev_of h p = do { n \<leftarrow> h p; Some (node_prev n) }"

definition set_next :: "store \<Rightarrow> nat \<Rightarrow> nat \<Rightarrow> store option" where
  "set_next h p q = do { n \<leftarrow> h p; Some (h(p \<mapsto> n\<lparr>node_next := q\<rparr>)) }"

definition set_prev :: "store \<Rightarrow> nat \<Rightarrow> nat \<Rightarrow> store option" where
  "set_prev h p q = do { n \<leftarrow> h p; Some (h(p \<mapsto> n\<lparr>node_prev := q\<rparr>)) }"

subsection \<open>The operations\<close>

definition ListHeadInit :: "store \<Rightarrow> nat \<Rightarrow> store option" where
  "ListHeadInit h ptr = do { h \<leftarrow> set_next h ptr ptr; set_prev h ptr ptr }"

definition list_add :: "store \<Rightarrow> nat \<Rightarrow> nat \<Rightarrow> nat \<Rightarrow> store option" where
  "list_add h new_node prv nxt = do {
     h \<leftarrow> set_prev h nxt new_node;
     h \<leftarrow> set_next h new_node nxt;
     h \<leftarrow> set_prev h new_node prv;
     set_next h prv new_node }"

definition ListAdd :: "store \<Rightarrow> nat \<Rightarrow> nat \<Rightarrow> store option" where
  "ListAdd h new_node head = do { nxt \<leftarrow> next_of h head; list_add h new_node head nxt }"

definition ListAddTail :: "store \<Rightarrow> nat \<Rightarrow> nat \<Rightarrow> store option" where
  "ListAddTail h new_node head = do { prv \<leftarrow> prev_of h head; list_add h new_node prv head }"

definition list_del :: "store \<Rightarrow> nat \<Rightarrow> nat \<Rightarrow> store option" where
  "list_del h prv nxt = do { h \<leftarrow> set_prev h nxt prv; set_next h prv nxt }"

definition list_unlink :: "store \<Rightarrow> nat \<Rightarrow> store option" where
  "list_unlink h entry = do { prv \<leftarrow> prev_of h entry; nxt \<leftarrow> next_of h entry; list_del h prv nxt }"

definition ListDel :: "store \<Rightarrow> nat \<Rightarrow> store option" where
  "ListDel h entry = do { h \<leftarrow> list_unlink h entry; h \<leftarrow> set_next h entry 0; set_prev h entry 0 }"

definition ListDelInit :: "store \<Rightarrow> nat \<Rightarrow> store option" where
  "ListDelInit h entry = do { h \<leftarrow> list_unlink h entry; ListHeadInit h entry }"

definition ListReplace :: "store \<Rightarrow> nat \<Rightarrow> nat \<Rightarrow> store option" where
  "ListReplace h old new_node = do {
     n \<leftarrow> next_of h old;
     h \<leftarrow> set_next h new_node n;
     n \<leftarrow> next_of h new_node;
     h \<leftarrow> set_prev h n new_node;
     p \<leftarrow> prev_of h old;
     h \<leftarrow> set_prev h new_node p;
     p \<leftarrow> prev_of h new_node;
     set_next h p new_node }"

definition ListReplaceInit :: "store \<Rightarrow> nat \<Rightarrow> nat \<Rightarrow> store option" where
  "ListReplaceInit h old new_node = do { h \<leftarrow> ListReplace h old new_node; ListHeadInit h old }"

definition ListMove :: "store \<Rightarrow> nat \<Rightarrow> nat \<Rightarrow> store option" where
  "ListMove h entry head = do { h \<leftarrow> list_unlink h entry; ListAdd h entry head }"

definition ListMoveTail :: "store \<Rightarrow> nat \<Rightarrow> nat \<Rightarrow> store option" where
  "ListMoveTail h entry head = do { h \<leftarrow> list_unlink h entry; ListAddTail h entry head }"

definition ListEmpty :: "store \<Rightarrow> nat \<Rightarrow> bool option" where
  "ListEmpty h head = do { n \<leftarrow> next_of h head; Some (n = head) }"

definition list_splice :: "store \<Rightarrow> nat \<Rightarrow> nat \<Rightarrow> store option" where
  "list_splice h list head = do {
     first \<leftarrow> next_of h list;
     last \<leftarrow> prev_of h list;
     at \<leftarrow> next_of h head;
     h \<leftarrow> set_prev h first head;
     h \<leftarrow> set_next h head first;
     h \<leftarrow> set_next h last at;
     set_prev h at last }"

definition ListSplice :: "store \<Rightarrow> nat \<Rightarrow> nat \<Rightarrow> store option" where
  "ListSplice h list head = do { e \<leftarrow> ListEmpty h list; if \<not> e then list_splice h list head else Some h }"

definition ListSpliceInit :: "store \<Rightarrow> nat \<Rightarrow> nat \<Rightarrow> store option" where
  "ListSpliceInit h list head = do {
     e \<leftarrow> ListEmpty h list;
     if \<not> e then do { h \<leftarrow> list_splice h list head; ListHeadInit h list } else Some h }"

text \<open>
  The two loops of \<open>ListGet\<close> from node \<open>pos\<close> on with a count of \<open>Suc k\<close>; when the loop meets the head, the
  function answers the null pointer.
\<close>

fun list_walk :: "(store \<Rightarrow> nat \<Rightarrow> nat option) \<Rightarrow> store \<Rightarrow> nat \<Rightarrow> nat \<Rightarrow> nat \<Rightarrow> nat option" where
  "list_walk step h head pos 0 = Some (if pos = head then 0 else pos)"
| "list_walk step h head pos (Suc k) =
     (if pos = head then Some 0 else do { q \<leftarrow> step h pos; list_walk step h head q k })"

definition ListGet :: "store \<Rightarrow> nat \<Rightarrow> int \<Rightarrow> nat option" where
  "ListGet h head position =
     (if position = 0 then Some head
      else if 0 < position then do { pos \<leftarrow> next_of h head; list_walk next_of h head pos (nat (position - 1)) }
      else do { pos \<leftarrow> prev_of h head; list_walk prev_of h head pos (nat (- position - 1)) })"

definition ListInsert :: "store \<Rightarrow> nat \<Rightarrow> int \<Rightarrow> nat \<Rightarrow> (bool \<times> store) option" where
  "ListInsert h head position new_node = do {
     pos_node \<leftarrow> ListGet h head position;
     if pos_node = 0 then Some (False, h)
     else do { nxt \<leftarrow> next_of h pos_node; h \<leftarrow> list_add h new_node pos_node nxt; Some (True, h) } }"

definition ListDelByPosition :: "store \<Rightarrow> nat \<Rightarrow> int \<Rightarrow> (bool \<times> store) option" where
  "ListDelByPosition h head position = do {
     pos_node \<leftarrow> ListGet h head position;
     if pos_node = 0 then Some (False, h)
     else do { h \<leftarrow> ListDel h pos_node; Some (True, h) } }"

subsection \<open>Reading and writing links\<close>


lemma set_next_in:
  "p \<in> dom h \<Longrightarrow> \<exists>h'. set_next h p q = Some h' \<and> next_of h' = (next_of h)(p \<mapsto> q) \<and> prev_of h' = prev_of h \<and> dom h' = dom h"
  by (intro exI [of _ "h(p \<mapsto> (the (h p))\<lparr>node_next := q\<rparr>)"]) (auto simp: set_next_def next_of_def prev_of_def fun_eq_iff)

lemma set_prev_in:
  "p \<in> dom h \<Longrightarrow> \<exists>h'. set_prev h p q = Some h' \<and> prev_of h' = (prev_of h)(p \<mapsto> q) \<and> next_of h' = next_of h \<and> dom h' = dom h"
  by (intro exI [of _ "h(p \<mapsto> (the (h p))\<lparr>node_prev := q\<rparr>)"]) (auto simp: set_prev_def next_of_def prev_of_def fun_eq_iff)

lemma list_add_links:
  assumes "new_node \<in> dom h" "p \<in> dom h" "n \<in> dom h"
  shows "\<exists>h'. list_add h new_node p n = Some h' \<and> next_of h' = (next_of h)(new_node \<mapsto> n, p \<mapsto> new_node) \<and>
    prev_of h' = (prev_of h)(n \<mapsto> new_node, new_node \<mapsto> p) \<and> dom h' = dom h"
proof -
  obtain h1 where 1: "set_prev h n new_node = Some h1" "prev_of h1 = (prev_of h)(n \<mapsto> new_node)" "next_of h1 = next_of h" "dom h1 = dom h"
    using set_prev_in [OF assms(3)] by blast
  obtain h2 where 2: "set_next h1 new_node n = Some h2" "next_of h2 = (next_of h)(new_node \<mapsto> n)" "prev_of h2 = prev_of h1" "dom h2 = dom h"
    using set_next_in [of new_node h1 n] assms(1) 1 by auto
  obtain h3 where 3: "set_prev h2 new_node p = Some h3" "prev_of h3 = (prev_of h2)(new_node \<mapsto> p)" "next_of h3 = next_of h2" "dom h3 = dom h"
    using set_prev_in [of new_node h2 p] assms(1) 2 by auto
  obtain h4 where 4: "set_next h3 p new_node = Some h4" "next_of h4 = (next_of h3)(p \<mapsto> new_node)" "prev_of h4 = prev_of h3" "dom h4 = dom h"
    using set_next_in [of p h3 new_node] assms(2) 3 by auto
  show ?thesis using 1 2 3 4 by (simp add: list_add_def)
qed

lemma list_del_links:
  assumes "p \<in> dom h" "n \<in> dom h"
  shows "\<exists>h'. list_del h p n = Some h' \<and> next_of h' = (next_of h)(p \<mapsto> n) \<and> prev_of h' = (prev_of h)(n \<mapsto> p) \<and> dom h' = dom h"
proof -
  obtain h1 where 1: "set_prev h n p = Some h1" "prev_of h1 = (prev_of h)(n \<mapsto> p)" "next_of h1 = next_of h" "dom h1 = dom h"
    using set_prev_in [OF assms(2)] by blast
  obtain h2 where 2: "set_next h1 p n = Some h2" "next_of h2 = (next_of h1)(p \<mapsto> n)" "prev_of h2 = prev_of h1" "dom h2 = dom h"
    using set_next_in [of p h1 n] assms(1) 1 by auto
  show ?thesis using 1 2 by (simp add: list_del_def)
qed

lemma set_both_links:
  assumes "p \<in> dom h"
  shows "\<exists>h'. do { h \<leftarrow> set_next h p a; set_prev h p b } = Some h' \<and> next_of h' = (next_of h)(p \<mapsto> a) \<and>
    prev_of h' = (prev_of h)(p \<mapsto> b) \<and> dom h' = dom h"
proof -
  obtain h1 where 1: "set_next h p a = Some h1" "next_of h1 = (next_of h)(p \<mapsto> a)" "prev_of h1 = prev_of h" "dom h1 = dom h"
    using set_next_in [OF assms] by blast
  obtain h2 where 2: "set_prev h1 p b = Some h2" "prev_of h2 = (prev_of h1)(p \<mapsto> b)" "next_of h2 = next_of h1" "dom h2 = dom h"
    using set_prev_in [of p h1 b] assms 1 by auto
  show ?thesis using 1 2 by simp
qed

subsection \<open>Chains of nodes\<close>

fun chain :: "(nat \<Rightarrow> nat option) \<Rightarrow> (nat \<Rightarrow> nat option) \<Rightarrow> nat list \<Rightarrow> bool" where
  "chain nx pv (a # b # r) \<longleftrightarrow> nx a = Some b \<and> pv b = Some a \<and> chain nx pv (b # r)"
| "chain nx pv _ \<longleftrightarrow> True"

lemma chain_append: "chain nx pv (us @ a # vs) \<longleftrightarrow> chain nx pv (us @ [a]) \<and> chain nx pv (a # vs)"
proof (induction us)
  case (Cons u us)
  then show ?case by (cases us) auto
qed simp

lemma chain_cong:
  "(\<And>a. a \<in> set (butlast ys) \<Longrightarrow> nx' a = nx a) \<Longrightarrow> (\<And>b. b \<in> set (tl ys) \<Longrightarrow> pv' b = pv b) \<Longrightarrow>
   chain nx' pv' ys = chain nx pv ys"
proof (induction nx pv ys rule: chain.induct)
  case (1 nx pv a b r)
  then show ?case by (cases r) auto
qed simp_all

lemma chain_insert:
  assumes "chain nx pv (us @ p # n # vs)" "distinct (us @ p # butlast (n # vs))" "distinct (tl (us @ [p]) @ n # vs)"
    "new \<notin> set (us @ p # n # vs)"
  shows "chain (nx(new \<mapsto> n, p \<mapsto> new)) (pv(n \<mapsto> new, new \<mapsto> p)) (us @ p # new # n # vs)"
proof -
  let ?nx = "nx(new \<mapsto> n, p \<mapsto> new)" and ?pv = "pv(n \<mapsto> new, new \<mapsto> p)"
  have c: "chain nx pv (us @ [p])" "chain nx pv (n # vs)" using assms(1) chain_append [of nx pv us p "n # vs"] by auto
  have d: "p \<notin> set us" "p \<notin> set (butlast (n # vs))" "n \<notin> set (tl (us @ [p]))" "n \<notin> set vs"
    using assms(2,3) by (simp_all del: butlast.simps)
  have s: "a \<in> set (us @ p # n # vs)" if "a \<in> set (tl (us @ [p])) \<or> a \<in> set (butlast (n # vs))" for a
    using that in_set_butlastD [of a "n # vs"] by (cases us) auto
  have w: "a \<noteq> new" if "a \<in> set (us @ p # n # vs)" for a using assms(4) that by blast
  have "chain ?nx ?pv (us @ [p]) = chain nx pv (us @ [p])"
  proof (rule chain_cong)
    fix a assume "a \<in> set (butlast (us @ [p]))"
    then show "?nx a = nx a" using d(1) w [of a] by auto
  next
    fix b assume "b \<in> set (tl (us @ [p]))"
    then show "?pv b = pv b" using d(3) w [of b] s [of b] by auto
  qed
  moreover have "chain ?nx ?pv (n # vs) = chain nx pv (n # vs)"
  proof (rule chain_cong)
    fix a assume "a \<in> set (butlast (n # vs))"
    then show "?nx a = nx a" using d(2) w [of a] s [of a] by auto
  next
    fix b assume "b \<in> set (tl (n # vs))"
    then show "?pv b = pv b" using d(4) w [of b] by auto
  qed
  ultimately show ?thesis using c assms(4) by (subst chain_append) simp
qed

lemma chain_remove:
  assumes "chain nx pv (us @ p # e # n # vs)" "distinct (us @ p # e # butlast (n # vs))" "distinct (tl (us @ [p]) @ e # n # vs)"
  shows "chain (nx(p \<mapsto> n)) (pv(n \<mapsto> p)) (us @ p # n # vs)" "pv e = Some p" "nx e = Some n"
proof -
  let ?nx = "nx(p \<mapsto> n)" and ?pv = "pv(n \<mapsto> p)"
  have c: "chain nx pv (us @ [p])" "chain nx pv (n # vs)" "pv e = Some p" "nx e = Some n"
    using assms(1) chain_append [of nx pv us p "e # n # vs"] by auto
  then show "pv e = Some p" "nx e = Some n" by simp_all
  have d: "p \<notin> set us" "p \<notin> set (butlast (n # vs))" "n \<notin> set (tl (us @ [p]))" "n \<notin> set vs"
    using assms(2,3) by (simp_all del: butlast.simps)
  have "chain ?nx ?pv (us @ [p]) = chain nx pv (us @ [p])"
  proof (rule chain_cong)
    fix a assume "a \<in> set (butlast (us @ [p]))"
    then show "?nx a = nx a" using d(1) by auto
  next
    fix b assume "b \<in> set (tl (us @ [p]))"
    then show "?pv b = pv b" using d(3) by auto
  qed
  moreover have "chain ?nx ?pv (n # vs) = chain nx pv (n # vs)"
  proof (rule chain_cong)
    fix a assume "a \<in> set (butlast (n # vs))"
    then show "?nx a = nx a" using d(2) by auto
  next
    fix b assume "b \<in> set (tl (n # vs))"
    then show "?pv b = pv b" using d(4) by auto
  qed
  ultimately show "chain ?nx ?pv (us @ p # n # vs)" using c by (subst chain_append) simp
qed

subsection \<open>Lists\<close>

definition dlist :: "store \<Rightarrow> nat \<Rightarrow> nat list \<Rightarrow> bool" where
  "dlist h head xs \<longleftrightarrow> distinct (head # xs) \<and> 0 \<notin> set (head # xs) \<and> set (head # xs) \<subseteq> dom h \<and>
     chain (next_of h) (prev_of h) (head # xs @ [head])"

text \<open>Nothing outside \<open>S\<close> has changed.\<close>

definition same_links :: "nat set \<Rightarrow> store \<Rightarrow> store \<Rightarrow> bool" where
  "same_links S h h' \<longleftrightarrow> dom h' = dom h \<and> (\<forall>q. q \<notin> S \<longrightarrow> next_of h' q = next_of h q \<and> prev_of h' q = prev_of h q)"

lemma same_links_refl [simp]: "same_links S h h"
  by (simp add: same_links_def)

lemma same_links_trans: "same_links S h h' \<Longrightarrow> same_links T h' h'' \<Longrightarrow> same_links (S \<union> T) h h''"
  by (simp add: same_links_def)

lemma dlist_frame: "same_links S h h' \<Longrightarrow> set (head # xs) \<inter> S = {} \<Longrightarrow> dlist h head xs \<Longrightarrow> dlist h' head xs"
proof -
  assume a: "same_links S h h'" "set (head # xs) \<inter> S = {}" "dlist h head xs"
  have "chain (next_of h') (prev_of h') (head # xs @ [head]) = chain (next_of h) (prev_of h) (head # xs @ [head])"
    using a(1,2) by (intro chain_cong) (auto simp: same_links_def butlast_append)
  then show ?thesis using a(1,3) by (simp add: dlist_def same_links_def)
qed

text \<open>The two neighbours of a place in a list.\<close>

definition before :: "nat \<Rightarrow> nat list \<Rightarrow> nat" where "before head xs = last (head # xs)"
definition behind :: "nat \<Rightarrow> nat list \<Rightarrow> nat" where "behind head ys = hd (ys @ [head])"

lemma place:
  "\<exists>us vs. head # xs = us @ [before head xs] \<and> ys @ [head] = behind head ys # vs \<and>
     (\<forall>zs. head # (xs @ zs @ ys) @ [head] = us @ before head xs # zs @ behind head ys # vs)"
proof -
  have a: "head # xs = butlast (head # xs) @ [before head xs]"
    unfolding before_def by (rule append_butlast_last_id [symmetric]) simp
  have b: "ys @ [head] = behind head ys # tl (ys @ [head])" by (simp add: behind_def)
  have "head # (xs @ zs @ ys) @ [head] = butlast (head # xs) @ before head xs # zs @ behind head ys # tl (ys @ [head])" for zs
  proof -
    have "head # (xs @ zs @ ys) @ [head] = (head # xs) @ zs @ (ys @ [head])" by simp
    also have "\<dots> = (butlast (head # xs) @ [before head xs]) @ zs @ (behind head ys # tl (ys @ [head]))"
      by (subst a, subst b) simp
    finally show ?thesis by simp
  qed
  then show ?thesis using a b by blast
qed

lemma before_in: "before head xs \<in> set (head # xs)"
  unfolding before_def by (rule last_in_set) simp

lemma behind_in: "behind head ys \<in> set (head # ys)"
  by (cases ys) (simp_all add: behind_def)

lemma dlist_insert:
  assumes "dlist h head (xs @ ys)" "new \<in> dom h" "new \<notin> set (head # xs @ ys)" "new \<noteq> 0"
  shows "\<exists>h'. list_add h new (before head xs) (behind head ys) = Some h' \<and> dlist h' head (xs @ new # ys) \<and>
    same_links (set (new # head # xs @ ys)) h h'"
proof -
  let ?p = "before head xs" and ?n = "behind head ys"
  obtain us vs where pl: "head # xs = us @ [?p]" "ys @ [head] = ?n # vs"
    "\<forall>zs. head # (xs @ zs @ ys) @ [head] = us @ ?p # zs @ ?n # vs" using place [of head xs ys] by blast
  have d: "distinct (head # xs @ ys)" "set (head # xs @ ys) \<subseteq> dom h" "0 \<notin> set (head # xs @ ys)"
    "chain (next_of h) (prev_of h) (us @ ?p # ?n # vs)"
    using assms(1) pl(3) [rule_format, of "[]"] by (auto simp: dlist_def)
  have t: "tl (us @ [?p]) = xs" using pl(1) by (metis list.sel(3))
  have b: "butlast (?n # vs) = ys" "us @ ?p # ys = head # xs @ ys" "tl (us @ [?p]) @ ?n # vs = xs @ ys @ [head]"
    using arg_cong [OF pl(1), of "\<lambda>zs. zs @ ys"] t pl(2) [symmetric] by simp_all
  have new: "new \<notin> set (us @ ?p # ?n # vs)" using assms(3) pl(3) [rule_format, of "[]"] by (metis append_Nil set_append set_ConsD Un_iff append.assoc empty_iff list.set(1) list.set_intros)
  have "?p \<in> dom h" "?n \<in> dom h" using before_in [of head xs] behind_in [of head ys] d(2) by auto
  then obtain h' where h': "list_add h new ?p ?n = Some h'" "next_of h' = (next_of h)(new \<mapsto> ?n, ?p \<mapsto> new)"
    "prev_of h' = (prev_of h)(?n \<mapsto> new, new \<mapsto> ?p)" "dom h' = dom h"
    using list_add_links [OF assms(2)] by blast
  have "chain (next_of h') (prev_of h') (us @ ?p # new # ?n # vs)"
    unfolding h'(2,3) using d(1) by (intro chain_insert [OF d(4) _ _ new]) (simp_all add: b del: butlast.simps)
  then have "chain (next_of h') (prev_of h') (head # (xs @ [new] @ ys) @ [head])" unfolding pl(3) [rule_format] by simp
  then have "dlist h' head (xs @ new # ys)" using d assms(2-4) h'(4) by (auto simp: dlist_def)
  moreover have "same_links (set (new # head # xs @ ys)) h h'"
    using h'(2-4) before_in [of head xs] behind_in [of head ys] by (auto simp: same_links_def)
  ultimately show ?thesis using h'(1) by blast
qed

lemma dlist_unlink:
  assumes "dlist h head (xs @ e # ys)"
  shows "\<exists>h'. list_unlink h e = Some h' \<and> dlist h' head (xs @ ys) \<and> same_links (set (head # xs @ ys)) h h'"
proof -
  let ?p = "before head xs" and ?n = "behind head ys"
  obtain us vs where pl: "head # xs = us @ [?p]" "ys @ [head] = ?n # vs"
    "\<forall>zs. head # (xs @ zs @ ys) @ [head] = us @ ?p # zs @ ?n # vs" using place [of head xs ys] by blast
  have d: "distinct (head # xs @ e # ys)" "set (head # xs @ e # ys) \<subseteq> dom h" "0 \<notin> set (head # xs @ e # ys)"
    "chain (next_of h) (prev_of h) (us @ ?p # e # ?n # vs)"
    using assms pl(3) [rule_format, of "[e]"] by (auto simp: dlist_def)
  have t: "tl (us @ [?p]) = xs" using pl(1) by (metis list.sel(3))
  have b: "butlast (?n # vs) = ys" "us @ ?p # e # ys = head # xs @ e # ys" "tl (us @ [?p]) @ e # ?n # vs = xs @ e # ys @ [head]"
    using arg_cong [OF pl(1), of "\<lambda>zs. zs @ e # ys"] t pl(2) [symmetric] by simp_all
  have c: "distinct (us @ ?p # e # butlast (?n # vs))" "distinct (tl (us @ [?p]) @ e # ?n # vs)"
    using d(1) by (auto simp add: b simp del: butlast.simps)
  note r = chain_remove [OF d(4) c]
  have "?p \<in> dom h" "?n \<in> dom h" using before_in [of head xs] behind_in [of head ys] d(2) by auto
  then obtain h' where h': "list_del h ?p ?n = Some h'" "next_of h' = (next_of h)(?p \<mapsto> ?n)"
    "prev_of h' = (prev_of h)(?n \<mapsto> ?p)" "dom h' = dom h"
    using list_del_links by blast
  have "chain (next_of h') (prev_of h') (head # (xs @ [] @ ys) @ [head])"
    unfolding pl(3) [rule_format] h'(2,3) using r(1) by simp
  then have "dlist h' head (xs @ ys)" using d h'(4) by (auto simp: dlist_def)
  moreover have "list_unlink h e = Some h'" using r(2,3) h'(1) by (simp add: list_unlink_def)
  moreover have "same_links (set (head # xs @ ys)) h h'"
    using h'(2-4) before_in [of head xs] behind_in [of head ys] by (auto simp: same_links_def)
  ultimately show ?thesis by blast
qed

lemma dlist_neighbours:
  assumes "dlist h head (xs @ ys)"
  shows "next_of h (before head xs) = Some (behind head ys)" "prev_of h (behind head ys) = Some (before head xs)"
proof -
  let ?p = "before head xs" and ?n = "behind head ys"
  obtain us vs where "head # xs = us @ [?p]" "ys @ [head] = ?n # vs"
    "\<forall>zs. head # (xs @ zs @ ys) @ [head] = us @ ?p # zs @ ?n # vs" using place [of head xs ys] by blast
  then have "chain (next_of h) (prev_of h) (us @ ?p # ?n # vs)" using assms by (metis append_Nil dlist_def append.assoc append_Cons)
  then have "chain (next_of h) (prev_of h) (?p # ?n # vs)" by (subst (asm) chain_append) simp
  then show "next_of h ?p = Some ?n" "prev_of h ?n = Some ?p" by simp_all
qed

lemma ends [simp]: "before head [] = head" "behind head [] = head"
  by (simp_all add: before_def behind_def)

lemma init_links:
  assumes "p \<in> dom h"
  shows "\<exists>h'. ListHeadInit h p = Some h' \<and> same_links {p} h h' \<and> (p \<noteq> 0 \<longrightarrow> dlist h' p [])"
  using set_both_links [OF assms, of p p] assms
  by (auto simp: ListHeadInit_def same_links_def dlist_def)

lemma clear_links:
  assumes "p \<in> dom h"
  shows "\<exists>h'. do { h \<leftarrow> set_next h p 0; set_prev h p 0 } = Some h' \<and> same_links {p} h h' \<and>
    next_of h' p = Some 0 \<and> prev_of h' p = Some 0"
  using set_both_links [OF assms, of 0 0] by (auto simp: same_links_def)

subsection \<open>Adding\<close>

lemma same_links_mono: "same_links S h h' \<Longrightarrow> S \<subseteq> T \<Longrightarrow> same_links T h h'"
  by (auto simp: same_links_def)

lemma ListAdd_dlist:
  assumes "dlist h head xs" "new \<in> dom h" "new \<notin> set (head # xs)" "new \<noteq> 0"
  shows "\<exists>h'. ListAdd h new head = Some h' \<and> dlist h' head (new # xs) \<and> same_links (set (new # head # xs)) h h'"
proof -
  have "next_of h head = Some (behind head xs)" using dlist_neighbours(1) [of h head "[]" xs] assms(1) by simp
  then show ?thesis using dlist_insert [of h head "[]" xs new] assms by (simp add: ListAdd_def)
qed

lemma ListAddTail_dlist:
  assumes "dlist h head xs" "new \<in> dom h" "new \<notin> set (head # xs)" "new \<noteq> 0"
  shows "\<exists>h'. ListAddTail h new head = Some h' \<and> dlist h' head (xs @ [new]) \<and> same_links (set (new # head # xs)) h h'"
proof -
  have "prev_of h head = Some (before head xs)" using dlist_neighbours(2) [of h head xs "[]"] assms(1) by simp
  then show ?thesis using dlist_insert [of h head xs "[]" new] assms by (simp add: ListAddTail_def)
qed

subsection \<open>Removing and moving\<close>

lemma removed:
  assumes "dlist h head (xs @ ys)" "e \<notin> set (head # xs @ ys)" "same_links {e} h h'"
  shows "dlist h' head (xs @ ys)"
  using dlist_frame [OF assms(3) _ assms(1)] assms(2) by simp

lemma entry_facts: "dlist h head (xs @ e # ys) \<Longrightarrow> e \<in> dom h \<and> e \<noteq> 0 \<and> e \<notin> set (head # xs @ ys)"
  by (auto simp: dlist_def)

lemma ListDel_dlist:
  assumes "dlist h head (xs @ e # ys)"
  shows "\<exists>h'. ListDel h e = Some h' \<and> dlist h' head (xs @ ys) \<and> same_links (set (head # xs @ e # ys)) h h' \<and>
    next_of h' e = Some 0 \<and> prev_of h' e = Some 0"
proof -
  note e = entry_facts [OF assms]
  obtain h1 where 1: "list_unlink h e = Some h1" "dlist h1 head (xs @ ys)" "same_links (set (head # xs @ ys)) h h1"
    using dlist_unlink [OF assms] by blast
  have "e \<in> dom h1" using 1(3) e by (simp add: same_links_def)
  then obtain h2 where 2: "do { h \<leftarrow> set_next h1 e 0; set_prev h e 0 } = Some h2" "same_links {e} h1 h2"
    "next_of h2 e = Some 0" "prev_of h2 e = Some 0"
    using clear_links by blast
  have "dlist h2 head (xs @ ys)" using removed [OF 1(2) _ 2(2)] e by blast
  moreover have "same_links (set (head # xs @ e # ys)) h h2"
    using same_links_trans [OF 1(3) 2(2)] by (rule same_links_mono) auto
  ultimately show ?thesis using 1(1) 2 by (simp add: ListDel_def)
qed

lemma ListDelInit_dlist:
  assumes "dlist h head (xs @ e # ys)"
  shows "\<exists>h'. ListDelInit h e = Some h' \<and> dlist h' head (xs @ ys) \<and> dlist h' e [] \<and> same_links (set (head # xs @ e # ys)) h h'"
proof -
  note e = entry_facts [OF assms]
  obtain h1 where 1: "list_unlink h e = Some h1" "dlist h1 head (xs @ ys)" "same_links (set (head # xs @ ys)) h h1"
    using dlist_unlink [OF assms] by blast
  have "e \<in> dom h1" using 1(3) e by (simp add: same_links_def)
  then obtain h2 where 2: "ListHeadInit h1 e = Some h2" "same_links {e} h1 h2" "dlist h2 e []"
    using init_links [of e h1] e by blast
  have "dlist h2 head (xs @ ys)" using removed [OF 1(2) _ 2(2)] e by blast
  moreover have "same_links (set (head # xs @ e # ys)) h h2"
    using same_links_trans [OF 1(3) 2(2)] by (rule same_links_mono) auto
  ultimately show ?thesis using 1(1) 2 by (simp add: ListDelInit_def)
qed

text \<open>A node goes from one list to the front or the end of another.\<close>

lemma ListMove_dlist:
  assumes "dlist h head (xs @ e # ys)" "dlist h head2 zs" "set (head # xs @ e # ys) \<inter> set (head2 # zs) = {}"
  shows "\<exists>h'. ListMove h e head2 = Some h' \<and> dlist h' head (xs @ ys) \<and> dlist h' head2 (e # zs) \<and>
      same_links (set (head # xs @ e # ys) \<union> set (head2 # zs)) h h'"
    "\<exists>h'. ListMoveTail h e head2 = Some h' \<and> dlist h' head (xs @ ys) \<and> dlist h' head2 (zs @ [e]) \<and>
      same_links (set (head # xs @ e # ys) \<union> set (head2 # zs)) h h'"
proof -
  note e = entry_facts [OF assms(1)]
  obtain h1 where 1: "list_unlink h e = Some h1" "dlist h1 head (xs @ ys)" "same_links (set (head # xs @ ys)) h h1"
    using dlist_unlink [OF assms(1)] by blast
  have d: "dlist h1 head2 zs" by (rule dlist_frame [OF 1(3) _ assms(2)]) (use assms(3) in auto)
  have n: "e \<in> dom h1" "e \<notin> set (head2 # zs)" "e \<noteq> 0" using 1(3) e assms(3) by (auto simp: same_links_def)
  have other: "dlist h2 head (xs @ ys)" "same_links (set (head # xs @ e # ys) \<union> set (head2 # zs)) h h2"
    if "same_links (set (e # head2 # zs)) h1 h2" for h2
  proof -
    show "dlist h2 head (xs @ ys)" by (rule dlist_frame [OF that _ 1(2)]) (use assms(3) e in auto)
    show "same_links (set (head # xs @ e # ys) \<union> set (head2 # zs)) h h2"
      using same_links_trans [OF 1(3) that] by (rule same_links_mono) auto
  qed
  obtain h2 where 2: "ListAdd h1 e head2 = Some h2" "dlist h2 head2 (e # zs)" "same_links (set (e # head2 # zs)) h1 h2"
    using ListAdd_dlist [OF d n] by blast
  then show "\<exists>h'. ListMove h e head2 = Some h' \<and> dlist h' head (xs @ ys) \<and> dlist h' head2 (e # zs) \<and>
      same_links (set (head # xs @ e # ys) \<union> set (head2 # zs)) h h'"
    using 1(1) other [OF 2(3)] by (simp add: ListMove_def)
  obtain h3 where 3: "ListAddTail h1 e head2 = Some h3" "dlist h3 head2 (zs @ [e])" "same_links (set (e # head2 # zs)) h1 h3"
    using ListAddTail_dlist [OF d n] by blast
  then show "\<exists>h'. ListMoveTail h e head2 = Some h' \<and> dlist h' head (xs @ ys) \<and> dlist h' head2 (zs @ [e]) \<and>
      same_links (set (head # xs @ e # ys) \<union> set (head2 # zs)) h h'"
    using 1(1) other [OF 3(3)] by (simp add: ListMoveTail_def)
qed


subsection \<open>Replacing, joining and testing\<close>

lemma ListReplace_links:
  assumes "next_of h old = Some n" "prev_of h old = Some p" "n \<noteq> old" "new \<noteq> old" "p \<noteq> new"
    "new \<in> dom h" "n \<in> dom h" "p \<in> dom h"
  shows "\<exists>h'. ListReplace h old new = Some h' \<and> next_of h' = (next_of h)(new \<mapsto> n, p \<mapsto> new) \<and>
    prev_of h' = (prev_of h)(n \<mapsto> new, new \<mapsto> p) \<and> dom h' = dom h"
proof -
  obtain h1 where 1: "set_next h new n = Some h1" "next_of h1 = (next_of h)(new \<mapsto> n)" "prev_of h1 = prev_of h" "dom h1 = dom h"
    using set_next_in [OF assms(6)] by blast
  obtain h2 where 2: "set_prev h1 n new = Some h2" "prev_of h2 = (prev_of h1)(n \<mapsto> new)" "next_of h2 = next_of h1" "dom h2 = dom h"
    using set_prev_in [of n h1 new] assms(7) 1 by auto
  obtain h3 where 3: "set_prev h2 new p = Some h3" "prev_of h3 = (prev_of h2)(new \<mapsto> p)" "next_of h3 = next_of h2" "dom h3 = dom h"
    using set_prev_in [of new h2 p] assms(6) 2 by auto
  obtain h4 where 4: "set_next h3 p new = Some h4" "next_of h4 = (next_of h3)(p \<mapsto> new)" "prev_of h4 = prev_of h3" "dom h4 = dom h"
    using set_next_in [of p h3 new] assms(8) 3 by auto
  show ?thesis using 1 2 3 4 assms(1-5) by (simp add: ListReplace_def)
qed

lemma ListReplace_dlist:
  assumes "dlist h head (xs @ e # ys)" "new \<in> dom h" "new \<notin> set (head # xs @ e # ys)" "new \<noteq> 0"
  shows "\<exists>h'. ListReplace h e new = Some h' \<and> dlist h' head (xs @ new # ys) \<and> same_links (set (new # head # xs @ ys)) h h'"
proof -
  let ?p = "before head xs" and ?n = "behind head ys"
  obtain us vs where pl: "head # xs = us @ [?p]" "ys @ [head] = ?n # vs"
    "\<forall>zs. head # (xs @ zs @ ys) @ [head] = us @ ?p # zs @ ?n # vs" using place [of head xs ys] by blast
  have d: "distinct (head # xs @ e # ys)" "set (head # xs @ e # ys) \<subseteq> dom h" "0 \<notin> set (head # xs @ e # ys)"
    "chain (next_of h) (prev_of h) (us @ ?p # e # ?n # vs)"
    using assms(1) pl(3) [rule_format, of "[e]"] by (auto simp: dlist_def)
  have t: "tl (us @ [?p]) = xs" using pl(1) by (metis list.sel(3))
  have b: "butlast (?n # vs) = ys" "us @ ?p # e # ys = head # xs @ e # ys" "tl (us @ [?p]) @ e # ?n # vs = xs @ e # ys @ [head]"
    "us @ ?p # ys = head # xs @ ys" "tl (us @ [?p]) @ ?n # vs = xs @ ys @ [head]"
    using arg_cong [OF pl(1), of "\<lambda>zs. zs @ e # ys"] arg_cong [OF pl(1), of "\<lambda>zs. zs @ ys"] t pl(2) [symmetric] by simp_all
  have c: "distinct (us @ ?p # e # butlast (?n # vs))" "distinct (tl (us @ [?p]) @ e # ?n # vs)"
    "distinct (us @ ?p # butlast (?n # vs))" "distinct (tl (us @ [?p]) @ ?n # vs)"
    using d(1) by (auto simp add: b simp del: butlast.simps)
  have new: "new \<notin> set (us @ ?p # ?n # vs)"
    using assms(3) pl(3) [rule_format, of "[]"] by (metis append_Nil set_append set_ConsD Un_iff append.assoc empty_iff list.set(1) list.set_intros)
  note r = chain_remove [OF d(4) c(1,2)]
  have m: "?p \<in> dom h" "?n \<in> dom h" using before_in [of head xs] behind_in [of head ys] d(2) by auto
  have "?n \<noteq> e" "new \<noteq> e" "?p \<noteq> new" using behind_in [of head ys] before_in [of head xs] d(1) assms(3) by auto
  then obtain h' where h': "ListReplace h e new = Some h'" "next_of h' = (next_of h)(new \<mapsto> ?n, ?p \<mapsto> new)"
    "prev_of h' = (prev_of h)(?n \<mapsto> new, new \<mapsto> ?p)" "dom h' = dom h"
    using ListReplace_links [OF r(3,2)] m assms(2) by blast
  have "chain (next_of h') (prev_of h') (us @ ?p # new # ?n # vs)"
    using chain_insert [OF r(1) c(3,4) new] by (simp add: h' fun_upd_twist)
  then have "chain (next_of h') (prev_of h') (head # (xs @ [new] @ ys) @ [head])" unfolding pl(3) [rule_format] by simp
  then have "dlist h' head (xs @ new # ys)" using d assms(2-4) h'(4) by (auto simp: dlist_def)
  moreover have "same_links (set (new # head # xs @ ys)) h h'"
    using h'(2-4) before_in [of head xs] behind_in [of head ys] by (auto simp: same_links_def)
  ultimately show ?thesis using h'(1) by blast
qed

lemma ListReplaceInit_dlist:
  assumes "dlist h head (xs @ e # ys)" "new \<in> dom h" "new \<notin> set (head # xs @ e # ys)" "new \<noteq> 0"
  shows "\<exists>h'. ListReplaceInit h e new = Some h' \<and> dlist h' head (xs @ new # ys) \<and> dlist h' e [] \<and>
    same_links (set (new # head # xs @ e # ys)) h h'"
proof -
  note e = entry_facts [OF assms(1)]
  obtain h1 where 1: "ListReplace h e new = Some h1" "dlist h1 head (xs @ new # ys)" "same_links (set (new # head # xs @ ys)) h h1"
    using ListReplace_dlist [OF assms] by blast
  have "e \<in> dom h1" using 1(3) e by (simp add: same_links_def)
  then obtain h2 where 2: "ListHeadInit h1 e = Some h2" "same_links {e} h1 h2" "dlist h2 e []"
    using init_links [of e h1] e by blast
  have "dlist h2 head (xs @ new # ys)" by (rule dlist_frame [OF 2(2) _ 1(2)]) (use e assms(3) in auto)
  moreover have "same_links (set (new # head # xs @ e # ys)) h h2"
    using same_links_trans [OF 1(3) 2(2)] by (rule same_links_mono) auto
  ultimately show ?thesis using 1(1) 2 by (simp add: ListReplaceInit_def)
qed

lemma ListEmpty_dlist: "dlist h head xs \<Longrightarrow> ListEmpty h head = Some (xs = [])"
  using dlist_neighbours(1) [of h head "[]" xs] by (cases xs) (auto simp: ListEmpty_def behind_def dlist_def)

lemma chain_join:
  "us \<noteq> [] \<Longrightarrow> vs \<noteq> [] \<Longrightarrow>
   chain nx pv (us @ vs) \<longleftrightarrow> chain nx pv us \<and> chain nx pv vs \<and> nx (last us) = Some (hd vs) \<and> pv (hd vs) = Some (last us)"
proof (induction us)
  case (Cons u us)
  then show ?case by (cases us; cases vs) auto
qed simp

lemma dlist_parts:
  assumes "dlist h head xs" "xs \<noteq> []"
  shows "chain (next_of h) (prev_of h) xs" "next_of h head = Some (hd xs)" "prev_of h head = Some (last xs)"
proof -
  have c: "chain (next_of h) (prev_of h) ([head] @ xs @ [head])" using assms(1) by (simp add: dlist_def)
  have "chain (next_of h) (prev_of h) (xs @ [head])" "next_of h head = Some (hd xs)"
    using c assms(2) by (subst (asm) chain_join; simp)+
  then show "chain (next_of h) (prev_of h) xs" "next_of h head = Some (hd xs)" "prev_of h head = Some (last xs)"
    using assms(2) by (simp_all add: chain_join)
qed

lemma list_splice_links:
  assumes "next_of h list = Some a" "prev_of h list = Some b" "next_of h head = Some c"
    "a \<in> dom h" "b \<in> dom h" "c \<in> dom h" "head \<in> dom h"
  shows "\<exists>h'. list_splice h list head = Some h' \<and> next_of h' = (next_of h)(head \<mapsto> a, b \<mapsto> c) \<and>
    prev_of h' = (prev_of h)(a \<mapsto> head, c \<mapsto> b) \<and> dom h' = dom h"
proof -
  obtain h1 where 1: "set_prev h a head = Some h1" "prev_of h1 = (prev_of h)(a \<mapsto> head)" "next_of h1 = next_of h" "dom h1 = dom h"
    using set_prev_in [OF assms(4)] by blast
  obtain h2 where 2: "set_next h1 head a = Some h2" "next_of h2 = (next_of h1)(head \<mapsto> a)" "prev_of h2 = prev_of h1" "dom h2 = dom h"
    using set_next_in [of head h1 a] assms(7) 1 by auto
  obtain h3 where 3: "set_next h2 b c = Some h3" "next_of h3 = (next_of h2)(b \<mapsto> c)" "prev_of h3 = prev_of h2" "dom h3 = dom h"
    using set_next_in [of b h2 c] assms(5) 2 by auto
  obtain h4 where 4: "set_prev h3 c b = Some h4" "prev_of h4 = (prev_of h3)(c \<mapsto> b)" "next_of h4 = next_of h3" "dom h4 = dom h"
    using set_prev_in [of c h3 b] assms(6) 3 by auto
  show ?thesis using 1 2 3 4 assms(1-3) by (simp add: list_splice_def)
qed


lemma list_splice_dlist:
  assumes "dlist h list ys" "dlist h head xs" "ys \<noteq> []" "set (list # ys) \<inter> set (head # xs) = {}"
  shows "\<exists>h'. list_splice h list head = Some h' \<and> dlist h' head (ys @ xs) \<and> same_links (set (head # ys @ xs)) h h'"
proof -
  let ?a = "hd ys" and ?b = "last ys" and ?c = "behind head xs"
  note p = dlist_parts [OF assms(1,3)]
  have n: "next_of h head = Some ?c" using dlist_neighbours(1) [of h head "[]" xs] assms(2) by simp
  have m: "?a \<in> set ys" "?b \<in> set ys" "?c \<in> set (head # xs)" using assms(3) behind_in by auto
  have d: "set ys \<subseteq> dom h" "set (head # xs) \<subseteq> dom h" "distinct (head # xs)" "distinct ys" "0 \<notin> set (head # ys @ xs)"
    using assms(1,2) by (auto simp: dlist_def)
  obtain h' where h': "list_splice h list head = Some h'" "next_of h' = (next_of h)(head \<mapsto> ?a, ?b \<mapsto> ?c)"
    "prev_of h' = (prev_of h)(?a \<mapsto> head, ?c \<mapsto> ?b)" "dom h' = dom h"
    using list_splice_links [OF p(2,3) n] subsetD [OF d(1) m(1)] subsetD [OF d(1) m(2)] subsetD [OF d(2) m(3)]
      subsetD [OF d(2), of head] by auto
  obtain ys1 where y1: "ys = ?a # ys1" using assms(3) by (cases ys) auto
  obtain ys2 where y2: "ys = ys2 @ [?b]" using assms(3) by (metis append_butlast_last_id)
  have q: "?a \<notin> set (tl ys)" "?b \<notin> set (butlast ys)" "head \<notin> set ys" "?c \<notin> set ys"
    using y1 y2 d(4) m(3) assms(4) by (metis distinct.simps(2) list.sel(3), metis distinct_butlast not_distinct_conv_prefix butlast_snoc, auto)
  have "chain (next_of h') (prev_of h') ys = chain (next_of h) (prev_of h) ys"
  proof (rule chain_cong)
    fix x assume "x \<in> set (butlast ys)"
    then have "x \<noteq> ?b" "x \<noteq> head" using q in_set_butlastD by metis+
    then show "next_of h' x = next_of h x" by (simp add: h'(2))
  next
    fix x assume "x \<in> set (tl ys)"
    then have "x \<noteq> ?a" "x \<noteq> ?c" using q by (metis, metis list.set_sel(2) tl_Nil)
    then show "prev_of h' x = prev_of h x" by (simp add: h'(3))
  qed
  moreover have "chain (next_of h') (prev_of h') (xs @ [head]) = chain (next_of h) (prev_of h) (xs @ [head])"
  proof (rule chain_cong)
    fix x assume "x \<in> set (butlast (xs @ [head]))"
    then have "x \<noteq> ?b" "x \<noteq> head" using m(2) assms(4) d(3) by auto
    then show "next_of h' x = next_of h x" by (simp add: h'(2))
  next
    fix x assume x: "x \<in> set (tl (xs @ [head]))"
    then have "x \<noteq> ?c" "x \<noteq> ?a" using m(1) assms(4) d(3) by (cases xs; auto simp: behind_def)+
    then show "prev_of h' x = prev_of h x" by (simp add: h'(3))
  qed
  moreover have "chain (next_of h) (prev_of h) (xs @ [head])"
    using assms(2) chain_join [of "[head]" "xs @ [head]"] by (simp add: dlist_def)
  moreover have "?c = hd (xs @ [head])" "?b \<noteq> head" "?a \<noteq> ?c" using m q by (auto simp: behind_def)
  ultimately have "chain (next_of h') (prev_of h') (ys @ xs @ [head])"
    using p(1) assms(3) by (simp add: chain_join h'(2,3))
  then have "chain (next_of h') (prev_of h') ([head] @ ys @ xs @ [head])"
    using assms(3) \<open>?b \<noteq> head\<close> \<open>?a \<noteq> ?c\<close> by (subst chain_join) (simp_all add: h'(2,3))
  then have "dlist h' head (ys @ xs)" using d assms(4) h'(4) by (auto simp: dlist_def)
  moreover have "same_links (set (head # ys @ xs)) h h'" using h' m by (auto simp: same_links_def)
  ultimately show ?thesis using h'(1) by blast
qed

lemma ListSplice_dlist:
  assumes "dlist h list ys" "dlist h head xs" "set (list # ys) \<inter> set (head # xs) = {}"
  shows "\<exists>h'. ListSplice h list head = Some h' \<and> dlist h' head (ys @ xs) \<and> same_links (set (head # ys @ xs)) h h'"
  using list_splice_dlist [OF assms(1,2) _ assms(3)] assms(2) ListEmpty_dlist [OF assms(1)]
  by (cases "ys = []") (auto simp: ListSplice_def)

lemma ListSpliceInit_dlist:
  assumes "dlist h list ys" "dlist h head xs" "set (list # ys) \<inter> set (head # xs) = {}"
  shows "\<exists>h'. ListSpliceInit h list head = Some h' \<and> dlist h' head (ys @ xs) \<and> dlist h' list [] \<and>
    same_links (set (list # ys) \<union> set (head # xs)) h h'"
proof (cases "ys = []")
  case True
  then show ?thesis using assms ListEmpty_dlist [OF assms(1)] by (auto simp: ListSpliceInit_def)
next
  case False
  obtain h1 where 1: "list_splice h list head = Some h1" "dlist h1 head (ys @ xs)" "same_links (set (head # ys @ xs)) h h1"
    using list_splice_dlist [OF assms(1,2) False assms(3)] by blast
  have l: "list \<in> dom h1" "list \<noteq> 0" "list \<notin> set (head # ys @ xs)" using assms 1(3) by (auto simp: dlist_def same_links_def)
  then obtain h2 where 2: "ListHeadInit h1 list = Some h2" "same_links {list} h1 h2" "dlist h2 list []"
    using init_links [of list h1] by blast
  have "dlist h2 head (ys @ xs)" by (rule dlist_frame [OF 2(2) _ 1(2)]) (use l(3) in auto)
  moreover have "same_links (set (list # ys) \<union> set (head # xs)) h h2"
    using same_links_trans [OF 1(3) 2(2)] by (rule same_links_mono) auto
  ultimately show ?thesis using 1(1) 2 False ListEmpty_dlist [OF assms(1)] by (simp add: ListSpliceInit_def)
qed

subsection \<open>By position\<close>

lemma chain_rev: "chain pv nx (rev zs) = chain nx pv zs"
proof (induction nx pv zs rule: chain.induct)
  case (1 nx pv a b r)
  have "chain pv nx (rev (a # b # r)) = chain pv nx (rev (b # r) @ [a])" by simp
  also have "\<dots> = chain nx pv (a # b # r)" by (subst chain_join) (use 1 in auto)
  finally show ?case .
qed simp_all

lemma list_walk_chain:
  "chain nx pv (ys @ [head]) \<Longrightarrow> step h = nx \<Longrightarrow> head \<notin> set ys \<Longrightarrow>
   list_walk step h head (hd (ys @ [head])) k = Some (if k < length ys then ys ! k else 0)"
proof (induction ys arbitrary: k)
  case Nil
  then show ?case by (cases k) auto
next
  case (Cons y ys)
  have "step h y = Some (hd (ys @ [head]))" "chain nx pv (ys @ [head])" using Cons.prems(1,2) by (cases ys; auto)+
  then show ?case using Cons by (cases k) auto
qed

text \<open>The place a position names: the head is place 0, and -1 is the last node.\<close>

definition place_of :: "nat list \<Rightarrow> int \<Rightarrow> nat" where
  "place_of xs position = nat (if position < 0 then int (length xs) + 1 + position else position)"

lemma ListGet_dlist:
  assumes "dlist h head xs"
  shows "ListGet h head position =
    Some (if \<bar>position\<bar> \<le> int (length xs) then (head # xs) ! place_of xs position else 0)"
proof -
  have c: "chain (next_of h) (prev_of h) ([head] @ xs @ [head])" and d: "head \<notin> set xs" "head \<notin> set (rev xs)"
    using assms by (auto simp: dlist_def)
  have f: "chain (next_of h) (prev_of h) (xs @ [head])" "next_of h head = Some (hd (xs @ [head]))"
    using c by (subst (asm) chain_join; simp)+
  have "chain (prev_of h) (next_of h) ([head] @ rev xs @ [head])"
    using c chain_rev [of "prev_of h" "next_of h" "[head] @ xs @ [head]"] by simp
  then have b: "chain (prev_of h) (next_of h) (rev xs @ [head])" "prev_of h head = Some (hd (rev xs @ [head]))"
    by (subst (asm) chain_join; simp)+
  consider "position = 0" | "0 < position" | "position < 0" by linarith
  then show ?thesis
  proof cases
    case 1
    then show ?thesis by (simp add: ListGet_def place_of_def)
  next
    case 2
    then have "nat position = Suc (nat (position - 1))" "nat (position - 1) < length xs \<longleftrightarrow> position \<le> int (length xs)"
      by linarith+
    then show ?thesis using 2 list_walk_chain [where step = next_of, OF f(1) refl d(1)] f(2) by (simp add: ListGet_def place_of_def)
  next
    case 3
    let ?k = "nat (- position - 1)"
    have "nat (int (length xs) + 1 + position) = Suc (length xs - Suc ?k)" if "?k < length xs" using 3 that by linarith
    then have "rev xs ! ?k = (head # xs) ! place_of xs position" if "?k < length xs"
      using 3 that by (simp add: place_of_def rev_nth)
    moreover have "?k < length xs \<longleftrightarrow> \<bar>position\<bar> \<le> int (length xs)" using 3 by linarith
    ultimately show ?thesis using 3 list_walk_chain [where step = prev_of and k = ?k, OF b(1) refl d(2)] b(2) by (simp add: ListGet_def)
  qed
qed


definition inserted :: "nat list \<Rightarrow> int \<Rightarrow> nat \<Rightarrow> nat list" where
  "inserted xs position e = (if \<bar>position\<bar> \<le> int (length xs)
     then take (place_of xs position) xs @ e # drop (place_of xs position) xs else xs)"

definition deleted :: "nat list \<Rightarrow> int \<Rightarrow> nat list" where
  "deleted xs position = (if \<bar>position\<bar> \<le> int (length xs)
     then take (place_of xs position - 1) xs @ drop (place_of xs position) xs else xs)"

lemma place_le: "\<bar>position\<bar> \<le> int (length xs) \<Longrightarrow> place_of xs position \<le> length xs"
  unfolding place_of_def by (cases "position < 0") auto

lemma place_pos: "\<bar>position\<bar> \<le> int (length xs) \<Longrightarrow> position \<noteq> 0 \<Longrightarrow> 0 < place_of xs position"
  unfolding place_of_def by (cases "position < 0") auto

lemma before_take: "k \<le> length xs \<Longrightarrow> before head (take k xs) = (head # xs) ! k"
  by (cases k) (auto simp: before_def last_conv_nth)

lemma ListInsert_dlist:
  assumes "dlist h head xs" "new \<in> dom h" "new \<notin> set (head # xs)" "new \<noteq> 0"
  shows "\<exists>h'. ListInsert h head position new = Some (\<bar>position\<bar> \<le> int (length xs), h') \<and>
    dlist h' head (inserted xs position new) \<and> same_links (set (new # head # xs)) h h'"
proof (cases "\<bar>position\<bar> \<le> int (length xs)")
  case False
  then show ?thesis using assms(1) ListGet_dlist [OF assms(1)] by (simp add: ListInsert_def inserted_def)
next
  case True
  let ?k = "place_of xs position" and ?p = "(head # xs) ! place_of xs position"
  note k = place_le [OF True]
  have "?p \<in> set (head # xs)" by (rule nth_mem) (use k in simp)
  moreover have "0 \<notin> set (head # xs)" using assms(1) by (simp add: dlist_def)
  ultimately have p: "?p = before head (take ?k xs)" "?p \<noteq> 0"
    using before_take [OF k] by metis+
  have l: "dlist h head (take ?k xs @ drop ?k xs)" using assms(1) by simp
  obtain h' where "list_add h new ?p (behind head (drop ?k xs)) = Some h'" "dlist h' head (take ?k xs @ new # drop ?k xs)"
    "same_links (set (new # head # xs)) h h'"
    using dlist_insert [OF l assms(2) _ assms(4)] assms(3) p(1) by auto
  then show ?thesis using dlist_neighbours(1) [OF l] ListGet_dlist [OF assms(1), of position] p True
    by (simp add: ListInsert_def inserted_def)
qed

lemma ListDelByPosition_dlist:
  assumes "dlist h head xs" "position \<noteq> 0"
  shows "\<exists>h'. ListDelByPosition h head position = Some (\<bar>position\<bar> \<le> int (length xs), h') \<and>
    dlist h' head (deleted xs position) \<and> same_links (set (head # xs)) h h'"
proof (cases "\<bar>position\<bar> \<le> int (length xs)")
  case False
  then show ?thesis using assms(1) ListGet_dlist [OF assms(1)] by (simp add: ListDelByPosition_def deleted_def)
next
  case True
  obtain k where k: "place_of xs position = Suc k" "k < length xs"
    using place_le [OF True] place_pos [OF True assms(2)] by (cases "place_of xs position") auto
  have s: "xs = take k xs @ xs ! k # drop (Suc k) xs" using id_take_nth_drop [OF k(2)] .
  have n: "xs ! k \<noteq> 0" using entry_facts [of h head "take k xs" "xs ! k" "drop (Suc k) xs"] s assms(1) by metis
  obtain h' where "ListDel h (xs ! k) = Some h'" "dlist h' head (take k xs @ drop (Suc k) xs)"
    "same_links (set (head # xs)) h h'"
    using ListDel_dlist [of h head "take k xs" "xs ! k" "drop (Suc k) xs"] assms(1) unfolding s [symmetric] by blast
  then show ?thesis using ListGet_dlist [OF assms(1), of position] True n k by (simp add: ListDelByPosition_def deleted_def)
qed


subsection \<open>The lists of a program\<close>

text \<open>A list none of whose nodes an operation touches is as it was.\<close>

lemma others_kept: "same_links S h h' \<Longrightarrow> dlist h k zs \<and> set (k # zs) \<inter> S = {} \<longrightarrow> dlist h' k zs"
  using dlist_frame by blast

text \<open>\<open>ListDel\<close> of a head takes the head out of its own list and clears its links.\<close>


lemma ListDel_head:
  assumes "dlist h head xs"
  shows "\<exists>h'. ListDel h head = Some h' \<and> next_of h' head = Some 0 \<and> prev_of h' head = Some 0 \<and> (\<forall>ys. \<not> dlist h' head ys)"
proof -
  have n: "next_of h head = Some (behind head xs)" using dlist_neighbours(1) [of h head "[]" xs] assms by simp
  have p: "prev_of h head = Some (before head xs)" using dlist_neighbours(2) [of h head xs "[]"] assms by simp
  have d: "set (head # xs) \<subseteq> dom h" using assms by (simp add: dlist_def)
  obtain h1 where 1: "list_unlink h head = Some h1" "dom h1 = dom h"
    using list_del_links [of "before head xs" h "behind head xs"] subsetD [OF d before_in] subsetD [OF d behind_in] n p
    by (auto simp: list_unlink_def)
  then obtain h2 where 2: "do { h \<leftarrow> set_next h1 head 0; set_prev h head 0 } = Some h2"
    "next_of h2 head = Some 0" "prev_of h2 head = Some 0"
    using clear_links [of head h1] d by auto
  have "\<not> dlist h2 head ys" for ys
  proof
    assume l: "dlist h2 head ys"
    then have "behind head ys = 0" using dlist_neighbours(1) [of h2 head "[]" ys] 2(2) by simp
    then show False using l behind_in [of head ys] by (simp add: dlist_def)
  qed
  then show ?thesis using 1 2 by (simp add: ListDel_def)
qed

definition example_store :: store where
  "example_store = [1 \<mapsto> \<lparr>node_next = 2, node_prev = 3\<rparr>, 2 \<mapsto> \<lparr>node_next = 3, node_prev = 1\<rparr>, 3 \<mapsto> \<lparr>node_next = 1, node_prev = 2\<rparr>,
     4 \<mapsto> \<lparr>node_next = 5, node_prev = 5\<rparr>, 5 \<mapsto> \<lparr>node_next = 4, node_prev = 4\<rparr>, 6 \<mapsto> \<lparr>node_next = 0, node_prev = 0\<rparr>]"

lemma example_lists: "dlist example_store 1 [2, 3]" "dlist example_store 4 [5]" "6 \<in> dom example_store"
  by (simp_all add: dlist_def example_store_def next_of_def prev_of_def)

text \<open>Fact. \<open>ListInsert\<close> puts a new node right behind the node that the position names, counting from
  the front from 0 (the head) or from the end from -1, and answers TRUE; when the list has no such node it answers
  FALSE and the list is as before. Every list without nodes in common is kept.\<close>

theorem list_insert_at_position:
  assumes "dlist h head xs" "new \<in> dom h" "new \<notin> set (head # xs)" "new \<noteq> 0"
  shows "\<exists>h'. ListInsert h head position new = Some (\<bar>position\<bar> \<le> int (length xs), h') \<and>
    dlist h' head (inserted xs position new) \<and>
    (\<forall>k zs. dlist h k zs \<and> set (k # zs) \<inter> set (new # head # xs) = {} \<longrightarrow> dlist h' k zs)"
  using ListInsert_dlist [OF assms, of position] others_kept by blast

theorem list_insert_at_position_witness:
  "\<exists>h'. ListInsert example_store 1 (- 2) 6 = Some (True, h') \<and> dlist h' 1 [2, 6, 3] \<and> dlist h' 4 [5]"
proof -
  have "6 \<notin> set [1, 2, 3 :: nat]" "6 \<noteq> (0 :: nat)" by simp_all
  from list_insert_at_position [OF example_lists(1,3) this, of "- 2"]
  obtain h' where "ListInsert example_store 1 (- 2) 6 = Some (True, h')" "dlist h' 1 (inserted [2, 3] (- 2) 6)"
    "\<forall>k zs. dlist example_store k zs \<and> set (k # zs) \<inter> set [6, 1, 2, 3] = {} \<longrightarrow> dlist h' k zs"
    by auto
  moreover have "inserted [2, 3] (- 2) 6 = [2, 6, 3]" by (simp add: inserted_def place_of_def)
  moreover have "set [4, 5] \<inter> set [6, 1, 2, 3 :: nat] = {}" by simp
  ultimately show ?thesis using example_lists(2) by metis
qed

text \<open>Property C21. \<open>ListMove\<close> takes a node out of its list and puts it at the front of another list,
  \<open>ListMoveTail\<close> at its end; the other nodes of both lists keep their order, and every third list is kept.\<close>

theorem list_move_between_lists:
  assumes "dlist h head (xs @ e # ys)" "dlist h head2 zs" "set (head # xs @ e # ys) \<inter> set (head2 # zs) = {}"
  shows "(\<exists>h'. ListMove h e head2 = Some h' \<and> dlist h' head (xs @ ys) \<and> dlist h' head2 (e # zs) \<and>
      (\<forall>k us. dlist h k us \<and> set (k # us) \<inter> (set (head # xs @ e # ys) \<union> set (head2 # zs)) = {} \<longrightarrow> dlist h' k us)) \<and>
    (\<exists>h'. ListMoveTail h e head2 = Some h' \<and> dlist h' head (xs @ ys) \<and> dlist h' head2 (zs @ [e]) \<and>
      (\<forall>k us. dlist h k us \<and> set (k # us) \<inter> (set (head # xs @ e # ys) \<union> set (head2 # zs)) = {} \<longrightarrow> dlist h' k us))"
proof (rule conjI)
  let ?S = "set (head # xs @ e # ys) \<union> set (head2 # zs)"
  obtain h1 where 1: "ListMove h e head2 = Some h1" "dlist h1 head (xs @ ys)" "dlist h1 head2 (e # zs)" "same_links ?S h h1"
    using ListMove_dlist(1) [OF assms] by blast
  then show "\<exists>h'. ListMove h e head2 = Some h' \<and> dlist h' head (xs @ ys) \<and> dlist h' head2 (e # zs) \<and>
      (\<forall>k us. dlist h k us \<and> set (k # us) \<inter> ?S = {} \<longrightarrow> dlist h' k us)" using others_kept [OF 1(4)] by blast
  obtain h2 where 2: "ListMoveTail h e head2 = Some h2" "dlist h2 head (xs @ ys)" "dlist h2 head2 (zs @ [e])" "same_links ?S h h2"
    using ListMove_dlist(2) [OF assms] by blast
  then show "\<exists>h'. ListMoveTail h e head2 = Some h' \<and> dlist h' head (xs @ ys) \<and> dlist h' head2 (zs @ [e]) \<and>
      (\<forall>k us. dlist h k us \<and> set (k # us) \<inter> ?S = {} \<longrightarrow> dlist h' k us)" using others_kept [OF 2(4)] by blast
qed

theorem list_move_between_lists_witness:
  "\<exists>h'. ListMoveTail example_store 2 4 = Some h' \<and> dlist h' 1 [3] \<and> dlist h' 4 [5, 2]"
  using list_move_between_lists [of example_store 1 "[]" 2 "[3]" 4 "[5]"] example_lists by auto

text \<open>Fact. \<open>ListSpliceInit\<close> puts all nodes of one list, in their order, before the nodes of another and
  leaves the first list empty.\<close>

theorem list_splice_joins:
  assumes "dlist h list ys" "dlist h head xs" "set (list # ys) \<inter> set (head # xs) = {}"
  shows "\<exists>h'. ListSpliceInit h list head = Some h' \<and> dlist h' head (ys @ xs) \<and> dlist h' list [] \<and>
    (\<forall>k zs. dlist h k zs \<and> set (k # zs) \<inter> (set (list # ys) \<union> set (head # xs)) = {} \<longrightarrow> dlist h' k zs)"
proof -
  let ?S = "set (list # ys) \<union> set (head # xs)"
  obtain h1 where 1: "ListSpliceInit h list head = Some h1" "dlist h1 head (ys @ xs)" "dlist h1 list []" "same_links ?S h h1"
    using ListSpliceInit_dlist [OF assms] by blast
  then show ?thesis using others_kept [OF 1(4)] by blast
qed
theorem list_splice_joins_witness:
  "\<exists>h'. ListSpliceInit example_store 1 4 = Some h' \<and> dlist h' 4 [2, 3, 5] \<and> dlist h' 1 []"
  using list_splice_joins [of example_store 1 "[2, 3]" 4 "[5]"] example_lists by auto

text \<open>Fact. \<open>ListDelByPosition\<close> takes out the node that a position other than 0 names and answers TRUE;
  it answers FALSE and keeps the list when there is no such node. With position 0, which the header says fails, it
  answers TRUE and takes the head itself out: its links are null and it heads no list any more.\<close>

theorem list_delete_by_position:
  assumes "dlist h head xs"
  shows "\<exists>h'. ListDelByPosition h head position = Some (\<bar>position\<bar> \<le> int (length xs), h') \<and>
    (if position = 0 then next_of h' head = Some 0 \<and> prev_of h' head = Some 0 \<and> (\<forall>ys. \<not> dlist h' head ys)
     else dlist h' head (deleted xs position))"
proof (cases "position = 0")
  case True
  have "head \<noteq> 0" using assms by (auto simp: dlist_def)
  then show ?thesis using True ListDel_head [OF assms] by (auto simp: ListDelByPosition_def ListGet_def)
next
  case False
  then show ?thesis using ListDelByPosition_dlist [OF assms False] by auto
qed

theorem list_delete_by_position_witness:
  "\<exists>h'. ListDelByPosition example_store 1 (- 1) = Some (True, h') \<and> dlist h' 1 [2]"
  using list_delete_by_position [OF example_lists(1), of "- 1"] by (simp add: deleted_def place_of_def)

end
