(* ===== verification/GpioLib.thy ===== *)
theory GpioLib imports Prelude
begin

text \<open>
  Ports, switches and the message lamp: the routines of \<open>stm32f10x_gpio.c\<close> and \<open>stm32f10x_rcc.c\<close> that the board
  uses, \<open>drivers/drv_switch.c\<close> and \<open>drivers/drv_breathe_led.c\<close>. A \<open>board\<close> holds the registers that the
  routines write (a port has two configuration registers of eight fields of four bits, and one bit of
  the output register per pin) and what the lamps have shown: every delay of a thread adds the output
  registers and its length in ticks.
\<close>

datatype gpio_port = GPIOA | GPIOB | GPIOC | GPIOD | GPIOE | GPIOF | GPIOG

record board =
  APB2ENR :: u32
  MAPR :: u32
  MAPR2 :: u32
  CRL :: "gpio_port \<Rightarrow> u32"
  CRH :: "gpio_port \<Rightarrow> u32"
  ODR :: "gpio_port \<Rightarrow> u16"
  shown :: "((gpio_port \<Rightarrow> u16) \<times> nat) list"

definition rt_thread_delay :: "nat \<Rightarrow> board \<Rightarrow> board" where
  "rt_thread_delay tick w = w\<lparr>shown := shown w @ [(ODR w, tick)]\<rparr>"

subsection \<open>Ports\<close>

definition GPIO_SetBits :: "gpio_port \<Rightarrow> u16 \<Rightarrow> board \<Rightarrow> board" where
  "GPIO_SetBits x pin w = w\<lparr>ODR := (ODR w)(x := ODR w x OR pin)\<rparr>"

definition GPIO_ResetBits :: "gpio_port \<Rightarrow> u16 \<Rightarrow> board \<Rightarrow> board" where
  "GPIO_ResetBits x pin w = w\<lparr>ODR := (ODR w)(x := ODR w x AND NOT pin)\<rparr>"

definition GPIO_ToggleBits :: "gpio_port \<Rightarrow> u16 \<Rightarrow> board \<Rightarrow> board" where
  "GPIO_ToggleBits x pin w = w\<lparr>ODR := (ODR w)(x := ODR w x XOR pin)\<rparr>"

definition GPIO_Mode_Out_PP :: u32 where "GPIO_Mode_Out_PP = 0x10"
definition GPIO_Mode_IPD :: u32 where "GPIO_Mode_IPD = 0x28"
definition GPIO_Mode_IPU :: u32 where "GPIO_Mode_IPU = 0x48"
definition GPIO_Speed_50MHz :: u32 where "GPIO_Speed_50MHz = 3"

text \<open>The body of the two loops over the eight pins of a half; \<open>base\<close> is 0 for the low half and 8 for the high half.\<close>

definition init_pin :: "gpio_port \<Rightarrow> u16 \<Rightarrow> u32 \<Rightarrow> u32 \<Rightarrow> nat \<Rightarrow> nat \<Rightarrow> u32 \<times> board \<Rightarrow> u32 \<times> board" where
  "init_pin x pin mode currentmode base pinpos = (\<lambda>(tmpreg, w).
     let pos = push_bit (pinpos + base) (1 :: u32); currentpin = ucast pin AND pos in
     if currentpin = pos then
       let pos = 4 * pinpos;
           pinmask = push_bit pos (0x0F :: u32);
           tmpreg = tmpreg AND NOT pinmask;
           tmpreg = tmpreg OR push_bit pos currentmode;
           bit = push_bit (pinpos + base) (1 :: u16)
       in (tmpreg,
           if mode = GPIO_Mode_IPD then GPIO_ResetBits x bit w
           else if mode = GPIO_Mode_IPU then GPIO_SetBits x bit w else w)
     else (tmpreg, w))"

definition GPIO_Init :: "gpio_port \<Rightarrow> u16 \<Rightarrow> u32 \<Rightarrow> u32 \<Rightarrow> board \<Rightarrow> board" where
  "GPIO_Init x pin mode speed w =
    (let currentmode = mode AND 0x0F;
         currentmode = (if mode AND 0x10 \<noteq> 0 then currentmode OR speed else currentmode);
         w = (if pin AND 0x00FF \<noteq> 0 then
                let (tmpreg, w) = fold (init_pin x pin mode currentmode 0) [0..<8] (CRL w x, w)
                in w\<lparr>CRL := (CRL w)(x := tmpreg)\<rparr>
              else w)
     in if pin > 0x00FF then
          let (tmpreg, w) = fold (init_pin x pin mode currentmode 8) [0..<8] (CRH w x, w)
          in w\<lparr>CRH := (CRH w)(x := tmpreg)\<rparr>
        else w)"

definition RCC_APB2PeriphClockCmd :: "u32 \<Rightarrow> bool \<Rightarrow> board \<Rightarrow> board" where
  "RCC_APB2PeriphClockCmd periph enable w =
     (if enable then w\<lparr>APB2ENR := APB2ENR w OR periph\<rparr> else w\<lparr>APB2ENR := APB2ENR w AND NOT periph\<rparr>)"

definition GPIO_PinRemapConfig :: "u32 \<Rightarrow> bool \<Rightarrow> board \<Rightarrow> board" where
  "GPIO_PinRemapConfig remap enable w =
    (let second = (remap AND 0x80000000 = 0x80000000);
         tmpreg = (if second then MAPR2 w else MAPR w);
         tmpmask = drop_bit 16 (remap AND 0x000F0000);
         tmp = remap AND 0xFFFF;
         shift = unat (drop_bit 21 remap) * 16;
         (tmpreg, w) =
           (if remap AND (0x00200000 OR 0x00100000) = (0x00200000 OR 0x00100000) then
              (tmpreg AND 0xF0FFFFFF, w\<lparr>MAPR := MAPR w AND 0xF0FFFFFF\<rparr>)
            else if remap AND 0x00100000 = 0x00100000 then
              ((tmpreg AND NOT (push_bit (unat tmpmask) 0x03)) OR NOT 0xF0FFFFFF, w)
            else ((tmpreg AND NOT (push_bit shift tmp)) OR NOT 0xF0FFFFFF, w));
         tmpreg = (if enable then tmpreg OR push_bit shift tmp else tmpreg)
     in if second then w\<lparr>MAPR2 := tmpreg\<rparr> else w\<lparr>MAPR := tmpreg\<rparr>)"

text \<open>\<open>RCC_APB2Periph_GPIOA\<close> to \<open>RCC_APB2Periph_GPIOG\<close>.\<close>

fun RCC_APB2Periph_GPIO :: "gpio_port \<Rightarrow> u32" where
  "RCC_APB2Periph_GPIO GPIOA = 0x004"
| "RCC_APB2Periph_GPIO GPIOB = 0x008"
| "RCC_APB2Periph_GPIO GPIOC = 0x010"
| "RCC_APB2Periph_GPIO GPIOD = 0x020"
| "RCC_APB2Periph_GPIO GPIOE = 0x040"
| "RCC_APB2Periph_GPIO GPIOF = 0x080"
| "RCC_APB2Periph_GPIO GPIOG = 0x100"

subsection \<open>Switches (drv_switch.c)\<close>

record switch_type =
  gpio :: gpio_port
  pin :: u16
  valid :: bool

text \<open>The pointer argument is \<open>None\<close> when it is null.\<close>

definition stm32_switch_on :: "switch_type option \<Rightarrow> board \<Rightarrow> board" where
  "stm32_switch_on sw w = (case sw of None \<Rightarrow> w
     | Some sw \<Rightarrow> if valid sw then GPIO_SetBits (gpio sw) (pin sw) w else GPIO_ResetBits (gpio sw) (pin sw) w)"

definition stm32_switch_off :: "switch_type option \<Rightarrow> board \<Rightarrow> board" where
  "stm32_switch_off sw w = (case sw of None \<Rightarrow> w
     | Some sw \<Rightarrow> if valid sw then GPIO_ResetBits (gpio sw) (pin sw) w else GPIO_SetBits (gpio sw) (pin sw) w)"

definition stm32_switch_evert :: "switch_type option \<Rightarrow> board \<Rightarrow> board" where
  "stm32_switch_evert sw w = (case sw of None \<Rightarrow> w | Some sw \<Rightarrow> GPIO_ToggleBits (gpio sw) (pin sw) w)"

text \<open>The port and the pin are read before the pointer is tested: a null pointer is dereferenced (\<open>None\<close>).\<close>

definition stm32_switch_init :: "switch_type option \<Rightarrow> board \<Rightarrow> board option" where
  "stm32_switch_init sw w = (case sw of None \<Rightarrow> None
     | Some s \<Rightarrow> Some (stm32_switch_off sw (GPIO_Init (gpio s) (pin s) GPIO_Mode_Out_PP GPIO_Speed_50MHz
         (stm32_switch_off sw (RCC_APB2PeriphClockCmd (RCC_APB2Periph_GPIO (gpio s)) True w)))))"

subsection \<open>The message lamp (drv_breathe_led.c)\<close>

text \<open>
  A timer of the kernel has a period and runs or not. \<open>timer_msg\<close> is \<open>None\<close> until \<open>rt_timer_create\<close>, whose
  success is an argument of the initialisation.
\<close>

record rt_timer =
  init_tick :: nat
  activated :: bool

record BreatheMsgLedType =
  sw_led :: "switch_type option"
  timer_msg :: "rt_timer option"
  msg_count :: nat
  count_light :: nat
  on_cycle :: nat
  off_cycle :: nat

definition rt_timer_stop :: "BreatheMsgLedType \<Rightarrow> BreatheMsgLedType" where
  "rt_timer_stop m = m\<lparr>timer_msg := map_option (\<lambda>t. t\<lparr>activated := False\<rparr>) (timer_msg m)\<rparr>"

definition rt_timer_start :: "BreatheMsgLedType \<Rightarrow> BreatheMsgLedType" where
  "rt_timer_start m = m\<lparr>timer_msg := map_option (\<lambda>t. t\<lparr>activated := True\<rparr>) (timer_msg m)\<rparr>"

definition rt_timer_set_time :: "nat \<Rightarrow> BreatheMsgLedType \<Rightarrow> BreatheMsgLedType" where
  "rt_timer_set_time interval m = m\<lparr>timer_msg := map_option (\<lambda>t. t\<lparr>init_tick := interval\<rparr>) (timer_msg m)\<rparr>"

definition msg_control_handle :: "BreatheMsgLedType \<times> board \<Rightarrow> BreatheMsgLedType \<times> board" where
  "msg_control_handle = (\<lambda>(m, w).
     let w = stm32_switch_evert (sw_led m) w;
         interval = (if count_light m mod 2 = 0 then off_cycle m else on_cycle m);
         m = m\<lparr>count_light := u32_add (count_light m) 1\<rparr>
     in if msg_count m = 0 then (rt_timer_set_time interval (m\<lparr>count_light := count_light m mod 2\<rparr>), w)
        else if u32_mul (msg_count m) 2 \<le> count_light m then (rt_timer_stop m, stm32_switch_off (sw_led m) w)
        else (rt_timer_set_time interval m, w))"

text \<open>The pointer to the lamp is \<open>None\<close> when it is null; the first component of an answer is the value returned.\<close>

definition breathe_msg_led_on :: "BreatheMsgLedType option \<Rightarrow> nat \<Rightarrow> bool \<Rightarrow> board \<Rightarrow> bool \<times> BreatheMsgLedType option \<times> board" where
  "breathe_msg_led_on msg count steady w = (case msg of None \<Rightarrow> (False, msg, w)
   | Some m \<Rightarrow>
       let m = m\<lparr>msg_count := count, count_light := 0\<rparr>;
           interval = on_cycle m;
           m = rt_timer_set_time interval (rt_timer_stop m);
           w = stm32_switch_on (sw_led m) w
       in (True, Some (if \<not> steady then rt_timer_start m else m), w))"

definition breathe_msg_led_off :: "BreatheMsgLedType option \<Rightarrow> board \<Rightarrow> bool \<times> BreatheMsgLedType option \<times> board" where
  "breathe_msg_led_off msg w = (case msg of None \<Rightarrow> (False, msg, w)
   | Some m \<Rightarrow> (True, Some (rt_timer_stop m), stm32_switch_off (sw_led m) w))"

definition breathe_msg_led_attr_set :: "BreatheMsgLedType option \<Rightarrow> nat \<Rightarrow> nat \<Rightarrow> bool \<times> BreatheMsgLedType option" where
  "breathe_msg_led_attr_set msg on off = (case msg of None \<Rightarrow> (False, msg)
   | Some m \<Rightarrow> (True, Some (m\<lparr>on_cycle := on, off_cycle := off\<rparr>)))"

definition breathe_msg_led_init :: "bool \<Rightarrow> BreatheMsgLedType option \<Rightarrow> nat \<Rightarrow> nat \<Rightarrow> board \<Rightarrow>
    (bool \<times> BreatheMsgLedType option \<times> board) option" where
  "breathe_msg_led_init created msg on off w = (case msg of None \<Rightarrow> Some (False, msg, w)
   | Some m \<Rightarrow>
       let m = m\<lparr>msg_count := 0, count_light := 0, on_cycle := on, off_cycle := off,
                 timer_msg := (if created then Some \<lparr>init_tick = 0, activated = False\<rparr> else None)\<rparr>
       in if timer_msg m = None then Some (False, Some m, w)
          else do { w \<leftarrow> stm32_switch_init (sw_led m) w; Some (True, Some m, w) })"

text \<open>The periodic timer: while it runs, it calls the handler each time its period is over; it is
  started again with the period set last, unless the handler stopped it. The answer lists the level of
  the lamp and the length of every period.\<close>

definition lamp_is_on :: "switch_type \<Rightarrow> board \<Rightarrow> bool" where
  "lamp_is_on sw w = (ODR w (gpio sw) AND pin sw = (if valid sw then pin sw else 0))"

definition lamp_is_off :: "switch_type \<Rightarrow> board \<Rightarrow> bool" where
  "lamp_is_off sw w = (ODR w (gpio sw) AND pin sw = (if valid sw then 0 else pin sw))"

fun msg_periods :: "nat \<Rightarrow> BreatheMsgLedType \<times> board \<Rightarrow> (bool \<times> nat) list \<times> BreatheMsgLedType \<times> board" where
  "msg_periods 0 s = ([], s)"
| "msg_periods (Suc k) (m, w) =
     (case (sw_led m, timer_msg m) of
        (Some sw, Some t) \<Rightarrow>
          if activated t then
            let (ps, s) = msg_periods k (msg_control_handle (m, w)) in ((lamp_is_on sw w, init_tick t) # ps, s)
          else ([], (m, w))
      | _ \<Rightarrow> ([], (m, w)))"


subsection \<open>Levels of a lamp\<close>

lemma and_toggle: "(x XOR p) AND p = p AND NOT (x :: 'a :: len word)"
  by (rule bit_eqI) (auto simp: bit_simps)

lemma switch_levels:
  "lamp_is_on sw (stm32_switch_on (Some sw) w)" "lamp_is_off sw (stm32_switch_off (Some sw) w)"
  by (auto simp: lamp_is_on_def lamp_is_off_def stm32_switch_on_def stm32_switch_off_def GPIO_SetBits_def GPIO_ResetBits_def
      bit_eq_iff bit_simps)

lemma evert_levels:
  "lamp_is_on sw w \<Longrightarrow> lamp_is_off sw (stm32_switch_evert (Some sw) w)"
  "lamp_is_off sw w \<Longrightarrow> lamp_is_on sw (stm32_switch_evert (Some sw) w)"
  by (auto simp: lamp_is_on_def lamp_is_off_def stm32_switch_evert_def GPIO_ToggleBits_def bit_eq_iff bit_simps split: if_splits)

lemma on_not_off: "pin sw \<noteq> 0 \<Longrightarrow> lamp_is_off sw w \<Longrightarrow> \<not> lamp_is_on sw w"
  by (auto simp: lamp_is_on_def lamp_is_off_def split: if_splits)

subsection \<open>A message\<close>

text \<open>The state at the beginning of period number \<open>j\<close>: the lamp is on in the even periods.\<close>

definition msg_at :: "switch_type \<Rightarrow> nat \<Rightarrow> nat \<Rightarrow> nat \<Rightarrow> nat \<Rightarrow> BreatheMsgLedType \<times> board \<Rightarrow> bool" where
  "msg_at sw n on off j s \<longleftrightarrow> sw_led (fst s) = Some sw \<and> msg_count (fst s) = n \<and> count_light (fst s) = j \<and>
     on_cycle (fst s) = on \<and> off_cycle (fst s) = off \<and>
     timer_msg (fst s) = Some \<lparr>init_tick = (if even j then on else off), activated = True\<rparr> \<and>
     (if even j then lamp_is_on sw (snd s) else lamp_is_off sw (snd s))"

lemma msg_step:
  assumes "msg_at sw n on off j s" "n < 2147483648" "Suc j < 2 * n"
  shows "msg_at sw n on off (Suc j) (msg_control_handle s)"
proof -
  have "u32_add j 1 = Suc j" "u32_mul n 2 = 2 * n" using assms(2,3) by (simp_all add: u32_simps)
  then show ?thesis using assms evert_levels [of sw "snd s"]
    by (cases s) (auto simp: msg_at_def msg_control_handle_def rt_timer_set_time_def Let_def even_iff_mod_2_eq_zero [symmetric])
qed

lemma msg_last:
  assumes "msg_at sw n on off j s" "n < 2147483648" "Suc j = 2 * n"
  shows "\<exists>m w t. msg_control_handle s = (m, w) \<and> lamp_is_off sw w \<and> sw_led m = Some sw \<and>
    timer_msg m = Some t \<and> \<not> activated t"
proof -
  have "u32_add j 1 = Suc j" "u32_mul n 2 = 2 * n" "n \<noteq> 0" using assms(2,3) by (simp_all add: u32_simps)
  then show ?thesis using assms switch_levels(2) [of sw]
    by (cases s) (auto simp: msg_at_def msg_control_handle_def rt_timer_stop_def Let_def)
qed

lemma msg_endless:
  assumes "msg_at sw 0 on off j s" "j < 2"
  shows "msg_at sw 0 on off (Suc j mod 2) (msg_control_handle s)"
proof -
  have "u32_add j 1 = Suc j" "j = 0 \<or> j = 1" using assms(2) by (auto simp: u32_simps)
  then show ?thesis using assms evert_levels [of sw "snd s"]
    by (cases s) (auto simp: msg_at_def msg_control_handle_def rt_timer_set_time_def Let_def)
qed

abbreviation msg_period :: "nat \<Rightarrow> nat \<Rightarrow> nat \<Rightarrow> bool \<times> nat" where
  "msg_period on off i \<equiv> (even i, if even i then on else off)"

lemma msg_periods_step:
  assumes "msg_at sw n on off j s" "pin sw \<noteq> 0"
  shows "msg_periods (Suc k) s = (case msg_periods k (msg_control_handle s) of (ps, s') \<Rightarrow> (msg_period on off j # ps, s'))"
  using assms on_not_off [of sw "snd s"] by (cases s) (auto simp: msg_at_def split: if_splits prod.splits)

lemma msg_periods_stopped:
  "sw_led m = Some sw \<Longrightarrow> timer_msg m = Some t \<Longrightarrow> \<not> activated t \<Longrightarrow> msg_periods k (m, w) = ([], (m, w))"
  by (cases k) auto

lemma msg_periods_counted:
  assumes "msg_at sw n on off j s" "n < 2147483648" "pin sw \<noteq> 0" "j < 2 * n"
  shows "\<exists>m w t. msg_periods (2 * n - j + k) s = (map (msg_period on off) [j..<2 * n], m, w) \<and> lamp_is_off sw w \<and>
    timer_msg m = Some t \<and> \<not> activated t"
  using assms
proof (induction "2 * n - j" arbitrary: j s)
  case (Suc r)
  have c: "2 * n - j + k = Suc (2 * n - Suc j + k)" using Suc.prems(4) by simp
  show ?case
  proof (cases "Suc j = 2 * n")
    case True
    then obtain m w t where "msg_control_handle s = (m, w)" "lamp_is_off sw w" "sw_led m = Some sw" "timer_msg m = Some t" "\<not> activated t"
      using msg_last [OF Suc.prems(1,2)] by blast
    then show ?thesis using msg_periods_step [OF Suc.prems(1,3)] msg_periods_stopped [of m] True Suc.prems(4)
      by (simp add: c upt_conv_Cons)
  next
    case False
    then obtain m w t where "msg_periods (2 * n - Suc j + k) (msg_control_handle s) = (map (msg_period on off) [Suc j..<2 * n], m, w)"
      "lamp_is_off sw w" "timer_msg m = Some t" "\<not> activated t"
      using Suc.hyps(1) [OF _ msg_step [OF Suc.prems(1,2)] Suc.prems(2,3)] Suc.hyps(2) Suc.prems(4) by fastforce
    then show ?thesis using msg_periods_step [OF Suc.prems(1,3)] Suc.prems(4) by (simp add: c upt_conv_Cons)
  qed
qed simp

lemma msg_periods_endless:
  assumes "msg_at sw 0 on off (j mod 2) s" "pin sw \<noteq> 0"
  shows "\<exists>s'. msg_periods k s = (map (msg_period on off) [j..<j + k], s') \<and> msg_at sw 0 on off ((j + k) mod 2) s'"
  using assms
proof (induction k arbitrary: j s)
  case (Suc k)
  have "msg_at sw 0 on off (Suc j mod 2) (msg_control_handle s)"
    using msg_endless [OF Suc.prems(1)] by (simp add: mod_Suc_eq)
  then obtain s' where "msg_periods k (msg_control_handle s) = (map (msg_period on off) [Suc j..<Suc j + k], s')"
    "msg_at sw 0 on off ((Suc j + k) mod 2) s'"
    using Suc.IH Suc.prems(2) by blast
  then show ?case using msg_periods_step [OF Suc.prems] by (simp add: upt_conv_Cons del: upt_Suc)
qed simp

lemma breathe_on_starts:
  assumes "sw_led m = Some sw" "timer_msg m = Some t"
  shows "\<exists>s. breathe_msg_led_on (Some m) n False w = (True, Some (fst s), snd s) \<and> msg_at sw n (on_cycle m) (off_cycle m) 0 s"
  using assms switch_levels(1) [of sw w]
  by (auto simp: breathe_msg_led_on_def msg_at_def rt_timer_set_time_def rt_timer_stop_def rt_timer_start_def Let_def)

text \<open>Fact. A message of \<open>n\<close> flashes lights the lamp for \<open>on_cycle\<close> ticks and darkens it for \<open>off_cycle\<close> ticks
  \<open>n\<close> times in turn; then the timer is stopped, and the lamp is and stays dark. With a count of zero the lamp
  flashes for ever.\<close>

theorem message_lamp_flashes:
  assumes "sw_led m = Some sw" "timer_msg m = Some t" "pin sw \<noteq> 0" "n < 2147483648"
  shows "\<exists>m1 w1. breathe_msg_led_on (Some m) n False w = (True, Some m1, w1) \<and>
    (if n = 0
     then \<exists>s. msg_periods k (m1, w1) = (map (\<lambda>i. (even i, if even i then on_cycle m else off_cycle m)) [0..<k], s)
     else \<exists>m2 w2 t2. msg_periods (2 * n + k) (m1, w1) =
         (map (\<lambda>i. (even i, if even i then on_cycle m else off_cycle m)) [0..<2 * n], m2, w2) \<and>
       lamp_is_off sw w2 \<and> timer_msg m2 = Some t2 \<and> \<not> activated t2)"
proof -
  obtain s where s: "breathe_msg_led_on (Some m) n False w = (True, Some (fst s), snd s)"
    "msg_at sw n (on_cycle m) (off_cycle m) 0 s" using breathe_on_starts [OF assms(1,2)] by blast
  show ?thesis
  proof (cases "n = 0")
    case True
    then show ?thesis using s msg_periods_endless [of sw "on_cycle m" "off_cycle m" 0 s k] assms(3) by auto
  next
    case False
    then show ?thesis using s msg_periods_counted [OF s(2) assms(4,3), of k] by auto
  qed
qed

theorem message_lamp_flashes_witness:
  "\<exists>m1 w1. breathe_msg_led_on (Some \<lparr>sw_led = Some \<lparr>gpio = GPIOA, pin = 2, valid = False\<rparr>,
      timer_msg = Some \<lparr>init_tick = 0, activated = False\<rparr>, msg_count = 0, count_light = 0, on_cycle = 100, off_cycle = 50\<rparr>) 2 False
      \<lparr>APB2ENR = 0, MAPR = 0, MAPR2 = 0, CRL = \<lambda>_. 0, CRH = \<lambda>_. 0, ODR = \<lambda>_. 0, shown = []\<rparr> = (True, Some m1, w1) \<and>
    fst (msg_periods 9 (m1, w1)) = [(True, 100), (False, 50), (True, 100), (False, 50)]"
  using message_lamp_flashes [of "\<lparr>sw_led = Some \<lparr>gpio = GPIOA, pin = 2, valid = False\<rparr>,
      timer_msg = Some \<lparr>init_tick = 0, activated = False\<rparr>, msg_count = 0, count_light = 0, on_cycle = 100, off_cycle = 50\<rparr>"
      "\<lparr>gpio = GPIOA, pin = 2, valid = False\<rparr>" "\<lparr>init_tick = 0, activated = False\<rparr>" 2
      "\<lparr>APB2ENR = 0, MAPR = 0, MAPR2 = 0, CRL = \<lambda>_. 0, CRH = \<lambda>_. 0, ODR = \<lambda>_. 0, shown = []\<rparr>" 5]
  by (auto simp: upt_rec)


subsection \<open>Configuring pins\<close>

text \<open>The four configuration bits of a pin.\<close>

definition pin_mode :: "board \<Rightarrow> gpio_port \<Rightarrow> nat \<Rightarrow> u32" where
  "pin_mode w p k = (if k < 8 then drop_bit (4 * k) (CRL w p) else drop_bit (4 * (k - 8)) (CRH w p)) AND 0x0F"

lemma bit_15: "bit (0x0F :: int) j \<longleftrightarrow> j < 4"
proof -
  have "(0x0F :: int) = mask 4" by (simp add: mask_eq_exp_minus_1)
  then show ?thesis by (simp only: bit_mask_iff) auto
qed

lemma selected: "k < 16 \<Longrightarrow> (ucast (ps :: u16) AND push_bit k (1 :: u32) = push_bit k 1) = bit ps k"
proof
  assume "k < 16" "ucast ps AND push_bit k (1 :: u32) = push_bit k 1"
  then have "bit (ucast ps AND push_bit k (1 :: u32)) k" by (simp add: bit_simps)
  then show "bit ps k" by (simp add: bit_simps)
next
  assume "bit ps k"
  then show "ucast ps AND push_bit k (1 :: u32) = push_bit k 1"
    by (intro bit_word_eqI) (auto simp: bit_simps dest: bit_imp_le_length)
qed

lemma small_bits:
  assumes "(x :: u32) < 16" "4 \<le> m"
  shows "\<not> bit x m"
proof
  assume "bit x m"
  then have "bit (unat x) m" by (auto simp: bit_unsigned_iff dest: bit_imp_le_length)
  then have "odd (unat x div 2 ^ m)" by (simp add: bit_iff_odd)
  moreover have "unat x < 2 ^ m"
    using assms power_increasing [of 4 m "2 :: nat"] by (simp add: word_less_nat_alt)
  ultimately show False by simp
qed

lemma init_pin_bits:
  assumes "mode \<noteq> GPIO_Mode_IPD" "mode \<noteq> GPIO_Mode_IPU" "i + base < 16" "i < 8" "currentmode < 16"
  shows "\<exists>t'. init_pin x ps mode currentmode base i (t, w) = (t', w) \<and>
    (\<forall>j < 32. bit t' j = (if j div 4 = i \<and> bit ps (i + base) then bit currentmode (j mod 4) else bit t j))"
proof (cases "bit ps (i + base)")
  case False
  then show ?thesis using selected [OF assms(3), of ps] by (auto simp: init_pin_def Let_def)
next
  case True
  let ?t = "(t AND NOT (push_bit (4 * i) 0x0F)) OR push_bit (4 * i) currentmode"
  note small = small_bits [OF assms(5)]
  have "bit ?t j = (if j div 4 = i then bit currentmode (j mod 4) else bit t j)" if "j < 32" for j
  proof -
    have "j div 4 = i \<longleftrightarrow> 4 * i \<le> j \<and> j - 4 * i < 4" by auto
    moreover have "j div 4 = i \<Longrightarrow> j - 4 * i = j mod 4" by (metis minus_mult_div_eq_mod)
    ultimately show ?thesis using that small [of "j - 4 * i"] by (auto simp: bit_simps bit_15 not_less)
  qed
  then show ?thesis using True selected [OF assms(3), of ps] assms(1,2) by (auto simp: init_pin_def Let_def)
qed


lemma init_pins_bits:
  assumes "mode \<noteq> GPIO_Mode_IPD" "mode \<noteq> GPIO_Mode_IPU" "base \<le> 8" "n \<le> 8" "currentmode < 16"
  shows "\<exists>t'. fold (init_pin x ps mode currentmode base) [0..<n] (t, w) = (t', w) \<and>
    (\<forall>j < 32. bit t' j = (if j div 4 < n \<and> bit ps (j div 4 + base) then bit currentmode (j mod 4) else bit t j))"
  using assms(4)
proof (induction n)
  case (Suc n)
  then obtain t1 where 1: "fold (init_pin x ps mode currentmode base) [0..<n] (t, w) = (t1, w)"
    "\<forall>j < 32. bit t1 j = (if j div 4 < n \<and> bit ps (j div 4 + base) then bit currentmode (j mod 4) else bit t j)" by auto
  obtain t2 where 2: "init_pin x ps mode currentmode base n (t1, w) = (t2, w)"
    "\<forall>j < 32. bit t2 j = (if j div 4 = n \<and> bit ps (n + base) then bit currentmode (j mod 4) else bit t1 j)"
    using init_pin_bits [OF assms(1,2) _ _ assms(5), of n base x ps t1 w] Suc.prems assms(3) by auto
  show ?case using 1 2 by (intro exI [of _ t2]) (auto simp: less_Suc_eq)
qed simp

text \<open>The pins that \<open>GPIO_Init\<close> names get the mode, and every other pin of every port keeps its own.\<close>

lemma nibble:
  assumes "k < 8"
  shows "(drop_bit (4 * k) t AND 0x0F = drop_bit (4 * k) t' AND (0x0F :: u32)) = (\<forall>j < 32. j div 4 = k \<longrightarrow> bit t j = bit t' j)"
    "c < 16 \<Longrightarrow> (drop_bit (4 * k) t AND 0x0F = c) = (\<forall>j < 32. j div 4 = k \<longrightarrow> bit t j = bit c (j mod 4))"
proof -
  have i: "(\<forall>m < 4. P (4 * k + m)) = (\<forall>j < 32. j div 4 = k \<longrightarrow> P j)" for P
  proof
    assume a: "\<forall>m < 4. P (4 * k + m)"
    have "P j" if "j div 4 = k" for j using a [rule_format, of "j mod 4"] that by (simp add: mult.commute [of 4 k]) (metis mult_div_mod_eq mult.commute)
    then show "\<forall>j < 32. j div 4 = k \<longrightarrow> P j" by blast
  qed (use assms in auto)
  have n: "bit (drop_bit (4 * k) t AND (0x0F :: u32)) m = (m < 4 \<and> bit t (4 * k + m))" for m and t :: u32
    by (auto simp: bit_simps bit_15)
  show "(drop_bit (4 * k) t AND 0x0F = drop_bit (4 * k) t' AND (0x0F :: u32)) = (\<forall>j < 32. j div 4 = k \<longrightarrow> bit t j = bit t' j)"
    unfolding i [symmetric]
  proof
    assume a: "drop_bit (4 * k) t AND 0x0F = drop_bit (4 * k) t' AND (0x0F :: u32)"
    show "\<forall>m < 4. bit t (4 * k + m) = bit t' (4 * k + m)" using n [of t] n [of t'] a by metis
  qed (auto intro!: bit_word_eqI simp: n)
  assume "c < 16"
  then have "(drop_bit (4 * k) t AND 0x0F = c) = (\<forall>m < 4. bit t (4 * k + m) = bit c m)"
  proof (intro iffI)
    assume a: "drop_bit (4 * k) t AND 0x0F = c"
    show "\<forall>m < 4. bit t (4 * k + m) = bit c m" using n [of t] unfolding a by metis
  next
    assume a: "\<forall>m < 4. bit t (4 * k + m) = bit c m"
    show "drop_bit (4 * k) t AND 0x0F = c"
      by (rule bit_word_eqI) (use a small_bits [OF \<open>c < 16\<close>] n [of t] in \<open>metis not_le\<close>)
  qed
  also have "\<dots> = (\<forall>m < 4. bit t (4 * k + m) = bit c ((4 * k + m) mod 4))" by auto
  finally show "(drop_bit (4 * k) t AND 0x0F = c) = (\<forall>j < 32. j div 4 = k \<longrightarrow> bit t j = bit c (j mod 4))"
    unfolding i [where P = "\<lambda>j. bit t j = bit c (j mod 4)"] .
qed


lemma nibble_kept:
  "k < 8 \<Longrightarrow> (\<And>j. j < 32 \<Longrightarrow> j div 4 = k \<Longrightarrow> bit t j = bit t' j) \<Longrightarrow> drop_bit (4 * k) t AND 0x0F = drop_bit (4 * k) t' AND (0x0F :: u32)"
  using nibble(1) by blast

lemma nibble_is:
  "k < 8 \<Longrightarrow> c < 16 \<Longrightarrow> (\<And>j. j < 32 \<Longrightarrow> j div 4 = k \<Longrightarrow> bit t j = bit c (j mod 4)) \<Longrightarrow> drop_bit (4 * k) t AND 0x0F = (c :: u32)"
  using nibble(2) by blast

lemma low_pins: "((ps :: u16) AND 0x00FF \<noteq> 0) = (\<exists>k < 8. bit ps k)"
proof -
  have m: "(0x00FF :: u16) = mask 8" by (simp add: mask_eq_exp_minus_1)
  have "bit (ps AND 0x00FF) k = (k < 8 \<and> bit ps k)" for k unfolding m by (auto simp: bit_and_iff bit_mask_iff dest: bit_imp_le_length)
  then show ?thesis by (metis bit_0_eq bit_word_eqI bot_apply bot_bool_def)
qed

lemma high_pins: "((ps :: u16) > 0x00FF) = (\<exists>k. 8 \<le> k \<and> bit ps k)"
proof -
  have "ps \<le> 0x00FF \<longleftrightarrow> unat ps < 2 ^ 8" by (auto simp: word_le_nat_alt)
  also have "\<dots> \<longleftrightarrow> take_bit 8 (unat ps) = unat ps" by (simp add: take_bit_nat_eq_self_iff)
  also have "\<dots> \<longleftrightarrow> (\<forall>k. bit ps k \<longrightarrow> k < 8)"
    by (auto simp: bit_eq_iff [where 'a = nat] bit_take_bit_iff bit_unsigned_iff dest: bit_imp_le_length)
  finally show ?thesis by (auto simp: not_le [symmetric])
qed

lemma GPIO_Init_modes:
  assumes "mode = GPIO_Mode_Out_PP" "speed = GPIO_Speed_50MHz" "k < 16"
  shows "pin_mode (GPIO_Init x ps mode speed w) y k = (if y = x \<and> bit ps k then 3 else pin_mode w y k)"
    "APB2ENR (GPIO_Init x ps mode speed w) = APB2ENR w" "ODR (GPIO_Init x ps mode speed w) = ODR w"
    "MAPR (GPIO_Init x ps mode speed w) = MAPR w" "shown (GPIO_Init x ps mode speed w) = shown w"
proof -
  have m: "mode \<noteq> GPIO_Mode_IPD" "mode \<noteq> GPIO_Mode_IPU" "mode AND 0x10 \<noteq> 0" "mode AND 0x0F OR speed = 3"
    by (simp_all add: assms GPIO_Mode_Out_PP_def GPIO_Mode_IPD_def GPIO_Mode_IPU_def GPIO_Speed_50MHz_def)
  obtain l where l: "fold (init_pin x ps mode 3 0) [0..<8] (CRL w x, w) = (l, w)"
    "\<forall>j < 32. bit l j = (if j div 4 < 8 \<and> bit ps (j div 4) then bit (3 :: u32) (j mod 4) else bit (CRL w x) j)"
    using init_pins_bits [OF m(1,2), of 0 8 3 x ps "CRL w x" w] by auto
  let ?w = "if ps AND 0x00FF \<noteq> 0 then w\<lparr>CRL := (CRL w)(x := l)\<rparr> else w"
  obtain u where u: "fold (init_pin x ps mode 3 8) [0..<8] (CRH w x, ?w) = (u, ?w)"
    "\<forall>j < 32. bit u j = (if j div 4 < 8 \<and> bit ps (j div 4 + 8) then bit (3 :: u32) (j mod 4) else bit (CRH w x) j)"
    using init_pins_bits [OF m(1,2), of 8 8 3 x ps "CRH w x" ?w] by auto
  have r: "GPIO_Init x ps mode speed w = (if ps > 0x00FF then ?w\<lparr>CRH := (CRH ?w)(x := u)\<rparr> else ?w)"
    using l(1) u(1) m(3,4) by (cases "ps AND 0x00FF = 0") (simp_all add: GPIO_Init_def Let_def)
  then show "APB2ENR (GPIO_Init x ps mode speed w) = APB2ENR w" "ODR (GPIO_Init x ps mode speed w) = ODR w"
    "MAPR (GPIO_Init x ps mode speed w) = MAPR w" "shown (GPIO_Init x ps mode speed w) = shown w"
    by simp_all
  show "pin_mode (GPIO_Init x ps mode speed w) y k = (if y = x \<and> bit ps k then 3 else pin_mode w y k)"
  proof (cases "y = x")
    case False
    then show ?thesis by (simp add: r pin_mode_def)
  next
    case True
    have lo: "drop_bit (4 * k) l AND 0x0F = (if bit ps k then 3 else drop_bit (4 * k) (CRL w x) AND 0x0F)" if "k < 8"
      using that l(2) by (auto intro!: nibble_kept nibble_is)
    have hi: "drop_bit (4 * (k - 8)) u AND 0x0F = (if bit ps k then 3 else drop_bit (4 * (k - 8)) (CRH w x) AND 0x0F)" if "8 \<le> k"
    proof -
      have "k - 8 < 8" "k - 8 + 8 = k" using that assms(3) by simp_all
      then show ?thesis using u(2) by (auto intro!: nibble_kept nibble_is)
    qed
    show ?thesis using True lo hi low_pins [of ps] high_pins [of ps] by (auto simp: r pin_mode_def)
  qed
qed

end
