(* ===== verification/LedBoard.thy ===== *)
theory LedBoard imports GpioLib
begin

text \<open>
  The lamps of the BMLG_LW board: \<open>bsp/BMLG_LW/app/gpio.h\<close> and \<open>gpio.c\<close>. Nineteen places have a red and an orange lamp
  each; \<open>Led_ModeSelect\<close> switches one of them and the functions \<open>twinkle_mode\<close> are the light shows. The theorems
  say, for every mode and every state of the board, which pictures are shown and for how many ticks.
\<close>

definition GPIO_Pin :: "nat \<Rightarrow> u16" where
  "GPIO_Pin k = push_bit k 1"

text \<open>The pins of the macros \<open>red1_ON\<close> to \<open>red19_OFF\<close> and \<open>orange1_ON\<close> to \<open>orange19_OFF\<close>.\<close>

definition red_leds :: "(gpio_port \<times> nat) list" where
  "red_leds =
    [(GPIOA, 12), (GPIOC, 11), (GPIOD, 5), (GPIOG, 12), (GPIOG, 15), (GPIOE, 4), (GPIOC, 14),
     (GPIOE, 2), (GPIOE, 1), (GPIOE, 0), (GPIOE, 14), (GPIOE, 8), (GPIOF, 14), (GPIOF, 11), (GPIOB, 1),
     (GPIOB, 10), (GPIOB, 11), (GPIOB, 12), (GPIOB, 13)]"

definition orange_leds :: "(gpio_port \<times> nat) list" where
  "orange_leds =
    [(GPIOC, 10), (GPIOA, 15), (GPIOD, 7), (GPIOD, 6), (GPIOB, 4), (GPIOC, 13), (GPIOE, 5), (GPIOE, 6),
     (GPIOB, 9), (GPIOB, 5), (GPIOE, 15), (GPIOE, 7), (GPIOF, 15), (GPIOF, 12), (GPIOB, 0), (GPIOD, 8),
     (GPIOD, 12), (GPIOB, 14), (GPIOB, 15)]"

definition led_ON :: "gpio_port \<times> nat \<Rightarrow> board \<Rightarrow> board" where
  "led_ON l = (case l of (p, k) \<Rightarrow> GPIO_SetBits p (GPIO_Pin k))"

definition led_OFF :: "gpio_port \<times> nat \<Rightarrow> board \<Rightarrow> board" where
  "led_OFF l = (case l of (p, k) \<Rightarrow> GPIO_ResetBits p (GPIO_Pin k))"

abbreviation red :: u8 where "red \<equiv> 0"
abbreviation orange :: u8 where "orange \<equiv> 1"

definition led_case :: "gpio_port \<times> nat \<Rightarrow> gpio_port \<times> nat \<Rightarrow> u8 \<Rightarrow> bool \<Rightarrow> board \<Rightarrow> board" where
  "led_case r a sel control w =
     (if sel = 0 then (if \<not> control then led_OFF r w else led_ON r w)
      else (if \<not> control then led_OFF a w else led_ON a w))"

definition Led_ModeSelect :: "u8 \<Rightarrow> u8 \<Rightarrow> bool \<Rightarrow> board \<Rightarrow> board" where
  "Led_ModeSelect num sel control w =
    (if num = 0x00 then led_case (red_leds ! 0) (orange_leds ! 0) sel control w
     else if num = 0x01 then led_case (red_leds ! 1) (orange_leds ! 1) sel control w
     else if num = 0x02 then led_case (red_leds ! 2) (orange_leds ! 2) sel control w
     else if num = 0x03 then led_case (red_leds ! 3) (orange_leds ! 3) sel control w
     else if num = 0x04 then led_case (red_leds ! 4) (orange_leds ! 4) sel control w
     else if num = 0x05 then led_case (red_leds ! 5) (orange_leds ! 5) sel control w
     else if num = 0x06 then led_case (red_leds ! 6) (orange_leds ! 6) sel control w
     else if num = 0x07 then led_case (red_leds ! 7) (orange_leds ! 7) sel control w
     else if num = 0x08 then led_case (red_leds ! 8) (orange_leds ! 8) sel control w
     else if num = 0x09 then led_case (red_leds ! 9) (orange_leds ! 9) sel control w
     else if num = 0x0a then led_case (red_leds ! 10) (orange_leds ! 10) sel control w
     else if num = 0x0b then led_case (red_leds ! 11) (orange_leds ! 11) sel control w
     else if num = 0x0c then led_case (red_leds ! 12) (orange_leds ! 12) sel control w
     else if num = 0x0d then led_case (red_leds ! 13) (orange_leds ! 13) sel control w
     else if num = 0x0e then led_case (red_leds ! 14) (orange_leds ! 14) sel control w
     else if num = 0x0f then led_case (red_leds ! 15) (orange_leds ! 15) sel control w
     else if num = 0x10 then led_case (red_leds ! 16) (orange_leds ! 16) sel control w
     else if num = 0x11 then led_case (red_leds ! 17) (orange_leds ! 17) sel control w
     else if num = 0x12 then led_case (red_leds ! 18) (orange_leds ! 18) sel control w
     else rt_thread_delay 2 w)"

definition GPIO_Remap_SWJ_JTAGDisable :: u32 where "GPIO_Remap_SWJ_JTAGDisable = 0x00300200"

definition led_gpio_init :: "board \<Rightarrow> board" where
  "led_gpio_init w =
    (let w = GPIO_PinRemapConfig GPIO_Remap_SWJ_JTAGDisable True w;
         w = RCC_APB2PeriphClockCmd (RCC_APB2Periph_GPIO GPIOA) True w;
         w = GPIO_Init GPIOA
            (GPIO_Pin 12 OR GPIO_Pin 15)
            GPIO_Mode_Out_PP GPIO_Speed_50MHz w;
         w = RCC_APB2PeriphClockCmd (RCC_APB2Periph_GPIO GPIOB) True w;
         w = GPIO_Init GPIOB
            (GPIO_Pin 0 OR GPIO_Pin 1 OR GPIO_Pin 4 OR GPIO_Pin 5 OR GPIO_Pin 9
              OR GPIO_Pin 10 OR GPIO_Pin 11 OR GPIO_Pin 12 OR GPIO_Pin 13 OR GPIO_Pin 14
              OR GPIO_Pin 15)
            GPIO_Mode_Out_PP GPIO_Speed_50MHz w;
         w = RCC_APB2PeriphClockCmd (RCC_APB2Periph_GPIO GPIOC) True w;
         w = GPIO_Init GPIOC
            (GPIO_Pin 10 OR GPIO_Pin 11 OR GPIO_Pin 13 OR GPIO_Pin 14)
            GPIO_Mode_Out_PP GPIO_Speed_50MHz w;
         w = RCC_APB2PeriphClockCmd (RCC_APB2Periph_GPIO GPIOD) True w;
         w = GPIO_Init GPIOD
            (GPIO_Pin 5 OR GPIO_Pin 6 OR GPIO_Pin 7 OR GPIO_Pin 8 OR GPIO_Pin 12
              OR GPIO_Pin 14 OR GPIO_Pin 15)
            GPIO_Mode_Out_PP GPIO_Speed_50MHz w;
         w = RCC_APB2PeriphClockCmd (RCC_APB2Periph_GPIO GPIOE) True w;
         w = GPIO_Init GPIOE
            (GPIO_Pin 0 OR GPIO_Pin 1 OR GPIO_Pin 2 OR GPIO_Pin 4 OR GPIO_Pin 5
              OR GPIO_Pin 6 OR GPIO_Pin 7 OR GPIO_Pin 8 OR GPIO_Pin 14 OR GPIO_Pin 15)
            GPIO_Mode_Out_PP GPIO_Speed_50MHz w;
         w = RCC_APB2PeriphClockCmd (RCC_APB2Periph_GPIO GPIOF) True w;
         w = GPIO_Init GPIOF
            (GPIO_Pin 11 OR GPIO_Pin 12 OR GPIO_Pin 14 OR GPIO_Pin 15)
            GPIO_Mode_Out_PP GPIO_Speed_50MHz w;
         w = RCC_APB2PeriphClockCmd (RCC_APB2Periph_GPIO GPIOG) True w;
         w = GPIO_Init GPIOG
            (GPIO_Pin 12 OR GPIO_Pin 15)
            GPIO_Mode_Out_PP GPIO_Speed_50MHz w;
         w = led_OFF (orange_leds ! 1) w
     in led_OFF (orange_leds ! 4) w)"

text \<open>\<open>for (num = 0; num < n; num++)\<close> with a byte \<open>num\<close>.\<close>

definition for_num :: "nat \<Rightarrow> (u8 \<Rightarrow> board \<Rightarrow> board) \<Rightarrow> board \<Rightarrow> board" where
  "for_num n body = fold body (map of_nat [0..<n])"

definition twinkle_modeon :: "board \<Rightarrow> board" where
  "twinkle_modeon w =
    (for_num 19 (\<lambda>num w.
       let w = Led_ModeSelect num red True w in
       Led_ModeSelect num orange True w) w)"

definition twinkle_modeoff :: "board \<Rightarrow> board" where
  "twinkle_modeoff w =
    (for_num 19 (\<lambda>num w.
       let w = Led_ModeSelect num red False w in
       Led_ModeSelect num orange False w) w)"

definition twinkle_mode1 :: "board \<Rightarrow> board" where
  "twinkle_mode1 w =
    (let w = for_num 19 (\<lambda>num w.
       Led_ModeSelect num red True w) w in
     let w = rt_thread_delay 50 w in
     let w = for_num 19 (\<lambda>num w.
       Led_ModeSelect num red False w) w in
     rt_thread_delay 80 w)"

definition twinkle_mode2 :: "board \<Rightarrow> board" where
  "twinkle_mode2 w =
    (let w = for_num 19 (\<lambda>num w.
       Led_ModeSelect num orange True w) w in
     let w = rt_thread_delay 50 w in
     let w = for_num 19 (\<lambda>num w.
       Led_ModeSelect num orange False w) w in
     rt_thread_delay 80 w)"

definition twinkle_mode3 :: "board \<Rightarrow> board" where
  "twinkle_mode3 w =
    (let w = for_num 19 (\<lambda>num w.
       let w = Led_ModeSelect num red True w in
       Led_ModeSelect num orange True w) w in
     let w = rt_thread_delay 50 w in
     let w = for_num 19 (\<lambda>num w.
       let w = Led_ModeSelect num red False w in
       Led_ModeSelect num orange False w) w in
     rt_thread_delay 80 w)"

definition twinkle_mode4 :: "board \<Rightarrow> board" where
  "twinkle_mode4 w =
    (let w = for_num 19 (\<lambda>num w.
       let w = Led_ModeSelect num red True w in
       rt_thread_delay 5 w) w in
     let w = rt_thread_delay 20 w in
     for_num 19 (\<lambda>num w.
       Led_ModeSelect num red False w) w)"

definition twinkle_mode5 :: "board \<Rightarrow> board" where
  "twinkle_mode5 w =
    (let w = for_num 19 (\<lambda>num w.
       let w = Led_ModeSelect num orange True w in
       rt_thread_delay 5 w) w in
     let w = rt_thread_delay 40 w in
     for_num 19 (\<lambda>num w.
       Led_ModeSelect num orange False w) w)"

definition twinkle_mode6 :: "board \<Rightarrow> board" where
  "twinkle_mode6 w =
    (let w = for_num 19 (\<lambda>num w.
       let w = Led_ModeSelect num red True w in
       let w = Led_ModeSelect num orange True w in
       rt_thread_delay 5 w) w in
     let w = rt_thread_delay 40 w in
     for_num 19 (\<lambda>num w.
       let w = Led_ModeSelect num red False w in
       Led_ModeSelect num orange False w) w)"

definition twinkle_mode7 :: "board \<Rightarrow> board" where
  "twinkle_mode7 w =
    (for_num 20 (\<lambda>num w.
       let w = Led_ModeSelect num red True w in
       let w = Led_ModeSelect (num - 1) red False w in
       rt_thread_delay 30 w) w)"

definition twinkle_mode8 :: "board \<Rightarrow> board" where
  "twinkle_mode8 w =
    (for_num 20 (\<lambda>num w.
       let w = Led_ModeSelect num orange True w in
       let w = Led_ModeSelect (num - 1) orange False w in
       rt_thread_delay 30 w) w)"

definition twinkle_mode9 :: "board \<Rightarrow> board" where
  "twinkle_mode9 w =
    (for_num 20 (\<lambda>num w.
       let w = Led_ModeSelect num red True w in
       let w = Led_ModeSelect num orange True w in
       let w = Led_ModeSelect (num - 1) red False w in
       let w = Led_ModeSelect (num - 1) orange False w in
       rt_thread_delay 30 w) w)"

definition twinkle_mode10 :: "board \<Rightarrow> board" where
  "twinkle_mode10 w =
    (for_num 10 (\<lambda>num w.
       let w = Led_ModeSelect (9 + num) red True w in
       let w = Led_ModeSelect (9 - num) red True w in
       rt_thread_delay 15 w) w)"

definition twinkle_mode11 :: "board \<Rightarrow> board" where
  "twinkle_mode11 w =
    (for_num 10 (\<lambda>num w.
       let w = Led_ModeSelect (9 + num) orange True w in
       let w = Led_ModeSelect (9 - num) orange True w in
       rt_thread_delay 15 w) w)"

definition twinkle_mode12 :: "board \<Rightarrow> board" where
  "twinkle_mode12 w =
    (for_num 10 (\<lambda>num w.
       let w = Led_ModeSelect (9 + num) red True w in
       let w = Led_ModeSelect (9 - num) red True w in
       let w = Led_ModeSelect (9 + num) orange True w in
       let w = Led_ModeSelect (9 - num) orange True w in
       rt_thread_delay 15 w) w)"

definition twinkle_mode13 :: "board \<Rightarrow> board" where
  "twinkle_mode13 w =
    (for_num 10 (\<lambda>num w.
       let w = Led_ModeSelect (9 + num) red True w in
       let w = Led_ModeSelect (9 - num) red True w in
       let w = Led_ModeSelect (9 + num - 1) red False w in
       let w = Led_ModeSelect (9 - num + 1) red False w in
       rt_thread_delay 15 w) w)"

definition twinkle_mode14 :: "board \<Rightarrow> board" where
  "twinkle_mode14 w =
    (for_num 10 (\<lambda>num w.
       let w = Led_ModeSelect (9 + num) orange True w in
       let w = Led_ModeSelect (9 - num) orange True w in
       let w = Led_ModeSelect (9 + num - 1) orange False w in
       let w = Led_ModeSelect (9 - num + 1) orange False w in
       rt_thread_delay 15 w) w)"

definition twinkle_mode15 :: "board \<Rightarrow> board" where
  "twinkle_mode15 w =
    (for_num 10 (\<lambda>num w.
       let w = Led_ModeSelect (9 + num) red True w in
       let w = Led_ModeSelect (9 - num) red True w in
       let w = Led_ModeSelect (9 + num) orange True w in
       let w = Led_ModeSelect (9 - num) orange True w in
       let w = Led_ModeSelect (9 + num - 1) red False w in
       let w = Led_ModeSelect (9 - num + 1) red False w in
       let w = Led_ModeSelect (9 + num - 1) orange False w in
       let w = Led_ModeSelect (9 - num + 1) orange False w in
       rt_thread_delay 15 w) w)"

definition twinkle_mode16 :: "board \<Rightarrow> board" where
  "twinkle_mode16 w =
    (for_num 19 (\<lambda>num w.
       Led_ModeSelect num red True w) w)"

definition twinkle_mode17 :: "board \<Rightarrow> board" where
  "twinkle_mode17 w =
    (for_num 19 (\<lambda>num w.
       Led_ModeSelect num orange True w) w)"

text \<open>The switch over \<open>LED_Twinkle_Mode\<close> in \<open>LEDcontrol_thread_entry\<close>.\<close>

definition twinkle_switch :: "u8 \<Rightarrow> board \<Rightarrow> board" where
  "twinkle_switch mode w =
    (if mode = 0x00 then twinkle_modeoff w
     else if mode = 0x01 then twinkle_modeon w
     else if mode = 0x02 then twinkle_mode1 (twinkle_modeoff w)
     else if mode = 0x03 then twinkle_mode2 (twinkle_modeoff w)
     else if mode = 0x04 then twinkle_mode3 (twinkle_modeoff w)
     else if mode = 0x05 then twinkle_mode4 (twinkle_modeoff w)
     else if mode = 0x06 then twinkle_mode5 (twinkle_modeoff w)
     else if mode = 0x07 then twinkle_mode6 (twinkle_modeoff w)
     else if mode = 0x08 then twinkle_mode7 (twinkle_modeoff w)
     else if mode = 0x09 then twinkle_mode8 (twinkle_modeoff w)
     else if mode = 0x0a then twinkle_mode9 (twinkle_modeoff w)
     else if mode = 0x0b then twinkle_mode10 (twinkle_modeoff w)
     else if mode = 0x0c then twinkle_mode11 (twinkle_modeoff w)
     else if mode = 0x0d then twinkle_mode12 (twinkle_modeoff w)
     else if mode = 0x0e then twinkle_mode13 (twinkle_modeoff w)
     else if mode = 0x0f then twinkle_mode14 (twinkle_modeoff w)
     else if mode = 0x10 then twinkle_mode15 (twinkle_modeoff w)
     else if mode = 0x1a then twinkle_mode16 w
     else if mode = 0x1b then twinkle_mode17 w
     else rt_thread_delay 10 w)"


subsection \<open>Pictures\<close>

text \<open>A picture lists the red and the orange lamps that are lit; a film is a list of pictures with their ticks.\<close>

type_synonym picture = "bool list \<times> bool list"
type_synonym film = "(picture \<times> nat) list"

definition levels :: "(gpio_port \<Rightarrow> u16) \<Rightarrow> (gpio_port \<times> nat) list \<Rightarrow> bool list" where
  "levels d = map (\<lambda>l. bit (d (fst l)) (snd l))"

definition picture_of :: "(gpio_port \<Rightarrow> u16) \<Rightarrow> picture" where
  "picture_of d = (levels d red_leds, levels d orange_leds)"

definition film_of :: "((gpio_port \<Rightarrow> u16) \<times> nat) list \<Rightarrow> film" where
  "film_of = map (\<lambda>x. (picture_of (fst x), snd x))"

definition view :: "board \<Rightarrow> film \<times> picture" where
  "view w = (film_of (shown w), picture_of (ODR w))"

fun show_for :: "nat \<Rightarrow> film \<times> picture \<Rightarrow> film \<times> picture" where
  "show_for t (f, p) = (f @ [(p, t)], p)"

fun put_lamp :: "u8 \<Rightarrow> u8 \<Rightarrow> bool \<Rightarrow> film \<times> picture \<Rightarrow> film \<times> picture" where
  "put_lamp num sel control (f, r, a) =
     (if 19 \<le> num then show_for 2 (f, r, a)
      else if sel = 0 then (f, r[unat num := control], a) else (f, r, a[unat num := control]))"

lemma view_delay: "view (rt_thread_delay t w) = show_for t (view w)"
  by (simp add: view_def rt_thread_delay_def film_of_def)

lemma tables:
  "distinct (red_leds @ orange_leds)" "length red_leds = 19" "length orange_leds = 19"
  "\<forall>l \<in> set (red_leds @ orange_leds). snd l < 16"
  by (simp_all add: red_leds_def orange_leds_def)

lemma led_ODR:
  assumes "snd l < 16"
  shows "bit (ODR (led_ON l w) q) i = ((q, i) = l \<or> bit (ODR w q) i)"
    "bit (ODR (led_OFF l w) q) i = ((q, i) \<noteq> l \<and> bit (ODR w q) i)"
    "shown (led_ON l w) = shown w" "shown (led_OFF l w) = shown w"
  using assms by (cases l; auto simp: led_ON_def led_OFF_def GPIO_SetBits_def GPIO_ResetBits_def GPIO_Pin_def bit_simps
      dest: bit_imp_le_length)+

lemma levels_led:
  assumes "distinct T" "n < length T" "T ! n = l" "snd l < 16"
  shows "levels (ODR (led_ON l w)) T = (levels (ODR w) T)[n := True]" "levels (ODR (led_OFF l w)) T = (levels (ODR w) T)[n := False]"
proof -
  have t: "T ! i = l \<longleftrightarrow> i = n" if "i < length T" for i using assms(1-3) that nth_eq_iff_index_eq by blast
  show "levels (ODR (led_ON l w)) T = (levels (ODR w) T)[n := True]"
    by (rule nth_equalityI) (use assms(2) in \<open>auto simp: levels_def nth_list_update led_ODR [OF assms(4)] t\<close>)
  show "levels (ODR (led_OFF l w)) T = (levels (ODR w) T)[n := False]"
    by (rule nth_equalityI) (use assms(2) in \<open>auto simp: levels_def nth_list_update led_ODR [OF assms(4)] t\<close>)
qed

lemma levels_other:
  assumes "l \<notin> set T" "snd l < 16"
  shows "levels (ODR (led_ON l w)) T = levels (ODR w) T" "levels (ODR (led_OFF l w)) T = levels (ODR w) T"
  using assms by (auto simp: levels_def led_ODR)

lemma view_led_case:
  assumes "n < 19"
  shows "view (led_case (red_leds ! n) (orange_leds ! n) sel control w) = put_lamp (of_nat n) sel control (view w)"
proof -
  have r: "red_leds ! n \<in> set red_leds" "orange_leds ! n \<in> set orange_leds" using assms tables(2,3) by auto
  then have x: "red_leds ! n \<notin> set orange_leds" "orange_leds ! n \<notin> set red_leds" "snd (red_leds ! n) < 16" "snd (orange_leds ! n) < 16"
    using tables(1,4) by auto
  have u: "unat (of_nat n :: u8) = n" "\<not> 19 \<le> (of_nat n :: u8)"
    using assms by (auto simp: unat_of_nat word_le_nat_alt)
  have d: "distinct red_leds" "distinct orange_leds" using tables(1) by simp_all
  show ?thesis
    using levels_led [OF d(1), of n "red_leds ! n" w] levels_led [OF d(2), of n "orange_leds ! n" w]
      levels_other [OF x(1,3), of w] levels_other [OF x(2,4), of w] assms tables(2,3) x(3,4) u
    by (simp add: view_def picture_of_def led_case_def led_ODR)
qed

lemma select_cases:
  assumes "n < 19"
  shows "Led_ModeSelect (of_nat n) sel control w = led_case (red_leds ! n) (orange_leds ! n) sel control w"
proof -
  have "n \<in> set [0..<19]" using assms by simp
  also have "[0..<19] = [0, 1, 2, 3, 4, 5, 6, 7, 8, 9, 10, 11, 12, 13, 14, 15, 16, 17, 18]" by (simp add: upt_rec)
  finally have "n \<in> {0, 1, 2, 3, 4, 5, 6, 7, 8, 9, 10, 11, 12, 13, 14, 15, 16, 17, 18}" by simp
  then show ?thesis by (elim insertE) (simp_all add: Led_ModeSelect_def)
qed

lemma view_select: "view (Led_ModeSelect num sel control w) = put_lamp num sel control (view w)"
proof (cases "num < 19")
  case True
  then have "unat num < 19" by (simp add: word_less_nat_alt)
  then show ?thesis using select_cases [of "unat num" sel control w] view_led_case [of "unat num" sel control w] by simp
next
  case False
  then have "num \<noteq> n" if "n < 19" for n using that by auto
  then have "Led_ModeSelect num sel control w = rt_thread_delay 2 w" by (simp add: Led_ModeSelect_def)
  then show ?thesis using False by (cases "view w") (simp add: view_delay)
qed


subsection \<open>The shows\<close>

definition for_view :: "nat \<Rightarrow> (u8 \<Rightarrow> film \<times> picture \<Rightarrow> film \<times> picture) \<Rightarrow> film \<times> picture \<Rightarrow> film \<times> picture" where
  "for_view n body = fold body (map of_nat [0..<n])"

lemma view_for:
  assumes "\<And>num w. view (body num w) = body' num (view w)"
  shows "view (for_num n body w) = for_view n body' (view w)"
proof -
  have "view (fold body ks w) = fold body' ks (view w)" for ks
    by (induction ks arbitrary: w) (simp_all add: assms)
  then show ?thesis by (simp add: for_num_def for_view_def)
qed

text \<open>What a show adds to a film does not depend on the film.\<close>

definition adds :: "(film \<times> picture \<Rightarrow> film \<times> picture) \<Rightarrow> bool" where
  "adds g \<longleftrightarrow> (\<forall>f p. g (f, p) = (f @ fst (g ([], p)), snd (g ([], p))))"

lemma adds_show [intro!]: "adds (show_for t)"
  by (simp add: adds_def)

lemma adds_put [intro!]: "adds (put_lamp num sel control)"
  by (auto simp: adds_def)

lemma adds_comp [intro!]:
  assumes "adds g" "adds g'"
  shows "adds (g' \<circ> g)"
  unfolding adds_def comp_def
proof (intro allI)
  fix f p
  have "g' (g (f, p)) = g' (f @ fst (g ([], p)), snd (g ([], p)))" using assms(1) by (metis adds_def)
  also have "\<dots> = (f @ fst (g ([], p)) @ fst (g' ([], snd (g ([], p)))), snd (g' ([], snd (g ([], p)))))"
    using assms(2) unfolding adds_def by (metis append.assoc)
  also have "\<dots> = (f @ fst (g' (g ([], p))), snd (g' (g ([], p))))"
  proof -
    have "g' (g ([], p)) = (fst (g ([], p)) @ fst (g' ([], snd (g ([], p)))), snd (g' ([], snd (g ([], p)))))"
      using assms(2) unfolding adds_def by (metis prod.collapse)
    then show ?thesis by simp
  qed
  finally show "g' (g (f, p)) = (f @ fst (g' (g ([], p))), snd (g' (g ([], p))))" .
qed

lemma adds_for [intro!]:
  assumes "\<And>num. adds (body num)"
  shows "adds (for_view n body)"
proof -
  have "adds (fold body ks)" for ks
  proof (induction ks)
    case Nil
    then show ?case by (simp add: adds_def)
  next
    case (Cons k ks)
    then show ?case using adds_comp [OF assms [of k] Cons] by (simp add: comp_def)
  qed
  then show ?thesis by (simp add: for_view_def)
qed

lemma shows_dark:
  assumes "view w' = g (view w)" "adds g" "view w = (f, p)" "g ([], p) = (f', p')"
  shows "view w' = (f @ f', p')"
  using assms by (metis adds_def fst_conv snd_conv)

text \<open>The pictures of the shows: \<open>c\<close> is 0 for red, 1 for orange and 2 for both colours.\<close>

definition row :: "(nat \<Rightarrow> bool) \<Rightarrow> bool list" where
  "row P = map P [0..<19]"

definition colour :: "nat \<Rightarrow> (nat \<Rightarrow> bool) \<Rightarrow> picture" where
  "colour c P = (row (\<lambda>i. c \<noteq> 1 \<and> P i), row (\<lambda>i. c \<noteq> 0 \<and> P i))"

abbreviation all_lamps :: "nat \<Rightarrow> picture" where "all_lamps c \<equiv> colour c (\<lambda>_. True)"

definition dark :: picture where "dark = colour 2 (\<lambda>_. False)"

definition blinking :: "nat \<Rightarrow> film \<times> picture" where
  "blinking c = ([(all_lamps c, 50), (dark, 80)], dark)"

definition filling :: "nat \<Rightarrow> film \<times> picture" where
  "filling c = (map (\<lambda>n. (colour c (\<lambda>i. i \<le> n), 5)) [0..<19] @ [(all_lamps c, if c = 0 then 20 else 40)], dark)"

definition scanning :: "nat \<Rightarrow> film \<times> picture" where
  "scanning c = (let glitches = (if c = 2 then 2 else 1) in
     (replicate glitches (colour c (\<lambda>i. i = 0), 2) @ map (\<lambda>n. (colour c (\<lambda>i. i = n), 30)) [0..<19] @
      replicate glitches (colour c (\<lambda>i. i = 18), 2) @ [(dark, 30)], dark))"

definition spreading :: "nat \<Rightarrow> film \<times> picture" where
  "spreading c = (map (\<lambda>n. (colour c (\<lambda>i. 9 \<le> i + n \<and> i \<le> 9 + n), 15)) [0..<10], all_lamps c)"

definition parting :: "nat \<Rightarrow> film \<times> picture" where
  "parting c = (map (\<lambda>n. (colour c (\<lambda>i. i + n = 9 \<or> i = 9 + n), 15)) [0..<10], colour c (\<lambda>i. i = 0 \<or> i = 18))"

definition show_of :: "u8 \<Rightarrow> picture \<Rightarrow> film \<times> picture" where
  "show_of mode now =
     (if mode = 0 then ([], dark)
      else if mode = 1 then ([], all_lamps 2)
      else if mode \<le> 16 then
        (let c = (unat mode - 2) mod 3; k = (unat mode - 2) div 3 in
         if k = 0 then blinking c else if k = 1 then filling c else if k = 2 then scanning c
         else if k = 3 then spreading c else parting c)
      else if mode = 0x1a then ([], (fst (all_lamps 0), snd now))
      else if mode = 0x1b then ([], (fst now, snd (all_lamps 1)))
      else ([(now, 10)], now))"

subsection \<open>Every show\<close>

lemma film_mode1: "view w = (f, dark) \<Longrightarrow> view (twinkle_mode1 w) = (f @ fst (blinking 0), snd (blinking 0))"
proof (rule shows_dark [where g = "show_for 80 \<circ> (for_view 19 (\<lambda>num. put_lamp num red False)) \<circ> show_for 50 \<circ> (for_view 19 (\<lambda>num. put_lamp num red True))"])
  show "view (twinkle_mode1 w) = (show_for 80 \<circ> (for_view 19 (\<lambda>num. put_lamp num red False)) \<circ> show_for 50 \<circ> (for_view 19 (\<lambda>num. put_lamp num red True))) (view w)"
    by (simp add: twinkle_mode1_def Let_def view_delay view_select comp_def view_for [where body' = "\<lambda>num. put_lamp num red True"] view_for [where body' = "\<lambda>num. put_lamp num red False"])
  show "adds (show_for 80 \<circ> (for_view 19 (\<lambda>num. put_lamp num red False)) \<circ> show_for 50 \<circ> (for_view 19 (\<lambda>num. put_lamp num red True)))" by (intro adds_comp adds_for adds_show adds_put)
  show "(show_for 80 \<circ> (for_view 19 (\<lambda>num. put_lamp num red False)) \<circ> show_for 50 \<circ> (for_view 19 (\<lambda>num. put_lamp num red True))) ([], dark) = (fst (blinking 0), snd (blinking 0))" by code_simp
qed

lemma film_mode2: "view w = (f, dark) \<Longrightarrow> view (twinkle_mode2 w) = (f @ fst (blinking 1), snd (blinking 1))"
proof (rule shows_dark [where g = "show_for 80 \<circ> (for_view 19 (\<lambda>num. put_lamp num orange False)) \<circ> show_for 50 \<circ> (for_view 19 (\<lambda>num. put_lamp num orange True))"])
  show "view (twinkle_mode2 w) = (show_for 80 \<circ> (for_view 19 (\<lambda>num. put_lamp num orange False)) \<circ> show_for 50 \<circ> (for_view 19 (\<lambda>num. put_lamp num orange True))) (view w)"
    by (simp add: twinkle_mode2_def Let_def view_delay view_select comp_def view_for [where body' = "\<lambda>num. put_lamp num orange True"] view_for [where body' = "\<lambda>num. put_lamp num orange False"])
  show "adds (show_for 80 \<circ> (for_view 19 (\<lambda>num. put_lamp num orange False)) \<circ> show_for 50 \<circ> (for_view 19 (\<lambda>num. put_lamp num orange True)))" by (intro adds_comp adds_for adds_show adds_put)
  show "(show_for 80 \<circ> (for_view 19 (\<lambda>num. put_lamp num orange False)) \<circ> show_for 50 \<circ> (for_view 19 (\<lambda>num. put_lamp num orange True))) ([], dark) = (fst (blinking 1), snd (blinking 1))" by code_simp
qed

lemma film_mode3: "view w = (f, dark) \<Longrightarrow> view (twinkle_mode3 w) = (f @ fst (blinking 2), snd (blinking 2))"
proof (rule shows_dark [where g = "show_for 80 \<circ> (for_view 19 (\<lambda>num. put_lamp num orange False \<circ> put_lamp num red False)) \<circ> show_for 50 \<circ> (for_view 19 (\<lambda>num. put_lamp num orange True \<circ> put_lamp num red True))"])
  show "view (twinkle_mode3 w) = (show_for 80 \<circ> (for_view 19 (\<lambda>num. put_lamp num orange False \<circ> put_lamp num red False)) \<circ> show_for 50 \<circ> (for_view 19 (\<lambda>num. put_lamp num orange True \<circ> put_lamp num red True))) (view w)"
    by (simp add: twinkle_mode3_def Let_def view_delay view_select comp_def view_for [where body' = "\<lambda>num. put_lamp num orange True \<circ> put_lamp num red True"] view_for [where body' = "\<lambda>num. put_lamp num orange False \<circ> put_lamp num red False"])
  show "adds (show_for 80 \<circ> (for_view 19 (\<lambda>num. put_lamp num orange False \<circ> put_lamp num red False)) \<circ> show_for 50 \<circ> (for_view 19 (\<lambda>num. put_lamp num orange True \<circ> put_lamp num red True)))" by (intro adds_comp adds_for adds_show adds_put)
  show "(show_for 80 \<circ> (for_view 19 (\<lambda>num. put_lamp num orange False \<circ> put_lamp num red False)) \<circ> show_for 50 \<circ> (for_view 19 (\<lambda>num. put_lamp num orange True \<circ> put_lamp num red True))) ([], dark) = (fst (blinking 2), snd (blinking 2))" by code_simp
qed

lemma film_mode4: "view w = (f, dark) \<Longrightarrow> view (twinkle_mode4 w) = (f @ fst (filling 0), snd (filling 0))"
proof (rule shows_dark [where g = "(for_view 19 (\<lambda>num. put_lamp num red False)) \<circ> show_for 20 \<circ> (for_view 19 (\<lambda>num. show_for 5 \<circ> put_lamp num red True))"])
  show "view (twinkle_mode4 w) = ((for_view 19 (\<lambda>num. put_lamp num red False)) \<circ> show_for 20 \<circ> (for_view 19 (\<lambda>num. show_for 5 \<circ> put_lamp num red True))) (view w)"
    by (simp add: twinkle_mode4_def Let_def view_delay view_select comp_def view_for [where body' = "\<lambda>num. show_for 5 \<circ> put_lamp num red True"] view_for [where body' = "\<lambda>num. put_lamp num red False"])
  show "adds ((for_view 19 (\<lambda>num. put_lamp num red False)) \<circ> show_for 20 \<circ> (for_view 19 (\<lambda>num. show_for 5 \<circ> put_lamp num red True)))" by (intro adds_comp adds_for adds_show adds_put)
  show "((for_view 19 (\<lambda>num. put_lamp num red False)) \<circ> show_for 20 \<circ> (for_view 19 (\<lambda>num. show_for 5 \<circ> put_lamp num red True))) ([], dark) = (fst (filling 0), snd (filling 0))" by code_simp
qed

lemma film_mode5: "view w = (f, dark) \<Longrightarrow> view (twinkle_mode5 w) = (f @ fst (filling 1), snd (filling 1))"
proof (rule shows_dark [where g = "(for_view 19 (\<lambda>num. put_lamp num orange False)) \<circ> show_for 40 \<circ> (for_view 19 (\<lambda>num. show_for 5 \<circ> put_lamp num orange True))"])
  show "view (twinkle_mode5 w) = ((for_view 19 (\<lambda>num. put_lamp num orange False)) \<circ> show_for 40 \<circ> (for_view 19 (\<lambda>num. show_for 5 \<circ> put_lamp num orange True))) (view w)"
    by (simp add: twinkle_mode5_def Let_def view_delay view_select comp_def view_for [where body' = "\<lambda>num. show_for 5 \<circ> put_lamp num orange True"] view_for [where body' = "\<lambda>num. put_lamp num orange False"])
  show "adds ((for_view 19 (\<lambda>num. put_lamp num orange False)) \<circ> show_for 40 \<circ> (for_view 19 (\<lambda>num. show_for 5 \<circ> put_lamp num orange True)))" by (intro adds_comp adds_for adds_show adds_put)
  show "((for_view 19 (\<lambda>num. put_lamp num orange False)) \<circ> show_for 40 \<circ> (for_view 19 (\<lambda>num. show_for 5 \<circ> put_lamp num orange True))) ([], dark) = (fst (filling 1), snd (filling 1))" by code_simp
qed

lemma film_mode6: "view w = (f, dark) \<Longrightarrow> view (twinkle_mode6 w) = (f @ fst (filling 2), snd (filling 2))"
proof (rule shows_dark [where g = "(for_view 19 (\<lambda>num. put_lamp num orange False \<circ> put_lamp num red False)) \<circ> show_for 40 \<circ> (for_view 19 (\<lambda>num. show_for 5 \<circ> put_lamp num orange True \<circ> put_lamp num red True))"])
  show "view (twinkle_mode6 w) = ((for_view 19 (\<lambda>num. put_lamp num orange False \<circ> put_lamp num red False)) \<circ> show_for 40 \<circ> (for_view 19 (\<lambda>num. show_for 5 \<circ> put_lamp num orange True \<circ> put_lamp num red True))) (view w)"
    by (simp add: twinkle_mode6_def Let_def view_delay view_select comp_def view_for [where body' = "\<lambda>num. show_for 5 \<circ> put_lamp num orange True \<circ> put_lamp num red True"] view_for [where body' = "\<lambda>num. put_lamp num orange False \<circ> put_lamp num red False"])
  show "adds ((for_view 19 (\<lambda>num. put_lamp num orange False \<circ> put_lamp num red False)) \<circ> show_for 40 \<circ> (for_view 19 (\<lambda>num. show_for 5 \<circ> put_lamp num orange True \<circ> put_lamp num red True)))" by (intro adds_comp adds_for adds_show adds_put)
  show "((for_view 19 (\<lambda>num. put_lamp num orange False \<circ> put_lamp num red False)) \<circ> show_for 40 \<circ> (for_view 19 (\<lambda>num. show_for 5 \<circ> put_lamp num orange True \<circ> put_lamp num red True))) ([], dark) = (fst (filling 2), snd (filling 2))" by code_simp
qed

lemma film_mode7: "view w = (f, dark) \<Longrightarrow> view (twinkle_mode7 w) = (f @ fst (scanning 0), snd (scanning 0))"
proof (rule shows_dark [where g = "for_view 20 (\<lambda>num. show_for 30 \<circ> put_lamp (num - 1) red False \<circ> put_lamp num red True)"])
  show "view (twinkle_mode7 w) = (for_view 20 (\<lambda>num. show_for 30 \<circ> put_lamp (num - 1) red False \<circ> put_lamp num red True)) (view w)"
    by (simp add: twinkle_mode7_def Let_def view_delay view_select comp_def view_for [where body' = "\<lambda>num. show_for 30 \<circ> put_lamp (num - 1) red False \<circ> put_lamp num red True"])
  show "adds (for_view 20 (\<lambda>num. show_for 30 \<circ> put_lamp (num - 1) red False \<circ> put_lamp num red True))" by (intro adds_comp adds_for adds_show adds_put)
  show "(for_view 20 (\<lambda>num. show_for 30 \<circ> put_lamp (num - 1) red False \<circ> put_lamp num red True)) ([], dark) = (fst (scanning 0), snd (scanning 0))" by code_simp
qed

lemma film_mode8: "view w = (f, dark) \<Longrightarrow> view (twinkle_mode8 w) = (f @ fst (scanning 1), snd (scanning 1))"
proof (rule shows_dark [where g = "for_view 20 (\<lambda>num. show_for 30 \<circ> put_lamp (num - 1) orange False \<circ> put_lamp num orange True)"])
  show "view (twinkle_mode8 w) = (for_view 20 (\<lambda>num. show_for 30 \<circ> put_lamp (num - 1) orange False \<circ> put_lamp num orange True)) (view w)"
    by (simp add: twinkle_mode8_def Let_def view_delay view_select comp_def view_for [where body' = "\<lambda>num. show_for 30 \<circ> put_lamp (num - 1) orange False \<circ> put_lamp num orange True"])
  show "adds (for_view 20 (\<lambda>num. show_for 30 \<circ> put_lamp (num - 1) orange False \<circ> put_lamp num orange True))" by (intro adds_comp adds_for adds_show adds_put)
  show "(for_view 20 (\<lambda>num. show_for 30 \<circ> put_lamp (num - 1) orange False \<circ> put_lamp num orange True)) ([], dark) = (fst (scanning 1), snd (scanning 1))" by code_simp
qed

lemma film_mode9: "view w = (f, dark) \<Longrightarrow> view (twinkle_mode9 w) = (f @ fst (scanning 2), snd (scanning 2))"
proof (rule shows_dark [where g = "for_view 20 (\<lambda>num. show_for 30 \<circ> put_lamp (num - 1) orange False \<circ> put_lamp (num - 1) red False \<circ> put_lamp num orange True \<circ> put_lamp num red True)"])
  show "view (twinkle_mode9 w) = (for_view 20 (\<lambda>num. show_for 30 \<circ> put_lamp (num - 1) orange False \<circ> put_lamp (num - 1) red False \<circ> put_lamp num orange True \<circ> put_lamp num red True)) (view w)"
    by (simp add: twinkle_mode9_def Let_def view_delay view_select comp_def view_for [where body' = "\<lambda>num. show_for 30 \<circ> put_lamp (num - 1) orange False \<circ> put_lamp (num - 1) red False \<circ> put_lamp num orange True \<circ> put_lamp num red True"])
  show "adds (for_view 20 (\<lambda>num. show_for 30 \<circ> put_lamp (num - 1) orange False \<circ> put_lamp (num - 1) red False \<circ> put_lamp num orange True \<circ> put_lamp num red True))" by (intro adds_comp adds_for adds_show adds_put)
  show "(for_view 20 (\<lambda>num. show_for 30 \<circ> put_lamp (num - 1) orange False \<circ> put_lamp (num - 1) red False \<circ> put_lamp num orange True \<circ> put_lamp num red True)) ([], dark) = (fst (scanning 2), snd (scanning 2))" by code_simp
qed

lemma film_mode10: "view w = (f, dark) \<Longrightarrow> view (twinkle_mode10 w) = (f @ fst (spreading 0), snd (spreading 0))"
proof (rule shows_dark [where g = "for_view 10 (\<lambda>num. show_for 15 \<circ> put_lamp (9 - num) red True \<circ> put_lamp (9 + num) red True)"])
  show "view (twinkle_mode10 w) = (for_view 10 (\<lambda>num. show_for 15 \<circ> put_lamp (9 - num) red True \<circ> put_lamp (9 + num) red True)) (view w)"
    by (simp add: twinkle_mode10_def Let_def view_delay view_select comp_def view_for [where body' = "\<lambda>num. show_for 15 \<circ> put_lamp (9 - num) red True \<circ> put_lamp (9 + num) red True"])
  show "adds (for_view 10 (\<lambda>num. show_for 15 \<circ> put_lamp (9 - num) red True \<circ> put_lamp (9 + num) red True))" by (intro adds_comp adds_for adds_show adds_put)
  show "(for_view 10 (\<lambda>num. show_for 15 \<circ> put_lamp (9 - num) red True \<circ> put_lamp (9 + num) red True)) ([], dark) = (fst (spreading 0), snd (spreading 0))" by code_simp
qed

lemma film_mode11: "view w = (f, dark) \<Longrightarrow> view (twinkle_mode11 w) = (f @ fst (spreading 1), snd (spreading 1))"
proof (rule shows_dark [where g = "for_view 10 (\<lambda>num. show_for 15 \<circ> put_lamp (9 - num) orange True \<circ> put_lamp (9 + num) orange True)"])
  show "view (twinkle_mode11 w) = (for_view 10 (\<lambda>num. show_for 15 \<circ> put_lamp (9 - num) orange True \<circ> put_lamp (9 + num) orange True)) (view w)"
    by (simp add: twinkle_mode11_def Let_def view_delay view_select comp_def view_for [where body' = "\<lambda>num. show_for 15 \<circ> put_lamp (9 - num) orange True \<circ> put_lamp (9 + num) orange True"])
  show "adds (for_view 10 (\<lambda>num. show_for 15 \<circ> put_lamp (9 - num) orange True \<circ> put_lamp (9 + num) orange True))" by (intro adds_comp adds_for adds_show adds_put)
  show "(for_view 10 (\<lambda>num. show_for 15 \<circ> put_lamp (9 - num) orange True \<circ> put_lamp (9 + num) orange True)) ([], dark) = (fst (spreading 1), snd (spreading 1))" by code_simp
qed

lemma film_mode12: "view w = (f, dark) \<Longrightarrow> view (twinkle_mode12 w) = (f @ fst (spreading 2), snd (spreading 2))"
proof (rule shows_dark [where g = "for_view 10 (\<lambda>num. show_for 15 \<circ> put_lamp (9 - num) orange True \<circ> put_lamp (9 + num) orange True \<circ> put_lamp (9 - num) red True \<circ> put_lamp (9 + num) red True)"])
  show "view (twinkle_mode12 w) = (for_view 10 (\<lambda>num. show_for 15 \<circ> put_lamp (9 - num) orange True \<circ> put_lamp (9 + num) orange True \<circ> put_lamp (9 - num) red True \<circ> put_lamp (9 + num) red True)) (view w)"
    by (simp add: twinkle_mode12_def Let_def view_delay view_select comp_def view_for [where body' = "\<lambda>num. show_for 15 \<circ> put_lamp (9 - num) orange True \<circ> put_lamp (9 + num) orange True \<circ> put_lamp (9 - num) red True \<circ> put_lamp (9 + num) red True"])
  show "adds (for_view 10 (\<lambda>num. show_for 15 \<circ> put_lamp (9 - num) orange True \<circ> put_lamp (9 + num) orange True \<circ> put_lamp (9 - num) red True \<circ> put_lamp (9 + num) red True))" by (intro adds_comp adds_for adds_show adds_put)
  show "(for_view 10 (\<lambda>num. show_for 15 \<circ> put_lamp (9 - num) orange True \<circ> put_lamp (9 + num) orange True \<circ> put_lamp (9 - num) red True \<circ> put_lamp (9 + num) red True)) ([], dark) = (fst (spreading 2), snd (spreading 2))" by code_simp
qed

lemma film_mode13: "view w = (f, dark) \<Longrightarrow> view (twinkle_mode13 w) = (f @ fst (parting 0), snd (parting 0))"
proof (rule shows_dark [where g = "for_view 10 (\<lambda>num. show_for 15 \<circ> put_lamp (9 - num + 1) red False \<circ> put_lamp (9 + num - 1) red False \<circ> put_lamp (9 - num) red True \<circ> put_lamp (9 + num) red True)"])
  show "view (twinkle_mode13 w) = (for_view 10 (\<lambda>num. show_for 15 \<circ> put_lamp (9 - num + 1) red False \<circ> put_lamp (9 + num - 1) red False \<circ> put_lamp (9 - num) red True \<circ> put_lamp (9 + num) red True)) (view w)"
    by (simp add: twinkle_mode13_def Let_def view_delay view_select comp_def view_for [where body' = "\<lambda>num. show_for 15 \<circ> put_lamp (9 - num + 1) red False \<circ> put_lamp (9 + num - 1) red False \<circ> put_lamp (9 - num) red True \<circ> put_lamp (9 + num) red True"])
  show "adds (for_view 10 (\<lambda>num. show_for 15 \<circ> put_lamp (9 - num + 1) red False \<circ> put_lamp (9 + num - 1) red False \<circ> put_lamp (9 - num) red True \<circ> put_lamp (9 + num) red True))" by (intro adds_comp adds_for adds_show adds_put)
  show "(for_view 10 (\<lambda>num. show_for 15 \<circ> put_lamp (9 - num + 1) red False \<circ> put_lamp (9 + num - 1) red False \<circ> put_lamp (9 - num) red True \<circ> put_lamp (9 + num) red True)) ([], dark) = (fst (parting 0), snd (parting 0))" by code_simp
qed

lemma film_mode14: "view w = (f, dark) \<Longrightarrow> view (twinkle_mode14 w) = (f @ fst (parting 1), snd (parting 1))"
proof (rule shows_dark [where g = "for_view 10 (\<lambda>num. show_for 15 \<circ> put_lamp (9 - num + 1) orange False \<circ> put_lamp (9 + num - 1) orange False \<circ> put_lamp (9 - num) orange True \<circ> put_lamp (9 + num) orange True)"])
  show "view (twinkle_mode14 w) = (for_view 10 (\<lambda>num. show_for 15 \<circ> put_lamp (9 - num + 1) orange False \<circ> put_lamp (9 + num - 1) orange False \<circ> put_lamp (9 - num) orange True \<circ> put_lamp (9 + num) orange True)) (view w)"
    by (simp add: twinkle_mode14_def Let_def view_delay view_select comp_def view_for [where body' = "\<lambda>num. show_for 15 \<circ> put_lamp (9 - num + 1) orange False \<circ> put_lamp (9 + num - 1) orange False \<circ> put_lamp (9 - num) orange True \<circ> put_lamp (9 + num) orange True"])
  show "adds (for_view 10 (\<lambda>num. show_for 15 \<circ> put_lamp (9 - num + 1) orange False \<circ> put_lamp (9 + num - 1) orange False \<circ> put_lamp (9 - num) orange True \<circ> put_lamp (9 + num) orange True))" by (intro adds_comp adds_for adds_show adds_put)
  show "(for_view 10 (\<lambda>num. show_for 15 \<circ> put_lamp (9 - num + 1) orange False \<circ> put_lamp (9 + num - 1) orange False \<circ> put_lamp (9 - num) orange True \<circ> put_lamp (9 + num) orange True)) ([], dark) = (fst (parting 1), snd (parting 1))" by code_simp
qed

lemma film_mode15: "view w = (f, dark) \<Longrightarrow> view (twinkle_mode15 w) = (f @ fst (parting 2), snd (parting 2))"
proof (rule shows_dark [where g = "for_view 10 (\<lambda>num. show_for 15 \<circ> put_lamp (9 - num + 1) orange False \<circ> put_lamp (9 + num - 1) orange False \<circ> put_lamp (9 - num + 1) red False \<circ> put_lamp (9 + num - 1) red False \<circ> put_lamp (9 - num) orange True \<circ> put_lamp (9 + num) orange True \<circ> put_lamp (9 - num) red True \<circ> put_lamp (9 + num) red True)"])
  show "view (twinkle_mode15 w) = (for_view 10 (\<lambda>num. show_for 15 \<circ> put_lamp (9 - num + 1) orange False \<circ> put_lamp (9 + num - 1) orange False \<circ> put_lamp (9 - num + 1) red False \<circ> put_lamp (9 + num - 1) red False \<circ> put_lamp (9 - num) orange True \<circ> put_lamp (9 + num) orange True \<circ> put_lamp (9 - num) red True \<circ> put_lamp (9 + num) red True)) (view w)"
    by (simp add: twinkle_mode15_def Let_def view_delay view_select comp_def view_for [where body' = "\<lambda>num. show_for 15 \<circ> put_lamp (9 - num + 1) orange False \<circ> put_lamp (9 + num - 1) orange False \<circ> put_lamp (9 - num + 1) red False \<circ> put_lamp (9 + num - 1) red False \<circ> put_lamp (9 - num) orange True \<circ> put_lamp (9 + num) orange True \<circ> put_lamp (9 - num) red True \<circ> put_lamp (9 + num) red True"])
  show "adds (for_view 10 (\<lambda>num. show_for 15 \<circ> put_lamp (9 - num + 1) orange False \<circ> put_lamp (9 + num - 1) orange False \<circ> put_lamp (9 - num + 1) red False \<circ> put_lamp (9 + num - 1) red False \<circ> put_lamp (9 - num) orange True \<circ> put_lamp (9 + num) orange True \<circ> put_lamp (9 - num) red True \<circ> put_lamp (9 + num) red True))" by (intro adds_comp adds_for adds_show adds_put)
  show "(for_view 10 (\<lambda>num. show_for 15 \<circ> put_lamp (9 - num + 1) orange False \<circ> put_lamp (9 + num - 1) orange False \<circ> put_lamp (9 - num + 1) red False \<circ> put_lamp (9 + num - 1) red False \<circ> put_lamp (9 - num) orange True \<circ> put_lamp (9 + num) orange True \<circ> put_lamp (9 - num) red True \<circ> put_lamp (9 + num) red True)) ([], dark) = (fst (parting 2), snd (parting 2))" by code_simp
qed


subsection \<open>All lamps at once\<close>

lemma put_step: "n < 19 \<Longrightarrow> \<not> 19 \<le> (of_nat n :: u8) \<and> unat (of_nat n :: u8) = n"
  by (auto simp: unat_of_nat word_le_nat_alt)

lemma drop_put: "n < length r \<Longrightarrow> (replicate n c @ drop n r)[n := c] = replicate (Suc n) c @ drop (Suc n) r"
  by (simp add: Cons_nth_drop_Suc [symmetric] list_update_append replicate_append_same del: replicate_Suc) (simp add: replicate_append_same)

lemma for_view_Suc: "for_view (Suc n) body v = body (of_nat n) (for_view n body v)"
  by (simp add: for_view_def)

lemma put_all:
  assumes "length r = 19" "length a = 19" "n \<le> 19"
  shows "for_view n (\<lambda>num. put_lamp num red c) (f, r, a) = (f, replicate n c @ drop n r, a)"
    "for_view n (\<lambda>num. put_lamp num orange c) (f, r, a) = (f, r, replicate n c @ drop n a)"
    "for_view n (\<lambda>num. put_lamp num orange c \<circ> put_lamp num red c) (f, r, a) = (f, replicate n c @ drop n r, replicate n c @ drop n a)"
  using assms(3)
proof (induction n)
  case (Suc n)
  {
    case 1
    then show ?case using Suc.IH(1) put_step [of n] drop_put [of n r c] assms by (simp add: for_view_Suc del: replicate_Suc)
  next
    case 2
    then show ?case using Suc.IH(2) put_step [of n] drop_put [of n a c] assms by (simp add: for_view_Suc del: replicate_Suc)
  next
    case 3
    then show ?case using Suc.IH(3) put_step [of n] drop_put [of n r c] drop_put [of n a c] assms
      by (simp add: for_view_Suc del: replicate_Suc)
  }
qed (simp_all add: for_view_def)

lemma picture_lengths: "view w = (f, r, a) \<Longrightarrow> length r = 19 \<and> length a = 19"
  using tables(2,3) by (auto simp: view_def picture_of_def levels_def)

lemma rows [simp]: "row (\<lambda>_. c) = replicate 19 c"
  by (simp add: row_def map_replicate_const)

lemma view_all:
  assumes "view w = (f, r, a)"
  shows "view (twinkle_modeoff w) = (f, dark)" "view (twinkle_modeon w) = (f, all_lamps 2)"
    "view (twinkle_mode16 w) = (f, fst (all_lamps 0), a)" "view (twinkle_mode17 w) = (f, r, snd (all_lamps 1))"
  using put_all [of r a 19] picture_lengths [OF assms] assms
  by (simp_all add: twinkle_modeoff_def twinkle_modeon_def twinkle_mode16_def twinkle_mode17_def dark_def colour_def Let_def
      view_for [where body' = "\<lambda>num. put_lamp num orange False \<circ> put_lamp num red False"]
      view_for [where body' = "\<lambda>num. put_lamp num orange True \<circ> put_lamp num red True"]
      view_for [where body' = "\<lambda>num. put_lamp num red True"] view_for [where body' = "\<lambda>num. put_lamp num orange True"] view_select)

lemmas film_modes = film_mode1 film_mode2 film_mode3 film_mode4 film_mode5 film_mode6 film_mode7 film_mode8 film_mode9
  film_mode10 film_mode11 film_mode12 film_mode13 film_mode14 film_mode15

lemma twinkle_films:
  assumes "view w = (f, now)"
  shows "view (twinkle_switch mode w) = (f @ fst (show_of mode now), snd (show_of mode now))"
proof -
  obtain r a where now: "now = (r, a)" by (cases now)
  note v = view_all [OF assms [unfolded now]]
  note m = film_modes [OF v(1)]
  consider "mode \<in> {0, 1, 0x1a, 0x1b}" | "mode \<in> {2, 3, 4, 5, 6, 7, 8, 9, 10, 11, 12, 13, 14, 15, 16}"
    | "16 < mode" "mode \<noteq> 0x1a" "mode \<noteq> 0x1b"
  proof (cases "mode \<le> 16")
    case True
    then have "unat mode \<in> set [0..<17]" by (simp add: word_le_nat_alt)
    also have "[0..<17] = [0, 1, 2, 3, 4, 5, 6, 7, 8, 9, 10, 11, 12, 13, 14, 15, 16]" by (simp add: upt_rec)
    finally have "unat mode \<in> {0, 1, 2, 3, 4, 5, 6, 7, 8, 9, 10, 11, 12, 13, 14, 15, 16}" by simp
    then have "mode \<in> {0, 1, 2, 3, 4, 5, 6, 7, 8, 9, 10, 11, 12, 13, 14, 15, 16}" by (simp add: word_unat_eq_iff)
    then show thesis using that(1,2) by blast
  next
    case False
    then have "16 < mode" by simp
    then show thesis using that(1,3) by blast
  qed
  then show ?thesis
  proof cases
    case 1
    then show ?thesis using v now by (auto simp: twinkle_switch_def show_of_def)
  next
    case 2
    then show ?thesis using m by (elim insertE) (simp_all add: twinkle_switch_def show_of_def Let_def)
  next
    case 3
    then have "mode \<noteq> n" if "n \<le> 16" for n using that by auto
    moreover have "\<not> mode \<le> 16" using 3(1) by simp
    ultimately show ?thesis using 3 assms by (simp add: twinkle_switch_def show_of_def view_delay)
  qed
qed


subsection \<open>The pins of the lamps\<close>

lemma bit_GPIO_Pin: "k < 16 \<Longrightarrow> bit (GPIO_Pin n) k = (k = n)"
  by (auto simp: GPIO_Pin_def bit_simps)

lemma clock_facts [simp]:
  "pin_mode (RCC_APB2PeriphClockCmd c True w) p k = pin_mode w p k"
  "APB2ENR (RCC_APB2PeriphClockCmd c True w) = APB2ENR w OR c" "ODR (RCC_APB2PeriphClockCmd c True w) = ODR w"
  "MAPR (RCC_APB2PeriphClockCmd c True w) = MAPR w" "shown (RCC_APB2PeriphClockCmd c True w) = shown w"
  by (simp_all add: RCC_APB2PeriphClockCmd_def pin_mode_def)

lemma remap_facts:
  "pin_mode (GPIO_PinRemapConfig GPIO_Remap_SWJ_JTAGDisable True w) p k = pin_mode w p k"
  "APB2ENR (GPIO_PinRemapConfig GPIO_Remap_SWJ_JTAGDisable True w) = APB2ENR w"
  "ODR (GPIO_PinRemapConfig GPIO_Remap_SWJ_JTAGDisable True w) = ODR w"
  "shown (GPIO_PinRemapConfig GPIO_Remap_SWJ_JTAGDisable True w) = shown w"
  "MAPR (GPIO_PinRemapConfig GPIO_Remap_SWJ_JTAGDisable True w) = (MAPR w AND 0xF0FFFFFF) OR 0x02000000"
  by (simp_all add: GPIO_PinRemapConfig_def GPIO_Remap_SWJ_JTAGDisable_def Let_def pin_mode_def)

lemma led_OFF_facts [simp]:
  "pin_mode (led_OFF l w) p k = pin_mode w p k" "APB2ENR (led_OFF l w) = APB2ENR w" "MAPR (led_OFF l w) = MAPR w"
  by (cases l; simp add: led_OFF_def GPIO_ResetBits_def pin_mode_def)+

lemma ODR_led_OFF: "ODR (led_OFF l w) = (ODR w)(fst l := ODR w (fst l) AND NOT (GPIO_Pin (snd l)))"
  by (simp add: led_OFF_def GPIO_ResetBits_def split_beta)

lemma init_modes:
  assumes "k < 16"
  shows "pin_mode (led_gpio_init w) p k =
    (if (p, k) \<in> set (red_leds @ orange_leds) \<union> {(GPIOD, 14), (GPIOD, 15)} then 3 else pin_mode w p k)"
  using assms
  by (cases p) (simp_all add: led_gpio_init_def Let_def GPIO_Init_modes bit_GPIO_Pin bit_or_iff remap_facts red_leds_def orange_leds_def)

lemma init_registers:
  "APB2ENR (led_gpio_init w) = APB2ENR w OR 0x1FC" "MAPR (led_gpio_init w) = (MAPR w AND 0xF0FFFFFF) OR 0x02000000"
  "ODR (led_gpio_init w) = ODR (led_OFF (orange_leds ! 4) (led_OFF (orange_leds ! 1) w))"
  by (simp_all add: led_gpio_init_def Let_def GPIO_Init_modes [where k = 0] remap_facts or.assoc ODR_led_OFF split_beta)


lemma or_contains: "c AND d = d \<Longrightarrow> (x OR c) AND d = (d :: u32)"
  by (simp add: bit_eq_iff bit_simps) blast

subsection \<open>One lamp, all pins, every show\<close>

text \<open>Fact. \<open>Led_ModeSelect\<close> switches exactly the lamp it is called for: in the picture no other lamp
  changes, and no other pin of any port does.\<close>

theorem led_select_exact:
  assumes "num < 19" "l = (if sel = 0 then red_leds ! unat num else orange_leds ! unat num)"
  shows "picture_of (ODR (Led_ModeSelect num sel control w)) =
      (let (r, a) = picture_of (ODR w) in if sel = 0 then (r[unat num := control], a) else (r, a[unat num := control])) \<and>
    (\<forall>p k. (p, k) \<noteq> l \<longrightarrow> bit (ODR (Led_ModeSelect num sel control w) p) k = bit (ODR w p) k) \<and>
    shown (Led_ModeSelect num sel control w) = shown w"
proof -
  have n: "unat num < 19" using assms(1) by (simp add: word_less_nat_alt)
  have e: "Led_ModeSelect num sel control w = led_case (red_leds ! unat num) (orange_leds ! unat num) sel control w"
    using select_cases [OF n, of sel control w] by simp
  have "red_leds ! unat num \<in> set red_leds" "orange_leds ! unat num \<in> set orange_leds" using n tables(2,3) by auto
  then have "snd (red_leds ! unat num) < 16" "snd (orange_leds ! unat num) < 16" using tables(4) by auto
  then have "\<forall>p k. (p, k) \<noteq> l \<longrightarrow> bit (ODR (Led_ModeSelect num sel control w) p) k = bit (ODR w p) k"
    "shown (Led_ModeSelect num sel control w) = shown w"
    using assms(2) by (auto simp: e led_case_def led_ODR)
  moreover have "\<not> 19 \<le> num" using assms(1) by simp
  ultimately show ?thesis using view_select [of num sel control w]
    by (cases "picture_of (ODR w)") (auto simp: view_def)
qed

definition dark_board :: board where
  "dark_board = \<lparr>APB2ENR = 0, MAPR = 0, MAPR2 = 0, CRL = \<lambda>_. 0x44444444, CRH = \<lambda>_. 0x44444444, ODR = \<lambda>_. 0, shown = []\<rparr>"

theorem led_select_exact_witness:
  "picture_of (ODR (Led_ModeSelect 3 orange True dark_board)) = (replicate 19 False, (replicate 19 False)[3 := True])"
proof -
  have "picture_of (ODR dark_board) = (replicate 19 False, replicate 19 False)" by code_simp
  then show ?thesis using led_select_exact [of 3 "orange_leds ! 3" orange True dark_board] by (simp add: Let_def)
qed

text \<open>Fact. \<open>led_gpio_init\<close> makes the pin of every lamp (and two spare pins of port D) a push-pull output and
  leaves the mode of every other pin alone; the clocks of all ports run, the debug port that shares pins with
  the lamps is switched off, and two of the lamps are dark.\<close>

theorem led_pins_are_outputs:
  assumes "k < 16"
  shows "pin_mode (led_gpio_init w) p k =
      (if (p, k) \<in> set (red_leds @ orange_leds) \<union> {(GPIOD, 14), (GPIOD, 15)} then 3 else pin_mode w p k) \<and>
    APB2ENR (led_gpio_init w) AND RCC_APB2Periph_GPIO p = RCC_APB2Periph_GPIO p \<and>
    MAPR (led_gpio_init w) AND 0x07000000 = 0x02000000 \<and>
    snd (picture_of (ODR (led_gpio_init w))) = (snd (picture_of (ODR w)))[1 := False, 4 := False]"
proof -
  have "(APB2ENR w OR 0x1FC) AND RCC_APB2Periph_GPIO p = RCC_APB2Periph_GPIO p"
    by (cases p) (simp_all add: or_contains)
  moreover have "((MAPR w AND 0xF0FFFFFF) OR 0x02000000) AND 0x07000000 = 0x02000000"
    by (simp add: bit.conj_disj_distrib2 and.assoc)
  moreover have "snd (picture_of (ODR (led_gpio_init w))) = (snd (picture_of (ODR w)))[1 := False, 4 := False]"
  proof -
    have "distinct orange_leds" using tables(1) by simp
    moreover have "snd (orange_leds ! 1) < 16" "snd (orange_leds ! 4) < 16" by (simp_all add: orange_leds_def)
    ultimately show ?thesis using tables(3)
      by (simp add: init_registers picture_of_def levels_led(2) [where n = 1] levels_led(2) [where n = 4])
  qed
  ultimately show ?thesis using init_modes [OF assms] by (simp add: init_registers)
qed

theorem led_pins_are_outputs_witness:
  "pin_mode (led_gpio_init dark_board) GPIOA 12 = 3 \<and> pin_mode (led_gpio_init dark_board) GPIOA 11 = 4"
  using led_pins_are_outputs [of 12 dark_board GPIOA] led_pins_are_outputs [of 11 dark_board GPIOA]
  by (simp add: red_leds_def orange_leds_def pin_mode_def dark_board_def)

text \<open>Property C7. For every value of the mode and every state of the board the switch shows exactly the film that
  belongs to the mode, picture by picture and tick by tick, and leaves the lamps as that film ends.\<close>

theorem led_shows:
  "view (twinkle_switch mode w) =
    (fst (view w) @ fst (show_of mode (snd (view w))), snd (show_of mode (snd (view w))))"
  using twinkle_films [of w "fst (view w)" "snd (view w)" mode] by simp

end
