(* ===== verification/LedThread.thy ===== *)
theory LedThread imports LedBoard CanMiddle
begin

text \<open>
  The lamp thread of the BMLG_LW board (\<open>LEDcontrol_thread_entry\<close> of \<open>gpio.c\<close>) together with the serial interrupt
  (\<open>USART1_IRQHandler_Callback\<close>, theory \<open>CanMiddle\<close>), which share the flag \<open>UART1_RxFlag\<close> and the buffer
  \<open>USART1_RxBuffer\<close> without a lock. The bytes that arrive are arguments of a round of the thread, one for
  each place where an interrupt makes a difference.
\<close>

record led_system =
  usart :: usart1
  LED_Twinkle_Mode :: u8
  leds :: board

text \<open>
  The bytes \<open>early\<close> arrive during the delay, \<open>between\<close> after the test of the flag, \<open>late\<close> after the read of the
  buffer and \<open>during\<close> while the lamps are switched.
\<close>

definition LEDcontrol_round :: "u8 list \<Rightarrow> u8 list \<Rightarrow> u8 list \<Rightarrow> u8 list \<Rightarrow> led_system \<Rightarrow> led_system option" where
  "LEDcontrol_round early between late during s = do {
     let w = rt_thread_delay 5 (leds s);
     u \<leftarrow> usart_feed (usart s) early;
     (u, mode) \<leftarrow>
       (if UART1_RxFlag u = 1 then do {
          u \<leftarrow> usart_feed u between;
          mode \<leftarrow> rd (USART1_RxBuffer u) 0;
          u \<leftarrow> usart_feed u late;
          Some (u\<lparr>UART1_RxFlag := 0\<rparr>, mode) }
        else do { u \<leftarrow> usart_feed u (between @ late); Some (u, LED_Twinkle_Mode s) });
     u \<leftarrow> usart_feed u during;
     Some \<lparr>usart = u, LED_Twinkle_Mode = mode, leds = twinkle_switch mode w\<rparr> }"

subsection \<open>Rounds\<close>

text \<open>What a round adds to the film, and the picture it leaves.\<close>

definition round_film :: "u8 \<Rightarrow> film \<times> picture \<Rightarrow> film \<times> picture" where
  "round_film mode v = (case v of (f, now) \<Rightarrow> (f @ (now, 5) # fst (show_of mode now), snd (show_of mode now)))"

lemma view_round: "view (twinkle_switch mode (rt_thread_delay 5 w)) = round_film mode (view w)"
  using twinkle_films [of "rt_thread_delay 5 w" "fst (view w) @ [(snd (view w), 5)]" "snd (view w)" mode]
  by (cases "view w") (simp add: view_delay round_film_def)

definition idle :: "usart1 \<Rightarrow> bool" where
  "idle u \<longleftrightarrow> u_state u = State_Frame_Head \<and> length (USART1_RxBuffer u) = 8"

lemma frame_idle:
  assumes "idle u" "data \<noteq> []" "length data \<le> 8"
  shows "\<exists>u'. usart_feed u (usart_frame data) = Some u' \<and> idle u' \<and> UART1_RxFlag u' = 1 \<and>
    USART1_RxBuffer u' = data @ drop (length data) (USART1_RxBuffer u)"
  using usart_frame_parsed [of u data] assms by (auto simp: idle_def)

text \<open>The start of a frame whose check byte is wrong is stored before it is refused.\<close>

lemma bad_frame_stored:
  assumes "idle u" "c \<noteq> x"
  shows "\<exists>u'. usart_feed u [0xFE, 1, x, c] = Some u' \<and> idle u' \<and> UART1_RxFlag u' = UART1_RxFlag u \<and>
    USART1_RxBuffer u' = (USART1_RxBuffer u)[0 := x]"
  using assms by (auto simp: idle_def USART1_IRQHandler_Callback_def wr_def)

lemma idle_flag [simp]: "idle (u\<lparr>UART1_RxFlag := b\<rparr>) = idle u"
  by (simp add: idle_def)

lemma idle_round:
  assumes "UART1_RxFlag (usart s) \<noteq> 1"
  shows "LEDcontrol_round [] [] [] [] s = Some (s\<lparr>leds := twinkle_switch (LED_Twinkle_Mode s) (rt_thread_delay 5 (leds s))\<rparr>)"
  using assms by (simp add: LEDcontrol_round_def)

text \<open>Every round shows five ticks of the old picture and then the film of the mode it ends with.\<close>

lemma round_view:
  assumes "LEDcontrol_round early between late during s = Some s'"
  shows "view (leds s') = round_film (LED_Twinkle_Mode s') (view (leds s))"
  using assms by (auto simp: LEDcontrol_round_def view_round split: bind_splits)

text \<open>The flag is raised by the last byte of a command only.\<close>

lemma usart_flag_step:
  "USART1_IRQHandler_Callback u x = Some u' \<Longrightarrow> UART1_RxFlag u' = UART1_RxFlag u \<or> UART1_RxFlag u' = 1"
  by (auto simp: USART1_IRQHandler_Callback_def Let_def split: usart_state.splits bind_splits if_splits)

lemma usart_flag_stays: "usart_feed u xs = Some u' \<Longrightarrow> UART1_RxFlag u = 1 \<Longrightarrow> UART1_RxFlag u' = 1"
proof (induction xs arbitrary: u)
  case (Cons x xs)
  then obtain v where v: "USART1_IRQHandler_Callback u x = Some v" "usart_feed v xs = Some u'" by (auto split: bind_splits)
  then show ?case using Cons.IH [OF v(2)] usart_flag_step [OF v(1)] Cons.prems(2) by auto
qed simp

lemma usart_flag_or: "usart_feed u xs = Some u' \<Longrightarrow> UART1_RxFlag u' = UART1_RxFlag u \<or> UART1_RxFlag u' = 1"
proof (induction xs arbitrary: u)
  case (Cons x xs)
  then obtain v where v: "USART1_IRQHandler_Callback u x = Some v" "usart_feed v xs = Some u'" by (auto split: bind_splits)
  then show ?case using Cons.IH [OF v(2)] usart_flag_step [OF v(1)] by auto
qed simp

lemma frame_body:
  assumes "idle u" "data \<noteq> []" "length data \<le> 8"
  shows "\<exists>v. usart_feed u ([0xFE, of_nat (length data)] @ data @ [xor_sum data]) = Some v \<and> UART1_RxFlag v = UART1_RxFlag u"
proof -
  let ?v = "u\<lparr>u_state := State_Frame_Data, u_length := of_nat (length data), u_i := 0, u_cs := 0\<rparr>"
  have n: "unat (of_nat (length data) :: u8) = length data" using assms(3) by (simp add: unat_of_nat)
  have h: "usart_feed u [0xFE, of_nat (length data)] = Some ?v" using assms(1) by (simp add: idle_def USART1_IRQHandler_Callback_def)
  have d: "usart_feed ?v data = Some (?v\<lparr>u_state := State_Frame_CS, u_i := 0, u_cs := xor_sum data,
      USART1_RxBuffer := data @ drop (length data) (USART1_RxBuffer u)\<rparr>)"
    using usart_data [of ?v data] assms n by (simp add: xor_sum_def idle_def)
  show ?thesis unfolding usart_feed_append h bind.bind_lunit d by (simp add: USART1_IRQHandler_Callback_def)
qed

text \<open>A part of a command, from its beginning on, that lacks at least its last byte.\<close>

lemma unfinished_frame:
  assumes "idle u" "data \<noteq> []" "length data \<le> 8" "p @ q = usart_frame data" "q \<noteq> []" "usart_feed u p = Some v" "UART1_RxFlag u \<noteq> 1"
  shows "UART1_RxFlag v \<noteq> 1"
proof -
  have b: "butlast (usart_frame data) = [0xFE, of_nat (length data)] @ data @ [xor_sum data]" by (simp add: usart_frame_def butlast_append)
  have "p @ butlast q = butlast (usart_frame data)" using assms(4,5) by (metis butlast_append)
  then obtain w where w: "usart_feed u (p @ butlast q) = Some w" "UART1_RxFlag w = UART1_RxFlag u"
    using frame_body [OF assms(1-3)] unfolding b by auto
  then have "usart_feed v (butlast q) = Some w" using assms(6) by (simp add: usart_feed_append)
  then show ?thesis using usart_flag_stays w(2) assms(7) by auto
qed

text \<open>The two ways of a round: a command waits when the flag is tested, or none does.\<close>

lemma round_without_command:
  assumes "usart_feed (usart s) early = Some u" "UART1_RxFlag u \<noteq> 1" "usart_feed u (between @ late @ during) = Some v"
  shows "\<exists>w. LEDcontrol_round early between late during s = Some \<lparr>usart = v, LED_Twinkle_Mode = LED_Twinkle_Mode s, leds = w\<rparr>"
  using assms unfolding LEDcontrol_round_def usart_feed_append by (auto simp: usart_feed_append split: bind_splits)

lemma round_with_command:
  assumes "usart_feed (usart s) early = Some u" "UART1_RxFlag u = 1" "USART1_RxBuffer u = m # ms"
  shows "\<exists>w. LEDcontrol_round early [] [] [] s = Some \<lparr>usart = u\<lparr>UART1_RxFlag := 0\<rparr>, LED_Twinkle_Mode = m, leds = w\<rparr>"
  using assms by (simp add: LEDcontrol_round_def rd_def)

subsection \<open>How long a round takes\<close>

definition ticks :: "film \<Rightarrow> nat" where
  "ticks f = sum_list (map snd f)"

lemma ticks_facts [simp]: "ticks [] = 0" "ticks (x # f) = snd x + ticks f" "ticks (f @ g) = ticks f + ticks g"
  "ticks (replicate n x) = n * snd x" "ticks (map (\<lambda>n. (P n, t)) ns) = length ns * t"
  by (simp_all add: ticks_def sum_list_replicate comp_def sum_list_triv)

lemma show_ticks: "ticks (fst (show_of mode now)) \<le> 608"
  by (simp add: show_of_def blinking_def filling_def scanning_def spreading_def parting_def Let_def)


subsection \<open>Commands\<close>

lemma round_ticks:
  assumes "LEDcontrol_round early between late during s = Some s'"
  shows "ticks (fst (view (leds s'))) \<le> ticks (fst (view (leds s))) + 613"
  using round_view [OF assms] show_ticks [of "LED_Twinkle_Mode s'" "snd (view (leds s))"]
  by (cases "view (leds s)") (simp add: round_film_def)

text \<open>
  Property C6. A serial command that begins while the parser waits for one and no other command is pending is obeyed, in
  whatever of the four places of a round and of the beginning of the next one its bytes arrive: when it is complete before the
  test of the flag, in the same round, otherwise in the next round. To obey it is to take its first data byte as the
  mode, to clear the flag, to wait for the next command, and to show the old picture for five ticks and then the film of
  the mode. No round, whatever its bytes, takes longer than 613 ticks. A command that meets another one is a different matter
  (\<open>late_command_is_lost\<close>, \<open>refused_byte_becomes_mode\<close>).
\<close>

theorem led_command_obeyed:
  assumes "u_state (usart s) = State_Frame_Head" "length (USART1_RxBuffer (usart s)) = 8" "UART1_RxFlag (usart s) \<noteq> 1"
    "data \<noteq> []" "length data \<le> 8" "early @ between @ late @ during @ next_early = usart_frame data"
  shows "(\<exists>s1 s2. LEDcontrol_round early between late during s = Some s1 \<and> LEDcontrol_round next_early [] [] [] s1 = Some s2 \<and>
      (early = usart_frame data \<longrightarrow> LED_Twinkle_Mode s1 = hd data \<and> UART1_RxFlag (usart s1) = 0) \<and>
      LED_Twinkle_Mode s2 = hd data \<and> UART1_RxFlag (usart s2) = 0 \<and> u_state (usart s2) = State_Frame_Head \<and>
      fst (view (leds s2)) = fst (view (leds s1)) @ (snd (view (leds s1)), 5) # fst (show_of (hd data) (snd (view (leds s1)))) \<and>
      snd (view (leds s2)) = snd (show_of (hd data) (snd (view (leds s1))))) \<and>
    (\<forall>e b l d r r'. LEDcontrol_round e b l d r = Some r' \<longrightarrow> ticks (fst (view (leds r'))) \<le> ticks (fst (view (leds r))) + 613)"
proof -
  have id: "idle (usart s)" using assms(1,2) by (simp add: idle_def)
  obtain u where u: "usart_feed (usart s) (usart_frame data) = Some u" "idle u" "UART1_RxFlag u = 1"
    "USART1_RxBuffer u = hd data # tl data @ drop (length data) (USART1_RxBuffer (usart s))"
    using frame_idle [OF id assms(4,5)] assms(4) by (cases data) auto
  have "\<exists>s1 s2. LEDcontrol_round early between late during s = Some s1 \<and> LEDcontrol_round next_early [] [] [] s1 = Some s2 \<and>
      (early = usart_frame data \<longrightarrow> LED_Twinkle_Mode s1 = hd data \<and> UART1_RxFlag (usart s1) = 0) \<and>
      LED_Twinkle_Mode s2 = hd data \<and> usart s2 = u\<lparr>UART1_RxFlag := 0\<rparr>"
  proof (cases "early = usart_frame data")
    case True
    then have e: "between = []" "late = []" "during = []" "next_early = []" using assms(6) by simp_all
    obtain w where w: "LEDcontrol_round early [] [] [] s = Some \<lparr>usart = u\<lparr>UART1_RxFlag := 0\<rparr>, LED_Twinkle_Mode = hd data, leds = w\<rparr>"
      using round_with_command [of s early u] u True by blast
    moreover obtain w' where "LEDcontrol_round [] [] [] [] \<lparr>usart = u\<lparr>UART1_RxFlag := 0\<rparr>, LED_Twinkle_Mode = hd data, leds = w\<rparr> =
        Some \<lparr>usart = u\<lparr>UART1_RxFlag := 0\<rparr>, LED_Twinkle_Mode = hd data, leds = w'\<rparr>"
      using round_without_command [of "\<lparr>usart = u\<lparr>UART1_RxFlag := 0\<rparr>, LED_Twinkle_Mode = hd data, leds = w\<rparr>" "[]" _ "[]" "[]" "[]"] by auto
    ultimately show ?thesis by (simp add: e)
  next
    case False
    obtain u1 u2 where f: "usart_feed (usart s) early = Some u1" "usart_feed u1 (between @ late @ during) = Some u2"
      "usart_feed u2 next_early = Some u"
      using u(1) unfolding assms(6) [symmetric] by (auto simp: usart_feed_append split: bind_splits)
    have rest: "between @ late @ during @ next_early \<noteq> []" using False assms(6) by (metis append_Nil2)
    have "UART1_RxFlag u1 \<noteq> 1" by (rule unfinished_frame [OF id assms(4-6) rest f(1) assms(3)])
    then obtain w where w: "LEDcontrol_round early between late during s = Some \<lparr>usart = u2, LED_Twinkle_Mode = LED_Twinkle_Mode s, leds = w\<rparr>"
      using round_without_command [OF f(1) _ f(2)] by blast
    moreover obtain w' where "LEDcontrol_round next_early [] [] [] \<lparr>usart = u2, LED_Twinkle_Mode = LED_Twinkle_Mode s, leds = w\<rparr> =
        Some \<lparr>usart = u\<lparr>UART1_RxFlag := 0\<rparr>, LED_Twinkle_Mode = hd data, leds = w'\<rparr>"
      using round_with_command [of "\<lparr>usart = u2, LED_Twinkle_Mode = LED_Twinkle_Mode s, leds = w\<rparr>" next_early u] f(3) u(3,4) by auto
    ultimately show ?thesis using False by auto
  qed
  then obtain s1 s2 where s: "LEDcontrol_round early between late during s = Some s1" "LEDcontrol_round next_early [] [] [] s1 = Some s2"
    "early = usart_frame data \<longrightarrow> LED_Twinkle_Mode s1 = hd data \<and> UART1_RxFlag (usart s1) = 0"
    "LED_Twinkle_Mode s2 = hd data" "usart s2 = u\<lparr>UART1_RxFlag := 0\<rparr>" by blast
  have "view (leds s2) = round_film (hd data) (view (leds s1))" using round_view [OF s(2)] s(4) by simp
  then have "fst (view (leds s2)) = fst (view (leds s1)) @ (snd (view (leds s1)), 5) # fst (show_of (hd data) (snd (view (leds s1))))"
    "snd (view (leds s2)) = snd (show_of (hd data) (snd (view (leds s1))))"
    by (simp_all add: round_film_def split: prod.split)
  then show ?thesis using s u(2) round_ticks by (auto simp: idle_def)
qed

definition led_start :: led_system where
  "led_start = \<lparr>usart = \<lparr>u_state = State_Frame_Head, u_length = 0, u_i = 0, u_cs = 0, USART1_RxBuffer = replicate 8 0, UART1_RxFlag = 0\<rparr>,
     LED_Twinkle_Mode = 0xff, leds = dark_board\<rparr>"

text \<open>Half of a command arrives while the lamps are switched, the rest during the next delay.\<close>

theorem led_command_obeyed_witness:
  "\<exists>s1 s2. LEDcontrol_round [] [] [] [0xFE, 1, 2] led_start = Some s1 \<and> LEDcontrol_round [2, 0xBE] [] [] [] s1 = Some s2 \<and>
    LED_Twinkle_Mode s2 = 2"
  using led_command_obeyed [of led_start "[2]" "[]" "[]" "[]" "[0xFE, 1, 2]" "[2, 0xBE]"]
  by (auto simp: led_start_def usart_frame_def xor_sum_def)

text \<open>Fact. The mode of a complete command is not safe in the buffer: when a frame with a wrong check byte
  follows before the thread has read the buffer, its data byte, which was refused, becomes the mode.\<close>

theorem refused_byte_becomes_mode:
  assumes "u_state (usart s) = State_Frame_Head" "length (USART1_RxBuffer (usart s)) = 8" "c \<noteq> x"
  shows "\<exists>s'. LEDcontrol_round (usart_frame [m] @ [0xFE, 1, x, c]) [] [] [] s = Some s' \<and> LED_Twinkle_Mode s' = x"
proof -
  have "idle (usart s)" using assms(1,2) by (simp add: idle_def)
  then obtain u where u: "usart_feed (usart s) (usart_frame [m]) = Some u" "idle u" "UART1_RxFlag u = 1"
    using frame_idle [of "usart s" "[m]"] by auto
  obtain u' where u': "usart_feed u [0xFE, 1, x, c] = Some u'" "idle u'" "UART1_RxFlag u' = 1"
    "USART1_RxBuffer u' = (USART1_RxBuffer u)[0 := x]" using bad_frame_stored [OF u(2) assms(3)] u(3) by auto
  then have "rd (USART1_RxBuffer u') 0 = Some x" using u(2) by (simp add: rd_def idle_def)
  moreover have "usart_feed (usart s) (usart_frame [m] @ [0xFE, 1, x, c]) = Some u'"
    unfolding usart_feed_append u(1) bind.bind_lunit by (rule u'(1))
  ultimately show ?thesis using u' by (simp add: LEDcontrol_round_def del: append.simps)
qed

theorem refused_byte_becomes_mode_witness:
  "\<exists>s'. LEDcontrol_round ([0xFE, 1, 0, 0, 0xBE] @ [0xFE, 1, 1, 7]) [] [] [] led_start = Some s' \<and> LED_Twinkle_Mode s' = 1"
  using refused_byte_becomes_mode [of led_start 7 1 0] by (simp add: led_start_def usart_frame_def xor_sum_def)

text \<open>Fact. A command that is complete between the read of the buffer and the clearing of the flag is lost:
  its mode is in the buffer, but the thread keeps the mode before it as long as nothing else arrives.\<close>

theorem late_command_is_lost:
  assumes "u_state (usart s) = State_Frame_Head" "length (USART1_RxBuffer (usart s)) = 8"
  shows "\<exists>s1 s2. LEDcontrol_round (usart_frame [m1]) [] (usart_frame [m2]) [] s = Some s1 \<and>
    LEDcontrol_round [] [] [] [] s1 = Some s2 \<and> USART1_RxBuffer (usart s2) ! 0 = m2 \<and> LED_Twinkle_Mode s2 = m1"
proof -
  have "idle (usart s)" using assms by (simp add: idle_def)
  then obtain u where u: "usart_feed (usart s) (usart_frame [m1]) = Some u" "idle u" "UART1_RxFlag u = 1"
    "USART1_RxBuffer u = m1 # drop 1 (USART1_RxBuffer (usart s))"
    using frame_idle [of "usart s" "[m1]"] by auto
  obtain u' where u': "usart_feed u (usart_frame [m2]) = Some u'" "USART1_RxBuffer u' = m2 # drop 1 (USART1_RxBuffer u)"
    using frame_idle [OF u(2), of "[m2]"] by auto
  let ?s1 = "\<lparr>usart = u'\<lparr>UART1_RxFlag := 0\<rparr>, LED_Twinkle_Mode = m1, leds = twinkle_switch m1 (rt_thread_delay 5 (leds s))\<rparr>"
  have "LEDcontrol_round (usart_frame [m1]) [] (usart_frame [m2]) [] s = Some ?s1"
    using u u' by (simp add: LEDcontrol_round_def rd_def)
  then show ?thesis using idle_round [of ?s1] u'(2) by simp
qed

theorem late_command_is_lost_witness:
  "\<exists>s1 s2. LEDcontrol_round [0xFE, 1, 1, 1, 0xBE] [] [0xFE, 1, 0, 0, 0xBE] [] led_start = Some s1 \<and>
    LEDcontrol_round [] [] [] [] s1 = Some s2 \<and> LED_Twinkle_Mode s2 = 1"
  using late_command_is_lost [of led_start 1 0] by (auto simp: led_start_def usart_frame_def xor_sum_def)

end
