(* ===== verification/CharLib.thy ===== *)
theory CharLib imports Prelude
begin

text \<open>
  The character classes of \<open>common_lib/usdl_tools.c\<close>, and the digits of a number, the reference against which the
  printing and parsing routines of the following theories are read.
\<close>

subsection \<open>Character classes\<close>

definition CType :: "u8 list" where
  "CType = [
     0x08, 0x08, 0x08, 0x08, 0x08, 0x08, 0x08, 0x08, 0x08, 0x28, 0x28, 0x28, 0x28, 0x28, 0x08, 0x08,
     0x08, 0x08, 0x08, 0x08, 0x08, 0x08, 0x08, 0x08, 0x08, 0x08, 0x08, 0x08, 0x08, 0x08, 0x08, 0x08,
     0xA0, 0x10, 0x10, 0x10, 0x10, 0x10, 0x10, 0x10, 0x10, 0x10, 0x10, 0x10, 0x10, 0x10, 0x10, 0x10,
     0x04, 0x04, 0x04, 0x04, 0x04, 0x04, 0x04, 0x04, 0x04, 0x04, 0x10, 0x10, 0x10, 0x10, 0x10, 0x10,
     0x10, 0x41, 0x41, 0x41, 0x41, 0x41, 0x41, 0x01, 0x01, 0x01, 0x01, 0x01, 0x01, 0x01, 0x01, 0x01,
     0x01, 0x01, 0x01, 0x01, 0x01, 0x01, 0x01, 0x01, 0x01, 0x01, 0x01, 0x10, 0x10, 0x10, 0x10, 0x10,
     0x10, 0x42, 0x42, 0x42, 0x42, 0x42, 0x42, 0x02, 0x02, 0x02, 0x02, 0x02, 0x02, 0x02, 0x02, 0x02,
     0x02, 0x02, 0x02, 0x02, 0x02, 0x02, 0x02, 0x02, 0x02, 0x02, 0x02, 0x10, 0x10, 0x10, 0x10, 0x08,
     0x00, 0x00, 0x00, 0x00, 0x00, 0x00, 0x00, 0x00, 0x00, 0x00, 0x00, 0x00, 0x00, 0x00, 0x00, 0x00,
     0x00, 0x00, 0x00, 0x00, 0x00, 0x00, 0x00, 0x00, 0x00, 0x00, 0x00, 0x00, 0x00, 0x00, 0x00, 0x00,
     0xA0, 0x10, 0x10, 0x10, 0x10, 0x10, 0x10, 0x10, 0x10, 0x10, 0x10, 0x10, 0x10, 0x10, 0x10, 0x10,
     0x10, 0x10, 0x10, 0x10, 0x10, 0x10, 0x10, 0x10, 0x10, 0x10, 0x10, 0x10, 0x10, 0x10, 0x10, 0x10,
     0x01, 0x01, 0x01, 0x01, 0x01, 0x01, 0x01, 0x01, 0x01, 0x01, 0x01, 0x01, 0x01, 0x01, 0x01, 0x01,
     0x01, 0x01, 0x01, 0x01, 0x01, 0x01, 0x01, 0x10, 0x01, 0x01, 0x01, 0x01, 0x01, 0x01, 0x01, 0x02,
     0x02, 0x02, 0x02, 0x02, 0x02, 0x02, 0x02, 0x02, 0x02, 0x02, 0x02, 0x02, 0x02, 0x02, 0x02, 0x02,
     0x02, 0x02, 0x02, 0x02, 0x02, 0x02, 0x02, 0x10, 0x02, 0x02, 0x02, 0x02, 0x02, 0x02, 0x02, 0x02]"

definition IS_SPACE :: "u8 \<Rightarrow> bool" where "IS_SPACE c \<longleftrightarrow> CType ! unat c AND 0x20 \<noteq> 0"
definition IS_DIGIT :: "u8 \<Rightarrow> bool" where "IS_DIGIT c \<longleftrightarrow> CType ! unat c AND 0x04 \<noteq> 0"
definition IS_ALPHA :: "u8 \<Rightarrow> bool" where "IS_ALPHA c \<longleftrightarrow> CType ! unat c AND (0x01 OR 0x02) \<noteq> 0"
definition IS_LOWER :: "u8 \<Rightarrow> bool" where "IS_LOWER c \<longleftrightarrow> CType ! unat c AND 0x02 \<noteq> 0"

definition IS_XDIGIT :: "u8 \<Rightarrow> bool" where "IS_XDIGIT c \<longleftrightarrow> CType ! unat c AND (0x04 OR 0x40) \<noteq> 0"

definition TO_UPPER :: "u8 \<Rightarrow> int" where
  "TO_UPPER c = (if IS_LOWER c then int (unat c) - 97 + 65 else int (unat c))"

subsection \<open>Digits\<close>

text \<open>The digits of a number, the lowest first, and the character of a digit.\<close>

function digits_of :: "nat \<Rightarrow> nat \<Rightarrow> nat list" where
  "digits_of r n = (if r < 2 then [] else if n div r > 0 then n mod r # digits_of r (n div r) else [n mod r])"
  by pat_completeness auto
termination by (relation "measure snd") (auto intro!: div_less_dividend intro: gr0I)

declare digits_of.simps [simp del]

definition digit_char :: "nat \<Rightarrow> u8" where
  "digit_char d = (if d > 9 then of_nat (d - 10 + 97) else of_nat (d + 48))"

definition value_of :: "nat \<Rightarrow> nat list \<Rightarrow> nat" where
  "value_of r ds = foldl (\<lambda>n d. n * r + d) 0 ds"

lemma digits_length: "n < 2 ^ Suc k \<Longrightarrow> length (digits_of r n) \<le> Suc k"
proof (induction k arbitrary: n)
  case 0
  then show ?case by (subst digits_of.simps) auto
next
  case (Suc k)
  have "n div r < 2 ^ Suc k" if "2 \<le> r"
  proof -
    have "n div r \<le> n div 2" using that by (simp add: div_le_mono2)
    then show ?thesis using Suc.prems by simp
  qed
  then show ?case using Suc.IH by (subst digits_of.simps) simp
qed

lemma digits_facts:
  assumes "2 \<le> r"
  shows "digits_of r n \<noteq> []" "\<forall>d \<in> set (digits_of r n). d < r" "value_of r (rev (digits_of r n)) = n"
    "n \<noteq> 0 \<Longrightarrow> last (digits_of r n) \<noteq> 0" "n = 0 \<Longrightarrow> digits_of r n = [0]"
proof -
  show "digits_of r n \<noteq> []" using assms by (subst digits_of.simps) simp
  show "n = 0 \<Longrightarrow> digits_of r n = [0]" using assms by (subst digits_of.simps) simp
  have "(\<forall>d \<in> set (digits_of r n). d < r) \<and> value_of r (rev (digits_of r n)) = n \<and> (n \<noteq> 0 \<longrightarrow> last (digits_of r n) \<noteq> 0)"
    using assms
  proof (induction n rule: less_induct)
    case (less n)
    show ?case
    proof (cases "n div r > 0")
      case True
      then have d: "digits_of r n = n mod r # digits_of r (n div r)" using less.prems by (subst digits_of.simps) simp
      have "n div r < n" using less.prems True by (intro div_less_dividend) (auto intro: gr0I)
      then have "(\<forall>d \<in> set (digits_of r (n div r)). d < r) \<and> value_of r (rev (digits_of r (n div r))) = n div r \<and>
         last (digits_of r (n div r)) \<noteq> 0"
        using less.IH less.prems True by auto
      moreover have "digits_of r (n div r) \<noteq> []" using less.prems by (subst digits_of.simps) simp
      ultimately show ?thesis using less.prems by (auto simp: d value_of_def)
    next
      case False
      then have "n < r" using less.prems by (auto simp: div_eq_0_iff)
      moreover have "digits_of r n = [n mod r]" using False less.prems by (subst digits_of.simps) simp
      ultimately show ?thesis using less.prems False by (auto simp: value_of_def div_eq_0_iff)
    qed
  qed
  then show "\<forall>d \<in> set (digits_of r n). d < r" "value_of r (rev (digits_of r n)) = n" "n \<noteq> 0 \<Longrightarrow> last (digits_of r n) \<noteq> 0"
    by blast+
qed

text \<open>Digits with another alphabet, as \<open>VprintfNumber\<close> and \<open>HexList\<close> have it.\<close>

lemma digits_step: "2 \<le> r \<Longrightarrow> digits_of r n = (if n div r > 0 then n mod r # digits_of r (n div r) else [n mod r])"
  by (subst digits_of.simps) simp

lemma unat_u64_u32: "unat (ucast (w :: u32) :: u64) = unat w"
  by (simp add: unat_ucast less_imp_le mod_less [OF order_less_trans [OF unat_u32_less]])

end
