(* ===== verification/PrintLib.thy ===== *)
theory PrintLib imports CharLib
begin

text \<open>
  \<open>common_lib/usdl_io.c\<close>, output: \<open>Vprintf\<close> hands each character to a function, \<open>Vsnprintf\<close> stores it in
  a buffer of a given size, and the two share their text line by line but for that. The shared part is
  written once over a \<open>printer\<close>, the operations in which the two differ, and each function is the shared part
  with its own printer; the first theorem says what the two have in common, as an equation about their results.

  \<^item> A format string is the list of bytes from the pointer on, with its final zero; running off its end is
    \<open>None\<close>. So is a width or precision too large for an \<open>s32\<close>, whose computation the C standard leaves
    undefined.  What is subtracted from a width that fits is exact (\<open>int\<close>): the code's \<open>s32\<close> would overflow only for a
    precision within a few units of \<open>2 ^ 31\<close>.
  \<^item> The variable arguments are the words on the stack: \<open>VA_ARG\<close> takes one word for 32-bit types and two, the low
    one first, for 64-bit types. \<open>strs\<close> gives the bytes from an address on (\<open>None\<close>: no valid address);
    these strings do not overlap the buffer that \<open>Vsnprintf\<close> fills.
  \<^item> The stores of \<open>%n\<close> are the list of the addresses and values written.
\<close>

subsection \<open>Flags and arguments\<close>

definition ZEROPAD :: u32 where "ZEROPAD = 1"
definition SIGN :: u32 where "SIGN = 2"
definition PLUS :: u32 where "PLUS = 4"
definition SPACE :: u32 where "SPACE = 8"
definition LEFT :: u32 where "LEFT = 16"
definition SPECIAL :: u32 where "SPECIAL = 32"
definition LARGE :: u32 where "LARGE = 64"

definition small_digits :: "u8 list" where
  "small_digits = [48, 49, 50, 51, 52, 53, 54, 55, 56, 57, 97, 98, 99, 100, 101, 102, 103, 104, 105, 106, 107, 108, 109,
     110, 111, 112, 113, 114, 115, 116, 117, 118, 119, 120, 121, 122]"

definition large_digits :: "u8 list" where
  "large_digits = [48, 49, 50, 51, 52, 53, 54, 55, 56, 57, 65, 66, 67, 68, 69, 70, 71, 72, 73, 74, 75, 76, 77,
     78, 79, 80, 81, 82, 83, 84, 85, 86, 87, 88, 89, 90]"

fun va_u32 :: "u32 list \<Rightarrow> (u32 \<times> u32 list) option" where
  "va_u32 [] = None"
| "va_u32 (w # args) = Some (w, args)"

fun va_u64 :: "u32 list \<Rightarrow> (u64 \<times> u32 list) option" where
  "va_u64 (l # h # args) = Some (ucast l OR push_bit 32 (ucast h), args)"
| "va_u64 _ = None"

fun skip_atoi :: "u8 list \<Rightarrow> int \<Rightarrow> (int \<times> u8 list) option" where
  "skip_atoi [] i = None"
| "skip_atoi (c # s) i =
     (if 48 \<le> c \<and> c \<le> 57 then
        (if 2147483647 < i * 10 + uint c then None else skip_atoi s (i * 10 + uint c - 48))
      else Some (i, c # s))"

subsection \<open>Conversion specifications\<close>

fun parse_flags :: "u32 \<Rightarrow> u8 list \<Rightarrow> (u32 \<times> u8 list) option" where
  "parse_flags flags [] = None"
| "parse_flags flags (c # f) =
     (if c = 45 then parse_flags (flags OR LEFT) f
      else if c = 43 then parse_flags (flags OR PLUS) f
      else if c = 32 then parse_flags (flags OR SPACE) f
      else if c = 35 then parse_flags (flags OR SPECIAL) f
      else if c = 48 then parse_flags (flags OR ZEROPAD) f
      else Some (flags, c # f))"

fun parse_width :: "u32 \<Rightarrow> u32 list \<Rightarrow> u8 list \<Rightarrow> (u32 \<times> int \<times> u32 list \<times> u8 list) option" where
  "parse_width flags args [] = None"
| "parse_width flags args (c # f) =
     (if 48 \<le> c \<and> c \<le> 57 then do { (field_width, f) \<leftarrow> skip_atoi (c # f) 0; Some (flags, field_width, args, f) }
      else if c = 42 then do {
        (w, args) \<leftarrow> va_u32 args;
        let field_width = sint w;
        if field_width = - 2147483648 then None
        else if field_width < 0 then Some (flags OR LEFT, - field_width, args, f)
        else Some (flags, field_width, args, f) }
      else Some (flags, - 1, args, c # f))"

fun parse_precision :: "u32 list \<Rightarrow> u8 list \<Rightarrow> (int \<times> u32 list \<times> u8 list) option" where
  "parse_precision args [] = None"
| "parse_precision args (c # f) =
     (if c = 46 then
        (case f of [] \<Rightarrow> None
         | c # f \<Rightarrow> do {
             (precision, args, f) \<leftarrow>
               (if 48 \<le> c \<and> c \<le> 57 then do { (p, f) \<leftarrow> skip_atoi (c # f) 0; Some (p, args, f) }
                else if c = 42 then do { (w, args) \<leftarrow> va_u32 args; Some (sint w, args, f) }
                else Some (- 1, args, c # f));
             Some (if precision < 0 then 0 else precision, args, f) })
      else Some (- 1, args, c # f))"

text \<open>The qualifier is a character, or 0 for the \<open>-1\<close> of the code, which is no character either.\<close>

fun parse_qualifier :: "u8 list \<Rightarrow> (u8 \<times> u8 list) option" where
  "parse_qualifier [] = None"
| "parse_qualifier (c # f) =
     (if c = 104 \<or> c = 108 \<or> c = 76 \<or> c = 90 \<or> c = 122 then
        (case f of [] \<Rightarrow> None | d # f' \<Rightarrow> if c = 108 \<and> d = 108 then Some (76, f') else Some (c, f))
      else Some (0, c # f))"

text \<open>The number of a numeric conversion, by its qualifier.\<close>

definition fetch_number :: "u8 \<Rightarrow> u32 \<Rightarrow> u32 list \<Rightarrow> (u64 \<times> u32 list) option" where
  "fetch_number qualifier flags args =
     (if qualifier = 76 then va_u64 args
      else do {
        (v, args) \<leftarrow> va_u32 args;
        Some (if qualifier = 108 then if flags AND SIGN \<noteq> 0 then scast v else ucast v
              else if qualifier = 90 \<or> qualifier = 122 then scast v
              else if qualifier = 104 then if flags AND SIGN \<noteq> 0 then scast (ucast v :: u16) else ucast (ucast v :: u16)
              else if flags AND SIGN \<noteq> 0 then scast v else ucast v, args) })"

subsection \<open>The loops of the printing functions\<close>

text \<open>\<open>while (size-- > 0) output(c)\<close>\<close>

function pad_loop :: "('s \<Rightarrow> u8 \<Rightarrow> 's option) \<Rightarrow> u8 \<Rightarrow> int \<Rightarrow> 's \<Rightarrow> ('s \<times> int) option" where
  "pad_loop put c sz s =
     (if sz > 0 then do { s \<leftarrow> put s c; pad_loop put c (sz - 1) s } else Some (s, sz - 1))"
  by pat_completeness auto
termination by (relation "measure (\<lambda>(put, c, sz, s). nat sz)") auto

text \<open>\<open>while (--field_width > 0) output(' ')\<close>\<close>

function pad_char_loop :: "('s \<Rightarrow> u8 \<Rightarrow> 's option) \<Rightarrow> int \<Rightarrow> 's \<Rightarrow> ('s \<times> int) option" where
  "pad_char_loop put field_width s =
     (if field_width - 1 > 0 then do { s \<leftarrow> put s 32; pad_char_loop put (field_width - 1) s } else Some (s, field_width - 1))"
  by pat_completeness auto
termination by (relation "measure (\<lambda>(put, field_width, s). nat field_width)") auto

text \<open>\<open>while (len < field_width--) output(' ')\<close>\<close>

function pad_str_loop :: "('s \<Rightarrow> u8 \<Rightarrow> 's option) \<Rightarrow> int \<Rightarrow> int \<Rightarrow> 's \<Rightarrow> ('s \<times> int) option" where
  "pad_str_loop put len field_width s =
     (if len < field_width then do { s \<leftarrow> put s 32; pad_str_loop put len (field_width - 1) s } else Some (s, field_width - 1))"
  by pat_completeness auto
termination by (relation "measure (\<lambda>(put, len, field_width, s). nat (field_width - len))") auto

text \<open>\<open>while (i < precision--) output('0')\<close>\<close>

function zeros_loop :: "('s \<Rightarrow> u8 \<Rightarrow> 's option) \<Rightarrow> int \<Rightarrow> int \<Rightarrow> 's \<Rightarrow> 's option" where
  "zeros_loop put i precision s =
     (if i < precision then do { s \<leftarrow> put s 48; zeros_loop put i (precision - 1) s } else Some s)"
  by pat_completeness auto
termination by (relation "measure (\<lambda>(put, i, precision, s). nat (precision - i))") auto

declare pad_loop.simps [simp del] pad_char_loop.simps [simp del] pad_str_loop.simps [simp del] zeros_loop.simps [simp del]

text \<open>The characters of a list one after the other: \<open>tmp\<close> from its end, or those of a string.\<close>

fun put_all :: "('s \<Rightarrow> u8 \<Rightarrow> 's option) \<Rightarrow> u8 list \<Rightarrow> 's \<Rightarrow> 's option" where
  "put_all put [] s = Some s"
| "put_all put (c # cs) s = do { s \<leftarrow> put s c; put_all put cs s }"

text \<open>The digits of \<open>num\<close> that \<open>tmp\<close> gets, the lowest first; both lines read \<open>num\<close> through \<open>(u32)\<close>.\<close>

function number_digits :: "u8 list \<Rightarrow> nat \<Rightarrow> nat \<Rightarrow> u8 list" where
  "number_digits digits num base =
     (if num = 0 \<or> base < 2 then []
      else digits ! (num mod U32_RANGE mod base) # number_digits digits (num mod U32_RANGE div base) base)"
  by pat_completeness auto
termination
proof (relation "measure (\<lambda>(digits, num, base). num)")
  fix num base :: nat assume n: "\<not> (num = 0 \<or> base < 2)"
  have "num mod U32_RANGE div base \<le> num div base" by (simp add: div_le_mono)
  also have "\<dots> < num" using n by (intro div_less_dividend) auto
  finally show "((digits, num mod U32_RANGE div base, base), (digits, num, base)) \<in> measure (\<lambda>(digits, num, base). num)"
    for digits :: "u8 list" by simp
qed simp

declare number_digits.simps [simp del]

subsection \<open>Numbers\<close>

definition number_body :: "('s \<Rightarrow> u8 \<Rightarrow> 's option) \<Rightarrow> u64 \<Rightarrow> nat \<Rightarrow> int \<Rightarrow> int \<Rightarrow> u32 \<Rightarrow> 's \<Rightarrow> 's option" where
  "number_body put num base sz precision typ s = do {
     let digits = (if typ AND LARGE \<noteq> 0 then large_digits else small_digits);
     let typ = (if typ AND LEFT \<noteq> 0 then typ AND NOT ZEROPAD else typ);
     let c = (if typ AND ZEROPAD \<noteq> 0 then 48 else 32);
     let (sign, num, sz) =
       (if typ AND SIGN \<noteq> 0 then
          if sint num < 0 then (45, - num, sz - 1)
          else if typ AND PLUS \<noteq> 0 then (43, num, sz - 1)
          else if typ AND SPACE \<noteq> 0 then (32, num, sz - 1)
          else (0, num, sz)
        else (0, num, sz));
     let sz = (if typ AND SPECIAL \<noteq> 0 then if base = 16 then sz - 2 else if base = 8 then sz - 1 else sz else sz);
     let tmp = (if num = 0 then [48] else number_digits digits (unat num) base);
     let i = int (length tmp);
     let precision = (if i > precision then i else precision);
     let sz = sz - precision;
     (s, sz) \<leftarrow> (if typ AND (ZEROPAD + LEFT) = 0 then pad_loop put 32 sz s else Some (s, sz));
     s \<leftarrow> (if sign \<noteq> 0 then put s sign else Some s);
     s \<leftarrow> (if typ AND SPECIAL \<noteq> 0 then
             if base = 8 then put s 48
             else if base = 16 then do { s \<leftarrow> put s 48; put s (digits ! 33) }
             else Some s
           else Some s);
     (s, sz) \<leftarrow> (if typ AND LEFT = 0 then pad_loop put c sz s else Some (s, sz));
     s \<leftarrow> zeros_loop put i precision s;
     s \<leftarrow> put_all put (rev tmp) s;
     (s, sz) \<leftarrow> pad_loop put 32 sz s;
     Some s }"


subsection \<open>One conversion\<close>

text \<open>The operations in which the two functions differ: the output of a character, of a number, and the count for \<open>%n\<close>.\<close>

record 's printer =
  pr_char :: "'s \<Rightarrow> u8 \<Rightarrow> 's option"
  pr_number :: "u64 \<Rightarrow> nat \<Rightarrow> int \<Rightarrow> int \<Rightarrow> u32 \<Rightarrow> 's \<Rightarrow> 's option"
  pr_count :: "'s \<Rightarrow> nat"

type_synonym stores = "(u32 \<times> nat) list"

text \<open>The length of a string up to a precision; a negative one, which is none, stays negative.\<close>

fun bounded_len :: "u8 list \<Rightarrow> int \<Rightarrow> nat option" where
  "bounded_len [] sc_count = (if sc_count = 0 then Some 0 else None)"
| "bounded_len (c # sc) sc_count =
     (if sc_count = 0 \<or> c = 0 then Some 0 else map_option Suc (bounded_len sc (sc_count - 1)))"

definition convert_c :: "'s printer \<Rightarrow> u32 \<Rightarrow> int \<Rightarrow> u32 list \<Rightarrow> 's \<Rightarrow> (u32 list \<times> 's) option" where
  "convert_c k flags field_width args s = do {
     (s, field_width) \<leftarrow> (if flags AND LEFT = 0 then pad_char_loop (pr_char k) field_width s else Some (s, field_width));
     (v, args) \<leftarrow> va_u32 args;
     s \<leftarrow> pr_char k s (ucast v);
     (s, field_width) \<leftarrow> pad_char_loop (pr_char k) field_width s;
     Some (args, s) }"

definition convert_s :: "'s printer \<Rightarrow> (u32 \<Rightarrow> u8 list option) \<Rightarrow> u32 \<Rightarrow> int \<Rightarrow> int \<Rightarrow> u32 list \<Rightarrow> 's \<Rightarrow> (u32 list \<times> 's) option" where
  "convert_s k strs flags field_width precision args s = do {
     (p, args) \<leftarrow> va_u32 args;
     str \<leftarrow> strs p;
     len \<leftarrow> bounded_len str precision;
     (s, field_width) \<leftarrow> (if flags AND LEFT = 0 then pad_str_loop (pr_char k) (int len) field_width s else Some (s, field_width));
     s \<leftarrow> put_all (pr_char k) (take len str) s;
     (s, field_width) \<leftarrow> pad_str_loop (pr_char k) (int len) field_width s;
     Some (args, s) }"

definition convert_number ::
    "'s printer \<Rightarrow> nat \<Rightarrow> u32 \<Rightarrow> int \<Rightarrow> int \<Rightarrow> u8 \<Rightarrow> u32 list \<Rightarrow> 's \<Rightarrow> (u32 list \<times> 's) option" where
  "convert_number k base flags field_width precision qualifier args s = do {
     (num, args) \<leftarrow> fetch_number qualifier flags args;
     s \<leftarrow> pr_number k num base field_width precision flags s;
     Some (args, s) }"

text \<open>The switch over the conversion character. \<open>frest\<close> is the format after it; the answer is the format that is left,
  the arguments that are left, the stores and the state of the printer.\<close>

definition convert :: "'s printer \<Rightarrow> (u32 \<Rightarrow> u8 list option) \<Rightarrow> u32 \<Rightarrow> int \<Rightarrow> int \<Rightarrow> u8 \<Rightarrow> u8 \<Rightarrow> u8 list \<Rightarrow>
    u32 list \<Rightarrow> stores \<Rightarrow> 's \<Rightarrow> (u8 list \<times> u32 list \<times> stores \<times> 's) option" where
  "convert k strs flags field_width precision qualifier c frest args ws s =
     (if c = 99 then do { (args, s) \<leftarrow> convert_c k flags field_width args s; Some (frest, args, ws, s) }
      else if c = 115 then do {
        (args, s) \<leftarrow> convert_s k strs flags field_width precision args s; Some (frest, args, ws, s) }
      else if c = 112 then do {
        let (field_width, flags) = (if field_width = - 1 then (8, flags OR ZEROPAD) else (field_width, flags));
        (v, args) \<leftarrow> va_u32 args;
        s \<leftarrow> pr_number k (ucast v) 16 field_width precision flags s;
        Some (frest, args, ws, s) }
      else if c = 110 then do { (ip, args) \<leftarrow> va_u32 args; Some (frest, args, ws @ [(ip, pr_count k s)], s) }
      else if c = 37 then do { s \<leftarrow> pr_char k s 37; Some (frest, args, ws, s) }
      else if c = 111 then do {
        (args, s) \<leftarrow> convert_number k 8 flags field_width precision qualifier args s; Some (frest, args, ws, s) }
      else if c = 88 then do {
        (args, s) \<leftarrow> convert_number k 16 (flags OR LARGE) field_width precision qualifier args s; Some (frest, args, ws, s) }
      else if c = 120 then do {
        (args, s) \<leftarrow> convert_number k 16 flags field_width precision qualifier args s; Some (frest, args, ws, s) }
      else if c = 100 \<or> c = 105 then do {
        (args, s) \<leftarrow> convert_number k 10 (flags OR SIGN) field_width precision qualifier args s; Some (frest, args, ws, s) }
      else if c = 117 then do {
        (args, s) \<leftarrow> convert_number k 10 flags field_width precision qualifier args s; Some (frest, args, ws, s) }
      else do {
        s \<leftarrow> pr_char k s 37;
        if c \<noteq> 0 then do { s \<leftarrow> pr_char k s c; Some (frest, args, ws, s) } else Some (c # frest, args, ws, s) })"

text \<open>From the flags to the qualifier.\<close>

definition conversion_spec :: "u32 list \<Rightarrow> u8 list \<Rightarrow> (u32 \<times> int \<times> int \<times> u8 \<times> u32 list \<times> u8 list) option" where
  "conversion_spec args f = do {
     (flags, f) \<leftarrow> parse_flags 0 f;
     (flags, field_width, args, f) \<leftarrow> parse_width flags args f;
     (precision, args, f) \<leftarrow> parse_precision args f;
     (qualifier, f) \<leftarrow> parse_qualifier f;
     Some (flags, field_width, precision, qualifier, args, f) }"

fun conversion :: "'s printer \<Rightarrow> (u32 \<Rightarrow> u8 list option) \<Rightarrow> u8 list \<Rightarrow> u32 list \<Rightarrow> stores \<Rightarrow> 's \<Rightarrow>
    (u8 list \<times> u32 list \<times> stores \<times> 's) option" where
  "conversion k strs f args ws s =
     (case conversion_spec args f of
        Some (flags, field_width, precision, qualifier, args, c # f) \<Rightarrow>
          convert k strs flags field_width precision qualifier c f args ws s
      | _ \<Rightarrow> None)"

declare conversion.simps [simp del]

subsection \<open>The format is consumed\<close>

lemma skip_atoi_rest: "skip_atoi f i = Some (j, g) \<Longrightarrow> length g \<le> length f"
  by (induction f i rule: skip_atoi.induct) (auto split: if_splits)

lemma parse_flags_rest: "parse_flags flags f = Some (flags', g) \<Longrightarrow> length g \<le> length f"
  by (induction flags f rule: parse_flags.induct) (auto split: if_splits)

lemma parse_width_rest: "parse_width flags args f = Some (flags', w, args', g) \<Longrightarrow> length g \<le> length f"
  by (cases f) (auto simp: Let_def split: if_splits bind_splits simp del: skip_atoi.simps dest!: skip_atoi_rest)

lemma parse_precision_rest: "parse_precision args f = Some (p, args', g) \<Longrightarrow> length g \<le> length f"
  by (cases f) (auto simp del: skip_atoi.simps split: if_splits bind_splits list.splits dest!: skip_atoi_rest)

lemma parse_qualifier_rest: "parse_qualifier f = Some (q, g) \<Longrightarrow> length g \<le> length f"
  by (cases f) (auto split: if_splits list.splits)

lemma conversion_spec_rest:
  assumes "conversion_spec args f = Some (flags, w, p, q, args', g)"
  shows "length g \<le> length f"
  using assms unfolding conversion_spec_def
  by (auto split: bind_splits dest!: parse_flags_rest parse_width_rest parse_precision_rest parse_qualifier_rest)

lemma convert_rest: "convert k strs fl w p q c frest args ws s = Some (g, r) \<Longrightarrow> length g \<le> Suc (length frest)"
  by (auto simp: convert_def Let_def split: if_splits bind_splits)

lemma conversion_rest: "conversion k strs f args ws s = Some (g, args', ws', s') \<Longrightarrow> length g \<le> length f"
  by (auto simp: conversion.simps dest!: convert_rest conversion_spec_rest split: option.splits list.splits)

subsection \<open>The functions\<close>

function format_loop :: "'s printer \<Rightarrow> (u32 \<Rightarrow> u8 list option) \<Rightarrow> u8 list \<Rightarrow> u32 list \<Rightarrow> stores \<Rightarrow> 's \<Rightarrow> (stores \<times> 's) option" where
  "format_loop k strs [] args ws s = None"
| "format_loop k strs (c # f) args ws s =
     (if c = 0 then Some (ws, s)
      else if c \<noteq> 37 then do { s \<leftarrow> pr_char k s c; format_loop k strs f args ws s }
      else do { (f, args, ws, s) \<leftarrow> conversion k strs f args ws s; format_loop k strs f args ws s })"
  by pat_completeness auto
termination
  by (relation "measure (\<lambda>(k, strs, f, args, ws, s). length f)") (auto dest: conversion_rest)

text \<open>The characters that went to \<open>output\<close>, and \<open>count\<close>. For a base that is none the code returns 0 as the count.\<close>

fun output_char :: "u8 list \<times> nat \<Rightarrow> u8 \<Rightarrow> (u8 list \<times> nat) option" where
  "output_char (out, count) c = Some (out @ [c], count + 1)"

definition VprintfNumber :: "u64 \<Rightarrow> nat \<Rightarrow> int \<Rightarrow> int \<Rightarrow> u32 \<Rightarrow> u8 list \<times> nat \<Rightarrow> (u8 list \<times> nat) option" where
  "VprintfNumber num base sz precision typ s =
     (if base < 2 \<or> 36 < base then Some (fst s, 0) else number_body output_char num base sz precision typ s)"

definition output_printer :: "(u8 list \<times> nat) printer" where
  "output_printer = \<lparr> pr_char = output_char, pr_number = VprintfNumber, pr_count = snd \<rparr>"

definition Vprintf :: "(u32 \<Rightarrow> u8 list option) \<Rightarrow> u8 list \<Rightarrow> u32 list \<Rightarrow> (nat \<times> u8 list \<times> stores) option" where
  "Vprintf strs format args = do {
     (ws, out, count) \<leftarrow> format_loop output_printer strs format args [] ([], 0);
     Some (count, out, ws) }"

definition Printf :: "(u32 \<Rightarrow> u8 list option) \<Rightarrow> u8 list \<Rightarrow> u32 list \<Rightarrow> (nat \<times> u8 list \<times> stores) option" where
  "Printf strs format args = Vprintf strs format args"

text \<open>The buffer at the address \<open>addr\<close>, and the index of \<open>str\<close> in it; \<open>limit\<close> is the address \<open>end\<close>. For a base
  that is none the code continues from the null pointer.\<close>

fun buffer_char :: "nat \<Rightarrow> nat \<Rightarrow> u8 list \<times> nat \<Rightarrow> u8 \<Rightarrow> (u8 list \<times> nat) option" where
  "buffer_char addr limit (buf, str) c =
     (if addr + str \<le> limit then do { buf \<leftarrow> wr buf str c; Some (buf, str + 1) } else Some (buf, str + 1))"

definition VsnprintfNumber :: "nat \<Rightarrow> nat \<Rightarrow> u64 \<Rightarrow> nat \<Rightarrow> int \<Rightarrow> int \<Rightarrow> u32 \<Rightarrow> u8 list \<times> nat \<Rightarrow> (u8 list \<times> nat) option" where
  "VsnprintfNumber addr limit num base sz precision typ s =
     (if base < 2 \<or> 36 < base then None else number_body (buffer_char addr limit) num base sz precision typ s)"

definition buffer_printer :: "nat \<Rightarrow> nat \<Rightarrow> (u8 list \<times> nat) printer" where
  "buffer_printer addr limit =
     \<lparr> pr_char = buffer_char addr limit, pr_number = VsnprintfNumber addr limit, pr_count = snd \<rparr>"

definition Vsnprintf :: "nat \<Rightarrow> u8 list \<Rightarrow> nat \<Rightarrow> (u32 \<Rightarrow> u8 list option) \<Rightarrow> u8 list \<Rightarrow> u32 list \<Rightarrow>
    (nat \<times> u8 list \<times> stores) option" where
  "Vsnprintf addr buf sz strs format args =
     (if 2147483647 < sz then Some (0, buf, [])
      else do {
        let limit = u32_sub (u32_add addr sz) 1;
        let (limit, sz) =
          (if limit < u32_sub addr 1 then (4294967295, u32_add (u32_sub 4294967295 addr) 1) else (limit, sz));
        (ws, buf, str) \<leftarrow> format_loop (buffer_printer addr limit) strs format args [] (buf, 0);
        buf \<leftarrow> (if addr + str \<le> limit then wr buf str 0
                else if 0 < sz then wr buf (limit - addr) 0
                else Some buf);
        Some (str, buf, ws) })"

definition Sprintf :: "nat \<Rightarrow> u8 list \<Rightarrow> (u32 \<Rightarrow> u8 list option) \<Rightarrow> u8 list \<Rightarrow> u32 list \<Rightarrow> (nat \<times> u8 list \<times> stores) option" where
  "Sprintf addr buf strs format args = Vsnprintf addr buf 2147483647 strs format args"

definition Snprintf :: "nat \<Rightarrow> u8 list \<Rightarrow> nat \<Rightarrow> (u32 \<Rightarrow> u8 list option) \<Rightarrow> u8 list \<Rightarrow> u32 list \<Rightarrow> (nat \<times> u8 list \<times> stores) option" where
  "Snprintf addr buf sz strs format args = Vsnprintf addr buf sz strs format args"

subsection \<open>What is printed\<close>

text \<open>Every loop prints a text that does not depend on the printer.\<close>

lemma put_all_append: "put_all put (xs @ ys) s = put_all put xs s \<bind> put_all put ys"
  by (induction xs arbitrary: s) (auto simp: bind_assoc intro!: bind_option_cong [OF refl])

lemma put_all_single: "put s c = put_all put [c] s"
  by (cases "put s c") simp_all

lemma pad_loop_text:
  "pad_loop put c sz s = put_all put (replicate (nat sz) c) s \<bind> (\<lambda>s. Some (s, (if sz > 0 then 0 else sz) - 1))"
proof (induction put c sz s rule: pad_loop.induct)
  case (1 put c sz s)
  show ?case
  proof (cases "sz > 0")
    case True
    then have "nat sz = Suc (nat (sz - 1))" by simp
    then show ?thesis using True 1 by (subst pad_loop.simps) (auto simp: bind_assoc intro!: bind_option_cong [OF refl])
  qed (subst pad_loop.simps, simp)
qed

lemma pad_char_loop_text:
  "pad_char_loop put w s = put_all put (replicate (nat (w - 1)) 32) s \<bind> (\<lambda>s. Some (s, (if w > 1 then 1 else w) - 1))"
proof (induction put w s rule: pad_char_loop.induct)
  case (1 put w s)
  show ?case
  proof (cases "w - 1 > 0")
    case True
    then have "nat (w - 1) = Suc (nat (w - 1 - 1))" by simp
    then show ?thesis using True 1 by (subst pad_char_loop.simps) (auto simp: bind_assoc intro!: bind_option_cong [OF refl])
  qed (subst pad_char_loop.simps, simp)
qed

lemma pad_str_loop_text:
  "pad_str_loop put len w s =
     put_all put (replicate (nat (w - len)) 32) s \<bind> (\<lambda>s. Some (s, (if w > len then len else w) - 1))"
proof (induction put len w s rule: pad_str_loop.induct)
  case (1 put len w s)
  show ?case
  proof (cases "len < w")
    case True
    then have "nat (w - len) = Suc (nat (w - 1 - len))" by simp
    then show ?thesis using True 1 by (subst pad_str_loop.simps) (auto simp: bind_assoc intro!: bind_option_cong [OF refl])
  qed (subst pad_str_loop.simps, simp)
qed

lemma zeros_loop_text: "zeros_loop put i p s = put_all put (replicate (nat (p - i)) 48) s"
proof (induction put i p s rule: zeros_loop.induct)
  case (1 put i p s)
  show ?case
  proof (cases "i < p")
    case True
    then have "nat (p - i) = Suc (nat (p - 1 - i))" by simp
    then show ?thesis using True 1 by (subst zeros_loop.simps) (auto intro!: bind_option_cong [OF refl])
  qed (subst zeros_loop.simps, simp)
qed

text \<open>The digits are those of the number modulo \<open>2 ^ 32\<close>.\<close>

lemma number_digits_are:
  assumes "2 \<le> base" "n \<noteq> 0"
  shows "number_digits digits n base = map (\<lambda>d. digits ! d) (digits_of base (n mod U32_RANGE))"
  using assms
proof (induction n rule: less_induct)
  case (less n)
  let ?m = "n mod U32_RANGE"
  have s: "number_digits digits n base = digits ! (?m mod base) # number_digits digits (?m div base) base"
    using less.prems by (subst number_digits.simps) simp
  show ?case
  proof (cases "?m div base = 0")
    case True
    then have "number_digits digits (?m div base) base = []" by (subst number_digits.simps) simp
    then show ?thesis using s True digits_step [OF less.prems(1), of ?m] by simp
  next
    case False
    have l: "?m div base < U32_RANGE" by (rule le_less_trans [OF div_le_dividend]) simp
    have "?m div base < ?m" using False less.prems(1) by (intro div_less_dividend) (auto intro: gr0I)
    then have "?m div base < n" using mod_less_eq_dividend [of n U32_RANGE] by linarith
    then have "number_digits digits (?m div base) base = map (\<lambda>d. digits ! d) (digits_of base (?m div base))"
      using less.IH [OF _ less.prems(1) False] l by simp
    then show ?thesis using s False digits_step [OF less.prems(1), of ?m] by simp
  qed
qed

text \<open>The layout of a number: a sign, a prefix, zeros up to the precision and the digits, filled up to the width with
  spaces behind it (\<open>LEFT\<close>), zeros after the prefix (\<open>ZEROPAD\<close>) or spaces in front.\<close>

definition number_sign :: "u64 \<Rightarrow> u32 \<Rightarrow> u8 list" where
  "number_sign num typ =
     (if typ AND SIGN = 0 then [] else if sint num < 0 then [45] else if typ AND PLUS \<noteq> 0 then [43]
      else if typ AND SPACE \<noteq> 0 then [32] else [])"

definition number_value :: "u64 \<Rightarrow> u32 \<Rightarrow> nat" where
  "number_value num typ = unat (if typ AND SIGN \<noteq> 0 \<and> sint num < 0 then - num else num) mod U32_RANGE"

definition digit_set :: "u32 \<Rightarrow> u8 list" where
  "digit_set typ = (if typ AND LARGE \<noteq> 0 then large_digits else small_digits)"

definition number_prefix :: "nat \<Rightarrow> u32 \<Rightarrow> u8 list" where
  "number_prefix base typ =
     (if typ AND SPECIAL = 0 then [] else if base = 8 then [48] else if base = 16 then [48, digit_set typ ! 33] else [])"

definition number_text :: "u64 \<Rightarrow> nat \<Rightarrow> int \<Rightarrow> int \<Rightarrow> u32 \<Rightarrow> u8 list" where
  "number_text num base sz precision typ =
     (let ds = map (\<lambda>d. digit_set typ ! d) (rev (digits_of base (number_value num typ)));
          front = number_sign num typ @ number_prefix base typ;
          body = replicate (nat (precision - int (length ds))) 48 @ ds;
          fill = nat (sz - int (length front + length body))
      in if typ AND LEFT \<noteq> 0 then front @ body @ replicate fill 32
         else if typ AND ZEROPAD \<noteq> 0 then front @ replicate fill 48 @ body
         else replicate fill 32 @ front @ body)"

lemma flag_bits:
  fixes t :: u32
  shows "(t AND NOT ZEROPAD) AND SIGN = t AND SIGN" "(t AND NOT ZEROPAD) AND PLUS = t AND PLUS"
    "(t AND NOT ZEROPAD) AND SPACE = t AND SPACE" "(t AND NOT ZEROPAD) AND LEFT = t AND LEFT"
    "(t AND NOT ZEROPAD) AND SPECIAL = t AND SPECIAL" "(t AND NOT ZEROPAD) AND ZEROPAD = 0"
    "t AND (ZEROPAD + LEFT) = 0 \<longleftrightarrow> t AND ZEROPAD = 0 \<and> t AND LEFT = 0"
proof -
  show "(t AND NOT ZEROPAD) AND SIGN = t AND SIGN" "(t AND NOT ZEROPAD) AND PLUS = t AND PLUS"
    "(t AND NOT ZEROPAD) AND SPACE = t AND SPACE" "(t AND NOT ZEROPAD) AND LEFT = t AND LEFT"
    "(t AND NOT ZEROPAD) AND SPECIAL = t AND SPECIAL" "(t AND NOT ZEROPAD) AND ZEROPAD = 0"
    by (simp_all add: ZEROPAD_def SIGN_def PLUS_def SPACE_def LEFT_def SPECIAL_def and.assoc)
  have "ZEROPAD + LEFT = ZEROPAD OR LEFT" by (simp add: ZEROPAD_def LEFT_def)
  then have "t AND (ZEROPAD + LEFT) = (t AND ZEROPAD) OR (t AND LEFT)" by (simp add: bit.conj_disj_distrib)
  then show "t AND (ZEROPAD + LEFT) = 0 \<longleftrightarrow> t AND ZEROPAD = 0 \<and> t AND LEFT = 0" by (simp add: or_eq_0_iff)
qed

lemma number_tmp:
  assumes "2 \<le> base"
  shows "(if num = 0 then [48] else number_digits (digit_set typ) (unat num) base) =
     map (\<lambda>d. digit_set typ ! d) (digits_of base (unat num mod U32_RANGE))"
proof (cases "num = 0")
  case True
  then show ?thesis using digits_step [OF assms, of 0] by (simp add: digit_set_def small_digits_def large_digits_def)
next
  case False
  then have "unat num \<noteq> 0" by (simp add: unat_eq_0)
  then show ?thesis using False number_digits_are [OF assms] by simp
qed

lemma put_all_Nil: "put_all put [] = Some"
  by (rule ext) simp

lemma put_all_bind:
  "put_all put xs s \<bind> put_all put ys = put_all put (xs @ ys) s"
  "put_all put xs s \<bind> (\<lambda>s. put_all put ys s \<bind> f) = put_all put (xs @ ys) s \<bind> f"
  by (simp_all add: put_all_append bind_assoc)

lemma put_bind:
  "put s c \<bind> put_all put ys = put_all put (c # ys) s"
  "put s c \<bind> (\<lambda>s. put_all put ys s \<bind> f) = put_all put (c # ys) s \<bind> f"
  by (simp_all add: bind_assoc)

lemma if_put: "(if b then put_all put xs s else Some s) = put_all put (if b then xs else []) s"
  by simp

lemma sign_put: "(if c \<noteq> 0 then put s c else Some s) = put_all put (if c \<noteq> 0 then [c] else []) s"
  using put_all_single [of put s c] by simp

lemma prefix_put:
  "(if t then if b = (8::nat) then put s 48 else if b = 16 then do { s \<leftarrow> put s 48; put s x } else Some s else Some s) =
   put_all put (if t then if b = 8 then [48] else if b = 16 then [48, x] else [] else []) s"
  by (auto simp: put_all_Nil intro!: bind_option_cong [OF refl])

lemma pad_part:
  "(if b then pad_loop put c sz s else Some (s, sz)) =
   put_all put (if b then replicate (nat sz) c else []) s \<bind>
     (\<lambda>s. Some (s, if b then (if sz > 0 then 0 else sz) - 1 else sz))"
  by (simp add: pad_loop_text)

lemma number_body_text:
  assumes "2 \<le> base"
  shows "number_body put num base sz p typ s = put_all put (number_text num base sz p typ) s"
proof -
  define typ' where "typ' = (if typ AND LEFT \<noteq> 0 then typ AND NOT ZEROPAD else typ)"
  have t: "typ' AND SIGN = typ AND SIGN" "typ' AND PLUS = typ AND PLUS" "typ' AND SPACE = typ AND SPACE"
    "typ' AND LEFT = typ AND LEFT" "typ' AND SPECIAL = typ AND SPECIAL"
    "typ' AND ZEROPAD = 0 \<longleftrightarrow> typ AND LEFT \<noteq> 0 \<or> typ AND ZEROPAD = 0"
    by (simp_all add: typ'_def flag_bits)
  define sign where "sign = (if typ AND SIGN \<noteq> 0 then
          if sint num < 0 then (45, - num, sz - 1)
          else if typ AND PLUS \<noteq> 0 then (43, num, sz - 1)
          else if typ AND SPACE \<noteq> 0 then (32, num, sz - 1)
          else (0 :: u8, num, sz)
        else (0, num, sz))"
  obtain c n sz' where s: "sign = (c, n, sz')" by (cases sign)
  have c: "(if c \<noteq> 0 then [c] else []) = number_sign num typ" "unat n mod U32_RANGE = number_value num typ"
    "sz' = sz - int (length (number_sign num typ))"
    using s by (auto simp: sign_def number_sign_def number_value_def split: if_splits)
  define sz2 where "sz2 = (if typ AND SPECIAL \<noteq> 0 then if base = 16 then sz' - 2 else if base = 8 then sz' - 1 else sz' else sz')"
  have z2: "sz2 = sz - int (length (number_sign num typ)) - int (length (number_prefix base typ))"
    by (simp add: sz2_def c(3) number_prefix_def)
  define ds where "ds = map (\<lambda>d. digit_set typ ! d) (digits_of base (number_value num typ))"
  have tmp: "(if n = 0 then [48] else number_digits (digit_set typ) (unat n) base) = ds"
    unfolding ds_def c(2) [symmetric] by (rule number_tmp [OF assms])
  define q where "q = (if int (length ds) > p then int (length ds) else p)"
  have pre: "(if typ AND SPECIAL \<noteq> 0 then if base = 8 then [48] else if base = 16 then [48, digit_set typ ! 33] else [] else []) =
      number_prefix base typ"
    by (simp add: number_prefix_def)
  have ds': "map (\<lambda>d. digit_set typ ! d) (rev (digits_of base (number_value num typ))) = rev ds"
    by (simp add: ds_def rev_map)
  have fill: "nat (sz - int (length (number_sign num typ @ number_prefix base typ) +
      length (replicate (nat (p - int (length ds))) (48 :: u8) @ rev ds))) = nat (sz2 - q)"
    unfolding z2 q_def by (simp add: diff_diff_eq)
  have zeros: "nat (q - int (length ds)) = nat (p - int (length ds))" by (simp add: q_def)
  have layout: "number_text num base sz p typ =
     (let front = number_sign num typ @ number_prefix base typ;
          body = replicate (nat (p - int (length ds))) 48 @ rev ds
      in if typ AND LEFT \<noteq> 0 then front @ body @ replicate (nat (sz2 - q)) 32
         else if typ AND ZEROPAD \<noteq> 0 then front @ replicate (nat (sz2 - q)) 48 @ body
         else replicate (nat (sz2 - q)) 32 @ front @ body)"
    unfolding number_text_def ds' Let_def length_rev fill ..
  have "number_body put num base sz p typ s = do {
     (s, size) \<leftarrow> (if typ' AND (ZEROPAD + LEFT) = 0 then pad_loop put 32 (sz2 - q) s else Some (s, sz2 - q));
     s \<leftarrow> (if c \<noteq> 0 then put s c else Some s);
     s \<leftarrow> (if typ AND SPECIAL \<noteq> 0 then
             if base = 8 then put s 48
             else if base = 16 then do { s \<leftarrow> put s 48; put s (digit_set typ ! 33) }
             else Some s
           else Some s);
     (s, size) \<leftarrow> (if typ AND LEFT = 0 then pad_loop put (if typ' AND ZEROPAD \<noteq> 0 then 48 else 32) size s else Some (s, size));
     s \<leftarrow> zeros_loop put (int (length ds)) q s;
     s \<leftarrow> put_all put (rev ds) s;
     (s, size) \<leftarrow> pad_loop put 32 size s;
     Some s }"
    unfolding number_body_def Let_def typ'_def [symmetric] digit_set_def [symmetric] t sign_def [symmetric] s prod.case
      sz2_def [symmetric] tmp q_def [symmetric] ..
  also have "\<dots> = put_all put (number_text num base sz p typ) s"
    by (simp only: pad_part sign_put prefix_put pre zeros_loop_text bind_assoc bind.bind_lunit prod.case t flag_bits(7))
      (simp only: pad_loop_text bind_assoc bind.bind_lunit prod.case put_all_bind c(1) bind_runit,
        rule arg_cong [where f = "\<lambda>x. put_all put x s"], auto simp: layout fill zeros)
  finally show ?thesis .
qed

subsection \<open>Two printers in agreement\<close>

lemma rel_bind:
  "rel_option R x y \<Longrightarrow> (\<And>a b. R a b \<Longrightarrow> rel_option S (f a) (g b)) \<Longrightarrow> rel_option S (x \<bind> f) (y \<bind> g)"
  by (cases x; cases y) auto

lemma rel_bind_same: "(\<And>a. x = Some a \<Longrightarrow> rel_option S (f a) (g a)) \<Longrightarrow> rel_option S (x \<bind> f) (x \<bind> g)"
  by (cases x) auto

locale char_agree =
  fixes put :: "'s \<Rightarrow> u8 \<Rightarrow> 's option" and put' :: "'t \<Rightarrow> u8 \<Rightarrow> 't option" and R :: "'s \<Rightarrow> 't \<Rightarrow> bool"
  assumes chars: "R s t \<Longrightarrow> rel_option R (put s c) (put' t c)"
begin

lemma all: "R s t \<Longrightarrow> rel_option R (put_all put cs s) (put_all put' cs t)"
  by (induction cs arbitrary: s t) (auto intro!: rel_bind chars)

lemma pad_char: "R s t \<Longrightarrow> rel_option (rel_prod R (=)) (pad_char_loop put w s) (pad_char_loop put' w t)"
  unfolding pad_char_loop_text by (rule rel_bind [OF all]) auto

lemma pad_str: "R s t \<Longrightarrow> rel_option (rel_prod R (=)) (pad_str_loop put len w s) (pad_str_loop put' len w t)"
  unfolding pad_str_loop_text by (rule rel_bind [OF all]) auto

lemma number: "2 \<le> base \<Longrightarrow> R s t \<Longrightarrow>
    rel_option R (number_body put num base sz p typ s) (number_body put' num base sz p typ t)"
  by (simp only: number_body_text) (rule all)

end

locale printer_agree =
  fixes k :: "'s printer" and k' :: "'t printer" and R :: "'s \<Rightarrow> 't \<Rightarrow> bool"
  assumes pr_chars: "R s t \<Longrightarrow> rel_option R (pr_char k s c) (pr_char k' t c)"
    and pr_numbers: "base \<in> {8, 10, 16} \<Longrightarrow> R s t \<Longrightarrow>
      rel_option R (pr_number k num base sz p typ s) (pr_number k' num base sz p typ t)"
    and pr_counts: "R s t \<Longrightarrow> pr_count k s = pr_count k' t"

sublocale printer_agree \<subseteq> chars: char_agree "pr_char k" "pr_char k'" R
  by unfold_locales (rule pr_chars)

context printer_agree
begin

abbreviation agree_c :: "(u32 list \<times> 's) option \<Rightarrow> (u32 list \<times> 't) option \<Rightarrow> bool" where
  "agree_c \<equiv> rel_option (rel_prod (=) R)"

lemma agree_convert_c: "R s t \<Longrightarrow> agree_c (convert_c k flags w args s) (convert_c k' flags w args t)"
  unfolding convert_c_def
  by (rule rel_bind [where R = "rel_prod R (=)"])
     (auto intro!: rel_bind_same rel_bind [OF pr_chars] rel_bind [OF chars.pad_char] chars.pad_char split: prod.splits)

lemma agree_convert_s: "R s t \<Longrightarrow> agree_c (convert_s k strs flags w p args s) (convert_s k' strs flags w p args t)"
  unfolding convert_s_def
  by (auto intro!: rel_bind_same rel_bind [OF chars.all] rel_bind [OF chars.pad_str] chars.pad_str
        rel_bind [where R = "rel_prod R (=)"] split: prod.splits)

lemma agree_convert_number:
  "base \<in> {8, 10, 16} \<Longrightarrow> R s t \<Longrightarrow> agree_c (convert_number k base flags w p q args s) (convert_number k' base flags w p q args t)"
  unfolding convert_number_def by (auto intro!: rel_bind_same rel_bind [OF pr_numbers] split: prod.splits)

lemma agree_convert:
  assumes "R s t"
  shows "rel_option (rel_prod (=) (rel_prod (=) (rel_prod (=) R)))
    (convert k strs flags w p q c f args ws s) (convert k' strs flags w p q c f args ws t)"
  unfolding convert_def Let_def using assms
  by (auto intro!: rel_bind_same rel_bind [OF pr_chars] rel_bind [OF pr_numbers] pr_counts
        rel_bind [OF agree_convert_c] rel_bind [OF agree_convert_s] rel_bind [OF agree_convert_number] split: prod.splits)

lemma agree_conversion:
  assumes "R s t"
  shows "rel_option (rel_prod (=) (rel_prod (=) (rel_prod (=) R)))
    (conversion k strs f args ws s) (conversion k' strs f args ws t)"
  using agree_convert [OF assms] by (auto simp: conversion.simps split: option.splits list.splits)

lemma agree_format_loop:
  "R s t \<Longrightarrow> rel_option (rel_prod (=) R) (format_loop k strs f args ws s) (format_loop k' strs f args ws t)"
proof (induction "length f" arbitrary: f args ws s t rule: less_induct)
  case less
  show ?case
  proof (cases f)
    case (Cons c g)
    show ?thesis
    proof (cases "c = 37")
      case True
      have "rel_option (rel_prod (=) R) (format_loop k strs g' a w s') (format_loop k' strs g' a w t')"
        if "conversion k strs g args ws s = Some (g', a, w, s')" "R s' t'" for g' a w s' t'
        using conversion_rest [OF that(1)] that(2) Cons by (intro less.hyps) auto
      then show ?thesis using agree_conversion [OF less.prems, of strs g args ws] Cons True
        by (cases "conversion k strs g args ws s"; cases "conversion k' strs g args ws t") auto
    next
      case False
      then show ?thesis using Cons less by (auto intro!: rel_bind [OF pr_chars])
    qed
  qed simp
qed

end

subsection \<open>The buffer gets what the function would print, as far as it fits\<close>

definition prints_into :: "nat \<Rightarrow> nat \<Rightarrow> nat \<Rightarrow> u8 list \<Rightarrow> u8 list \<times> nat \<Rightarrow> u8 list \<times> nat \<Rightarrow> bool" where
  "prints_into addr limit sz buf0 s t \<longleftrightarrow> 0 < sz \<and> sz \<le> length buf0 \<and> limit = addr + sz - 1 \<and>
     snd s = length (fst s) \<and> snd t = length (fst s) \<and> fst t = take sz (fst s) @ drop (min sz (length (fst s))) buf0"

interpretation buffer_char: char_agree output_char "buffer_char addr limit" "prints_into addr limit sz buf0"
  for addr limit sz buf0
proof unfold_locales
  fix s t :: "u8 list \<times> nat" and c :: u8
  assume a: "prints_into addr limit sz buf0 s t"
  obtain out n buf str where st: "s = (out, n)" "t = (buf, str)" by (cases s; cases t)
  have r: "n = length out" "str = length out" "buf = take sz out @ drop (min sz (length out)) buf0"
    "0 < sz" "sz \<le> length buf0" "limit = addr + sz - 1"
    using a by (simp_all add: prints_into_def st)
  show "rel_option (prints_into addr limit sz buf0) (output_char s c) (buffer_char addr limit t c)"
  proof (cases "length out < sz")
    case True
    then have b: "buf = out @ drop (length out) buf0" using r(3) by simp
    have "drop (length out) buf0 = buf0 ! length out # drop (Suc (length out)) buf0"
      using True r(5) by (simp add: Cons_nth_drop_Suc)
    then have "wr buf str c = Some (out @ c # drop (Suc (length out)) buf0)"
      using True r(5) by (simp add: r(2) b wr_def list_update_append)
    moreover have "addr + str \<le> limit" using True r(2,4,6) by simp
    ultimately show ?thesis using True r(1,2,4-) by (simp add: st prints_into_def)
  next
    case False
    then have "\<not> addr + str \<le> limit" using r(2,4,6) by simp
    then show ?thesis using False r by (simp add: st prints_into_def)
  qed
qed

interpretation buffer: printer_agree output_printer "buffer_printer addr limit" "prints_into addr limit sz buf0"
  for addr limit sz buf0
proof unfold_locales
  fix s t :: "u8 list \<times> nat" and c :: u8
  assume "prints_into addr limit sz buf0 s t"
  then show "rel_option (prints_into addr limit sz buf0) (pr_char output_printer s c) (pr_char (buffer_printer addr limit) t c)"
    using buffer_char.chars by (simp add: output_printer_def buffer_printer_def)
next
  fix base :: nat and num w p ty and s t :: "u8 list \<times> nat"
  assume "base \<in> {8, 10, 16}" "prints_into addr limit sz buf0 s t"
  then show "rel_option (prints_into addr limit sz buf0) (pr_number output_printer num base w p ty s)
      (pr_number (buffer_printer addr limit) num base w p ty t)"
    using buffer_char.number [of base]
    by (auto simp: output_printer_def buffer_printer_def VprintfNumber_def VsnprintfNumber_def)
next
  fix s t :: "u8 list \<times> nat"
  assume "prints_into addr limit sz buf0 s t"
  then show "pr_count output_printer s = pr_count (buffer_printer addr limit) t"
    by (simp add: output_printer_def buffer_printer_def prints_into_def)
qed

lemma Vsnprintf_is_Vprintf:
  assumes "0 < sz" "sz \<le> 2147483647" "sz \<le> length buf" "0 < addr" "addr + sz \<le> U32_RANGE"
  shows "Vsnprintf addr buf sz strs format args =
    map_option (\<lambda>(count, out, ws). (count, take (sz - 1) out @ 0 # drop (Suc (min (sz - 1) (length out))) buf, ws))
      (Vprintf strs format args)"
proof -
  define limit where "limit = addr + sz - 1"
  have a1: "u32_sub addr 1 = addr - 1" using assms(1,4,5) by (intro u32_sub_exact) auto
  have l: "u32_sub (u32_add addr sz) 1 = limit"
  proof (cases "addr + sz = U32_RANGE")
    case True
    then show ?thesis by (simp add: limit_def u32_add_def u32_sub_def)
  next
    case False
    then show ?thesis using assms(1,5) by (simp add: limit_def u32_simps)
  qed
  have n: "\<not> limit < addr - 1" using assms(1) by (simp add: limit_def)
  have "prints_into addr limit sz buf ([], 0) (buf, 0)" using assms by (simp add: prints_into_def limit_def)
  from buffer.agree_format_loop [OF this, of strs format args "[]"]
  have f: "rel_option (rel_prod (=) (prints_into addr limit sz buf)) (format_loop output_printer strs format args [] ([], 0))
     (format_loop (buffer_printer addr limit) strs format args [] (buf, 0))" .
  have stop: "(if addr + str \<le> limit then wr b str 0 else if 0 < sz then wr b (limit - addr) 0 else Some b) =
      Some (take (sz - 1) out @ 0 # drop (Suc (min (sz - 1) (length out))) buf)"
    if r: "prints_into addr limit sz buf (out, count) (b, str)" for out count b str
  proof -
    have b: "str = length out" "b = take sz out @ drop (min sz (length out)) buf" using r by (simp_all add: prints_into_def)
    show ?thesis
    proof (cases "length out < sz")
      case True
      have "drop (length out) buf = buf ! length out # drop (Suc (length out)) buf"
        using True assms(3) by (simp add: Cons_nth_drop_Suc)
      then have "wr b str 0 = Some (out @ 0 # drop (Suc (length out)) buf)"
        using True assms(3) by (simp add: b wr_def list_update_append)
      moreover have "addr + str \<le> limit" using True unfolding limit_def b(1) by linarith
      ultimately show ?thesis using True by (simp add: b(1))
    next
      case False
      then have w: "take sz out = take (sz - 1) out @ [out ! (sz - 1)]" using assms(1)
        by (metis Suc_diff_1 le_neq_implies_less lessI less_le_trans not_less take_Suc_conv_app_nth)
      have "wr b (sz - 1) 0 = Some (take (sz - 1) out @ 0 # drop sz buf)"
        using False assms(1,3) w by (simp add: b wr_def list_update_append)
      moreover have "\<not> addr + str \<le> limit" using False assms(1) unfolding limit_def b(1) by linarith
      moreover have "limit - addr = sz - 1" unfolding limit_def by simp
      ultimately show ?thesis using False assms(1) by (simp add: b(1))
    qed
  qed
  have v: "Vsnprintf addr buf sz strs format args = do {
        (ws, buf, str) \<leftarrow> format_loop (buffer_printer addr limit) strs format args [] (buf, 0);
        buf \<leftarrow> (if addr + str \<le> limit then wr buf str 0 else if 0 < sz then wr buf (limit - addr) 0 else Some buf);
        Some (str, buf, ws) }"
    unfolding Vsnprintf_def Let_def l a1 using assms(2) n by (simp cong: if_cong)
  show ?thesis
  proof (cases "format_loop output_printer strs format args [] ([], 0)")
    case None
    then show ?thesis using f by (simp add: v Vprintf_def)
  next
    case (Some x)
    obtain ws out count where x: "x = (ws, out, count)" by (cases x)
    obtain b str where y: "format_loop (buffer_printer addr limit) strs format args [] (buf, 0) = Some (ws, b, str)"
      and r: "prints_into addr limit sz buf (out, count) (b, str)"
      using f Some x by (cases "format_loop (buffer_printer addr limit) strs format args [] (buf, 0)") auto
    have "count = str" using r by (simp add: prints_into_def)
    then show ?thesis using stop [OF r] by (simp add: v Vprintf_def Some x y)
  qed
qed

subsection \<open>Numbers, as they are printed\<close>

lemma put_all_output: "put_all output_char cs (out, n) = Some (out @ cs, n + length cs)"
  by (induction cs arbitrary: out n) simp_all

lemma VprintfNumber_text:
  "2 \<le> base \<Longrightarrow> base \<le> 36 \<Longrightarrow> VprintfNumber num base sz p typ (out, n) =
     Some (out @ number_text num base sz p typ, n + length (number_text num base sz p typ))"
  by (simp add: VprintfNumber_def number_body_text put_all_output)

lemma number_text_length:
  "int (length (number_text num base sz p typ)) =
     max sz (int (length (number_sign num typ) + length (number_prefix base typ)) +
       max p (int (length (digits_of base (number_value num typ)))))"
  by (auto simp: number_text_def Let_def)

lemmas conversion_simps = conversion.simps conversion_spec_def convert_def convert_number_def fetch_number_def

text \<open>Formats that are a single numeric conversion without flags, width and precision.\<close>

lemma Vprintf_u:
  "Vprintf strs [37, 117, 0] (w # args) =
     (let text = number_text (ucast w) 10 (- 1) (- 1) 0 in Some (length text, text, []))"
  by (simp add: Vprintf_def conversion_simps output_printer_def VprintfNumber_text Let_def)

lemma Vprintf_d:
  "Vprintf strs [37, 100, 0] (w # args) =
     (let text = number_text (scast w) 10 (- 1) (- 1) SIGN in Some (length text, text, []))"
  by (simp add: Vprintf_def conversion_simps output_printer_def VprintfNumber_text SIGN_def Let_def)

lemma Vprintf_Lu:
  "Vprintf strs (37 # q @ [117, 0]) (l # h # args) =
     (let text = number_text (ucast l OR push_bit 32 (ucast h)) 10 (- 1) (- 1) 0 in Some (length text, text, []))"
  if "q = [76] \<or> q = [108, 108]"
  using that by (auto simp: Vprintf_def conversion_simps output_printer_def VprintfNumber_text Let_def)

lemma unat_two_words: "unat (ucast (l :: u32) OR push_bit 32 (ucast (h :: u32)) :: u64) mod U32_RANGE = unat l"
proof -
  have b: "\<not> bit l n" if "\<not> n < 32" for n using bit_imp_le_length [of l n] that by auto
  have "take_bit 32 (ucast l OR push_bit 32 (ucast h) :: u64) = ucast l"
    by (auto intro!: bit_eqI simp: bit_simps b)
  then have "take_bit 32 (unat (ucast l OR push_bit 32 (ucast h) :: u64)) = unat l"
    unfolding unsigned_take_bit_eq [symmetric] by (simp only: unat_u64_u32)
  then show ?thesis by (simp add: take_bit_eq_mod)
qed

text \<open>Property C27. \<open>Vsnprintf\<close> is \<open>Vprintf\<close> into a buffer: with a buffer of the given size it answers what \<open>Vprintf\<close>
  answers, the full length even when the text does not fit, makes the same stores for \<open>%n\<close>, and leaves in the buffer
  as much of the text as fits before a final zero, and behind that what was there; it leaves its arrays only where
  \<open>Vprintf\<close> does.\<close>

theorem vsnprintf_cuts_vprintf:
  assumes "0 < sz" "sz \<le> 2147483647" "sz \<le> length buf" "0 < addr" "addr + sz \<le> U32_RANGE"
  shows "Vsnprintf addr buf sz strs format args =
    map_option (\<lambda>(count, out, ws). (count, take (sz - 1) out @ 0 # drop (Suc (min (sz - 1) (length out))) buf, ws))
      (Vprintf strs format args)"
  by (rule Vsnprintf_is_Vprintf [OF assms])

theorem vsnprintf_cuts_vprintf_witness:
  "Vsnprintf 1000 [1, 2, 3, 4, 5] 4 (\<lambda>_. None) [97, 37, 37, 98, 99, 100, 0] [] = Some (5, [97, 37, 98, 0, 5], [])"
  using vsnprintf_cuts_vprintf [of 4 "[1, 2, 3, 4, 5]" 1000 "\<lambda>_. None" "[97, 37, 37, 98, 99, 100, 0]" "[]"]
  by (simp add: Vprintf_def conversion_simps output_printer_def)

text \<open>Fact. A number is laid out as the printf functions promise: its text is its sign, its prefix, zeros up to the
  precision and its digits, filled with spaces or zeros on the side that the flags name up to the width and never
  beyond; and the digits are those of the number modulo \<open>2 ^ 32\<close>, whatever its width.\<close>

theorem number_layout:
  assumes "2 \<le> base" "base \<le> 36"
  shows "VprintfNumber num base sz p typ (out, n) =
      Some (out @ number_text num base sz p typ, n + length (number_text num base sz p typ)) \<and>
    int (length (number_text num base sz p typ)) =
      max sz (int (length (number_sign num typ) + length (number_prefix base typ)) +
        max p (int (length (digits_of base (number_value num typ))))) \<and>
    value_of base (rev (digits_of base (number_value num typ))) =
      unat (if typ AND SIGN \<noteq> 0 \<and> sint num < 0 then - num else num) mod U32_RANGE"
  using assms by (simp add: VprintfNumber_text number_text_length digits_facts(3) number_value_def)

theorem number_layout_witness:
  "VprintfNumber 255 16 6 (- 1) (ZEROPAD OR SPECIAL) ([], 0) = Some ([48, 120, 48, 48, 102, 102], 6)"
proof -
  have r: "replicate 2 (48 :: u8) = [48, 48]" by (simp add: numeral_2_eq_2)
  have "number_text 255 16 6 (- 1) (ZEROPAD OR SPECIAL) = [48, 120, 48, 48, 102, 102]"
    by (simp add: number_text_def number_value_def number_sign_def number_prefix_def digit_set_def digits_step small_digits_def
        ZEROPAD_def SPECIAL_def SIGN_def LEFT_def LARGE_def r)
  moreover have "VprintfNumber 255 16 6 (- 1) (ZEROPAD OR SPECIAL) ([], 0) =
      Some ([] @ number_text 255 16 6 (- 1) (ZEROPAD OR SPECIAL), 0 + length (number_text 255 16 6 (- 1) (ZEROPAD OR SPECIAL)))"
    by (rule conjunct1 [OF number_layout]) simp_all
  ultimately show ?thesis by simp
qed

text \<open>Fact. The upper half of a 64-bit number is lost: \<open>%Lu\<close> and \<open>%llu\<close> print just what \<open>%u\<close> prints for the lower
  half, because the digit loop reads the number through a cast to 32 bits.\<close>

theorem long_long_upper_half_lost:
  "Vprintf strs [37, 76, 117, 0] [l, h] = Vprintf strs [37, 117, 0] [l] \<and>
   Vprintf strs [37, 108, 108, 117, 0] [l, h] = Vprintf strs [37, 117, 0] [l]"
proof -
  have "number_value (ucast l OR push_bit 32 (ucast h)) 0 = number_value (ucast l) 0"
    using unat_two_words [of l h] by (simp add: number_value_def unat_u64_u32 unat_u32_less)
  then have "number_text (ucast l OR push_bit 32 (ucast h)) 10 (- 1) (- 1) 0 = number_text (ucast l) 10 (- 1) (- 1) 0"
    by (simp add: number_text_def number_sign_def)
  then show ?thesis
    using Vprintf_Lu [of "[76]" strs l h "[]"] Vprintf_Lu [of "[108, 108]" strs l h "[]"] Vprintf_u [of strs l "[]"] by simp_all
qed

end
