(* ===== verification/ConvLib.thy ===== *)
theory ConvLib imports PrintLib
begin

text \<open>
  \<open>common_lib/usdl_conversion.c\<close>: binary coded decimals, hexadecimal strings, and numbers as strings. Strings are
  lists of bytes; \<open>None\<close> is an access outside an array (a string without its final zero, a buffer that is too
  short). The theorems are round trips: what is printed is parsed back.
\<close>

definition HexList :: "u8 list" where
  "HexList = [48, 49, 50, 51, 52, 53, 54, 55, 56, 57, 65, 66, 67, 68, 69, 70]"

subsection \<open>Binary coded decimals\<close>

definition GetBCDToDECU8 :: "u8 \<Rightarrow> u8" where
  "GetBCDToDECU8 bcd = (drop_bit 4 bcd AND 0x0F) * 10 + (bcd AND 0x0F)"

definition GetBCDToDECU16 :: "u16 \<Rightarrow> u16" where
  "GetBCDToDECU16 bcd = (drop_bit 12 bcd AND 0x0F) * 1000 + (drop_bit 8 bcd AND 0x0F) * 100 +
     (drop_bit 4 bcd AND 0x0F) * 10 + (bcd AND 0x0F)"

definition GetBCDToDECU32 :: "u32 \<Rightarrow> u32" where
  "GetBCDToDECU32 bcd = (drop_bit 28 bcd AND 0x0F) * 10000000 + (drop_bit 24 bcd AND 0x0F) * 1000000 +
     (drop_bit 20 bcd AND 0x0F) * 100000 + (drop_bit 16 bcd AND 0x0F) * 10000 + (drop_bit 12 bcd AND 0x0F) * 1000 +
     (drop_bit 8 bcd AND 0x0F) * 100 + (drop_bit 4 bcd AND 0x0F) * 10 + (bcd AND 0x0F)"

definition GetBCDToDECU64 :: "u64 \<Rightarrow> u64" where
  "GetBCDToDECU64 bcd = (drop_bit 60 bcd AND 0x0F) * 1000000000000000 + (drop_bit 56 bcd AND 0x0F) * 100000000000000 +
     (drop_bit 52 bcd AND 0x0F) * 10000000000000 + (drop_bit 48 bcd AND 0x0F) * 1000000000000 +
     (drop_bit 44 bcd AND 0x0F) * 100000000000 + (drop_bit 40 bcd AND 0x0F) * 10000000000 +
     (drop_bit 36 bcd AND 0x0F) * 1000000000 + (drop_bit 32 bcd AND 0x0F) * 100000000 +
     (drop_bit 28 bcd AND 0x0F) * 10000000 + (drop_bit 24 bcd AND 0x0F) * 1000000 +
     (drop_bit 20 bcd AND 0x0F) * 100000 + (drop_bit 16 bcd AND 0x0F) * 10000 + (drop_bit 12 bcd AND 0x0F) * 1000 +
     (drop_bit 8 bcd AND 0x0F) * 100 + (drop_bit 4 bcd AND 0x0F) * 10 + (drop_bit 0 bcd AND 0x0F) * 1"

definition DECToBCDU8 :: "u8 \<Rightarrow> u8" where
  "DECToBCDU8 dec = (let quotient = (dec div 10) mod 10 in push_bit 4 quotient + dec - 10 * quotient)"

text \<open>The loop of \<open>DECToBCD\<close>, which stores two digits in each byte; the answer is the number of bytes stored.\<close>

fun DECToBCD_loop :: "u8 list \<Rightarrow> nat \<Rightarrow> nat \<Rightarrow> nat \<Rightarrow> (nat \<times> u8 list) option" where
  "DECToBCD_loop dst index len dec =
     (if dec = 0 then Some (index, dst)
      else do {
        let l = dec mod 10;
        let h = dec div 10 mod 10;
        dst \<leftarrow> wr dst index (push_bit 4 (of_nat h) OR of_nat l);
        if len \<le> index + 1 then Some (len, dst) else DECToBCD_loop dst (index + 1) len (dec div 10 div 10) })"

declare DECToBCD_loop.simps [simp del]

definition DECToBCD :: "u8 list \<Rightarrow> nat \<Rightarrow> nat \<Rightarrow> (nat \<times> u8 list) option" where
  "DECToBCD dst len dec = do { dst \<leftarrow> memcpy dst 0 (replicate len 0) 0 len; DECToBCD_loop dst 0 len dec }"

definition CheckBCD :: "u8 \<Rightarrow> bool" where
  "CheckBCD bcd \<longleftrightarrow> (drop_bit 4 bcd AND 0x0F) < 10 \<and> (bcd AND 0x0F) < 10"

definition CheckDECToBCD :: "u8 \<Rightarrow> bool" where
  "CheckDECToBCD dec \<longleftrightarrow> dec \<le> 99"

definition BCDToXS3 :: "u8 \<Rightarrow> u8" where "BCDToXS3 bcd = bcd + 0x33"
definition XS3ToBCD :: "u8 \<Rightarrow> u8" where "XS3ToBCD xs3 = xs3 - 0x33"

subsection \<open>Hexadecimal strings\<close>

definition hex_of :: "u8 \<Rightarrow> u8 list" where
  "hex_of b = [HexList ! unat (b div 16), HexList ! unat (b mod 16)]"

definition ByteMapChar :: "u8 list \<Rightarrow> u8 \<Rightarrow> u8 list option" where
  "ByteMapChar str b = memcpy str 0 (hex_of b @ [0]) 0 3"

text \<open>The loop of \<open>BytesMapHexStr\<close> without a separator.\<close>

fun hex_loop :: "u8 list \<Rightarrow> u8 list \<Rightarrow> nat \<Rightarrow> u8 list option" where
  "hex_loop str [] i = wr str (i * 2) 0"
| "hex_loop str (b # buf) i = do { str \<leftarrow> memcpy str (i * 2) (hex_of b) 0 2; hex_loop str buf (Suc i) }"

fun StrLen :: "u8 list \<Rightarrow> nat option" where
  "StrLen [] = None"
| "StrLen (c # str) = (if c = 0 then Some 0 else map_option Suc (StrLen str))"

text \<open>The loop with a separator, which lies at the address \<open>seperator\<close>; the format is \<open>"%0*X%s"\<close>, \<open>str\<close> lies at
  \<open>addr\<close>.\<close>

fun sep_loop :: "(u32 \<Rightarrow> u8 list option) \<Rightarrow> u32 \<Rightarrow> nat \<Rightarrow> nat \<Rightarrow> u8 list \<Rightarrow> nat \<Rightarrow> u8 list \<Rightarrow> (nat \<times> u8 list) option" where
  "sep_loop strs seperator trunk_len addr str str_len [] = Some (str_len, str)"
| "sep_loop strs seperator trunk_len addr str str_len (b # buf) = do {
     (n, rest, stores) \<leftarrow> Sprintf (addr + str_len) (drop str_len str) strs [37, 48, 42, 88, 37, 115, 0] [2, ucast b, seperator];
     sep_loop strs seperator trunk_len addr (take str_len str @ rest) (u32_add str_len trunk_len) buf }"

text \<open>The null pointer is the address 0, or \<open>None\<close> for \<open>buf\<close>.\<close>

definition BytesMapHexStr :: "(u32 \<Rightarrow> u8 list option) \<Rightarrow> nat \<Rightarrow> u8 list \<Rightarrow> nat \<Rightarrow> u8 list option \<Rightarrow> nat \<Rightarrow> u32 \<Rightarrow>
    (nat \<times> u8 list) option" where
  "BytesMapHexStr strs addr str max_str_len buf buf_len seperator =
     (case buf of None \<Rightarrow> Some (0, str)
      | Some buf \<Rightarrow>
          if addr = 0 then Some (0, str)
          else if seperator = 0 then
            if max_str_len < u32_add (u32_mul buf_len 2) 1 then Some (0, str)
            else if length buf < buf_len then None
            else do { str \<leftarrow> hex_loop str (take buf_len buf) 0; Some (u32_mul buf_len 2, str) }
          else do {
            sep \<leftarrow> strs seperator;
            sep_len \<leftarrow> StrLen sep;
            let trunk_len = u32_add 2 sep_len;
            let buf_len = (if max_str_len < u32_mul buf_len trunk_len then max_str_len div trunk_len else buf_len);
            if length buf < buf_len then None
            else do {
              (str_len, str) \<leftarrow> sep_loop strs seperator trunk_len addr str 0 (take buf_len buf);
              let str_len = (if 0 < buf_len then u32_sub str_len sep_len else str_len);
              str \<leftarrow> wr str str_len 0;
              Some (str_len, str) } })"

definition hex_digit :: "u8 \<Rightarrow> u8 option" where
  "hex_digit ch =
     (if 48 \<le> ch \<and> ch \<le> 57 then Some (ch - 48)
      else if 97 \<le> ch \<and> ch \<le> 102 then Some (ch - 97 + 10)
      else if 65 \<le> ch \<and> ch \<le> 70 then Some (ch - 65 + 10)
      else None)"

text \<open>The loop over the characters; \<open>j\<close> is the byte \<open>buf\<close> points to, and \<open>False\<close> the answer 0 for a character
  that is no digit.\<close>

fun unhex_loop :: "u8 list \<Rightarrow> nat \<Rightarrow> bool \<Rightarrow> u8 list \<Rightarrow> bool \<Rightarrow> (bool \<times> u8 list) option" where
  "unhex_loop buf j odd_digit [] skip_invalid = Some (True, buf)"
| "unhex_loop buf j odd_digit (ch # hex) skip_invalid =
     (case hex_digit ch of
        None \<Rightarrow> if skip_invalid then unhex_loop buf j odd_digit hex skip_invalid else Some (False, buf)
      | Some tmp \<Rightarrow>
          if odd_digit then do {
            b \<leftarrow> rd buf j; buf \<leftarrow> wr buf j (b OR tmp); unhex_loop buf (Suc j) False hex skip_invalid }
          else do { buf \<leftarrow> wr buf j (push_bit 4 tmp); unhex_loop buf j True hex skip_invalid })"

definition HexStrToBytes :: "u8 list \<Rightarrow> nat \<Rightarrow> u8 list \<Rightarrow> bool \<Rightarrow> (nat \<times> u8 list) option" where
  "HexStrToBytes buf buf_len hex skip_invalid = do {
     str_len \<leftarrow> StrLen hex;
     let str_len = (if str_len > u32_mul buf_len 2 then u32_mul buf_len 2 else str_len);
     (ok, buf) \<leftarrow> unhex_loop buf 0 False (take str_len hex) skip_invalid;
     Some (if ok then (str_len + 1) div 2 else 0, buf) }"

text \<open>The loop of \<open>BCDStrToBytes\<close>; it answers the index at which it ends.\<close>

fun unbcd_loop :: "u8 list \<Rightarrow> u8 list \<Rightarrow> nat \<Rightarrow> nat \<Rightarrow> (nat \<times> u8 list) option" where
  "unbcd_loop str bcd i 0 = Some (i, bcd)"
| "unbcd_loop str bcd i (Suc n) = do {
     bcd \<leftarrow> wr bcd i 0;
     h \<leftarrow> rd str (i * 2);
     let digit = h - 48;
     if \<not> digit \<le> 9 then Some (i, bcd)
     else do {
       bcd \<leftarrow> wr bcd i (push_bit 4 digit);
       l \<leftarrow> rd str (i * 2 + 1);
       let digit' = l - 48;
       if \<not> digit' \<le> 9 then Some (i, bcd)
       else do { bcd \<leftarrow> wr bcd i (push_bit 4 digit + digit'); unbcd_loop str bcd (Suc i) n } } }"

definition BCDStrToBytes :: "u8 list \<Rightarrow> u8 list \<Rightarrow> nat \<Rightarrow> (nat \<times> u8 list) option" where
  "BCDStrToBytes str bcd bcd_max_len = do {
     n \<leftarrow> StrLen str;
     let bcd_len = (if bcd_max_len < n div 2 then bcd_max_len else n div 2);
     (bcd_index, bcd) \<leftarrow> unbcd_loop str bcd 0 bcd_len;
     Some (u32_sub bcd_index 1, bcd) }"

subsection \<open>Numbers as strings\<close>

text \<open>The digits from the lowest one on, from \<open>buf[p]\<close>.\<close>

function XToA_digits :: "u8 list \<Rightarrow> nat \<Rightarrow> nat \<Rightarrow> nat \<Rightarrow> (nat \<times> u8 list) option" where
  "XToA_digits buf p val radix =
     (if radix = 0 then None
      else do {
        let digval = val mod radix;
        let val = val div radix;
        buf \<leftarrow> wr buf p (if digval > 9 then of_nat (digval - 10 + 97) else of_nat (digval + 48));
        if val > 0 then XToA_digits buf (p + 1) val radix else Some (p + 1, buf) })"
  by pat_completeness auto
termination by (relation "measure (\<lambda>(buf, p, val, radix). length buf - p)") (auto simp: wr_eq_Some_iff)

declare XToA_digits.simps [simp del]

text \<open>The reversing loop: it exchanges at least once and goes on while \<open>firstdig < p\<close>.\<close>

function XToA_reverse :: "u8 list \<Rightarrow> nat \<Rightarrow> nat \<Rightarrow> u8 list option" where
  "XToA_reverse buf firstdig p = do {
     temp \<leftarrow> rd buf p;
     c \<leftarrow> rd buf firstdig;
     buf \<leftarrow> wr buf p c;
     buf \<leftarrow> wr buf firstdig temp;
     if firstdig + 1 < p - 1 then XToA_reverse buf (firstdig + 1) (p - 1) else Some buf }"
  by pat_completeness auto
termination by (relation "measure (\<lambda>(buf, firstdig, p). p)") auto

declare XToA_reverse.simps [simp del]

definition XToA :: "nat \<Rightarrow> u8 list \<Rightarrow> nat \<Rightarrow> bool \<Rightarrow> u8 list option" where
  "XToA val buf radix is_neg = do {
     (p, val, buf) \<leftarrow>
       (if is_neg then do { buf \<leftarrow> wr buf 0 45; Some (1, (18446744073709551616 - val) mod 18446744073709551616, buf) }
        else Some (0, val, buf));
     let firstdig = p;
     (p, buf) \<leftarrow> XToA_digits buf p val radix;
     buf \<leftarrow> wr buf p 0;
     XToA_reverse buf firstdig (p - 1) }"

definition u64_of :: "int \<Rightarrow> nat" where
  "u64_of val = nat (val mod 18446744073709551616)"

definition IToA :: "int \<Rightarrow> u8 list \<Rightarrow> nat \<Rightarrow> u8 list option" where
  "IToA val buf radix = (if radix = 10 \<and> val < 0 then XToA (u64_of val) buf radix True else XToA (u64_of val) buf radix False)"

definition UToA :: "int \<Rightarrow> u8 list \<Rightarrow> nat \<Rightarrow> u8 list option" where
  "UToA val buf radix = XToA (u64_of val) buf radix False"

definition SToA :: "int \<Rightarrow> u8 list \<Rightarrow> nat \<Rightarrow> u8 list option" where
  "SToA val buf radix = XToA (u64_of val) buf radix (radix = 10 \<and> val < 0)"

text \<open>\<open>c = *p++\<close> until \<open>c\<close> is no white space.\<close>

function skip_space :: "u8 list \<Rightarrow> nat \<Rightarrow> (u8 \<times> nat) option" where
  "skip_space str p = do { c \<leftarrow> rd str p; if IS_SPACE c then skip_space str (p + 1) else Some (c, p + 1) }"
  by pat_completeness auto
termination by (relation "measure (\<lambda>(str, p). length str - p)") (auto simp: rd_eq_Some_iff)

declare skip_space.simps [simp del]

definition digit_value :: "u8 \<Rightarrow> nat option" where
  "digit_value c = (if IS_DIGIT c then Some (unat c - 48)
     else if IS_ALPHA c then Some (nat (TO_UPPER c - 65 + 10)) else None)"

text \<open>The answer is the number, whether a digit was read, whether it overflowed, and \<open>p\<close>.\<close>

function StrToXL_loop :: "u8 list \<Rightarrow> nat \<Rightarrow> u8 \<Rightarrow> nat \<Rightarrow> nat \<Rightarrow> bool \<Rightarrow> bool \<Rightarrow> (nat \<times> bool \<times> bool \<times> nat) option" where
  "StrToXL_loop str ibase c p number readdigit overflow =
     (case digit_value c of
        None \<Rightarrow> Some (number, readdigit, overflow, p)
      | Some digval \<Rightarrow>
          if ibase \<le> digval then Some (number, readdigit, overflow, p)
          else do {
            let maxval = 4294967295 div ibase;
            let (number, overflow) =
              (if number < maxval \<or> (number = maxval \<and> digval \<le> 4294967295 mod ibase) then (number * ibase + digval, overflow)
               else (number, True));
            c \<leftarrow> rd str p;
            StrToXL_loop str ibase c (p + 1) number True overflow })"
  by pat_completeness auto
termination by (relation "measure (\<lambda>(str, ibase, c, p, number, readdigit, overflow). length str - p)") (auto simp: rd_eq_Some_iff)

declare StrToXL_loop.simps [simp del]

text \<open>The answer is the number and the place that \<open>*endptr\<close> gets; \<open>unsigned_flag\<close> is \<open>FL_UNSIGNED\<close>.\<close>

definition StrToXL :: "u8 list \<Rightarrow> int \<Rightarrow> bool \<Rightarrow> (nat \<times> nat) option" where
  "StrToXL nptr ibase unsigned_flag = do {
     (c, p) \<leftarrow> skip_space nptr 0;
     let neg = (c = 45);
     (c, p) \<leftarrow> (if c = 45 \<or> c = 43 then do { c \<leftarrow> rd nptr p; Some (c, p + 1) } else Some (c, p));
     if ibase < 0 \<or> ibase = 1 \<or> 36 < ibase then Some (0, 0)
     else do {
       ibase \<leftarrow> (if ibase = 0 then
                  if c \<noteq> 48 then Some 10 else do { x \<leftarrow> rd nptr p; Some (if x = 120 \<or> x = 88 then 16 else 8) }
                else Some (nat ibase));
       (c, p) \<leftarrow> (if ibase = 16 \<and> c = 48 then do {
                    x \<leftarrow> rd nptr p;
                    if x = 120 \<or> x = 88 then do { c \<leftarrow> rd nptr (p + 1); Some (c, p + 2) } else Some (c, p) }
                 else Some (c, p));
       (number, readdigit, overflow, p) \<leftarrow> StrToXL_loop nptr ibase c p 0 False False;
       let p = p - 1;
       let (number, p) =
         (if \<not> readdigit then (0, 0)
          else if overflow \<or> (\<not> unsigned_flag \<and> ((neg \<and> number > 2147483648) \<or> (\<not> neg \<and> number > 2147483647))) then
            (if unsigned_flag then 4294967295 else if neg then 2147483648 else 2147483647, p)
          else (number, p));
       Some (if neg then u32_sub 0 number else number, p) } }"

definition StrToL :: "u8 list \<Rightarrow> int \<Rightarrow> (int \<times> nat) option" where
  "StrToL nptr ibase = do {
     (number, p) \<leftarrow> StrToXL nptr ibase False;
     Some (if number < 2147483648 then int number else int number - 4294967296, p) }"

text \<open>\<open>AToI\<close> leaves the range of its 64-bit total (\<open>None\<close>) rather than wrapping around.\<close>

function AToI_loop :: "u8 list \<Rightarrow> u8 \<Rightarrow> nat \<Rightarrow> int \<Rightarrow> int option" where
  "AToI_loop str c p acc =
     (if IS_DIGIT c then do {
        let acc = 10 * acc + (int (unat c) - 48);
        c \<leftarrow> rd str p;
        if acc \<le> 9223372036854775807 then AToI_loop str c (p + 1) acc else None }
      else Some acc)"
  by pat_completeness auto
termination by (relation "measure (\<lambda>(str, c, p, acc). length str - p)") (auto simp: rd_eq_Some_iff)

declare AToI_loop.simps [simp del]

definition AToI :: "u8 list \<Rightarrow> int option" where
  "AToI str = do {
     (c, p) \<leftarrow> skip_space str 0;
     let sign = c;
     (c, p) \<leftarrow> (if c = 45 \<or> c = 43 then do { c \<leftarrow> rd str p; Some (c, p + 1) } else Some (c, p));
     acc \<leftarrow> AToI_loop str c p 0;
     Some (if sign = 45 then - acc else acc) }"

definition StrToUL :: "u8 list \<Rightarrow> int \<Rightarrow> (nat \<times> nat) option" where
  "StrToUL nptr ibase = StrToXL nptr ibase True"


subsection \<open>Printing\<close>

lemma digits_stored:
  "2 \<le> r \<Longrightarrow> p + length (digits_of r n) \<le> length buf \<Longrightarrow>
   XToA_digits buf p n r = Some (p + length (digits_of r n),
     take p buf @ map digit_char (digits_of r n) @ drop (p + length (digits_of r n)) buf)"
proof (induction n arbitrary: buf p rule: less_induct)
  case (less n)
  have p: "p < length buf" using less.prems digits_facts(1) [OF less.prems(1), of n] by (cases "digits_of r n") auto
  then have u: "buf[p := c] = take p buf @ c # drop (Suc p) buf" for c by (rule upd_conv_take_nth_drop)
  show ?case
  proof (cases "n div r > 0")
    case True
    then have d: "digits_of r n = n mod r # digits_of r (n div r)" using less.prems by (subst digits_of.simps) simp
    have "n div r < n" using less.prems True by (intro div_less_dividend) (auto intro: gr0I)
    then have "XToA_digits (buf[p := digit_char (n mod r)]) (p + 1) (n div r) r = Some (p + 1 + length (digits_of r (n div r)),
       take (p + 1) (buf[p := digit_char (n mod r)]) @ map digit_char (digits_of r (n div r)) @
       drop (p + 1 + length (digits_of r (n div r))) (buf[p := digit_char (n mod r)]))"
      using less.prems by (intro less.IH) (auto simp: d)
    then show ?thesis using p True less.prems(1)
      by (subst XToA_digits.simps) (simp add: d wr_in digit_char_def u add.commute [of p] del: of_nat_add)
  next
    case False
    then have "digits_of r n = [n mod r]" using less.prems by (subst digits_of.simps) simp
    then show ?thesis using p False less.prems(1)
      by (subst XToA_digits.simps) (simp add: wr_in digit_char_def u del: of_nat_add)
  qed
qed

lemma reversed:
  "ys \<noteq> [] \<Longrightarrow> XToA_reverse (xs @ ys @ zs) (length xs) (length xs + length ys - 1) = Some (xs @ rev ys @ zs)"
proof (induction "length ys" arbitrary: xs ys zs rule: less_induct)
  case less
  then obtain a r where a: "ys = a # r" by (cases ys) auto
  show ?case
  proof (cases r rule: rev_cases)
    case Nil
    moreover have "\<not> length xs + 1 < length xs - 1" by arith
    ultimately show ?thesis using a by (subst XToA_reverse.simps) (simp add: rd_def wr_def nth_append list_update_append)
  next
    case (snoc m b)
    let ?n = "length xs" and ?p = "length xs + length ys - 1"
    have p: "?p = ?n + Suc (length m)" using a snoc by simp
    have e: "xs @ ys @ zs = xs @ a # m @ b # zs" using a snoc by simp
    have r1: "rd (xs @ ys @ zs) ?p = Some b" "rd (xs @ ys @ zs) ?n = Some a" unfolding e p by (simp_all add: rd_def nth_append)
    have w: "wr (xs @ ys @ zs) ?p a = Some (xs @ a # m @ a # zs)" "wr (xs @ a # m @ a # zs) ?n b = Some (xs @ b # m @ a # zs)"
      unfolding e p by (simp_all add: wr_def list_update_append)
    have s: "XToA_reverse (xs @ ys @ zs) ?n ?p = (if ?n + 1 < ?p - 1 then XToA_reverse ((xs @ [b]) @ m @ a # zs) (?n + 1) (?p - 1)
        else Some (xs @ b # m @ a # zs))"
      by (subst XToA_reverse.simps) (simp only: r1 w bind.bind_lunit append_assoc append_Cons append_Nil)
    show ?thesis
    proof (cases "?n + 1 < ?p - 1")
      case True
      then have "m \<noteq> []" unfolding p by auto
      then have "XToA_reverse ((xs @ [b]) @ m @ a # zs) (length (xs @ [b])) (length (xs @ [b]) + length m - 1) =
          Some ((xs @ [b]) @ rev m @ a # zs)"
        using a snoc by (intro less.hyps) auto
      moreover have "length (xs @ [b]) + length m - 1 = ?p - 1" "length (xs @ [b]) = ?n + 1" unfolding p by simp_all
      ultimately show ?thesis using s True a snoc by simp
    next
      case False
      then have "rev m = m" unfolding p by (cases m) auto
      then show ?thesis using s False a snoc by simp
    qed
  qed
qed

lemma XToA_prints:
  assumes "2 \<le> r" "v = (if is_neg then (18446744073709551616 - n) mod 18446744073709551616 else n)"
    "length (digits_of r v) + 2 \<le> length buf"
  shows "\<exists>rest. XToA n buf r is_neg = Some ((if is_neg then [45] else []) @ map digit_char (rev (digits_of r v)) @ 0 # rest)"
proof -
  let ?ds = "map digit_char (digits_of r v)" and ?k = "length (digits_of r v)"
  let ?pre = "if is_neg then [45] else [] :: u8 list"
  let ?b = "if is_neg then buf[0 := 45] else buf"
  obtain b0 b1 where b: "buf = b0 # b1" using assms(3) by (cases buf) auto
  have t: "take (length ?pre) ?b = ?pre" using b by (simp add: take_Suc)
  have "XToA_digits ?b (length ?pre) v r = Some (length ?pre + ?k, take (length ?pre) ?b @ ?ds @ drop (length ?pre + ?k) ?b)"
    by (rule digits_stored [OF assms(1)]) (use assms(3) in auto)
  then have d: "XToA_digits ?b (length ?pre) v r = Some (length ?pre + ?k, ?pre @ ?ds @ drop (length ?pre + ?k) ?b)" unfolding t .
  have "length ?pre + ?k < length ?b" using assms(3) by simp
  then obtain z zs where z: "drop (length ?pre + ?k) ?b = z # zs" by (metis Cons_nth_drop_Suc)
  have w: "wr (?pre @ ?ds @ drop (length ?pre + ?k) ?b) (length ?pre + ?k) 0 = Some (?pre @ ?ds @ 0 # zs)"
    unfolding z by (auto simp: wr_def list_update_append)
  have "?ds \<noteq> []" using digits_facts(1) [OF assms(1)] by simp
  then have "XToA_reverse (?pre @ ?ds @ 0 # zs) (length ?pre) (length ?pre + ?k - 1) = Some (?pre @ rev ?ds @ 0 # zs)"
    using reversed [of ?ds ?pre "0 # zs"] by simp
  then have "XToA n buf r is_neg = Some (?pre @ rev ?ds @ 0 # zs)"
    using d w assms(2) b by (cases is_neg) (simp_all add: XToA_def wr_def)
  then show ?thesis by (auto simp: rev_map)
qed

subsection \<open>Parsing\<close>

lemma digit_chars:
  assumes "d < 36"
  shows "digit_value (digit_char d) = Some d" "\<not> IS_SPACE (digit_char d)" "digit_char d \<noteq> 45" "digit_char d \<noteq> 43"
    "digit_char d = 48 \<longleftrightarrow> d = 0"
proof -
  have "list_all (\<lambda>d. digit_value (digit_char d) = Some d \<and> \<not> IS_SPACE (digit_char d) \<and> digit_char d \<noteq> 45 \<and>
      digit_char d \<noteq> 43 \<and> (digit_char d = 48 \<longleftrightarrow> d = 0)) [0..<36]" by code_simp
  then show "digit_value (digit_char d) = Some d" "\<not> IS_SPACE (digit_char d)" "digit_char d \<noteq> 45" "digit_char d \<noteq> 43"
    "digit_char d = 48 \<longleftrightarrow> d = 0" using assms by (simp_all add: list_all_iff)
qed

lemma end_chars: "digit_value 0 = None" "\<not> IS_SPACE 45"
  by code_simp+

lemma no_overflow:
  assumes "d < r"
  shows "(n < m div r \<or> (n = m div r \<and> d \<le> m mod r)) \<longleftrightarrow> n * r + d \<le> (m :: nat)"
proof -
  have m: "m = m div r * r + m mod r" "m mod r < r" using assms by simp_all
  consider "n < m div r" | "n = m div r" | "m div r < n" by linarith
  then show ?thesis
  proof cases
    case 1
    then have "Suc n * r \<le> m div r * r" by (intro mult_le_mono1) simp
    then have "n * r + r \<le> m div r * r" by simp
    also have "\<dots> \<le> m" by simp
    finally have "n * r + r \<le> m" .
    then show ?thesis using 1 assms by simp
  next
    case 2
    then have e: "n * r + m mod r = m" by simp
    have "d \<le> m mod r \<longleftrightarrow> n * r + d \<le> n * r + m mod r" by simp
    then show ?thesis using 2 unfolding e by simp
  next
    case 3
    then have "Suc (m div r) * r \<le> n * r" by (intro mult_le_mono1) simp
    then have "m div r * r + r \<le> n * r" by simp
    then have "m < n * r" using m by linarith
    then show ?thesis using 3 by simp
  qed
qed

lemma value_grows: "0 < r \<Longrightarrow> n \<le> foldl (\<lambda>n d. n * r + d) n (ds :: nat list)"
proof (induction ds arbitrary: n)
  case (Cons d ds)
  have "n \<le> n * r + d" using Cons.prems by (simp add: trans_le_add1)
  then show ?case using Cons.IH [of "n * r + d"] Cons.prems by simp
qed simp

lemma parse_digits:
  assumes "2 \<le> r" "r \<le> 36" "ds \<noteq> []" "\<forall>d \<in> set ds. d < r" "foldl (\<lambda>n d. n * r + d) n ds \<le> 4294967295"
    "drop p str = map digit_char (tl ds) @ 0 # rest"
  shows "StrToXL_loop str r (digit_char (hd ds)) p n readdigit False =
    Some (foldl (\<lambda>n d. n * r + d) n ds, True, False, p + length ds)"
  using assms(3-)
proof (induction ds arbitrary: n p readdigit)
  case (Cons d ds)
  have d: "d < r" "digit_value (digit_char d) = Some d" using Cons.prems(2) digit_chars(1) assms(2) by auto
  have "n * r + d \<le> 4294967295" using Cons.prems(3) value_grows [of r "n * r + d" ds] assms(1) by simp
  then have o: "n < 4294967295 div r \<or> (n = 4294967295 div r \<and> d \<le> 4294967295 mod r)" using no_overflow [OF d(1)] by blast
  have p: "p < length str" using Cons.prems(4) by (cases "p < length str") auto
  have c: "rd str p = Some (hd (map digit_char ds @ 0 # rest))" "drop (Suc p) str = tl (map digit_char ds @ 0 # rest)"
    using Cons.prems(4) p by (simp_all add: rd_def hd_drop_conv_nth [symmetric] tl_drop [symmetric] drop_Suc)
  show ?case
  proof (cases ds)
    case Nil
    then show ?thesis using d o c end_chars(1) by (subst StrToXL_loop.simps) (simp add: StrToXL_loop.simps [of _ _ 0])
  next
    case (Cons e es)
    have "StrToXL_loop str r (digit_char (hd ds)) (p + 1) (n * r + d) True False =
        Some (foldl (\<lambda>n d. n * r + d) (n * r + d) ds, True, False, p + 1 + length ds)"
      using Cons Cons.prems c by (intro Cons.IH) auto
    then show ?thesis using d o c Cons by (subst StrToXL_loop.simps) simp
  qed
qed simp

lemma skip_sign:
  assumes "d < 36"
  shows "skip_space (map digit_char (d # es) @ 0 # rest) 0 = Some (digit_char d, 1)"
    "skip_space (45 # map digit_char (d # es) @ 0 # rest) 0 = Some (45, 1)"
  using digit_chars(2) [OF assms] end_chars(2) by (simp_all add: skip_space.simps rd_def)

lemma StrToXL_parses:
  assumes "2 \<le> r" "r \<le> 36" "ds \<noteq> []" "\<forall>d \<in> set ds. d < r" "r = 16 \<longrightarrow> hd ds = 0 \<longrightarrow> tl ds = []"
    "value_of r ds \<le> 4294967295" "unsigned_flag \<or> value_of r ds \<le> (if neg then 2147483648 else 2147483647)"
  shows "StrToXL ((if neg then [45] else []) @ map digit_char ds @ 0 # rest) (int r) unsigned_flag =
    Some (if neg then u32_sub 0 (value_of r ds) else value_of r ds, (if neg then 1 else 0) + length ds)"
proof -
  let ?pre = "if neg then [45] else [] :: u8 list"
  let ?s = "?pre @ map digit_char ds @ 0 # rest" and ?p = "length ?pre + 1"
  obtain d es where ds: "ds = d # es" using assms(3) by (cases ds) auto
  have d: "d < 36" using assms(2,4) ds by auto
  have dp: "drop ?p ?s = map digit_char (tl ds) @ 0 # rest" by (cases neg) (simp_all add: ds)
  have hex: "(if r = 16 \<and> digit_char d = 48 then do {
       x \<leftarrow> rd ?s ?p; if x = 120 \<or> x = 88 then do { c \<leftarrow> rd ?s (?p + 1); Some (c, ?p + 2) } else Some (digit_char d, ?p) }
     else Some (digit_char d, ?p)) = Some (digit_char d, ?p)"
  proof (cases "r = 16 \<and> d = 0")
    case True
    then have "es = []" using assms(5) ds by simp
    then show ?thesis using True by (cases neg) (simp_all add: ds rd_def)
  qed (use digit_chars(5) [OF d] in auto)
  have loop: "StrToXL_loop ?s r (digit_char d) ?p 0 False False = Some (value_of r ds, True, False, ?p + length ds)"
    using parse_digits [OF assms(1-4), of 0 ?p ?s rest False] assms(6) dp by (simp add: ds value_of_def)
  have r: "r \<noteq> 0" "r \<noteq> Suc 0" "\<not> 36 < r" using assms(1,2) by auto
  show ?thesis
  proof (cases neg)
    case True
    have "rd ?s 1 = Some (digit_char d)" using True by (simp add: ds rd_def)
    then show ?thesis using True skip_sign(2) [OF d, of es rest] hex loop assms(7)
      by (auto simp: Let_def StrToXL_def r ds [symmetric] cong: if_cong)
  next
    case False
    then show ?thesis using skip_sign(1) [OF d, of es rest] hex loop assms(7) digit_chars(3,4) [OF d]
      by (auto simp: Let_def StrToXL_def r ds [symmetric] cong: if_cong)
  qed
qed

subsection \<open>Hexadecimal strings\<close>

lemma hex_chars: "d < 16 \<Longrightarrow> hex_digit (HexList ! d) = Some (of_nat d) \<and> HexList ! d \<noteq> 0 \<and> large_digits ! d = HexList ! d"
proof -
  have "list_all (\<lambda>d. hex_digit (HexList ! d) = Some (of_nat d) \<and> HexList ! d \<noteq> 0 \<and> large_digits ! d = HexList ! d) [0..<16]"
    by code_simp
  then show "d < 16 \<Longrightarrow> ?thesis" by (simp add: list_all_iff)
qed

lemma byte_digits:
  fixes b :: u8
  shows "unat (b div 16) = unat b div 16" "unat (b mod 16) = unat b mod 16" "unat b div 16 < 16"
    "push_bit 4 (b div 16) OR b mod 16 = b"
proof -
  show "unat (b div 16) = unat b div 16" "unat (b mod 16) = unat b mod 16" by (simp_all add: unat_div unat_mod)
  show "unat b div 16 < 16" using unat_u8_less [of b] by (simp add: less_mult_imp_div_less)
  have "b div 16 = drop_bit 4 b" "b mod 16 = take_bit 4 b" by (simp_all add: drop_bit_eq_div take_bit_eq_mod)
  then show "push_bit 4 (b div 16) OR b mod 16 = b" by (auto intro!: bit_eqI simp: bit_simps)
qed

lemma hex_of_facts:
  "length (hex_of b) = 2" "0 \<notin> set (hex_of b)"
  "\<exists>h l. hex_of b = [h, l] \<and> hex_digit h = Some (b div 16) \<and> hex_digit l = Some (b mod 16)"
proof -
  have h: "hex_digit (HexList ! unat (b div 16)) = Some (b div 16)" "HexList ! unat (b div 16) \<noteq> 0"
    using hex_chars [of "unat (b div 16)"] byte_digits(3) [of b] unfolding byte_digits(1) [symmetric] by simp_all
  have m: "unat (b mod 16) < 16" by (simp add: byte_digits(2))
  have l: "hex_digit (HexList ! unat (b mod 16)) = Some (b mod 16)" "HexList ! unat (b mod 16) \<noteq> 0"
    using hex_chars [OF m] by simp_all
  show "length (hex_of b) = 2" by (simp add: hex_of_def)
  show "0 \<notin> set (hex_of b)" using h(2) l(2) by (simp add: hex_of_def)
  show "\<exists>h l. hex_of b = [h, l] \<and> hex_digit h = Some (b div 16) \<and> hex_digit l = Some (b mod 16)"
    using h(1) l(1) by (auto simp: hex_of_def)
qed

definition hex_text :: "u8 list \<Rightarrow> u8 list" where
  "hex_text bs = concat (map hex_of bs)"

lemma hex_text_simps [simp]: "hex_text [] = []" "hex_text (b # bs) = hex_of b @ hex_text bs"
  by (simp_all add: hex_text_def)

lemma hex_text_facts: "length (hex_text bs) = 2 * length bs" "0 \<notin> set (hex_text bs)"
  using hex_of_facts by (induction bs) auto

lemma hex_loop_text:
  "2 * (i + length bs) < length str \<Longrightarrow>
   hex_loop str bs i = Some (take (2 * i) str @ hex_text bs @ 0 # drop (Suc (2 * (i + length bs))) str)"
proof (induction bs arbitrary: str i)
  case Nil
  then show ?case by (simp add: mult.commute wr_in upd_conv_take_nth_drop)
next
  case (Cons b bs)
  let ?s = "take (i * 2) str @ hex_of b @ drop (i * 2 + 2) str"
  have "memcpy str (i * 2) (hex_of b) 0 2 = Some ?s" using Cons.prems hex_of_facts(1) [of b] by (simp add: memcpy_in)
  moreover have "hex_loop ?s bs (Suc i) = Some (take (2 * Suc i) ?s @ hex_text bs @ 0 # drop (Suc (2 * (Suc i + length bs))) ?s)"
    using Cons.prems hex_of_facts(1) [of b] by (intro Cons.IH) simp
  moreover have "take (2 * Suc i) ?s = take (2 * i) str @ hex_of b"
    "drop (Suc (2 * (Suc i + length bs))) ?s = drop (Suc (2 * (i + length (b # bs)))) str"
    using Cons.prems hex_of_facts(1) [of b] by (simp_all add: mult.commute min_absorb2 add.commute)
  ultimately show ?case by simp
qed

lemma unhex_loop_text:
  "j + length bs \<le> length dst \<Longrightarrow>
   unhex_loop dst j False (hex_text bs) skip = Some (True, take j dst @ bs @ drop (j + length bs) dst)"
proof (induction bs arbitrary: dst j)
  case (Cons b bs)
  obtain h l where b: "hex_of b = [h, l]" "hex_digit h = Some (b div 16)" "hex_digit l = Some (b mod 16)"
    using hex_of_facts(3) by blast
  have j: "j < length dst" using Cons.prems by simp
  have "unhex_loop (dst[j := b]) (Suc j) False (hex_text bs) skip =
      Some (True, take (Suc j) (dst[j := b]) @ bs @ drop (Suc j + length bs) (dst[j := b]))"
    using Cons.prems by (intro Cons.IH) simp
  then show ?case using j b(2,3) byte_digits(4) [of b]
    by (simp add: b(1) wr_in rd_in take_Suc_conv_app_nth)
qed simp

lemma StrLen_of: "0 \<notin> set s \<Longrightarrow> StrLen (s @ 0 # r) = Some (length s)"
  by (induction s) auto

lemma hex_roundtrip:
  assumes "length bs = n" "2 * n < max_str_len" "max_str_len \<le> length str" "max_str_len < U32_RANGE" "addr \<noteq> 0" "n \<le> length dst"
  shows "\<exists>str'. BytesMapHexStr strs addr str max_str_len (Some bs) n 0 = Some (2 * n, str') \<and>
    StrLen str' = Some (2 * n) \<and> HexStrToBytes dst n str' skip = Some (n, bs @ drop n dst)"
proof -
  let ?s = "hex_text bs @ 0 # drop (Suc (2 * n)) str"
  have u: "u32_mul n 2 = 2 * n" "u32_add (2 * n) 1 = 2 * n + 1" using assms(2,4) by (simp_all add: u32_simps)
  have "BytesMapHexStr strs addr str max_str_len (Some bs) n 0 = Some (2 * n, ?s)"
    using assms hex_loop_text [of 0 bs str] by (simp add: BytesMapHexStr_def u del: One_nat_def)
  moreover have l: "StrLen ?s = Some (2 * n)" using hex_text_facts [of bs] assms(1) by (simp add: StrLen_of)
  moreover have "take (2 * n) ?s = hex_text bs" using hex_text_facts(1) [of bs] assms(1) by simp
  then have "HexStrToBytes dst n ?s skip = Some (n, bs @ drop n dst)"
    using l unhex_loop_text [of 0 bs dst skip] assms(1,6) by (simp add: HexStrToBytes_def u)
  ultimately show ?thesis by blast
qed

text \<open>With a separator.\<close>

lemma bounded_len_StrLen: "n < 0 \<Longrightarrow> bounded_len s n = StrLen s"
  by (induction s arbitrary: n) auto

lemma put_all_buffer:
  "addr + str + length cs \<le> Suc limit \<Longrightarrow> str + length cs \<le> length buf \<Longrightarrow>
   put_all (buffer_char addr limit) cs (buf, str) = Some (take str buf @ cs @ drop (str + length cs) buf, str + length cs)"
proof (induction cs arbitrary: buf str)
  case (Cons c cs)
  have s: "str < length buf" using Cons.prems(2) by simp
  have "put_all (buffer_char addr limit) cs (buf[str := c], str + 1) =
      Some (take (str + 1) (buf[str := c]) @ cs @ drop (str + 1 + length cs) (buf[str := c]), str + 1 + length cs)"
    using Cons.prems by (intro Cons.IH) auto
  then show ?case using Cons.prems s by (simp add: wr_in take_Suc_conv_app_nth)
qed simp

lemma byte_text: "number_text (ucast (ucast (b :: u8) :: u32)) 16 2 (- 1) (ZEROPAD OR LARGE) = hex_of b"
proof -
  let ?n = "unat b"
  have v: "number_value (ucast (ucast b :: u32)) (ZEROPAD OR LARGE) = ?n"
  proof -
    have "unat (ucast (ucast b :: u32) :: u64) = ?n" using unat_u8_less [of b] by (simp add: unat_ucast)
    then show ?thesis using unat_u8_less [of b] by (simp add: number_value_def SIGN_def ZEROPAD_def LARGE_def)
  qed
  have d: "digits_of 16 ?n = (if ?n div 16 > 0 then [?n mod 16, ?n div 16] else [?n])"
  proof -
    have "?n div 16 div 16 = 0" using byte_digits(3) [of b] by simp
    moreover have "?n mod 16 = ?n" if "?n div 16 = 0" using that by (simp add: div_eq_0_iff)
    ultimately show ?thesis using digits_step [of 16 ?n] digits_step [of 16 "?n div 16"] by auto
  qed
  have h: "large_digits ! (?n div 16) = HexList ! (?n div 16)" "large_digits ! (?n mod 16) = HexList ! (?n mod 16)"
    using hex_chars byte_digits(3) [of b] by simp_all
  have f: "number_sign (ucast (ucast b :: u32)) (ZEROPAD OR LARGE) = []" "number_prefix 16 (ZEROPAD OR LARGE) = []"
    "digit_set (ZEROPAD OR LARGE) = large_digits" "(ZEROPAD OR LARGE) AND LEFT = 0" "ZEROPAD \<noteq> 0"
    by (simp_all add: number_sign_def number_prefix_def digit_set_def ZEROPAD_def LARGE_def SIGN_def SPECIAL_def LEFT_def)
  have z: "large_digits ! 0 = 48" "HexList ! 0 = 48" by (simp_all add: large_digits_def HexList_def)
  show ?thesis
  proof (cases "?n div 16 > 0")
    case True
    then show ?thesis using h by (simp add: number_text_def v d f hex_of_def byte_digits(1,2) Let_def)
  next
    case False
    then have "?n mod 16 = ?n" by (simp add: div_eq_0_iff)
    then show ?thesis using False h z by (simp add: number_text_def v d f hex_of_def byte_digits(1,2) Let_def)
  qed
qed

lemma Sprintf_limit:
  assumes "0 < addr" "addr < U32_RANGE"
  shows "\<exists>limit sz'. addr + n < U32_RANGE \<longrightarrow> n \<le> 2147483646 \<longrightarrow> addr + n \<le> limit \<and>
    (\<forall>buf strs format args. Sprintf addr buf strs format args = do {
        (ws, buf, str) \<leftarrow> format_loop (buffer_printer addr limit) strs format args [] (buf, 0);
        buf \<leftarrow> (if addr + str \<le> limit then wr buf str 0 else if 0 < (sz' :: nat) then wr buf (limit - addr) 0 else Some buf);
        Some (str, buf, ws) })"
proof -
  define limit where "limit = u32_sub (u32_add addr 2147483647) 1"
  let ?p = "if limit < u32_sub addr 1 then (4294967295, u32_add (u32_sub 4294967295 addr) 1) else (limit, 2147483647)"
  have "addr + n \<le> fst ?p" if "addr + n < U32_RANGE" "n \<le> 2147483646"
  proof (cases "addr + 2147483647 \<le> U32_RANGE")
    case True
    have "limit = addr + 2147483646"
    proof (cases "addr + 2147483647 = U32_RANGE")
      case True
      then show ?thesis by (simp add: limit_def u32_add_def u32_sub_def)
    next
      case False
      then show ?thesis using True by (simp add: limit_def u32_add_exact u32_sub_exact)
    qed
    moreover have "u32_sub addr 1 = addr - 1" using assms by (simp add: u32_sub_exact)
    ultimately show ?thesis using that by simp
  next
    case False
    then have "u32_add addr 2147483647 = addr + 2147483647 - U32_RANGE"
      using assms(2) by (simp add: u32_add_def mod_if)
    then have "limit = addr + 2147483647 - U32_RANGE - 1" using False assms(2) by (simp add: limit_def u32_sub_exact)
    moreover have "u32_sub addr 1 = addr - 1" using assms by (simp add: u32_sub_exact)
    ultimately have "limit < u32_sub addr 1" using False by linarith
    then show ?thesis using that by simp
  qed
  moreover have "Sprintf addr buf strs format args = do {
        (ws, buf, str) \<leftarrow> format_loop (buffer_printer addr (fst ?p)) strs format args [] (buf, 0);
        buf \<leftarrow> (if addr + str \<le> fst ?p then wr buf str 0 else if 0 < snd ?p then wr buf (fst ?p - addr) 0 else Some buf);
        Some (str, buf, ws) }" for buf strs format args
    unfolding Sprintf_def Vsnprintf_def Let_def limit_def [symmetric] by (simp add: case_prod_beta cong: if_cong)
  ultimately show ?thesis by blast
qed

lemma convert_s_plain:
  assumes "strs p = Some (sep @ 0 # r)" "0 \<notin> set sep"
  shows "convert_s k strs 0 (- 1) (- 1) (p # args) s = do { s \<leftarrow> put_all (pr_char k) sep s; Some (args, s) }"
  using assms by (simp add: convert_s_def bounded_len_StrLen StrLen_of pad_str_loop_text)

lemma Sprintf_byte:
  assumes "0 < addr" "addr + length buf < U32_RANGE" "length buf \<le> 2147483646" "strs p = Some (sep @ 0 # r)" "0 \<notin> set sep"
    "2 + length sep \<le> length buf"
  shows "Sprintf addr buf strs [37, 48, 42, 88, 37, 115, 0] [2, ucast (b :: u8), p] =
    (if 2 + length sep < length buf
     then Some (2 + length sep, hex_of b @ sep @ 0 # drop (Suc (2 + length sep)) buf, []) else None)"
proof -
  let ?n = "2 + length sep"
  have n: "addr + ?n < U32_RANGE" "?n \<le> 2147483646" "addr < U32_RANGE" using assms(2,3,6) by auto
  obtain limit sz' where l: "addr + ?n \<le> limit" and s: "Sprintf addr buf strs [37, 48, 42, 88, 37, 115, 0] [2, ucast b, p] = do {
        (ws, buf, str) \<leftarrow> format_loop (buffer_printer addr limit) strs [37, 48, 42, 88, 37, 115, 0] [2, ucast b, p] [] (buf, 0);
        buf \<leftarrow> (if addr + str \<le> limit then wr buf str 0 else if 0 < (sz' :: nat) then wr buf (limit - addr) 0 else Some buf);
        Some (str, buf, ws) }"
    using Sprintf_limit [OF assms(1) n(3), of ?n] n(1,2) by blast
  let ?put = "put_all (buffer_char addr limit)"
  have n_sign: "(ZEROPAD OR LARGE) AND SIGN = 0" by (simp add: ZEROPAD_def LARGE_def SIGN_def)
  have num: "pr_number (buffer_printer addr limit) (ucast (ucast b :: u32)) 16 2 (- 1) (ZEROPAD OR LARGE) t = ?put (hex_of b) t" for t
    by (simp add: buffer_printer_def VsnprintfNumber_def number_body_text byte_text)
  have "format_loop (buffer_printer addr limit) strs [37, 48, 42, 88, 37, 115, 0] [2, ucast b, p] [] (buf, 0) =
      do { s \<leftarrow> ?put (hex_of b) (buf, 0); s \<leftarrow> ?put sep s; Some ([], s) }"
    using assms(4,5) n_sign
    by (simp add: conversion.simps conversion_spec_def convert_def convert_number_def fetch_number_def convert_s_plain
        num bind_assoc) (simp add: buffer_printer_def)
  also have "\<dots> = Some ([], hex_of b @ sep @ drop ?n buf, ?n)"
    using assms(6) l hex_of_facts(1) [of b] by (simp add: put_all_buffer)
  finally show ?thesis using l assms(6) hex_of_facts(1) [of b] unfolding s
    by (auto simp: wr_def list_update_append upd_conv_take_nth_drop)
qed

definition hex_joined :: "u8 list \<Rightarrow> u8 list \<Rightarrow> u8 list" where
  "hex_joined sep bs = concat (map (\<lambda>b. hex_of b @ sep) bs)"

lemma hex_joined_simps [simp]: "hex_joined sep [] = []" "hex_joined sep (b # bs) = hex_of b @ sep @ hex_joined sep bs"
  by (simp_all add: hex_joined_def)

lemma length_hex_joined: "length (hex_joined sep bs) = length bs * (2 + length sep)"
  using hex_of_facts(1) by (induction bs) auto

lemma sep_loop_text:
  assumes "0 < addr" "addr + length str < U32_RANGE" "length str \<le> 2147483646" "strs p = Some (sep @ 0 # r)" "0 \<notin> set sep"
    "pos + length bs * (2 + length sep) \<le> length str"
  shows "case sep_loop strs p (2 + length sep) addr str pos bs of
      None \<Rightarrow> bs \<noteq> [] \<and> pos + length bs * (2 + length sep) = length str
    | Some (n, str') \<Rightarrow> n = pos + length bs * (2 + length sep) \<and> length str' = length str \<and>
        (bs \<noteq> [] \<longrightarrow> n < length str) \<and> take n str' = take pos str @ hex_joined sep bs"
  using assms(2,3,6)
proof (induction bs arbitrary: pos str)
  case (Cons b bs)
  let ?t = "2 + length sep"
  let ?s = "take pos str @ hex_of b @ sep @ 0 # drop (Suc ?t) (drop pos str)"
  have p: "pos + ?t + length bs * ?t \<le> length str" using Cons.prems(3) by simp
  have sp: "Sprintf (addr + pos) (drop pos str) strs [37, 48, 42, 88, 37, 115, 0] [2, ucast b, p] =
      (if ?t < length str - pos then Some (?t, hex_of b @ sep @ 0 # drop (Suc ?t) (drop pos str), []) else None)"
    using Sprintf_byte [of "addr + pos" "drop pos str" strs p sep r b] Cons.prems(1,2) p assms(1,4,5) by simp
  show ?case
  proof (cases "?t < length str - pos")
    case True
    have a: "u32_add pos ?t = pos + ?t" using Cons.prems(2) p by (simp add: u32_add_exact)
    have l: "length ?s = length str" using True hex_of_facts(1) [of b] by simp
    have tk: "take (pos + ?t) ?s = take pos str @ hex_of b @ sep" using True hex_of_facts(1) [of b] by simp
    have "sep_loop strs p ?t addr str pos (b # bs) = sep_loop strs p ?t addr ?s (pos + ?t) bs"
      using sp True a by simp
    moreover have "case sep_loop strs p ?t addr ?s (pos + ?t) bs of
        None \<Rightarrow> bs \<noteq> [] \<and> pos + ?t + length bs * ?t = length ?s
      | Some (n, str') \<Rightarrow> n = pos + ?t + length bs * ?t \<and> length str' = length ?s \<and>
          (bs \<noteq> [] \<longrightarrow> n < length ?s) \<and> take n str' = take (pos + ?t) ?s @ hex_joined sep bs"
      using Cons.prems(1,2) p l by (intro Cons.IH) simp_all
    ultimately show ?thesis using True unfolding l tk by (cases "bs = []") (auto split: option.splits)
  next
    case False
    then show ?thesis using sp p by simp
  qed
qed simp

lemma hex_joined_last:
  assumes "bs \<noteq> []" "0 \<notin> set sep"
  shows "\<exists>x. hex_joined sep bs = x @ sep \<and> 0 \<notin> set x"
proof -
  obtain init b where bs: "bs = init @ [b]" using assms(1) by (cases bs rule: rev_cases) auto
  have "0 \<notin> set (hex_joined sep init)" using assms(2) hex_of_facts(2) by (induction init) auto
  then show ?thesis using hex_of_facts(2) [of b]
    by (intro exI [of _ "hex_joined sep init @ hex_of b"]) (simp add: bs hex_joined_def)
qed

lemma BytesMapHexStr_sep:
  assumes "0 < addr" "addr + length str < U32_RANGE" "length str \<le> 2147483646" "strs p = Some (sep @ 0 # r)" "0 \<notin> set sep"
    "p \<noteq> 0" "length bs = n" "0 < n" "n * (2 + length sep) \<le> max_str_len" "max_str_len \<le> length str"
  shows "if n * (2 + length sep) < length str
    then \<exists>str'. BytesMapHexStr strs addr str max_str_len (Some bs) n p = Some (n * (2 + length sep) - length sep, str') \<and>
        take (n * (2 + length sep) - length sep) str' @ sep = hex_joined sep bs \<and>
        StrLen str' = Some (n * (2 + length sep) - length sep)
    else BytesMapHexStr strs addr str max_str_len (Some bs) n p = None"
proof -
  let ?t = "2 + length sep"
  have nt: "n * ?t \<le> length str" using assms(9,10) by simp
  have t1: "?t \<le> n * ?t" using assms(8) by (cases n) auto
  have m: "u32_mul n ?t = n * ?t" "u32_add 2 (length sep) = ?t"
    using nt t1 assms(3) by (simp_all add: u32_mul_exact u32_add_exact)
  have sub: "u32_sub (n * ?t) (length sep) = n * ?t - length sep" using nt t1 assms(3) by (simp add: u32_sub_exact)
  have B: "BytesMapHexStr strs addr str max_str_len (Some bs) n p = do {
      (str_len, str) \<leftarrow> sep_loop strs p ?t addr str 0 bs;
      str \<leftarrow> wr str (u32_sub str_len (length sep)) 0;
      Some (u32_sub str_len (length sep), str) }"
    unfolding BytesMapHexStr_def option.case assms(4) bind.bind_lunit StrLen_of [OF assms(5)] Let_def m
    using assms(1,6-9) by simp
  have s: "case sep_loop strs p ?t addr str 0 bs of
      None \<Rightarrow> bs \<noteq> [] \<and> length bs * ?t = length str
    | Some (k, str') \<Rightarrow> k = length bs * ?t \<and> length str' = length str \<and>
        (bs \<noteq> [] \<longrightarrow> k < length str) \<and> take k str' = hex_joined sep bs"
    using sep_loop_text [of addr str strs p sep r 0 bs, OF assms(1-5)] nt assms(7) by (simp only: add_0 take_0 append_Nil)
  have ne: "bs \<noteq> []" using assms(7,8) by auto
  show ?thesis
  proof (cases "sep_loop strs p ?t addr str 0 bs")
    case None
    then show ?thesis using s B assms(7) by simp
  next
    case (Some x)
    obtain str' where x: "x = (n * ?t, str')" and l: "length str' = length str" "n * ?t < length str"
      and tk: "take (n * ?t) str' = hex_joined sep bs"
      using s Some ne assms(7) by (cases x) auto
    obtain y where y: "hex_joined sep bs = y @ sep" "0 \<notin> set y" using hex_joined_last [OF ne assms(5)] by blast
    let ?k = "n * ?t - length sep"
    have k: "?k < length str'" "length y = ?k"
      using l nt t1 length_hex_joined [of sep bs] assms(7) y(1) by auto
    have "take ?k str' = take ?k (take (n * ?t) str')" by (simp add: min_absorb1)
    also have "\<dots> = y" using tk y(1) k(2) by simp
    finally have ty: "take ?k str' = y" .
    have "str'[?k := 0] = y @ 0 # drop (Suc ?k) str'" using k ty by (simp add: upd_conv_take_nth_drop)
    then have "BytesMapHexStr strs addr str max_str_len (Some bs) n p = Some (?k, y @ 0 # drop (Suc ?k) str')"
      using B Some x sub k(1) by (simp add: wr_in)
    then show ?thesis using l(2) y k(2) by (simp add: StrLen_of)
  qed
qed

subsection \<open>Round trips\<close>

lemma digits_no_zero_head:
  "2 \<le> r \<Longrightarrow> hd (rev (digits_of r n)) = 0 \<Longrightarrow> tl (rev (digits_of r n)) = []"
  using digits_facts(1,4,5) [of r n] by (cases "n = 0") (auto simp: hd_rev)

lemma u64_of_neg: "val < 0 \<Longrightarrow> - 9223372036854775808 \<le> val \<Longrightarrow> (18446744073709551616 - u64_of val) mod 18446744073709551616 = nat (- val)"
proof -
  assume v: "val < 0" "- 9223372036854775808 \<le> val"
  have "(val + 18446744073709551616) mod 18446744073709551616 = val + 18446744073709551616"
    using v by (intro mod_pos_pos_trivial) auto
  then have "val mod 18446744073709551616 = val + 18446744073709551616" by (simp only: mod_add_self2)
  then have "u64_of val = nat (val + 18446744073709551616)" by (simp add: u64_of_def)
  then have "18446744073709551616 - u64_of val = nat (- val)" using v by simp
  then show ?thesis using v by simp
qed

lemma UToA_StrToUL:
  assumes "2 \<le> r" "r \<le> 36" "0 \<le> val" "val < 4294967296" "34 \<le> length buf"
  shows "\<exists>s n. UToA val buf r = Some s \<and> IToA val buf r = Some s \<and> SToA val buf r = Some s \<and> StrToUL s (int r) = Some (nat val, n)"
proof -
  have u: "u64_of val = nat val" using assms(3,4) by (simp add: u64_of_def)
  have "nat val < 2 ^ Suc 31" using assms(4) by simp
  then have l: "length (digits_of r (nat val)) + 2 \<le> length buf" using digits_length [of "nat val" 31 r] assms(5) by simp
  obtain rest where x: "XToA (nat val) buf r False = Some ([] @ map digit_char (rev (digits_of r (nat val))) @ 0 # rest)"
    using XToA_prints [OF assms(1) _ l, of False "nat val"] by auto
  have "StrToXL ((if False then [45] else []) @ map digit_char (rev (digits_of r (nat val))) @ 0 # rest) (int r) True =
      Some (if False then u32_sub 0 (value_of r (rev (digits_of r (nat val)))) else value_of r (rev (digits_of r (nat val))),
        (if False then 1 else 0) + length (rev (digits_of r (nat val))))"
    using assms(1,2,4) digits_facts [OF assms(1), of "nat val"] digits_no_zero_head [OF assms(1)]
    by (intro StrToXL_parses) auto
  then show ?thesis using x assms(3) digits_facts(3) [OF assms(1), of "nat val"]
    by (simp add: UToA_def IToA_def SToA_def u StrToUL_def)
qed

lemma IToA_StrToL:
  assumes "- 2147483648 \<le> val" "val < 2147483648" "34 \<le> length buf"
  shows "\<exists>s n. IToA val buf 10 = Some s \<and> SToA val buf 10 = Some s \<and> StrToL s 10 = Some (val, n)"
proof -
  let ?neg = "val < 0" and ?m = "nat \<bar>val\<bar>"
  have m: "?m = (if ?neg then (18446744073709551616 - u64_of val) mod 18446744073709551616 else u64_of val)"
    using u64_of_neg [of val] assms(1,2) by (simp add: u64_of_def)
  have "?m < 2 ^ Suc 31" using assms(1,2) by simp
  then have l: "length (digits_of 10 ?m) + 2 \<le> length buf" using digits_length [of ?m 31 10] assms(3) by simp
  obtain rest where x: "XToA (u64_of val) buf 10 ?neg =
      Some ((if ?neg then [45] else []) @ map digit_char (rev (digits_of 10 ?m)) @ 0 # rest)"
    using XToA_prints [OF _ m l] by auto
  have v: "value_of 10 (rev (digits_of 10 ?m)) = ?m" by (rule digits_facts(3)) simp
  have "StrToXL ((if ?neg then [45] else []) @ map digit_char (rev (digits_of 10 ?m)) @ 0 # rest) (int 10) False =
      Some (if ?neg then u32_sub 0 (value_of 10 (rev (digits_of 10 ?m))) else value_of 10 (rev (digits_of 10 ?m)),
        (if ?neg then 1 else 0) + length (rev (digits_of 10 ?m)))"
    using assms(1,2) digits_facts(1,2) [of 10 ?m] v by (intro StrToXL_parses) auto
  moreover have "u32_sub 0 ?m = nat (val + 4294967296)" if ?neg
    using that assms(1) by (simp add: u32_sub_def nat_add_distrib)
  ultimately show ?thesis using x assms(1,2) unfolding v
    by (auto simp: IToA_def SToA_def StrToL_def)
qed

text \<open>Property C28. Numbers survive printing: what \<open>UToA\<close>, \<open>IToA\<close> and \<open>SToA\<close> print of a number below \<open>2 ^ 32\<close> to any base
  from 2 to 36 is read back by \<open>StrToUL\<close>, and what they print of a signed 32-bit number in decimal by \<open>StrToL\<close>.\<close>

theorem number_string_roundtrip:
  assumes "34 \<le> length buf" "2 \<le> r" "r \<le> 36" "0 \<le> val" "val < 4294967296" "- 2147483648 \<le> v" "v < 2147483648"
  shows "(\<exists>s n. UToA val buf r = Some s \<and> IToA val buf r = Some s \<and> SToA val buf r = Some s \<and>
      StrToUL s (int r) = Some (nat val, n)) \<and>
    (\<exists>s n. IToA v buf 10 = Some s \<and> SToA v buf 10 = Some s \<and> StrToL s 10 = Some (v, n))"
  using UToA_StrToUL [OF assms(2-5,1)] IToA_StrToL [OF assms(6,7,1)] by blast

theorem number_string_roundtrip_witness:
  "(\<exists>s n. UToA 48879 (replicate 34 0) 16 = Some s \<and> StrToUL s 16 = Some (48879, n)) \<and>
   (\<exists>s n. IToA (- 2147483648) (replicate 34 0) 10 = Some s \<and> StrToL s 10 = Some (- 2147483648, n))"
  using number_string_roundtrip [of "replicate 34 0" 16 48879 "- 2147483648"] by auto

text \<open>Fact. Hexadecimal strings give their bytes back: \<open>BytesMapHexStr\<close> without a separator prints two digits for
  each byte and a final zero, and \<open>HexStrToBytes\<close> makes the same bytes of it, with either treatment of other characters,
  and leaves the rest of its buffer alone.\<close>

theorem hex_string_roundtrip:
  assumes "length bs = n" "2 * n < max_str_len" "max_str_len \<le> length str" "max_str_len < U32_RANGE" "addr \<noteq> 0" "n \<le> length dst"
  shows "\<exists>str'. BytesMapHexStr strs addr str max_str_len (Some bs) n 0 = Some (2 * n, str') \<and>
    StrLen str' = Some (2 * n) \<and> HexStrToBytes dst n str' skip = Some (n, bs @ drop n dst)"
  by (rule hex_roundtrip [OF assms])

theorem hex_string_roundtrip_witness:
  "\<exists>str'. BytesMapHexStr (\<lambda>_. None) 1000 (replicate 5 7) 5 (Some [0xA1, 0x0F]) 2 0 = Some (4, str') \<and>
    StrLen str' = Some 4 \<and> HexStrToBytes [1, 2, 3] 2 str' False = Some (2, [0xA1, 0x0F, 3])"
  using hex_string_roundtrip [of "[0xA1, 0x0F]" 2 5 "replicate 5 7" 1000 "[1, 2, 3]" "\<lambda>_. None" False] by simp

text \<open>Fact. With a separator \<open>BytesMapHexStr\<close> prints the bytes joined by it and answers the length of the text; but
  it prints the separator after the last byte too and cuts it off afterwards, so that a string whose length is exactly
  that of the text with the last separator, which passes the check of the function, is overrun by the final zero.\<close>

theorem hex_separator_overrun:
  assumes "0 < addr" "addr + length str < U32_RANGE" "length str \<le> 2147483646" "strs p = Some (sep @ 0 # r)" "0 \<notin> set sep"
    "p \<noteq> 0" "length bs = n" "0 < n" "n * (2 + length sep) \<le> max_str_len" "max_str_len \<le> length str"
  shows "if n * (2 + length sep) < length str
    then \<exists>str'. BytesMapHexStr strs addr str max_str_len (Some bs) n p = Some (n * (2 + length sep) - length sep, str') \<and>
        take (n * (2 + length sep) - length sep) str' @ sep = hex_joined sep bs \<and>
        StrLen str' = Some (n * (2 + length sep) - length sep)
    else BytesMapHexStr strs addr str max_str_len (Some bs) n p = None"
  by (rule BytesMapHexStr_sep [of addr str strs p sep r, OF assms])

theorem hex_separator_overrun_witness:
  "BytesMapHexStr (\<lambda>_. Some [32, 0]) 1000 (replicate 6 7) 6 (Some [0xA1, 0x0F]) 2 1 = None"
  using hex_separator_overrun [of 1000 "replicate 6 7" "\<lambda>_. Some [32, 0]" 1 "[32]" "[]" "[0xA1, 0x0F]" 2 6] by simp

end
