(* ===== verification/ScanLib.thy ===== *)
theory ScanLib imports ConvLib
begin

text \<open>
  \<open>common_lib/usdl_io.c\<close>, input: \<open>Vsscanf\<close> and the number parsers it uses. The input and the format are the lists of
  bytes from the pointers on, with their final zeros; running off one of them is \<open>None\<close>. The variable
  arguments are addresses, and the answer is the number of fields and the list of the stores made: an address and the value
  or the characters stored there. The theorem is the round trip with \<open>Snprintf\<close>.
\<close>

datatype stored = Chars "u8 list" | Val8 u8 | Val16 u16 | Val32 u32 | Val64 u64

subsection \<open>Numbers\<close>

definition xdigit_value :: "u8 \<Rightarrow> nat" where
  "xdigit_value c = (if IS_DIGIT c then unat c - 48 else nat (TO_UPPER c - 65 + 10))"

text \<open>The parsers of 32 and of 64 bits have the same text; the width of the result is the type of the loop.\<close>

fun strto_loop :: "nat \<Rightarrow> 'a::len word \<Rightarrow> u8 list \<Rightarrow> ('a word \<times> u8 list) option" where
  "strto_loop base result [] = None"
| "strto_loop base result (c # cp) =
     (if IS_XDIGIT c \<and> xdigit_value c < base then strto_loop base (result * of_nat base + of_nat (xdigit_value c)) cp
      else Some (result, c # cp))"

definition strto_base :: "u8 list \<Rightarrow> nat \<Rightarrow> (nat \<times> u8 list) option" where
  "strto_base cp base = do {
     c \<leftarrow> rd cp 0;
     if base = 0 then
       if c = 48 then do {
         x \<leftarrow> rd cp 1;
         if TO_UPPER x = 88 then do {
           d \<leftarrow> rd cp 2;
           Some (if IS_XDIGIT d then (16, drop 2 cp) else (8, drop 1 cp)) }
         else Some (8, drop 1 cp) }
       else Some (10, cp)
     else if base = 16 \<and> c = 48 then do { x \<leftarrow> rd cp 1; Some (base, if TO_UPPER x = 88 then drop 2 cp else cp) }
     else Some (base, cp) }"

definition simple_strtoul :: "u8 list \<Rightarrow> nat \<Rightarrow> (u32 \<times> u8 list) option" where
  "simple_strtoul cp base = do { (base, cp) \<leftarrow> strto_base cp base; strto_loop base 0 cp }"

definition simple_strtol :: "u8 list \<Rightarrow> nat \<Rightarrow> (u32 \<times> u8 list) option" where
  "simple_strtol cp base = do {
     c \<leftarrow> rd cp 0;
     if c = 45 then do { (r, endp) \<leftarrow> simple_strtoul (drop 1 cp) base; Some (- r, endp) } else simple_strtoul cp base }"

definition simple_strtoull :: "u8 list \<Rightarrow> nat \<Rightarrow> (u64 \<times> u8 list) option" where
  "simple_strtoull cp base = do { (base, cp) \<leftarrow> strto_base cp base; strto_loop base 0 cp }"

definition simple_strtoll :: "u8 list \<Rightarrow> nat \<Rightarrow> (u64 \<times> u8 list) option" where
  "simple_strtoll cp base = do {
     c \<leftarrow> rd cp 0;
     if c = 45 then do { (r, endp) \<leftarrow> simple_strtoull (drop 1 cp) base; Some (- r, endp) } else simple_strtoull cp base }"

subsection \<open>Fields\<close>

fun skip_spaces :: "u8 list \<Rightarrow> u8 list option" where
  "skip_spaces [] = None"
| "skip_spaces (c # s) = (if IS_SPACE c then skip_spaces s else Some (c # s))"

fun skip_word :: "u8 list \<Rightarrow> u8 list option" where
  "skip_word [] = None"
| "skip_word (c # s) = (if \<not> IS_SPACE c \<and> c \<noteq> 0 then skip_word s else Some (c # s))"

text \<open>The copying loops of \<open>%c\<close> and \<open>%s\<close>: the characters copied and the input that is left.\<close>

fun scan_chars :: "int \<Rightarrow> u8 list \<Rightarrow> (u8 list \<times> u8 list) option" where
  "scan_chars field_width [] = None"
| "scan_chars field_width (c # str) =
     (if field_width - 1 > 0 then
        (case str of [] \<Rightarrow> None
         | d # _ \<Rightarrow> if d \<noteq> 0 then do { (cs, str) \<leftarrow> scan_chars (field_width - 1) str; Some (c # cs, str) }
                   else Some ([c], str))
      else Some ([c], str))"

fun scan_word :: "int \<Rightarrow> u8 list \<Rightarrow> (u8 list \<times> u8 list) option" where
  "scan_word field_width [] = None"
| "scan_word field_width (c # str) =
     (if c \<noteq> 0 \<and> \<not> IS_SPACE c \<and> field_width \<noteq> 0 then do {
        (cs, str) \<leftarrow> scan_word (field_width - 1) str; Some (c # cs, str) }
      else Some ([], c # str))"

fun scan_width :: "u8 list \<Rightarrow> (int \<times> u8 list) option" where
  "scan_width [] = None"
| "scan_width (c # f) = (if IS_DIGIT c then skip_atoi (c # f) 0 else Some (- 1, c # f))"

fun scan_qualifier :: "u8 list \<Rightarrow> (u8 \<times> u8 list) option" where
  "scan_qualifier [] = None"
| "scan_qualifier (c # f) =
     (if c = 104 \<or> c = 108 \<or> c = 76 \<or> c = 90 \<or> c = 122 then
        (case f of [] \<Rightarrow> None
         | d # f' \<Rightarrow> if d = 104 \<and> c = 104 then Some (72, f') else if d = 108 \<and> c = 108 then Some (76, f') else Some (c, f))
      else Some (0, c # f))"

text \<open>The value stored for a number, by the qualifier (72 is \<open>hh\<close>), and the input behind it.\<close>

definition scan_store :: "u8 \<Rightarrow> bool \<Rightarrow> nat \<Rightarrow> u8 list \<Rightarrow> (stored \<times> u8 list) option" where
  "scan_store qualifier is_sign base str =
     (if qualifier = 76 then do {
        (r, next) \<leftarrow> (if is_sign then simple_strtoll str base else simple_strtoull str base); Some (Val64 r, next) }
      else if qualifier = 90 \<or> qualifier = 122 then do { (r, next) \<leftarrow> simple_strtoul str base; Some (Val32 r, next) }
      else do {
        (r, next) \<leftarrow> (if is_sign then simple_strtol str base else simple_strtoul str base);
        Some (if qualifier = 72 then Val8 (ucast r) else if qualifier = 104 then Val16 (ucast r) else Val32 r, next) })"

definition bad_digit :: "nat \<Rightarrow> u8 \<Rightarrow> bool" where
  "bad_digit base digit \<longleftrightarrow> digit = 0 \<or> (base = 16 \<and> \<not> IS_XDIGIT digit) \<or> (base = 10 \<and> \<not> IS_DIGIT digit) \<or>
     (base = 8 \<and> (\<not> IS_DIGIT digit \<or> digit > 55)) \<or> (base = 0 \<and> \<not> IS_DIGIT digit)"

text \<open>A round of the loop ends the function (\<open>Inl\<close> the answer and the stores) or goes on with what is left of the format, the input and
  the arguments.\<close>

type_synonym scan_end = "nat \<times> (u32 \<times> stored) list"
type_synonym scan_state = "u8 list \<times> u8 list \<times> u32 list \<times> (u32 \<times> stored) list \<times> nat"

definition scan_number :: "nat \<Rightarrow> bool \<Rightarrow> u8 \<Rightarrow> scan_state \<Rightarrow> (scan_end + scan_state) option" where
  "scan_number base is_sign qualifier st = (case st of (f, str, args, ws, num) \<Rightarrow> do {
     str \<leftarrow> skip_spaces str;
     digit \<leftarrow> rd str 0;
     digit \<leftarrow> (if is_sign \<and> digit = 45 then rd str 1 else Some digit);
     if bad_digit base digit then Some (Inl (num, ws))
     else do {
       (p, args) \<leftarrow> va_u32 args;
       (v, next) \<leftarrow> scan_store qualifier is_sign base str;
       Some (Inr (f, next, args, ws @ [(p, v)], num + 1)) } })"

text \<open>The switch over the conversion character \<open>c\<close>; \<open>buf_len\<close> is the length of the input, from which \<open>%n\<close> gets its position.\<close>

definition scan_convert :: "nat \<Rightarrow> int \<Rightarrow> u8 \<Rightarrow> u8 \<Rightarrow> scan_state \<Rightarrow> (scan_end + scan_state) option" where
  "scan_convert buf_len field_width qualifier c st = (case st of (f, str, args, ws, num) \<Rightarrow>
     if c = 99 then do {
       (p, args) \<leftarrow> va_u32 args;
       (cs, str) \<leftarrow> scan_chars (if field_width = - 1 then 1 else field_width) str;
       Some (Inr (f, str, args, ws @ [(p, Chars cs)], num + 1)) }
     else if c = 115 then do {
       (p, args) \<leftarrow> va_u32 args;
       str \<leftarrow> skip_spaces str;
       (cs, str) \<leftarrow> scan_word (if field_width = - 1 then 2147483647 else field_width) str;
       Some (Inr (f, str, args, ws @ [(p, Chars (cs @ [0]))], num + 1)) }
     else if c = 110 then do {
       (p, args) \<leftarrow> va_u32 args;
       Some (Inr (f, str, args, ws @ [(p, Val32 (of_nat (buf_len - length str)))], num)) }
     else if c = 111 then scan_number 8 False qualifier st
     else if c = 120 \<or> c = 88 then scan_number 16 False qualifier st
     else if c = 105 then scan_number 0 True qualifier st
     else if c = 100 then scan_number 10 True qualifier st
     else if c = 117 then scan_number 10 False qualifier st
     else if c = 37 then do {
       d \<leftarrow> rd str 0;
       Some (if d \<noteq> 37 then Inl (num, ws) else Inr (f, drop 1 str, args, ws, num)) }
     else Some (Inl (num, ws)))"

text \<open>From the character after the per cent sign; the input is not at its end.\<close>

definition scan_field :: "nat \<Rightarrow> scan_state \<Rightarrow> (scan_end + scan_state) option" where
  "scan_field buf_len st = (case st of (f, str, args, ws, num) \<Rightarrow> do {
     c \<leftarrow> rd f 0;
     if c = 42 then do { f \<leftarrow> skip_word f; str \<leftarrow> skip_word str; Some (Inr (f, str, args, ws, num)) }
     else do {
       (field_width, f) \<leftarrow> scan_width f;
       (qualifier, f) \<leftarrow> scan_qualifier f;
       c \<leftarrow> rd f 0;
       if c = 0 then Some (Inl (num, ws)) else scan_convert buf_len field_width qualifier c (drop 1 f, str, args, ws, num) } })"

definition scan_round :: "nat \<Rightarrow> scan_state \<Rightarrow> (scan_end + scan_state) option" where
  "scan_round buf_len st = (case st of (f, str, args, ws, num) \<Rightarrow> do {
     c \<leftarrow> rd f 0;
     if c = 0 then Some (Inl (num, ws))
     else do {
       d \<leftarrow> rd str 0;
       if d = 0 then Some (Inl (num, ws))
       else if IS_SPACE c then do { f \<leftarrow> skip_spaces f; str \<leftarrow> skip_spaces str; Some (Inr (f, str, args, ws, num)) }
       else if c \<noteq> 37 then
         Some (if c \<noteq> d then Inl (num, ws) else Inr (drop 1 f, drop 1 str, args, ws, num))
       else scan_field buf_len (drop 1 f, str, args, ws, num) } })"

subsection \<open>The format is consumed\<close>

lemma skip_spaces_rest: "skip_spaces f = Some g \<Longrightarrow> length g \<le> length f"
  by (induction f) (auto split: if_splits)

lemma skip_word_rest: "skip_word f = Some g \<Longrightarrow> length g \<le> length f"
  by (induction f) (auto split: if_splits)

lemma scan_width_rest: "scan_width f = Some (w, g) \<Longrightarrow> length g \<le> length f"
  by (cases f) (auto split: if_splits simp del: skip_atoi.simps dest!: skip_atoi_rest)

lemma scan_qualifier_rest: "scan_qualifier f = Some (q, g) \<Longrightarrow> length g \<le> length f"
  by (cases f) (auto split: if_splits list.splits)

lemma scan_number_rest: "scan_number base sg q (f, r) = Some (Inr (g, r')) \<Longrightarrow> g = f"
  by (auto simp: scan_number_def split: if_splits bind_splits prod.splits)

lemma scan_convert_rest: "scan_convert n w q c (f, r) = Some (Inr (g, r')) \<Longrightarrow> g = f"
  by (auto simp: scan_convert_def dest: scan_number_rest split: if_splits bind_splits prod.splits)

lemma scan_field_rest: "scan_field n (f, r) = Some (Inr (g, r')) \<Longrightarrow> length g \<le> length f"
  by (auto simp: scan_field_def dest!: scan_convert_rest scan_width_rest scan_qualifier_rest skip_word_rest
      split: if_splits bind_splits prod.splits)

lemma scan_round_rest:
  assumes "scan_round n (f, r) = Some (Inr (g, r'))"
  shows "length g < length f"
proof (cases f)
  case Nil
  then show ?thesis using assms by (cases r) (auto simp: scan_round_def rd_def)
next
  case (Cons c f')
  have "length g \<le> length f'" if "IS_SPACE c" "skip_spaces f = Some g"
    using that Cons by (auto dest: skip_spaces_rest)
  then show ?thesis using assms Cons
    by (cases r) (auto simp: scan_round_def rd_def dest!: scan_field_rest skip_spaces_rest split: if_splits bind_splits)
qed

subsection \<open>The functions\<close>

function scan_loop :: "nat \<Rightarrow> scan_state \<Rightarrow> scan_end option" where
  "scan_loop buf_len st = do {
     r \<leftarrow> scan_round buf_len st;
     case r of Inl e \<Rightarrow> Some e | Inr st \<Rightarrow> scan_loop buf_len st }"
  by pat_completeness auto
termination
  by (relation "measure (\<lambda>(n, f, r). length f)") (auto dest: scan_round_rest)

declare scan_loop.simps [simp del]

definition Vsscanf :: "u8 list \<Rightarrow> u8 list \<Rightarrow> u32 list \<Rightarrow> scan_end option" where
  "Vsscanf buf format args = scan_loop (length buf) (format, buf, args, [], 0)"

definition Sscanf :: "u8 list \<Rightarrow> u8 list \<Rightarrow> u32 list \<Rightarrow> scan_end option" where
  "Sscanf buf format args = Vsscanf buf format args"


subsection \<open>Reading what was printed\<close>

lemma small_digit:
  assumes "d < 16"
  shows "IS_XDIGIT (small_digits ! d)" "xdigit_value (small_digits ! d) = d" "\<not> IS_SPACE (small_digits ! d)"
    "small_digits ! d \<noteq> 0" "small_digits ! d \<noteq> 45" "TO_UPPER (small_digits ! d) \<noteq> 88"
    "IS_DIGIT (small_digits ! d) \<longleftrightarrow> d < 10" "small_digits ! d > 55 \<longleftrightarrow> d > 7" "small_digits ! d \<noteq> 37"
proof -
  have "list_all (\<lambda>d. IS_XDIGIT (small_digits ! d) \<and> xdigit_value (small_digits ! d) = d \<and> \<not> IS_SPACE (small_digits ! d) \<and>
    small_digits ! d \<noteq> 0 \<and> small_digits ! d \<noteq> 45 \<and> TO_UPPER (small_digits ! d) \<noteq> 88 \<and>
    (IS_DIGIT (small_digits ! d) \<longleftrightarrow> d < 10) \<and> (small_digits ! d > 55 \<longleftrightarrow> d > 7) \<and> small_digits ! d \<noteq> 37) [0..<16]" by code_simp
  then show "IS_XDIGIT (small_digits ! d)" "xdigit_value (small_digits ! d) = d" "\<not> IS_SPACE (small_digits ! d)"
    "small_digits ! d \<noteq> 0" "small_digits ! d \<noteq> 45" "TO_UPPER (small_digits ! d) \<noteq> 88"
    "IS_DIGIT (small_digits ! d) \<longleftrightarrow> d < 10" "small_digits ! d > 55 \<longleftrightarrow> d > 7" "small_digits ! d \<noteq> 37"
    using assms by (simp_all add: list_all_iff)
qed

lemma other_chars: "\<not> IS_XDIGIT 0" "TO_UPPER 0 \<noteq> 88" "\<not> IS_SPACE 0" "\<not> IS_SPACE 37" "\<not> IS_SPACE 45"
    "\<not> IS_DIGIT 100" "\<not> IS_DIGIT 117" "\<not> IS_DIGIT 120" "\<not> IS_DIGIT 111"
  by code_simp+

lemma strto_digits:
  assumes "b \<le> 16" "\<forall>d \<in> set ds. d < b"
  shows "strto_loop b (of_nat n :: 'a::len word) (map (\<lambda>d. small_digits ! d) ds @ 0 # r) =
    Some (of_nat (foldl (\<lambda>n d. n * b + d) n ds), 0 # r)"
  using assms(2)
proof (induction ds arbitrary: n)
  case Nil
  then show ?case by (simp add: other_chars)
next
  case (Cons d ds)
  have d: "d < 16" "d < b" using Cons.prems assms(1) by auto
  have "strto_loop b (of_nat (n * b + d) :: 'a word) (map (\<lambda>d. small_digits ! d) ds @ 0 # r) =
      Some (of_nat (foldl (\<lambda>n d. n * b + d) (n * b + d) ds), 0 # r)"
    using Cons.prems by (intro Cons.IH) simp
  then show ?case using d small_digit(1,2) [OF d(1)] by simp
qed

lemma strto_printed:
  assumes "b \<in> {8, 10, 16}"
  shows "simple_strtoul (map (\<lambda>d. small_digits ! d) (rev (digits_of b n)) @ 0 # r) b = Some (of_nat n, 0 # r)"
proof -
  let ?ds = "rev (digits_of b n)" let ?s = "map (\<lambda>d. small_digits ! d) ?ds @ 0 # r"
  have b: "2 \<le> b" "b \<le> 16" using assms by auto
  obtain d es where ds: "?ds = d # es" using digits_facts(1) [OF b(1), of n] by (cases ?ds) auto
  have lt: "\<forall>d \<in> set ?ds. d < b" using digits_facts(2) [OF b(1), of n] by simp
  have second: "\<exists>x. rd ?s 1 = Some x \<and> TO_UPPER x \<noteq> 88"
  proof (cases es)
    case Nil
    then show ?thesis using other_chars(2) by (simp add: ds rd_def)
  next
    case (Cons e es')
    then have "e < 16" using lt b(2) ds by auto
    then show ?thesis using small_digit(6) [of e] Cons by (simp add: ds rd_def)
  qed
  have "strto_base ?s b = Some (b, ?s)"
    using second b assms by (auto simp: strto_base_def ds rd_def)
  moreover have "strto_loop b (of_nat 0 :: u32) ?s = Some (of_nat (foldl (\<lambda>n d. n * b + d) 0 ?ds), 0 # r)"
    by (rule strto_digits [OF b(2) lt])
  ultimately show ?thesis using digits_facts(3) [OF b(1), of n] by (simp add: simple_strtoul_def value_of_def)
qed

text \<open>The texts that the plain conversions print.\<close>

abbreviation printed :: "nat \<Rightarrow> nat \<Rightarrow> u8 list" where
  "printed b n \<equiv> map (\<lambda>d. small_digits ! d) (rev (digits_of b n))"

lemma printed_unsigned: "number_text (ucast (w :: u32)) b (- 1) (- 1) 0 = printed b (unat w)"
  using unat_u32_less [of w]
  by (simp add: number_text_def number_sign_def number_prefix_def number_value_def digit_set_def unat_u64_u32)

lemma sint_sign_extended: "sint (scast (w :: u32) :: u64) = sint w"
  by (rule sint_up_scast) (simp add: is_up)

lemma unat_magnitude:
  "unat (if sint w < 0 then - scast w else scast (w :: u32) :: u64) = nat \<bar>sint w\<bar>"
proof -
  have r: "- 2147483648 \<le> sint w" "sint w < 2147483648" using sint_range_size [of w] by (simp_all add: size_word_def)
  have "uint (if sint w < 0 then - scast w else scast w :: u64) = \<bar>sint w\<bar>"
  proof -
    have "(if sint w < 0 then - scast w else scast w :: u64) = word_of_int \<bar>sint w\<bar>"
      unfolding scast_eq by (cases "sint w < 0") (simp_all only: wi_hom_neg abs_if if_True if_False)
    moreover have "uint (word_of_int \<bar>sint w\<bar> :: u64) = \<bar>sint w\<bar>"
      using r by (simp only: uint_word_of_int) (intro mod_pos_pos_trivial, auto)
    ultimately show ?thesis by (simp only:)
  qed
  then show ?thesis by (simp only: unat_eq_nat_uint)
qed

lemma printed_signed:
  "number_text (scast (w :: u32)) 10 (- 1) (- 1) SIGN = (if sint w < 0 then [45] else []) @ printed 10 (nat \<bar>sint w\<bar>)"
proof -
  have r: "nat \<bar>sint w\<bar> < U32_RANGE" using sint_range_size [of w] by (auto simp: size_word_def)
  have "number_value (scast w) SIGN = nat \<bar>sint w\<bar>"
    using unat_magnitude [of w] r by (simp add: number_value_def sint_sign_extended SIGN_def)
  then show ?thesis
    by (simp add: number_text_def number_sign_def number_prefix_def digit_set_def sint_sign_extended SIGN_def PLUS_def SPACE_def
        LEFT_def LARGE_def SPECIAL_def ZEROPAD_def)
qed

lemma printed_length: "2 \<le> b \<Longrightarrow> n < 2 ^ Suc k \<Longrightarrow> length (printed b n) \<le> Suc k"
  using digits_length [of n k b] by simp

lemma scan_store_plain:
  "scan_store 0 is_sign base str =
     do { (r, endp) \<leftarrow> (if is_sign then simple_strtol str base else simple_strtoul str base); Some (Val32 r, endp) }"
  by (simp add: scan_store_def)

text \<open>A format of a single conversion reads one number and stops at the end of the input.\<close>

lemma scan_single:
  assumes "scan_convert (length s) (- 1) 0 c ([0], s, [p], [], 0) = Some (Inr ([0], [0] @ r, [], [(p, v)], 1))"
    "rd s 0 = Some d" "d \<noteq> 0" "c \<in> {100, 117, 120, 111}"
  shows "Sscanf s [37, c, 0] [p] = Some (1, [(p, v)])"
proof -
  have c: "\<not> IS_DIGIT c" "c \<noteq> 42" "c \<noteq> 0" "c \<noteq> 104" "c \<noteq> 108" "c \<noteq> 76" "c \<noteq> 90" "c \<noteq> 122" using assms(4) other_chars by auto
  have "scan_round (length s) ([37, c, 0], s, [p], [], 0) = Some (Inr ([0], [0] @ r, [], [(p, v)], 1))"
    using assms(1-3) c other_chars by (simp add: scan_round_def scan_field_def rd_def)
  moreover have "scan_round (length s) ([0], [0] @ r, [], [(p, v)], 1) = Some (Inl (1, [(p, v)]))"
    by (simp add: scan_round_def rd_def)
  ultimately show ?thesis
    unfolding Sscanf_def Vsscanf_def by (subst scan_loop.simps) (simp add: scan_loop.simps)
qed

lemma printed_head:
  assumes "2 \<le> b" "b \<le> 16"
  shows "\<exists>d ds. printed b n = small_digits ! d # ds \<and> d < b"
  using digits_facts(1,2) [OF assms(1), of n] by (cases "digits_of b n" rule: rev_cases) auto

lemma scan_unsigned:
  assumes "b \<in> {8, 10, 16}"
  shows "scan_number b False 0 ([0], printed b (unat w) @ 0 # r, [p], [], 0) = Some (Inr ([0], 0 # r, [], [(p, Val32 w)], 1))"
proof -
  have b: "2 \<le> b" "b \<le> 16" using assms by auto
  obtain d ds where d: "printed b (unat w) = small_digits ! d # ds" "d < b" using printed_head [OF b, of "unat w"] by auto
  have d16: "d < 16" using d(2) b(2) by simp
  have "bad_digit b (small_digits ! d) = False"
    using assms d(2) small_digit(1,4,7,8) [OF d16] by (auto simp: bad_digit_def)
  moreover have "simple_strtoul (printed b (unat w) @ 0 # r) b = Some (w, 0 # r)"
    using strto_printed [OF assms, of "unat w" r] by simp
  ultimately show ?thesis using small_digit(3) [OF d16] unfolding d(1)
    by (simp add: scan_number_def scan_store_plain rd_def)
qed

lemma scan_signed:
  "scan_number 10 True 0 ([0], (if sint w < 0 then [45] else []) @ printed 10 (nat \<bar>sint w\<bar>) @ 0 # r, [p], [], 0) =
     Some (Inr ([0], 0 # r, [], [(p, Val32 w)], 1))"
proof -
  let ?n = "nat \<bar>sint w\<bar>"
  obtain d ds where d: "printed 10 ?n = small_digits ! d # ds" "d < 10" using printed_head [of 10 ?n] by auto
  have d16: "d < 16" using d(2) by simp
  have g: "bad_digit 10 (small_digits ! d) = False" using d(2) small_digit(4,7) [OF d16] by (simp add: bad_digit_def)
  have u: "simple_strtoul (printed 10 ?n @ 0 # r) 10 = Some (of_nat ?n, 0 # r)" by (rule strto_printed) simp
  have w: "(of_nat ?n :: u32) = (if sint w < 0 then - w else w)"
  proof -
    have s: "word_of_int (sint w) = w" by (metis scast_eq scast_id)
    have "(of_nat ?n :: u32) = word_of_int \<bar>sint w\<bar>" by simp
    also have "\<dots> = (if sint w < 0 then - w else w)"
      by (cases "sint w < 0") (simp_all only: abs_if if_True if_False wi_hom_neg [symmetric] s)
    finally show ?thesis .
  qed
  show ?thesis
  proof (cases "sint w < 0")
    case True
    then have "simple_strtol (45 # printed 10 ?n @ 0 # r) 10 = Some (w, 0 # r)"
      using u w by (simp add: simple_strtol_def rd_def)
    then show ?thesis using True g other_chars(5) unfolding d(1) by (simp add: scan_number_def scan_store_plain rd_def)
  next
    case False
    then have "simple_strtol (printed 10 ?n @ 0 # r) 10 = Some (w, 0 # r)"
      using u w small_digit(5) [OF d16] unfolding d(1) by (simp add: simple_strtol_def rd_def)
    then show ?thesis using False g small_digit(3,5) [OF d16] unfolding d(1) by (simp add: scan_number_def scan_store_plain rd_def)
  qed
qed

lemma digits_length_pow: "2 \<le> b \<Longrightarrow> n < b ^ Suc k \<Longrightarrow> length (digits_of b n) \<le> Suc k"
proof (induction k arbitrary: n)
  case 0
  then show ?case by (simp add: digits_step)
next
  case (Suc k)
  then have "n div b < b ^ Suc k" by (intro less_mult_imp_div_less) (simp add: mult.commute)
  then show ?case using Suc by (simp add: digits_step)
qed

text \<open>
  Through the buffer: what \<open>Snprintf\<close> and \<open>Sprintf\<close> leave there, \<open>Sscanf\<close> reads. \<open>Sprintf\<close> does not know the size of its buffer; it
  stays inside when the text fits.
\<close>

definition spec_number :: "u8 \<Rightarrow> u32 \<Rightarrow> u8 list" where
  "spec_number c w = number_text (if c = 100 then scast w else ucast w) (if c = 120 then 16 else if c = 111 then 8 else 10) (- 1) (- 1)
     (if c = 100 then SIGN else 0)"

lemma format_loop_number:
  assumes "c \<in> {100, 117, 120, 111}"
  shows "format_loop (buffer_printer addr limit) strs [37, c, 0] [w] [] (buf, 0) =
    do { s \<leftarrow> put_all (buffer_char addr limit) (spec_number c w) (buf, 0); Some ([], s) }"
proof -
  have n: "VsnprintfNumber addr limit num base sz p ty s = put_all (buffer_char addr limit) (number_text num base sz p ty) s"
    if "2 \<le> base" "base \<le> 36" for num base sz p ty s
    using that by (simp add: VsnprintfNumber_def number_body_text)
  from assms consider "c = 100" | "c = 117" | "c = 120" | "c = 111" by blast
  then show ?thesis
    by cases (simp_all add: conversion_simps buffer_printer_def n spec_number_def SIGN_def bind_assoc)
qed

text \<open>The last place that \<open>Sprintf\<close> would fill is two gigabytes on, or the end of the address space.\<close>

lemma Sprintf_number:
  assumes "c \<in> {100, 117, 120, 111}" "length (spec_number c w) < length buf" "length (spec_number c w) < 2147483647"
    "0 < addr" "addr + length buf \<le> U32_RANGE"
  shows "Sprintf addr buf strs [37, c, 0] [w] =
    Some (length (spec_number c w), spec_number c w @ 0 # drop (Suc (length (spec_number c w))) buf, [])"
proof -
  let ?t = "spec_number c w"
  obtain limit sz where l: "(let limit = u32_sub (u32_add addr 2147483647) 1 in
      if limit < u32_sub addr 1 then (4294967295, u32_add (u32_sub 4294967295 addr) 1) else (limit, 2147483647)) = (limit, sz)" by fastforce
  have a1: "u32_sub addr 1 = addr - 1" using assms(2,4,5) by (intro u32_sub_exact) auto
  have lim: "addr + length ?t \<le> limit"
  proof (cases "addr + 2147483647 < U32_RANGE")
    case True
    then have "u32_sub (u32_add addr 2147483647) 1 = addr + 2147483646" by (simp add: u32_simps)
    then show ?thesis using l assms(3) a1 by (auto simp: Let_def split: if_splits)
  next
    case False
    then have "u32_add addr 2147483647 = addr + 2147483647 - U32_RANGE" using assms(2,5) by (simp add: u32_add_def le_mod_geq)
    then have "limit = 4294967295"
      using l assms(2,5) a1 False by (cases "addr + 2147483647 = U32_RANGE") (auto simp: u32_sub_def Let_def le_mod_geq split: if_splits)
    then show ?thesis using assms(2,5) by simp
  qed
  have "put_all (buffer_char addr limit) ?t (buf, 0) = Some (?t @ drop (length ?t) buf, length ?t)"
    using put_all_buffer [of addr 0 ?t limit buf] lim assms(2) by simp
  then have f: "format_loop (buffer_printer addr limit) strs [37, c, 0] [w] [] (buf, 0) = Some ([], ?t @ drop (length ?t) buf, length ?t)"
    unfolding format_loop_number [OF assms(1)] by simp
  have "wr (?t @ drop (length ?t) buf) (length ?t) 0 = Some (?t @ 0 # drop (Suc (length ?t)) buf)"
    using assms(2) by (simp add: wr_def list_update_append Cons_nth_drop_Suc [symmetric])
  then show ?thesis
    unfolding Sprintf_def Vsnprintf_def Let_def l [unfolded Let_def] prod.case f bind.bind_lunit using lim by simp
qed

lemma Snprintf_single:
  assumes "Vprintf strs [37, c, 0] [w] = Some (length t, t, [])" "length t < sz" "sz \<le> 2147483647" "sz \<le> length buf" "0 < addr" "addr + sz \<le> U32_RANGE"
  shows "Snprintf addr buf sz strs [37, c, 0] [w] = Some (length t, t @ 0 # drop (Suc (length t)) buf, [])"
  using assms Vsnprintf_is_Vprintf [of sz buf addr strs "[37, c, 0]" "[w]"] by (simp add: Snprintf_def)

definition plain_base :: "u8 \<Rightarrow> nat" where
  "plain_base c = (if c = 120 then 16 else if c = 111 then 8 else 10)"

lemma Vprintf_number:
  "c \<in> {100, 117, 120, 111} \<Longrightarrow> Vprintf strs [37, c, 0] [w] = Some (length (spec_number c w), spec_number c w, [])"
  by (auto simp: Vprintf_def conversion_simps output_printer_def VprintfNumber_text spec_number_def SIGN_def)

lemma spec_number_unsigned: "c \<in> {117, 120, 111} \<Longrightarrow> spec_number c w = printed (plain_base c) (unat w)"
  by (auto simp: spec_number_def printed_unsigned plain_base_def)

lemma spec_number_signed: "spec_number 100 w = (if sint w < 0 then [45] else []) @ printed 10 (nat \<bar>sint w\<bar>)"
  by (simp add: spec_number_def printed_signed)

lemma scan_spec_unsigned:
  assumes "c \<in> {117, 120, 111}"
  shows "length (spec_number c w) \<le> 11 \<and> Sscanf (spec_number c w @ 0 # r) [37, c, 0] [p] = Some (1, [(p, Val32 w)])"
proof -
  let ?b = "plain_base c" and ?t = "printed (plain_base c) (unat w)"
  have b: "2 \<le> ?b" "?b \<le> 16" "?b \<in> {8, 10, 16}" "?b \<noteq> 2" using assms(1) by (auto simp: plain_base_def)
  have "unat w < ?b ^ Suc 10" using unat_u32_less [of w] assms(1) by (auto simp: plain_base_def)
  then have l: "length ?t \<le> 11" using digits_length_pow [OF b(1), of "unat w" 10] by simp
  obtain d ds where d: "?t = small_digits ! d # ds" "d < ?b" using printed_head [OF b(1,2), of "unat w"] by auto
  have d16: "d < 16" using d(2) b(2) by simp
  let ?buf = "?t @ 0 # r"
  have "Sscanf ?buf [37, c, 0] [p] = Some (1, [(p, Val32 w)])"
  proof (rule scan_single)
    show "scan_convert (length ?buf) (- 1) 0 c ([0], ?buf, [p], [], 0) = Some (Inr ([0], [0] @ r, [], [(p, Val32 w)], 1))"
      using scan_unsigned [OF b(3), of w r p] assms(1) by (auto simp: scan_convert_def plain_base_def)
    show "rd ?buf 0 = Some (small_digits ! d)" unfolding d(1) by (simp add: rd_def)
    show "small_digits ! d \<noteq> 0" by (rule small_digit(4) [OF d16])
    show "c \<in> {100, 117, 120, 111}" using assms(1) by auto
  qed
  then show ?thesis using l spec_number_unsigned [OF assms] by simp
qed

lemma scan_spec_signed:
  "length (spec_number 100 w) \<le> 11 \<and> Sscanf (spec_number 100 w @ 0 # r) [37, 100, 0] [p] = Some (1, [(p, Val32 w)])"
proof -
  let ?t = "(if sint w < 0 then [45] else []) @ printed 10 (nat \<bar>sint w\<bar>)"
  have "nat \<bar>sint w\<bar> < 10 ^ Suc 9" using sint_range_size [of w] by (auto simp: size_word_def)
  then have "length (digits_of 10 (nat \<bar>sint w\<bar>)) \<le> Suc 9" by (intro digits_length_pow) simp_all
  then have l: "length ?t \<le> 11" by (cases "sint w < 0") simp_all
  obtain d ds where d: "printed 10 (nat \<bar>sint w\<bar>) = small_digits ! d # ds" "d < 10" using printed_head [of 10 "nat \<bar>sint w\<bar>"] by auto
  have d16: "d < 16" using d(2) by simp
  let ?buf = "?t @ 0 # r"
  have "Sscanf ?buf [37, 100, 0] [p] = Some (1, [(p, Val32 w)])"
  proof (rule scan_single)
    show "scan_convert (length ?buf) (- 1) 0 100 ([0], ?buf, [p], [], 0) = Some (Inr ([0], [0] @ r, [], [(p, Val32 w)], 1))"
      using scan_signed [of w r p] by (simp add: scan_convert_def)
    show "rd ?buf 0 = Some (if sint w < 0 then 45 else small_digits ! d)" unfolding d(1) by (simp add: rd_def)
    show "(if sint w < 0 then 45 else small_digits ! d) \<noteq> 0" using small_digit(4) [OF d16] by simp
  qed simp
  then show ?thesis using l unfolding spec_number_signed by simp
qed

text \<open>
  Property C29. Printed numbers are scanned back: for the conversions \<open>%d\<close>, \<open>%u\<close>, \<open>%x\<close> and \<open>%o\<close> of a 32-bit number, \<open>Sprintf\<close>
  into a buffer of at least twelve bytes, wherever it lies in memory, and \<open>Snprintf\<close> with a size of at least twelve that the
  buffer holds both leave a string that \<open>Sscanf\<close> with the same format reads as one field with the same number.
\<close>

theorem print_scan_roundtrip:
  assumes "c \<in> {100, 117, 120, 111}" "12 \<le> sz" "sz \<le> 2147483647" "sz \<le> length buf" "0 < addr" "addr + length buf \<le> U32_RANGE"
  shows "\<exists>n buf'. Sprintf addr buf strs [37, c, 0] [w] = Some (n, buf', []) \<and>
    Snprintf addr buf sz strs [37, c, 0] [w] = Some (n, buf', []) \<and>
    Sscanf buf' [37, c, 0] [p] = Some (1, [(p, Val32 w)])"
proof -
  let ?t = "spec_number c w" and ?r = "drop (Suc (length (spec_number c w))) buf"
  have s: "length ?t \<le> 11" "Sscanf (?t @ 0 # ?r) [37, c, 0] [p] = Some (1, [(p, Val32 w)])"
    using assms(1) scan_spec_signed [of w ?r p] scan_spec_unsigned [of c w ?r p] by auto
  have "Sprintf addr buf strs [37, c, 0] [w] = Some (length ?t, ?t @ 0 # ?r, [])"
    by (rule Sprintf_number) (use s(1) assms in auto)
  moreover have "Snprintf addr buf sz strs [37, c, 0] [w] = Some (length ?t, ?t @ 0 # ?r, [])"
    by (rule Snprintf_single [OF Vprintf_number [OF assms(1)]]) (use s(1) assms in auto)
  ultimately show ?thesis using s(2) by blast
qed

theorem print_scan_roundtrip_witness:
  "\<exists>n buf'. Sprintf 0x20000000 (replicate 12 7) (\<lambda>_. None) [37, 100, 0] [- 42] = Some (n, buf', []) \<and>
    Snprintf 0x20000000 (replicate 12 7) 12 (\<lambda>_. None) [37, 100, 0] [- 42] = Some (n, buf', []) \<and>
    Sscanf buf' [37, 100, 0] [64] = Some (1, [(64, Val32 (- 42))])"
  by (rule print_scan_roundtrip) simp_all

end
