(* ===== verification/StrLib.thy ===== *)
theory StrLib imports ConvLib "HOL-Library.Sublist"
begin

text \<open>
  \<open>common_lib/usdl_string.c\<close>. A string that is only read is the list of bytes from its pointer on; a string that is
  written is its whole array, with indices for the pointers into it. Running off an array is \<open>None\<close>; a pointer
  into the argument that a function answers is its distance from the argument, and the null pointer is
  \<open>None\<close> inside \<open>Some\<close>. \<open>StrLen\<close> is in \<open>ConvLib\<close>.
\<close>

subsection \<open>Copying\<close>

fun StrCpy_loop :: "u8 list \<Rightarrow> nat \<Rightarrow> u8 list \<Rightarrow> u8 list option" where
  "StrCpy_loop dst d [] = None"
| "StrCpy_loop dst d (c # src) = do {
     dst \<leftarrow> wr dst d c;
     if c \<noteq> 0 then StrCpy_loop dst (d + 1) src else Some dst }"

definition StrCpy :: "u8 list \<Rightarrow> u8 list \<Rightarrow> u8 list option" where
  "StrCpy dst src = StrCpy_loop dst 0 src"

fun StrNCpy_pad :: "u8 list \<Rightarrow> nat \<Rightarrow> nat \<Rightarrow> u8 list option" where
  "StrNCpy_pad dst d 0 = Some dst"
| "StrNCpy_pad dst d (Suc n) = (if n > 0 then do { dst \<leftarrow> wr dst d 0; StrNCpy_pad dst (d + 1) n } else Some dst)"

fun StrNCpy_loop :: "u8 list \<Rightarrow> nat \<Rightarrow> u8 list \<Rightarrow> nat \<Rightarrow> u8 list option" where
  "StrNCpy_loop dst d [] n = None"
| "StrNCpy_loop dst d (c # src) n = do {
     dst \<leftarrow> wr dst d c;
     if c \<noteq> 0 then if n - 1 = 0 then Some dst else StrNCpy_loop dst (d + 1) src (n - 1)
     else StrNCpy_pad dst (d + 1) n }"

definition StrNCpy :: "u8 list \<Rightarrow> u8 list \<Rightarrow> nat \<Rightarrow> u8 list option" where
  "StrNCpy dst src n = (if n \<noteq> 0 then StrNCpy_loop dst 0 src n else Some dst)"

definition StrCat :: "u8 list \<Rightarrow> u8 list \<Rightarrow> u8 list option" where
  "StrCat dst str = do { d \<leftarrow> StrLen dst; StrCpy_loop dst d str }"

fun StrNCat_loop :: "u8 list \<Rightarrow> nat \<Rightarrow> u8 list \<Rightarrow> nat \<Rightarrow> u8 list option" where
  "StrNCat_loop dst d [] n = None"
| "StrNCat_loop dst d (c # src) n = do {
     dst \<leftarrow> wr dst d c;
     if c = 0 then Some dst
     else if n - 1 > 0 then StrNCat_loop dst (d + 1) src (n - 1)
     else wr dst (d + 1) 0 }"

definition StrNCat :: "u8 list \<Rightarrow> u8 list \<Rightarrow> nat \<Rightarrow> u8 list option" where
  "StrNCat dst src n = (if n \<noteq> 0 then do { d \<leftarrow> StrLen dst; StrNCat_loop dst d src n } else Some dst)"

subsection \<open>Lengths and comparisons\<close>

fun StrNLen_loop :: "u8 list \<Rightarrow> nat \<Rightarrow> nat \<Rightarrow> nat option" where
  "StrNLen_loop [] re_len max_len = None"
| "StrNLen_loop (c # str) re_len max_len =
     (if c \<noteq> 0 then if max_len \<le> re_len + 1 then Some max_len else StrNLen_loop str (re_len + 1) max_len else Some re_len)"

definition StrNLen :: "u8 list \<Rightarrow> nat \<Rightarrow> nat option" where
  "StrNLen str max_len = StrNLen_loop str 0 max_len"

text \<open>The difference of the bytes, as an \<open>s8\<close> here.\<close>

fun StrCmp :: "u8 list \<Rightarrow> u8 list \<Rightarrow> int option" where
  "StrCmp (a # str1) (b # str2) =
     (if a = b then if a = 0 then Some 0 else StrCmp str1 str2 else Some (sint (a - b)))"
| "StrCmp _ _ = None"

definition lower_case :: "u8 \<Rightarrow> u8" where
  "lower_case ch = (if 65 \<le> ch \<and> ch \<le> 90 then ch + 0x20 else ch)"

fun StrICmp :: "u8 list \<Rightarrow> u8 list \<Rightarrow> int option" where
  "StrICmp (a # str1) (b # str2) =
     (let ch1 = lower_case a; ch2 = lower_case b
      in if ch1 \<noteq> 0 \<and> ch1 = ch2 then StrICmp str1 str2 else Some (sint (ch1 - ch2)))"
| "StrICmp _ _ = None"

fun StrNCmp_loop :: "u8 list \<Rightarrow> u8 list \<Rightarrow> nat \<Rightarrow> u32 option" where
  "StrNCmp_loop (a # str1) (b # str2) n =
     (if a = b then if a = 0 \<or> n - 1 = 0 then Some 0 else StrNCmp_loop str1 str2 (n - 1) else Some (ucast a - ucast b))"
| "StrNCmp_loop _ _ _ = None"

definition StrNCmp :: "u8 list \<Rightarrow> u8 list \<Rightarrow> nat \<Rightarrow> u32 option" where
  "StrNCmp str1 str2 n = (if n = 0 then Some 0 else StrNCmp_loop str1 str2 n)"

fun StrNICmp :: "u8 list \<Rightarrow> u8 list \<Rightarrow> nat \<Rightarrow> int option" where
  "StrNICmp (a # str1) (b # str2) count =
     (let ch1 = lower_case a; ch2 = lower_case b; count = u32_sub count 1
      in if count \<noteq> 0 \<and> ch1 \<noteq> 0 \<and> ch1 = ch2 then StrNICmp str1 str2 count else Some (sint (ch1 - ch2)))"
| "StrNICmp _ _ _ = None"

subsection \<open>Searching\<close>

fun StrChr :: "u8 list \<Rightarrow> u8 \<Rightarrow> nat option option" where
  "StrChr [] ch = None"
| "StrChr (c # r) ch =
     (if c = ch then Some (Some 0) else if c = 0 then Some None else map_option (map_option Suc) (StrChr r ch))"

fun StrRChr_loop :: "u8 list \<Rightarrow> u8 \<Rightarrow> nat \<Rightarrow> nat option \<Rightarrow> nat option option" where
  "StrRChr_loop [] ch i save = None"
| "StrRChr_loop (c # str) ch i save =
     (let save = (if c = ch then Some i else save)
      in if c \<noteq> 0 then StrRChr_loop str ch (i + 1) save else Some save)"

definition StrRChr :: "u8 list \<Rightarrow> u8 \<Rightarrow> nat option option" where
  "StrRChr str ch = StrRChr_loop str ch 0 None"

text \<open>The inner loops of the next two functions; \<open>c1\<close> is not zero.\<close>

fun in_set :: "u8 list \<Rightarrow> u8 \<Rightarrow> bool option" where
  "in_set [] c1 = None"
| "in_set (c2 # p) c1 = (if c2 = c1 then Some True else if c2 = 0 then Some False else in_set p c1)"

fun StrCSpn :: "u8 list \<Rightarrow> u8 list \<Rightarrow> nat option" where
  "StrCSpn [] ch_set = None"
| "StrCSpn (c1 # str) ch_set =
     (if c1 = 0 then Some 0
      else do { found \<leftarrow> in_set ch_set c1; if found then Some 0 else map_option Suc (StrCSpn str ch_set) })"

fun StrSpn :: "u8 list \<Rightarrow> u8 list \<Rightarrow> nat option" where
  "StrSpn [] ch_set = None"
| "StrSpn (c1 # str) ch_set =
     (if c1 = 0 then Some 0
      else do { found \<leftarrow> in_set ch_set c1; if found then map_option Suc (StrSpn str ch_set) else Some 0 })"

text \<open>Whether the rest \<open>t2\<close> of the string sought is found at \<open>t1\<close>.\<close>

fun StrStr_match :: "u8 list \<Rightarrow> u8 list \<Rightarrow> bool option" where
  "StrStr_match t1 [] = None"
| "StrStr_match t1 (c2 # t2) =
     (if c2 = 0 then Some True
      else case t1 of [] \<Rightarrow> None | c1 # t1 \<Rightarrow> if c1 = c2 then StrStr_match t1 t2 else Some False)"

fun StrStr_loop :: "u8 list \<Rightarrow> u8 \<Rightarrow> u8 list \<Rightarrow> nat \<Rightarrow> nat option option" where
  "StrStr_loop [] c sub_str i = None"
| "StrStr_loop (c2 # str) c sub_str i =
     (if c2 \<noteq> 0 \<and> c2 \<noteq> c then StrStr_loop str c sub_str (i + 1)
      else if c2 = 0 then Some None
      else do {
        found \<leftarrow> StrStr_match str sub_str;
        if found then Some (Some i) else StrStr_loop str c sub_str (i + 1) })"

definition StrStr :: "u8 list \<Rightarrow> u8 list \<Rightarrow> nat option option" where
  "StrStr str sub_str =
     (case sub_str of [] \<Rightarrow> None | c # sub_str \<Rightarrow> if c = 0 then Some (Some 0) else StrStr_loop str c sub_str 0)"

subsection \<open>Changing a string\<close>

function Strip_skip :: "u8 list \<Rightarrow> u8 \<Rightarrow> nat \<Rightarrow> nat option" where
  "Strip_skip str ch p2 = do { c \<leftarrow> rd str p2; if c \<noteq> 0 \<and> c = ch then Strip_skip str ch (p2 + 1) else Some p2 }"
  by pat_completeness auto
termination by (relation "measure (\<lambda>(str, ch, p2). length str - p2)") (auto simp: rd_eq_Some_iff)

declare Strip_skip.simps [simp del]

function Strip_loop :: "u8 list \<Rightarrow> u8 \<Rightarrow> nat \<Rightarrow> u8 list option" where
  "Strip_loop str ch p1 = do {
     c \<leftarrow> rd str p1;
     if c = 0 then Some str
     else do {
       d \<leftarrow> rd str (p1 + 1);
       if d = ch then do {
         p2 \<leftarrow> Strip_skip str ch (p1 + 1);
         e \<leftarrow> rd str p2;
         if e \<noteq> 0 then do { str \<leftarrow> wr str (p1 + 1) e; str \<leftarrow> wr str p2 ch; Strip_loop str ch (p1 + 1) }
         else wr str (p1 + 1) 0 }
       else Strip_loop str ch (p1 + 1) } }"
  by pat_completeness auto
termination
  by (relation "measure (\<lambda>(str, ch, p1). length str - p1)") (auto simp: rd_eq_Some_iff wr_eq_Some_iff)

declare Strip_loop.simps [simp del]

definition Strip :: "u8 list \<Rightarrow> u8 \<Rightarrow> u8 list option" where
  "Strip str ch = Strip_loop str ch 0"

text \<open>A node is the index of its piece (\<open>None\<close>: the null pointer) and its length.\<close>

type_synonym DataNode = "nat option \<times> nat"

function StrSplit_loop :: "u8 list \<Rightarrow> u8 \<Rightarrow> u8 \<Rightarrow> DataNode list \<Rightarrow> nat \<Rightarrow> nat \<Rightarrow> nat \<Rightarrow> nat \<Rightarrow> nat \<Rightarrow>
    (nat \<times> u8 list \<times> DataNode list) option" where
  "StrSplit_loop str split replace result node_num p str_start str_len index = do {
     c \<leftarrow> rd str p;
     if c = 0 then
       if str_len \<noteq> 0 then do { result \<leftarrow> wr result index (Some str_start, str_len); Some (index + 1, str, result) }
       else Some (index, str, result)
     else if c = split then do {
       result \<leftarrow> wr result index (if str_len \<noteq> 0 then (Some str_start, str_len) else (None, 0));
       if node_num \<le> index + 1 then Some (index + 1, str, result)
       else do {
         str \<leftarrow> wr str p replace;
         StrSplit_loop str split replace result node_num (p + 1) (p + 1) 0 (index + 1) } }
     else StrSplit_loop str split replace result node_num (p + 1) str_start (str_len + 1) index }"
  by pat_completeness auto
termination
  by (relation "measure (\<lambda>(str, split, replace, result, node_num, p, r). length str - p)")
     (auto simp: rd_eq_Some_iff wr_eq_Some_iff)

declare StrSplit_loop.simps [simp del]

definition StrSplit :: "u8 list option \<Rightarrow> u8 \<Rightarrow> u8 \<Rightarrow> DataNode list \<Rightarrow> nat \<Rightarrow> (nat \<times> u8 list \<times> DataNode list) option" where
  "StrSplit str split replace result node_num =
     (case str of None \<Rightarrow> Some (0, [], result) | Some str \<Rightarrow> StrSplit_loop str split replace result node_num 0 0 0 0)"


subsection \<open>Searching finds the first occurrence\<close>

lemma StrStr_match_prefix:
  "0 \<notin> set s \<Longrightarrow> 0 \<notin> set t \<Longrightarrow> StrStr_match (s @ 0 # r) (t @ 0 # r') = Some (prefix t s)"
proof (induction t arbitrary: s)
  case (Cons c t)
  then show ?case by (cases s) auto
qed simp

lemma StrStr_loop_first:
  assumes "0 \<notin> set s" "0 \<notin> set (c # t)"
  shows "\<exists>res. StrStr_loop (s @ 0 # r) c (t @ 0 # r') i = Some res \<and>
    (case res of Some k \<Rightarrow> i \<le> k \<and> k \<le> i + length s \<and> prefix (c # t) (drop (k - i) s) \<and> (\<forall>j < k - i. \<not> prefix (c # t) (drop j s))
     | None \<Rightarrow> \<forall>j. \<not> prefix (c # t) (drop j s))"
  using assms(1)
proof (induction s arbitrary: i)
  case Nil
  then show ?case by simp
next
  case (Cons a s)
  have nz: "a \<noteq> 0" using Cons.prems by auto
  obtain res where res: "StrStr_loop (s @ 0 # r) c (t @ 0 # r') (i + 1) = Some res"
    "case res of Some k \<Rightarrow> i + 1 \<le> k \<and> k \<le> i + 1 + length s \<and> prefix (c # t) (drop (k - (i + 1)) s) \<and>
        (\<forall>j < k - (i + 1). \<not> prefix (c # t) (drop j s))
     | None \<Rightarrow> \<forall>j. \<not> prefix (c # t) (drop j s)"
    using Cons.IH [of "i + 1"] Cons.prems by auto
  have step: "\<exists>res. StrStr_loop (s @ 0 # r) c (t @ 0 # r') (i + 1) = Some res \<and>
    (case res of Some k \<Rightarrow> i \<le> k \<and> k \<le> i + length (a # s) \<and> prefix (c # t) (drop (k - i) (a # s)) \<and> (\<forall>j < k - i. \<not> prefix (c # t) (drop j (a # s)))
     | None \<Rightarrow> \<forall>j. \<not> prefix (c # t) (drop j (a # s)))" if "\<not> prefix (c # t) (a # s)"
  proof (cases res)
    case None
    have "\<not> prefix (c # t) (drop j (a # s))" for j using res(2) that None by (cases j) auto
    then show ?thesis using res(1) None by auto
  next
    case (Some k)
    then have k: "i + 1 \<le> k" "k \<le> i + 1 + length s" "prefix (c # t) (drop (k - (i + 1)) s)"
      "\<forall>j < k - (i + 1). \<not> prefix (c # t) (drop j s)" using res(2) by auto
    have "k - i = Suc (k - (i + 1))" using k(1) by simp
    moreover have "\<not> prefix (c # t) (drop j (a # s))" if "j < k - i" for j
      using that k \<open>\<not> prefix (c # t) (a # s)\<close> by (cases j) auto
    ultimately show ?thesis using res(1) Some k by auto
  qed
  show ?case
  proof (cases "a = c")
    case True
    have m: "StrStr_match (s @ 0 # r) (t @ 0 # r') = Some (prefix t s)"
      using Cons.prems assms(2) by (intro StrStr_match_prefix) auto
    show ?thesis
    proof (cases "prefix t s")
      case True
      then show ?thesis using m \<open>a = c\<close> nz by simp
    next
      case False
      then show ?thesis using m \<open>a = c\<close> nz step by simp
    qed
  next
    case False
    then show ?thesis using nz step by simp
  qed
qed

definition first_place :: "'a list \<Rightarrow> 'a list \<Rightarrow> nat option \<Rightarrow> bool" where
  "first_place t s res \<longleftrightarrow>
     (case res of Some k \<Rightarrow> k \<le> length s \<and> prefix t (drop k s) \<and> (\<forall>j < k. \<not> prefix t (drop j s))
      | None \<Rightarrow> \<forall>j. \<not> prefix t (drop j s))"

lemma StrStr_first:
  assumes "0 \<notin> set s" "0 \<notin> set t"
  shows "\<exists>res. StrStr (s @ 0 # r) (t @ 0 # r') = Some res \<and> first_place t s res"
proof (cases t)
  case (Cons c u)
  obtain res where res: "StrStr_loop (s @ 0 # r) c (u @ 0 # r') 0 = Some res"
    "case res of Some k \<Rightarrow> 0 \<le> k \<and> k \<le> 0 + length s \<and> prefix (c # u) (drop (k - 0) s) \<and> (\<forall>j < k - 0. \<not> prefix (c # u) (drop j s))
     | None \<Rightarrow> \<forall>j. \<not> prefix (c # u) (drop j s)"
    using StrStr_loop_first [OF assms(1), of c u r r' 0] assms(2) Cons by auto
  have "first_place t s res" using res(2) Cons by (cases res) (auto simp: first_place_def)
  then show ?thesis using res(1) assms(2) Cons by (simp add: StrStr_def)
qed (simp add: StrStr_def first_place_def)

subsection \<open>Strip removes a character, but for the first\<close>

lemma Strip_skip_end:
  "ch \<noteq> 0 \<Longrightarrow> v \<noteq> [] \<Longrightarrow> hd v \<noteq> ch \<Longrightarrow> Strip_skip (pre @ replicate k ch @ v) ch (length pre) = Some (length pre + k)"
proof (induction k arbitrary: pre)
  case 0
  then show ?case by (cases v) (auto simp: Strip_skip.simps rd_def)
next
  case (Suc k)
  have "Strip_skip ((pre @ [ch]) @ replicate k ch @ v) ch (length (pre @ [ch])) = Some (length (pre @ [ch]) + k)"
    by (rule Suc.IH) (use Suc.prems in auto)
  then show ?case using Suc.prems by (subst Strip_skip.simps) (simp add: rd_def)
qed

lemma Strip_loop_filters:
  assumes "ch \<noteq> 0" "x \<noteq> 0" "0 \<notin> set u"
  shows "\<exists>rest. Strip_loop (pre @ x # replicate k ch @ u @ 0 # r) ch (length pre) =
    Some (pre @ x # filter (\<lambda>c. c \<noteq> ch) u @ 0 # rest)"
  using assms(2,3)
proof (induction "length u" arbitrary: pre x k u rule: less_induct)
  case less
  obtain m v where u: "u = replicate m ch @ v" and v: "v = [] \<or> hd v \<noteq> ch"
  proof (rule that)
    show "u = replicate (length (takeWhile (\<lambda>c. c = ch) u)) ch @ dropWhile (\<lambda>c. c = ch) u"
      by (metis (mono_tags) replicate_length_same set_takeWhileD takeWhile_dropWhile_id)
    show "dropWhile (\<lambda>c. c = ch) u = [] \<or> hd (dropWhile (\<lambda>c. c = ch) u) \<noteq> ch"
      using hd_dropWhile [of "\<lambda>c. c = ch" u] by auto
  qed
  let ?s = "pre @ x # replicate k ch @ u @ 0 # r"
  have s: "?s = (pre @ [x]) @ replicate (k + m) ch @ v @ 0 # r" by (simp add: u replicate_add)
  have x: "rd ?s (length pre) = Some x" by (simp add: rd_def)
  have fu: "filter (\<lambda>c. c \<noteq> ch) u = filter (\<lambda>c. c \<noteq> ch) v" by (simp add: u)
  have h: "v @ 0 # r \<noteq> []" "hd (v @ 0 # r) \<noteq> ch" using v assms(1) by (cases v, auto)+
  show ?case
  proof (cases "k + m")
    case 0
    then have s0: "?s = pre @ x # v @ 0 # r" and uv: "u = v" using s u by auto
    show ?thesis
    proof (cases v)
      case Nil
      have "rd ?s (length pre + 1) = Some 0" unfolding s0 by (simp add: Nil rd_def nth_append)
      then have "Strip_loop ?s ch (length pre) = Strip_loop ?s ch (length pre + 1)"
        using x less.prems assms(1) by (subst Strip_loop.simps) simp
      also have "\<dots> = Some ?s" using \<open>rd ?s (length pre + 1) = Some 0\<close> by (subst Strip_loop.simps) simp
      finally show ?thesis using s0 Nil uv by simp
    next
      case (Cons e v')
      have "rd ?s (length pre + 1) = Some e" unfolding s0 by (simp add: Cons rd_def nth_append)
      then have "Strip_loop ?s ch (length pre) = Strip_loop ?s ch (length pre + 1)"
        using x less.prems v Cons by (subst Strip_loop.simps) simp
      moreover have "?s = (pre @ [x]) @ e # replicate 0 ch @ v' @ 0 # r" using s0 Cons by simp
      moreover have "\<exists>rest. Strip_loop ((pre @ [x]) @ e # replicate 0 ch @ v' @ 0 # r) ch (length (pre @ [x])) =
          Some ((pre @ [x]) @ e # filter (\<lambda>c. c \<noteq> ch) v' @ 0 # rest)"
        using less.prems uv Cons by (intro less.hyps) auto
      ultimately show ?thesis using uv Cons v by simp
    qed
  next
    case (Suc n)
    have d: "rd ?s (length pre + 1) = Some ch" unfolding s Suc by (simp add: rd_def nth_append)
    have p2: "Strip_skip ?s ch (length pre + 1) = Some (length pre + 1 + (k + m))"
      using Strip_skip_end [OF assms(1) h, of "pre @ [x]" "k + m"] unfolding s by simp
    show ?thesis
    proof (cases v)
      case Nil
      have e: "rd ?s (length pre + 1 + (k + m)) = Some 0" unfolding s by (simp add: Nil rd_def nth_append)
      have w: "wr ?s (length pre + 1) 0 = Some (pre @ x # 0 # replicate n ch @ 0 # r)"
        unfolding s Suc by (simp add: Nil wr_def list_update_append)
      show ?thesis using x d p2 e w less.prems unfolding fu by (subst Strip_loop.simps) (simp add: Nil)
    next
      case (Cons e v')
      have ne: "e \<noteq> 0" using less.prems(2) u Cons by auto
      have e: "rd ?s (length pre + 1 + (k + m)) = Some e" unfolding s by (simp add: Cons rd_def nth_append)
      have w1: "wr ?s (length pre + 1) e = Some ((pre @ [x]) @ e # replicate n ch @ e # v' @ 0 # r)"
        unfolding s Suc by (simp add: Cons wr_def list_update_append)
      have w2: "wr ((pre @ [x]) @ e # replicate n ch @ e # v' @ 0 # r) (length pre + 1 + (k + m)) ch =
          Some ((pre @ [x]) @ e # replicate (Suc n) ch @ v' @ 0 # r)"
        unfolding Suc by (simp add: wr_def list_update_append replicate_app_Cons_same)
      have "Strip_loop ?s ch (length pre) = Strip_loop ((pre @ [x]) @ e # replicate (Suc n) ch @ v' @ 0 # r) ch (length (pre @ [x]))"
        using x d p2 e ne w1 w2 less.prems by (subst Strip_loop.simps) simp
      moreover have "\<exists>rest. Strip_loop ((pre @ [x]) @ e # replicate (Suc n) ch @ v' @ 0 # r) ch (length (pre @ [x])) =
          Some ((pre @ [x]) @ e # filter (\<lambda>c. c \<noteq> ch) v' @ 0 # rest)"
        using less.prems ne u Cons by (intro less.hyps) auto
      ultimately show ?thesis using Cons v unfolding fu by auto
    qed
  qed
qed

subsection \<open>Comparing\<close>

lemma StrCmp_common: "0 \<notin> set u \<Longrightarrow> StrCmp (u @ x) (u @ y) = StrCmp x y"
  by (induction u) auto

lemma StrCmp_equal: "0 \<notin> set s \<Longrightarrow> 0 \<notin> set t \<Longrightarrow> StrCmp (s @ 0 # r) (t @ 0 # r') = Some 0 \<longleftrightarrow> s = t"
proof (induction s arbitrary: t)
  case Nil
  then show ?case by (cases t) (auto simp: signed_eq_0_iff)
next
  case (Cons a s)
  then show ?case by (cases t) (auto simp: signed_eq_0_iff)
qed

lemma byte_difference_sign:
  fixes a b :: u8
  shows "(sint (a - b) < 0 \<longleftrightarrow> a < b) \<longleftrightarrow> unat a < unat b + 128 \<and> unat b \<le> unat a + 128"
proof -
  have a: "uint a < 256" "0 \<le> uint a" "uint b < 256" "0 \<le> uint b" using uint_lt2p [of a] uint_lt2p [of b] by simp_all
  have d: "uint (a - b) = (uint a - uint b) mod 256" by (simp add: uint_word_ariths)
  have "sint (a - b) = take_bit 8 (uint (a - b) + 128) - 128"
    by (simp add: sint_uint signed_take_bit_eq_take_bit_shift)
  also have "\<dots> = (uint a - uint b + 128) mod 256 - 128" by (simp add: d take_bit_eq_mod mod_add_left_eq)
  finally have "sint (a - b) < 0 \<longleftrightarrow> (uint a - uint b + 128) mod 256 < 128" by auto
  moreover have "a < b \<longleftrightarrow> uint a < uint b" by (rule word_less_def)
  moreover have "unat a < unat b + 128 \<longleftrightarrow> uint a < uint b + 128" "unat b \<le> unat a + 128 \<longleftrightarrow> uint b \<le> uint a + 128"
    using uint_nat [of a] uint_nat [of b] by linarith+
  moreover have "((uint a - uint b + 128) mod 256 < 128 \<longleftrightarrow> uint a < uint b) \<longleftrightarrow> uint a < uint b + 128 \<and> uint b \<le> uint a + 128"
  proof -
    consider "uint a - uint b + 128 < 0" | "0 \<le> uint a - uint b + 128" "uint a - uint b + 128 < 256" | "256 \<le> uint a - uint b + 128"
      by linarith
    then show ?thesis
    proof cases
      case 1
      have "(uint a - uint b + 128 + 256) mod 256 = uint a - uint b + 128 + 256"
        by (intro mod_pos_pos_trivial; use a 1 in linarith)
      then have "(uint a - uint b + 128) mod 256 = uint a - uint b + 384" by (simp only: mod_add_self2)
      then show ?thesis using 1 a by linarith
    next
      case 2
      then have "(uint a - uint b + 128) mod 256 = uint a - uint b + 128" by (intro mod_pos_pos_trivial) auto
      then show ?thesis using 2 by linarith
    next
      case 3
      have "(uint a - uint b - 128) mod 256 = uint a - uint b - 128"
        by (intro mod_pos_pos_trivial; use a 3 in linarith)
      then have "(uint a - uint b + 128) mod 256 = uint a - uint b - 128"
        using mod_add_self2 [of "uint a - uint b - 128" 256] by (simp add: algebra_simps)
      then show ?thesis using 3 a by linarith
    qed
  qed
  ultimately show ?thesis by (simp only:)
qed

subsection \<open>Splitting\<close>

text \<open>The fields of a string between its separators.\<close>

fun fields :: "'a \<Rightarrow> 'a list \<Rightarrow> 'a list list" where
  "fields c [] = [[]]"
| "fields c (x # xs) = (if x = c then [] # fields c xs else (x # hd (fields c xs)) # tl (fields c xs))"

lemma fields_not_Nil [simp]: "fields c xs \<noteq> []"
  by (induction xs) auto

text \<open>The nodes of fields from a place on, and the fields that \<open>StrSplit\<close> counts: a last field that is empty is left out.\<close>

fun nodes :: "nat \<Rightarrow> 'a list list \<Rightarrow> DataNode list" where
  "nodes start [] = []"
| "nodes start (f # fs) = (if f = [] then (None, 0) else (Some start, length f)) # nodes (start + length f + 1) fs"

definition counted :: "'a list list \<Rightarrow> 'a list list" where
  "counted fs = (if last fs = [] then butlast fs else fs)"

lemma length_nodes [simp]: "length (nodes start fs) = length fs"
  by (induction fs arbitrary: start) auto

lemma counted_Cons: "fs \<noteq> [] \<Longrightarrow> counted (f # fs) = f # counted fs"
  by (simp add: counted_def)

lemma length_counted: "length (counted fs) \<le> length fs" 
  by (simp add: counted_def)

lemma StrSplit_loop_fields:
  assumes "split \<noteq> 0"
  shows "0 \<notin> set u \<Longrightarrow> 0 \<notin> set cur \<Longrightarrow> i + length (fields split u) \<le> node_num \<Longrightarrow> node_num \<le> length result \<Longrightarrow>
    (let fs = counted ((cur @ hd (fields split u)) # tl (fields split u))
     in StrSplit_loop (pre @ cur @ u @ 0 # r) split replace result node_num (length pre + length cur) (length pre) (length cur) i =
       Some (i + length fs, pre @ cur @ map (\<lambda>c. if c = split then replace else c) u @ 0 # r,
         take i result @ nodes (length pre) fs @ drop (i + length fs) result))"
proof (induction u arbitrary: pre cur i result)
  case Nil
  have c: "rd (pre @ cur @ 0 # r) (length pre + length cur) = Some 0" by (simp add: rd_def nth_append)
  have l: "i < length result" using Nil.prems by simp
  show ?case
  proof (cases "cur = []")
    case True
    then show ?thesis using c by (subst StrSplit_loop.simps) (simp add: counted_def)
  next
    case False
    then show ?thesis using c l
      by (subst StrSplit_loop.simps) (simp add: counted_def wr_in upd_conv_take_nth_drop)
  qed
next
  case (Cons a u)
  let ?s = "pre @ cur @ (a # u) @ 0 # r" and ?p = "length pre + length cur"
  have c: "rd ?s ?p = Some a" by (simp add: rd_def nth_append)
  have a: "a \<noteq> 0" using Cons.prems(1) by auto
  show ?case
  proof (cases "a = split")
    case True
    have f: "fields split (a # u) = [] # fields split u" using True by simp
    have l: "i + 1 < node_num" "i < length result" using Cons.prems(3,4) unfolding f by (cases "fields split u", auto)+
    let ?n = "if cur = [] then (None, 0) else (Some (length pre), length cur)"
    have w1: "wr result i (if length cur \<noteq> 0 then (Some (length pre), length cur) else (None, 0)) = Some (result[i := ?n])"
      using l(2) by (simp add: wr_in)
    have w2: "wr ?s ?p replace = Some ((pre @ cur @ [replace]) @ [] @ u @ 0 # r)" by (simp add: wr_def list_update_append)
    let ?fs = "counted (fields split u)"
    have "(let fs = counted (([] @ hd (fields split u)) # tl (fields split u))
       in StrSplit_loop ((pre @ cur @ [replace]) @ [] @ u @ 0 # r) split replace (result[i := ?n]) node_num
           (length (pre @ cur @ [replace]) + length ([] :: u8 list)) (length (pre @ cur @ [replace])) (length ([] :: u8 list)) (i + 1) =
         Some (i + 1 + length fs, (pre @ cur @ [replace]) @ [] @ map (\<lambda>c. if c = split then replace else c) u @ 0 # r,
           take (i + 1) (result[i := ?n]) @ nodes (length (pre @ cur @ [replace])) fs @ drop (i + 1 + length fs) (result[i := ?n])))"
      using Cons.prems f by (intro Cons.IH) auto
    then have IH: "StrSplit_loop ((pre @ cur @ [replace]) @ [] @ u @ 0 # r) split replace (result[i := ?n]) node_num
           (?p + 1) (?p + 1) 0 (i + 1) =
         Some (i + 1 + length ?fs, pre @ cur @ replace # map (\<lambda>c. if c = split then replace else c) u @ 0 # r,
           take i result @ ?n # nodes (?p + 1) ?fs @ drop (i + 1 + length ?fs) result)"
      using l(2) by (simp add: Let_def take_Suc_conv_app_nth)
    have "StrSplit_loop ?s split replace result node_num ?p (length pre) (length cur) i =
        StrSplit_loop ((pre @ cur @ [replace]) @ [] @ u @ 0 # r) split replace (result[i := ?n]) node_num (?p + 1) (?p + 1) 0 (i + 1)"
      using c a True assms w1 w2 l(1) by (subst StrSplit_loop.simps) simp
    then show ?thesis unfolding IH using True by (simp add: counted_Cons)
  next
    case False
    have "(let fs = counted (((cur @ [a]) @ hd (fields split u)) # tl (fields split u))
       in StrSplit_loop (pre @ (cur @ [a]) @ u @ 0 # r) split replace result node_num (length pre + length (cur @ [a])) (length pre) (length (cur @ [a])) i =
         Some (i + length fs, pre @ (cur @ [a]) @ map (\<lambda>c. if c = split then replace else c) u @ 0 # r,
           take i result @ nodes (length pre) fs @ drop (i + length fs) result))"
      using Cons.prems False by (intro Cons.IH) auto
    moreover have "StrSplit_loop ?s split replace result node_num ?p (length pre) (length cur) i =
        StrSplit_loop (pre @ (cur @ [a]) @ u @ 0 # r) split replace result node_num (length pre + length (cur @ [a])) (length pre) (length (cur @ [a])) i"
      using c a False by (subst StrSplit_loop.simps) simp
    ultimately show ?thesis using False by simp
  qed
qed

lemma in_set_member: "c \<noteq> 0 \<Longrightarrow> 0 \<notin> set cs \<Longrightarrow> in_set (cs @ 0 # r) c = Some (c \<in> set cs)"
  by (induction cs) auto

text \<open>Fact. \<open>StrSpn\<close> and \<open>StrCSpn\<close> answer the length of the longest start of a string with, and without, characters of a set.\<close>

theorem spans_are_longest:
  assumes "0 \<notin> set s" "0 \<notin> set cs"
  shows "StrSpn (s @ 0 # r) (cs @ 0 # r') = Some (length (takeWhile (\<lambda>c. c \<in> set cs) s)) \<and>
    StrCSpn (s @ 0 # r) (cs @ 0 # r') = Some (length (takeWhile (\<lambda>c. c \<notin> set cs) s))"
proof -
  have m: "in_set (cs @ 0 # r') c = Some (c \<in> set cs)" if "c \<in> set s" for c
    using that assms by (intro in_set_member) auto
  show ?thesis using assms(1) m by (induction s) auto
qed

lemma StrNCpy_pad_zeros:
  "d + n \<le> Suc (length dst) \<Longrightarrow> StrNCpy_pad dst d n = Some (take d dst @ replicate (n - 1) 0 @ drop (d + (n - 1)) dst)"
proof (induction n arbitrary: dst d)
  case (Suc n)
  show ?case
  proof (cases n)
    case (Suc m)
    have "StrNCpy_pad (dst[d := 0]) (d + 1) n =
        Some (take (d + 1) (dst[d := 0]) @ replicate (n - 1) 0 @ drop (d + 1 + (n - 1)) (dst[d := 0]))"
      using Suc.prems by (intro Suc.IH) auto
    then show ?thesis using Suc Suc.prems by (simp add: wr_in take_Suc_conv_app_nth)
  qed simp
qed simp

lemma StrNCpy_loop_copies:
  "0 \<notin> set s \<Longrightarrow> 0 < n \<Longrightarrow> d + n \<le> length dst \<Longrightarrow>
   StrNCpy_loop dst d (s @ 0 # r) n = Some (take d dst @ take n (s @ replicate n 0) @ drop (d + n) dst)"
proof (induction s arbitrary: dst d n)
  case Nil
  then obtain m where m: "n = Suc m" by (cases n) auto
  have "StrNCpy_pad (dst[d := 0]) (d + 1) n = Some (take (d + 1) (dst[d := 0]) @ replicate m 0 @ drop (d + 1 + m) (dst[d := 0]))"
    using StrNCpy_pad_zeros [of "d + 1" n "dst[d := 0]"] Nil.prems m by simp
  then show ?case using Nil.prems m by (simp add: wr_in take_Suc_conv_app_nth)
next
  case (Cons c s)
  then obtain m where m: "n = Suc m" by (cases n) auto
  show ?case
  proof (cases m)
    case 0
    then show ?thesis using Cons.prems m by (simp add: wr_in upd_conv_take_nth_drop)
  next
    case (Suc k)
    have "StrNCpy_loop (dst[d := c]) (d + 1) (s @ 0 # r) m =
        Some (take (d + 1) (dst[d := c]) @ take m (s @ replicate m 0) @ drop (d + 1 + m) (dst[d := c]))"
      using Cons.prems m Suc by (intro Cons.IH) auto
    moreover have "take m (s @ replicate m 0) = take m (s @ replicate (Suc m) (0 :: u8))"
      by (simp only: take_append take_replicate) (simp add: min_def)
    ultimately show ?thesis using Cons.prems m Suc by (simp add: wr_in take_Suc_conv_app_nth)
  qed
qed

text \<open>Fact. \<open>StrNCpy\<close> writes exactly \<open>n\<close> bytes, the string cut or filled with zeros; it leaves no final zero when the string has \<open>n\<close>
  characters or more.\<close>

theorem strncpy_fills:
  assumes "0 \<notin> set s" "n \<le> length dst"
  shows "StrNCpy dst (s @ 0 # r) n = Some (take n (s @ replicate n 0) @ drop n dst)"
  using StrNCpy_loop_copies [OF assms(1), of n 0 dst r] assms(2) by (simp add: StrNCpy_def)

subsection \<open>Copying\<close>

lemma StrCpy_loop_copies:
  "0 \<notin> set s \<Longrightarrow> d + length s < length dst \<Longrightarrow>
   StrCpy_loop dst d (s @ 0 # r) = Some (take d dst @ s @ 0 # drop (Suc (d + length s)) dst)"
proof (induction s arbitrary: dst d)
  case Nil
  then show ?case by (simp add: wr_in upd_conv_take_nth_drop)
next
  case (Cons c s)
  have "StrCpy_loop (dst[d := c]) (d + 1) (s @ 0 # r) =
      Some (take (d + 1) (dst[d := c]) @ s @ 0 # drop (Suc (d + 1 + length s)) (dst[d := c]))"
    using Cons.prems by (intro Cons.IH) auto
  then show ?case using Cons.prems by (simp add: wr_in take_Suc_conv_app_nth)
qed

text \<open>Fact. \<open>StrCpy\<close> and \<open>StrCat\<close> copy a string with its final zero and write nothing behind it.\<close>

theorem strings_are_copied:
  assumes "0 \<notin> set s" "0 \<notin> set t" "length t + length s < length dst"
  shows "StrCpy dst (s @ 0 # r) = Some (s @ 0 # drop (Suc (length s)) dst) \<and>
    StrCat (t @ 0 # drop (Suc (length t)) dst) (s @ 0 # r) = Some (t @ s @ 0 # drop (Suc (length t + length s)) dst)"
proof -
  have "StrCpy_loop dst 0 (s @ 0 # r) = Some (take 0 dst @ s @ 0 # drop (Suc (0 + length s)) dst)"
    by (rule StrCpy_loop_copies) (use assms in auto)
  moreover have "StrCpy_loop (t @ 0 # drop (Suc (length t)) dst) (length t) (s @ 0 # r) =
      Some (take (length t) (t @ 0 # drop (Suc (length t)) dst) @ s @ 0 #
        drop (Suc (length t + length s)) (t @ 0 # drop (Suc (length t)) dst))"
    by (rule StrCpy_loop_copies) (use assms in auto)
  moreover have "drop (Suc (length t + length s)) (t @ 0 # drop (Suc (length t)) dst) = drop (Suc (length t + length s)) dst"
    by (simp add: add.commute)
  ultimately show ?thesis using StrLen_of [OF assms(2)] by (simp add: StrCpy_def StrCat_def)
qed

text \<open>Property C30. \<open>StrStr\<close> finds the first occurrence: it always answers, and its answer is the first place at which the
  string sought lies in the other one, or the null pointer when it lies nowhere.\<close>

theorem strstr_finds_first:
  assumes "0 \<notin> set s" "0 \<notin> set t"
  shows "\<exists>res. StrStr (s @ 0 # r) (t @ 0 # r') = Some res \<and> first_place t s res"
  by (rule StrStr_first [OF assms])

theorem strstr_finds_first_witness:
  "\<exists>res. StrStr [97, 97, 98, 0] [97, 98, 0] = Some res \<and> first_place [97, 98] [97, 97, 98 :: u8] res"
  using strstr_finds_first [of "[97, 97, 98]" "[97, 98]" "[]" "[]"] by simp

text \<open>Fact. \<open>Strip\<close> removes a character from a string, but never from its first place: the loop looks at the second
  character before anything else.\<close>

theorem strip_keeps_first:
  assumes "ch \<noteq> 0" "x \<noteq> 0" "0 \<notin> set u"
  shows "\<exists>rest. Strip (x # u @ 0 # r) ch = Some (x # filter (\<lambda>c. c \<noteq> ch) u @ 0 # rest)"
  using Strip_loop_filters [OF assms, of "[]" 0 r] by (simp add: Strip_def)

theorem strip_keeps_first_witness:
  "\<exists>rest. Strip [32, 32, 97, 32, 98, 0] 32 = Some (32 # [97, 98] @ 0 # rest)"
  using strip_keeps_first [of 32 32 "[32, 97, 32, 98]" "[]"] by simp

text \<open>Fact. \<open>StrCmp\<close> answers 0 for equal strings only, but its answer is the difference of the first bytes that differ cut to
  eight bits: its sign is the order of the strings just when that difference is between -128 and 127.\<close>

theorem strcmp_sign_is_cut:
  assumes "0 \<notin> set s" "0 \<notin> set t" "0 \<notin> set u" "a \<noteq> b"
  shows "(StrCmp (s @ 0 # r) (t @ 0 # r') = Some 0 \<longleftrightarrow> s = t) \<and>
    StrCmp (u @ a # x) (u @ b # y) = Some (sint (a - b)) \<and>
    ((sint (a - b) < 0 \<longleftrightarrow> a < b) \<longleftrightarrow> unat a < unat b + 128 \<and> unat b \<le> unat a + 128)"
  using StrCmp_equal [OF assms(1,2)] StrCmp_common [OF assms(3)] assms(4) byte_difference_sign [of a b] by simp

theorem strcmp_sign_is_cut_witness:
  "StrCmp [65, 0xD6, 0] [65, 66, 0] = Some (sint ((0xD6 :: u8) - 66)) \<and> sint ((0xD6 :: u8) - 66) < 0 \<and> (66 :: u8) < 0xD6"
  using strcmp_sign_is_cut [of "[]" "[]" "[65]" "0xD6" 66 "[]" "[]" "[0]" "[0]"] by simp

text \<open>Fact. \<open>StrSplit\<close> gives the fields of a string: with nodes for all of them it answers their places and lengths, the null
  pointer for an empty one, without a last field that is empty; the separators become the given character and nothing
  else changes.\<close>

theorem strsplit_gives_fields:
  assumes "split \<noteq> 0" "0 \<notin> set s" "length (fields split s) \<le> node_num" "node_num \<le> length result"
  shows "StrSplit (Some (s @ 0 # r)) split replace result node_num =
    Some (length (counted (fields split s)), map (\<lambda>c. if c = split then replace else c) s @ 0 # r,
      nodes 0 (counted (fields split s)) @ drop (length (counted (fields split s))) result)"
  using StrSplit_loop_fields [OF assms(1,2), where pre = "[]" and cur = "[]" and i = 0 and result = result
      and node_num = node_num and r = r and replace = replace] assms(3,4)
  by (simp add: StrSplit_def Let_def)

theorem strsplit_gives_fields_witness:
  "StrSplit (Some [97, 44, 44, 98, 44, 0]) 44 0 [(None, 9), (None, 9), (None, 9), (None, 9)] 4 =
    Some (3, [97, 0, 0, 98, 0, 0], [(Some 0, 1), (None, 0), (Some 3, 1), (None, 9)])"
proof -
  have "StrSplit (Some ([97, 44, 44, 98, 44] @ 0 # [])) 44 0 [(None, 9), (None, 9), (None, 9), (None, 9)] 4 =
    Some (length (counted (fields 44 [97, 44, 44, 98, 44 :: u8])), map (\<lambda>c. if c = 44 then 0 else c) [97, 44, 44, 98, 44] @ 0 # [],
      nodes 0 (counted (fields 44 [97, 44, 44, 98, 44 :: u8])) @
      drop (length (counted (fields 44 [97, 44, 44, 98, 44 :: u8]))) [(None, 9), (None, 9), (None, 9), (None, 9)])"
    by (rule strsplit_gives_fields) simp_all
  then show ?thesis by (simp add: counted_def)
qed

end
