(* ===== verification/MemLib.thy ===== *)
theory MemLib imports StrLib
begin

text \<open>
  \<open>common_lib/usdl_mem.c\<close>: operations on memory areas, copies between a ring and a line, and the pool of areas that
  are locked. An area is the array from its pointer on; \<open>None\<close> is an access outside an array, or a loop that does
  not end where this is said. Source and destination do not overlap. \<open>MemMatch\<close> is not modelled.
\<close>

subsection \<open>Every byte of an area\<close>

text \<open>The loops over \<open>*(ptr + i)\<close>, which differ in the operation only.\<close>

fun mem_each :: "(u8 \<Rightarrow> u8) \<Rightarrow> u8 list \<Rightarrow> nat \<Rightarrow> nat \<Rightarrow> u8 list option" where
  "mem_each f ptr i 0 = Some ptr"
| "mem_each f ptr i (Suc n) = do { b \<leftarrow> rd ptr i; ptr \<leftarrow> wr ptr i (f b); mem_each f ptr (i + 1) n }"

definition MemAdd :: "u8 list \<Rightarrow> u8 \<Rightarrow> nat \<Rightarrow> u8 list option" where "MemAdd ptr value len = mem_each (\<lambda>b. b + value) ptr 0 len"
definition MemSub :: "u8 list \<Rightarrow> u8 \<Rightarrow> nat \<Rightarrow> u8 list option" where "MemSub ptr value len = mem_each (\<lambda>b. b - value) ptr 0 len"
definition MemAnd :: "u8 list \<Rightarrow> u8 \<Rightarrow> nat \<Rightarrow> u8 list option" where "MemAnd ptr value len = mem_each (\<lambda>b. b AND value) ptr 0 len"
definition MemOr :: "u8 list \<Rightarrow> u8 \<Rightarrow> nat \<Rightarrow> u8 list option" where "MemOr ptr value len = mem_each (\<lambda>b. b OR value) ptr 0 len"
definition MemXor :: "u8 list \<Rightarrow> u8 \<Rightarrow> nat \<Rightarrow> u8 list option" where "MemXor ptr value len = mem_each (\<lambda>b. b XOR value) ptr 0 len"
definition MemNot :: "u8 list \<Rightarrow> nat \<Rightarrow> u8 list option" where "MemNot ptr len = mem_each (\<lambda>b. if b = 0 then 1 else 0) ptr 0 len"
definition MemBitNot :: "u8 list \<Rightarrow> nat \<Rightarrow> u8 list option" where "MemBitNot ptr len = mem_each (\<lambda>b. NOT b) ptr 0 len"

fun mem_total :: "(u32 \<Rightarrow> u32 \<Rightarrow> u32) \<Rightarrow> u8 list \<Rightarrow> nat \<Rightarrow> nat \<Rightarrow> u32 \<Rightarrow> u32 option" where
  "mem_total f ptr i 0 acc = Some acc"
| "mem_total f ptr i (Suc n) acc = do { b \<leftarrow> rd ptr i; mem_total f ptr (i + 1) n (f acc (ucast b)) }"

definition MemSum :: "u8 list \<Rightarrow> nat \<Rightarrow> u32 option" where "MemSum ptr len = mem_total (+) ptr 0 len 0"
definition MemAllAnd :: "u8 list \<Rightarrow> nat \<Rightarrow> u32 option" where "MemAllAnd ptr len = mem_total (AND) ptr 0 len (NOT 0)"
definition MemAllOr :: "u8 list \<Rightarrow> nat \<Rightarrow> u32 option" where "MemAllOr ptr len = mem_total (OR) ptr 0 len 0"
definition MemAllXor :: "u8 list \<Rightarrow> nat \<Rightarrow> u32 option" where "MemAllXor ptr len = mem_total (XOR) ptr 0 len 0"

fun MemAllSameValue :: "u8 list \<Rightarrow> nat \<Rightarrow> u8 \<Rightarrow> bool option" where
  "MemAllSameValue src 0 value = Some True"
| "MemAllSameValue src (Suc len) value = do { b \<leftarrow> rd src len; if b \<noteq> value then Some False else MemAllSameValue src len value }"

fun MemAllSame :: "u8 list \<Rightarrow> nat \<Rightarrow> bool option" where
  "MemAllSame src 0 = Some True"
| "MemAllSame src (Suc len) = do {
     b \<leftarrow> rd src len; a \<leftarrow> rd src 0; if b \<noteq> a then Some False else MemAllSame src len }"

text \<open>The loop counter has 16 bits: the loop ends only for a length below \<open>2 ^ 16\<close>, or at a byte that is no decimal.\<close>

partial_function (option) MemBCDCheck_loop :: "u8 list \<Rightarrow> nat \<Rightarrow> nat \<Rightarrow> bool option" where
  "MemBCDCheck_loop src i len =
     (if i < len then do {
        b \<leftarrow> rd src i;
        if \<not> CheckBCD b then Some False else MemBCDCheck_loop src ((i + 1) mod 65536) len }
      else Some True)"

definition MemBCDCheck :: "u8 list \<Rightarrow> nat \<Rightarrow> bool option" where
  "MemBCDCheck src len = MemBCDCheck_loop src 0 len"

text \<open>The loops that count down: \<open>*(dst + len) = *(src1 + len) op *(src2 + len)\<close> from \<open>len\<close> to 1.\<close>

fun mem_mem :: "(u8 \<Rightarrow> u8 \<Rightarrow> u8) \<Rightarrow> u8 list \<Rightarrow> u8 list \<Rightarrow> u8 list \<Rightarrow> nat \<Rightarrow> u8 list option" where
  "mem_mem f dst src1 src2 0 = Some dst"
| "mem_mem f dst src1 src2 (Suc len) = do {
     a \<leftarrow> rd src1 (Suc len);
     b \<leftarrow> rd src2 (Suc len);
     dst \<leftarrow> wr dst (Suc len) (f a b);
     mem_mem f dst src1 src2 len }"

definition MemAddMem :: "u8 list \<Rightarrow> u8 list \<Rightarrow> u8 list \<Rightarrow> nat \<Rightarrow> u8 list option" where "MemAddMem = mem_mem (+)"
definition MemSubMem :: "u8 list \<Rightarrow> u8 list \<Rightarrow> u8 list \<Rightarrow> nat \<Rightarrow> u8 list option" where "MemSubMem = mem_mem (-)"
definition MemAndMem :: "u8 list \<Rightarrow> u8 list \<Rightarrow> u8 list \<Rightarrow> nat \<Rightarrow> u8 list option" where "MemAndMem = mem_mem (AND)"
definition MemOrMem :: "u8 list \<Rightarrow> u8 list \<Rightarrow> u8 list \<Rightarrow> nat \<Rightarrow> u8 list option" where "MemOrMem = mem_mem (OR)"
definition MemXorMem :: "u8 list \<Rightarrow> u8 list \<Rightarrow> u8 list \<Rightarrow> nat \<Rightarrow> u8 list option" where "MemXorMem = mem_mem (XOR)"

subsection \<open>Reversing and rotating\<close>

function MemReverse_loop :: "u8 list \<Rightarrow> nat \<Rightarrow> nat \<Rightarrow> u8 list option" where
  "MemReverse_loop ptr i j =
     (if i < j then do {
        a \<leftarrow> rd ptr i; b \<leftarrow> rd ptr j; ptr \<leftarrow> wr ptr i (a XOR b);
        b \<leftarrow> rd ptr j; a \<leftarrow> rd ptr i; ptr \<leftarrow> wr ptr j (b XOR a);
        a \<leftarrow> rd ptr i; b \<leftarrow> rd ptr j; ptr \<leftarrow> wr ptr i (a XOR b);
        MemReverse_loop ptr (i + 1) (j - 1) }
      else Some ptr)"
  by pat_completeness auto
termination by (relation "measure (\<lambda>(ptr, i, j). j)") auto

declare MemReverse_loop.simps [simp del]

definition MemReverse :: "u8 list \<Rightarrow> nat \<Rightarrow> u8 list option" where
  "MemReverse ptr len = MemReverse_loop ptr 0 (u32_sub len 1)"

fun MemReverseCpy_loop :: "u8 list \<Rightarrow> u8 list \<Rightarrow> nat \<Rightarrow> nat \<Rightarrow> nat \<Rightarrow> u8 list option" where
  "MemReverseCpy_loop dst src len i 0 = Some dst"
| "MemReverseCpy_loop dst src len i (Suc n) = do {
     b \<leftarrow> rd src (len - i - 1); dst \<leftarrow> wr dst i b; MemReverseCpy_loop dst src len (i + 1) n }"

definition MemReverseCpy :: "u8 list \<Rightarrow> u8 list \<Rightarrow> nat \<Rightarrow> u8 list option" where
  "MemReverseCpy dst src len = MemReverseCpy_loop dst src len 0 len"

text \<open>\<open>Swap\<close> exchanges a byte with \<open>temp\<close>, of which only the low byte is ever set.\<close>

fun MemShiftR_loop :: "u8 list \<Rightarrow> nat \<Rightarrow> nat \<Rightarrow> nat \<Rightarrow> nat \<Rightarrow> u8 \<Rightarrow> nat \<Rightarrow> u8 list option" where
  "MemShiftR_loop src src_len shift_len index start temp 0 = Some src"
| "MemShiftR_loop src src_len shift_len index start temp (Suc n) = do {
     let index = u32_add index shift_len mod src_len;
     b \<leftarrow> rd src index;
     src \<leftarrow> wr src index temp;
     let temp = b;
     if index = start then do {
       temp \<leftarrow> rd src (start + 1); MemShiftR_loop src src_len shift_len (start + 1) (start + 1) temp n }
     else MemShiftR_loop src src_len shift_len index start temp n }"

definition MemShiftR :: "u8 list option \<Rightarrow> nat \<Rightarrow> nat \<Rightarrow> u8 list option option" where
  "MemShiftR src src_len shift_len =
     (case src of None \<Rightarrow> Some None
      | Some src \<Rightarrow>
          if src_len = 0 \<or> shift_len = 0 then Some (Some src)
          else do {
            temp \<leftarrow> rd src 0;
            src \<leftarrow> MemShiftR_loop src src_len (shift_len mod src_len) 0 0 temp src_len;
            Some (Some src) })"

subsection \<open>Rings and lines\<close>

text \<open>The answer of \<open>MemLineToCycle\<close> is the ring and the distance of the pointer it answers from \<open>dst\<close>. The middle loop
  copies whole turns of the ring; \<open>copy_len\<close> is the size of the ring there and not zero.\<close>

function line_turns :: "u8 list \<Rightarrow> nat \<Rightarrow> u8 list \<Rightarrow> nat \<Rightarrow> nat \<Rightarrow> (u8 list \<times> u8 list \<times> nat) option" where
  "line_turns dst dst_size src len copy_len =
     (if copy_len < len \<and> 0 < copy_len then do {
        dst \<leftarrow> memcpy dst 0 src 0 dst_size;
        line_turns dst dst_size (drop copy_len src) (len - copy_len) copy_len }
      else Some (dst, src, len))"
  by pat_completeness auto
termination by (relation "measure (\<lambda>(dst, dst_size, src, len, copy_len). len)") auto

declare line_turns.simps [simp del]

definition MemLineToCycle :: "u8 list \<Rightarrow> nat \<Rightarrow> nat \<Rightarrow> u8 list \<Rightarrow> nat \<Rightarrow> (u8 list \<times> nat) option" where
  "MemLineToCycle dst dst_size start_offset src len =
     (if dst_size = 0 \<or> dst_size \<le> start_offset then Some (dst, 0)
      else do {
        let copy_len = dst_size - start_offset;
        (dst, src, len, start_offset, copy_len) \<leftarrow>
          (if copy_len < len then do {
             dst \<leftarrow> memcpy dst start_offset src 0 (dst_size - start_offset);
             Some (dst, drop copy_len src, len - copy_len, 0, dst_size) }
           else Some (dst, src, len, start_offset, copy_len));
        (dst, src, len) \<leftarrow> line_turns dst dst_size src len copy_len;
        dst \<leftarrow> memcpy dst start_offset src 0 len;
        Some (dst, u32_add start_offset len mod dst_size) })"

definition MemCycleToLine :: "u8 list \<Rightarrow> u8 list \<Rightarrow> nat \<Rightarrow> nat \<Rightarrow> nat \<Rightarrow> (nat \<times> u8 list) option" where
  "MemCycleToLine dst src start_pos end_pos src_size =
     (if start_pos < end_pos then do {
        let len = end_pos - start_pos;
        dst \<leftarrow> memcpy dst 0 src start_pos len;
        Some (len, dst) }
      else if end_pos < start_pos then do {
        let len = u32_sub src_size start_pos;
        dst \<leftarrow> memcpy dst 0 src start_pos len;
        dst \<leftarrow> memcpy dst len src 0 end_pos;
        Some (u32_add len end_pos, dst) }
      else Some (0, dst))"

definition MemCycleSubToLine :: "u8 list \<Rightarrow> u8 list \<Rightarrow> nat \<Rightarrow> nat \<Rightarrow> nat \<Rightarrow> nat \<Rightarrow> (nat \<times> u8 list) option" where
  "MemCycleSubToLine dst src start_pos end_pos src_size request_len =
     (if start_pos < end_pos then do {
        let head_len = end_pos - start_pos;
        let head_len = (if request_len < head_len then request_len else head_len);
        dst \<leftarrow> memcpy dst 0 src start_pos head_len;
        Some (head_len, dst) }
      else if end_pos < start_pos then do {
        let head_len = u32_sub src_size start_pos;
        if request_len \<le> head_len then do { dst \<leftarrow> memcpy dst 0 src start_pos request_len; Some (request_len, dst) }
        else do {
          dst \<leftarrow> memcpy dst 0 src start_pos head_len;
          if request_len - head_len \<le> end_pos then do {
            dst \<leftarrow> memcpy dst head_len src 0 (request_len - head_len);
            Some (request_len, dst) }
          else do {
            dst \<leftarrow> memcpy dst head_len src 0 end_pos;
            Some (u32_add head_len end_pos, dst) } } }
      else Some (0, dst))"

subsection \<open>Searching\<close>

text \<open>\<open>sp <= eos\<close>, where \<open>eos\<close> lies before the area when the pattern is longer.\<close>

function MemMem_loop :: "u8 list \<Rightarrow> u8 list \<Rightarrow> nat \<Rightarrow> int \<Rightarrow> nat \<Rightarrow> nat option option" where
  "MemMem_loop b1 b2 len2 eos sp =
     (if int sp \<le> eos then do {
        c \<leftarrow> rd b1 sp;
        p \<leftarrow> rd b2 0;
        if c = p then
          if length b1 < sp + len2 \<or> length b2 < len2 then None
          else if take len2 (drop sp b1) = take len2 b2 then Some (Some sp)
          else MemMem_loop b1 b2 len2 eos (sp + 1)
        else MemMem_loop b1 b2 len2 eos (sp + 1) }
      else Some None)"
  by pat_completeness auto
termination by (relation "measure (\<lambda>(b1, b2, len2, eos, sp). nat (eos - int sp + 1))") auto

declare MemMem_loop.simps [simp del]

definition MemMem :: "u8 list option \<Rightarrow> nat \<Rightarrow> u8 list option \<Rightarrow> nat \<Rightarrow> nat option option" where
  "MemMem b1 len1 b2 len2 =
     (case (b1, b2) of
        (Some b1, Some b2) \<Rightarrow>
          if len1 = 0 \<or> len2 = 0 then Some None else MemMem_loop b1 b2 len2 (int len1 - int len2) 0
      | _ \<Rightarrow> Some None)"

subsection \<open>The pool of locked areas\<close>

record MutexType =
  Obj_Data :: nat
  Obj_Len :: nat
  Valid :: bool

definition MUTEX_POOL_SIZE :: nat where "MUTEX_POOL_SIZE = 128"

definition MutexPool :: "MutexType list" where
  "MutexPool = replicate MUTEX_POOL_SIZE \<lparr>Obj_Data = 0, Obj_Len = 0, Valid = False\<rparr>"

text \<open>\<open>None\<close> is \<open>MUTEX_SEARCH_FAILED\<close>.\<close>

fun search_from :: "nat \<Rightarrow> MutexType list \<Rightarrow> nat \<Rightarrow> nat \<Rightarrow> nat option" where
  "search_from i [] addr len = None"
| "search_from i (m # pool) addr len =
     (if Valid m \<and> Obj_Data m < u32_add addr len \<and> addr < u32_add (Obj_Data m) (Obj_Len m) then Some i
      else search_from (i + 1) pool addr len)"

definition MutexSearch :: "MutexType list \<Rightarrow> nat \<Rightarrow> nat \<Rightarrow> nat \<Rightarrow> nat option" where
  "MutexSearch pool start_index addr len = search_from start_index (drop start_index pool) addr len"

text \<open>The waiting loop. \<open>func\<close> is what the pool becomes while the function given by the caller runs. \<open>None\<close> is a loop without
  end, \<open>False\<close> the end of the tries.\<close>

partial_function (option) mutex_wait ::
    "(MutexType list \<Rightarrow> MutexType list) \<Rightarrow> nat \<Rightarrow> nat \<Rightarrow> bool \<Rightarrow> MutexType list \<Rightarrow> nat \<Rightarrow> nat \<Rightarrow> (bool \<times> MutexType list) option" where
  "mutex_wait func addr len timeout_enabled pool i timeout =
     (case MutexSearch pool i addr len of
        None \<Rightarrow> Some (True, pool)
      | Some i \<Rightarrow>
          if timeout_enabled \<and> timeout = 0 then Some (False, pool)
          else mutex_wait func addr len timeout_enabled (func pool) i (if timeout_enabled then timeout - 1 else timeout))"

fun take_slot :: "MutexType list \<Rightarrow> nat \<Rightarrow> nat \<Rightarrow> bool \<times> MutexType list" where
  "take_slot [] addr len = (False, [])"
| "take_slot (m # pool) addr len =
     (if \<not> Valid m then (True, m\<lparr>Obj_Data := addr, Obj_Len := len, Valid := True\<rparr> # pool)
      else let (ok, pool) = take_slot pool addr len in (ok, m # pool))"

definition MutexApply :: "(MutexType list \<Rightarrow> MutexType list) \<Rightarrow> MutexType list \<Rightarrow> nat \<Rightarrow> nat \<Rightarrow> nat \<Rightarrow> (bool \<times> MutexType list) option" where
  "MutexApply func pool addr len timeout = do {
     (free, pool) \<leftarrow> mutex_wait func addr len (timeout \<noteq> 0) pool 0 timeout;
     Some (if free then take_slot pool addr len else (False, pool)) }"

definition MutexRelease :: "MutexType list \<Rightarrow> nat \<Rightarrow> bool \<times> MutexType list" where
  "MutexRelease pool addr =
     (case MutexSearch pool 0 addr 1 of
        None \<Rightarrow> (False, pool)
      | Some i \<Rightarrow> (True, pool[i := (pool ! i)\<lparr>Obj_Data := 0, Obj_Len := 0, Valid := False\<rparr>]))"


subsection \<open>Areas\<close>

lemma mem_each_maps:
  "i + n \<le> length ptr \<Longrightarrow> mem_each f ptr i n = Some (take i ptr @ map f (take n (drop i ptr)) @ drop (i + n) ptr)"
proof (induction n arbitrary: ptr i)
  case (Suc n)
  have d: "drop i ptr = ptr ! i # drop (Suc i) ptr" using Suc.prems by (simp add: Cons_nth_drop_Suc)
  have "mem_each f (ptr[i := f (ptr ! i)]) (i + 1) n =
      Some (take (i + 1) (ptr[i := f (ptr ! i)]) @ map f (take n (drop (i + 1) (ptr[i := f (ptr ! i)]))) @
        drop (i + 1 + n) (ptr[i := f (ptr ! i)]))"
    using Suc.prems by (intro Suc.IH) simp
  then show ?case using Suc.prems by (simp add: rd_in wr_in take_Suc_conv_app_nth d)
qed simp

text \<open>Fact. The functions with one operand change each byte of an area and nothing else.\<close>

theorem areas_are_mapped:
  assumes "(F, f) \<in> {(MemAdd, \<lambda>b. b + value), (MemSub, \<lambda>b. b - value), (MemAnd, \<lambda>b. b AND value), (MemOr, \<lambda>b. b OR value),
      (MemXor, \<lambda>b. b XOR value)}" "len \<le> length ptr"
  shows "F ptr value len = Some (map f (take len ptr) @ drop len ptr)"
  using assms mem_each_maps [of 0 len ptr] by (auto simp: MemAdd_def MemSub_def MemAnd_def MemOr_def MemXor_def)

lemma mem_mem_shifted:
  "len < length dst \<Longrightarrow> len < length src1 \<Longrightarrow> len < length src2 \<Longrightarrow>
   mem_mem f dst src1 src2 len =
     Some (take 1 dst @ map2 f (take len (drop 1 src1)) (take len (drop 1 src2)) @ drop (Suc len) dst)"
proof (induction len arbitrary: dst)
  case 0
  then show ?case by (cases dst) auto
next
  case (Suc len)
  let ?d = "dst[Suc len := f (src1 ! Suc len) (src2 ! Suc len)]"
  have "mem_mem f ?d src1 src2 len =
      Some (take 1 ?d @ map2 f (take len (drop 1 src1)) (take len (drop 1 src2)) @ drop (Suc len) ?d)"
    using Suc.prems by (intro Suc.IH) auto
  moreover have "take (Suc len) (drop 1 src) = take len (drop 1 src) @ [src ! Suc len]" if "Suc len < length src" for src :: "u8 list"
    using that by (subst take_Suc_conv_app_nth) (auto simp: nth_drop)
  moreover have "drop (Suc len) ?d = f (src1 ! Suc len) (src2 ! Suc len) # drop (Suc (Suc len)) dst"
    using Suc.prems by (simp add: Cons_nth_drop_Suc [symmetric])
  ultimately show ?case using Suc.prems by (simp add: rd_in wr_in)
qed

lemma mem_mem_overrun: "0 < len \<Longrightarrow> length dst \<le> len \<Longrightarrow> mem_mem f dst src1 src2 len = None"
  by (cases len) (auto simp: rd_def wr_def)

subsection \<open>Reversing and rotating\<close>

lemma MemReverse_loop_step:
  assumes "i < j" "j < length ptr"
  shows "MemReverse_loop ptr i j = MemReverse_loop (ptr[i := ptr ! j, j := ptr ! i]) (i + 1) (j - 1)"
proof -
  have x: "b XOR (a XOR b) = a" "(a XOR b) XOR a = b" for a b :: u8
    by (auto intro!: bit_eqI simp: bit_simps)
  have "MemReverse_loop ptr i j = MemReverse_loop (ptr[j := ptr ! i, i := ptr ! j]) (i + 1) (j - 1)"
    using assms by (subst MemReverse_loop.simps) (simp add: rd_in wr_in list_update_swap [of i j ptr] x)
  then show ?thesis using assms by (simp add: list_update_swap [of j i ptr])
qed

lemma MemReverse_loop_reverses:
  "MemReverse_loop (xs @ ys @ zs) (length xs) (length xs + length ys - 1) = Some (xs @ rev ys @ zs)" if "ys \<noteq> []"
  using that
proof (induction "length ys" arbitrary: xs ys zs rule: less_induct)
  case less
  then obtain a r where a: "ys = a # r" by (cases ys) auto
  show ?case
  proof (cases r rule: rev_cases)
    case Nil
    then show ?thesis using a by (subst MemReverse_loop.simps) simp
  next
    case (snoc m b)
    let ?j = "length xs + length ys - 1"
    have j: "?j = length xs + Suc (length m)" using a snoc by simp
    have e: "xs @ ys @ zs = xs @ a # m @ b # zs" using a snoc by simp
    have "(xs @ ys @ zs)[length xs := (xs @ ys @ zs) ! ?j, ?j := (xs @ ys @ zs) ! length xs] = (xs @ [b]) @ m @ a # zs"
      unfolding e j by (simp add: nth_append list_update_append)
    then have s: "MemReverse_loop (xs @ ys @ zs) (length xs) ?j = MemReverse_loop ((xs @ [b]) @ m @ a # zs) (length xs + 1) (?j - 1)"
      using a snoc by (subst MemReverse_loop_step) simp_all
    show ?thesis
    proof (cases "m = []")
      case True
      then show ?thesis unfolding s unfolding j using a snoc by (subst MemReverse_loop.simps) simp
    next
      case False
      have "MemReverse_loop ((xs @ [b]) @ m @ a # zs) (length (xs @ [b])) (length (xs @ [b]) + length m - 1) =
          Some ((xs @ [b]) @ rev m @ a # zs)"
        using a snoc False by (intro less.hyps) auto
      then show ?thesis unfolding s unfolding j using a snoc False by simp
    qed
  qed
qed

lemma MemReverseCpy_loop_reverses:
  "i + n = len \<Longrightarrow> len \<le> length src \<Longrightarrow> len \<le> length dst \<Longrightarrow>
   MemReverseCpy_loop dst src len i n = Some (take i dst @ rev (take n src) @ drop len dst)"
proof (induction n arbitrary: dst i)
  case (Suc n)
  have "len - i - 1 = n" using Suc.prems by simp
  moreover have "MemReverseCpy_loop (dst[i := src ! n]) src len (i + 1) n =
      Some (take (i + 1) (dst[i := src ! n]) @ rev (take n src) @ drop len (dst[i := src ! n]))"
    using Suc.prems by (intro Suc.IH) auto
  ultimately show ?case using Suc.prems by (simp add: rd_in wr_in take_Suc_conv_app_nth)
qed simp

text \<open>Fact. \<open>MemReverse\<close> reverses an area that is not empty; for an empty one it counts down from \<open>2 ^ 32 - 1\<close> and leaves the array at
  once. \<open>MemReverseCpy\<close> copies an area backwards.\<close>

theorem areas_are_reversed:
  assumes "0 < len" "len \<le> length ptr" "length ptr < U32_RANGE" "len \<le> length dst"
  shows "MemReverse ptr len = Some (rev (take len ptr) @ drop len ptr) \<and>
    MemReverseCpy dst ptr len = Some (rev (take len ptr) @ drop len dst) \<and>
    (length ptr < 4294967295 \<longrightarrow> MemReverse ptr 0 = None)"
proof -
  have "MemReverse ptr len = MemReverse_loop ([] @ take len ptr @ drop len ptr) (length ([] :: u8 list)) (length ([] :: u8 list) + length (take len ptr) - 1)"
    using assms by (simp add: MemReverse_def u32_sub_exact)
  also have "\<dots> = Some ([] @ rev (take len ptr) @ drop len ptr)"
    using assms by (intro MemReverse_loop_reverses) auto
  finally have "MemReverse ptr len = Some (rev (take len ptr) @ drop len ptr)" by simp
  moreover have "MemReverse ptr 0 = None" if "length ptr < 4294967295"
    using that by (simp add: MemReverse_def u32_sub_def) (subst MemReverse_loop.simps, auto simp: rd_def)
  ultimately show ?thesis using assms MemReverseCpy_loop_reverses [of 0 len len ptr dst] by (simp add: MemReverseCpy_def)
qed

lemma MemShiftR_whole_turn:
  "start + n = src_len \<Longrightarrow> length src = src_len \<Longrightarrow> 0 < n \<Longrightarrow> src_len < U32_RANGE \<Longrightarrow> temp = src ! start \<Longrightarrow>
   MemShiftR_loop src src_len 0 start start temp n = None"
proof (induction n arbitrary: start temp)
  case (Suc n)
  have s: "u32_add start 0 mod src_len = start" "src[start := src ! start] = src"
    using Suc.prems by (simp_all add: u32_add_def)
  show ?case
  proof (cases n)
    case 0
    then show ?thesis using Suc.prems s by (simp add: rd_def wr_def)
  next
    case (Suc k)
    have "MemShiftR_loop src src_len 0 (start + 1) (start + 1) (src ! (start + 1)) n = None"
      using Suc.prems Suc by (intro Suc.IH) auto
    then show ?thesis using Suc.prems Suc s by (simp add: rd_in wr_in)
  qed
qed simp

subsection \<open>Rings\<close>

lemma line_to_cycle:
  assumes "start < size0" "length ring = size0" "len \<le> size0" "len \<le> length src" "size0 < 2147483648"
  shows "MemLineToCycle ring size0 start src len =
    (if len \<le> size0 - start
     then Some (take start ring @ take len src @ drop (start + len) ring, (start + len) mod size0)
     else Some (take (len - (size0 - start)) (drop (size0 - start) src) @ drop (len - (size0 - start)) (take start ring) @
       take (size0 - start) src, len - (size0 - start)))"
proof (cases "len \<le> size0 - start")
  case True
  then show ?thesis using assms
    by (simp add: MemLineToCycle_def line_turns.simps memcpy_in u32_add_exact)
next
  case False
  then have l: "size0 - start < len" "len - (size0 - start) \<le> size0" "len - (size0 - start) < size0"
    using assms by auto
  have m1: "memcpy ring start src 0 (size0 - start) = Some (take start ring @ take (size0 - start) src)"
    using assms l by (simp add: memcpy_in)
  have m2: "memcpy (take start ring @ take (size0 - start) src) 0 (drop (size0 - start) src) 0 (len - (size0 - start)) =
      Some (take (len - (size0 - start)) (drop (size0 - start) src) @
        drop (len - (size0 - start)) (take start ring @ take (size0 - start) src))"
    using assms l by (simp add: memcpy_in)
  have d: "drop (len - (size0 - start)) (take start ring @ take (size0 - start) src) =
      drop (len - (size0 - start)) (take start ring) @ take (size0 - start) src"
    using assms l by simp
  show ?thesis using assms l m1 m2 unfolding d
    by (simp add: MemLineToCycle_def line_turns.simps u32_add_exact Let_def)
qed

lemma cycle_to_line:
  assumes "start < size0" "length ring = size0" "len < size0" "len \<le> length src" "size0 < 2147483648" "len \<le> length dst"
    "MemLineToCycle ring size0 start src len = Some (ring', end_pos)"
  shows "MemCycleToLine dst ring' start end_pos size0 = Some (len, take len src @ drop len dst) \<and>
    MemCycleSubToLine dst ring' start end_pos size0 request = Some (min request len, take (min request len) src @ drop (min request len) dst)"
proof -
  have s: "u32_sub size0 start = size0 - start" using assms by (simp add: u32_sub_exact)
  have r: "(if len \<le> size0 - start
     then Some (take start ring @ take len src @ drop (start + len) ring, (start + len) mod size0)
     else Some (take (len - (size0 - start)) (drop (size0 - start) src) @ drop (len - (size0 - start)) (take start ring) @
       take (size0 - start) src, len - (size0 - start))) = Some (ring', end_pos)"
    using assms line_to_cycle [of start size0 ring len src] by simp
  consider "start + len < size0" | "start + len = size0" | "size0 < start + len" by linarith
  then show ?thesis
  proof cases
    case 1
    then have "len \<le> size0 - start" by simp
    then have v: "ring' = take start ring @ take len src @ drop (start + len) ring" "end_pos = start + len" using r 1 by auto
    have "memcpy dst 0 ring' start n = Some (take n src @ drop n dst)" if "n \<le> len" for n
      using that assms 1 by (simp add: v memcpy_in min_def)
    then show ?thesis using v(2) by (auto simp: MemCycleToLine_def MemCycleSubToLine_def min_def)
  next
    case 2
    then have "len \<le> size0 - start" by simp
    then have v: "ring' = take start ring @ take len src" "end_pos = 0" "size0 - start = len" using r 2 assms by auto
    have m: "memcpy dst 0 ring' start n = Some (take n src @ drop n dst)" if "n \<le> len" for n
      using that assms 2 by (simp add: v memcpy_in min_def)
    have "memcpy d n ring' 0 0 = Some d" if "n \<le> length d" for d n using that by (simp add: memcpy_in)
    then show ?thesis using m v(2,3) assms 2
      by (auto simp: MemCycleToLine_def MemCycleSubToLine_def s min_def u32_add_exact)
  next
    case 3
    let ?h = "size0 - start"
    have nle: "\<not> len \<le> size0 - start" using 3 assms(1) by linarith
    have v: "ring' = take (len - ?h) (drop ?h src) @ drop (len - ?h) (take start ring) @ take ?h src" "end_pos = len - ?h"
      using r unfolding if_not_P [OF nle] option.inject prod.inject by (elim conjE; metis)+
    have e: "end_pos < start" "0 < end_pos" using 3 assms v by auto
    have h: "drop start ring' = take ?h src" unfolding v(1) using assms 3 by simp
    have l: "length ring' = size0" unfolding v(1) using assms 3 by simp
    have m: "memcpy dst 0 ring' start n = Some (take n src @ drop n dst)" if "n \<le> ?h" for n
      using that assms 3 by (simp add: h l memcpy_in min_def)
    have t: "memcpy (take ?h src @ drop ?h dst) ?h ring' 0 n = Some (take (?h + n) src @ drop (?h + n) dst)" if "n \<le> end_pos" for n
    proof -
      have la: "length (take (len - ?h) (drop ?h src)) = len - ?h" using assms(4) by simp
      have "take n ring' = take n (take (len - ?h) (drop ?h src))"
        unfolding v(1) take_append la using that v(2) by simp
      then have "take n ring' = take n (drop ?h src)" using that v(2) by simp
      moreover have "take (?h + n) src = take ?h src @ take n (drop ?h src)" by (rule take_add)
      ultimately show ?thesis using that assms 3 v(2) l by (simp add: memcpy_in add.commute)
    qed
    have full: "MemCycleToLine dst ring' start end_pos size0 = Some (len, take len src @ drop len dst)"
      using e m [of ?h] t [of end_pos] v(2) 3 assms by (simp add: MemCycleToLine_def s u32_add_exact)
    moreover have "MemCycleSubToLine dst ring' start end_pos size0 request =
        Some (min request len, take (min request len) src @ drop (min request len) dst)"
    proof (cases "request \<le> ?h")
      case True
      then show ?thesis using e m [of request] 3 by (simp add: MemCycleSubToLine_def s min_def)
    next
      case False
      then show ?thesis
        using e m [of ?h] t [of "request - ?h"] t [of end_pos] v(2) 3 assms
        by (cases "request - ?h \<le> end_pos") (auto simp: MemCycleSubToLine_def s min_def u32_add_exact)
    qed
    ultimately show ?thesis by blast
  qed
qed

subsection \<open>Searching\<close>

lemma MemMem_loop_first:
  assumes "len1 \<le> length b1" "len2 \<le> length b2" "0 < len2" "\<forall>j < sp. \<not> prefix (take len2 b2) (drop j (take len1 b1))"
  shows "\<exists>res. MemMem_loop b1 b2 len2 (int len1 - int len2) sp = Some res \<and> first_place (take len2 b2) (take len1 b1) res"
  using assms(4)
proof (induction "Suc len1 - sp" arbitrary: sp rule: less_induct)
  case less
  show ?case
  proof (cases "int sp \<le> int len1 - int len2")
    case False
    have "\<not> prefix (take len2 b2) (drop j (take len1 b1))" for j
    proof (cases "j < sp")
      case False
      then have "length (drop j (take len1 b1)) < length (take len2 b2)"
        using \<open>\<not> int sp \<le> _\<close> assms by simp
      then show ?thesis using prefix_length_le by fastforce
    qed (use less.prems in simp)
    then show ?thesis using False by (subst MemMem_loop.simps) (simp add: first_place_def)
  next
    case True
    then have sp: "sp + len2 \<le> len1" "sp < length b1" using assms by auto
    have p: "prefix (take len2 b2) (drop sp (take len1 b1)) \<longleftrightarrow> take len2 (drop sp b1) = take len2 b2"
    proof -
      have "take len2 (drop sp (take len1 b1)) = take len2 (drop sp b1)" using sp assms by (simp add: drop_take min_def)
      then show ?thesis using assms sp
        by (metis append_eq_conv_conj append_take_drop_id length_take min_absorb2 prefix_def)
    qed
    have nx: "\<exists>res. MemMem_loop b1 b2 len2 (int len1 - int len2) (sp + 1) = Some res \<and> first_place (take len2 b2) (take len1 b1) res"
      if "take len2 (drop sp b1) \<noteq> take len2 b2"
      using less.prems that p sp assms(3) by (intro less.hyps) (auto simp: less_Suc_eq)
    have r: "rd b1 sp = Some (b1 ! sp)" "rd b2 0 = Some (b2 ! 0)" using sp assms by (auto simp: rd_def)
    have hd: "b1 ! sp = b2 ! 0" if "take len2 (drop sp b1) = take len2 b2"
      using that sp assms by (metis add.right_neutral nth_drop nth_take order.trans less_imp_le)
    show ?thesis
    proof (cases "take len2 (drop sp b1) = take len2 b2")
      case True
      then show ?thesis using \<open>int sp \<le> _\<close> r hd sp assms p less.prems
        by (subst MemMem_loop.simps) (simp add: first_place_def)
    next
      case False
      then show ?thesis using \<open>int sp \<le> _\<close> r sp assms nx by (subst MemMem_loop.simps) simp
    qed
  qed
qed

subsection \<open>Decimals\<close>

lemma MemBCDCheck_loop_ends:
  "i + n = len \<Longrightarrow> len < 65536 \<Longrightarrow> len \<le> length src \<Longrightarrow>
   MemBCDCheck_loop src i len = Some (list_all CheckBCD (take n (drop i src)))"
proof (induction n arbitrary: i)
  case 0
  then show ?case by (subst MemBCDCheck_loop.simps) simp
next
  case (Suc n)
  have "take (Suc n) (drop i src) = src ! i # take n (drop (Suc i) src)" using Suc.prems by (simp add: Cons_nth_drop_Suc [symmetric])
  then show ?case using Suc by (subst MemBCDCheck_loop.simps) (simp add: rd_in)
qed

lemma MemBCDCheck_loop_endless:
  assumes "MemBCDCheck_loop src i len = Some y"
  shows "65536 \<le> len \<longrightarrow> list_all CheckBCD (take 65536 src) \<longrightarrow> \<not> i < 65536"
proof (rule MemBCDCheck_loop.raw_induct [OF _ assms, where P = "\<lambda>src i len y. 65536 \<le> len \<longrightarrow> list_all CheckBCD (take 65536 src) \<longrightarrow> \<not> i < 65536"], intro impI notI)
  fix loop :: "u8 list \<Rightarrow> nat \<Rightarrow> nat \<Rightarrow> bool option" and src i len y
  assume IH: "\<And>src i len y. loop src i len = Some y \<Longrightarrow> 65536 \<le> len \<longrightarrow> list_all CheckBCD (take 65536 src) \<longrightarrow> \<not> i < 65536"
    and st: "(if i < len then do {
        b \<leftarrow> rd src i;
        if \<not> CheckBCD b then Some False else loop src ((i + 1) mod 65536) len }
      else Some True) = Some y"
    and a: "65536 \<le> len" "list_all CheckBCD (take 65536 src)" "i < 65536"
  have "CheckBCD (src ! i)" if "i < length src"
    using a(2,3) that by (auto simp: list_all_length)
  then have "loop src ((i + 1) mod 65536) len = Some y"
    using st a(1,3) by (cases "i < length src") (auto simp: rd_def)
  from IH [OF this] a(1,2) show False by simp
qed

subsection \<open>Locked areas\<close>

definition conflict :: "MutexType \<Rightarrow> nat \<Rightarrow> nat \<Rightarrow> bool" where
  "conflict m addr len \<longleftrightarrow> Valid m \<and> Obj_Data m < u32_add addr len \<and> addr < u32_add (Obj_Data m) (Obj_Len m)"

definition disjoint_pool :: "MutexType list \<Rightarrow> bool" where
  "disjoint_pool pool \<longleftrightarrow> (\<forall>i < List.length pool. \<forall>j < List.length pool. i \<noteq> j \<longrightarrow> Valid (pool ! j) \<longrightarrow>
     \<not> conflict (pool ! i) (Obj_Data (pool ! j)) (Obj_Len (pool ! j)))"

lemma search_from_finds:
  "case search_from i pool addr len of
     None \<Rightarrow> \<forall>m \<in> set pool. \<not> conflict m addr len
   | Some k \<Rightarrow> i \<le> k \<and> k - i < length pool \<and> conflict (pool ! (k - i)) addr len \<and> (\<forall>j < k - i. \<not> conflict (pool ! j) addr len)"
proof (induction pool arbitrary: i)
  case (Cons m pool)
  show ?case
  proof (cases "conflict m addr len")
    case True
    then show ?thesis by (simp add: conflict_def)
  next
    case False
    then have s: "search_from i (m # pool) addr len = search_from (i + 1) pool addr len" by (auto simp: conflict_def)
    show ?thesis
    proof (cases "search_from (i + 1) pool addr len")
      case None
      then show ?thesis using s Cons.IH [where i = "i + 1"] False by simp
    next
      case (Some k)
      then have k: "i + 1 \<le> k" "k - (i + 1) < length pool" "conflict (pool ! (k - (i + 1))) addr len"
        "\<forall>j < k - (i + 1). \<not> conflict (pool ! j) addr len" using Cons.IH [where i = "i + 1"] by auto
      have "k - i = Suc (k - (i + 1))" using k(1) by simp
      moreover have "\<not> conflict ((m # pool) ! j) addr len" if "j < k - i" for j
        using that k False by (cases j) auto
      ultimately show ?thesis using s Some k by auto
    qed
  qed
qed simp

lemma MutexSearch_None:
  assumes "MutexSearch pool i addr len = None" "i \<le> j" "j < length pool"
  shows "\<not> conflict (pool ! j) addr len"
proof -
  have n: "\<forall>m \<in> set (drop i pool). \<not> conflict m addr len"
    using search_from_finds [where i = i and pool = "drop i pool" and addr = addr and len = len] assms(1)
    by (simp add: MutexSearch_def)
  have "drop i pool ! (j - i) \<in> set (drop i pool)" by (rule nth_mem) (use assms in simp)
  then show ?thesis using n assms(2,3) by simp
qed

lemma MutexSearch_Some:
  assumes "MutexSearch pool i addr len = Some k"
  shows "i \<le> k" "k < length pool" "conflict (pool ! k) addr len" "i \<le> j \<Longrightarrow> j < k \<Longrightarrow> \<not> conflict (pool ! j) addr len"
proof -
  have s: "i \<le> k" "k - i < length (drop i pool)" "conflict (drop i pool ! (k - i)) addr len"
    "\<forall>j < k - i. \<not> conflict (drop i pool ! j) addr len"
    using search_from_finds [where i = i and pool = "drop i pool" and addr = addr and len = len] assms by (simp_all add: MutexSearch_def)
  show "i \<le> k" "k < length pool" "conflict (pool ! k) addr len" using s by simp_all
  show "\<not> conflict (pool ! j) addr len" if "i \<le> j" "j < k"
    using s(4)[rule_format, of "j - i"] s(2) that by simp
qed

lemma MutexSearch_again: "MutexSearch pool i addr len = Some k \<Longrightarrow> MutexSearch pool k addr len = Some k"
proof -
  assume a: "MutexSearch pool i addr len = Some k"
  have "drop k pool = pool ! k # drop (Suc k) pool" using MutexSearch_Some(2) [OF a] by (simp add: Cons_nth_drop_Suc)
  then show ?thesis using MutexSearch_Some(3) [OF a] by (simp add: MutexSearch_def conflict_def)
qed

text \<open>While the caller's function runs, areas are released only.\<close>

definition releases :: "MutexType list \<Rightarrow> MutexType list \<Rightarrow> bool" where
  "releases p q \<longleftrightarrow> length q = length p \<and> (\<forall>j < length p. q ! j = p ! j \<or> \<not> Valid (q ! j))"

lemma releases_keep:
  assumes "releases p q"
  shows "j < length p \<Longrightarrow> \<not> conflict (p ! j) addr len \<Longrightarrow> \<not> conflict (q ! j) addr len" "disjoint_pool p \<Longrightarrow> disjoint_pool q"
proof -
  show "j < length p \<Longrightarrow> \<not> conflict (p ! j) addr len \<Longrightarrow> \<not> conflict (q ! j) addr len"
    using assms unfolding releases_def conflict_def by metis
  show "disjoint_pool p \<Longrightarrow> disjoint_pool q"
    using assms unfolding releases_def disjoint_pool_def conflict_def by metis
qed

text \<open>What holds of the slot at which the search stands and of the pool, and is kept by a turn of the loop, holds at its end.\<close>

lemma mutex_wait_invariant:
  assumes "mutex_wait func addr len en pool i timeout = Some (ok, pool')" "R i pool"
    and keep: "\<And>i p k. R i p \<Longrightarrow> MutexSearch p i addr len = Some k \<Longrightarrow> R k (func p)"
  shows "\<exists>k. R k pool' \<and> (ok \<longrightarrow> MutexSearch pool' k addr len = None)"
proof -
  define P where "P = (\<lambda>func' addr' len' (en :: bool) pool i (timeout :: nat) r.
    func' = func \<longrightarrow> addr' = addr \<longrightarrow> len' = len \<longrightarrow> R i pool \<longrightarrow>
    (\<exists>k. R k (snd r) \<and> (fst r \<longrightarrow> MutexSearch (snd r) k addr len = None)))"
  have "P func addr len en pool i timeout (ok, pool')"
  proof (rule mutex_wait.raw_induct [OF _ assms(1), where P = P])
    fix loop func' addr' len' en pool i timeout r
    assume IH: "\<And>func addr len en pool i timeout r. loop func addr len en pool i timeout = Some r \<Longrightarrow> P func addr len en pool i timeout r"
      and st: "(case MutexSearch pool i addr' len' of
        None \<Rightarrow> Some (True, pool)
      | Some i \<Rightarrow>
          if en \<and> timeout = 0 then Some (False, pool)
          else loop func' addr' len' en (func' pool) i (if en then timeout - 1 else timeout)) = Some r"
    show "P func' addr' len' en pool i timeout r"
      unfolding P_def
    proof (intro impI)
      assume e: "func' = func" "addr' = addr" "len' = len" and r: "R i pool"
      show "\<exists>k. R k (snd r) \<and> (fst r \<longrightarrow> MutexSearch (snd r) k addr len = None)"
      proof (cases "MutexSearch pool i addr len")
        case None
        then show ?thesis using st r e by auto
      next
        case (Some k)
        show ?thesis
        proof (cases "en \<and> timeout = 0")
          case True
          then show ?thesis using st Some r e by auto
        next
          case False
          then have "loop func addr len en (func pool) k (if en then timeout - 1 else timeout) = Some r"
            using st Some e by (simp split: if_splits)
          from IH [OF this] show ?thesis using keep [OF r Some] unfolding P_def by blast
        qed
      qed
    qed
  qed
  then show ?thesis using assms(2) unfolding P_def by simp
qed

text \<open>While the caller's function runs, nobody is granted the slot \<open>j\<close>: it stays as it is or is released.\<close>

definition not_granted :: "(MutexType list \<Rightarrow> MutexType list) \<Rightarrow> nat \<Rightarrow> bool" where
  "not_granted func j \<longleftrightarrow> (\<forall>p. j < length p \<longrightarrow> func p ! j = p ! j \<or> \<not> Valid (func p ! j))"

lemma mutex_wait_slot:
  assumes "mutex_wait func addr len en pool 0 timeout = Some (True, pool')" "\<And>p. length (func p) = length p" "not_granted func j"
    "j < length pool"
  shows "\<not> conflict (pool' ! j) addr len \<and> length pool' = length pool"
proof -
  let ?R = "\<lambda>k p. length p = length pool \<and> (j < k \<longrightarrow> \<not> conflict (p ! j) addr len)"
  have "\<exists>k. ?R k pool' \<and> (True \<longrightarrow> MutexSearch pool' k addr len = None)"
  proof (rule mutex_wait_invariant [OF assms(1), where R = ?R])
    fix i p k
    assume R: "?R i p" and s: "MutexSearch p i addr len = Some k"
    have "\<not> conflict (p ! j) addr len" if "j < k" using MutexSearch_Some(4) [OF s, of j] R that by (cases "j < i") auto
    moreover have "func p ! j = p ! j \<or> \<not> Valid (func p ! j)" using assms(3,4) R by (simp add: not_granted_def)
    ultimately show "?R k (func p)" using R assms(2) by (auto simp: conflict_def)
  qed simp
  then obtain k where k: "?R k pool'" "MutexSearch pool' k addr len = None" by blast
  then show ?thesis using MutexSearch_None [OF k(2), of j] assms(4) by (cases "j < k") auto
qed

text \<open>Nobody changes the slot \<open>j\<close>.\<close>

definition untouched :: "(MutexType list \<Rightarrow> MutexType list) \<Rightarrow> nat \<Rightarrow> bool" where
  "untouched func j \<longleftrightarrow> (\<forall>p. j < length p \<longrightarrow> func p ! j = p ! j)"

lemma mutex_wait_untouched:
  assumes "mutex_wait func addr len en pool i timeout = Some (ok, pool')" "\<And>p. length (func p) = length p" "untouched func j"
    "j < length pool"
  shows "pool' ! j = pool ! j"
  using mutex_wait_invariant [OF assms(1), where R = "\<lambda>k p. length p = length pool \<and> p ! j = pool ! j"] assms(2-4)
  by (auto simp: untouched_def)

lemma mutex_wait_disjoint:
  assumes "mutex_wait func addr len en pool i timeout = Some (ok, pool')" "\<And>p. releases p (func p)" "disjoint_pool pool"
  shows "disjoint_pool pool'"
  using mutex_wait_invariant [OF assms(1), where R = "\<lambda>k p. disjoint_pool p"] releases_keep [OF assms(2)] assms(3) by blast

lemma releases_not_granted: "(\<And>p. releases p (func p)) \<Longrightarrow> length (func p) = length p \<and> not_granted func j"
  by (simp add: releases_def not_granted_def)

lemma mutex_wait_at_once: "MutexSearch pool i addr len = None \<Longrightarrow> mutex_wait func addr len en pool i timeout = Some (True, pool)"
  by (subst mutex_wait.simps) simp

lemma take_slot_takes:
  "take_slot pool addr len = (ok, pool') \<Longrightarrow>
     if ok then \<exists>k < length pool. \<not> Valid (pool ! k) \<and> pool' = pool[k := (pool ! k)\<lparr>Obj_Data := addr, Obj_Len := len, Valid := True\<rparr>] else pool' = pool"
proof (induction pool arbitrary: pool')
  case (Cons m pool)
  show ?case
  proof (cases "Valid m")
    case True
    obtain q where q: "take_slot pool addr len = (ok, q)" "pool' = m # q"
      using Cons.prems True by (auto split: prod.splits)
    show ?thesis
    proof (cases ok)
      case True
      then obtain k where "k < length pool" "\<not> Valid (pool ! k)" "q = pool[k := (pool ! k)\<lparr>Obj_Data := addr, Obj_Len := len, Valid := True\<rparr>]"
        using Cons.IH [OF q(1)] by auto
      then show ?thesis using True q(2) by (auto intro!: exI [of _ "Suc k"])
    qed (use Cons.IH [OF q(1)] q(2) in simp)
  next
    case False
    then show ?thesis using Cons.prems by (auto intro!: exI [of _ 0])
  qed
qed simp

lemma conflict_sym:
  "Valid m \<Longrightarrow> \<not> conflict n (Obj_Data m) (Obj_Len m) \<Longrightarrow> Valid n \<Longrightarrow> \<not> conflict m (Obj_Data n) (Obj_Len n)"
  by (auto simp: conflict_def)

lemma MutexApply_grants:
  assumes "MutexApply func pool addr len timeout = Some (True, pool')" "\<And>p. length (func p) = length p"
  shows "\<exists>q k. mutex_wait func addr len (timeout \<noteq> 0) pool 0 timeout = Some (True, q) \<and> k < length q \<and> \<not> Valid (q ! k) \<and>
    pool' = q[k := \<lparr>Obj_Data = addr, Obj_Len = len, Valid = True\<rparr>]"
proof -
  obtain free q where w: "mutex_wait func addr len (timeout \<noteq> 0) pool 0 timeout = Some (free, q)"
    using assms(1) by (auto simp: MutexApply_def split: bind_splits)
  then have r: "(if free then take_slot q addr len else (False, q)) = (True, pool')" using assms(1) by (simp add: MutexApply_def)
  then have f: "free" by (cases free) auto
  then obtain k where k: "k < length q" "\<not> Valid (q ! k)" "pool' = q[k := (q ! k)\<lparr>Obj_Data := addr, Obj_Len := len, Valid := True\<rparr>]"
    using r take_slot_takes [of q addr len True pool'] by auto
  moreover have "(q ! k)\<lparr>Obj_Data := addr, Obj_Len := len, Valid := True\<rparr> = \<lparr>Obj_Data = addr, Obj_Len = len, Valid = True\<rparr>"
    by (cases "q ! k") simp
  ultimately show ?thesis using w f by auto
qed

lemma MutexApply_refuses:
  assumes "MutexApply func pool addr len timeout = Some (False, pool')"
  shows "\<exists>free. mutex_wait func addr len (timeout \<noteq> 0) pool 0 timeout = Some (free, pool')"
proof -
  obtain free q where w: "mutex_wait func addr len (timeout \<noteq> 0) pool 0 timeout = Some (free, q)"
    using assms by (auto simp: MutexApply_def split: bind_splits)
  then have "(if free then take_slot q addr len else (False, q)) = (False, pool')" using assms by (simp add: MutexApply_def)
  then show ?thesis using w take_slot_takes [of q addr len False pool'] by (cases free) auto
qed

lemma disjoint_pool_insert:
  assumes "disjoint_pool q" "k < length q" "\<And>j. j < length q \<Longrightarrow> \<not> conflict (q ! j) addr len"
  shows "disjoint_pool (q[k := \<lparr>Obj_Data = addr, Obj_Len = len, Valid = True\<rparr>])"
  unfolding disjoint_pool_def
proof (intro allI impI)
  let ?m = "\<lparr>Obj_Data = addr, Obj_Len = len, Valid = True\<rparr>" and ?q = "q[k := \<lparr>Obj_Data = addr, Obj_Len = len, Valid = True\<rparr>]"
  fix i j assume ij: "i < length ?q" "j < length ?q" "i \<noteq> j" "Valid (?q ! j)"
  consider (new) "i = k" | (taken) "j = k" "i \<noteq> k" | (old) "i \<noteq> k" "j \<noteq> k" by blast
  then show "\<not> conflict (?q ! i) (Obj_Data (?q ! j)) (Obj_Len (?q ! j))"
  proof cases
    case new
    then have "?q ! j = q ! j" "?q ! i = ?m" using ij assms(2) by simp_all
    then show ?thesis using assms(3) [of j] ij by (auto simp: conflict_def)
  next
    case taken
    then show ?thesis using assms(2) assms(3) [of i] ij by simp
  next
    case old
    then show ?thesis using ij assms(1) by (simp add: disjoint_pool_def)
  qed
qed

lemma mutex_wait_endless:
  assumes "mutex_wait func addr len en pool i timeout = Some r"
  shows "\<not> en \<longrightarrow> func = (\<lambda>p. p) \<longrightarrow> MutexSearch pool i addr len = None"
proof -
  define P where "P = (\<lambda>(func :: MutexType list \<Rightarrow> MutexType list) addr len en pool i (timeout :: nat) (r :: bool \<times> MutexType list).
    \<not> en \<longrightarrow> func = (\<lambda>p. p) \<longrightarrow> MutexSearch pool i addr len = None)"
  have "P func addr len en pool i timeout r"
  proof (rule mutex_wait.raw_induct [OF _ assms, where P = P])
    fix loop func addr len en pool i timeout r
    assume IH: "\<And>func addr len en pool i timeout r. loop func addr len en pool i timeout = Some r \<Longrightarrow> P func addr len en pool i timeout r"
      and st: "(case MutexSearch pool i addr len of
        None \<Rightarrow> Some (True, pool)
      | Some i \<Rightarrow>
          if en \<and> timeout = 0 then Some (False, pool)
          else loop func addr len en (func pool) i (if en then timeout - 1 else timeout)) = Some r"
    show "P func addr len en pool i timeout r"
      unfolding P_def
    proof (intro impI, rule ccontr)
      assume a: "\<not> en" "func = (\<lambda>p. p)" "MutexSearch pool i addr len \<noteq> None"
      then obtain k where k: "MutexSearch pool i addr len = Some k" by blast
      have "loop func addr len en pool k timeout = Some r" using st a(1,2) k by simp
      from IH [OF this] show False unfolding P_def using a(1,2) MutexSearch_again [OF k] by simp
    qed
  qed
  then show ?thesis unfolding P_def .
qed

lemma mutex_wait_tries:
  "MutexSearch pool i addr len = Some k \<Longrightarrow> mutex_wait (\<lambda>p. p) addr len True pool i timeout = Some (False, pool)"
proof (induction timeout arbitrary: i)
  case 0
  then show ?case by (subst mutex_wait.simps) simp
next
  case (Suc n)
  then show ?case using MutexSearch_again by (subst mutex_wait.simps) simp
qed



text \<open>Fact. The search goes on from the slot at which it met a conflict and never looks at lower slots again: when, during the wait,
  the holder releases its area and another caller locks the same area in a lower slot, both get it.\<close>

theorem mutex_lower_slot_missed:
  "let free = \<lparr>Obj_Data = 0, Obj_Len = 0, Valid = False\<rparr>; held = \<lparr>Obj_Data = 0x20000000, Obj_Len = 16, Valid = True\<rparr>;
       func = (\<lambda>_. [held, free])
   in disjoint_pool [free, held] \<and> disjoint_pool (func [free, held]) \<and>
     MutexApply func [free, held] 0x20000000 16 0 = Some (True, [held, held]) \<and> \<not> disjoint_pool [held, held]"
proof -
  let ?free = "\<lparr>Obj_Data = 0, Obj_Len = 0, Valid = False\<rparr>" and ?held = "\<lparr>Obj_Data = 0x20000000, Obj_Len = 16, Valid = True\<rparr>"
  have two: "(\<forall>i < Suc (Suc 0). P i) \<longleftrightarrow> P 0 \<and> P 1" for P using less_2_cases numeral_2_eq_2 by (auto simp: less_Suc_eq)
  have u: "u32_add 0x20000000 16 = 0x20000010" by (simp add: u32_add_def)
  have c: "conflict ?held 0x20000000 16" by (simp add: conflict_def u)
  have f: "\<not> conflict ?free a l" for a l by (simp add: conflict_def)
  have s: "MutexSearch [?free, ?held] 0 0x20000000 16 = Some 1" "MutexSearch [?held, ?free] 1 0x20000000 16 = None"
    by (simp_all add: MutexSearch_def u)
  have "MutexApply (\<lambda>_. [?held, ?free]) [?free, ?held] 0x20000000 16 0 = Some (True, [?held, ?held])"
    unfolding MutexApply_def by (subst mutex_wait.simps, simp add: s) (subst mutex_wait.simps, simp add: s [simplified])
  moreover have "disjoint_pool [?free, ?held]" "disjoint_pool [?held, ?free]" "\<not> disjoint_pool [?held, ?held]"
    using c by (simp_all add: disjoint_pool_def two f)
  ultimately show ?thesis by (simp add: Let_def)
qed

text \<open>Fact. Waiting for an area that stays locked ends after the given number of tries without changing the pool, and never when that number
  is 0.\<close>

theorem mutex_wait_ends:
  assumes "MutexSearch pool 0 addr len = Some k"
  shows "MutexApply (\<lambda>p. p) pool addr len timeout = (if timeout = 0 then None else Some (False, pool))"
proof (cases "timeout = 0")
  case True
  have "mutex_wait (\<lambda>p. p) addr len False pool 0 timeout = None"
    using mutex_wait_endless [of "\<lambda>p. p" addr len False pool 0 timeout] assms
    by (cases "mutex_wait (\<lambda>p. p) addr len False pool 0 timeout") auto
  then show ?thesis using True by (simp add: MutexApply_def)
next
  case False
  then show ?thesis using mutex_wait_tries [OF assms, of timeout] by (simp add: MutexApply_def)
qed

theorem mutex_wait_ends_witness:
  "MutexApply (\<lambda>p. p) [\<lparr>Obj_Data = 100, Obj_Len = 8, Valid = True\<rparr>] 104 8 0 = None"
proof -
  have "MutexSearch [\<lparr>Obj_Data = 100, Obj_Len = 8, Valid = True\<rparr>] 0 104 8 = Some 0" by (simp add: MutexSearch_def u32_add_def)
  from mutex_wait_ends [OF this, of 0] show ?thesis by simp
qed

text \<open>Fact. A line survives the ring: what \<open>MemLineToCycle\<close> writes into a ring that is longer than the line, wherever it starts,
  \<open>MemCycleToLine\<close> reads back from the start to the pointer answered, and \<open>MemCycleSubToLine\<close> reads as much of it as is requested.\<close>

theorem ring_line_roundtrip:
  assumes "start < n" "length ring = n" "len < n" "len \<le> length src" "n < 2147483648" "len \<le> length dst"
  shows "\<exists>ring' end_pos. MemLineToCycle ring n start src len = Some (ring', end_pos) \<and>
    MemCycleToLine dst ring' start end_pos n = Some (len, take len src @ drop len dst) \<and>
    MemCycleSubToLine dst ring' start end_pos n request = Some (min request len, take (min request len) src @ drop (min request len) dst)"
proof -
  obtain ring' end_pos where r: "MemLineToCycle ring n start src len = Some (ring', end_pos)"
    using line_to_cycle [of start n ring len src] assms by (cases "len \<le> n - start") auto
  then show ?thesis using cycle_to_line [OF assms r] by blast
qed

theorem ring_line_roundtrip_witness:
  "\<exists>ring' end_pos. MemLineToCycle [0, 0, 0, 0] 4 3 [1, 2, 3] 3 = Some (ring', end_pos) \<and>
    MemCycleToLine [9, 9, 9] ring' 3 end_pos 4 = Some (3, [1, 2, 3]) \<and>
    MemCycleSubToLine [9, 9, 9] ring' 3 end_pos 4 2 = Some (2, [1, 2, 9])"
  using ring_line_roundtrip [of 3 4 "[0, 0, 0, 0]" 3 "[1, 2, 3]" "[9, 9, 9]" 2] by simp

text \<open>Fact. The five functions that combine two areas are off by one: they take and store the bytes 1 to \<open>len\<close> instead of
  0 to \<open>len - 1\<close>, so that the first byte is left alone and an area of exactly \<open>len\<close> bytes is overrun.\<close>

theorem mem_pairs_off_by_one:
  assumes "(F, f) \<in> {(MemAddMem, (+)), (MemSubMem, (-)), (MemAndMem, (AND)), (MemOrMem, (OR)), (MemXorMem, (XOR))}" "0 < len"
  shows "(len < length dst \<and> len < length src1 \<and> len < length src2 \<longrightarrow> F dst src1 src2 len =
      Some (take 1 dst @ map2 f (take len (drop 1 src1)) (take len (drop 1 src2)) @ drop (Suc len) dst)) \<and>
    (length dst \<le> len \<longrightarrow> F dst src1 src2 len = None)"
  using assms mem_mem_shifted [of len dst src1 src2 f] mem_mem_overrun [of len dst f src1 src2]
  by (auto simp: MemAddMem_def MemSubMem_def MemAndMem_def MemOrMem_def MemXorMem_def)

theorem mem_pairs_off_by_one_witness:
  "MemAddMem [7, 7] [1, 2] [3, 4] 1 = Some [7, 6] \<and> MemAddMem [7] [1] [3] 1 = None"
  using mem_pairs_off_by_one [of MemAddMem "(+)" 1 "[7, 7]" "[1, 2]" "[3, 4]"] mem_pairs_off_by_one [of MemAddMem "(+)" 1 "[7]" "[1]" "[3]"]
  by simp

text \<open>Fact. \<open>MemMem\<close> finds the first occurrence of the pattern in the area.\<close>

theorem memmem_finds_first:
  assumes "len1 \<le> length b1" "len2 \<le> length b2" "0 < len1" "0 < len2"
  shows "\<exists>res. MemMem (Some b1) len1 (Some b2) len2 = Some res \<and> first_place (take len2 b2) (take len1 b1) res"
  using MemMem_loop_first [OF assms(1,2,4), of 0] assms(3,4) by (simp add: MemMem_def)

text \<open>Fact. \<open>MemBCDCheck\<close> ends for areas below 64 kilobytes and tells whether all their bytes are decimals; its counter has 16 bits,
  so that it never ends for a longer area that starts with 64 kilobytes of decimals.\<close>

theorem bcd_check_endless:
  assumes "len \<le> length src"
  shows "(len < 65536 \<longrightarrow> MemBCDCheck src len = Some (list_all CheckBCD (take len src))) \<and>
    (65536 \<le> len \<and> list_all CheckBCD (take 65536 src) \<longrightarrow> MemBCDCheck src len = None)"
  using MemBCDCheck_loop_ends [of 0 len len src] MemBCDCheck_loop_endless [of src 0 len] assms
  by (cases "MemBCDCheck_loop src 0 len") (auto simp: MemBCDCheck_def)

theorem bcd_check_endless_witness:
  "MemBCDCheck [0x99, 0x9A] 2 = Some False \<and> MemBCDCheck (replicate 65536 0x42) 65536 = None"
proof -
  have "MemBCDCheck [0x99, 0x9A] 2 = Some (list_all CheckBCD (take 2 [0x99, 0x9A]))"
    using bcd_check_endless [of 2 "[0x99, 0x9A]"] by simp
  moreover have "list_all CheckBCD (take 2 [0x99, 0x9A]) = False" by code_simp
  moreover have "CheckBCD 0x42" by code_simp
  then have "MemBCDCheck (replicate 65536 0x42) 65536 = None"
    using bcd_check_endless [of 65536 "replicate 65536 0x42"] by (simp add: list_all_iff)
  ultimately show ?thesis by simp
qed

text \<open>Fact. \<open>MemShiftR\<close> reads the byte behind its area when the shift is a multiple of the length.\<close>

theorem shift_overread:
  assumes "length src = n" "0 < n" "n < U32_RANGE" "0 < k"
  shows "MemShiftR (Some src) n (k * n) = None"
  using MemShiftR_whole_turn [of 0 n n src "src ! 0"] assms by (simp add: MemShiftR_def rd_in)

end
