(* ===== verification/TimeBcd.thy ===== *)
theory TimeBcd imports TimeDiff
begin

text \<open>
  The binary coded half of \<open>common_lib/usdl_time.c\<close>: every \<open>TimeBCD\<close> function decodes the six bytes of
  its time in place, calls the decimal function and codes the result again; \<open>TimeBCDFix\<close> repairs a coded
  time by itself.  Bytes are natural numbers as in \<open>TimeLib\<close>.

  \<open>coded\<close> is the coding of a decimal time.  The locale \<open>calendar_step\<close> is what the operations rely on:
  a decimal operation that keeps times valid.  It is interpreted for all twelve; on coded times the
  operations then do what the decimal ones do.
\<close>

subsection \<open>Nibbles and digits\<close>

definition low4 :: "nat \<Rightarrow> nat" where "low4 v = v mod 16"
definition high4 :: "nat \<Rightarrow> nat" where "high4 v = (v div 16) mod 16"
definition set_low4 :: "nat \<Rightarrow> nat \<Rightarrow> nat" where "set_low4 v h = high4 v * 16 + low4 h"
definition set_high4 :: "nat \<Rightarrow> nat \<Rightarrow> nat" where "set_high4 v h = low4 v + (h * 16) mod 256"

definition is_bcd :: "nat \<Rightarrow> bool" where
  "is_bcd b \<longleftrightarrow> high4 b < 10 \<and> low4 b < 10"

definition bcd_to_dec :: "nat \<Rightarrow> nat" where
  "bcd_to_dec b = (high4 b * 10 + low4 b) mod 256"

definition dec_to_bcd :: "nat \<Rightarrow> nat" where
  "dec_to_bcd d = (let quotient = (d div 10) mod 10 in (quotient * 16 + d - 10 * quotient) mod 256)"

text \<open>\<open>GetDECToBCDU8\<close>: the loop of \<open>DECToBCD\<close> over a destination of one byte, which is left after one turn.\<close>

definition GetDECToBCDU8 :: "nat \<Rightarrow> nat" where
  "GetDECToBCDU8 dec = (if 0 < dec then (let l = dec mod 10; h = (dec div 10) mod 10 in h * 16 + l) else 0)"

text \<open>\<open>BCDFix\<close>: \<open>None\<close> is the answer \<open>FALSE\<close>, with which the byte stays as it is.\<close>

definition BCDFix :: "nat \<Rightarrow> nat option" where
  "BCDFix b =
     (if is_bcd b then None
      else if 0x99 < b then Some 0
      else if 9 < low4 b then (let b = set_low4 b 0 in Some (set_high4 b (high4 b + 1)))
      else None)"

subsection \<open>Coding a time\<close>

definition map_bytes :: "(nat \<Rightarrow> nat) \<Rightarrow> TIME \<Rightarrow> TIME" where
  "map_bytes f t = \<lparr>Year = f (Year t), Month = f (Month t), Day = f (Day t), Hour = f (Hour t), Minute = f (Minute t), Second = f (Second t)\<rparr>"

definition TimeBCDToDEC :: "TIME \<Rightarrow> (bool \<times> TIME) option" where
  "TimeBCDToDEC t =
     (if \<not> list_all is_bcd (time_bytes t) then Some (False, t)
      else do {
        let t = map_bytes bcd_to_dec t;
        ok \<leftarrow> TimeDECCheck t;
        Some (ok, t) })"

definition TimeDECToBCD :: "TIME \<Rightarrow> (bool \<times> TIME) option" where
  "TimeDECToBCD t =
     (if \<not> list_all (\<lambda>d. d \<le> 99) (time_bytes t) then Some (False, t)
      else do {
        ok \<leftarrow> TimeDECCheck t;
        if \<not> ok then Some (False, t) else Some (True, map_bytes dec_to_bcd t) })"

text \<open>The body that the twelve operations share.\<close>

definition in_bcd :: "(TIME \<Rightarrow> nat \<Rightarrow> (bool \<times> TIME) option) \<Rightarrow> TIME \<Rightarrow> nat \<Rightarrow> (bool \<times> TIME) option" where
  "in_bcd operation t value = do {
     (ok, t) \<leftarrow> TimeBCDToDEC t;
     if \<not> ok then Some (False, t)
     else do {
       (ok, t) \<leftarrow> operation t value;
       if \<not> ok then Some (False, t) else TimeDECToBCD t } }"

definition TimeBCDAddYear :: "TIME \<Rightarrow> nat \<Rightarrow> (bool \<times> TIME) option" where "TimeBCDAddYear = in_bcd TimeDECAddYear"
definition TimeBCDAddMonth :: "TIME \<Rightarrow> nat \<Rightarrow> (bool \<times> TIME) option" where "TimeBCDAddMonth = in_bcd TimeDECAddMonth"
definition TimeBCDAddDay :: "TIME \<Rightarrow> nat \<Rightarrow> (bool \<times> TIME) option" where "TimeBCDAddDay = in_bcd TimeDECAddDay"
definition TimeBCDAddHour :: "TIME \<Rightarrow> nat \<Rightarrow> (bool \<times> TIME) option" where "TimeBCDAddHour = in_bcd TimeDECAddHour"
definition TimeBCDAddMinute :: "TIME \<Rightarrow> nat \<Rightarrow> (bool \<times> TIME) option" where "TimeBCDAddMinute = in_bcd TimeDECAddMinute"
definition TimeBCDAddSecond :: "TIME \<Rightarrow> nat \<Rightarrow> (bool \<times> TIME) option" where "TimeBCDAddSecond = in_bcd TimeDECAddSecond"
definition TimeBCDSubYear :: "TIME \<Rightarrow> nat \<Rightarrow> (bool \<times> TIME) option" where "TimeBCDSubYear = in_bcd TimeDECSubYear"
definition TimeBCDSubMonth :: "TIME \<Rightarrow> nat \<Rightarrow> (bool \<times> TIME) option" where "TimeBCDSubMonth = in_bcd TimeDECSubMonth"
definition TimeBCDSubDay :: "TIME \<Rightarrow> nat \<Rightarrow> (bool \<times> TIME) option" where "TimeBCDSubDay = in_bcd TimeDECSubDay"
definition TimeBCDSubHour :: "TIME \<Rightarrow> nat \<Rightarrow> (bool \<times> TIME) option" where "TimeBCDSubHour = in_bcd TimeDECSubHour"
definition TimeBCDSubMinute :: "TIME \<Rightarrow> nat \<Rightarrow> (bool \<times> TIME) option" where "TimeBCDSubMinute = in_bcd TimeDECSubMinute"
definition TimeBCDSubSecond :: "TIME \<Rightarrow> nat \<Rightarrow> (bool \<times> TIME) option" where "TimeBCDSubSecond = in_bcd TimeDECSubSecond"

subsection \<open>Reading a coded time\<close>

definition TimeBCDSubTime :: "TIME \<Rightarrow> TIME \<Rightarrow> nat option" where
  "TimeBCDSubTime time1 time2 = do {
     (ok1, time1) \<leftarrow> TimeBCDToDEC time1;
     if \<not> ok1 then Some 0
     else do {
       (ok2, time2) \<leftarrow> TimeBCDToDEC time2;
       if \<not> ok2 then Some 0 else TimeDECSubTime time1 time2 } }"

definition TimeBCDMonthDays :: "TIME \<Rightarrow> nat option" where
  "TimeBCDMonthDays t = do {
     (ok, t) \<leftarrow> TimeBCDToDEC t;
     if \<not> ok then Some 0 else TimeMonthDays (Year t) (Month t) }"

definition TimeBCDWeekDay :: "TIME \<Rightarrow> nat option" where
  "TimeBCDWeekDay t = do {
     (ok, t) \<leftarrow> TimeBCDToDEC t;
     if \<not> ok then Some 7 else TimeDECWeekDay t }"

definition TimeBCDCheck :: "TIME \<Rightarrow> bool option" where
  "TimeBCDCheck t = map_option fst (TimeBCDToDEC t)"

definition TimeBCDToStamp :: "TIME \<Rightarrow> nat option" where
  "TimeBCDToStamp t = do {
     ok \<leftarrow> TimeBCDCheck t;
     if \<not> ok then Some 0 else do { d \<leftarrow> TimeBCDSubTime t INIT_TIME; Some (u32_add d 1) } }"

definition TimeBCDStampToTime :: "nat \<Rightarrow> TIME option" where
  "TimeBCDStampToTime stamp =
     (if stamp \<noteq> 0 then do { (_, t) \<leftarrow> TimeBCDAddSecond INIT_TIME (stamp - 1); Some t } else Some INIT_TIME)"

subsection \<open>Repairing a coded time\<close>

text \<open>One turn of the loop of \<open>TimeBCDFix\<close>: \<open>Some None\<close> leaves it, the byte is the bit set in the answer.\<close>

definition bcd_fix_step :: "TIME \<Rightarrow> (TIME \<times> u8) option option" where
  "bcd_fix_step t =
     (if 0x99 < Year t then Some (Some (t\<lparr>Year := 0x99\<rparr>, 0x20))
      else case BCDFix (Year t) of Some y \<Rightarrow> Some (Some (t\<lparr>Year := y\<rparr>, 0x20)) | None \<Rightarrow>
      if Month t = 0 then Some (Some (t\<lparr>Month := 1\<rparr>, 0x10))
      else if 0x12 < Month t then Some (Some (t\<lparr>Month := 0x12\<rparr>, 0x10))
      else case BCDFix (Month t) of Some m \<Rightarrow> Some (Some (t\<lparr>Month := m\<rparr>, 0x10)) | None \<Rightarrow>
      if Day t = 0 then Some (Some (t\<lparr>Day := 1\<rparr>, 0x08))
      else do {
        d \<leftarrow> TimeMonthDays (bcd_to_dec (Year t)) (bcd_to_dec (Month t));
        if d < bcd_to_dec (Day t) then Some (Some (t\<lparr>Day := GetDECToBCDU8 d\<rparr>, 0x08))
        else case BCDFix (Day t) of Some d \<Rightarrow> Some (Some (t\<lparr>Day := d\<rparr>, 0x08)) | None \<Rightarrow>
        if 0x24 \<le> Hour t then Some (Some (t\<lparr>Hour := 0x23\<rparr>, 0x04))
        else case BCDFix (Hour t) of Some h \<Rightarrow> Some (Some (t\<lparr>Hour := h\<rparr>, 0x04)) | None \<Rightarrow>
        if 0x60 \<le> Minute t then Some (Some (t\<lparr>Minute := 0x59\<rparr>, 0x02))
        else case BCDFix (Minute t) of Some m \<Rightarrow> Some (Some (t\<lparr>Minute := m\<rparr>, 0x02)) | None \<Rightarrow>
        if 0x60 \<le> Second t then Some (Some (t\<lparr>Second := 0x59\<rparr>, 0x01))
        else case BCDFix (Second t) of Some s \<Rightarrow> Some (Some (t\<lparr>Second := s\<rparr>, 0x01)) | None \<Rightarrow> Some None })"

text \<open>Every field is repaired at most twice; a change of year or month comes before the day is looked at.\<close>

definition faults :: "nat \<Rightarrow> nat \<Rightarrow> nat \<Rightarrow> nat" where
  "faults lo hi b = (if b < lo \<or> hi < b then 1 else if is_bcd b then 0 else 2)"

definition day_faults :: "TIME \<Rightarrow> nat" where
  "day_faults t = (if Day t = 0 \<or> month_days (bcd_to_dec (Year t)) (bcd_to_dec (Month t)) < bcd_to_dec (Day t) then 1
     else if is_bcd (Day t) then 0 else 2)"

definition bcd_fix_measure :: "TIME \<Rightarrow> nat" where
  "bcd_fix_measure t = 3 * faults 0 0x99 (Year t) + 3 * faults 1 0x12 (Month t) + day_faults t + faults 0 0x23 (Hour t) +
     faults 0 0x5F (Minute t) + faults 0 0x5F (Second t)"


lemma next_bcd:
  assumes "b \<le> 0x99" "\<not> is_bcd b"
  shows "b div 16 \<le> 8 \<and> 10 \<le> b mod 16"
proof -
  have h: "b div 16 \<le> 9" using div_le_mono [OF assms(1), of 16] by simp
  then have l: "10 \<le> b mod 16" using assms(2) by (simp add: is_bcd_def low4_def high4_def)
  have "b = 16 * (b div 16) + b mod 16" by simp
  then have "b div 16 \<noteq> 9" using l assms(1) by linarith
  then show ?thesis using h l by simp
qed

lemma BCDFix_eq: "BCDFix b = (if is_bcd b then None else Some (if 0x99 < b then 0 else (b div 16 + 1) * 16))"
  using next_bcd [of b] by (cases "is_bcd b"; cases "0x99 < b") (auto simp: BCDFix_def set_high4_def set_low4_def low4_def high4_def)

lemma BCDFix_is_bcd [simp]: "is_bcd b \<Longrightarrow> BCDFix b = None"
  by (simp add: BCDFix_def)

lemma BCDFix_None [simp]: "BCDFix b = None \<longleftrightarrow> is_bcd b"
  by (simp add: BCDFix_eq)

lemma BCDFix_bcd: "BCDFix b = Some c \<Longrightarrow> is_bcd c \<and> \<not> is_bcd b \<and> c < 256"
  using next_bcd [of b] by (auto simp: BCDFix_eq is_bcd_def low4_def high4_def split: if_splits)

lemma BCDFix_faults:
  assumes "BCDFix b = Some c" "b \<le> hi" "lo \<le> b"
  shows "hi \<le> 0x99 \<Longrightarrow> faults lo hi c < faults lo hi b"
  using BCDFix_bcd [OF assms(1)] assms(2,3) by (simp add: faults_def)

lemma bcd_to_dec_range: "is_bcd b \<Longrightarrow> bcd_to_dec b \<le> 99"
  by (simp add: is_bcd_def bcd_to_dec_def)

lemma bcd_month: "is_bcd m \<Longrightarrow> m \<noteq> 0 \<Longrightarrow> m \<le> 0x12 \<Longrightarrow> 1 \<le> bcd_to_dec m \<and> bcd_to_dec m \<le> 12"
proof -
  assume m: "is_bcd m" "m \<noteq> 0" "m \<le> 0x12"
  have "m div 16 \<le> 1" using div_le_mono [OF m(3), of 16] by simp
  moreover have "m = 16 * (m div 16) + m mod 16" by simp
  ultimately show ?thesis using m by (cases "m div 16") (auto simp: is_bcd_def bcd_to_dec_def low4_def high4_def)
qed

lemma month_days_in_bcd:
  "\<lbrakk>is_bcd y; is_bcd m; 0 < m; m \<le> 0x12\<rbrakk> \<Longrightarrow> TimeMonthDays (bcd_to_dec y) (bcd_to_dec m) = Some (month_days (bcd_to_dec y) (bcd_to_dec m))"
  using bcd_to_dec_range [of y] bcd_month [of m] by (intro TimeMonthDays_eq) simp_all

lemma last_day_coded:
  "is_bcd (GetDECToBCDU8 (month_days y m)) \<and> bcd_to_dec (GetDECToBCDU8 (month_days y m)) = month_days y m \<and>
   0 < GetDECToBCDU8 (month_days y m) \<and> GetDECToBCDU8 (month_days y m) < 256"
proof -
  have "month_days y m = 28 \<or> month_days y m = 29 \<or> month_days y m = 30 \<or> month_days y m = 31"
    using month_days_bounds [of y m] by arith
  then show ?thesis by (auto simp: GetDECToBCDU8_def is_bcd_def bcd_to_dec_def low4_def high4_def)
qed

lemma caps: "faults 0 0x99 0x99 = 0" "faults (Suc 0) 0x12 (Suc 0) = 0" "faults (Suc 0) 0x12 0x12 = 0" "faults 0 0x23 0x23 = 0" "faults 0 0x5F 0x59 = 0"
  by (simp_all add: faults_def is_bcd_def low4_def high4_def)

lemma step_cases:
  assumes "bcd_fix_step t = Some (Some (t', b))"
  obtains (Year) y where "t' = t\<lparr>Year := y\<rparr>" "b = 0x20" "0x99 < Year t \<and> y = 0x99 \<or> Year t \<le> 0x99 \<and> BCDFix (Year t) = Some y"
  | (Month) m where "t' = t\<lparr>Month := m\<rparr>" "b = 0x10" "Month t = 0 \<and> m = 1 \<or> 0x12 < Month t \<and> m = 0x12 \<or> 0 < Month t \<and> Month t \<le> 0x12 \<and> BCDFix (Month t) = Some m"
  | (Day) d where "t' = t\<lparr>Day := d\<rparr>" "b = 0x08" "day_faults (t\<lparr>Day := d\<rparr>) < day_faults t" "d < 256"
  | (Hour) h where "t' = t\<lparr>Hour := h\<rparr>" "b = 0x04" "0x23 < Hour t \<and> h = 0x23 \<or> Hour t \<le> 0x23 \<and> BCDFix (Hour t) = Some h"
  | (Minute) m where "t' = t\<lparr>Minute := m\<rparr>" "b = 0x02" "0x5F < Minute t \<and> m = 0x59 \<or> Minute t \<le> 0x5F \<and> BCDFix (Minute t) = Some m"
  | (Second) s where "t' = t\<lparr>Second := s\<rparr>" "b = 0x01" "0x5F < Second t \<and> s = 0x59 \<or> Second t \<le> 0x5F \<and> BCDFix (Second t) = Some s"
proof -
  have D0: "day_faults (t\<lparr>Day := Suc 0\<rparr>) < day_faults t" if "Day t = 0"
  proof -
    have "bcd_to_dec (Suc 0) = 1" "is_bcd (Suc 0)" by (simp_all add: is_bcd_def bcd_to_dec_def low4_def high4_def)
    then show ?thesis using that month_days_bounds(1) [of "bcd_to_dec (Year t)" "bcd_to_dec (Month t)"] by (simp add: day_faults_def)
  qed
  have D1: "day_faults (t\<lparr>Day := GetDECToBCDU8 d\<rparr>) < day_faults t \<and> GetDECToBCDU8 d < 256"
    if "d < bcd_to_dec (Day t)" "d = month_days (bcd_to_dec (Year t)) (bcd_to_dec (Month t))" for d
    using that last_day_coded [of "bcd_to_dec (Year t)" "bcd_to_dec (Month t)"] by (simp add: day_faults_def)
  have D2: "day_faults (t\<lparr>Day := x\<rparr>) < day_faults t \<and> x < 256" if "BCDFix (Day t) = Some x" "0 < Day t"
      "\<not> month_days (bcd_to_dec (Year t)) (bcd_to_dec (Month t)) < bcd_to_dec (Day t)" for x
    using that BCDFix_bcd [OF that(1)] by (simp add: day_faults_def)
  show thesis
  proof (cases "is_bcd (Year t) \<and> Year t \<le> 0x99 \<and> 0 < Month t \<and> Month t \<le> 0x12 \<and> is_bcd (Month t)")
    case False
    then show thesis using assms Year Month
      by (fastforce simp: bcd_fix_step_def split: if_splits option.splits)
  next
    case True
    then show thesis using assms month_days_in_bcd [of "Year t" "Month t"] D0 D1 D2
      by (auto simp: bcd_fix_step_def split: if_splits option.splits intro: Day Hour Minute Second)
  qed
qed

lemma day_faults_other [simp]:
  "day_faults (t\<lparr>Hour := h\<rparr>) = day_faults t" "day_faults (t\<lparr>Minute := h\<rparr>) = day_faults t" "day_faults (t\<lparr>Second := h\<rparr>) = day_faults t"
  by (simp_all add: day_faults_def)

lemma day_faults_le: "day_faults t \<le> 2"
  by (simp add: day_faults_def)

lemma capped_faults: "hi < b \<and> c = cap \<or> b \<le> hi \<and> BCDFix b = Some c \<Longrightarrow> hi \<le> 0x99 \<Longrightarrow> faults 0 hi cap = 0 \<Longrightarrow> faults 0 hi c < faults 0 hi b"
  using BCDFix_faults [of b c hi 0] by (elim disjE) (simp_all add: faults_def [of 0 hi b])

lemma bcd_fix_step_decreases:
  assumes "bcd_fix_step t = Some (Some (t', b))"
  shows "bcd_fix_measure t' < bcd_fix_measure t"
  using assms
proof (cases rule: step_cases)
  case (Year y)
  then show ?thesis using day_faults_le [of t'] capped_faults [OF Year(3)] by (simp add: bcd_fix_measure_def caps)
next
  case (Month m)
  have "faults 1 0x12 m < faults 1 0x12 (Month t)"
    using Month(3) BCDFix_faults [of "Month t" m "0x12" 1] by (auto simp: caps, auto simp: faults_def)
  then show ?thesis using day_faults_le [of t'] Month(1) by (simp add: bcd_fix_measure_def)
next
  case (Hour h)
  then show ?thesis using capped_faults [OF Hour(3)] by (simp add: bcd_fix_measure_def caps)
next
  case (Minute m)
  then show ?thesis using capped_faults [OF Minute(3)] by (simp add: bcd_fix_measure_def caps)
next
  case (Second s)
  then show ?thesis using capped_faults [OF Second(3)] by (simp add: bcd_fix_measure_def caps)
qed (simp add: bcd_fix_measure_def)

function TimeBCDFix_loop :: "TIME \<Rightarrow> u8 \<Rightarrow> (u8 \<times> TIME) option" where
  "TimeBCDFix_loop t flag = do {
     r \<leftarrow> bcd_fix_step t;
     case r of None \<Rightarrow> Some (flag, t) | Some (t', b) \<Rightarrow> TimeBCDFix_loop t' (flag OR b) }"
  by pat_completeness auto
termination by (relation "measure (\<lambda>(t, flag). bcd_fix_measure t)") (auto dest: bcd_fix_step_decreases)

declare TimeBCDFix_loop.simps [simp del]

definition TimeBCDFix :: "TIME \<Rightarrow> (u8 \<times> TIME) option" where
  "TimeBCDFix t = TimeBCDFix_loop t 0"


subsection \<open>Coding and decoding\<close>

definition coded :: "TIME \<Rightarrow> TIME" where
  "coded = map_bytes dec_to_bcd"

lemma dec_bcd_dec: "d \<le> 99 \<Longrightarrow> is_bcd (dec_to_bcd d) \<and> bcd_to_dec (dec_to_bcd d) = d \<and> dec_to_bcd d < 256"
proof -
  assume d: "d \<le> 99"
  define h l where "h = d div 10" and "l = d mod 10"
  have hl: "d = 10 * h + l" "l < 10" by (simp_all add: h_def l_def)
  then have h: "h < 10" using d by linarith
  have "dec_to_bcd d = 16 * h + l" using hl h by (simp add: dec_to_bcd_def Let_def)
  then show ?thesis using hl h by (simp add: is_bcd_def bcd_to_dec_def low4_def high4_def)
qed

lemma bcd_dec_bcd: "is_bcd b \<Longrightarrow> b < 256 \<Longrightarrow> dec_to_bcd (bcd_to_dec b) = b"
proof -
  assume b: "is_bcd b" "b < 256"
  define h l where "h = b div 16" and "l = b mod 16"
  have hl: "b = 16 * h + l" by (simp add: h_def l_def)
  have lt: "h < 10" "l < 10" using b div_le_mono [of b 255 16] by (simp_all add: is_bcd_def low4_def high4_def h_def l_def)
  then show ?thesis unfolding hl by (simp add: dec_to_bcd_def bcd_to_dec_def low4_def high4_def Let_def)
qed

lemma valid_bytes: "valid_time t \<Longrightarrow> list_all (\<lambda>d. d \<le> 99) (time_bytes t)"
  using month_days_bounds(2) [of "Year t" "Month t"] by (simp add: valid_time_def time_bytes_def)

lemma time_bytes_map [simp]: "time_bytes (map_bytes f t) = map f (time_bytes t)"
  by (simp add: map_bytes_def time_bytes_def)

lemma map_bytes_map [simp]: "map_bytes f (map_bytes g t) = map_bytes (\<lambda>b. f (g b)) t"
  by (simp add: map_bytes_def)

lemma map_bytes_id: "list_all (\<lambda>b. f b = b) (time_bytes t) \<Longrightarrow> map_bytes f t = t"
  by (simp add: map_bytes_def time_bytes_def)

lemma decoded: "valid_time t \<Longrightarrow> map_bytes bcd_to_dec (coded t) = t"
  using valid_bytes [of t] unfolding coded_def map_bytes_map
  by (intro map_bytes_id) (auto simp: list_all_iff dec_bcd_dec)

lemma ToDEC_coded [simp]: "valid_time t \<Longrightarrow> TimeBCDToDEC (coded t) = Some (True, t)"
  using valid_bytes [of t] decoded [of t] by (simp add: TimeBCDToDEC_def) (simp add: coded_def list_all_iff dec_bcd_dec)

lemma ToBCD_valid [simp]: "valid_time t \<Longrightarrow> TimeDECToBCD t = Some (True, coded t)"
  using valid_bytes [of t] by (simp add: TimeDECToBCD_def coded_def)

lemma recoded:
  assumes "list_all is_bcd (time_bytes t)" "list_all (\<lambda>b. b < 256) (time_bytes t)"
  shows "coded (map_bytes bcd_to_dec t) = t"
  using assms unfolding coded_def map_bytes_map by (intro map_bytes_id) (auto simp: list_all_iff bcd_dec_bcd)

text \<open>
  Fact. A coded time that is no calendar time is refused, but its bytes are already decoded in place, which
  the comment denies.
\<close>

theorem refused_time_is_changed:
  assumes "list_all (\<lambda>d. d \<le> 99) (time_bytes t)" "\<not> valid_time t"
  shows "TimeBCDToDEC (coded t) = Some (False, t) \<and> TimeBCDCheck (coded t) = Some False \<and>
    TimeBCDAddYear (coded t) v = Some (False, t)"
proof -
  have b: "map_bytes bcd_to_dec (coded t) = t"
    using assms(1) unfolding coded_def map_bytes_map by (intro map_bytes_id) (auto simp: list_all_iff dec_bcd_dec)
  have "list_all is_bcd (time_bytes (coded t))" using assms(1) by (simp add: coded_def list_all_iff dec_bcd_dec)
  then have "TimeBCDToDEC (coded t) = Some (False, t)" using b assms(2) by (simp add: TimeBCDToDEC_def)
  then show ?thesis by (simp add: TimeBCDCheck_def TimeBCDAddYear_def in_bcd_def)
qed

theorem refused_time_is_changed_witness:
  "TimeBCDToDEC \<lparr>Year = 0x15, Month = 0x11, Day = 0x31, Hour = 0x12, Minute = 0, Second = 0\<rparr> =
     Some (False, \<lparr>Year = 15, Month = 11, Day = 31, Hour = 12, Minute = 0, Second = 0\<rparr>)"
  using refused_time_is_changed [of "\<lparr>Year = 15, Month = 11, Day = 31, Hour = 12, Minute = 0, Second = 0\<rparr>"]
  by (simp add: time_bytes_def valid_time_def month_days_def leap_def coded_def map_bytes_def dec_to_bcd_def)

subsection \<open>The operations on coded times\<close>

locale calendar_step =
  fixes operation :: "TIME \<Rightarrow> nat \<Rightarrow> (bool \<times> TIME) option"
    and room :: "TIME \<Rightarrow> nat"
  assumes keeps: "\<lbrakk>valid_time t; room t + v < 4294967296\<rbrakk> \<Longrightarrow> \<exists>ok t'. operation t v = Some (ok, t') \<and> (ok \<longrightarrow> valid_time t')"
begin

lemma on_coded:
  assumes "valid_time t" "room t + v < 4294967296"
  shows "\<exists>ok t'. operation t v = Some (ok, t') \<and> (ok \<longrightarrow> valid_time t') \<and>
    in_bcd operation (coded t) v = Some (ok, if ok then coded t' else t')"
proof -
  obtain ok t' where r: "operation t v = Some (ok, t')" "ok \<longrightarrow> valid_time t'" using keeps [OF assms] by blast
  then show ?thesis using assms(1) by (simp add: in_bcd_def)
qed

end

lemma late_day_valid:
  assumes "valid_time (t\<lparr>Day := 1\<rparr>)" "1 \<le> Day t"
  shows "\<exists>t'. fix_late_day t = Some t' \<and> valid_time t'"
proof (cases "28 < Day t")
  case True
  then show ?thesis using fix_loop_valid [of t 0] by (auto simp: fix_late_day_def TimeDECFix_def)
next
  case False
  then show ?thesis using assms month_days_bounds(1) [of "Year t" "Month t"] by (auto simp: fix_late_day_def valid_time_def)
qed

lemma valid_change:
  assumes "valid_time t"
  shows "y \<le> 99 \<Longrightarrow> valid_time (t\<lparr>Year := y, Day := 1\<rparr>)" "1 \<le> m \<Longrightarrow> m \<le> 12 \<Longrightarrow> valid_time (t\<lparr>Month := m, Day := 1\<rparr>)" "1 \<le> Day t"
  using assms month_days_bounds(1) [of y "Month t"] month_days_bounds(1) [of "Year t" m] by (auto simp: valid_time_def)

lemma add_year_valid: "valid_time t \<Longrightarrow> \<exists>t'. TimeDECAddYear t v = Some (True, t') \<and> valid_time t'"
proof -
  assume t: "valid_time t"
  have "u32_add v (Year t) mod 100 \<le> 99" by (simp add: less_Suc_eq_le [symmetric])
  then show ?thesis using t late_day_valid [of "t\<lparr>Year := u32_add v (Year t) mod 100\<rparr>"] valid_change(1,3) [OF t]
    by (auto simp: TimeDECAddYear_def)
qed

lemma year_on_any: "\<exists>ok t'. TimeDECAddYear t v = Some (ok, t') \<and> (ok \<longrightarrow> valid_time t')"
  using add_year_valid [of t v] by (cases "valid_time t") (auto simp: TimeDECAddYear_def)

lemma late_day_of_valid: "valid_time t \<Longrightarrow> \<exists>t'. fix_late_day t = Some t' \<and> valid_time t'"
  using late_day_valid [of t] valid_change(1) [of t "Year t"] valid_change(3) [of t] by (simp add: valid_time_def)

lemma add_month_valid:
  assumes "valid_time t" "Month t + v < 4294967296"
  shows "\<exists>ok t'. TimeDECAddMonth t v = Some (ok, t') \<and> (ok \<longrightarrow> valid_time t')"
proof (cases "12 < v + Month t")
  case True
  let ?y = "\<lambda>t v. TimeDECAddYear t v"
  have any: "\<exists>ok t'. do { (ok, t) \<leftarrow> ?y s w; if \<not> ok then Some (False, t) else do { t \<leftarrow> fix_late_day t; Some (True, t) } } = Some (ok, t') \<and>
      (ok \<longrightarrow> valid_time t')" for s w
    using year_on_any [of s w] late_day_of_valid by fastforce
  show ?thesis using assms True any by (simp add: TimeDECAddMonth_def u32_add_def Let_def add.commute)
next
  case False
  then have v: "v mod 256 = v" "Month t + v \<le> 12" "1 \<le> Month t + v" using assms(1) by (simp_all add: valid_time_def)
  then show ?thesis using assms False late_day_valid [of "t\<lparr>Month := Month t + v\<rparr>"] valid_change(2) [OF assms(1) v(3,2)] valid_change(3) [OF assms(1)]
    by (auto simp: TimeDECAddMonth_def u32_add_def add.commute)
qed

lemma sub_year_valid: "valid_time t \<Longrightarrow> \<exists>t'. TimeDECSubYear t v = Some (True, t') \<and> valid_time t'"
proof -
  assume t: "valid_time t"
  let ?y = "if v mod 100 \<le> Year t then Year t - v mod 100 else Year t + 100 - v mod 100"
  have "?y \<le> 99" using t by (auto simp: valid_time_def)
  then show ?thesis using t late_day_valid [of "t\<lparr>Year := ?y\<rparr>"] valid_change(1,3) [OF t]
    by (auto simp: TimeDECSubYear_def)
qed

lemma sub_month_valid: "valid_time t \<Longrightarrow> \<exists>ok t'. TimeDECSubMonth t v = Some (ok, t') \<and> (ok \<longrightarrow> valid_time t')"
proof -
  assume t: "valid_time t"
  show ?thesis
  proof (cases "Month t \<le> v")
    case True
    obtain s where s: "TimeDECSubYear t (1 + (v - Month t) div 12) = Some (True, s)" "valid_time s" using sub_year_valid [OF t] by blast
    have m: "1 \<le> 12 - (v - Month t) mod 12" "12 - (v - Month t) mod 12 \<le> 12" by (simp_all add: Suc_le_eq)
    show ?thesis using True t s late_day_valid [of "s\<lparr>Month := 12 - (v - Month t) mod 12\<rparr>"] valid_change(2) [OF s(2) m] valid_change(3) [OF s(2)]
      by (auto simp: TimeDECSubMonth_def Let_def)
  next
    case False
    then have m: "1 \<le> Month t - v" "Month t - v \<le> 12" using t by (auto simp: valid_time_def)
    show ?thesis using False t late_day_valid [of "t\<lparr>Month := Month t - v\<rparr>"] valid_change(2) [OF t m] valid_change(3) [OF t]
      by (auto simp: TimeDECSubMonth_def)
  qed
qed

interpretation add_year: calendar_step TimeDECAddYear Year by unfold_locales (use add_year_valid in blast)
interpretation add_month: calendar_step TimeDECAddMonth Month by unfold_locales (rule add_month_valid)
interpretation add_day: calendar_step TimeDECAddDay Day by unfold_locales (use add_day_counts in \<open>fastforce simp: add.commute\<close>)
interpretation add_hour: calendar_step TimeDECAddHour Hour by unfold_locales (use add_hour_counts in \<open>fastforce simp: add.commute\<close>)
interpretation add_minute: calendar_step TimeDECAddMinute Minute by unfold_locales (use add_minute_counts in \<open>fastforce simp: add.commute\<close>)
interpretation add_second: calendar_step TimeDECAddSecond Second by unfold_locales (use add_second_counts in \<open>fastforce simp: add.commute\<close>)
interpretation sub_year: calendar_step TimeDECSubYear Year by unfold_locales (use sub_year_valid in blast)
interpretation sub_month: calendar_step TimeDECSubMonth Month by unfold_locales (rule sub_month_valid)
interpretation sub_day: calendar_step TimeDECSubDay Day by unfold_locales (use sub_day_counts in blast)
interpretation sub_hour: calendar_step TimeDECSubHour Hour by unfold_locales (use sub_hour_counts in blast)
interpretation sub_minute: calendar_step TimeDECSubMinute Minute by unfold_locales (use sub_minute_counts in blast)
interpretation sub_second: calendar_step TimeDECSubSecond Second by unfold_locales (use sub_second_counts in blast)


definition calendar_operations ::
  "((TIME \<Rightarrow> nat \<Rightarrow> (bool \<times> TIME) option) \<times> (TIME \<Rightarrow> nat \<Rightarrow> (bool \<times> TIME) option)) list" where
  "calendar_operations =
     [(TimeBCDAddYear, TimeDECAddYear), (TimeBCDAddMonth, TimeDECAddMonth), (TimeBCDAddDay, TimeDECAddDay),
      (TimeBCDAddHour, TimeDECAddHour), (TimeBCDAddMinute, TimeDECAddMinute), (TimeBCDAddSecond, TimeDECAddSecond),
      (TimeBCDSubYear, TimeDECSubYear), (TimeBCDSubMonth, TimeDECSubMonth), (TimeBCDSubDay, TimeDECSubDay),
      (TimeBCDSubHour, TimeDECSubHour), (TimeBCDSubMinute, TimeDECSubMinute), (TimeBCDSubSecond, TimeDECSubSecond)]"

text \<open>
  Property C32. The twelve operations on coded times do what the decimal operations do: they answer the same,
  and the new time is the coding of the decimal one, a valid time; when the decimal operation fails, the time
  is left in decimal form.
\<close>

theorem bcd_operations_are_coded:
  assumes "(bcd, dec) \<in> set calendar_operations" "valid_time t" "v + 99 < 4294967296"
  shows "\<exists>ok t'. dec t v = Some (ok, t') \<and> (ok \<longrightarrow> valid_time t') \<and> bcd (coded t) v = Some (ok, if ok then coded t' else t')"
proof -
  have room: "Year t + v < 4294967296" "Month t + v < 4294967296" "Day t + v < 4294967296" "Hour t + v < 4294967296"
    "Minute t + v < 4294967296" "Second t + v < 4294967296"
    using valid_bytes [OF assms(2)] assms(3) by (simp_all add: time_bytes_def)
  note step = add_year.on_coded [OF assms(2) room(1), folded TimeBCDAddYear_def] add_month.on_coded [OF assms(2) room(2), folded TimeBCDAddMonth_def]
    add_day.on_coded [OF assms(2) room(3), folded TimeBCDAddDay_def] add_hour.on_coded [OF assms(2) room(4), folded TimeBCDAddHour_def]
    add_minute.on_coded [OF assms(2) room(5), folded TimeBCDAddMinute_def] add_second.on_coded [OF assms(2) room(6), folded TimeBCDAddSecond_def]
    sub_year.on_coded [OF assms(2) room(1), folded TimeBCDSubYear_def] sub_month.on_coded [OF assms(2) room(2), folded TimeBCDSubMonth_def]
    sub_day.on_coded [OF assms(2) room(3), folded TimeBCDSubDay_def] sub_hour.on_coded [OF assms(2) room(4), folded TimeBCDSubHour_def]
    sub_minute.on_coded [OF assms(2) room(5), folded TimeBCDSubMinute_def] sub_second.on_coded [OF assms(2) room(6), folded TimeBCDSubSecond_def]
  show ?thesis using assms(1) unfolding calendar_operations_def list.set insert_iff empty_iff prod.inject simp_thms
    by - (elim disjE conjE; hypsubst; rule step)
qed

theorem bcd_operations_are_coded_witness:
  "\<exists>ok t'. TimeDECSubDay \<lparr>Year = 24, Month = 3, Day = 1, Hour = 0, Minute = 0, Second = 0\<rparr> 1 = Some (ok, t') \<and>
    TimeBCDSubDay (coded \<lparr>Year = 24, Month = 3, Day = 1, Hour = 0, Minute = 0, Second = 0\<rparr>) 1 = Some (ok, if ok then coded t' else t')"
proof -
  have "(TimeBCDSubDay, TimeDECSubDay) \<in> set calendar_operations" by (simp add: calendar_operations_def)
  moreover have "valid_time \<lparr>Year = 24, Month = 3, Day = 1, Hour = 0, Minute = 0, Second = 0\<rparr>"
    by (simp add: valid_time_def month_days_def leap_def)
  moreover have "(1 :: nat) + 99 < 4294967296" by simp
  ultimately show ?thesis by (blast dest: bcd_operations_are_coded)
qed

lemma coded_init: "coded INIT_TIME = INIT_TIME"
  by (simp add: coded_def map_bytes_def INIT_TIME_def dec_to_bcd_def)

lemma ToDEC_init [simp]: "TimeBCDToDEC INIT_TIME = Some (True, INIT_TIME)"
  using ToDEC_coded [OF seconds_zero(2)] by (simp add: coded_init)

text \<open>
  Fact. The reading functions agree with the decimal ones: length of the month, day of the week, difference of
  two times, and the time stamps in both directions.
\<close>

theorem bcd_readings_are_decimal:
  assumes "valid_time t" "valid_time u" "n \<le> 3155760000"
  shows "TimeBCDMonthDays (coded t) = TimeDECMonthDays t \<and> TimeBCDWeekDay (coded t) = TimeDECWeekDay t \<and>
    TimeBCDSubTime (coded t) (coded u) = TimeDECSubTime t u \<and> TimeBCDToStamp (coded t) = TimeDECToStamp t \<and>
    TimeBCDStampToTime n = map_option coded (TimeDECStampToTime n)"
proof -
  have "TimeBCDStampToTime n = map_option coded (TimeDECStampToTime n)"
  proof (cases "n = 0")
    case True
    then show ?thesis by (simp add: TimeBCDStampToTime_def TimeDECStampToTime_def coded_init)
  next
    case False
    have r: "n - 1 + Second INIT_TIME < 4294967296" using assms(3) by (simp add: INIT_TIME_def)
    obtain t' where "TimeDECAddSecond INIT_TIME (n - 1) = Some (True, t')" "valid_time t'"
      using add_second_counts [OF seconds_zero(2) r] by auto
    then show ?thesis using False by (simp add: TimeBCDStampToTime_def TimeDECStampToTime_def TimeBCDAddSecond_def in_bcd_def)
  qed
  then show ?thesis using assms(1,2)
    by (simp add: TimeBCDMonthDays_def TimeDECMonthDays_def TimeBCDWeekDay_def TimeBCDSubTime_def TimeBCDToStamp_def
        TimeDECToStamp_def TimeBCDCheck_def)
qed

theorem bcd_readings_are_decimal_witness:
  "TimeBCDToStamp (coded INIT_TIME) = TimeDECToStamp INIT_TIME \<and> TimeBCDStampToTime 86401 = map_option coded (TimeDECStampToTime 86401)"
  using bcd_readings_are_decimal [OF seconds_zero(2) seconds_zero(2), of 86401] by simp

subsection \<open>The repair of a coded time\<close>

lemma bcd_le: "is_bcd b \<Longrightarrow> b < 256 \<Longrightarrow> bcd_to_dec b = b - 6 * (b div 16)"
proof -
  assume b: "is_bcd b" "b < 256"
  define h l where "h = b div 16" and "l = b mod 16"
  have hl: "b = 16 * h + l" by (simp add: h_def l_def)
  have lt: "h < 10" "l < 10" using b div_le_mono [of b 255 16] by (simp_all add: is_bcd_def low4_def high4_def h_def l_def)
  then show ?thesis unfolding hl by (simp add: bcd_to_dec_def low4_def high4_def)
qed

lemma bcd_clock:
  "is_bcd h \<Longrightarrow> h < 0x24 \<Longrightarrow> bcd_to_dec h < 24" "is_bcd m \<Longrightarrow> m < 0x60 \<Longrightarrow> bcd_to_dec m < 60"
proof -
  have "bcd_to_dec b < 10 * k + j" if "is_bcd b" "b < 16 * k + j" "j < 10" "k < 10" for b j k
  proof -
    define q l where "q = b div 16" and "l = b mod 16"
    have b: "b = 16 * q + l" by (simp add: q_def l_def)
    have "l < 10" using that(1) by (simp add: is_bcd_def low4_def l_def)
    moreover have "bcd_to_dec b = 10 * q + l" using that(2-4) bcd_le [OF that(1), folded q_def] b by simp
    moreover have "q \<le> k" using that(2,3) b by linarith
    ultimately show ?thesis using that b by (cases "q = k") simp_all
  qed
  from this [of h 2 4] this [of m 6 0] show "is_bcd h \<Longrightarrow> h < 0x24 \<Longrightarrow> bcd_to_dec h < 24" "is_bcd m \<Longrightarrow> m < 0x60 \<Longrightarrow> bcd_to_dec m < 60"
    by simp_all
qed


lemma step_done: "bcd_fix_step t = Some None \<Longrightarrow> bcd_fix_measure t = 0"
  using month_days_in_bcd [of "Year t" "Month t"]
  by (auto simp: bcd_fix_step_def bcd_fix_measure_def faults_def day_faults_def split: if_splits option.splits)

lemma step_total: "bcd_fix_step t \<noteq> None"
  using month_days_in_bcd [of "Year t" "Month t"]
  by (auto simp: bcd_fix_step_def split: option.splits)

lemma faultless_month: "faults (Suc 0) 0x12 m = 0 \<Longrightarrow> is_bcd m \<and> 0 < m \<and> m \<le> 0x12"
  by (simp add: faults_def split: if_splits)

lemma faultless: "faults 0 hi b = 0 \<Longrightarrow> is_bcd b \<and> b \<le> hi"
  by (simp add: faults_def split: if_splits)

text \<open>A time without faults and with a day of one byte is a coded calendar time.\<close>

lemma faultless_time:
  assumes "bcd_fix_measure t = 0" "Day t < 256"
  shows "\<exists>d. t = coded d \<and> valid_time d"
proof -
  have f: "faults 0 0x99 (Year t) = 0" "faults (Suc 0) 0x12 (Month t) = 0" "day_faults t = 0" "faults 0 0x23 (Hour t) = 0"
    "faults 0 0x5F (Minute t) = 0" "faults 0 0x5F (Second t) = 0" using assms(1) by (simp_all add: bcd_fix_measure_def)
  note b = faultless [OF f(1)] faultless_month [OF f(2)] faultless [OF f(4)] faultless [OF f(5)] faultless [OF f(6)]
  have d: "is_bcd (Day t)" "Day t \<noteq> 0" "bcd_to_dec (Day t) \<le> month_days (bcd_to_dec (Year t)) (bcd_to_dec (Month t))"
    using f(3) by (simp_all add: day_faults_def split: if_splits)
  have "bcd_to_dec (Day t) \<noteq> 0"
    using bcd_dec_bcd [OF d(1) assms(2)] d(2) by (intro notI) (simp add: dec_to_bcd_def)
  then have "valid_time (map_bytes bcd_to_dec t)"
    using b d bcd_to_dec_range [of "Year t"] bcd_month [of "Month t"] bcd_clock(1) [of "Hour t"] bcd_clock(2) [of "Minute t"] bcd_clock(2) [of "Second t"]
    by (simp add: valid_time_def map_bytes_def)
  moreover have "coded (map_bytes bcd_to_dec t) = t"
    using b d(1) assms(2) by (intro recoded) (simp_all add: time_bytes_def)
  ultimately show ?thesis by metis
qed

lemma faulty: "hi < b \<and> c = cap \<or> b \<le> hi \<and> BCDFix b = Some c \<Longrightarrow> faults 0 hi b \<noteq> 0"
  by (auto simp: faults_def dest: BCDFix_bcd)

text \<open>Which field a step changes: a faulty one; the day only when year and month are in order.\<close>

lemma step_changes:
  assumes "bcd_fix_step t = Some (Some (t', b))"
  obtains (Year) y where "t' = t\<lparr>Year := y\<rparr>" "b = 0x20" "faults 0 0x99 (Year t) \<noteq> 0"
  | (Month) m where "t' = t\<lparr>Month := m\<rparr>" "b = 0x10" "faults (Suc 0) 0x12 (Month t) \<noteq> 0"
  | (Day) d where "t' = t\<lparr>Day := d\<rparr>" "b = 0x08" "day_faults t \<noteq> 0" "faults 0 0x99 (Year t) = 0" "faults (Suc 0) 0x12 (Month t) = 0" "d < 256"
  | (Hour) h where "t' = t\<lparr>Hour := h\<rparr>" "b = 0x04" "faults 0 0x23 (Hour t) \<noteq> 0"
  | (Minute) m where "t' = t\<lparr>Minute := m\<rparr>" "b = 0x02" "faults 0 0x5F (Minute t) \<noteq> 0"
  | (Second) s where "t' = t\<lparr>Second := s\<rparr>" "b = 0x01" "faults 0 0x5F (Second t) \<noteq> 0"
  using assms
proof (cases rule: step_cases)
  case c: (Day d)
  have "b \<noteq> 0x08" if "faults 0 0x99 (Year t) \<noteq> 0 \<or> faults (Suc 0) 0x12 (Month t) \<noteq> 0"
    using that assms by (auto simp: bcd_fix_step_def faults_def split: if_splits option.splits)
  then show thesis using c Day by force
next
  case c: (Month m)
  then show thesis using Month [OF c(1,2)] by (auto simp: faults_def dest: BCDFix_bcd)
next
  case c: (Year x)
  then show thesis by (intro Year [OF c(1,2)] faulty [OF c(3)])
next
  case c: (Hour x)
  then show thesis by (intro Hour [OF c(1,2)] faulty [OF c(3)])
next
  case c: (Minute x)
  then show thesis by (intro Minute [OF c(1,2)] faulty [OF c(3)])
next
  case c: (Second x)
  then show thesis by (intro Second [OF c(1,2)] faulty [OF c(3)])
qed

definition changed_bits :: "TIME \<Rightarrow> TIME \<Rightarrow> u8" where
  "changed_bits t t' = (if Year t \<noteq> Year t' then 0x20 else 0) OR (if Month t \<noteq> Month t' then 0x10 else 0) OR
     (if Day t \<noteq> Day t' then 0x08 else 0) OR (if Hour t \<noteq> Hour t' then 0x04 else 0) OR
     (if Minute t \<noteq> Minute t' then 0x02 else 0) OR (if Second t \<noteq> Second t' then 0x01 else 0)"

lemma day_faults_cong: "Year t' = Year t \<Longrightarrow> Month t' = Month t \<Longrightarrow> Day t' = Day t \<Longrightarrow> day_faults t' = day_faults t"
  by (simp add: day_faults_def)

lemma bcd_fix_loop:
  "\<exists>flag t'. TimeBCDFix_loop t f = Some (flag, t') \<and> bcd_fix_measure t' = 0 \<and> (Day t < 256 \<longrightarrow> Day t' < 256) \<and>
    (faults 0 0x99 (Year t) = 0 \<and> faults (Suc 0) 0x12 (Month t) = 0 \<longrightarrow> Year t' = Year t \<and> Month t' = Month t) \<and>
    flag = f OR changed_bits t t'"
proof (induction t f rule: TimeBCDFix_loop.induct)
  case (1 t f)
  obtain r where r: "bcd_fix_step t = Some r" using step_total by blast
  show ?case
  proof (cases r)
    case None
    then show ?thesis using r step_done [of t] by (subst TimeBCDFix_loop.simps) (simp add: changed_bits_def)
  next
    case (Some q)
    obtain s b where q: "q = (s, b)" by (cases q)
    have step: "bcd_fix_step t = Some (Some (s, b))" using r Some q by simp
    obtain flag t' where IH: "TimeBCDFix_loop s (f OR b) = Some (flag, t')" "bcd_fix_measure t' = 0" "Day s < 256 \<longrightarrow> Day t' < 256"
      "faults 0 0x99 (Year s) = 0 \<and> faults (Suc 0) 0x12 (Month s) = 0 \<longrightarrow> Year t' = Year s \<and> Month t' = Month s"
      "flag = (f OR b) OR changed_bits s t'"
      using 1 [OF r Some q [symmetric]] by blast
    have z: "faults 0 0x99 (Year t') = 0" "faults (Suc 0) 0x12 (Month t') = 0" "day_faults t' = 0" "faults 0 0x23 (Hour t') = 0"
      "faults 0 0x5F (Minute t') = 0" "faults 0 0x5F (Second t') = 0" using IH(2) by (simp_all add: bcd_fix_measure_def)
    have "b OR changed_bits s t' = changed_bits t t' \<and> (Day t < 256 \<longrightarrow> Day t' < 256) \<and>
      (faults 0 0x99 (Year t) = 0 \<and> faults (Suc 0) 0x12 (Month t) = 0 \<longrightarrow> Year t' = Year t \<and> Month t' = Month t)"
      using step
    proof (cases rule: step_changes)
      case (Year y) then have "Year t \<noteq> Year t'" using z by auto
      then show ?thesis using Year IH by (auto simp: changed_bits_def)
    next
      case (Month m) then have "Month t \<noteq> Month t'" using z by auto
      then show ?thesis using Month IH by (auto simp: changed_bits_def)
    next
      case (Day d)
      then have "Year t' = Year t" "Month t' = Month t" using IH(4) by simp_all
      moreover from this have "Day t \<noteq> Day t'" using Day(3) z(3) day_faults_cong [of t' t] by auto
      ultimately show ?thesis using Day IH by (auto simp: changed_bits_def)
    next
      case (Hour h) then have "Hour t \<noteq> Hour t'" using z by auto
      then show ?thesis using Hour IH by (auto simp: changed_bits_def)
    next
      case (Minute m) then have "Minute t \<noteq> Minute t'" using z by auto
      then show ?thesis using Minute IH by (auto simp: changed_bits_def)
    next
      case (Second x) then have "Second t \<noteq> Second t'" using z by auto
      then show ?thesis using Second IH by (auto simp: changed_bits_def)
    qed
    then show ?thesis using IH(1,2,5) step by (subst TimeBCDFix_loop.simps) (simp add: or.assoc)
  qed
qed

text \<open>
  Property C33. \<open>TimeBCDFix\<close> ends for every time with a coded calendar time, and the bits of its answer name exactly
  the fields that it has changed.
\<close>

theorem TimeBCDFix_repairs:
  assumes "Day t < 256"
  shows "\<exists>d. TimeBCDFix t = Some (changed_bits t (coded d), coded d) \<and> valid_time d"
proof -
  obtain flag t' where l: "TimeBCDFix_loop t 0 = Some (flag, t')" "bcd_fix_measure t' = 0" "Day t' < 256" "flag = changed_bits t t'"
    using bcd_fix_loop [of t 0] assms by auto
  then show ?thesis using faultless_time [OF l(2,3)] by (auto simp: TimeBCDFix_def)
qed

theorem TimeBCDFix_repairs_witness:
  "\<exists>d. TimeBCDFix \<lparr>Year = 0x1F, Month = 0x13, Day = 0x31, Hour = 0x24, Minute = 0x5A, Second = 0\<rparr> =
    Some (changed_bits \<lparr>Year = 0x1F, Month = 0x13, Day = 0x31, Hour = 0x24, Minute = 0x5A, Second = 0\<rparr> (coded d), coded d) \<and> valid_time d"
  by (rule TimeBCDFix_repairs) simp

text \<open>
  Fact. The comment says that a digit out of range is carried to the next coded value below the limit; a day
  2C to 2F (hex) becomes the last day of a month of 30 or 31 days instead, because the digits are weighed first.
\<close>

theorem late_digit_takes_limit:
  "map_option (\<lambda>(flag, t). (flag, Day t)) (TimeBCDFix \<lparr>Year = 0x20, Month = 1, Day = 0x2C, Hour = 0, Minute = 0, Second = 0\<rparr>) = Some (0x08, 0x31)"
  unfolding TimeBCDFix_def
  by (subst TimeBCDFix_loop.simps, simp add: bcd_fix_step_def BCDFix_def is_bcd_def low4_def high4_def bcd_to_dec_def TimeMonthDays_def GetDECToBCDU8_def,
      subst TimeBCDFix_loop.simps, simp add: bcd_fix_step_def BCDFix_def is_bcd_def low4_def high4_def bcd_to_dec_def TimeMonthDays_def)

end
