(* ===== verification/BitLib.thy ===== *)
theory BitLib imports Prelude
begin

text \<open>
  \<open>common_lib/usdl_bit.c\<close>: single bits of words and byte arrays, counting and reversing bits.

  \<open>None\<close> is a shift by the width of the operand or more, which C leaves undefined, and an access outside the
  array.  \<open>BitPointSet\<close> and its companions change the variable of \<open>width\<close> bytes that a pointer points to: the
  model takes its value and gives the new one.
\<close>

lemma below_8: "k < 8 \<longleftrightarrow> k = 0 \<or> k = 1 \<or> k = 2 \<or> k = 3 \<or> k = 4 \<or> k = 5 \<or> k = 6 \<or> k = (7 :: nat)"
  by arith

lemma all_below_8: "(\<forall>k < (8 :: nat). P k) \<longleftrightarrow> P 0 \<and> P 1 \<and> P 2 \<and> P 3 \<and> P 4 \<and> P 5 \<and> P 6 \<and> P 7"
proof
  assume P: "P 0 \<and> P 1 \<and> P 2 \<and> P 3 \<and> P 4 \<and> P 5 \<and> P 6 \<and> P 7"
  show "\<forall>k < (8 :: nat). P k"
  proof (intro allI impI)
    fix k :: nat assume "k < 8"
    then show "P k" unfolding below_8 using P by (elim disjE) simp_all
  qed
qed simp

subsection \<open>Single bits\<close>

text \<open>\<open>1UL\<close> has 32 bits and \<open>1ULL\<close> 64 bits on the target.\<close>

definition shift_1UL :: "nat \<Rightarrow> u32 option" where
  "shift_1UL pos = (if pos < 32 then Some (push_bit pos 1) else None)"

definition shift_1ULL :: "nat \<Rightarrow> u64 option" where
  "shift_1ULL pos = (if pos < 64 then Some (push_bit pos 1) else None)"

definition BitPointSet :: "u64 \<Rightarrow> nat \<Rightarrow> nat \<Rightarrow> u64 option" where
  "BitPointSet src pos width =
     (if width = 1 then do { m \<leftarrow> shift_1UL pos; Some (ucast (ucast (ucast src OR m) :: u8)) }
      else if width = 2 then do { m \<leftarrow> shift_1UL pos; Some (ucast (ucast (ucast src OR m) :: u16)) }
      else if width = 4 then do { m \<leftarrow> shift_1UL pos; Some (ucast (ucast src OR m)) }
      else if width = 8 then do { m \<leftarrow> shift_1ULL pos; Some (src OR m) }
      else Some src)"

definition BitPointClr :: "u64 \<Rightarrow> nat \<Rightarrow> nat \<Rightarrow> u64 option" where
  "BitPointClr src pos width =
     (if width = 1 then do { m \<leftarrow> shift_1UL pos; Some (ucast (ucast (ucast src AND NOT m) :: u8)) }
      else if width = 2 then do { m \<leftarrow> shift_1UL pos; Some (ucast (ucast (ucast src AND NOT m) :: u16)) }
      else if width = 4 then do { m \<leftarrow> shift_1UL pos; Some (ucast (ucast src AND NOT m)) }
      else if width = 8 then do { m \<leftarrow> shift_1ULL pos; Some (src AND NOT m) }
      else Some src)"

definition BitPointNot :: "u64 \<Rightarrow> nat \<Rightarrow> nat \<Rightarrow> u64 option" where
  "BitPointNot src pos width =
     (if width = 1 then do { m \<leftarrow> shift_1UL pos; Some (ucast (ucast (ucast src XOR m) :: u8)) }
      else if width = 2 then do { m \<leftarrow> shift_1UL pos; Some (ucast (ucast (ucast src XOR m) :: u16)) }
      else if width = 4 then do { m \<leftarrow> shift_1UL pos; Some (ucast (ucast src XOR m)) }
      else if width = 8 then do { m \<leftarrow> shift_1ULL pos; Some (src XOR m) }
      else Some src)"

definition BitGet :: "u64 \<Rightarrow> nat \<Rightarrow> u8 option" where
  "BitGet value pos = (if pos < 64 then Some (ucast (drop_bit pos value AND 1)) else None)"

definition BitValueSet :: "u64 \<Rightarrow> nat \<Rightarrow> u64 option" where
  "BitValueSet value pos = do { m \<leftarrow> shift_1ULL pos; Some (value OR m) }"

text \<open>The mask of \<open>BitValueClr\<close> is complemented before it is widened.\<close>

definition BitValueClr :: "u64 \<Rightarrow> nat \<Rightarrow> u64 option" where
  "BitValueClr value pos = do { m \<leftarrow> shift_1UL pos; Some (value AND ucast (NOT m)) }"

definition BitValueNot :: "u64 \<Rightarrow> nat \<Rightarrow> u64 option" where
  "BitValueNot value pos = do { m \<leftarrow> shift_1ULL pos; Some (value XOR m) }"

definition ByteArrayBitSet :: "u8 list \<Rightarrow> u16 \<Rightarrow> u8 list option" where
  "ByteArrayBitSet data index = do {
     b \<leftarrow> rd data (unat (index div 8));
     wr data (unat (index div 8)) (b OR push_bit (unat (index mod 8)) 1) }"

definition ByteArrayBitClr :: "u8 list \<Rightarrow> u16 \<Rightarrow> u8 list option" where
  "ByteArrayBitClr data index = do {
     b \<leftarrow> rd data (unat (index div 8));
     wr data (unat (index div 8)) (b AND NOT (push_bit (unat (index mod 8)) 1)) }"

definition ByteArrayBitGet :: "u8 list \<Rightarrow> u16 \<Rightarrow> bool option" where
  "ByteArrayBitGet data index = do {
     b \<leftarrow> rd data (unat (index div 8));
     Some (b AND push_bit (unat (index mod 8)) 1 \<noteq> 0) }"

subsection \<open>Counting and reversing\<close>

definition BitValueGetSetNum :: "u32 \<Rightarrow> u32" where
  "BitValueGetSetNum value =
     (let value = (value AND 0x55555555) + (drop_bit 1 value AND 0x55555555);
          value = (value AND 0x33333333) + (drop_bit 2 value AND 0x33333333);
          value = (value AND 0x0F0F0F0F) + (drop_bit 4 value AND 0x0F0F0F0F);
          value = (value AND 0x00FF00FF) + (drop_bit 8 value AND 0x00FF00FF)
      in (value AND 0x0000FFFF) + (drop_bit 16 value AND 0x0000FFFF))"

definition BitValueU8Reverse :: "u8 \<Rightarrow> u8" where
  "BitValueU8Reverse value =
     (let value = push_bit 1 (value AND 0x55) OR drop_bit 1 (value AND 0xAA);
          value = push_bit 2 (value AND 0x33) OR drop_bit 2 (value AND 0xCC)
      in push_bit 4 (value AND 0x0F) OR drop_bit 4 (value AND 0xF0))"

definition BitValueU16Reverse :: "u16 \<Rightarrow> u16" where
  "BitValueU16Reverse value =
     (let value = push_bit 1 (value AND 0x5555) OR drop_bit 1 (value AND 0xAAAA);
          value = push_bit 2 (value AND 0x3333) OR drop_bit 2 (value AND 0xCCCC);
          value = push_bit 4 (value AND 0x0F0F) OR drop_bit 4 (value AND 0xF0F0)
      in push_bit 8 (value AND 0x00FF) OR drop_bit 8 (value AND 0xFF00))"

definition BitValueU32Reverse :: "u32 \<Rightarrow> u32" where
  "BitValueU32Reverse value =
     (let value = push_bit 1 (value AND 0x55555555) OR drop_bit 1 (value AND 0xAAAAAAAA);
          value = push_bit 2 (value AND 0x33333333) OR drop_bit 2 (value AND 0xCCCCCCCC);
          value = push_bit 4 (value AND 0x0F0F0F0F) OR drop_bit 4 (value AND 0xF0F0F0F0);
          value = push_bit 8 (value AND 0x00FF00FF) OR drop_bit 8 (value AND 0xFF00FF00)
      in push_bit 16 (value AND 0x0000FFFF) OR drop_bit 16 (value AND 0xFFFF0000))"

definition BitMask :: "nat \<Rightarrow> u64 option" where "BitMask pos = shift_1ULL pos"

fun BitValueReverse_loop :: "nat \<Rightarrow> u64 \<Rightarrow> u64 \<Rightarrow> u64 option" where
  "BitValueReverse_loop 0 t value = Some value"
| "BitValueReverse_loop (Suc n) t value = do {
     m \<leftarrow> BitMask n;
     BitValueReverse_loop n (drop_bit 1 t) (if t AND 1 \<noteq> 0 then value OR m else value AND NOT m) }"

definition BitValueReverse :: "u64 \<Rightarrow> nat \<Rightarrow> u64 option" where
  "BitValueReverse value len = BitValueReverse_loop len value value"

subsection \<open>Bits of the results\<close>

text \<open>One exchange of neighbouring groups of \<open>k\<close> bits.\<close>

lemma exchange_bit:
  "bit (push_bit k (v AND lo) OR drop_bit k (v AND hi)) n \<longleftrightarrow>
    k \<le> n \<and> n < LENGTH('a) \<and> bit v (n - k) \<and> bit lo (n - k) \<or> bit v (n + k) \<and> bit hi (n + k)"
  for v :: "'a :: len word"
  by (auto simp: bit_simps ac_simps dest: bit_imp_le_length)

lemma below_16_list: "k < 16 \<longleftrightarrow> k = 0 \<or> k = 1 \<or> k = 2 \<or> k = 3 \<or> k = 4 \<or> k = 5 \<or> k = 6 \<or> k = 7 \<or> k = 8 \<or> k = 9 \<or> k = 10 \<or> k = 11 \<or> k = 12 \<or> k = 13 \<or> k = 14 \<or> k = (15 :: nat)"
  by arith

lemma below_32_list: "k < 32 \<longleftrightarrow> k = 0 \<or> k = 1 \<or> k = 2 \<or> k = 3 \<or> k = 4 \<or> k = 5 \<or> k = 6 \<or> k = 7 \<or> k = 8 \<or> k = 9 \<or> k = 10 \<or> k = 11 \<or> k = 12 \<or> k = 13 \<or> k = 14 \<or> k = 15 \<or> k = 16 \<or> k = 17 \<or> k = 18 \<or> k = 19 \<or> k = 20 \<or> k = 21 \<or> k = 22 \<or> k = 23 \<or> k = 24 \<or> k = 25 \<or> k = 26 \<or> k = 27 \<or> k = 28 \<or> k = 29 \<or> k = 30 \<or> k = (31 :: nat)"
  by arith

lemma exchange_8_1: "n < 8 \<Longrightarrow> bit (push_bit 1 (v AND 0x55) OR drop_bit 1 (v AND 0xAA)) n = bit (v :: u8) (n XOR 1)"
  unfolding exchange_bit
  by (unfold below_8, elim disjE) (simp_all flip: numeral_2_eq_2 numeral_3_eq_3)

lemma exchange_8_2: "n < 8 \<Longrightarrow> bit (push_bit 2 (v AND 0x33) OR drop_bit 2 (v AND 0xCC)) n = bit (v :: u8) (n XOR 2)"
  unfolding exchange_bit
  by (unfold below_8, elim disjE) (simp_all flip: numeral_2_eq_2 numeral_3_eq_3)

lemma exchange_8_4: "n < 8 \<Longrightarrow> bit (push_bit 4 (v AND 0x0F) OR drop_bit 4 (v AND 0xF0)) n = bit (v :: u8) (n XOR 4)"
  unfolding exchange_bit
  by (unfold below_8, elim disjE) (simp_all flip: numeral_2_eq_2 numeral_3_eq_3)

lemma exchange_16_1: "n < 16 \<Longrightarrow> bit (push_bit 1 (v AND 0x5555) OR drop_bit 1 (v AND 0xAAAA)) n = bit (v :: u16) (n XOR 1)"
  unfolding exchange_bit
  by (unfold below_16_list, elim disjE) (simp_all flip: numeral_2_eq_2 numeral_3_eq_3)

lemma exchange_16_2: "n < 16 \<Longrightarrow> bit (push_bit 2 (v AND 0x3333) OR drop_bit 2 (v AND 0xCCCC)) n = bit (v :: u16) (n XOR 2)"
  unfolding exchange_bit
  by (unfold below_16_list, elim disjE) (simp_all flip: numeral_2_eq_2 numeral_3_eq_3)

lemma exchange_16_4: "n < 16 \<Longrightarrow> bit (push_bit 4 (v AND 0x0F0F) OR drop_bit 4 (v AND 0xF0F0)) n = bit (v :: u16) (n XOR 4)"
  unfolding exchange_bit
  by (unfold below_16_list, elim disjE) (simp_all flip: numeral_2_eq_2 numeral_3_eq_3)

lemma exchange_16_8: "n < 16 \<Longrightarrow> bit (push_bit 8 (v AND 0x00FF) OR drop_bit 8 (v AND 0xFF00)) n = bit (v :: u16) (n XOR 8)"
  unfolding exchange_bit
  by (unfold below_16_list, elim disjE) (simp_all flip: numeral_2_eq_2 numeral_3_eq_3)

lemma exchange_32_1: "n < 32 \<Longrightarrow> bit (push_bit 1 (v AND 0x55555555) OR drop_bit 1 (v AND 0xAAAAAAAA)) n = bit (v :: u32) (n XOR 1)"
  unfolding exchange_bit
  by (unfold below_32_list, elim disjE) (simp_all flip: numeral_2_eq_2 numeral_3_eq_3)

lemma exchange_32_2: "n < 32 \<Longrightarrow> bit (push_bit 2 (v AND 0x33333333) OR drop_bit 2 (v AND 0xCCCCCCCC)) n = bit (v :: u32) (n XOR 2)"
  unfolding exchange_bit
  by (unfold below_32_list, elim disjE) (simp_all flip: numeral_2_eq_2 numeral_3_eq_3)

lemma exchange_32_4: "n < 32 \<Longrightarrow> bit (push_bit 4 (v AND 0x0F0F0F0F) OR drop_bit 4 (v AND 0xF0F0F0F0)) n = bit (v :: u32) (n XOR 4)"
  unfolding exchange_bit
  by (unfold below_32_list, elim disjE) (simp_all flip: numeral_2_eq_2 numeral_3_eq_3)

lemma exchange_32_8: "n < 32 \<Longrightarrow> bit (push_bit 8 (v AND 0x00FF00FF) OR drop_bit 8 (v AND 0xFF00FF00)) n = bit (v :: u32) (n XOR 8)"
  unfolding exchange_bit
  by (unfold below_32_list, elim disjE) (simp_all flip: numeral_2_eq_2 numeral_3_eq_3)

lemma exchange_32_16: "n < 32 \<Longrightarrow> bit (push_bit 16 (v AND 0x0000FFFF) OR drop_bit 16 (v AND 0xFFFF0000)) n = bit (v :: u32) (n XOR 16)"
  unfolding exchange_bit
  by (unfold below_32_list, elim disjE) (simp_all flip: numeral_2_eq_2 numeral_3_eq_3)

lemma xor_below_8: "n < 8 \<Longrightarrow> k \<in> {1, 2, 4} \<Longrightarrow> n XOR k < 8" for n k :: nat
  by (unfold below_8, elim disjE; auto)

lemma turned_8: "n < 8 \<Longrightarrow> ((n XOR 4) XOR 2) XOR 1 = 7 - n" for n :: nat
  by (unfold below_8, elim disjE) (simp_all flip: numeral_2_eq_2 numeral_3_eq_3)

lemma u8_reverse_bit: "n < 8 \<Longrightarrow> bit (BitValueU8Reverse v) n \<longleftrightarrow> bit v (7 - n)"
  by (simp only: BitValueU8Reverse_def Let_def exchange_8_1 exchange_8_2 exchange_8_4 xor_below_8 insertI1 insertI2 turned_8 flip: One_nat_def)

lemma xor_below_16: "n < 16 \<Longrightarrow> k \<in> {1, 2, 4, 8} \<Longrightarrow> n XOR k < 16" for n k :: nat
  by (unfold below_16_list, elim disjE; auto)

lemma turned_16: "n < 16 \<Longrightarrow> (((n XOR 8) XOR 4) XOR 2) XOR 1 = 15 - n" for n :: nat
  by (unfold below_16_list, elim disjE) (simp_all flip: numeral_2_eq_2 numeral_3_eq_3)

lemma u16_reverse_bit: "n < 16 \<Longrightarrow> bit (BitValueU16Reverse v) n \<longleftrightarrow> bit v (15 - n)"
  by (simp only: BitValueU16Reverse_def Let_def exchange_16_1 exchange_16_2 exchange_16_4 exchange_16_8 xor_below_16 insertI1 insertI2 turned_16 flip: One_nat_def)

lemma xor_below_32: "n < 32 \<Longrightarrow> k \<in> {1, 2, 4, 8, 16} \<Longrightarrow> n XOR k < 32" for n k :: nat
  by (unfold below_32_list, elim disjE; auto)

lemma turned_32: "n < 32 \<Longrightarrow> ((((n XOR 16) XOR 8) XOR 4) XOR 2) XOR 1 = 31 - n" for n :: nat
  by (unfold below_32_list, elim disjE) (simp_all flip: numeral_2_eq_2 numeral_3_eq_3)

lemma u32_reverse_bit: "n < 32 \<Longrightarrow> bit (BitValueU32Reverse v) n \<longleftrightarrow> bit v (31 - n)"
  by (simp only: BitValueU32Reverse_def Let_def exchange_32_1 exchange_32_2 exchange_32_4 exchange_32_8 exchange_32_16 xor_below_32 insertI1 insertI2 turned_32 flip: One_nat_def)


lemma reverse_loop_bits:
  assumes "n \<le> 64"
  shows "\<exists>r. BitValueReverse_loop n t v = Some r \<and>
    (\<forall>i < 64. bit r i \<longleftrightarrow> (if i < n then bit t (n - 1 - i) else bit v i))"
  using assms
proof (induction n arbitrary: t v)
  case (Suc n)
  let ?m = "push_bit n 1 :: u64"
  let ?v = "if t AND 1 \<noteq> 0 then v OR ?m else v AND NOT ?m"
  have m: "BitMask n = Some ?m" using Suc.prems by (simp add: BitMask_def shift_1ULL_def)
  have vb: "bit ?v i \<longleftrightarrow> (if i = n then bit t 0 else bit v i)" if "i < 64" for i
    using that Suc.prems by (auto simp: bit_simps and_one_eq odd_iff_mod_2_eq_one bit_0 split: if_splits)
  obtain r where r: "BitValueReverse_loop n (drop_bit 1 t) ?v = Some r"
    "\<forall>i < 64. bit r i \<longleftrightarrow> (if i < n then bit (drop_bit 1 t) (n - 1 - i) else bit ?v i)"
    using Suc.IH Suc.prems by force
  have "bit r i \<longleftrightarrow> (if i < Suc n then bit t (Suc n - 1 - i) else bit v i)" if "i < 64" for i
  proof -
    have "i < n \<Longrightarrow> Suc (n - 1 - i) = n - i" by simp
    then show ?thesis using r(2) vb that by (auto simp: bit_drop_bit_eq)
  qed
  moreover have "BitValueReverse_loop (Suc n) t v = Some r" unfolding BitValueReverse_loop.simps m Option.bind.bind_lunit by (rule r(1))
  ultimately show ?case by blast
qed simp

text \<open>
  Fact. The reversing functions reverse: the fast ones, which exchange neighbouring groups of bits,
  turn the whole word around, and the loop turns around the lowest \<open>len\<close> bits and keeps the others.
\<close>

theorem bits_are_reversed:
  "(n < 8 \<longrightarrow> bit (BitValueU8Reverse v8) n = bit v8 (7 - n)) \<and> (n < 16 \<longrightarrow> bit (BitValueU16Reverse v16) n = bit v16 (15 - n)) \<and>
   (n < 32 \<longrightarrow> bit (BitValueU32Reverse v32) n = bit v32 (31 - n)) \<and>
   (len \<le> 64 \<longrightarrow> (\<exists>r. BitValueReverse v64 len = Some r \<and> (\<forall>i < 64. bit r i = bit v64 (if i < len then len - 1 - i else i))))"
proof -
  have "\<exists>r. BitValueReverse v64 len = Some r \<and> (\<forall>i < 64. bit r i = bit v64 (if i < len then len - 1 - i else i))" if "len \<le> 64"
    using reverse_loop_bits [OF that, of v64 v64] by (auto simp: BitValueReverse_def)
  then show ?thesis using u8_reverse_bit u16_reverse_bit u32_reverse_bit by blast
qed

theorem bits_are_reversed_witness:
  "bit (BitValueU32Reverse 1) 31 \<and> (\<exists>r. BitValueReverse 6 4 = Some r \<and> bit r 1 \<and> bit r 2 \<and> \<not> bit r 0)"
proof -
  have "bit (BitValueU32Reverse 1) 31" using bits_are_reversed [of 31 0 0 1 0 0] by simp
  moreover obtain r where r: "BitValueReverse 6 4 = Some r" "\<forall>i < 64. bit r i = bit (6 :: u64) (if i < 4 then 4 - 1 - i else i)"
    using bits_are_reversed [of 0 0 0 0 4 6] by auto
  moreover have "bit r 1" "bit r 2" "\<not> bit r 0" using r(2) [rule_format, of 1] r(2) [rule_format, of 2] r(2) [rule_format, of 0]
    by (simp_all flip: numeral_2_eq_2)
  ultimately show ?thesis by blast
qed

subsection \<open>Counting bits\<close>

text \<open>A word as the list of its groups of \<open>k\<close> bits, lowest first.\<close>

fun pack :: "nat \<Rightarrow> nat list \<Rightarrow> nat" where
  "pack k [] = 0"
| "pack k (x # xs) = x + 2 ^ k * pack k xs"

fun evens :: "'a list \<Rightarrow> 'a list" where
  "evens (x # y # xs) = x # evens xs"
| "evens xs = xs"

fun odds :: "'a list \<Rightarrow> 'a list" where
  "odds (x # y # xs) = y # odds xs"
| "odds xs = []"

fun pairs :: "nat list \<Rightarrow> nat list" where
  "pairs (x # y # xs) = (x + y) # pairs xs"
| "pairs xs = xs"

lemma pack_pairs: "pack k (evens xs) + pack k (odds xs) = pack k (pairs xs)"
proof (induction xs rule: pairs.induct)
  case (1 x y xs)
  have "2 ^ k * pack k (evens xs) + 2 ^ k * pack k (odds xs) = 2 ^ k * pack k (pairs xs)" unfolding 1 [symmetric] by (rule distrib_left [symmetric])
  then show ?case by simp
qed simp_all

lemma sum_pairs: "sum_list (pairs xs) = sum_list xs"
  by (induction xs rule: pairs.induct) simp_all

lemma group_bit: "a < 2 ^ k \<Longrightarrow> bit (a + 2 ^ k * b) n \<longleftrightarrow> (if n < k then bit a n else bit b (n - k))" for a b k :: nat
proof -
  assume a: "a < 2 ^ k"
  have "take_bit k (a + 2 ^ k * b) = a" "drop_bit k (a + 2 ^ k * b) = b" using a by (simp_all add: take_bit_eq_mod drop_bit_eq_div)
  then have "n < k \<longrightarrow> bit (a + 2 ^ k * b) n = bit a n" "bit b (n - k) \<longleftrightarrow> bit (a + 2 ^ k * b) (k + (n - k))"
    by (metis bit_take_bit_iff, metis bit_drop_bit_eq comp_apply)
  then show ?thesis by simp
qed

lemma and_split:
  "a < 2 ^ k \<Longrightarrow> c < 2 ^ k \<Longrightarrow> (a + 2 ^ k * b) AND (c + 2 ^ k * d) = (a AND c) + 2 ^ k * (b AND d)" for a b c d k :: nat
proof (rule bit_eqI)
  fix n assume l: "a < 2 ^ k" "c < 2 ^ k"
  have "a AND c < 2 ^ k" using l by (metis take_bit_and take_bit_nat_eq_self take_bit_nat_less_exp)
  then show "bit ((a + 2 ^ k * b) AND (c + 2 ^ k * d)) n = bit ((a AND c) + 2 ^ k * (b AND d)) n"
    by (simp add: bit_and_iff group_bit l)
qed


lemma low_group: "x < 2 ^ k \<Longrightarrow> (x + 2 ^ k * y) AND (2 ^ k - 1) = x" for x y k :: nat
proof -
  assume x: "x < 2 ^ k"
  have "(2 :: nat) ^ k - 1 = mask k" by (simp add: mask_eq_exp_minus_1)
  then have "(x + 2 ^ k * y) AND (2 ^ k - 1) = take_bit k (x + 2 ^ k * y)" by (simp add: take_bit_eq_mask)
  then show ?thesis using x by (simp add: take_bit_eq_mod)
qed

lemma square_of_exp: "(2 :: nat) ^ (2 * k) = 2 ^ k * 2 ^ k"
  by (simp add: mult_2 power_add)

lemma two_groups: "x < 2 ^ k \<Longrightarrow> y < 2 ^ k \<Longrightarrow> x + 2 ^ k * y < 2 ^ (2 * k)" for x y k :: nat
proof -
  assume "x < 2 ^ k" "y < 2 ^ k"
  then have "x + 2 ^ k * y < 2 ^ k * Suc y" "2 ^ k * Suc y \<le> 2 ^ k * 2 ^ k" by (simp, intro mult_le_mono2, simp add: Suc_le_eq)
  then have "x + 2 ^ k * y < 2 ^ k * 2 ^ k" by (rule less_le_trans)
  then show ?thesis unfolding square_of_exp .
qed

definition group_mask :: "nat \<Rightarrow> nat \<Rightarrow> nat" where
  "group_mask k n = pack (2 * k) (replicate n (2 ^ k - 1))"

lemma mask_evens:
  "\<lbrakk>length xs = 2 * n; \<forall>x \<in> set xs. x < 2 ^ k\<rbrakk> \<Longrightarrow> pack k xs AND group_mask k n = pack (2 * k) (evens xs)"
proof (induction xs arbitrary: n rule: evens.induct)
  case (1 x y xs)
  then obtain m where n: "n = Suc m" by (cases n) auto
  have l: "x < 2 ^ k" "y < 2 ^ k" using 1(3) by simp_all
  have "pack k (x # y # xs) = (x + 2 ^ k * y) + 2 ^ (2 * k) * pack k xs" by (simp add: square_of_exp distrib_left)
  moreover have "group_mask k n = (2 ^ k - 1) + 2 ^ (2 * k) * group_mask k m" by (simp add: group_mask_def n)
  moreover have "(2 :: nat) ^ k - 1 < 2 ^ (2 * k)" by (metis diff_less le_add2 less_le_trans less_numeral_extra(1) mult_2 one_le_numeral power_increasing zero_less_numeral zero_less_power)
  ultimately show ?case using 1(1) [of m] 1(2,3) n by (simp only: and_split [OF two_groups [OF l]] low_group [OF l(1)]) simp
qed (simp_all add: group_mask_def)

lemma mask_odds:
  "\<lbrakk>length xs = 2 * n; \<forall>x \<in> set xs. x < 2 ^ k\<rbrakk> \<Longrightarrow> pack k xs div 2 ^ k AND group_mask k n = pack (2 * k) (odds xs)"
proof (induction xs arbitrary: n rule: odds.induct)
  case (1 x y xs)
  then obtain m where n: "n = Suc m" by (cases n) auto
  have l: "x < 2 ^ k" "y < 2 ^ k" using 1(3) by simp_all
  let ?P = "pack k xs"
  have "pack k (x # y # xs) div 2 ^ k = y + 2 ^ k * ?P" using l(1) by simp
  also have "\<dots> = y + 2 ^ k * (?P mod 2 ^ k) + 2 ^ (2 * k) * (?P div 2 ^ k)"
    unfolding square_of_exp using mod_mult_div_eq [of ?P "2 ^ k"] by (metis add.assoc distrib_left mult.assoc)
  finally have "pack k (x # y # xs) div 2 ^ k = \<dots>" .
  moreover have "group_mask k n = (2 ^ k - 1) + 2 ^ (2 * k) * group_mask k m" by (simp add: group_mask_def n)
  moreover have "(2 :: nat) ^ k - 1 < 2 ^ (2 * k)" by (metis diff_less le_add2 less_le_trans less_numeral_extra(1) mult_2 one_le_numeral power_increasing zero_less_numeral zero_less_power)
  moreover have "?P mod 2 ^ k < 2 ^ k" by simp
  ultimately show ?case using 1(1) [of m] 1(2,3) n by (simp only: and_split [OF two_groups [OF l(2)]] low_group [OF l(2)]) simp
qed (simp_all add: group_mask_def)

lemma pack_less: "\<forall>x \<in> set xs. x < 2 ^ k \<Longrightarrow> pack k xs < 2 ^ (k * length xs)"
proof (induction xs)
  case (Cons x xs)
  then have "x < 2 ^ k" "Suc (pack k xs) \<le> 2 ^ (k * length xs)" by (simp_all add: Suc_le_eq)
  then have "x + 2 ^ k * pack k xs < 2 ^ k * Suc (pack k xs)" "2 ^ k * Suc (pack k xs) \<le> 2 ^ k * 2 ^ (k * length xs)"
    by (simp, intro mult_le_mono2)
  then have "x + 2 ^ k * pack k xs < 2 ^ k * 2 ^ (k * length xs)" by (rule less_le_trans)
  then show ?case by (simp add: power_add)
qed simp

lemma pairs_props: "length xs = 2 * n \<Longrightarrow> length (pairs xs) = n"
proof (induction xs arbitrary: n rule: pairs.induct)
  case (1 x y xs)
  then obtain m where "n = Suc m" by (cases n) auto
  then show ?case using 1 by (simp add: ball_Un)
qed simp_all

lemma pairs_bound: "\<lbrakk>length xs = 2 * n; \<forall>x \<in> set xs. x \<le> b\<rbrakk> \<Longrightarrow> \<forall>x \<in> set (pairs xs). x \<le> 2 * b"
proof (induction xs arbitrary: n rule: pairs.induct)
  case (1 x y xs)
  then obtain m where "n = Suc m" by (cases n) auto
  then show ?case using 1 by (simp add: ball_Un)
qed simp_all

text \<open>One line of \<open>BitValueGetSetNum\<close>: the groups of \<open>k\<close> bits are added in pairs.\<close>

lemma count_step:
  fixes v m :: u32
  assumes "unat v = pack k xs" "length xs = 2 * n" "k * (2 * n) = 32" "\<forall>x \<in> set xs. x \<le> k" "unat m = group_mask k n"
  shows "unat ((v AND m) + (drop_bit k v AND m)) = pack (2 * k) (pairs xs) \<and> length (pairs xs) = n \<and>
    (\<forall>x \<in> set (pairs xs). x \<le> 2 * k) \<and> sum_list (pairs xs) = sum_list xs"
proof -
  have l: "\<forall>x \<in> set xs. x < 2 ^ k" "\<forall>x \<in> set (pairs xs). x \<le> 2 * k"
    using assms(4) pairs_bound [OF assms(2,4)] by (auto intro: le_less_trans [OF _ less_exp])
  then have "\<forall>x \<in> set (pairs xs). x < 2 ^ (2 * k)" by (auto intro: le_less_trans [OF _ less_exp])
  from pack_less [OF this] have b: "pack (2 * k) (pairs xs) < 2 ^ 32" using pairs_props [OF assms(2)] assms(3) by (simp only: mult.assoc mult.left_commute)
  have "unat (v AND m) = pack (2 * k) (evens xs)" using mask_evens [OF assms(2) l(1)] assms(1,5) by (simp add: unsigned_and_eq)
  moreover have "unat (drop_bit k v AND m) = pack (2 * k) (odds xs)"
    using mask_odds [OF assms(2) l(1)] assms(1,5) by (simp add: unsigned_and_eq unat_bits)
  ultimately have "unat ((v AND m) + (drop_bit k v AND m)) = pack (2 * k) (pairs xs)"
    using b pack_pairs [of "2 * k" xs] by (simp add: unat_word_ariths)
  then show ?thesis using l pairs_props [OF assms(2)] sum_pairs by blast
qed

lemma bits_packed: "pack 1 (map (\<lambda>i. of_bool (bit a i)) [0..<n]) = take_bit n a"
proof (induction n arbitrary: a)
  case (Suc n)
  have "map (\<lambda>i. of_bool (bit a i)) [0..<Suc n] = (of_bool (bit a 0) :: nat) # map (\<lambda>i. of_bool (bit (a div 2) i)) [0..<n]"
    by (simp add: map_upt_Suc bit_Suc del: upt_Suc)
  then show ?case using Suc.IH [of "a div 2"] by (simp add: take_bit_Suc bit_0 odd_iff_mod_2_eq_one)
qed simp

lemma replicates: "replicate 16 x = [x, x, x, x, x, x, x, x, x, x, x, x, x, x, x, x]" "replicate 8 x = [x, x, x, x, x, x, x, x]" "replicate 4 x = [x, x, x, x]" "replicate 2 x = [x, x]"
  by (simp_all add: numeral_eq_Suc)

text \<open>Property C39. \<open>BitValueGetSetNum\<close> counts the bits that are set.\<close>

theorem set_bits_are_counted: "unat (BitValueGetSetNum v) = length (filter (bit v) [0..<32])"
proof -
  let ?xs = "map (\<lambda>i. of_bool (bit (unat v) i)) [0..<32] :: nat list"
  let ?v1 = "(v AND 0x55555555) + (drop_bit 1 v AND 0x55555555)"
  let ?v2 = "(?v1 AND 0x33333333) + (drop_bit 2 ?v1 AND 0x33333333)"
  let ?v4 = "(?v2 AND 0x0F0F0F0F) + (drop_bit 4 ?v2 AND 0x0F0F0F0F)"
  let ?v8 = "(?v4 AND 0x00FF00FF) + (drop_bit 8 ?v4 AND 0x00FF00FF)"
  let ?v16 = "(?v8 AND 0x0000FFFF) + (drop_bit 16 ?v8 AND 0x0000FFFF)"
  have m: "unat (0x55555555 :: u32) = group_mask 1 16" "unat (0x33333333 :: u32) = group_mask 2 8" "unat (0x0F0F0F0F :: u32) = group_mask 4 4"
    "unat (0x00FF00FF :: u32) = group_mask 8 2" "unat (0x0000FFFF :: u32) = group_mask 16 1"
    by (simp_all add: group_mask_def replicates)
  have v: "unat v = pack 1 ?xs" unfolding bits_packed using unat_u32_less [of v] by (simp add: take_bit_nat_eq_self)
  obtain a1 where a1: "unat ?v1 = pack 2 a1" "length a1 = 16" "\<forall>x \<in> set a1. x \<le> 2" "sum_list a1 = sum_list ?xs"
    using count_step [OF v _ _ _ m(1)] by auto
  obtain a2 where a2: "unat ?v2 = pack 4 a2" "length a2 = 8" "\<forall>x \<in> set a2. x \<le> 4" "sum_list a2 = sum_list ?xs"
    using count_step [OF a1(1) _ _ a1(3) m(2)] a1(2,4) by auto
  obtain a4 where a4: "unat ?v4 = pack 8 a4" "length a4 = 4" "\<forall>x \<in> set a4. x \<le> 8" "sum_list a4 = sum_list ?xs"
    using count_step [OF a2(1) _ _ a2(3) m(3)] a2(2,4) by auto
  obtain a8 where a8: "unat ?v8 = pack 16 a8" "length a8 = 2" "\<forall>x \<in> set a8. x \<le> 16" "sum_list a8 = sum_list ?xs"
    using count_step [OF a4(1) _ _ a4(3) m(4)] a4(2,4) by auto
  obtain a16 where a16: "unat ?v16 = pack 32 a16" "length a16 = 1" "sum_list a16 = sum_list ?xs"
    using count_step [OF a8(1) _ _ a8(3) m(5)] a8(2,4) by auto
  then have "unat ?v16 = sum_list ?xs" by (cases a16) auto
  also have "\<dots> = length (filter (bit v) [0..<32])"
  proof -
    have "sum_list (map (\<lambda>i. of_bool (P i)) is) = length (filter P is)" for P :: "nat \<Rightarrow> bool" and "is" by (induction "is") simp_all
    moreover have "bit (unat v) = bit v" by (simp add: fun_eq_iff bit_unsigned_iff)
    ultimately show ?thesis by simp
  qed
  finally show ?thesis by (simp only: BitValueGetSetNum_def Let_def)
qed

text \<open>Fact. \<open>BitValueClr\<close> clears the upper half of its 64 bits as well: its mask is complemented with 32 bits and widened.\<close>

theorem clearing_loses_upper_half:
  assumes "pos < 32"
  shows "\<exists>r. BitValueClr v pos = Some r \<and> (\<forall>i. bit r i \<longleftrightarrow> i < 32 \<and> i \<noteq> pos \<and> bit v i)"
  using assms by (auto simp: BitValueClr_def shift_1UL_def bit_simps)

theorem clearing_loses_upper_half_witness: "\<exists>r. BitValueClr 0x100000003 0 = Some r \<and> \<not> bit r 32 \<and> bit r 1"
  using clearing_loses_upper_half [of 0 "0x100000003"] by (auto simp: bit_numeral_rec)

end
