(* ===== verification/I2cLib.thy ===== *)
theory I2cLib imports BitLib
begin

text \<open>
  \<open>drivers/drv_simu_i2c.c\<close>: an I2C master that moves two port pins by software.

  The two wires are modelled as the I2C standard describes them.  The clock is driven by the master alone; the
  data line is open drain, so that its level is the conjunction of the master's output latch and of the
  slave's.  A falling data line while the clock is high is a start, a rising one a stop, and a high phase
  without either is one data bit, complete when the clock falls.  \<open>seen\<close> is the sequence of these
  symbols, which is all that a device on the bus can see.  The slave is a parameter: a function from what it
  has seen to whether it releases the data line, asked whenever the clock falls, because a slave changes its output
  only while the clock is low.

  Every call that sets or resets a pin is one of the four functions \<open>sda_high\<close> to \<open>scl_low\<close>; the pauses
  between them (\<open>SimuI2CDelay\<close>) change nothing.  The semaphore is a count; \<open>None\<close> stands for a
  thread that waits for ever and for accesses outside a buffer.
\<close>

datatype symbol = Start | Stop | Bit bool

record i2c_bus =
  scl :: bool
  sda :: bool
  held :: bool
  pending :: bool
  seen :: "symbol list"
  simu_i2c_sem :: nat

type_synonym slave = "symbol list \<Rightarrow> bool"

subsection \<open>The wires\<close>

definition sda_line :: "i2c_bus \<Rightarrow> bool" where
  "sda_line w \<longleftrightarrow> sda w \<and> held w"

definition set_sda :: "bool \<Rightarrow> i2c_bus \<Rightarrow> i2c_bus" where
  "set_sda v w =
     (if scl w \<and> sda_line w \<noteq> (v \<and> held w)
      then w\<lparr>sda := v, pending := False, seen := seen w @ [if v then Stop else Start]\<rparr>
      else w\<lparr>sda := v\<rparr>)"

definition sda_high :: "i2c_bus \<Rightarrow> i2c_bus" where "sda_high = set_sda True"
definition sda_low :: "i2c_bus \<Rightarrow> i2c_bus" where "sda_low = set_sda False"

definition scl_high :: "i2c_bus \<Rightarrow> i2c_bus" where
  "scl_high w = (if scl w then w else w\<lparr>scl := True, pending := True\<rparr>)"

definition scl_low :: "slave \<Rightarrow> i2c_bus \<Rightarrow> i2c_bus" where
  "scl_low slave w =
     (if scl w then
        let h = (if pending w then seen w @ [Bit (sda_line w)] else seen w)
        in w\<lparr>scl := False, pending := False, seen := h, held := slave h\<rparr>
      else w)"

subsection \<open>Conditions, bits and bytes\<close>

datatype SimuI2CErrState = SIMU_I2C_OK | SIMU_I2C_BUSY | SIMU_I2C_NOACK

fun recovery_clocks :: "slave \<Rightarrow> nat \<Rightarrow> i2c_bus \<Rightarrow> i2c_bus" where
  "recovery_clocks slave 0 w = w"
| "recovery_clocks slave (Suc n) w = recovery_clocks slave n (scl_high (scl_low slave w))"

definition I2cBUSBusyRecovery :: "slave \<Rightarrow> i2c_bus \<Rightarrow> i2c_bus" where
  "I2cBUSBusyRecovery slave w =
     (let w = recovery_clocks slave 9 (sda_high w);
          w = sda_low (scl_low slave w)
      in sda_high (scl_high w))"

definition SimuI2CStart :: "slave \<Rightarrow> i2c_bus \<Rightarrow> SimuI2CErrState \<times> i2c_bus" where
  "SimuI2CStart slave w =
     (let w = scl_high (sda_high w) in
      if \<not> sda_line w then (SIMU_I2C_BUSY, w) else (SIMU_I2C_OK, scl_low slave (sda_low w)))"

definition SimuI2CStop :: "slave \<Rightarrow> i2c_bus \<Rightarrow> SimuI2CErrState \<times> i2c_bus" where
  "SimuI2CStop slave w = (SIMU_I2C_OK, sda_high (scl_high (sda_low (scl_low slave w))))"

definition SimuI2CACK :: "slave \<Rightarrow> i2c_bus \<Rightarrow> SimuI2CErrState \<times> i2c_bus" where
  "SimuI2CACK slave w = (SIMU_I2C_OK, scl_low slave (scl_high (sda_low (scl_low slave w))))"

definition SimuI2CNOACK :: "slave \<Rightarrow> i2c_bus \<Rightarrow> SimuI2CErrState \<times> i2c_bus" where
  "SimuI2CNOACK slave w = (SIMU_I2C_OK, scl_low slave (scl_high (sda_high (scl_low slave w))))"

definition SimuI2CWaitACK :: "slave \<Rightarrow> i2c_bus \<Rightarrow> SimuI2CErrState \<times> i2c_bus" where
  "SimuI2CWaitACK slave w =
     (let w = scl_high (sda_high (scl_low slave w)) in
      if sda_line w then (SIMU_I2C_NOACK, scl_low slave w) else (SIMU_I2C_OK, scl_low slave w))"

fun send_bits :: "slave \<Rightarrow> nat \<Rightarrow> u8 \<Rightarrow> i2c_bus \<Rightarrow> i2c_bus" where
  "send_bits slave 0 byte w = w"
| "send_bits slave (Suc i) byte w =
     (let w = scl_low slave w;
          w = (if byte AND 0x80 \<noteq> 0 then sda_high w else sda_low w)
      in send_bits slave i (push_bit 1 byte) (scl_high w))"

definition SimuI2CByteSend :: "slave \<Rightarrow> u8 \<Rightarrow> i2c_bus \<Rightarrow> SimuI2CErrState \<times> i2c_bus" where
  "SimuI2CByteSend slave byte w = (SIMU_I2C_OK, scl_low slave (send_bits slave 8 byte w))"

fun recv_bits :: "slave \<Rightarrow> nat \<Rightarrow> u8 \<Rightarrow> i2c_bus \<Rightarrow> u8 \<times> i2c_bus" where
  "recv_bits slave 0 tmp w = (tmp, w)"
| "recv_bits slave (Suc i) tmp w =
     (let tmp = push_bit 1 tmp;
          w = scl_high (scl_low slave w)
      in recv_bits slave i (if sda_line w then tmp OR 1 else tmp) w)"

definition SimuI2CByteRecv :: "slave \<Rightarrow> i2c_bus \<Rightarrow> u8 \<times> i2c_bus" where
  "SimuI2CByteRecv slave w = (let (tmp, w) = recv_bits slave 8 0 (sda_high w) in (tmp, scl_low slave w))"

subsection \<open>Transfers\<close>

fun send_bytes :: "slave \<Rightarrow> u8 list \<Rightarrow> nat \<Rightarrow> nat \<Rightarrow> i2c_bus \<Rightarrow> (SimuI2CErrState \<times> i2c_bus) option" where
  "send_bytes slave buf i 0 w = Some (SimuI2CStop slave w)"
| "send_bytes slave buf i (Suc n) w = do {
     b \<leftarrow> rd buf i;
     let (_, w) = SimuI2CByteSend slave b w;
     let (result, w) = SimuI2CWaitACK slave w;
     if result \<noteq> SIMU_I2C_OK then Some (result, snd (SimuI2CStop slave w))
     else send_bytes slave buf (i + 1) n w }"

definition SimuI2CSend :: "slave \<Rightarrow> u8 \<Rightarrow> u8 list \<Rightarrow> nat \<Rightarrow> i2c_bus \<Rightarrow> (SimuI2CErrState \<times> i2c_bus) option" where
  "SimuI2CSend slave slave_addr buf len w =
     (let (result, w) = SimuI2CStart slave w in
      if result \<noteq> SIMU_I2C_OK then Some (result, w)
      else let (result, w) = SimuI2CByteSend slave (slave_addr AND 0xFE) w in
      if result \<noteq> SIMU_I2C_OK then Some (result, w)
      else let (result, w) = SimuI2CWaitACK slave w in
      if result \<noteq> SIMU_I2C_OK then Some (result, snd (SimuI2CStop slave w))
      else send_bytes slave buf 0 len w)"

text \<open>The receiving loop: the last byte is answered with no acknowledge.\<close>

fun recv_bytes :: "slave \<Rightarrow> u8 list \<Rightarrow> nat \<Rightarrow> nat \<Rightarrow> i2c_bus \<Rightarrow> (i2c_bus \<times> u8 list) option" where
  "recv_bytes slave buf i 0 w = Some (w, buf)"
| "recv_bytes slave buf i (Suc n) w = do {
     let (b, w) = SimuI2CByteRecv slave w;
     buf \<leftarrow> wr buf i b;
     let (_, w) = (if n = 0 then SimuI2CNOACK slave w else SimuI2CACK slave w);
     recv_bytes slave buf (i + 1) n w }"

definition SimuI2CRecv :: "slave \<Rightarrow> u8 \<Rightarrow> u8 \<Rightarrow> u8 list \<Rightarrow> nat \<Rightarrow> i2c_bus \<Rightarrow> (SimuI2CErrState \<times> i2c_bus \<times> u8 list) option" where
  "SimuI2CRecv slave slave_addr word_addr buf len w =
     (let (result, w) = SimuI2CStart slave w in
      if result \<noteq> SIMU_I2C_OK then Some (result, w, buf)
      else let (result, w) = SimuI2CByteSend slave (slave_addr AND 0xFE) w in
      if result \<noteq> SIMU_I2C_OK then Some (result, w, buf)
      else let (result, w) = SimuI2CWaitACK slave w in
      if result \<noteq> SIMU_I2C_OK then Some (result, snd (SimuI2CStop slave w), buf)
      else let (result, w) = SimuI2CByteSend slave word_addr w in
      if result \<noteq> SIMU_I2C_OK then Some (result, w, buf)
      else let (result, w) = SimuI2CWaitACK slave w in
      if result \<noteq> SIMU_I2C_OK then Some (result, snd (SimuI2CStop slave w), buf)
      else let (result, w) = SimuI2CStart slave w in
      if result \<noteq> SIMU_I2C_OK then Some (result, w, buf)
      else let (result, w) = SimuI2CByteSend slave (slave_addr OR 0x01) w in
      if result \<noteq> SIMU_I2C_OK then Some (result, w, buf)
      else let (result, w) = SimuI2CWaitACK slave w in
      if result \<noteq> SIMU_I2C_OK then Some (result, snd (SimuI2CStop slave w), buf)
      else do {
        (w, buf) \<leftarrow> recv_bytes slave buf 0 len w;
        let (result, w) = SimuI2CStop slave w;
        Some (result, w, buf) })"

definition rt_sem_take :: "i2c_bus \<Rightarrow> i2c_bus option" where
  "rt_sem_take w = (if 0 < simu_i2c_sem w then Some (w\<lparr>simu_i2c_sem := simu_i2c_sem w - 1\<rparr>) else None)"

definition rt_sem_release :: "i2c_bus \<Rightarrow> i2c_bus" where
  "rt_sem_release w = w\<lparr>simu_i2c_sem := simu_i2c_sem w + 1\<rparr>"

text \<open>What every transfer does after an error, and the initialisation in either case.\<close>

definition free_bus :: "slave \<Rightarrow> i2c_bus \<Rightarrow> i2c_bus" where
  "free_bus slave w =
     (if \<not> sda_line w then I2cBUSBusyRecovery slave w
      else snd (SimuI2CStop slave (snd (SimuI2CStart slave w))))"

definition stm32_simu_i2c_send :: "slave \<Rightarrow> u16 \<Rightarrow> u8 list \<Rightarrow> nat \<Rightarrow> i2c_bus \<Rightarrow> (nat \<times> i2c_bus) option" where
  "stm32_simu_i2c_send slave slave_addr buf len w = do {
     w \<leftarrow> rt_sem_take w;
     (result, w) \<leftarrow> SimuI2CSend slave (ucast slave_addr) buf len w;
     if result \<noteq> SIMU_I2C_OK then Some (0, rt_sem_release (free_bus slave (sda_high w)))
     else Some (len, rt_sem_release w) }"

definition stm32_simu_i2c_recv :: "slave \<Rightarrow> u16 \<Rightarrow> u8 \<Rightarrow> u8 list \<Rightarrow> nat \<Rightarrow> i2c_bus \<Rightarrow> (nat \<times> i2c_bus \<times> u8 list) option" where
  "stm32_simu_i2c_recv slave slave_addr word_addr buf len w = do {
     w \<leftarrow> rt_sem_take w;
     (result, w, buf) \<leftarrow> SimuI2CRecv slave (ucast slave_addr) word_addr buf len w;
     if result \<noteq> SIMU_I2C_OK then Some (0, rt_sem_release (free_bus slave (sda_high w)), buf)
     else Some (len, rt_sem_release w, buf) }"

text \<open>The display controller CH45x does not acknowledge; its ninth clock is given without looking at the line.\<close>

fun send_ch45x_bytes :: "slave \<Rightarrow> u8 list \<Rightarrow> nat \<Rightarrow> nat \<Rightarrow> i2c_bus \<Rightarrow> i2c_bus option" where
  "send_ch45x_bytes slave buf i 0 w = Some w"
| "send_ch45x_bytes slave buf i (Suc n) w = do {
     b \<leftarrow> rd buf i;
     send_ch45x_bytes slave buf (i + 1) n (snd (SimuI2CNOACK slave (snd (SimuI2CByteSend slave b w)))) }"

definition SimuI2CSendCh45x :: "slave \<Rightarrow> u8 list \<Rightarrow> nat \<Rightarrow> i2c_bus \<Rightarrow> (SimuI2CErrState \<times> i2c_bus) option" where
  "SimuI2CSendCh45x slave buf len w =
     (let (result, w) = SimuI2CStart slave w in
      if result \<noteq> SIMU_I2C_OK then Some (result, w)
      else do { w \<leftarrow> send_ch45x_bytes slave buf 0 len w; Some (SimuI2CStop slave w) })"

definition stm32_simu_i2c_send_ch45x :: "slave \<Rightarrow> u8 list \<Rightarrow> nat \<Rightarrow> i2c_bus \<Rightarrow> (nat \<times> i2c_bus) option" where
  "stm32_simu_i2c_send_ch45x slave buf len w = do {
     w \<leftarrow> rt_sem_take w;
     (result, w) \<leftarrow> SimuI2CSendCh45x slave buf len w;
     if result \<noteq> SIMU_I2C_OK then Some (0, rt_sem_release (free_bus slave (sda_high w)))
     else Some (len, rt_sem_release w) }"

fun recv_ch45x_bytes :: "slave \<Rightarrow> u8 list \<Rightarrow> nat \<Rightarrow> nat \<Rightarrow> i2c_bus \<Rightarrow> (i2c_bus \<times> u8 list) option" where
  "recv_ch45x_bytes slave buf i 0 w = Some (w, buf)"
| "recv_ch45x_bytes slave buf i (Suc n) w = do {
     let (b, w) = SimuI2CByteRecv slave w;
     buf \<leftarrow> wr buf i b;
     recv_ch45x_bytes slave buf (i + 1) n (snd (SimuI2CNOACK slave w)) }"

definition SimuI2CRecvCh45x :: "slave \<Rightarrow> u8 \<Rightarrow> u8 list \<Rightarrow> nat \<Rightarrow> i2c_bus \<Rightarrow> (SimuI2CErrState \<times> i2c_bus \<times> u8 list) option" where
  "SimuI2CRecvCh45x slave cmd buf len w =
     (let (result, w) = SimuI2CStart slave w in
      if result \<noteq> SIMU_I2C_OK then Some (result, w, buf)
      else let (result, w) = SimuI2CByteSend slave cmd w in
      if result \<noteq> SIMU_I2C_OK then Some (result, w, buf)
      else do {
        (w, buf) \<leftarrow> recv_ch45x_bytes slave buf 0 len (snd (SimuI2CNOACK slave w));
        let (result, w) = SimuI2CStop slave w;
        Some (result, w, buf) })"

definition stm32_simu_i2c_recv_ch45x :: "slave \<Rightarrow> u8 \<Rightarrow> u8 list \<Rightarrow> nat \<Rightarrow> i2c_bus \<Rightarrow> (nat \<times> i2c_bus \<times> u8 list) option" where
  "stm32_simu_i2c_recv_ch45x slave cmd buf len w = do {
     w \<leftarrow> rt_sem_take w;
     (result, w, buf) \<leftarrow> SimuI2CRecvCh45x slave cmd buf len w;
     if result \<noteq> SIMU_I2C_OK then Some (0, rt_sem_release (free_bus slave (sda_high w)), buf)
     else Some (len, rt_sem_release w, buf) }"


subsection \<open>Conditions of the bus\<close>

text \<open>The bus at rest, and between two clocks; \<open>h\<close> is what has been seen and \<open>a\<close> the latch of the master.\<close>

definition idle :: "nat \<Rightarrow> symbol list \<Rightarrow> i2c_bus" where
  "idle s h = \<lparr>scl = True, sda = True, held = True, pending = False, seen = h, simu_i2c_sem = s\<rparr>"

definition low :: "slave \<Rightarrow> nat \<Rightarrow> symbol list \<Rightarrow> bool \<Rightarrow> i2c_bus" where
  "low slave s h a = \<lparr>scl = False, sda = a, held = slave h, pending = False, seen = h, simu_i2c_sem = s\<rparr>"

lemmas i2c_defs = Let_def sda_line_def set_sda_def sda_high_def sda_low_def scl_high_def scl_low_def

lemma low_simps [simp]:
  "scl_low slave (low slave s h a) = low slave s h a" "sda_high (low slave s h a) = low slave s h True"
  "sda_low (low slave s h a) = low slave s h False"
  by (simp_all add: i2c_defs low_def)

lemma clocked [simp]:
  "scl_low slave (scl_high (low slave s h a)) = low slave s (h @ [Bit (a \<and> slave h)]) a"
  "sda_line (scl_high (low slave s h a)) \<longleftrightarrow> a \<and> slave h"
  by (simp_all add: i2c_defs low_def)

lemma start_idle [simp]: "SimuI2CStart slave (idle s h) = (SIMU_I2C_OK, low slave s (h @ [Start]) False)"
  by (simp add: SimuI2CStart_def i2c_defs idle_def low_def)

lemma start_again: "slave h \<Longrightarrow> SimuI2CStart slave (low slave s h a) = (SIMU_I2C_OK, low slave s (h @ [Start]) False)"
  by (simp add: SimuI2CStart_def i2c_defs low_def)

lemma stop_low: "slave h \<Longrightarrow> SimuI2CStop slave (low slave s h a) = (SIMU_I2C_OK, idle s (h @ [Stop]))"
  by (simp add: SimuI2CStop_def i2c_defs low_def idle_def)

lemma ack_low [simp]:
  "SimuI2CACK slave (low slave s h a) = (SIMU_I2C_OK, low slave s (h @ [Bit False]) False)"
  "SimuI2CNOACK slave (low slave s h a) = (SIMU_I2C_OK, low slave s (h @ [Bit (slave h)]) True)"
  by (simp_all add: SimuI2CACK_def SimuI2CNOACK_def)

lemma wait_ack_low:
  "SimuI2CWaitACK slave (low slave s h a) = (if slave h then SIMU_I2C_NOACK else SIMU_I2C_OK, low slave s (h @ [Bit (slave h)]) True)"
  by (simp add: SimuI2CWaitACK_def Let_def)

subsection \<open>Bytes on the bus\<close>

definition byte_bits :: "u8 \<Rightarrow> symbol list" where
  "byte_bits b = map (\<lambda>k. Bit (bit b k)) [7, 6, 5, 4, 3, 2, 1, 0]"

text \<open>The slave leaves the line to the master for the next symbols.\<close>

definition quiet :: "slave \<Rightarrow> symbol list \<Rightarrow> symbol list \<Rightarrow> bool" where
  "quiet slave h bs \<longleftrightarrow> (\<forall>k < length bs. slave (h @ take k bs))"

lemma quiet_Cons: "quiet slave h (x # bs) \<longleftrightarrow> slave h \<and> quiet slave (h @ [x]) bs"
proof -
  have "(\<forall>k < Suc (length bs). slave (h @ take k (x # bs))) \<longleftrightarrow> slave h \<and> (\<forall>k < length bs. slave (h @ [x] @ take k bs))"
    by (auto simp: less_Suc_eq_0_disj)
  then show ?thesis by (simp add: quiet_def)
qed

fun top_bits :: "nat \<Rightarrow> u8 \<Rightarrow> symbol list" where
  "top_bits 0 b = []"
| "top_bits (Suc n) b = Bit (bit b 7) # top_bits n (push_bit 1 b)"

lemma top_bit: "(b :: u8) AND 0x80 \<noteq> 0 \<longleftrightarrow> bit b 7"
  using and_exp_eq_0_iff_not_bit [of b 7] by simp

lemma send_bits_seen:
  assumes "scl_low slave w = low slave s h a" "quiet slave h (top_bits n b)"
  shows "\<exists>a'. scl_low slave (send_bits slave n b w) = low slave s (h @ top_bits n b) a'"
  using assms
proof (induction n arbitrary: w h a b)
  case 0
  then show ?case by auto
next
  case (Suc n)
  have q: "slave h" "quiet slave (h @ [Bit (bit b 7)]) (top_bits n (push_bit 1 b))" using Suc.prems(2) by (simp_all add: quiet_Cons)
  show ?case
  proof (cases "bit b 7")
    case True
    have "scl_low slave (scl_high (low slave s h True)) = low slave s (h @ [Bit (bit b 7)]) True" using True q(1) by simp
    from Suc.IH [OF this q(2)] show ?thesis using True Suc.prems(1) by (simp add: top_bit)
  next
    case False
    have "scl_low slave (scl_high (low slave s h False)) = low slave s (h @ [Bit (bit b 7)]) False" using False by simp
    from Suc.IH [OF this q(2)] show ?thesis using False Suc.prems(1) by (simp add: top_bit)
  qed
qed

lemma top_bits_shifted: "j + n \<le> 8 \<Longrightarrow> top_bits n (push_bit j b) = map (\<lambda>k. Bit (bit b (7 - (j + k)))) [0..<n]"
proof (induction n arbitrary: j)
  case (Suc n)
  have "bit (push_bit j b) 7 = bit b (7 - j)" using Suc.prems by (simp add: bit_push_bit_iff)
  then show ?case using Suc.IH [of "Suc j"] Suc.prems by (simp add: map_upt_Suc del: upt_Suc)
qed simp

lemma top_bits_byte: "top_bits 8 b = byte_bits b"
  using top_bits_shifted [of 0 8 b] by (simp add: byte_bits_def upt_rec)

lemma byte_send_low: "quiet slave h (byte_bits b) \<Longrightarrow> \<exists>a'. SimuI2CByteSend slave b (low slave s h a) = (SIMU_I2C_OK, low slave s (h @ byte_bits b) a')"
  using send_bits_seen [of slave "low slave s h a" s h a 8 b] by (simp add: SimuI2CByteSend_def top_bits_byte)

text \<open>Receiving: \<open>vs\<close> are the bits that the slave puts on the line.\<close>

lemma recv_bits_seen:
  assumes "scl_low slave w = low slave s h True" "\<forall>k < length vs. slave (h @ map Bit (take k vs)) = vs ! k"
  shows "\<exists>w'. recv_bits slave (length vs) t w = (foldl (\<lambda>t v. push_bit 1 t OR of_bool v) t vs, w') \<and>
    scl_low slave w' = low slave s (h @ map Bit vs) True"
  using assms
proof (induction vs arbitrary: t w h)
  case (Cons v vs)
  have v: "slave h = v" using Cons.prems(2) [rule_format, of 0] by simp
  have "\<forall>k < length vs. slave ((h @ [Bit v]) @ map Bit (take k vs)) = vs ! k" using Cons.prems(2) by fastforce
  moreover have "scl_low slave (scl_high (low slave s h True)) = low slave s (h @ [Bit v]) True" using v by simp
  ultimately show ?case using Cons.IH [of "scl_high (low slave s h True)" "h @ [Bit v]" "push_bit 1 t OR of_bool v"] Cons.prems(1) v
    by (cases v) (simp_all add: Let_def)
qed simp

lemma byte_of_bits: "foldl (\<lambda>t v. push_bit 1 t OR of_bool v) 0 (map (bit b) [7, 6, 5, 4, 3, 2, 1, 0]) = (b :: u8)"
proof (rule bit_word_eqI)
  fix n assume "n < LENGTH(8)"
  then have "n = 0 \<or> n = 1 \<or> n = 2 \<or> n = 3 \<or> n = 4 \<or> n = 5 \<or> n = 6 \<or> n = 7" by (simp add: below_8)
  then show "bit (foldl (\<lambda>t v. push_bit 1 t OR of_bool v) (0 :: u8) (map (bit b) [7, 6, 5, 4, 3, 2, 1, 0])) n = bit b n"
    by (elim disjE) (simp_all add: bit_or_iff bit_push_bit_iff bit_of_bool_iff)
qed

definition drives :: "slave \<Rightarrow> symbol list \<Rightarrow> u8 \<Rightarrow> bool" where
  "drives slave h b \<longleftrightarrow> (\<forall>k < 8. slave (h @ take k (byte_bits b)) = bit b (7 - k))"

lemma byte_recv_low: "drives slave h b \<Longrightarrow> SimuI2CByteRecv slave (low slave s h a) = (b, low slave s (h @ byte_bits b) True)"
proof -
  assume d: "drives slave h b"
  let ?vs = "map (bit b) [7, 6, 5, 4, 3, 2, 1, 0]"
  have bb: "byte_bits b = map Bit ?vs" by (simp add: byte_bits_def)
  have nth: "?vs ! k = bit b (7 - k)" if "k < 8" for k
  proof -
    show ?thesis using that unfolding below_8 by (elim disjE) simp_all
  qed
  have len: "length ?vs = 8" by simp
  have on_line: "slave (h @ map Bit (take k ?vs)) = ?vs ! k" if "k < 8" for k
  proof -
    have "slave (h @ take k (map Bit ?vs)) = bit b (7 - k)" using d that unfolding drives_def bb by blast
    then show ?thesis unfolding nth [OF that] take_map .
  qed
  have "\<forall>k < length ?vs. slave (h @ map Bit (take k ?vs)) = ?vs ! k" unfolding len using on_line by blast
  then obtain w' where w': "recv_bits slave (length ?vs) 0 (low slave s h True) = (foldl (\<lambda>t v. push_bit 1 t OR of_bool v) 0 ?vs, w')"
      "scl_low slave w' = low slave s (h @ map Bit ?vs) True"
    using recv_bits_seen [of slave "low slave s h True" s h ?vs 0] low_simps(1) by blast
  have "recv_bits slave 8 0 (low slave s h True) = (b, w')" using w'(1) unfolding byte_of_bits len .
  moreover have "scl_low slave w' = low slave s (h @ byte_bits b) True" using w'(2) unfolding bb .
  ultimately show ?thesis by (simp add: SimuI2CByteRecv_def del: recv_bits.simps)
qed


definition acked :: "u8 \<Rightarrow> symbol list" where
  "acked b = byte_bits b @ [Bit False]"

text \<open>A slave that takes the given bytes after what it has seen: it leaves the line alone during the bits and pulls it low
  in the ninth clock of each byte.\<close>

fun listens :: "slave \<Rightarrow> symbol list \<Rightarrow> u8 list \<Rightarrow> bool" where
  "listens slave h [] \<longleftrightarrow> slave h"
| "listens slave h (b # bs) \<longleftrightarrow> quiet slave h (byte_bits b) \<and> \<not> slave (h @ byte_bits b) \<and> listens slave (h @ acked b) bs"

text \<open>A slave that refuses one of the bytes, and what is on the bus until then.\<close>

fun refuses :: "slave \<Rightarrow> symbol list \<Rightarrow> u8 list \<Rightarrow> bool" where
  "refuses slave h [] \<longleftrightarrow> False"
| "refuses slave h (b # bs) \<longleftrightarrow> quiet slave h (byte_bits b) \<and>
     (if slave (h @ byte_bits b) then slave (h @ byte_bits b @ [Bit True]) else refuses slave (h @ acked b) bs)"

fun until_refused :: "slave \<Rightarrow> symbol list \<Rightarrow> u8 list \<Rightarrow> symbol list" where
  "until_refused slave h [] = []"
| "until_refused slave h (b # bs) =
     (if slave (h @ byte_bits b) then byte_bits b @ [Bit True] else acked b @ until_refused slave (h @ acked b) bs)"

lemma byte_and_ack:
  assumes "quiet slave h (byte_bits b)"
  obtains a' where "SimuI2CByteSend slave b (low slave s h a) = (SIMU_I2C_OK, low slave s (h @ byte_bits b) a')"
    "SimuI2CWaitACK slave (low slave s (h @ byte_bits b) a') =
      (if slave (h @ byte_bits b) then (SIMU_I2C_NOACK, low slave s (h @ byte_bits b @ [Bit True]) True)
       else (SIMU_I2C_OK, low slave s (h @ acked b) True))"
  using byte_send_low [OF assms, of s a] by (auto simp: wait_ack_low acked_def)

lemma send_bytes_listened:
  "\<lbrakk>i + n \<le> length buf; listens slave h (take n (drop i buf))\<rbrakk> \<Longrightarrow>
    send_bytes slave buf i n (low slave s h a) = Some (SIMU_I2C_OK, idle s (h @ concat (map acked (take n (drop i buf))) @ [Stop]))"
proof (induction n arbitrary: i h a)
  case 0
  then show ?case by (simp add: stop_low)
next
  case (Suc n)
  have d: "take (Suc n) (drop i buf) = buf ! i # take n (drop (Suc i) buf)" using Suc.prems(1) by (simp add: Cons_nth_drop_Suc [symmetric])
  then have q: "quiet slave h (byte_bits (buf ! i))" "\<not> slave (h @ byte_bits (buf ! i))" "listens slave (h @ acked (buf ! i)) (take n (drop (Suc i) buf))"
    using Suc.prems(2) by simp_all
  obtain a' where a: "SimuI2CByteSend slave (buf ! i) (low slave s (h) a) = (SIMU_I2C_OK, low slave s ((h) @ byte_bits (buf ! i)) a')"
    "SimuI2CWaitACK slave (low slave s ((h) @ byte_bits (buf ! i)) a') =
      (if slave ((h) @ byte_bits (buf ! i)) then (SIMU_I2C_NOACK, low slave s ((h) @ byte_bits (buf ! i) @ [Bit True]) True)
       else (SIMU_I2C_OK, low slave s ((h) @ acked (buf ! i)) True))"
    by (rule byte_and_ack [OF q(1)])
  show ?case using a q(2) Suc.IH [OF _ q(3)] Suc.prems(1) unfolding d by (simp add: rd_in)
qed

lemma send_bytes_refused:
  "\<lbrakk>i + n \<le> length buf; refuses slave h (take n (drop i buf))\<rbrakk> \<Longrightarrow>
    send_bytes slave buf i n (low slave s h a) =
      Some (SIMU_I2C_NOACK, idle s (h @ until_refused slave h (take n (drop i buf)) @ [Stop]))"
proof (induction n arbitrary: i h a)
  case (Suc n)
  have d: "take (Suc n) (drop i buf) = buf ! i # take n (drop (Suc i) buf)" using Suc.prems(1) by (simp add: Cons_nth_drop_Suc [symmetric])
  then have q: "quiet slave h (byte_bits (buf ! i))" using Suc.prems(2) by simp
  obtain a' where a: "SimuI2CByteSend slave (buf ! i) (low slave s (h) a) = (SIMU_I2C_OK, low slave s ((h) @ byte_bits (buf ! i)) a')"
    "SimuI2CWaitACK slave (low slave s ((h) @ byte_bits (buf ! i)) a') =
      (if slave ((h) @ byte_bits (buf ! i)) then (SIMU_I2C_NOACK, low slave s ((h) @ byte_bits (buf ! i) @ [Bit True]) True)
       else (SIMU_I2C_OK, low slave s ((h) @ acked (buf ! i)) True))"
    by (rule byte_and_ack [OF q])
  show ?case
  proof (cases "slave (h @ byte_bits (buf ! i))")
    case True
    then have "slave (h @ byte_bits (buf ! i) @ [Bit True])" using Suc.prems(2) d by simp
    then show ?thesis using a True Suc.prems(1) unfolding d by (simp add: rd_in stop_low)
  next
    case False
    then have "refuses slave (h @ acked (buf ! i)) (take n (drop (Suc i) buf))" using Suc.prems(2) d by simp
    then show ?thesis using a False Suc.IH [of "Suc i"] Suc.prems(1) unfolding d by (simp add: rd_in)
  qed
qed simp

lemma SimuI2CSend_idle:
  assumes "quiet slave (h @ [Start]) (byte_bits (addr AND 0xFE))" "\<not> slave ((h @ [Start]) @ byte_bits (addr AND 0xFE))"
  shows "SimuI2CSend slave addr buf len (idle s h) = send_bytes slave buf 0 len (low slave s ((h @ [Start]) @ acked (addr AND 0xFE)) True)"
proof -
  obtain a' where a: "SimuI2CByteSend slave (addr AND 0xFE) (low slave s (h @ [Start]) False) = (SIMU_I2C_OK, low slave s ((h @ [Start]) @ byte_bits (addr AND 0xFE)) a')"
    "SimuI2CWaitACK slave (low slave s ((h @ [Start]) @ byte_bits (addr AND 0xFE)) a') =
      (if slave ((h @ [Start]) @ byte_bits (addr AND 0xFE)) then (SIMU_I2C_NOACK, low slave s ((h @ [Start]) @ byte_bits (addr AND 0xFE) @ [Bit True]) True)
       else (SIMU_I2C_OK, low slave s ((h @ [Start]) @ acked (addr AND 0xFE)) True))"
    by (rule byte_and_ack [OF assms(1)])
  then show ?thesis using assms(2) by (simp add: SimuI2CSend_def)
qed

text \<open>
  Property C34. A transfer to a device that listens answers its length, and what the device has seen is a start
  condition, the address with the write bit and the bytes, each with its acknowledge, and a stop condition; the bus is idle
  and the semaphore free again.
\<close>

theorem i2c_send_delivers:
  assumes "0 < s" "len \<le> length buf" "listens slave (h @ [Start]) ((ucast addr AND 0xFE) # take len buf)"
  shows "stm32_simu_i2c_send slave addr buf len (idle s h) =
    Some (len, idle s (h @ [Start] @ concat (map acked ((ucast addr AND 0xFE) # take len buf)) @ [Stop]))"
proof -
  have t: "rt_sem_take (idle s h) = Some (idle (s - 1) h)" using assms(1) by (simp add: rt_sem_take_def idle_def)
  have r: "rt_sem_release (idle (s - 1) k) = idle s k" for k using assms(1) by (simp add: rt_sem_release_def idle_def)
  have "SimuI2CSend slave (ucast addr) buf len (idle (s - 1) h) =
    Some (SIMU_I2C_OK, idle (s - 1) ((h @ [Start]) @ acked (ucast addr AND 0xFE) @ concat (map acked (take len buf)) @ [Stop]))"
    using assms(2,3) send_bytes_listened [of 0 len buf slave _ "s - 1"] by (simp add: SimuI2CSend_idle)
  then show ?thesis using t r by (simp add: stm32_simu_i2c_send_def)
qed

theorem i2c_send_delivers_witness:
  "stm32_simu_i2c_send (\<lambda>h. length h mod 9 \<noteq> 0) 0xA1 [0x55] 1 (idle 1 []) =
    Some (1, idle 1 ([Start] @ acked 0xA0 @ acked 0x55 @ [Stop]))"
  using i2c_send_delivers [of 1 1 "[0x55]" "\<lambda>h. length h mod 9 \<noteq> 0" "[]" "0xA1"]
  by (simp add: byte_bits_def quiet_Cons acked_def) (simp add: quiet_def)

text \<open>
  Property C36. When the device does not acknowledge the address or one of the bytes, the transfer stops there, the answer is 0, and the
  bus is idle and the semaphore free again.
\<close>

theorem i2c_refused_byte_reported:
  assumes "0 < s" "len \<le> length buf" "refuses slave (h @ [Start]) ((ucast addr AND 0xFE) # take len buf)"
    and "r = h @ [Start] @ until_refused slave (h @ [Start]) ((ucast addr AND 0xFE) # take len buf) @ [Stop]" "slave (r @ [Start])"
  shows "stm32_simu_i2c_send slave addr buf len (idle s h) = Some (0, idle s (r @ [Start, Stop]))"
proof -
  let ?a = "ucast addr AND 0xFE :: u8" let ?h = "h @ [Start]"
  have t: "rt_sem_take (idle s h) = Some (idle (s - 1) h)" using assms(1) by (simp add: rt_sem_take_def idle_def)
  have rl: "rt_sem_release (idle (s - 1) k) = idle s k" for k using assms(1) by (simp add: rt_sem_release_def idle_def)
  have q: "quiet slave ?h (byte_bits ?a)" using assms(3) by simp
  obtain a' where a: "SimuI2CByteSend slave (?a) (low slave (s - 1) (?h) False) = (SIMU_I2C_OK, low slave (s - 1) ((?h) @ byte_bits (?a)) a')"
    "SimuI2CWaitACK slave (low slave (s - 1) ((?h) @ byte_bits (?a)) a') =
      (if slave ((?h) @ byte_bits (?a)) then (SIMU_I2C_NOACK, low slave (s - 1) ((?h) @ byte_bits (?a) @ [Bit True]) True)
       else (SIMU_I2C_OK, low slave (s - 1) ((?h) @ acked (?a)) True))"
    by (rule byte_and_ack [OF q])
  have send: "SimuI2CSend slave (ucast addr) buf len (idle (s - 1) h) = Some (SIMU_I2C_NOACK, idle (s - 1) r)"
  proof (cases "slave (?h @ byte_bits ?a)")
    case True
    then have "slave (?h @ byte_bits ?a @ [Bit True])" using assms(3) by simp
    then show ?thesis using a True assms(4) by (simp add: SimuI2CSend_def stop_low)
  next
    case False
    then have "refuses slave (?h @ acked ?a) (take len buf)" using assms(3) by simp
    then show ?thesis using send_bytes_refused [of 0 len buf slave "?h @ acked ?a" "s - 1" True] SimuI2CSend_idle [OF q False, of buf len "s - 1"] False assms(2,4)
      by simp
  qed
  have "sda_high (idle (s - 1) r) = idle (s - 1) r" "sda_line (idle (s - 1) r)" by (simp_all add: i2c_defs idle_def)
  then have "free_bus slave (sda_high (idle (s - 1) r)) = idle (s - 1) (r @ [Start, Stop])"
    using assms(5) by (simp add: free_bus_def stop_low)
  then show ?thesis using t rl send by (simp add: stm32_simu_i2c_send_def)
qed

text \<open>No device at all: nobody pulls the line.\<close>

theorem i2c_refused_byte_reported_witness:
  "stm32_simu_i2c_send (\<lambda>h. True) 0xA0 [0x55] 1 (idle 1 []) =
    Some (0, idle 1 ([Start] @ byte_bits 0xA0 @ [Bit True, Stop, Start, Stop]))"
  using i2c_refused_byte_reported [of 1 1 "[0x55]" "\<lambda>h. True" "[]" "0xA0"] by (simp add: quiet_def)


text \<open>A slave that sends the given bytes, and what is then on the bus: the master acknowledges every byte but the last one.\<close>

fun talks :: "slave \<Rightarrow> symbol list \<Rightarrow> u8 list \<Rightarrow> bool" where
  "talks slave h [] \<longleftrightarrow> slave h"
| "talks slave h (b # bs) \<longleftrightarrow> drives slave h b \<and> (bs = [] \<longrightarrow> slave (h @ byte_bits b)) \<and> talks slave (h @ byte_bits b @ [Bit (bs = [])]) bs"

fun answered :: "u8 list \<Rightarrow> symbol list" where
  "answered [] = []"
| "answered (b # bs) = byte_bits b @ [Bit (bs = [])] @ answered bs"

lemma recv_bytes_talked:
  "\<lbrakk>talks slave h bs; i + length bs \<le> length buf\<rbrakk> \<Longrightarrow>
    \<exists>a'. recv_bytes slave buf i (length bs) (low slave s h a) =
      Some (low slave s (h @ answered bs) a', take i buf @ bs @ drop (i + length bs) buf)"
proof (induction bs arbitrary: i h a buf)
  case (Cons b bs)
  have d: "drives slave h b" "talks slave (h @ byte_bits b @ [Bit (bs = [])]) bs" using Cons.prems(1) by simp_all
  have i: "i < length buf" "i + 1 + length bs \<le> length (buf[i := b])" using Cons.prems(2) by simp_all
  have w: "wr buf i b = Some (buf[i := b])" using i(1) by (simp add: wr_def)
  have ack: "(if length bs = 0 then SimuI2CNOACK slave (low slave s (h @ byte_bits b) True) else SimuI2CACK slave (low slave s (h @ byte_bits b) True)) =
      (SIMU_I2C_OK, low slave s (h @ byte_bits b @ [Bit (bs = [])]) (bs = []))"
    using Cons.prems(1) by simp
  obtain a' where "recv_bytes slave (buf[i := b]) (i + 1) (length bs) (low slave s (h @ byte_bits b @ [Bit (bs = [])]) (bs = [])) =
      Some (low slave s ((h @ byte_bits b @ [Bit (bs = [])]) @ answered bs) a', take (i + 1) (buf[i := b]) @ bs @ drop (i + 1 + length bs) (buf[i := b]))"
    using Cons.IH [OF d(2) i(2)] by blast
  moreover have "take (i + 1) (buf[i := b]) = take i buf @ [b]" using i(1) by (simp add: take_Suc_conv_app_nth)
  moreover have "bs = [] \<Longrightarrow> slave (h @ byte_bits b)" using Cons.prems(1) by simp
  moreover have "recv_bytes slave buf i (length (b # bs)) (low slave s h a) =
      recv_bytes slave (buf[i := b]) (i + 1) (length bs) (low slave s (h @ byte_bits b @ [Bit (bs = [])]) (bs = []))"
    using byte_recv_low [OF d(1), of s a] w ack by (simp del: length_0_conv)
  ultimately show ?case by auto
qed auto

lemma talks_released: "talks slave h bs \<Longrightarrow> slave (h @ answered bs)"
proof (induction bs arbitrary: h)
  case (Cons b bs)
  then show ?case using Cons.IH [of "h @ byte_bits b @ [Bit (bs = [])]"] by simp
qed simp

text \<open>
  Property C35. Reading a register of a device: the device sees a start condition, its address with the write bit, the number of the
  register, a second start condition and the address with the read bit; the bytes it then sends are the ones
  stored in the buffer, all of them acknowledged but the last one.
\<close>

theorem i2c_recv_reads:
  assumes "0 < s" "length bs \<le> length buf" "listens slave (h @ [Start]) [ucast addr AND 0xFE, reg]"
    and "h2 = h @ [Start] @ acked (ucast addr AND 0xFE) @ acked reg @ [Start]"
    and "quiet slave h2 (byte_bits (ucast addr OR 1))" "\<not> slave (h2 @ byte_bits (ucast addr OR 1))" "talks slave (h2 @ acked (ucast addr OR 1)) bs"
  shows "stm32_simu_i2c_recv slave addr reg buf (length bs) (idle s h) =
    Some (length bs, idle s (h2 @ acked (ucast addr OR 1) @ answered bs @ [Stop]), bs @ drop (length bs) buf)"
proof -
  let ?w = "ucast addr AND 0xFE :: u8" let ?r = "ucast addr OR 1 :: u8" let ?s = "s - 1"
  let ?h = "h @ [Start]" let ?h1 = "(h @ [Start]) @ acked (ucast addr AND 0xFE)"
  have t: "rt_sem_take (idle s h) = Some (idle ?s h)" using assms(1) by (simp add: rt_sem_take_def idle_def)
  have rl: "rt_sem_release (idle ?s k) = idle s k" for k using assms(1) by (simp add: rt_sem_release_def idle_def)
  have q: "quiet slave ?h (byte_bits ?w)" "\<not> slave (?h @ byte_bits ?w)" "quiet slave ?h1 (byte_bits reg)" "\<not> slave (?h1 @ byte_bits reg)"
    "slave (?h1 @ acked reg)" using assms(3) by simp_all
  obtain a1 where a1: "SimuI2CByteSend slave ?w (low slave ?s ?h False) = (SIMU_I2C_OK, low slave ?s (?h @ byte_bits ?w) a1)"
    "SimuI2CWaitACK slave (low slave ?s (?h @ byte_bits ?w) a1) = (SIMU_I2C_OK, low slave ?s ?h1 True)"
    by (rule byte_and_ack [OF q(1), of ?s False]) (use q(2) in simp)
  obtain a2 where a2: "SimuI2CByteSend slave reg (low slave ?s ?h1 True) = (SIMU_I2C_OK, low slave ?s (?h1 @ byte_bits reg) a2)"
    "SimuI2CWaitACK slave (low slave ?s (?h1 @ byte_bits reg) a2) = (SIMU_I2C_OK, low slave ?s (?h1 @ acked reg) True)"
    by (rule byte_and_ack [OF q(3), of ?s True]) (use q(4) in simp)
  have st: "SimuI2CStart slave (low slave ?s (?h1 @ acked reg) True) = (SIMU_I2C_OK, low slave ?s h2 False)"
    using start_again [of slave "?h1 @ acked reg" ?s True] q(5) assms(4) by simp
  obtain a3 where a3: "SimuI2CByteSend slave ?r (low slave ?s h2 False) = (SIMU_I2C_OK, low slave ?s (h2 @ byte_bits ?r) a3)"
    "SimuI2CWaitACK slave (low slave ?s (h2 @ byte_bits ?r) a3) = (SIMU_I2C_OK, low slave ?s (h2 @ acked ?r) True)"
    by (rule byte_and_ack [OF assms(5), of ?s False]) (use assms(6) in simp)
  obtain a4 where a4: "recv_bytes slave buf 0 (length bs) (low slave ?s (h2 @ acked ?r) True) =
      Some (low slave ?s ((h2 @ acked ?r) @ answered bs) a4, take 0 buf @ bs @ drop (0 + length bs) buf)"
    using recv_bytes_talked [OF assms(7), of 0 buf ?s True] assms(2) by auto
  have "slave ((h2 @ acked ?r) @ answered bs)" by (rule talks_released [OF assms(7)])
  then have "SimuI2CStop slave (low slave ?s ((h2 @ acked ?r) @ answered bs) a4) = (SIMU_I2C_OK, idle ?s (((h2 @ acked ?r) @ answered bs) @ [Stop]))"
    using stop_low [of slave "(h2 @ acked ?r) @ answered bs" ?s a4] by blast
  then show ?thesis
    using t rl a1 a2 st a3 a4 by (simp add: stm32_simu_i2c_recv_def SimuI2CRecv_def)
qed

theorem i2c_recv_reads_witness:
  "stm32_simu_i2c_recv (\<lambda>h. length h \<notin> {9, 18, 28, 29, 30, 31, 32}) 0xA0 3 [7, 7] 1 (idle 1 []) =
    Some (1, idle 1 ([Start] @ acked 0xA0 @ acked 3 @ [Start] @ acked 0xA1 @ answered [0x0F] @ [Stop]), [0x0F, 7])"
proof -
  let ?s = "\<lambda>h :: symbol list. length h \<notin> {9, 18, 28, 29, 30, 31, 32}"
  have "drives ?s ([Start] @ acked 0xA0 @ acked 3 @ [Start] @ acked 0xA1) 0x0F"
    unfolding drives_def by (simp add: acked_def byte_bits_def all_below_8 all_conj_distrib)
  then have "talks ?s ([Start] @ acked 0xA0 @ acked 3 @ [Start] @ acked 0xA1) [0x0F]" by (simp add: acked_def byte_bits_def)
  moreover have "listens ?s [Start] [0xA0, 3]" by (simp add: byte_bits_def quiet_Cons acked_def) (simp add: quiet_def)
  moreover have "quiet ?s ([Start] @ acked 0xA0 @ acked 3 @ [Start]) (byte_bits 0xA1)" by (simp add: byte_bits_def quiet_Cons acked_def) (simp add: quiet_def)
  ultimately show ?thesis using i2c_recv_reads [of 1 "[0x0F]" "[7, 7]" ?s "[]" "0xA0" 3 "[Start] @ acked 0xA0 @ acked 3 @ [Start]"]
    by (simp add: acked_def byte_bits_def)
qed

subsection \<open>A bus that is held\<close>

text \<open>What is seen when the clock is moved with the data line released.\<close>

fun clocked_out :: "slave \<Rightarrow> nat \<Rightarrow> symbol list \<Rightarrow> symbol list" where
  "clocked_out slave 0 h = h"
| "clocked_out slave (Suc n) h = clocked_out slave n (h @ [Bit (slave h)])"

lemma recovery_clocks_seen:
  "scl_low slave w = low slave s h True \<Longrightarrow> scl_low slave (recovery_clocks slave n w) = low slave s (clocked_out slave n h) True"
  by (induction n arbitrary: w h) simp_all

text \<open>
  Property C37. A device that holds the data line, because it has lost the clock in the middle of a byte, is clocked
  out: when it releases the line within nine clocks, the failed transfer answers 0 and leaves an idle bus behind.
\<close>

theorem i2c_stuck_bus_is_freed:
  assumes "0 < s" "w = \<lparr>scl = True, sda = a, held = False, pending = True, seen = h, simu_i2c_sem = s\<rparr>"
    and "slave (clocked_out slave 9 (h @ [Bit False]))"
  shows "stm32_simu_i2c_send slave addr buf len w = Some (0, idle s (clocked_out slave 9 (h @ [Bit False]) @ [Stop]))"
proof -
  let ?w = "\<lparr>scl = True, sda = True, held = False, pending = True, seen = h, simu_i2c_sem = s - 1\<rparr>"
  have t: "rt_sem_take w = Some (w\<lparr>simu_i2c_sem := s - 1\<rparr>)" using assms(1,2) by (simp add: rt_sem_take_def)
  have st: "SimuI2CSend slave (ucast addr) buf len (w\<lparr>simu_i2c_sem := s - 1\<rparr>) = Some (SIMU_I2C_BUSY, ?w)"
    using assms(2) by (simp add: SimuI2CSend_def SimuI2CStart_def i2c_defs)
  have hi: "sda_high ?w = ?w" "\<not> sda_line ?w" by (simp_all add: i2c_defs)
  have "scl_low slave ?w = low slave (s - 1) (h @ [Bit False]) True" by (simp add: i2c_defs low_def)
  then have c: "scl_low slave (recovery_clocks slave 9 ?w) = low slave (s - 1) (clocked_out slave 9 (h @ [Bit False])) True"
    by (rule recovery_clocks_seen)
  have stop: "sda_high (scl_high (low slave (s - 1) k False)) = idle (s - 1) (k @ [Stop])" if "slave k" for k
    using stop_low [of slave k "s - 1" False] that by (simp add: SimuI2CStop_def)
  have "free_bus slave (sda_high ?w) = idle (s - 1) (clocked_out slave 9 (h @ [Bit False]) @ [Stop])"
    unfolding hi(1) using hi c stop [OF assms(3)] by (simp add: free_bus_def I2cBUSBusyRecovery_def Let_def)
  moreover have "rt_sem_release (idle (s - 1) k) = idle s k" for k using assms(1) by (simp add: rt_sem_release_def idle_def)
  ultimately show ?thesis using t st by (simp add: stm32_simu_i2c_send_def)
qed

theorem i2c_stuck_bus_is_freed_witness:
  "stm32_simu_i2c_send (\<lambda>h. 5 \<le> length h) 0xA0 [1] 1 \<lparr>scl = True, sda = True, held = False, pending = True, seen = [], simu_i2c_sem = 1\<rparr> =
    Some (0, idle 1 (replicate 5 (Bit False) @ replicate 5 (Bit True) @ [Stop]))"
  using i2c_stuck_bus_is_freed [of 1 _ True "[]" "\<lambda>h. 5 \<le> length h" "0xA0" "[1]" 1] by (simp add: eval_nat_numeral)

end
