(* ===== verification/TempLib.thy ===== *)
theory TempLib imports BitLib
begin

text \<open>
  \<open>drivers/drv_18b20.c\<close>: reading a DS18B20 temperature sensor over a single wire, by software.

  The state is the trace of the wire: the master pulls it low or releases it, and waits (microseconds by the
  timer, ticks of the kernel while the sensor converts).  The level that the master reads is a parameter, a
  function of the trace.  \<open>slots\<close> reads a trace as the sensor does according to its data sheet: by the time that
  the wire is low.  A wait is the number that the timer is loaded with; the one-pulse timer runs one count longer, which
  is far inside the limits of the data sheet.
\<close>

datatype wire = Pull | Release | Wait nat | Sleep nat

type_synonym sensor = "wire list \<Rightarrow> bool"

definition stm32_ds18b20_delay :: "nat \<Rightarrow> wire list \<Rightarrow> wire list" where
  "stm32_ds18b20_delay us tr = tr @ [Wait us]"

subsection \<open>Reset, write and read slots\<close>

definition ds18B20_reset :: "sensor \<Rightarrow> wire list \<Rightarrow> bool \<times> wire list" where
  "ds18B20_reset sensor tr =
     (let tr = stm32_ds18b20_delay 50 (tr @ [Release]);
          tr = stm32_ds18b20_delay 500 (tr @ [Pull]);
          tr = stm32_ds18b20_delay 40 (tr @ [Release]);
          result = (\<not> sensor tr)
      in (result, stm32_ds18b20_delay 500 tr))"

fun write_slots :: "nat \<Rightarrow> u8 \<Rightarrow> wire list \<Rightarrow> wire list" where
  "write_slots 0 data tr = tr"
| "write_slots (Suc i) data tr =
     (let tr = stm32_ds18b20_delay 5 (tr @ [Pull]);
          tr = (if data AND 0x01 \<noteq> 0 then tr @ [Release] else tr @ [Pull]);
          tr = stm32_ds18b20_delay 80 tr;
          tr = stm32_ds18b20_delay 2 (tr @ [Release])
      in write_slots i (drop_bit 1 data) tr)"

definition ds18b20_write_byte :: "u8 \<Rightarrow> wire list \<Rightarrow> wire list" where
  "ds18b20_write_byte data tr = write_slots 8 data tr"

fun read_slots :: "sensor \<Rightarrow> nat \<Rightarrow> u8 \<Rightarrow> wire list \<Rightarrow> u8 \<times> wire list" where
  "read_slots sensor 0 data tr = (data, tr)"
| "read_slots sensor (Suc i) data tr =
     (let data = drop_bit 1 data;
          tr = stm32_ds18b20_delay 5 (tr @ [Pull]);
          tr = stm32_ds18b20_delay 5 (tr @ [Release]);
          data = (if sensor tr then data OR 0x80 else data AND 0x7f);
          tr = stm32_ds18b20_delay 65 tr
      in read_slots sensor i data (tr @ [Release]))"

definition ds18b20_read_byte :: "sensor \<Rightarrow> wire list \<Rightarrow> u8 \<times> wire list" where
  "ds18b20_read_byte sensor tr = read_slots sensor 8 0 (stm32_ds18b20_delay 5 (tr @ [Release]))"

subsection \<open>Commands and temperatures\<close>

definition DS18B20_ROM_CMD_SKIP :: u8 where "DS18B20_ROM_CMD_SKIP = 0xCC"
definition DS18B20_REG_CMD_CONV :: u8 where "DS18B20_REG_CMD_CONV = 0x44"
definition DS18B20_REG_CMD_READ_RAM :: u8 where "DS18B20_REG_CMD_READ_RAM = 0xBE"

definition stm32_ds18b20_conv_start :: "sensor \<Rightarrow> wire list \<Rightarrow> wire list" where
  "stm32_ds18b20_conv_start sensor tr =
     (let (_, tr) = ds18B20_reset sensor tr
      in ds18b20_write_byte DS18B20_REG_CMD_CONV (ds18b20_write_byte DS18B20_ROM_CMD_SKIP tr))"

definition stm32_ds18b20_read_rawdata :: "sensor \<Rightarrow> wire list \<Rightarrow> u16 \<times> wire list" where
  "stm32_ds18b20_read_rawdata sensor tr =
     (let (_, tr) = ds18B20_reset sensor tr;
          tr = ds18b20_write_byte DS18B20_REG_CMD_READ_RAM (ds18b20_write_byte DS18B20_ROM_CMD_SKIP tr);
          (data1, tr) = ds18b20_read_byte sensor tr;
          (data2, tr) = ds18b20_read_byte sensor tr
      in (push_bit 8 (ucast data2) OR ucast data1, tr))"

text \<open>The floating-point result of \<open>stm32_ds18b20_raw2reality\<close> in sixteenths, which a \<open>float\<close> holds exactly.\<close>

definition stm32_ds18b20_raw2reality :: "u16 \<Rightarrow> int" where
  "stm32_ds18b20_raw2reality data = (if data AND 0x8000 \<noteq> 0 then - uint (NOT data + 1) else uint data)"

record Ds18B20TempType =
  TmpH :: u8
  TmpL :: u8
  Signal :: u8

definition TempX_TAB :: "u8 list" where
  "TempX_TAB = [0x00, 0x01, 0x01, 0x02, 0x03, 0x03, 0x04, 0x04, 0x05, 0x06, 0x06, 0x07, 0x08, 0x08, 0x09, 0x09]"

definition stm32_ds18b20_raw2Temp :: "u16 \<Rightarrow> Ds18B20TempType option" where
  "stm32_ds18b20_raw2Temp data = do {
     let tmp_h = (ucast (drop_bit 8 data) :: u8);
     let tmp_l = (ucast data :: u8);
     let (tmp_h, tmp_l) =
       (if tmp_h AND 0x80 \<noteq> 0 then
          let h = NOT tmp_h OR 0x08; l = NOT tmp_l + 1 in (if l = 0 then h + 1 else h, l)
        else (tmp_h, tmp_l));
     let tmp_h = push_bit 4 tmp_h + drop_bit 4 (tmp_l AND 0xf0);
     tmp_l \<leftarrow> rd TempX_TAB (unat (tmp_l AND 0x0f));
     let sign = tmp_h AND 0x80;
     Some \<lparr>TmpH = tmp_h AND 0x7f, TmpL = tmp_l, Signal = (if sign = 0 then 0 else 1)\<rparr> }"

definition stm32_ds18b20_read_reality :: "sensor \<Rightarrow> wire list \<Rightarrow> int \<times> wire list" where
  "stm32_ds18b20_read_reality sensor tr =
     (let tr = stm32_ds18b20_conv_start sensor tr @ [Sleep 80];
          (data, tr) = stm32_ds18b20_read_rawdata sensor tr
      in (stm32_ds18b20_raw2reality data, tr))"

definition stm32_ds18b20_read_Temp :: "sensor \<Rightarrow> wire list \<Rightarrow> (Ds18B20TempType \<times> wire list) option" where
  "stm32_ds18b20_read_Temp sensor tr =
     (let tr = stm32_ds18b20_conv_start sensor tr @ [Sleep 80];
          (data, tr) = stm32_ds18b20_read_rawdata sensor tr
      in map_option (\<lambda>t. (t, tr)) (stm32_ds18b20_raw2Temp data))"

text \<open>A round of the thread: \<open>Env_TMP\<close> after it.\<close>

definition stm32_ds18b20_thread_round :: "sensor \<Rightarrow> wire list \<Rightarrow> (Ds18B20TempType \<times> wire list) option" where
  "stm32_ds18b20_thread_round sensor tr = map_option (\<lambda>(t, tr). (t, tr @ [Sleep 100])) (stm32_ds18b20_read_Temp sensor tr)"

subsection \<open>The number that is shown\<close>

lemma temperature_table: "r < 16 \<Longrightarrow> rd TempX_TAB r = Some (of_nat ((10 * r + 8) div 16))"
proof -
  assume "r < 16"
  then have "r = 0 \<or> r = 1 \<or> r = 2 \<or> r = 3 \<or> r = 4 \<or> r = 5 \<or> r = 6 \<or> r = 7 \<or> r = 8 \<or> r = 9 \<or> r = 10 \<or> r = 11 \<or> r = 12 \<or>
      r = 13 \<or> r = 14 \<or> r = 15" by arith
  then show ?thesis by (auto simp: TempX_TAB_def rd_def)
qed

text \<open>The part behind the sign: the high byte and the low byte of the magnitude \<open>m\<close>, with the mark \<open>s\<close> in bit 3 of the high byte.\<close>

definition shown_temperature :: "u8 \<Rightarrow> u8 \<Rightarrow> Ds18B20TempType option" where
  "shown_temperature tmp_h tmp_l = do {
     let tmp_h = push_bit 4 tmp_h + drop_bit 4 (tmp_l AND 0xf0);
     tmp_l \<leftarrow> rd TempX_TAB (unat (tmp_l AND 0x0f));
     let sign = tmp_h AND 0x80;
     Some \<lparr>TmpH = tmp_h AND 0x7f, TmpL = tmp_l, Signal = (if sign = 0 then 0 else 1)\<rparr> }"

lemma sign_bit: "n < 128 \<Longrightarrow> (of_nat (n + (if s then 128 else 0)) :: u8) AND 0x7f = of_nat n \<and>
    ((of_nat (n + (if s then 128 else 0)) :: u8) AND 0x80 = 0 \<longleftrightarrow> \<not> s)"
proof -
  assume n: "n < 128"
  let ?b = "of_nat (n + (if s then 128 else 0)) :: u8"
  have u: "unat ?b = n + (if s then 128 else 0)" by (simp only: unat_of_nat) (use n in simp)
  have "?b AND 0x7f = take_bit 7 ?b" by (simp add: take_bit_eq_mask mask_eq_exp_minus_1)
  also have "\<dots> = of_nat n"
  proof -
    have "unat (take_bit 7 ?b) = take_bit 7 (unat ?b)" by (rule unsigned_take_bit_eq)
    then have "unat (take_bit 7 ?b) = n" unfolding u using n by (simp add: take_bit_eq_mod)
    then show ?thesis by (metis of_nat_unat ucast_id)
  qed
  finally have l: "?b AND 0x7f = of_nat n" .
  have "?b AND 0x80 = 0 \<longleftrightarrow> \<not> bit ?b 7" using and_exp_eq_0_iff_not_bit [of ?b 7] by simp
  also have "bit ?b 7 \<longleftrightarrow> bit (unat ?b) 7" by (simp add: bit_unsigned_iff)
  also have "\<dots> \<longleftrightarrow> s"
  proof -
    have "(n + (if s then 128 else 0)) div 128 = (if s then 1 else 0)" using n div_add_self2 [of 128 n] by simp
    then show ?thesis unfolding u bit_iff_odd by simp
  qed
  finally show ?thesis using l by simp
qed

lemma shown_magnitude:
  assumes "m < 2048"
  shows "shown_temperature (of_nat (m div 256 + (if s then 8 else 0))) (of_nat m) =
    Some \<lparr>TmpH = of_nat (m div 16), TmpL = of_nat ((10 * (m mod 16) + 8) div 16), Signal = (if s then 1 else 0)\<rparr>"
proof -
  let ?l = "of_nat m :: u8" let ?h = "push_bit 4 (of_nat (m div 256 + (if s then 8 else 0))) + drop_bit 4 (?l AND 0xf0) :: u8"
  have ul: "unat ?l = m mod 256" by (simp add: unat_of_nat)
  have mask4: "?l AND 0x0f = take_bit 4 ?l" by (simp add: take_bit_eq_mask mask_eq_exp_minus_1)
  have "unat (take_bit 4 ?l) = take_bit 4 (m mod 256)" unfolding ul [symmetric] by (rule unsigned_take_bit_eq)
  then have low: "unat (?l AND 0x0f) = m mod 16" unfolding mask4 by (simp only: take_bit_eq_mod) (simp add: mod_mod_cancel)
  have hi: "drop_bit 4 (?l AND 0xf0) = drop_bit 4 ?l"
  proof (rule bit_word_eqI)
    fix n assume "n < LENGTH(8)"
    then have "n = 0 \<or> n = 1 \<or> n = 2 \<or> n = 3 \<or> n = 4 \<or> n = 5 \<or> n = 6 \<or> n = 7" by (simp add: below_8)
    then show "bit (drop_bit 4 (?l AND 0xf0)) n = bit (drop_bit 4 ?l) n" by (elim disjE) (simp_all add: bit_drop_bit_eq bit_and_iff impossible_bit)
  qed
  have "unat (drop_bit 4 ?l) = drop_bit 4 (take_bit LENGTH(8) (unat ?l))" by (rule unsigned_drop_bit_eq)
  then have "unat (drop_bit 4 ?l) = m mod 256 div 16" unfolding ul by (simp only: drop_bit_eq_div take_bit_eq_mod) simp
  then have uhi: "drop_bit 4 (?l AND 0xf0) = of_nat (m mod 256 div 16)" unfolding hi by (metis of_nat_unat ucast_id)
  have q: "m div 16 < 128" using assms by (simp add: less_mult_imp_div_less)
  have split: "m div 16 = 16 * (m div 256) + m mod 256 div 16" using div_mult2_eq [of m 16 16] mod_mult2_eq [of m 16 16] by simp
  have "?h = of_nat (m div 16 + (if s then 128 else 0))"
    unfolding uhi split by (simp add: push_bit_eq_mult algebra_simps)
  note h = this sign_bit [OF q, of s]
  show ?thesis using h low temperature_table [of "m mod 16"] by (simp add: shown_temperature_def)
qed

lemma raw2Temp_shown:
  "stm32_ds18b20_raw2Temp d = (case (if ucast (drop_bit 8 d) AND (0x80 :: u8) \<noteq> 0 then
      (let h = NOT (ucast (drop_bit 8 d)) OR 0x08; l = NOT (ucast d) + 1 in (if l = 0 then h + 1 else h, l))
    else (ucast (drop_bit 8 d), ucast d)) of (h, l) \<Rightarrow> shown_temperature h l)"
  unfolding stm32_ds18b20_raw2Temp_def shown_temperature_def Let_def ..

text \<open>The two bytes of a raw value, as the sign and the magnitude of the two's complement.\<close>

lemma raw_bytes:
  assumes "\<bar>sint d\<bar> < 2048"
  shows "stm32_ds18b20_raw2Temp d =
    shown_temperature (of_nat (nat \<bar>sint d\<bar> div 256 + (if sint d < 0 then 8 else 0))) (of_nat (nat \<bar>sint d\<bar>))"
proof -
  let ?m = "nat \<bar>sint d\<bar>" let ?hi = "ucast (drop_bit 8 d) :: u8" let ?lo = "ucast d :: u8"
  have m: "?m < 2048" using assms by simp
  have q: "?m div 256 < 8" using m by (simp add: less_mult_imp_div_less)
  have high: "ucast (drop_bit 8 w) = (of_nat (unat w div 256) :: u8)" for w :: u16
    using unat_u16_less [of w] by (simp add: word_unat_eq_iff unat_bits unat_of_nat less_mult_imp_div_less)
  show ?thesis
  proof (cases "sint d < 0")
    case False
    then have "d = of_nat ?m" using of_int_sint [of d] by simp
    then have "unat d = unat (of_nat ?m :: u16)" by simp
    then have u: "unat d = ?m" using m by (simp only: unat_of_nat) simp
    have hi: "?hi = of_nat (?m div 256)" using high [of d] u by simp
    have "?lo = of_nat (unat d)" by simp
    then have lo: "?lo = of_nat ?m" unfolding u .
    have "?hi AND 0x80 = 0" using sign_bit [of "?m div 256" False] q unfolding hi by simp
    then show ?thesis using False unfolding raw2Temp_shown hi lo by simp
  next
    case True
    define M where "M = ?m"
    have M: "0 < M" "M < 2048" "sint d = - int M" using True m by (simp_all add: M_def)
    have "of_int (sint d) = d" by simp
    then have d: "d = - of_nat M" unfolding M(3) by simp
    then have n: "NOT d = of_nat (M - 1)" using M(1) by (simp add: not_eq_complement of_nat_diff)
    have un: "unat (of_nat (M - 1) :: u16) = M - 1" using M by (simp only: unat_of_nat) simp
    have "NOT ?hi = ucast (drop_bit 8 (NOT d))" by (rule bit_word_eqI) (auto simp: bit_simps)
    also have "\<dots> = of_nat ((M - 1) div 256)" unfolding high n un ..
    finally have hi: "NOT ?hi = of_nat ((M - 1) div 256)" .
    have q: "(M - 1) div 256 < 8" using M by (simp add: less_mult_imp_div_less)
    have neg: "?hi AND 0x80 \<noteq> 0"
    proof -
      have "\<not> bit (NOT ?hi) 7" using and_exp_eq_0_iff_not_bit [of "NOT ?hi" 7] sign_bit [of "(M - 1) div 256" False] q unfolding hi by simp
      then have "bit ?hi 7" by (simp add: bit_not_iff)
      then show ?thesis using and_exp_eq_0_iff_not_bit [of ?hi 7] by simp
    qed
    have "NOT ?lo = ucast (NOT d)" by (rule bit_word_eqI) (auto simp: bit_simps)
    also have "\<dots> = of_nat (unat (NOT d))" by simp
    also have "\<dots> = of_nat (M - 1)" unfolding n un ..
    finally have lo: "NOT ?lo + 1 = of_nat M" using M(1) by (simp add: of_nat_diff)
    have l0: "(of_nat M :: u8) = 0 \<longleftrightarrow> M mod 256 = 0" by (simp add: word_unat_eq_iff unat_of_nat)
    have h8: "NOT ?hi OR 0x08 = of_nat ((M - 1) div 256 + 8)"
    proof -
      have "(M - 1) div 256 = 0 \<or> (M - 1) div 256 = 1 \<or> (M - 1) div 256 = 2 \<or> (M - 1) div 256 = 3 \<or> (M - 1) div 256 = 4 \<or>
          (M - 1) div 256 = 5 \<or> (M - 1) div 256 = 6 \<or> (M - 1) div 256 = 7" using q by arith
      then show ?thesis unfolding hi by (elim disjE) simp_all
    qed
    have step: "M div 256 = (if M mod 256 = 0 then Suc ((M - 1) div 256) else (M - 1) div 256)"
      using M(1) div_Suc [of "M - 1" 256] by simp
    have h: "(if (of_nat M :: u8) = 0 then (NOT ?hi OR 0x08) + 1 else NOT ?hi OR 0x08) = of_nat (M div 256 + 8)"
      unfolding l0 h8 step by simp
    have f: "(let h = NOT ?hi OR 0x08; l = NOT ?lo + 1 in (if l = 0 then h + 1 else h, l)) = (of_nat (M div 256 + 8), of_nat M)"
      unfolding Let_def lo h ..
    show ?thesis unfolding raw2Temp_shown f using neg True by (simp only: if_True if_not_P simp_thms prod.case M_def)
  qed
qed

text \<open>The number shown is the sensor's: the integer part, the first decimal rounded, and the sign.\<close>

lemma temperature_of_raw:
  assumes "\<bar>sint d\<bar> < 2048"
  shows "stm32_ds18b20_raw2Temp d = Some \<lparr>TmpH = of_nat (nat \<bar>sint d\<bar> div 16), TmpL = of_nat ((10 * (nat \<bar>sint d\<bar> mod 16) + 8) div 16),
    Signal = (if sint d < 0 then 1 else 0)\<rparr>"
proof -
  have "nat \<bar>sint d\<bar> < 2048" using assms by simp
  from shown_magnitude [OF this, of "sint d < 0"] show ?thesis unfolding raw_bytes [OF assms] .
qed


subsection \<open>What the sensor sees\<close>

text \<open>A slot by the time that the wire is low: a reset from 480 microseconds on, a zero from 60 to 120, a one (or a read
  slot, which begins in the same way) below 15.\<close>

datatype slot = Reset | Write bool | Unknown

definition slot_of :: "nat \<Rightarrow> slot" where
  "slot_of t = (if 480 \<le> t then Reset else if 60 \<le> t \<and> t \<le> 120 then Write False else if t < 15 then Write True else Unknown)"

fun slots :: "nat option \<Rightarrow> wire list \<Rightarrow> slot list" where
  "slots low [] = []"
| "slots low (Pull # tr) = slots (Some (case low of None \<Rightarrow> 0 | Some t \<Rightarrow> t)) tr"
| "slots low (Release # tr) = (case low of None \<Rightarrow> [] | Some t \<Rightarrow> [slot_of t]) @ slots None tr"
| "slots low (Wait n # tr) = slots (map_option ((+) n) low) tr"
| "slots low (Sleep n # tr) = slots (map_option ((+) (10000 * n)) low) tr"

text \<open>The fragments that the routines append to the trace.\<close>

definition reset_wave :: "wire list" where
  "reset_wave = [Release, Wait 50, Pull, Wait 500, Release, Wait 40, Wait 500]"

definition bit_wave :: "bool \<Rightarrow> wire list" where
  "bit_wave b = [Pull, Wait 5, if b then Release else Pull, Wait 80, Release, Wait 2]"

definition byte_wave :: "u8 \<Rightarrow> wire list" where
  "byte_wave b = concat (map (\<lambda>k. bit_wave (bit b k)) [0..<8])"

definition read_wave :: "wire list" where
  "read_wave = [Pull, Wait 5, Release, Wait 5, Wait 65, Release]"

definition sample_wave :: "wire list" where
  "sample_wave = [Pull, Wait 5, Release, Wait 5]"

definition read_byte_wave :: "wire list" where
  "read_byte_wave = [Release, Wait 5] @ concat (replicate 8 read_wave)"

lemma slots_waves [simp]:
  "slots None (reset_wave @ tr) = Reset # slots None tr" "slots None (bit_wave b @ tr) = Write b # slots None tr"
  "slots None (read_wave @ tr) = Write True # slots None tr"
  by (simp_all add: reset_wave_def bit_wave_def read_wave_def slot_of_def)

lemma slots_bits: "slots None (concat (map (\<lambda>k. bit_wave (f k)) ks) @ tr) = map (\<lambda>k. Write (f k)) ks @ slots None tr"
  by (induction ks) simp_all

lemma slots_reads: "slots None (concat (replicate n read_wave) @ tr) = replicate n (Write True) @ slots None tr"
  by (induction n) simp_all

definition byte_slots :: "u8 \<Rightarrow> slot list" where
  "byte_slots b = map (\<lambda>k. Write (bit b k)) [0..<8]"

lemma slots_bytes [simp]:
  "slots None (byte_wave b @ tr) = byte_slots b @ slots None tr"
  "slots None (read_byte_wave @ tr) = replicate 8 (Write True) @ slots None tr"
  by (simp_all only: byte_wave_def byte_slots_def slots_bits read_byte_wave_def) (simp add: slots_reads)

lemma reset_appends: "snd (ds18B20_reset sensor tr) = tr @ reset_wave"
  by (simp add: ds18B20_reset_def stm32_ds18b20_delay_def reset_wave_def)

lemma low_bit: "(b :: u8) AND 1 \<noteq> 0 \<longleftrightarrow> bit b 0"
  using and_exp_eq_0_iff_not_bit [of b 0] by simp

lemma write_slots_append: "write_slots n b tr = tr @ concat (map (\<lambda>k. bit_wave (bit b k)) [0..<n])"
proof (induction n arbitrary: b tr)
  case (Suc n)
  have s: "map (\<lambda>k. bit_wave (bit b k)) [0..<Suc n] = bit_wave (bit b 0) # map (\<lambda>k. bit_wave (bit (drop_bit 1 b) k)) [0..<n]"
    by (simp add: map_upt_Suc bit_drop_bit_eq del: upt_Suc)
  show ?case using Suc.IH unfolding s by (simp add: stm32_ds18b20_delay_def bit_wave_def low_bit)
qed simp

lemma write_byte_appends: "ds18b20_write_byte b tr = tr @ byte_wave b"
  by (simp add: ds18b20_write_byte_def write_slots_append byte_wave_def)

text \<open>The bits that the sensor puts on the wire when it is sampled, least significant first.\<close>

definition sends :: "sensor \<Rightarrow> wire list \<Rightarrow> u8 \<Rightarrow> bool" where
  "sends sensor tr b \<longleftrightarrow> (\<forall>k < 8. sensor (tr @ [Release, Wait 5] @ concat (replicate k read_wave) @ sample_wave) = bit b k)"

definition shift_in :: "u8 \<Rightarrow> bool \<Rightarrow> u8" where
  "shift_in d v = (if v then drop_bit 1 d OR 0x80 else drop_bit 1 d AND 0x7f)"

lemma read_slots_step:
  "read_slots sensor (Suc n) d tr = read_slots sensor n (shift_in d (sensor (tr @ sample_wave))) (tr @ read_wave)"
  by (simp add: stm32_ds18b20_delay_def sample_wave_def read_wave_def shift_in_def Let_def)

lemma read_slots_append:
  assumes "\<forall>k < length vs. sensor (tr @ concat (replicate k read_wave) @ sample_wave) = vs ! k"
  shows "read_slots sensor (length vs) d tr = (foldl shift_in d vs, tr @ concat (replicate (length vs) read_wave))"
  using assms
proof (induction vs arbitrary: d tr)
  case (Cons v vs)
  have v: "sensor (tr @ sample_wave) = v" using Cons.prems by fastforce
  have "\<forall>k < length vs. sensor ((tr @ read_wave) @ concat (replicate k read_wave) @ sample_wave) = vs ! k"
  proof (intro allI impI)
    fix k assume "k < length vs"
    then show "sensor ((tr @ read_wave) @ concat (replicate k read_wave) @ sample_wave) = vs ! k"
      using Cons.prems [rule_format, of "Suc k"] by simp
  qed
  from Cons.IH [OF this, of "shift_in d v"] show ?case using v by (simp add: read_slots_step del: read_slots.simps)
qed simp

lemma shift_in_bit: "bit (shift_in d v) n \<longleftrightarrow> (if n = 7 then v else n < 7 \<and> bit d (Suc n))"
proof (cases "n < 8")
  case True
  then have "n = 0 \<or> n = 1 \<or> n = 2 \<or> n = 3 \<or> n = 4 \<or> n = 5 \<or> n = 6 \<or> n = 7" by (simp add: below_8)
  then show ?thesis by (elim disjE) (simp_all add: shift_in_def bit_simps impossible_bit numeral_3_eq_3)
qed (auto simp: impossible_bit)

lemma byte_of_samples: "foldl shift_in 0 (map (bit b) [0..<8]) = b"
proof (rule bit_word_eqI)
  fix n assume "n < LENGTH(8)"
  then have "n = 0 \<or> n = 1 \<or> n = 2 \<or> n = 3 \<or> n = 4 \<or> n = 5 \<or> n = 6 \<or> n = 7" by (simp add: below_8)
  then show "bit (foldl shift_in 0 (map (bit b) [0..<8])) n = bit b n" by (elim disjE) (simp_all add: shift_in_bit upt_rec numeral_eq_Suc)
qed

lemma read_byte_appends: "sends sensor tr b \<Longrightarrow> ds18b20_read_byte sensor tr = (b, tr @ read_byte_wave)"
  using read_slots_append [of "map (bit b) [0..<8]" sensor "tr @ [Release, Wait 5]" 0] byte_of_samples [of b]
  by (simp add: sends_def ds18b20_read_byte_def stm32_ds18b20_delay_def read_byte_wave_def)


text \<open>The traces of the two halves of a reading.\<close>

definition conv_wave :: "wire list" where
  "conv_wave = reset_wave @ byte_wave DS18B20_ROM_CMD_SKIP @ byte_wave DS18B20_REG_CMD_CONV @ [Sleep 80]"

definition command_wave :: "wire list" where
  "command_wave = reset_wave @ byte_wave DS18B20_ROM_CMD_SKIP @ byte_wave DS18B20_REG_CMD_READ_RAM"

lemma conv_start_appends: "stm32_ds18b20_conv_start sensor tr @ [Sleep 80] = tr @ conv_wave"
  using reset_appends [of sensor tr]
  by (cases "ds18B20_reset sensor tr") (simp add: stm32_ds18b20_conv_start_def write_byte_appends conv_wave_def)

lemma read_rawdata_appends:
  assumes "sends sensor (tr @ command_wave) lo" "sends sensor (tr @ command_wave @ read_byte_wave) hi"
  shows "stm32_ds18b20_read_rawdata sensor tr = (push_bit 8 (ucast hi) OR ucast lo, tr @ command_wave @ read_byte_wave @ read_byte_wave)"
proof -
  obtain r where r: "ds18B20_reset sensor tr = (r, tr @ reset_wave)" using reset_appends [of sensor tr] by (cases "ds18B20_reset sensor tr") simp
  have w: "ds18b20_write_byte DS18B20_REG_CMD_READ_RAM (ds18b20_write_byte DS18B20_ROM_CMD_SKIP (tr @ reset_wave)) = tr @ command_wave"
    by (simp add: write_byte_appends command_wave_def)
  show ?thesis using read_byte_appends [OF assms(1)] read_byte_appends [of sensor "(tr @ command_wave) @ read_byte_wave" hi] assms(2)
    by (simp add: stm32_ds18b20_read_rawdata_def r w)
qed

text \<open>
  Property C38. A reading: the sensor sees a reset, the commands that skip its number and start the conversion, after 800
  milliseconds a second reset, the command to read, and sixteen read slots; the number answered is the
  temperature in the two bytes that it sent, with its integer part, its first decimal rounded, and its sign.
\<close>

theorem ds18b20_reads_temperature:
  assumes "sends sensor (tr @ conv_wave @ command_wave) lo" "sends sensor (tr @ conv_wave @ command_wave @ read_byte_wave) hi"
    and "(raw :: u16) = push_bit 8 (ucast hi) OR ucast lo" "\<bar>sint raw\<bar> < 2048"
  shows "\<exists>wave. stm32_ds18b20_read_Temp sensor tr =
      Some (\<lparr>TmpH = of_nat (nat \<bar>sint raw\<bar> div 16), TmpL = of_nat ((10 * (nat \<bar>sint raw\<bar> mod 16) + 8) div 16),
        Signal = (if sint raw < 0 then 1 else 0)\<rparr>, tr @ wave) \<and>
    slots None wave = [Reset] @ byte_slots 0xCC @ byte_slots 0x44 @ [Reset] @ byte_slots 0xCC @ byte_slots 0xBE @ replicate 16 (Write True)"
proof -
  let ?wave = "conv_wave @ command_wave @ read_byte_wave @ read_byte_wave"
  have raw: "stm32_ds18b20_read_rawdata sensor (tr @ conv_wave) = (raw, tr @ ?wave)"
    using read_rawdata_appends [of sensor "tr @ conv_wave" lo hi] assms(1-3) by simp
  have "slots None ?wave = [Reset] @ byte_slots 0xCC @ byte_slots 0x44 @ [Reset] @ byte_slots 0xCC @ byte_slots 0xBE @ replicate 16 (Write True)"
    using slots_bytes(2) [of "[]"]
    by (simp add: conv_wave_def command_wave_def DS18B20_ROM_CMD_SKIP_def DS18B20_REG_CMD_CONV_def DS18B20_REG_CMD_READ_RAM_def
        replicate_add [of 8 8, simplified])
  then show ?thesis using temperature_of_raw [OF assms(4)] raw by (simp add: stm32_ds18b20_read_Temp_def conv_start_appends)
qed

text \<open>A sensor that sends 91 and 01 (hex), 25.0625 degrees: the places of its ones in the trace.\<close>

theorem ds18b20_reads_temperature_witness:
  "\<exists>wave. stm32_ds18b20_read_Temp (\<lambda>tr. length tr \<in> {213, 237, 255, 263}) [] = Some (\<lparr>TmpH = 25, TmpL = 1, Signal = 0\<rparr>, wave)"
proof -
  let ?s = "\<lambda>tr :: wire list. length tr \<in> {213, 237, 255, 263}"
  have l: "length (byte_wave b) = 48" for b by (simp add: byte_wave_def bit_wave_def length_concat sum_list_triv upt_rec)
  have lc: "length (conv_wave @ command_wave) = 207" "length read_byte_wave = 50"
    by (simp_all add: conv_wave_def command_wave_def reset_wave_def l read_byte_wave_def read_wave_def length_concat sum_list_replicate)
  have l1: "length read_wave = 6" by (simp add: read_wave_def)
  have lr: "length (concat (replicate k read_wave)) = 6 * k" for k by (simp add: read_wave_def length_concat sum_list_replicate)
  have "sends ?s ([] @ conv_wave @ command_wave) 0x91" using lc(1) unfolding sends_def all_below_8 by (simp add: lr sample_wave_def l1)
  moreover have "sends ?s ([] @ conv_wave @ command_wave @ read_byte_wave) 0x01" using lc unfolding sends_def all_below_8 by (simp add: lr sample_wave_def l1)
  ultimately show ?thesis using ds18b20_reads_temperature [of ?s "[]" "0x91" "0x01" "0x191"] by auto
qed

text \<open>
  Fact. The answer of the reset is not looked at: without a sensor the wire stays high, and the number shown is minus
  a tenth of a degree.
\<close>

theorem missing_sensor_is_a_temperature:
  "\<exists>wave. stm32_ds18b20_read_Temp (\<lambda>tr. True) tr = Some (\<lparr>TmpH = 0, TmpL = 1, Signal = 1\<rparr>, tr @ wave)"
proof -
  have s: "sends (\<lambda>tr. True) t 0xFF" for t
  proof -
    have "\<forall>k < 8. bit (0xFF :: u8) k" by (simp add: eval_nat_numeral less_Suc_eq)
    then show ?thesis by (simp add: sends_def)
  qed
  have "push_bit 8 (ucast (0xFF :: u8)) OR ucast (0xFF :: u8) = (0xFFFF :: u16)" by simp
  moreover have "sint (0xFFFF :: u16) = - 1" by simp
  ultimately show ?thesis using read_rawdata_appends [OF s s, of "tr @ conv_wave"] temperature_of_raw [of "0xFFFF"]
    by (simp add: stm32_ds18b20_read_Temp_def conv_start_appends)
qed

end
