(* ===== verification/EncryptLib.thy ===== *)
theory EncryptLib imports Prelude FlashIf DevState IapIf BitLib
begin

text \<open>
  \<open>drivers/drv_encrypt.c\<close>: binding the firmware to one chip.  At the first start the page holds the general
  identifier (twelve bytes of ones, an erased page); a code calculated from the unique identifier of the
  chip is stored there, and every later start compares the stored code with the one of its own chip.

  The unique identifier lies in the system memory of the part, which is not in the flash: \<open>peek\<close> is the content of that
  memory, an argument.  The answers of \<open>rand\<close> are the argument \<open>rnd\<close>.  C calculates the code in signed
  integers, which none of its operations leaves; a value is cut to a byte when it is stored.
\<close>

subsection \<open>The hidden constants\<close>

abbreviation (input) ENCRYPT_FLASH_ADDR :: nat where "ENCRYPT_FLASH_ADDR \<equiv> 0x08000000 + 1024 * (128 - 4)"

definition encrypt_offset_data :: "u8 list" where
  "encrypt_offset_data = [
     0x45, 0x08, 0xcb, 0x5a, 0xdd, 0x21, 0xff, 0xee, 0x62, 0xFF, 0xFF, 0x14, 0x66, 0x77, 0x44, 0x55,
     0x2b, 0x90, 0x21, 0x32, 0x42, 0x54, 0x67, 0x76, 0xea, 0xFF, 0xFF, 0x89, 0xfe, 0xef, 0x2c, 0xcd,
     0x00, 0x21, 0x22, 0x1F, 0x44, 0x65, 0xc6, 0x87, 0x88, 0xFF, 0xFF, 0xbb, 0xcc, 0x3a, 0xce, 0x2c,
     0x31, 0x10, 0x32, 0xFF, 0xe5, 0xb4, 0xf7, 0x86, 0x34, 0xFF, 0xFF, 0x01, 0xc3, 0x67, 0x54, 0x05,
     0xab, 0xbb, 0x88, 0xF7, 0xf7, 0xef, 0xcc, 0x8f, 0x33, 0xFF, 0xFF, 0x00, 0xd7, 0x66, 0x55, 0xb4,
     0x5b, 0xba, 0x99, 0xE8, 0xdf, 0xf7, 0xdd, 0xfe, 0xef, 0xFF, 0xFF, 0xcf, 0xbb, 0x3a, 0x99, 0x78,
     0x8a, 0xa9, 0xca, 0xE8 + 4, 0xdc, 0x2d, 0xfe, 0x6f, 0x2c, 0xa1, 0x30, 0x20, 0x50, 0x24, 0x76, 0x3a,
     0x48, 0x45, 0x87, 0xE8 + 8, 0x08, 0x62, 0x32, 0x23, 0x66, 0x2c, 0x4c, 0x45, 0x2c, 0x33, 0x00, 0x41]"

definition UUID_OFFSET :: "nat list" where
  "UUID_OFFSET = [0x23, 0x33, 0x43]"

definition UUID_OFFSET3 :: "nat list" where
  "UUID_OFFSET3 = [0x53, 0x63, 0x73]"

definition General_ID_OFFSET :: "nat list" where
  "General_ID_OFFSET = [0x09, 0x19, 0x29, 0x39, 0x49, 0x59, 0x0A, 0x1A, 0x2A, 0x3A, 0x4A, 0x5A]"

subsection \<open>The functions\<close>

record encrypt_mem =
  encrypt_flash :: flash_dev
  encrypt_code :: "u8 list"
  MCU_UUID :: "u8 list"
  MyIDCODE :: "u8 list"

datatype Encrypt_State = Encrypt_INIT | Encrypt_OK | Encrypt_Error

text \<open>The first shift is by \<open>2 + 0x01\<close>, since the sum binds tighter.\<close>

definition encrypt_MyIDCODE_calc :: "u8 list \<Rightarrow> u8 list" where
  "encrypt_MyIDCODE_calc pUID =
     (let p = (\<lambda>k. uint (pUID ! k));
          e4 = word_of_int (NOT (p 4) * 4);
          e7 = word_of_int (drop_bit 2 (NOT (p 7)))
      in [word_of_int (drop_bit (2 + 1) (NOT (p 0))),
          word_of_int (NOT (p 1) * 3 - 2),
          word_of_int (NOT (p 2) + 3),
          word_of_int (NOT (p 3) - 4),
          e4,
          word_of_int (NOT (p 5) XOR uint e4),
          word_of_int (push_bit 2 (NOT (p 6))),
          e7,
          word_of_int (NOT (p 8) + uint e7),
          word_of_int (push_bit 5 (NOT (p 9))),
          word_of_int (drop_bit 3 (NOT (p 10))),
          word_of_int (NOT (p 11))])"

fun save_loop :: "flash_hw \<Rightarrow> flash_dev \<Rightarrow> nat \<Rightarrow> u16 list \<Rightarrow> flash_dev \<times> nat" where
  "save_loop hw d addr [] = (d, addr)"
| "save_loop hw d addr (v # vs) = save_loop hw (fst (FLASH_ProgramHalfWord hw d addr v)) (u32_add addr 2) vs"

definition encrypt_code_save :: "flash_hw \<Rightarrow> (nat \<Rightarrow> nat) \<Rightarrow> encrypt_mem \<Rightarrow> encrypt_mem" where
  "encrypt_code_save hw rnd st =
     (let addr = ENCRYPT_FLASH_ADDR;
          pBuffer = map (\<lambda>i. u16_of (MyIDCODE st ! (2 * i)) (MyIDCODE st ! (2 * i + 1))) [0..<6];
          d = Flash_Unlock (encrypt_flash st);
          (d, result) = FLASH_ErasePage hw d addr;
          d = (if FLASH_COMPLETE = result
               then let (d, addr) = save_loop hw d addr pBuffer
                    in fst (save_loop hw d addr (map (\<lambda>i. of_nat (rnd i mod 65535)) [0..<64]))
               else d)
      in st\<lparr>encrypt_flash := Flash_Lock d\<rparr>)"

definition encrypt_code_load :: "encrypt_mem \<Rightarrow> encrypt_mem" where
  "encrypt_code_load st =
     st\<lparr>encrypt_code := concat (map (\<lambda>i. u16_bytes (read_u16 (encrypt_flash st) (u32_add ENCRYPT_FLASH_ADDR (2 * i)))) [0..<6])\<rparr>"

definition uid_word :: "(nat \<Rightarrow> u32) \<Rightarrow> nat \<Rightarrow> u32" where
  "uid_word peek k =
     (let tmp = map (\<lambda>i. ucast (encrypt_offset_data ! i) :: u32) (UUID_OFFSET @ [UUID_OFFSET3 ! k]);
          mcuID_add = push_bit 24 (tmp ! 0) + push_bit 16 (tmp ! 1) + push_bit 8 (tmp ! 2) + tmp ! 3
      in peek (unat mcuID_add))"

definition encrypt_read_ID :: "(nat \<Rightarrow> u32) \<Rightarrow> u32 list" where
  "encrypt_read_ID peek = [uid_word peek 0, uid_word peek 1, uid_word peek 2]"

definition encrypt_state_check :: "flash_hw \<Rightarrow> (nat \<Rightarrow> u32) \<Rightarrow> (nat \<Rightarrow> nat) \<Rightarrow> encrypt_mem \<Rightarrow> Encrypt_State \<times> encrypt_mem" where
  "encrypt_state_check hw peek rnd st =
     (let st = encrypt_code_load st;
          st = st\<lparr>MCU_UUID := concat (map u32_bytes (encrypt_read_ID peek))\<rparr>;
          st = st\<lparr>MyIDCODE := encrypt_MyIDCODE_calc (MCU_UUID st)\<rparr>
      in if list_all (\<lambda>i. encrypt_offset_data ! (General_ID_OFFSET ! i) = encrypt_code st ! i) [0..<12]
         then (Encrypt_INIT, encrypt_code_save hw rnd st)
         else if list_all (\<lambda>i. MyIDCODE st ! i = encrypt_code st ! i) [0..<12] then (Encrypt_OK, st)
         else (Encrypt_Error, st))"

subsection \<open>The unique identifier\<close>

definition chip_uid_bytes :: "(nat \<Rightarrow> u32) \<Rightarrow> u8 list" where
  "chip_uid_bytes peek = u32_bytes (peek 0x1FFFF7E8) @ u32_bytes (peek 0x1FFFF7EC) @ u32_bytes (peek 0x1FFFF7F0)"

lemma hidden_identifier_found: "encrypt_read_ID peek = [peek 0x1FFFF7E8, peek 0x1FFFF7EC, peek 0x1FFFF7F0]"
  by (simp add: encrypt_read_ID_def uid_word_def encrypt_offset_data_def UUID_OFFSET_def UUID_OFFSET3_def Let_def)

lemma hidden_general_identifier: "i < 12 \<Longrightarrow> encrypt_offset_data ! (General_ID_OFFSET ! i) = 0xFF"
proof -
  have "list_all (\<lambda>i. encrypt_offset_data ! (General_ID_OFFSET ! i) = 0xFF) [0..<12]"
    by (simp add: encrypt_offset_data_def General_ID_OFFSET_def upt_rec)
  then show "i < 12 \<Longrightarrow> ?thesis" by (simp add: list_all_iff)
qed

lemma length_chip_uid_bytes [simp]: "length (chip_uid_bytes peek) = 12"
  by (simp add: chip_uid_bytes_def u32_bytes_def)

subsection \<open>What the code keeps of the identifier\<close>

text \<open>The bits of each byte of the identifier that its code depends on.\<close>

definition kept_bits :: "u8 list" where
  "kept_bits = [0xF8, 0xFF, 0xFF, 0xFF, 0x3F, 0xFF, 0x3F, 0xFC, 0xFF, 0x07, 0xF8, 0xFF]"

definition same_chip :: "u8 list \<Rightarrow> u8 list \<Rightarrow> bool" where
  "same_chip u v \<longleftrightarrow> (\<forall>k < 12. u ! k AND kept_bits ! k = v ! k AND kept_bits ! k)"

lemma not_of_byte: "word_of_int (NOT (uint (p :: u8))) = NOT p"
  by (rule bit_word_eqI) (simp add: bit_simps)

lemma code_drop: "(word_of_int (drop_bit k (NOT (uint p))) = (word_of_int (drop_bit k (NOT (uint q))) :: u8)) \<longleftrightarrow> drop_bit k p = drop_bit k (q :: u8)"
proof
  assume l: "word_of_int (drop_bit k (NOT (uint p))) = (word_of_int (drop_bit k (NOT (uint q))) :: u8)"
  show "drop_bit k p = drop_bit k q"
  proof (rule bit_word_eqI)
    fix n assume "n < LENGTH(8)"
    with arg_cong [OF l, of "\<lambda>w. bit w n"] show "bit (drop_bit k p) n = bit (drop_bit k q) n"
      by (auto simp: bit_simps dest: bit_imp_le_length)
  qed
next
  assume r: "drop_bit k p = drop_bit k q"
  show "word_of_int (drop_bit k (NOT (uint p))) = (word_of_int (drop_bit k (NOT (uint q))) :: u8)"
  proof (rule bit_word_eqI)
    fix n assume "n < LENGTH(8)"
    with arg_cong [OF r, of "\<lambda>w. bit w n"] show "bit (word_of_int (drop_bit k (NOT (uint p))) :: u8) n = bit (word_of_int (drop_bit k (NOT (uint q))) :: u8) n"
      by (auto simp: bit_simps dest: bit_imp_le_length)
  qed
qed

lemma no_bit: "8 \<le> n \<Longrightarrow> \<not> bit (p :: u8) n"
  using bit_imp_le_length by fastforce

lemma kept_drop: "drop_bit 3 p = drop_bit 3 q \<longleftrightarrow> p AND 0xF8 = q AND (0xF8 :: u8)"
    "drop_bit 2 p = drop_bit 2 q \<longleftrightarrow> p AND 0xFC = q AND (0xFC :: u8)"
  by (simp_all add: bit_eq_iff [where 'a = u8] bit_simps below_8 all_conj_distrib no_bit flip: numeral_2_eq_2 numeral_3_eq_3)

lemma kept_push: "push_bit 2 p = push_bit 2 q \<longleftrightarrow> p AND 0x3F = q AND (0x3F :: u8)"
    "push_bit 5 p = push_bit 5 q \<longleftrightarrow> p AND 0x07 = q AND (0x07 :: u8)"
  by (simp_all add: bit_eq_iff [where 'a = u8] bit_simps below_8 all_conj_distrib no_bit flip: numeral_2_eq_2 numeral_3_eq_3)

lemma code_times3: "(NOT p * 3 - 2 = NOT q * 3 - 2) \<longleftrightarrow> p = (q :: u8)"
proof
  assume "NOT p * 3 - 2 = NOT q * 3 - 2"
  then have "NOT p * 3 = NOT q * 3" by (metis diff_add_cancel)
  then have "NOT p * (3 * 171) = NOT q * (3 * 171)" by (simp only: mult.assoc [symmetric])
  moreover have "(3 * 171 :: u8) = 1" by simp
  ultimately have "NOT p = NOT q" by (simp only: mult_1_right)
  then show "p = q" by (metis bit.double_compl)
qed simp

lemma code_arith:
  "word_of_int (NOT (uint p) * 3 - 2) = NOT (p :: u8) * 3 - 2"
  "word_of_int (NOT (uint p) + 3) = NOT (p :: u8) + 3"
  "word_of_int (NOT (uint p) - 4) = NOT (p :: u8) - 4"
  "word_of_int (NOT (uint p) + uint e) = NOT (p :: u8) + e"
  by (simp_all add: not_of_byte flip: wi_hom_syms)

lemma code_bits:
  "word_of_int (NOT (uint p) * 4) = push_bit 2 (NOT p :: u8)"
  "word_of_int (push_bit k (NOT (uint p))) = push_bit k (NOT p :: u8)"
  "word_of_int (NOT (uint p) XOR uint e) = NOT p XOR (e :: u8)"
proof -
  show k: "word_of_int (push_bit k (NOT (uint p))) = push_bit k (NOT p :: u8)" for k by (rule bit_word_eqI) (auto simp: bit_simps)
  show "word_of_int (NOT (uint p) * 4) = push_bit 2 (NOT p :: u8)" using k [of 2] by (simp add: push_bit_eq_mult)
  show "word_of_int (NOT (uint p) XOR uint e) = NOT p XOR (e :: u8)" by (rule bit_word_eqI) (auto simp: bit_simps)
qed

lemma push_not: "push_bit k (NOT p) = push_bit k (NOT q) \<longleftrightarrow> push_bit k p = push_bit k (q :: u8)"
  by (auto simp: bit_eq_iff bit_simps)

lemma all_kept: "p AND 0xFF = (p :: u8)"
proof -
  have "(0xFF :: u8) = - 1" by simp
  then show ?thesis by (metis and.right_neutral)
qed

lemma xor_same_right: "p XOR e = q XOR e \<longleftrightarrow> p = (q :: u8)"
  by (auto simp: bit_eq_iff bit_simps)

lemma byte_not_inj: "NOT p = NOT q \<longleftrightarrow> p = (q :: u8)"
  by (metis bit.double_compl)

lemma below_12: "k < 12 \<longleftrightarrow> k = 0 \<or> k = 1 \<or> k = 2 \<or> k = 3 \<or> k = 4 \<or> k = 5 \<or> k = 6 \<or> k = 7 \<or> k = 8 \<or> k = 9 \<or> k = 10 \<or> k = (11 :: nat)"
  by arith

lemma all_below_12:
  "(\<forall>k < (12 :: nat). P k) \<longleftrightarrow> P 0 \<and> P 1 \<and> P 2 \<and> P 3 \<and> P 4 \<and> P 5 \<and> P 6 \<and> P 7 \<and> P 8 \<and> P 9 \<and> P 10 \<and> P 11"
  unfolding below_12 by blast

lemma calc_bytes:
  "encrypt_MyIDCODE_calc u =
     (let e7 = word_of_int (drop_bit 2 (NOT (uint (u ! 7)))) in
      [word_of_int (drop_bit 3 (NOT (uint (u ! 0)))), NOT (u ! 1) * 3 - 2, NOT (u ! 2) + 3, NOT (u ! 3) - 4, push_bit 2 (NOT (u ! 4)),
       NOT (u ! 5) XOR push_bit 2 (NOT (u ! 4)), push_bit 2 (NOT (u ! 6)), e7, NOT (u ! 8) + e7, push_bit 5 (NOT (u ! 9)),
       word_of_int (drop_bit 3 (NOT (uint (u ! 10)))), NOT (u ! 11)])"
  by (simp only: encrypt_MyIDCODE_calc_def Let_def code_arith code_bits not_of_byte) simp

text \<open>Two identifiers have the same code exactly when they agree on the bits that are kept: seventeen of the 96 are lost.\<close>

lemma codes_agree: "encrypt_MyIDCODE_calc u = encrypt_MyIDCODE_calc v \<longleftrightarrow> same_chip u v"
proof -
  have a: "push_bit 2 (NOT (u ! 4)) = push_bit 2 (NOT (v ! 4)) \<longleftrightarrow> u ! 4 AND 0x3F = v ! 4 AND 0x3F"
    by (simp only: push_not kept_push)
  have b: "word_of_int (drop_bit 2 (NOT (uint (u ! 7)))) = (word_of_int (drop_bit 2 (NOT (uint (v ! 7)))) :: u8) \<longleftrightarrow>
      u ! 7 AND 0xFC = v ! 7 AND 0xFC"
    by (simp only: code_drop kept_drop)
  show ?thesis
    unfolding same_chip_def all_below_12 calc_bytes
    by (simp add: kept_bits_def Let_def code_drop push_not code_times3 kept_drop kept_push byte_not_inj all_kept)
      (use a b in \<open>auto simp: xor_same_right byte_not_inj\<close>)
qed

text \<open>No code is the general identifier: its fifth byte is a multiple of four.\<close>

lemma code_not_general: "encrypt_MyIDCODE_calc u ! 4 \<noteq> 0xFF"
proof -
  have "\<not> bit (push_bit 2 (NOT (u ! 4))) 0" by (simp add: bit_simps)
  moreover have "bit (0xFF :: u8) 0" by simp
  ultimately show ?thesis by (auto simp: calc_bytes Let_def)
qed

lemma length_calc [simp]: "length (encrypt_MyIDCODE_calc u) = 12"
  by (simp add: calc_bytes Let_def)

subsection \<open>Storing and loading the code\<close>

lemma save_loop_blank:
  assumes "nor_flash hw"
  shows "unlocked d \<Longrightarrow> even a \<Longrightarrow> blank d a (2 * length vs) \<Longrightarrow>
    save_loop hw d a vs = (d\<lparr>cells := put (cells d) a (concat (map u16_bytes vs))\<rparr>, a + 2 * length vs)"
proof (induction vs arbitrary: d a)
  case (Cons v vs)
  have b2: "blank d a 2" using Cons.prems(3) by (rule blank_sub) auto
  then have "in_flash d a" by (simp add: blank_def)
  then have a2: "u32_add a 2 = a + 2" using in_flash_less [of d a] by (intro u32_add_exact) simp
  let ?d = "d\<lparr>cells := put (cells d) a (u16_bytes v)\<rparr>"
  have p: "fst (FLASH_ProgramHalfWord hw d a v) = ?d"
    using hw_store_blank [OF assms Cons.prems(1,2) b2, of v] Cons.prems(1) by (simp add: FLASH_ProgramHalfWord_def Let_def u16_bytes_def)
  have "blank d (a + 2) (2 * length vs)" using Cons.prems(3) by (rule blank_sub) auto
  then have "blank ?d (a + 2) (2 * length vs)" by (rule blank_put) (simp add: u16_bytes_def)
  then have "save_loop hw ?d (a + 2) vs = (?d\<lparr>cells := put (cells ?d) (a + 2) (concat (map u16_bytes vs))\<rparr>, a + 2 + 2 * length vs)"
    using Cons.prems by (intro Cons.IH) auto
  moreover have "put (cells ?d) (a + 2) (concat (map u16_bytes vs)) = put (cells d) a (concat (map u16_bytes (v # vs)))"
    using put_append [of "cells d" a "u16_bytes v" "concat (map u16_bytes vs)"] by (simp add: u16_bytes_def)
  ultimately show ?case by (simp add: p a2)
qed simp

lemma even_pairs: "length xs = 2 * n \<Longrightarrow> concat (map (\<lambda>i. [xs ! (2 * i), xs ! (2 * i + 1)]) [0..<n]) = xs"
proof (induction n arbitrary: xs)
  case (Suc n)
  then obtain x y ys where xs: "xs = x # y # ys" by (cases xs; cases "tl xs") auto
  have "concat (map (\<lambda>i. [xs ! (2 * i), xs ! (2 * i + 1)]) [0..<Suc n]) =
      [x, y] @ concat (map (\<lambda>i. [ys ! (2 * i), ys ! (2 * i + 1)]) [0..<n])"
    by (simp only: upt_conv_Cons zero_less_Suc list.map concat.simps map_Suc_upt [symmetric] map_map comp_def) (simp add: xs)
  then show ?case using Suc xs by simp
qed simp

definition stored_code :: "encrypt_mem \<Rightarrow> u8 list" where
  "stored_code st = map (\<lambda>k. cells (encrypt_flash st) (ENCRYPT_FLASH_ADDR + k)) [0..<12]"

lemma encrypt_code_load_cells: "encrypt_code_load st = st\<lparr>encrypt_code := stored_code st\<rparr>"
  by (simp add: encrypt_code_load_def stored_code_def read_u16_def upt_rec u32_add_exact)

lemma encrypt_code_save_cells:
  assumes "nor_flash hw" "ready (encrypt_flash st)" "128 \<le> Get_FlashSize (encrypt_flash st)" "length (MyIDCODE st) = 12"
  shows "\<exists>m. encrypt_code_save hw rnd st = st\<lparr>encrypt_flash := (encrypt_flash st)\<lparr>locked := True, sr := FLASH_COMPLETE, cells := m\<rparr>\<rparr> \<and>
    (\<forall>k < 12. m (ENCRYPT_FLASH_ADDR + k) = MyIDCODE st ! k) \<and>
    (\<forall>b. b < ENCRYPT_FLASH_ADDR \<or> ENCRYPT_FLASH_ADDR + FLASH_PAGE_SIZE \<le> b \<longrightarrow> m b = cells (encrypt_flash st) b)"
proof -
  let ?A = "ENCRYPT_FLASH_ADDR" let ?d = "encrypt_flash st" let ?w = "wipe (cells ?d) ?A FLASH_PAGE_SIZE"
  let ?e = "?d\<lparr>locked := False, sr := FLASH_COMPLETE, cells := ?w\<rparr>"
  let ?r = "concat (map u16_bytes (map (\<lambda>i. of_nat (rnd i mod 65535)) [0..<64]))"
  have inside: "in_flash ?d (?A + k)" if "k < FLASH_PAGE_SIZE" for k
    using assms(3) that by (simp add: in_flash_def)
  have e: "FLASH_ErasePage hw (Flash_Unlock ?d) ?A = (?e, FLASH_COMPLETE)"
    using FLASH_ErasePage_wipe [OF assms(1), of "Flash_Unlock ?d" ?A] inside [of 0] by (simp add: Flash_Unlock_ready [OF assms(2)])
  have bl: "blank ?e ?A FLASH_PAGE_SIZE"
    unfolding blank_def using assms(3) by (auto simp: wipe_def erased_def in_flash_def Get_FlashSize_def)
  define vs where "vs = map (\<lambda>i. u16_of (MyIDCODE st ! (2 * i)) (MyIDCODE st ! (2 * i + 1))) [0..<6]"
  have c: "concat (map u16_bytes vs) = MyIDCODE st" "length vs = 6"
    using even_pairs [of "MyIDCODE st" 6] assms(4) by (simp_all add: vs_def comp_def)
  let ?f = "?e\<lparr>cells := put ?w ?A (MyIDCODE st)\<rparr>"
  have l1: "save_loop hw ?e ?A vs = (?f, ?A + 12)"
    using save_loop_blank [OF assms(1), of ?e ?A vs] blank_sub [OF bl, of ?A 12] by (simp add: c)
  have "blank ?e (?A + 12) 128" by (rule blank_sub [OF bl]) simp_all
  then have "blank ?f (?A + 12) 128" using blank_put [of ?e "?A + 12" 128 ?A "MyIDCODE st"] assms(4) by simp
  then have l2: "fst (save_loop hw ?f (?A + 12) (map (\<lambda>i. of_nat (rnd i mod 65535)) [0..<64])) = ?f\<lparr>cells := put (cells ?f) (?A + 12) ?r\<rparr>"
    using save_loop_blank [OF assms(1), of ?f "?A + 12" "map (\<lambda>i. of_nat (rnd i mod 65535)) [0..<64]"] by simp
  have r: "length ?r = 128" by (simp add: length_concat sum_list_triv comp_def u16_bytes_def)
  have "encrypt_code_save hw rnd st = st\<lparr>encrypt_flash := ?d\<lparr>locked := True, sr := FLASH_COMPLETE,
      cells := put (put ?w ?A (MyIDCODE st)) (?A + 12) ?r\<rparr>\<rparr>"
    by (simp only: encrypt_code_save_def Let_def e vs_def [symmetric] l1 l2 prod.case if_True refl) (simp add: Flash_Lock_def)
  moreover have "\<forall>k < 12. put (put ?w ?A (MyIDCODE st)) (?A + 12) ?r (?A + k) = MyIDCODE st ! k" using assms(4) by (simp add: put_def)
  moreover have "put (put ?w ?A (MyIDCODE st)) (?A + 12) ?r b = cells ?d b" if "b < ?A \<or> ?A + FLASH_PAGE_SIZE \<le> b" for b
    using that assms(4) r by (auto simp: put_def wipe_def)
  ultimately show ?thesis by blast
qed

subsection \<open>The states of the check\<close>

lemma encrypt_state_check_cases:
  "encrypt_state_check hw peek rnd st =
    (let code = encrypt_MyIDCODE_calc (chip_uid_bytes peek);
         st' = st\<lparr>encrypt_code := stored_code st, MCU_UUID := chip_uid_bytes peek, MyIDCODE := code\<rparr>
     in if stored_code st = replicate 12 0xFF then (Encrypt_INIT, encrypt_code_save hw rnd st')
        else if stored_code st = code then (Encrypt_OK, st') else (Encrypt_Error, st'))"
proof -
  let ?code = "encrypt_MyIDCODE_calc (chip_uid_bytes peek)"
  have l: "length (stored_code st) = 12" by (simp add: stored_code_def)
  have u: "concat (map u32_bytes (encrypt_read_ID peek)) = chip_uid_bytes peek"
    by (simp add: hidden_identifier_found chip_uid_bytes_def)
  have g: "list_all (\<lambda>i. encrypt_offset_data ! (General_ID_OFFSET ! i) = stored_code st ! i) [0..<12] \<longleftrightarrow> stored_code st = replicate 12 0xFF"
    using l by (auto simp: list_all_iff hidden_general_identifier list_eq_iff_nth_eq)
  have c: "list_all (\<lambda>i. ?code ! i = stored_code st ! i) [0..<12] \<longleftrightarrow> stored_code st = ?code"
    using l by (auto simp: list_all_iff list_eq_iff_nth_eq)
  show ?thesis
    by (simp add: encrypt_state_check_def encrypt_code_load_cells u g c Let_def)
qed

text \<open>
  Property C40. The first start binds the firmware: the check answers \<open>Encrypt_INIT\<close>, and from then on, with the
  flash it left behind, a chip is accepted if and only if its identifier agrees with that of the first chip in the
  bits that are kept; another chip gets \<open>Encrypt_Error\<close>.  The later checks change nothing in the flash, and
  the first one changes its own page only.
\<close>

theorem encrypt_binds_to_chip:
  assumes "nor_flash hw" "ready (encrypt_flash st)" "128 \<le> Get_FlashSize (encrypt_flash st)" "stored_code st = replicate 12 0xFF"
    and "encrypt_state_check hw peek rnd st = (first, st1)" "cells (encrypt_flash st2) = cells (encrypt_flash st1)"
    and "encrypt_state_check hw peek2 rnd2 st2 = (second, st3)"
  shows "first = Encrypt_INIT \<and>
    second = (if same_chip (chip_uid_bytes peek) (chip_uid_bytes peek2) then Encrypt_OK else Encrypt_Error) \<and>
    encrypt_flash st3 = encrypt_flash st2 \<and>
    (\<forall>b. b < ENCRYPT_FLASH_ADDR \<or> ENCRYPT_FLASH_ADDR + FLASH_PAGE_SIZE \<le> b \<longrightarrow> cells (encrypt_flash st1) b = cells (encrypt_flash st) b)"
proof -
  let ?c = "encrypt_MyIDCODE_calc (chip_uid_bytes peek)" let ?c' = "encrypt_MyIDCODE_calc (chip_uid_bytes peek2)"
  let ?st = "st\<lparr>encrypt_code := stored_code st, MCU_UUID := chip_uid_bytes peek, MyIDCODE := ?c\<rparr>"
  have f: "first = Encrypt_INIT" "st1 = encrypt_code_save hw rnd ?st"
    using assms(4,5) by (simp_all add: encrypt_state_check_cases Let_def)
  obtain m where m: "encrypt_flash st1 = (encrypt_flash st)\<lparr>locked := True, sr := FLASH_COMPLETE, cells := m\<rparr>"
    "\<forall>k < 12. m (ENCRYPT_FLASH_ADDR + k) = ?c ! k"
    "\<forall>b. b < ENCRYPT_FLASH_ADDR \<or> ENCRYPT_FLASH_ADDR + FLASH_PAGE_SIZE \<le> b \<longrightarrow> m b = cells (encrypt_flash st) b"
    using encrypt_code_save_cells [OF assms(1), of ?st rnd] assms(2,3) f(2) by auto
  have s: "stored_code st2 = ?c"
    using m(1,2) assms(6) by (intro nth_equalityI) (simp_all add: stored_code_def)
  have n: "?c \<noteq> replicate 12 0xFF"
  proof
    assume "?c = replicate 12 0xFF"
    then have "?c ! 4 = replicate 12 0xFF ! 4" by (rule arg_cong)
    then show False using code_not_general [of "chip_uid_bytes peek"] by simp
  qed
  have "second = (if ?c = ?c' then Encrypt_OK else Encrypt_Error)" "encrypt_flash st3 = encrypt_flash st2"
    using assms(7) n by (auto simp: encrypt_state_check_cases s Let_def split: if_splits)
  then show ?thesis using f(1) m(1,3) by (simp add: codes_agree)
qed

text \<open>Two parts whose identifiers differ in the lowest bit of the first byte only are one chip for the check.\<close>

theorem encrypt_binds_to_chip_witness:
  "\<exists>st1. encrypt_state_check nor_hw (\<lambda>a. 0) (\<lambda>i. 5)
      \<lparr>encrypt_flash = \<lparr>cells = \<lambda>a. 0xFF, locked = True, sr = FLASH_COMPLETE, flash_kb = 512, chip_uid = []\<rparr>,
        encrypt_code = [], MCU_UUID = [], MyIDCODE = []\<rparr> = (Encrypt_INIT, st1) \<and>
    fst (encrypt_state_check nor_hw (\<lambda>a. if a = 0x1FFFF7E8 then 1 else 0) (\<lambda>i. 9) st1) = Encrypt_OK \<and>
    fst (encrypt_state_check nor_hw (\<lambda>a. if a = 0x1FFFF7F0 then 0x01000000 else 0) (\<lambda>i. 9) st1) = Encrypt_Error"
proof -
  let ?st = "\<lparr>encrypt_flash = \<lparr>cells = \<lambda>a. 0xFF, locked = True, sr = FLASH_COMPLETE, flash_kb = 512, chip_uid = []\<rparr>,
    encrypt_code = [], MCU_UUID = [], MyIDCODE = []\<rparr>"
  obtain a st1 where c: "encrypt_state_check nor_hw (\<lambda>a. 0) (\<lambda>i. 5) ?st = (a, st1)" by fastforce
  have s: "ready (encrypt_flash ?st)" "128 \<le> Get_FlashSize (encrypt_flash ?st)" "stored_code ?st = replicate 12 0xFF"
    by (simp_all add: ready_def Get_FlashSize_def stored_code_def map_replicate_trivial map_replicate_const)
  have k: "fst (encrypt_state_check nor_hw p (\<lambda>i. 9) st1) =
      (if same_chip (chip_uid_bytes (\<lambda>a. 0)) (chip_uid_bytes p) then Encrypt_OK else Encrypt_Error) \<and> a = Encrypt_INIT" for p
    using encrypt_binds_to_chip [OF nor_hw_is_nor s c refl, of p "\<lambda>i. 9"] by (cases "encrypt_state_check nor_hw p (\<lambda>i. 9) st1") auto
  have "same_chip (chip_uid_bytes (\<lambda>a. 0)) (chip_uid_bytes (\<lambda>a. if a = 0x1FFFF7E8 then 1 else 0))"
    "\<not> same_chip (chip_uid_bytes (\<lambda>a. 0)) (chip_uid_bytes (\<lambda>a. if a = 0x1FFFF7F0 then 0x01000000 else 0))"
    unfolding same_chip_def all_below_12 by (simp_all add: chip_uid_bytes_def u32_bytes_def kept_bits_def)
  then show ?thesis using k c by simp
qed

text \<open>
  Fact. The page of the code lies inside the area of the application, which the boot loader fills from
  0800A000 (hex) on: in an image of more than 86016 bytes the check finds bytes of the program where it expects its code.
\<close>

theorem encrypt_page_in_application:
  assumes "86016 < n"
  shows "0x0800A000 < ENCRYPT_FLASH_ADDR \<and> ENCRYPT_FLASH_ADDR < 0x0800A000 + n \<and> encrypt_code_load st = st\<lparr>encrypt_code :=
    map (\<lambda>k. cells (encrypt_flash st) (0x0800A000 + 86016 + k)) [0..<12]\<rparr>"
  using assms by (simp add: encrypt_code_load_cells stored_code_def)

theorem encrypt_page_in_application_witness:
  "ENCRYPT_FLASH_ADDR < 0x0800A000 + OTA_BIN_MAX_SIZE"
  using encrypt_page_in_application [of OTA_BIN_MAX_SIZE] by simp

end
