(* ===== verification/Spec2Isabelle.thy ===== *)
theory Spec2Isabelle imports Prelude RingBuf DataLib CalcLib Frame FlashIf DevState IapIf CopyArea CanSearch CanOta CanSession UartOta CommDev CanThread CanMiddle TimeLib TimeCalendar TimeArith TimeDiff BootFlash BootMain BootOta BootUart BootSession DList GpioLib LedBoard LedThread CharLib PrintLib ConvLib ScanLib StrLib MemLib TimeBcd BitLib I2cLib TempLib EncryptLib
begin

text \<open>
  Verification of the firmware of an LED controller with remote update: the application
  (\<open>src/APP project\<close>, an STM32F103 program on the RT-Thread kernel) and its boot loader
  (\<open>src/IAP project\<close>).

  \<^bold>\<open>The program.\<close>  The device receives update sessions over CAN and over a serial line.  The driver's
  interrupt puts CAN frames into a ring of twenty; the middle layer joins the data of the frames of
  identifier 500 (hex) into a byte ring; the protocol thread offers the waiting bytes to the parsers
  registered at its communication device.  A parser looks for a frame (head, length, sum, tail),
  checks the address and carries the command out.  A start command stores the image header in the flash and
  erases the copy area, update commands program the packets, the end command writes the mode flag and
  resets.  After a reset the boot loader reads the flag: it starts the application, or checks the copy and
  installs it over the application, or stays in its own update loop, which speaks the same protocols.
  The application of the BMLG_LW board switches nineteen red and nineteen orange lamps: a serial interrupt
  parses commands, and a thread takes the mode of the last command and plays its light show.
  Both programs keep parameters (identifiers, modes) in pages counted from the end of the flash.

  \<^bold>\<open>Theories and sources\<close> (paths of the application under \<open>src/APP project\<close>, of the boot loader under
  \<open>src/IAP project/Projects\<close>):

  \<^item> \<open>Prelude\<close>: the machine types, 32-bit index arithmetic, array accesses that answer \<open>None\<close> outside
    the array, facts on bytes of words.
  \<^item> \<open>RingBuf\<close> (\<open>common_lib/usdl_buf.c\<close>): the byte ring; \<open>rb_list\<close> is the queue it stands for, the
    locale \<open>byte_fifo\<close> its contract, interpreted on the C routines.
  \<^item> \<open>DataLib\<close> (\<open>usdl_data.c\<close>), \<open>CalcLib\<close> (\<open>usdl_calc.c\<close>): loads and stores of words, checksums by table
    (locale \<open>linear_step\<close>, interpreted for the 8, 16 and 32 bit registers) and the sort.
  \<^item> \<open>TimeLib\<close>, \<open>TimeCalendar\<close>, \<open>TimeArith\<close>, \<open>TimeDiff\<close> (\<open>usdl_time.c\<close>): decimal calendar times; the
    second and third theory measure a time in seconds since 2000, the last holds the theorems.  \<open>TimeBcd\<close> (the
    same file): the functions on times in binary coded decimals (locale \<open>calendar_step\<close>, interpreted on the twelve
    operations of adding and subtracting).
  \<^item> \<open>CharLib\<close> (\<open>usdl_tools.c\<close>, the measuring of strings), \<open>PrintLib\<close> and \<open>ScanLib\<close> (\<open>usdl_io.c\<close>), \<open>ConvLib\<close>
    (\<open>usdl_conversion.c\<close>), \<open>StrLib\<close> (\<open>usdl_string.c\<close>): formatted output and input, conversions of numbers and bytes,
    strings that end with a zero byte.
  \<^item> \<open>MemLib\<close> (\<open>usdl_mem.c\<close>): memory areas, cyclic buffers, the pool of areas in mutual exclusion; \<open>BitLib\<close>
    (\<open>usdl_bit.c\<close>): bits of words.
  \<^item> \<open>Frame\<close>: the scanning loop that both protocols of both programs contain, as one definition over
    the largest length; frames built and frames accepted.
  \<^item> \<open>FlashIf\<close> (\<open>drivers/flash_if.c\<close> and the three routines of \<open>stm32f10x_flash.c\<close> it calls), \<open>DevState\<close>
    (the parameter structures, their packed layout and the state \<open>dev_state\<close> the handlers share), \<open>IapIf\<close>
    (\<open>drivers/iap_if.c\<close>, \<open>app/param.c\<close>): the flash and what is stored in it.
  \<^item> \<open>CopyArea\<close>: the layout of the copy area and the invariant \<open>copied\<close> of an update session.
  \<^item> \<open>CanSearch\<close> (\<open>can_search_protocol.c\<close>), \<open>CanOta\<close>, \<open>CanSession\<close> (\<open>can_ota_protocol.c\<close>, \<open>manage_id.c\<close>), \<open>UartOta\<close>
    (\<open>uart_ota_protocol.c\<close>): messages, command handlers, whole sessions.
  \<^item> \<open>CommDev\<close> (\<open>protocol_anylise_frame.c\<close>) and \<open>CanThread\<close>: the communication device over any port (locale
    \<open>comm_port\<close>) and its interpretation on the ring and the CAN parser.
  \<^item> \<open>CanMiddle\<close> (\<open>app/canbus_middle.c\<close>, \<open>drv_can.c\<close>, heartbeat and debug messages): frames on the bus.
  \<^item> \<open>BootFlash\<close> (\<open>Src/flash_if.c\<close>, \<open>Src/iap_if.c\<close> and the HAL routines they call), \<open>BootMain\<close>
    (\<open>Src/main.c\<close>): the boot loader from the reset to the jump into the application.
  \<^item> \<open>BootOta\<close> (\<open>Src/canbus_middle.c\<close>), \<open>BootUart\<close> (\<open>Src/ota_protocol.c\<close>, the receive side of
    \<open>Src/stm32_uart.c\<close>): the update loops of the boot loader; \<open>BootSession\<close>: a whole update through either of them,
    the reset and the next two starts (locale \<open>update_port\<close>, interpreted on both).
  \<^item> \<open>GpioLib\<close> (\<open>drivers/drv_switch.c\<close>, \<open>drv_breathe_led.c\<close> and the routines of \<open>stm32f10x_gpio.c\<close> and
    \<open>stm32f10x_rcc.c\<close> they call), \<open>LedBoard\<close> (\<open>bsp/BMLG_LW/app/gpio.c\<close>, \<open>gpio.h\<close>), \<open>LedThread\<close> (its thread with the
    serial interrupt): the lamps, with the registers of the ports as the state and the pictures shown
    between two delays as the output.
  \<^item> \<open>I2cLib\<close> (\<open>drivers/drv_simu_i2c.c\<close>): the bus master on two wires; the state is the level of the wires and
    what a device on the bus has seen, the device is a parameter that says when it leaves the data line high.
    \<open>TempLib\<close> (\<open>drivers/drv_18b20.c\<close>): the temperature sensor on one wire, its answers again a parameter.
  \<^item> \<open>EncryptLib\<close> (\<open>drivers/drv_encrypt.c\<close>): the code that binds the firmware to one chip, over the flash of
    \<open>FlashIf\<close>.
  \<^item> \<open>DList\<close> (\<open>common_lib/usdl_list.c\<close>): doubly linked lists over an explicit store.

  \<^bold>\<open>State and failure.\<close>  A C function that changes state is a function from the old to the new
  state.  The flash is a map from addresses to bytes with the lock and the status register of its controller; the
  controller itself is the parameter \<open>hw\<close>, of which the theorems assume \<open>nor_flash\<close>: an erase sets a page
  to ones, a half-word is programmed where it is erased and refused with an error elsewhere.
  Messages, delays and resets are the events of \<open>outbox\<close>, in order.  Results of
  C functions are values, error codes included; \<open>None\<close> means that the code read or wrote outside an array,
  dereferenced a null pointer, or (for \<open>unpack_loop\<close>, a \<open>partial_function\<close>) does not return, so
  that every theorem with \<open>Some\<close> on its left also states memory safety and termination.

  \<^bold>\<open>What is shown.\<close>  Sessions: the image that a host sends over CAN or the serial line is in the copy area
  at the end, marked for installation, and the boot loader installs an intact image and refuses a damaged
  one; a session with the boot loader itself ends, two resets later, in the new image.  Lamps: every mode
  shows exactly its film, on pins that are configured as outputs; a command that meets no other is obeyed in its round
  or the next, and a round takes at most 613 ticks.
  Receiving: the scan accepts well-formed frames only, stays in its buffer outside one
  situation, resynchronises after garbage, and the thread makes progress as long as no round leaves an array, which
  none does on garbage, broken frames and frames for other devices.  Libraries: the ring refines a bounded queue, the
  checksums equal bitwise registers and detect every corrupted byte, calendar arithmetic is exact, in coded
  digits as well, printed numbers are read back, and a granted area overlaps no area but those granted to others while it waits,
  which the code misses.
  Devices: transfers on the two wires put exactly the conditions and bits of the protocol on them, a byte that is not acknowledged and a
  held bus leave an idle bus behind; a reading of the sensor answers the temperature it sent;
  the copy protection accepts exactly the chips that share the bits its code keeps.
  Errors: where the code does not do what it means to, a theorem shows the faulty behaviour (a
  second header that is refused, a forced-update flag that cannot be read, reads behind a buffer, a header
  the boot loader misreads, a refused command byte that becomes the mode, a list position that destroys
  the head).

  \<^bold>\<open>Bounds.\<close>  Loops are structural or have a termination proof.  The controller's busy loops are cut
  at the driver's own limits (65536 polls, two tries); \<open>sum_months\<close> adds at most 1200 months, the span of
  the two-digit years; the thread theorem uses 102 rounds, since rounds are 20 ms apart and the time-out is
  100 ticks.  The session theorems hand each frame to the parser whole; a frame of more than 1023 bytes does not
  fit the receive ring of the device.  Indices are natural numbers that the model reduces modulo \<open>2 ^ 32\<close> where the code's do.

  \<^bold>\<open>Not modelled.\<close>  The RT-Thread kernel and its components, the vendors' libraries beyond the routines
  named above and the decompressor are third-party; the decompressor is a parameter of \<open>BootMain\<close>.
  Clock, converter, network and display drivers, the serial driver's registers, the real-time clock, the set-up of the pins of
  the I2C bus and the sensor, interrupt tables and thread start-up are register accesses without
  own logic.  Of \<open>common_lib\<close> the wild-card search \<open>MemMatch\<close>, the character map \<open>BytesMapChar\<close> and the wrappers
  of the decimal conversions that work in place are left out.  Delays on the I2C bus are not part of its model: only the order of
  the levels is; the delays on the sensor's wire are, since the protocol rests on them.
\<close>

end
